(* ===== verification/Flame_Prelude.thy ===== *)
theory Flame_Prelude
  imports Complex_Main
begin

text \<open>
  Shared vocabulary of the development: JavaScript errors as values, the few JavaScript
  values the components compare, the array operations of Ember's mutable arrays
  (\<open>removeObject\<close>, \<open>insertAt\<close>, \<open>replace\<close>, \<open>indexOf\<close>), and the generic lemmas
  on lists and results that the component proofs use.

  Numbers of the program are pixel counts, indexes and counters.  They are modelled as
  \<open>int\<close> or \<open>nat\<close>; JavaScript represents integers exactly up to \<open>2 ^ 53\<close>.  Where the code
  halves a number the model uses \<open>rat\<close>.
\<close>

named_theorems js_simps \<open>evaluation of the JavaScript and Ember helpers\<close>
named_theorems flame_inv \<open>invariants kept by the operations of a component\<close>

section \<open>Errors as values\<close>

text \<open>
  \<open>AssertionFailed\<close> is a failing \<open>Ember.assert\<close> (debug builds), \<open>ThrownError\<close> an explicit
  \<open>throw new Error(...)\<close>, \<open>TypeError\<close> a property read or a call on \<open>undefined\<close> or \<open>null\<close>.
\<close>

datatype js_error = AssertionFailed string | ThrownError string | TypeError

type_synonym 'a result = "js_error + 'a"

fun rbind :: "'a result \<Rightarrow> ('a \<Rightarrow> 'b result) \<Rightarrow> 'b result" where
  "rbind (Inl e) f = Inl e"
| "rbind (Inr x) f = f x"

lemma rbind_cong [fundef_cong]:
  assumes "r = r'" and "\<And>x. r' = Inr x \<Longrightarrow> f x = g x"
  shows "rbind r f = rbind r' g"
  using assms by (cases r') auto

lemma rbind_Inr_right [simp]: "rbind r Inr = r"
  by (cases r) simp_all

lemma rbind_assoc: "rbind (rbind r f) g = rbind r (\<lambda>x. rbind (f x) g)"
  by (cases r) simp_all

lemma rbind_eq_Inr [simp]: "rbind r f = Inr y \<longleftrightarrow> (\<exists>x. r = Inr x \<and> f x = Inr y)"
  by (cases r) simp_all

lemma rbind_eq_Inl: "rbind r f = Inl e \<longleftrightarrow> r = Inl e \<or> (\<exists>x. r = Inr x \<and> f x = Inl e)"
  by (cases r) simp_all

section \<open>Arrays\<close>

text \<open>\<open>indexOf\<close>: the first position of a value, \<open>-1\<close> (here \<open>None\<close>) when it is absent.\<close>

fun indexOf :: "'a list \<Rightarrow> 'a \<Rightarrow> nat option" where
  "indexOf [] y = None"
| "indexOf (x # xs) y = (if x = y then Some 0 else map_option Suc (indexOf xs y))"

text \<open>\<open>objectAt\<close>: \<open>undefined\<close> (\<open>None\<close>) outside the array.\<close>

definition objectAt :: "'a list \<Rightarrow> nat \<Rightarrow> 'a option" where
  "objectAt xs i = (if i < length xs then Some (xs ! i) else None)"

definition objectAt_int :: "'a list \<Rightarrow> int \<Rightarrow> 'a option" where
  "objectAt_int xs i = (if 0 \<le> i then objectAt xs (nat i) else None)"

text \<open>\<open>replace(start, removeCount, objects)\<close> of a mutable array.\<close>

definition replace_at :: "nat \<Rightarrow> nat \<Rightarrow> 'a list \<Rightarrow> 'a list \<Rightarrow> 'a list" where
  "replace_at start rem add xs = take start xs @ add @ drop (start + rem) xs"

text \<open>\<open>removeObject\<close> of \<open>Ember.MutableArray\<close> removes every occurrence of the object.\<close>

definition removeObject :: "'a \<Rightarrow> 'a list \<Rightarrow> 'a list" where
  "removeObject x xs = filter (\<lambda>y. y \<noteq> x) xs"

definition insertAt :: "nat \<Rightarrow> 'a \<Rightarrow> 'a list \<Rightarrow> 'a list" where
  "insertAt i x xs = take i xs @ x # drop i xs"

lemma indexOf_None [simp]: "indexOf xs y = None \<longleftrightarrow> y \<notin> set xs"
  by (induction xs) auto

lemma indexOf_Some_nth: "indexOf xs y = Some i \<Longrightarrow> i < length xs \<and> xs ! i = y"
  by (induction xs arbitrary: i) (auto split: if_splits)

lemma indexOf_nth_distinct:
  "distinct xs \<Longrightarrow> i < length xs \<Longrightarrow> indexOf xs (xs ! i) = Some i"
proof (induction xs arbitrary: i)
  case Nil
  then show ?case by simp
next
  case (Cons x xs)
  then show ?case by (cases i) auto
qed

lemma objectAt_in [simp]: "i < length xs \<Longrightarrow> objectAt xs i = Some (xs ! i)"
  by (simp add: objectAt_def)

lemma objectAt_out [simp]: "length xs \<le> i \<Longrightarrow> objectAt xs i = None"
  by (simp add: objectAt_def)

lemma objectAt_Some [simp]: "objectAt xs i = Some x \<longleftrightarrow> i < length xs \<and> xs ! i = x"
  by (auto simp: objectAt_def)

lemma objectAt_None [simp]: "objectAt xs i = None \<longleftrightarrow> length xs \<le> i"
  by (auto simp: objectAt_def)

lemma set_removeObject [simp]: "set (removeObject x xs) = set xs - {x}"
  by (auto simp: removeObject_def)

lemma distinct_removeObject [simp]: "distinct xs \<Longrightarrow> distinct (removeObject x xs)"
  by (simp add: removeObject_def)

lemma removeObject_absent [simp]: "x \<notin> set xs \<Longrightarrow> removeObject x xs = xs"
  by (induction xs) (auto simp: removeObject_def)

lemma length_insertAt [simp]: "length (insertAt i x xs) = Suc (length xs)"
  by (simp add: insertAt_def)

lemma set_insertAt [simp]: "set (insertAt i x xs) = insert x (set xs)"
proof -
  have "set xs = set (take i xs) \<union> set (drop i xs)"
    by (metis append_take_drop_id set_append)
  then show ?thesis by (auto simp: insertAt_def)
qed

lemma distinct_insertAt: "distinct xs \<Longrightarrow> x \<notin> set xs \<Longrightarrow> distinct (insertAt i x xs)"
  using set_take_disj_set_drop_if_distinct [of xs i i]
  by (auto simp: insertAt_def dest: in_set_takeD in_set_dropD)

lemma insertAt_nth: "i \<le> length xs \<Longrightarrow> insertAt i x xs ! i = x"
  by (simp add: insertAt_def nth_append)

section \<open>JavaScript values and strings\<close>

datatype jsval = JUndefined | JNull | JBool bool | JNum int | JStr string

fun truthy :: "jsval \<Rightarrow> bool" where
  "truthy JUndefined = False"
| "truthy JNull = False"
| "truthy (JBool b) = b"
| "truthy (JNum n) = (n \<noteq> 0)"
| "truthy (JStr s) = (s \<noteq> [])"

definition isNone :: "jsval \<Rightarrow> bool" where
  "isNone v \<longleftrightarrow> v = JUndefined \<or> v = JNull"

text \<open>The decimal text of a natural number, and \<open>Array.prototype.join(',')\<close>.\<close>

fun decimal :: "nat \<Rightarrow> string" where
  "decimal n = (if n < 10 then [char_of (48 + n)] else decimal (n div 10) @ [char_of (48 + n mod 10)])"

declare decimal.simps [simp del]

fun join :: "string \<Rightarrow> string list \<Rightarrow> string" where
  "join sep [] = []"
| "join sep [x] = x"
| "join sep (x # y # xs) = x @ sep @ join sep (y # xs)"

definition is_digit :: "char \<Rightarrow> bool" where
  "is_digit c \<longleftrightarrow> 48 \<le> (of_char c :: nat) \<and> of_char c \<le> (57 :: nat)"

lemma is_digit_char_of: "d < 10 \<Longrightarrow> is_digit (char_of (48 + d :: nat))"
  by (simp add: is_digit_def)

lemma decimal_digits: "list_all is_digit (decimal n)"
proof (induction n rule: decimal.induct)
  case (1 n)
  show ?case
  proof (cases "n < 10")
    case True
    then show ?thesis by (subst decimal.simps) (simp add: is_digit_char_of)
  next
    case False
    with "1.IH" show ?thesis by (subst decimal.simps) (simp add: is_digit_char_of)
  qed
qed

lemma decimal_nonempty [simp]: "decimal n \<noteq> []"
  by (subst decimal.simps) simp

definition digits_value :: "string \<Rightarrow> nat" where
  "digits_value s = foldl (\<lambda>a c. 10 * a + (of_char c - 48)) 0 s"

lemma digits_value_decimal: "digits_value (decimal n) = n"
proof (induction n rule: decimal.induct)
  case (1 n)
  show ?case
  proof (cases "n < 10")
    case True
    then show ?thesis by (subst decimal.simps) (simp add: digits_value_def)
  next
    case False
    with "1.IH" have "digits_value (decimal (n div 10)) = n div 10" by simp
    with False show ?thesis by (subst decimal.simps) (simp add: digits_value_def)
  qed
qed

lemma decimal_inj: "decimal m = decimal n \<Longrightarrow> m = n"
  by (metis digits_value_decimal)

lemma comma_not_digit: "\<not> is_digit (CHR '','')"
  by (simp add: is_digit_def)

lemma join_digits_inj:
  assumes "list_all (\<lambda>x. list_all is_digit x) xs" and "list_all (\<lambda>x. list_all is_digit x) ys"
    and "xs \<noteq> []" and "ys \<noteq> []" and "join '','' xs = join '','' ys"
  shows "xs = ys"
  using assms
proof (induction xs arbitrary: ys)
  case Nil
  then show ?case by simp
next
  case (Cons x xs)
  obtain y ys' where ys: "ys = y # ys'" using Cons.prems(4) by (cases ys) auto
  have hd: "takeWhile is_digit (join '','' (z # zs)) = z \<and>
      dropWhile is_digit (join '','' (z # zs)) = (if zs = [] then [] else CHR '','' # join '','' zs)"
    if "list_all is_digit z" for z zs
    using that comma_not_digit
    by (cases zs) (auto simp: list_all_iff takeWhile_append dropWhile_append3 takeWhile_eq_all_conv)
  have "x = y" and eq: "(if xs = [] then [] else CHR '','' # join '','' xs) = (if ys' = [] then [] else CHR '','' # join '','' ys')"
    using hd [of x xs] hd [of y ys'] Cons.prems(1,2,5) ys by auto
  moreover have "xs = ys'"
    using eq Cons.IH [of ys'] Cons.prems(1,2) ys by (auto split: if_splits)
  ultimately show ?case using ys by simp
qed

text \<open>Building a map in a loop over an array: with distinct keys every element is found.\<close>

lemma fold_upd_other:
  "k \<notin> f ` set xs \<Longrightarrow> fold (\<lambda>(j, x) m. m(f x \<mapsto> g j)) (enumerate n xs) m0 k = m0 k"
  by (induction xs arbitrary: n m0) auto

lemma fold_upd_lookup:
  assumes "distinct (map f xs)" and "j < length xs"
  shows "fold (\<lambda>(j, x) m. m(f x \<mapsto> g j)) (enumerate n xs) m0 (f (xs ! j)) = Some (g (n + j))"
  using assms
proof (induction xs arbitrary: j n m0)
  case Nil
  then show ?case by simp
next
  case (Cons x xs)
  show ?case
  proof (cases j)
    case 0
    have "fold (\<lambda>(j, x) m. m(f x \<mapsto> g j)) (enumerate (Suc n) xs) (m0(f x \<mapsto> g n)) (f x) = Some (g n)"
      using Cons.prems(1) fold_upd_other [of "f x" f xs g "Suc n" "m0(f x \<mapsto> g n)"] by simp
    with 0 show ?thesis by (simp del: fun_upd_apply)
  next
    case (Suc i)
    with Cons.prems Cons.IH [of i "Suc n"] show ?thesis by simp
  qed
qed

lemma fold_upd_dom:
  "dom (fold (\<lambda>(j, x) m. m(f x \<mapsto> g j)) (enumerate n xs) m0) = dom m0 \<union> f ` set xs"
  by (induction xs arbitrary: n m0) auto

end
