(* ===== verification/Statechart.thy ===== *)
theory Statechart
  imports Flame_Prelude
begin

text \<open>
  The statechart mixin (\<open>statechart.js\<close>): an owner with named states, each a bundle of
  optional \<open>enterState\<close>/\<open>exitState\<close> hooks and of methods that the owner proxies to
  whichever state is current.  Hooks and methods are functions on the owner, so the model
  is polymorphic in what the owner stores and in the names of its states (each view
  enumerates its own); they may throw.  The locale \<open>quiet_statechart\<close>
  is the interface that the statecharts of the views use: hooks that leave the current
  state alone.
\<close>

section \<open>States, owners, properties\<close>

record ('n, 'x) owner =
  currentFlameState :: "'n option"
  ownerData :: 'x

type_synonym ('n, 'x) hook = "('n, 'x) owner \<Rightarrow> ('n, 'x) owner result"

text \<open>
  What a handler returns: \<open>undefined\<close>, a boolean, or the marker
  \<open>ALLOW_BROWSER_DEFAULT_HANDLING\<close> of the event manager.
\<close>

datatype retval = RUndefined | RBool bool | RAllowDefault

type_synonym ('n, 'x, 'a) state_method =
  "'a list \<Rightarrow> ('n, 'x) owner \<Rightarrow> (retval \<times> ('n, 'x) owner) result"

record ('n, 'x, 'a) flame_state =
  enterState :: "('n, 'x) hook option"
  exitState :: "('n, 'x) hook option"
  methods :: "(string \<times> ('n, 'x, 'a) state_method) list"

text \<open>What \<open>this.get(stateName)\<close> may be on the owner.\<close>

datatype ('n, 'x, 'a) owner_prop = Absent | NotAState | AState "('n, 'x, 'a) flame_state"

section \<open>Transitions\<close>

definition run_hook :: "('n, 'x) hook option \<Rightarrow> ('n, 'x) hook" where
  "run_hook h c = (case h of None \<Rightarrow> Inr c | Some f \<Rightarrow> f c)"

text \<open>
  \<open>currentFlameState === newState\<close>: state objects are created one per property name, so two
  of them are the same object exactly when the names agree; before \<open>init\<close> has run both sides
  can be \<open>undefined\<close>.
\<close>

fun same_state :: "'n option \<Rightarrow> 'n \<Rightarrow> ('n, 'x, 'a) owner_prop \<Rightarrow> bool" where
  "same_state None n p = (case p of Absent \<Rightarrow> True | _ \<Rightarrow> False)"
| "same_state (Some m) n (AState s) = (m = n)"
| "same_state (Some m) n p = False"

definition exit_current :: "('n \<Rightarrow> ('n, 'x, 'a) owner_prop) \<Rightarrow> ('n, 'x) hook" where
  "exit_current get c = (case currentFlameState c of
       None \<Rightarrow> Inr c
     | Some m \<Rightarrow> (case get m of AState s \<Rightarrow> run_hook (exitState s) c | _ \<Rightarrow> Inr c))"

definition gotoFlameState ::
  "('n \<Rightarrow> ('n, 'x, 'a) owner_prop) \<Rightarrow> 'n option \<Rightarrow> ('n, 'x) hook" where
  "gotoFlameState get stateName c = (case stateName of
       None \<Rightarrow> Inl (AssertionFailed ''Cannot go to an undefined or null state!'')
     | Some n \<Rightarrow>
        (if same_state (currentFlameState c) n (get n) then Inr c
         else (case get n of
             AState s \<Rightarrow>
               rbind (exit_current get c) (\<lambda>c1.
               run_hook (enterState s) (c1\<lparr>currentFlameState := Some n\<rparr>))
           | _ \<Rightarrow> Inl (ThrownError ''%@ is not a state!''))))"

text \<open>
  \<open>invokeStateMethod\<close>.  \<open>handleKey\<close> stands for \<open>_handleKeyEvent\<close> of the event manager, whose
  boolean result is negated.
\<close>

definition js_not :: "retval \<Rightarrow> retval" where
  "js_not r = (case r of RUndefined \<Rightarrow> RBool True | RBool b \<Rightarrow> RBool (\<not> b)
                       | RAllowDefault \<Rightarrow> RBool False)"

definition invokeStateMethod ::
  "('n \<Rightarrow> ('n, 'x, 'a) owner_prop) \<Rightarrow> ('n, 'x, 'a) state_method \<Rightarrow> string \<Rightarrow> ('n, 'x, 'a) state_method" where
  "invokeStateMethod get handleKey methodName args c = (case currentFlameState c of
       None \<Rightarrow> Inl (AssertionFailed ''Cannot invoke state method without having a current state!'')
     | Some m \<Rightarrow> (case get m of
         AState s \<Rightarrow> (case map_of (methods s) methodName of
             Some f \<Rightarrow> f args c
           | None \<Rightarrow> (if methodName = ''keyDown''
                      then rbind (handleKey args c) (\<lambda>(r, c'). Inr (js_not r, c'))
                      else Inr (RUndefined, c)))
       | _ \<Rightarrow> Inl (AssertionFailed ''Cannot invoke state method without having a current state!'')))"

text \<open>
  Helpers for the concrete statecharts: updating the owner's data, attaching the methods of a
  state to its hooks, and the key handler of an owner that has none.
\<close>

definition upd :: "('x \<Rightarrow> 'x) \<Rightarrow> ('n, 'x) owner \<Rightarrow> ('n, 'x) owner" where
  "upd f c = c\<lparr>ownerData := f (ownerData c)\<rparr>"

lemma upd_simps [simp]:
  "currentFlameState (upd f c) = currentFlameState c"
  "ownerData (upd f c) = f (ownerData c)"
  by (simp_all add: upd_def)

definition with_methods ::
  "('n \<Rightarrow> ('n, 'x, 'a) owner_prop) \<Rightarrow> ('n \<Rightarrow> (string \<times> ('n, 'x, 'a) state_method) list) \<Rightarrow>
   'n \<Rightarrow> ('n, 'x, 'a) owner_prop" where
  "with_methods hooks ms n = (case hooks n of AState s \<Rightarrow> AState (s\<lparr>methods := ms n\<rparr>) | p \<Rightarrow> p)"

definition no_key :: "('n, 'x, 'a) state_method" where
  "no_key args c = Inr (RBool True, c)"

section \<open>Proxy methods and initialisation\<close>

text \<open>
  A property of the owner as \<open>_setupProxyMethods\<close> sees it: any truthy value the owner already
  has, a falsy one, or a proxy made by \<open>createProxyMethod\<close> that invokes the named state
  method on the current state.
\<close>

datatype slot = Truthy | Falsy | ProxyMethod string

definition createProxyMethod :: "string \<Rightarrow> slot" where
  "createProxyMethod methodName = ProxyMethod methodName"

fun slot_truthy :: "slot option \<Rightarrow> bool" where
  "slot_truthy None = False"
| "slot_truthy (Some Falsy) = False"
| "slot_truthy (Some s) = True"

definition proxy_step :: "string \<Rightarrow> (string \<rightharpoonup> slot) \<Rightarrow> (string \<rightharpoonup> slot)" where
  "proxy_step property slots =
     (if \<not> slot_truthy (slots property) \<and> property \<noteq> ''enterState'' \<and> property \<noteq> ''exitState''
      then slots(property \<mapsto> createProxyMethod property) else slots)"

definition setupProxyMethods ::
  "('n, 'x, 'a) flame_state \<Rightarrow> (string \<rightharpoonup> slot) \<Rightarrow> (string \<rightharpoonup> slot)" where
  "setupProxyMethods state slots = fold proxy_step (map fst (methods state)) slots"

text \<open>
  \<open>init\<close>: the states named by \<open>flameStates\<close> (or, without that list, those found by scanning the
  owner's properties) are instantiated and proxied in order, then the initial state is entered.
\<close>

definition setup_states ::
  "('n \<Rightarrow> ('n, 'x, 'a) owner_prop) \<Rightarrow> 'n list option \<Rightarrow> 'n list \<Rightarrow>
   (string \<rightharpoonup> slot) \<Rightarrow> (string \<rightharpoonup> slot) result" where
  "setup_states get flameStates ownKeys slots = (case flameStates of
       Some ks \<Rightarrow> foldl (\<lambda>r k. rbind r (\<lambda>sl. case get k of
                            AState s \<Rightarrow> Inr (setupProxyMethods s sl)
                          | _ \<Rightarrow> Inl TypeError)) (Inr slots) ks
     | None \<Rightarrow> Inr (fold (\<lambda>k sl. case get k of AState s \<Rightarrow> setupProxyMethods s sl | _ \<Rightarrow> sl)
                         ownKeys slots))"

definition init_statechart ::
  "('n \<Rightarrow> ('n, 'x, 'a) owner_prop) \<Rightarrow> 'n list option \<Rightarrow> 'n list \<Rightarrow> 'n option \<Rightarrow>
   (string \<rightharpoonup> slot) \<Rightarrow> 'x \<Rightarrow> ((string \<rightharpoonup> slot) \<times> ('n, 'x) owner) result" where
  "init_statechart get flameStates ownKeys initial slots x =
     rbind (setup_states get flameStates ownKeys slots) (\<lambda>sl.
       if initial = None then Inl (AssertionFailed ''No initial state defined for statechart!'')
       else rbind (gotoFlameState get initial \<lparr>currentFlameState = None, ownerData = x\<rparr>)
              (\<lambda>c. Inr (sl, c)))"

text \<open>Calling a method of the owner: a proxy goes to the current state.\<close>

definition call_proxy ::
  "('n \<Rightarrow> ('n, 'x, 'a) owner_prop) \<Rightarrow> ('n, 'x, 'a) state_method \<Rightarrow> (string \<rightharpoonup> slot) \<Rightarrow> string \<Rightarrow>
   ('n, 'x, 'a) state_method option" where
  "call_proxy get handleKey slots m = (case slots m of
       Some (ProxyMethod p) \<Rightarrow> Some (invokeStateMethod get handleKey p)
     | _ \<Rightarrow> None)"

section \<open>Touch events\<close>

text \<open>
  \<open>normalizeTouchEvents\<close> copies the coordinates that touch events hide in \<open>originalEvent\<close>.
  A field is overwritten when it is falsy: \<open>undefined\<close> or \<open>0\<close>.
\<close>

record coords =
  touches :: "int list option"
  pageX :: "int option"
  pageY :: "int option"
  screenX :: "int option"
  screenY :: "int option"
  clientX :: "int option"
  clientY :: "int option"

record ui_event = coords + originalEvent :: "coords option"

definition falsy_num :: "int option \<Rightarrow> bool" where
  "falsy_num x \<longleftrightarrow> x = None \<or> x = Some 0"

definition normalize_field ::
  "(coords \<Rightarrow> int option) \<Rightarrow> (ui_event \<Rightarrow> int option) \<Rightarrow> (int option \<Rightarrow> ui_event \<Rightarrow> ui_event) \<Rightarrow>
   ui_event \<Rightarrow> ui_event result" where
  "normalize_field rd rd' wr e =
     (if falsy_num (rd' e)
      then (case originalEvent e of None \<Rightarrow> Inl TypeError | Some orig \<Rightarrow> Inr (wr (rd orig) e))
      else Inr e)"

definition normalizeTouchEvents :: "ui_event \<Rightarrow> ui_event result" where
  "normalizeTouchEvents e0 =
     rbind (if touches e0 = None
            then (case originalEvent e0 of None \<Rightarrow> Inl TypeError
                  | Some orig \<Rightarrow> Inr (e0\<lparr>touches := touches orig\<rparr>))
            else Inr e0) (\<lambda>e1.
     rbind (normalize_field pageX pageX (\<lambda>v. pageX_update (\<lambda>_. v)) e1) (\<lambda>e2.
     rbind (normalize_field pageY pageY (\<lambda>v. pageY_update (\<lambda>_. v)) e2) (\<lambda>e3.
     rbind (normalize_field screenX screenX (\<lambda>v. screenX_update (\<lambda>_. v)) e3) (\<lambda>e4.
     rbind (normalize_field screenY screenY (\<lambda>v. screenY_update (\<lambda>_. v)) e4) (\<lambda>e5.
     rbind (normalize_field clientX clientX (\<lambda>v. clientX_update (\<lambda>_. v)) e5) (\<lambda>e6.
     normalize_field clientY clientY (\<lambda>v. clientY_update (\<lambda>_. v)) e6))))))"

lemma normalizeTouchEvents_total:
  "originalEvent e = Some orig \<Longrightarrow> \<exists>e'. normalizeTouchEvents e = Inr e' \<and> originalEvent e' = Some orig \<and>
     pageX e' = (if falsy_num (pageX e) then pageX orig else pageX e) \<and>
     pageY e' = (if falsy_num (pageY e) then pageY orig else pageY e)"
  by (simp add: normalizeTouchEvents_def normalize_field_def)

section \<open>Facts about proxies\<close>

lemma proxy_step_keeps_truthy: "slots m = Some s \<Longrightarrow> s \<noteq> Falsy \<Longrightarrow> proxy_step p slots m = Some s"
  by (cases s) (auto simp: proxy_step_def)

lemma fold_proxy_keeps_truthy:
  "slots m = Some s \<Longrightarrow> s \<noteq> Falsy \<Longrightarrow> fold proxy_step ps slots m = Some s"
  by (induction ps arbitrary: slots) (simp_all add: proxy_step_keeps_truthy)

lemma fold_proxy_installs:
  assumes "m \<in> set ps" and "\<not> slot_truthy (slots m)" and "m \<noteq> ''enterState''" and "m \<noteq> ''exitState''"
  shows "fold proxy_step ps slots m = Some (ProxyMethod m)"
  using assms(1,2)
proof (induction ps arbitrary: slots)
  case Nil
  then show ?case by simp
next
  case (Cons p ps)
  show ?case
  proof (cases "p = m")
    case True
    with Cons.prems assms(3,4) have "proxy_step p slots m = Some (ProxyMethod m)"
      by (simp add: proxy_step_def createProxyMethod_def)
    then show ?thesis by (simp add: fold_proxy_keeps_truthy)
  next
    case False
    with Cons show ?thesis by (simp add: proxy_step_def)
  qed
qed

lemma setupProxyMethods_installs:
  "\<lbrakk>m \<in> fst ` set (methods s); \<not> slot_truthy (slots m); m \<noteq> ''enterState''; m \<noteq> ''exitState''\<rbrakk>
   \<Longrightarrow> setupProxyMethods s slots m = Some (ProxyMethod m)"
  by (simp add: setupProxyMethods_def fold_proxy_installs)

lemma setupProxyMethods_other:
  "m \<notin> fst ` set (methods s) \<Longrightarrow> setupProxyMethods s slots m = slots m"
proof -
  have "fold proxy_step ps slots m = slots m" if "m \<notin> set ps" for ps
    using that by (induction ps arbitrary: slots) (auto simp: proxy_step_def)
  then show "m \<notin> fst ` set (methods s) \<Longrightarrow> setupProxyMethods s slots m = slots m"
    by (simp add: setupProxyMethods_def)
qed

lemma setupProxyMethods_keeps_truthy:
  "slots m = Some s \<Longrightarrow> s \<noteq> Falsy \<Longrightarrow> setupProxyMethods st slots m = Some s"
  by (simp add: setupProxyMethods_def fold_proxy_keeps_truthy)

section \<open>The interface the views rely on\<close>

text \<open>
  A quiet statechart: no hook transitions by itself.  \<open>inv\<close> is a relation between the name of
  the current state and the owner's data that the hooks re-establish: leaving a state gives
  \<open>left\<close>, entering state \<open>n\<close> from \<open>left\<close> data gives \<open>inv n\<close>.
\<close>

locale quiet_statechart =
  fixes get :: "'n \<Rightarrow> ('n, 'x, 'a) owner_prop"
    and inv :: "'n \<Rightarrow> 'x \<Rightarrow> bool"
    and left :: "'x \<Rightarrow> bool"
  assumes exit_quiet: "\<lbrakk>get m = AState s; inv m x\<rbrakk> \<Longrightarrow>
      \<exists>x'. run_hook (exitState s) \<lparr>currentFlameState = Some m, ownerData = x\<rparr>
           = Inr \<lparr>currentFlameState = Some m, ownerData = x'\<rparr> \<and> left x'"
    and enter_quiet: "\<lbrakk>get n = AState s; left x\<rbrakk> \<Longrightarrow>
      \<exists>x'. run_hook (enterState s) \<lparr>currentFlameState = Some n, ownerData = x\<rparr>
           = Inr \<lparr>currentFlameState = Some n, ownerData = x'\<rparr> \<and> inv n x'"
begin

definition in_state :: "'n \<Rightarrow> ('n, 'x) owner \<Rightarrow> bool" where
  "in_state n c \<longleftrightarrow> currentFlameState c = Some n \<and> (\<exists>s. get n = AState s) \<and> inv n (ownerData c)"

lemma goto_enters:
  assumes "in_state m c" and "get n = AState s"
  shows "\<exists>c'. gotoFlameState get (Some n) c = Inr c' \<and> in_state n c'"
proof (cases "m = n")
  case True
  with assms show ?thesis by (auto simp: gotoFlameState_def in_state_def)
next
  case False
  obtain x where c: "c = \<lparr>currentFlameState = Some m, ownerData = x\<rparr>"
    using assms(1) by (cases c) (auto simp: in_state_def)
  obtain sm where sm: "get m = AState sm" and inv: "inv m x"
    using assms(1) c by (auto simp: in_state_def)
  obtain x1 where ex: "exit_current get c = Inr \<lparr>currentFlameState = Some m, ownerData = x1\<rparr>"
    and l: "left x1"
    using exit_quiet [OF sm inv] by (auto simp: exit_current_def c sm)
  obtain x2 where "run_hook (enterState s) \<lparr>currentFlameState = Some n, ownerData = x1\<rparr>
       = Inr \<lparr>currentFlameState = Some n, ownerData = x2\<rparr>" and "inv n x2"
    using enter_quiet [OF assms(2) l] by auto
  then show ?thesis
    using False ex assms(2) sm by (simp add: gotoFlameState_def c in_state_def)
qed

lemma init_enters:
  assumes "get n = AState s" and "left x"
  shows "\<exists>c. gotoFlameState get (Some n) \<lparr>currentFlameState = None, ownerData = x\<rparr> = Inr c
             \<and> in_state n c"
  using enter_quiet [OF assms] assms
  by (auto simp: gotoFlameState_def exit_current_def in_state_def)

lemma goto_again:
  assumes "in_state m c" and "get n = AState s" and "gotoFlameState get (Some n) c = Inr c'"
  shows "gotoFlameState get (Some n) c' = Inr c'"
  using goto_enters [OF assms(1,2)] assms(2,3) by (auto simp: gotoFlameState_def in_state_def)

end

section \<open>Transition laws that hold of every statechart\<close>

lemma goto_current_noop:
  "get n = AState s \<Longrightarrow> currentFlameState c = Some n \<Longrightarrow> gotoFlameState get (Some n) c = Inr c"
  by (simp add: gotoFlameState_def)

lemma goto_unknown_throws:
  "get n = NotAState \<or> (get n = Absent \<and> currentFlameState c \<noteq> None) \<Longrightarrow>
   gotoFlameState get (Some n) c = Inl (ThrownError ''%@ is not a state!'')"
  by (cases "currentFlameState c") (auto simp: gotoFlameState_def)

section \<open>Properties\<close>

lemma setup_fold_error:
  "foldl (\<lambda>r k. rbind r (f k)) (Inl e) ks = Inl e"
  by (induction ks) simp_all

lemma setup_states_Cons:
  assumes "setup_states get (Some (k # ks)) own slots = Inr slots'"
  obtains s where "get k = AState s"
    and "setup_states get (Some ks) own (setupProxyMethods s slots) = Inr slots'"
  using assms by (cases "get k") (auto simp: setup_states_def setup_fold_error)

lemma setup_states_keeps_truthy:
  "setup_states get (Some ks) own slots = Inr slots' \<Longrightarrow> slots m = Some t \<Longrightarrow> t \<noteq> Falsy \<Longrightarrow>
   slots' m = Some t"
proof (induction ks arbitrary: slots)
  case Nil
  then show ?case by (simp add: setup_states_def)
next
  case (Cons k ks)
  obtain s where "get k = AState s"
    and "setup_states get (Some ks) own (setupProxyMethods s slots) = Inr slots'"
    using Cons.prems(1) by (rule setup_states_Cons)
  from this(2) show ?case
    by (rule Cons.IH) (use Cons.prems(2,3) setupProxyMethods_keeps_truthy in blast)+
qed

lemma setup_states_installs:
  assumes "setup_states get (Some ks) own slots = Inr slots'"
    and "k \<in> set ks" and "get k = AState s" and "m \<in> fst ` set (methods s)"
    and "m \<noteq> ''enterState''" and "m \<noteq> ''exitState''"
    and "\<not> slot_truthy (slots m) \<or> slots m = Some (ProxyMethod m)"
  shows "slots' m = Some (ProxyMethod m)"
  using assms(1,2,7)
proof (induction ks arbitrary: slots)
  case Nil
  then show ?case by simp
next
  case (Cons j ks)
  obtain sj where j: "get j = AState sj"
    and rest: "setup_states get (Some ks) own (setupProxyMethods sj slots) = Inr slots'"
    using Cons.prems(1) by (rule setup_states_Cons)
  consider (proxied) "setupProxyMethods sj slots m = Some (ProxyMethod m)"
    | (same) "setupProxyMethods sj slots m = slots m" "m \<notin> fst ` set (methods sj)"
  proof (cases "m \<in> fst ` set (methods sj)")
    case True
    show ?thesis
    proof (cases "slot_truthy (slots m)")
      case True
      with Cons.prems(3) have "slots m = Some (ProxyMethod m)" by blast
      then show ?thesis using that(1) setupProxyMethods_keeps_truthy by blast
    next
      case False
      then show ?thesis using that(1) setupProxyMethods_installs [OF True _ assms(5,6)] by blast
    qed
  next
    case False
    then show ?thesis using that(2) setupProxyMethods_other by blast
  qed
  then show ?case
  proof cases
    case proxied
    then show ?thesis using setup_states_keeps_truthy [OF rest] by blast
  next
    case same
    then have "k \<in> set ks" using Cons.prems(2) j assms(3,4) by auto
    then show ?thesis using Cons.IH [OF rest] same(1) Cons.prems(3) by simp
  qed
qed


definition lamp :: "bool \<Rightarrow> (bool, nat, unit) owner_prop" where
  "lamp b = AState \<lparr>enterState = None, exitState = None,
     methods = (if b then [] else [(''press'', \<lambda>args c. Inr (RBool True, c))])\<rparr>"


end
