(* ===== verification/Button_View.thy ===== *)
theory Button_View
  imports Statechart
begin

text \<open>
  The button (\<open>views/button_view.js\<close>): a statechart with the states \<open>idle\<close>, \<open>hover\<close>,
  \<open>mouseDownInside\<close> and \<open>mouseDownOutside\<close>.  The owner's data are the flags the style sheet
  binds to, the number of times the action was fired (what the application's action does is
  outside the view) and the callbacks pending in \<open>Ember.run.later\<close>.
\<close>

section \<open>State\<close>

datatype button_state = Idle | Hover | MouseDownInside | MouseDownOutside

datatype timer = MouseUpAndLeave | MouseUpOnly

record button =
  isHovered :: bool
  isActive :: bool
  isSelected :: bool
  isDisabled :: bool
  isSticky :: bool
  isDestroyed :: bool
  fired :: nat
  timers :: "timer list"

type_synonym button_owner = "(button_state, button) owner"
type_synonym button_hook = "(button_state, button) hook"
type_synonym button_method = "(button_state, button, unit) state_method"
type_synonym button_prop = "(button_state, button, unit) owner_prop"

section \<open>Hooks\<close>

definition hover_enterState :: button_hook where
  "hover_enterState c = Inr (upd (isHovered_update (\<lambda>_. True)) c)"

definition hover_exitState :: button_hook where
  "hover_exitState c =
     (if \<not> isDestroyed (ownerData c) then Inr (upd (isHovered_update (\<lambda>_. False)) c) else Inr c)"

definition mouseDownInside_enterState :: button_hook where
  "mouseDownInside_enterState c = Inr (upd (isActive_update (\<lambda>_. True)) c)"

definition mouseDownInside_exitState :: button_hook where
  "mouseDownInside_exitState c = Inr (upd (isActive_update (\<lambda>_. False)) c)"

fun button_hooks :: "button_state \<Rightarrow> button_prop" where
  "button_hooks Idle = AState \<lparr>enterState = None, exitState = None, methods = []\<rparr>"
| "button_hooks Hover = AState \<lparr>enterState = Some hover_enterState, exitState = Some hover_exitState,
     methods = []\<rparr>"
| "button_hooks MouseDownInside = AState \<lparr>enterState = Some mouseDownInside_enterState,
     exitState = Some mouseDownInside_exitState, methods = []\<rparr>"
| "button_hooks MouseDownOutside = AState \<lparr>enterState = None, exitState = None, methods = []\<rparr>"

abbreviation button_goto :: "button_state \<Rightarrow> button_hook" where
  "button_goto n \<equiv> gotoFlameState button_hooks (Some n)"

section \<open>Methods of the states\<close>

definition goto_then_true :: "button_state \<Rightarrow> button_method" where
  "goto_then_true n args c = rbind (button_goto n c) (\<lambda>c'. Inr (RBool True, c'))"

definition idle_mouseEnter :: button_method where
  "idle_mouseEnter = goto_then_true Hover"

definition idle_touchStart :: button_method where
  "idle_touchStart = goto_then_true MouseDownInside"

definition hover_mouseLeave :: button_method where
  "hover_mouseLeave = goto_then_true Idle"

definition hover_mouseDown :: button_method where
  "hover_mouseDown args c =
     (if \<not> isDisabled (ownerData c) then goto_then_true MouseDownInside args c
      else Inr (RBool True, c))"

definition handleClick :: "button_owner \<Rightarrow> button_owner" where
  "handleClick c =
     (let c1 = upd (fired_update Suc) c
      in if isSticky (ownerData c1) then upd (isSelected_update Not) c1 else c1)"

definition inside_mouseUp :: button_method where
  "inside_mouseUp args c = goto_then_true Hover args (handleClick c)"

definition inside_touchEnd :: button_method where
  "inside_touchEnd args c = goto_then_true Idle args (handleClick c)"

definition inside_mouseLeave :: button_method where
  "inside_mouseLeave = goto_then_true MouseDownOutside"

definition outside_mouseUp :: button_method where
  "outside_mouseUp = goto_then_true Idle"

definition outside_mouseEnter :: button_method where
  "outside_mouseEnter = goto_then_true MouseDownInside"

text \<open>The methods of each state, but for \<open>simulateClick\<close>, which calls back into the owner.\<close>

fun basic_methods :: "button_state \<Rightarrow> (string \<times> button_method) list" where
  "basic_methods Idle = [(''mouseEnter'', idle_mouseEnter), (''touchStart'', idle_touchStart)]"
| "basic_methods Hover = [(''mouseLeave'', hover_mouseLeave), (''mouseDown'', hover_mouseDown)]"
| "basic_methods MouseDownInside =
     [(''mouseUp'', inside_mouseUp), (''touchEnd'', inside_touchEnd), (''mouseLeave'', inside_mouseLeave)]"
| "basic_methods MouseDownOutside =
     [(''mouseUp'', outside_mouseUp), (''mouseEnter'', outside_mouseEnter)]"

text \<open>A call of a proxied method of the owner.\<close>

definition button_call :: "string \<Rightarrow> button_method" where
  "button_call m = invokeStateMethod (with_methods button_hooks basic_methods) no_key m"

definition idle_simulateClick :: button_method where
  "idle_simulateClick args c =
     rbind (button_goto Hover c) (\<lambda>c1.
     rbind (button_call ''mouseDown'' [] c1) (\<lambda>(_, c2).
     Inr (RUndefined, upd (timers_update (\<lambda>ts. ts @ [MouseUpAndLeave])) c2)))"

definition hover_simulateClick :: button_method where
  "hover_simulateClick args c =
     rbind (hover_mouseDown args c) (\<lambda>(_, c1).
     Inr (RUndefined, upd (timers_update (\<lambda>ts. ts @ [MouseUpOnly])) c1))"

definition button_methods :: "button_state \<Rightarrow> (string \<times> button_method) list" where
  "button_methods n = basic_methods n @
     (if n = Idle then [(''simulateClick'', idle_simulateClick)]
      else if n = Hover then [(''simulateClick'', hover_simulateClick)] else [])"

definition button_get :: "button_state \<Rightarrow> button_prop" where
  "button_get = with_methods button_hooks button_methods"

definition button_invoke :: "string \<Rightarrow> button_method" where
  "button_invoke = invokeStateMethod button_get no_key"

definition insertSpace :: button_method where
  "insertSpace args c = rbind (button_invoke ''simulateClick'' [] c) (\<lambda>(_, c'). Inr (RBool True, c'))"

section \<open>Events\<close>

text \<open>
  What can happen to a button: mouse and touch events, a key, a pending timer, the application
  enabling, disabling or destroying it.
\<close>

datatype button_event =
    Mouse string
  | Touch string
  | Space
  | Click
  | TimerFires nat
  | SetDisabled bool
  | Destroy

definition fire_timer :: "timer \<Rightarrow> button_method" where
  "fire_timer t args c = (case t of
       MouseUpAndLeave \<Rightarrow> rbind (button_invoke ''mouseUp'' [] c) (\<lambda>(_, c1). button_invoke ''mouseLeave'' [] c1)
     | MouseUpOnly \<Rightarrow> button_invoke ''mouseUp'' [] c)"

fun button_handle :: "button_event \<Rightarrow> button_owner \<Rightarrow> button_owner result" where
  "button_handle (Mouse m) c =
     (if m = ''touchStart'' \<or> m = ''touchEnd'' then Inr c
      else rbind (button_invoke m [] c) (\<lambda>(_, c'). Inr c'))"
| "button_handle (Touch m) c =
     (if m = ''touchStart'' \<or> m = ''touchEnd''
      then rbind (button_invoke m [] c) (\<lambda>(_, c'). Inr c') else Inr c)"
| "button_handle Space c = rbind (insertSpace [] c) (\<lambda>(_, c'). Inr c')"
| "button_handle Click c = rbind (button_invoke ''simulateClick'' [] c) (\<lambda>(_, c'). Inr c')"
| "button_handle (TimerFires i) c = (case objectAt (timers (ownerData c)) i of
       None \<Rightarrow> Inr c
     | Some t \<Rightarrow> rbind (fire_timer t [] (upd (timers_update (\<lambda>ts. take i ts @ drop (Suc i) ts)) c))
                      (\<lambda>(_, c'). Inr c'))"
| "button_handle (SetDisabled b) c = Inr (upd (isDisabled_update (\<lambda>_. b)) c)"
| "button_handle Destroy c = Inr (upd (isDestroyed_update (\<lambda>_. True)) c)"

definition new_button :: "bool \<Rightarrow> bool \<Rightarrow> button" where
  "new_button disabled sticky = \<lparr>isHovered = False, isActive = False, isSelected = False,
     isDisabled = disabled, isSticky = sticky, isDestroyed = False, fired = 0, timers = []\<rparr>"

definition button_init :: "bool \<Rightarrow> bool \<Rightarrow> button_owner" where
  "button_init disabled sticky =
     \<lparr>currentFlameState = Some Idle, ownerData = new_button disabled sticky\<rparr>"

inductive button_reachable :: "button_owner \<Rightarrow> bool" where
  start: "button_reachable (button_init disabled sticky)"
| step: "button_reachable c \<Longrightarrow> button_handle e c = Inr c' \<Longrightarrow> button_reachable c'"

section \<open>The statechart contract\<close>

definition button_inv :: "button_state \<Rightarrow> button \<Rightarrow> bool" where
  "button_inv n b \<longleftrightarrow> (isActive b \<longleftrightarrow> n = MouseDownInside) \<and>
     (\<not> isDestroyed b \<longrightarrow> (isHovered b \<longleftrightarrow> n = Hover))"

definition button_left :: "button \<Rightarrow> bool" where
  "button_left b \<longleftrightarrow> \<not> isActive b \<and> (\<not> isDestroyed b \<longrightarrow> \<not> isHovered b)"

lemmas button_hook_defs = hover_enterState_def hover_exitState_def mouseDownInside_enterState_def
  mouseDownInside_exitState_def

interpretation bs: quiet_statechart button_hooks button_inv button_left
proof
  fix m s x
  assume "button_hooks m = AState s" and "button_inv m x"
  then show "\<exists>x'. run_hook (exitState s) \<lparr>currentFlameState = Some m, ownerData = x\<rparr>
       = Inr \<lparr>currentFlameState = Some m, ownerData = x'\<rparr> \<and> button_left x'"
    by (cases m) (auto simp: run_hook_def button_hook_defs button_inv_def button_left_def upd_def)
next
  fix n s x
  assume "button_hooks n = AState s" and "button_left x"
  then show "\<exists>x'. run_hook (enterState s) \<lparr>currentFlameState = Some n, ownerData = x\<rparr>
       = Inr \<lparr>currentFlameState = Some n, ownerData = x'\<rparr> \<and> button_inv n x'"
    by (cases n) (auto simp: run_hook_def button_hook_defs button_inv_def button_left_def upd_def)
qed

definition button_ok :: "button_owner \<Rightarrow> bool" where
  "button_ok c \<longleftrightarrow> (\<exists>n. currentFlameState c = Some n \<and> button_inv n (ownerData c))"

lemma button_hooks_AState: "\<exists>s. button_hooks n = AState s"
  by (cases n) simp_all

lemma button_ok_in_state: "button_ok c \<longleftrightarrow> (\<exists>n. bs.in_state n c)"
  using button_hooks_AState by (auto simp: button_ok_def bs.in_state_def)

text \<open>A method is total on well-formed buttons when it returns and keeps them well formed.\<close>

definition button_total :: "button_method \<Rightarrow> bool" where
  "button_total f \<longleftrightarrow> (\<forall>args c. button_ok c \<longrightarrow> (\<exists>r c'. f args c = Inr (r, c') \<and> button_ok c'))"

lemma button_totalE:
  assumes "button_total f" and "button_ok c"
  obtains r c' where "f args c = Inr (r, c')" and "button_ok c'"
  using assms unfolding button_total_def by metis

lemma button_goto_total:
  assumes "button_ok c"
  obtains c' where "button_goto n c = Inr c'" and "button_ok c'"
proof -
  obtain s where "button_hooks n = AState s"
    using button_hooks_AState by blast
  then have "\<exists>c'. button_goto n c = Inr c' \<and> button_ok c'"
    using assms bs.goto_enters unfolding button_ok_in_state by metis
  then show thesis using that by blast
qed

lemma goto_then_true_total: "button_total (goto_then_true n)"
  unfolding button_total_def goto_then_true_def by (metis button_goto_total rbind.simps(2))

lemma handleClick_ok: "button_ok c \<Longrightarrow> button_ok (handleClick c)"
  by (simp add: button_ok_def handleClick_def button_inv_def Let_def)

lemma button_ok_timers: "button_ok c \<Longrightarrow> button_ok (upd (timers_update f) c)"
  by (simp add: button_ok_def button_inv_def)

lemma hover_mouseDown_total: "button_total hover_mouseDown"
  using goto_then_true_total [of MouseDownInside] by (simp add: button_total_def hover_mouseDown_def)

lemma click_total: "button_total inside_mouseUp" "button_total inside_touchEnd"
  using goto_then_true_total handleClick_ok
  by (simp_all add: button_total_def inside_mouseUp_def inside_touchEnd_def)

lemma basic_methods_total: "(m, f) \<in> set (basic_methods n) \<Longrightarrow> button_total f"
  by (cases n) (auto simp: idle_mouseEnter_def idle_touchStart_def hover_mouseLeave_def
      inside_mouseLeave_def outside_mouseUp_def outside_mouseEnter_def
      hover_mouseDown_total click_total goto_then_true_total)

lemma invoke_total:
  assumes "\<And>n m f. (m, f) \<in> set (ms n) \<Longrightarrow> button_total f"
  shows "button_total (invokeStateMethod (with_methods button_hooks ms) no_key m)"
  unfolding button_total_def
proof (intro allI impI)
  fix args c
  assume ok: "button_ok c"
  obtain n s where n: "currentFlameState c = Some n" "button_hooks n = AState s"
    using ok button_hooks_AState unfolding button_ok_def by metis
  show "\<exists>r c'. invokeStateMethod (with_methods button_hooks ms) no_key m args c = Inr (r, c') \<and> button_ok c'"
  proof (cases "map_of (ms n) m")
    case None
    with n ok show ?thesis
      by (simp add: invokeStateMethod_def with_methods_def no_key_def)
  next
    case (Some f)
    then have "button_total f" using assms map_of_SomeD by metis
    with Some n ok show ?thesis
      by (simp add: invokeStateMethod_def with_methods_def button_total_def)
  qed
qed

lemma idle_simulateClick_total: "button_total idle_simulateClick"
  unfolding button_total_def
proof (intro allI impI)
  fix args c
  assume "button_ok c"
  then obtain c1 where c1: "button_goto Hover c = Inr c1" "button_ok c1"
    using button_goto_total by blast
  have "button_total (button_call ''mouseDown'')"
    unfolding button_call_def by (rule invoke_total) (rule basic_methods_total)
  then obtain r c2 where "button_call ''mouseDown'' [] c1 = Inr (r, c2)" "button_ok c2"
    using c1(2) by (rule button_totalE)
  with c1 show "\<exists>r c'. idle_simulateClick args c = Inr (r, c') \<and> button_ok c'"
    by (simp add: idle_simulateClick_def button_ok_timers)
qed

lemma hover_simulateClick_total: "button_total hover_simulateClick"
  unfolding button_total_def
proof (intro allI impI)
  fix args c
  assume "button_ok c"
  then obtain r c1 where "hover_mouseDown args c = Inr (r, c1)" "button_ok c1"
    by (rule button_totalE [OF hover_mouseDown_total])
  then show "\<exists>r c'. hover_simulateClick args c = Inr (r, c') \<and> button_ok c'"
    by (simp add: hover_simulateClick_def button_ok_timers)
qed

lemma button_methods_total: "(m, f) \<in> set (button_methods n) \<Longrightarrow> button_total f"
  using basic_methods_total [of m f n] idle_simulateClick_total hover_simulateClick_total
  by (auto simp: button_methods_def split: if_splits)

lemma button_invoke_total: "button_total (button_invoke m)"
  unfolding button_invoke_def button_get_def by (rule invoke_total) (rule button_methods_total)

lemma fire_timer_total: "button_total (fire_timer t)"
  unfolding button_total_def
proof (intro allI impI)
  fix args c
  assume ok: "button_ok c"
  obtain r c1 where 1: "button_invoke ''mouseUp'' [] c = Inr (r, c1)" "button_ok c1"
    by (rule button_totalE [OF button_invoke_total ok])
  obtain r' c2 where "button_invoke ''mouseLeave'' [] c1 = Inr (r', c2)" "button_ok c2"
    by (rule button_totalE [OF button_invoke_total 1(2)])
  with 1 show "\<exists>r c'. fire_timer t args c = Inr (r, c') \<and> button_ok c'"
    by (cases t) (simp_all add: fire_timer_def)
qed

lemma drop_total:
  assumes "button_total f" and "button_ok c"
  shows "\<exists>c'. (\<exists>r. f args c = Inr (r, c')) \<and> button_ok c'"
  using assms unfolding button_total_def by metis

text \<open>No event makes a well-formed button throw, and each keeps it well formed.\<close>

lemma button_handle_total [flame_inv]:
  assumes "button_ok c"
  shows "\<exists>c'. button_handle e c = Inr c' \<and> button_ok c'"
proof (cases e)
  case (TimerFires i)
  show ?thesis
  proof (cases "objectAt (timers (ownerData c)) i")
    case None
    with TimerFires assms show ?thesis by simp
  next
    case (Some t)
    then show ?thesis
      using TimerFires drop_total [OF fire_timer_total button_ok_timers [OF assms]] by simp
  qed
next
  case Destroy
  with assms show ?thesis by (auto simp: button_ok_def button_inv_def)
qed (use assms drop_total [OF button_invoke_total assms] in
      \<open>simp_all add: insertSpace_def button_ok_def button_inv_def\<close>)

lemma button_init_ok: "button_ok (button_init d s)"
  by (simp add: button_ok_def button_init_def button_inv_def new_button_def)

lemma button_reachable_ok: "button_reachable c \<Longrightarrow> button_ok c"
proof (induction rule: button_reachable.induct)
  case (start d s)
  show ?case by (rule button_init_ok)
next
  case (step c e c')
  then show ?case using button_handle_total [of c e] by auto
qed

section \<open>Runs\<close>

fun button_run :: "button_event list \<Rightarrow> button_owner \<Rightarrow> button_owner result" where
  "button_run [] c = Inr c"
| "button_run (e # es) c = rbind (button_handle e c) (button_run es)"

lemma button_run_total: "button_ok c \<Longrightarrow> \<exists>c'. button_run es c = Inr c' \<and> button_ok c'"
proof (induction es arbitrary: c)
  case Nil
  then show ?case by simp
next
  case (Cons e es)
  obtain c1 where "button_handle e c = Inr c1" "button_ok c1"
    using button_handle_total [OF Cons.prems] by blast
  with Cons.IH show ?case by simp
qed

section \<open>Disabled buttons\<close>

definition calm :: "nat \<Rightarrow> button_owner \<Rightarrow> bool" where
  "calm k c \<longleftrightarrow> (currentFlameState c = Some Idle \<or> currentFlameState c = Some Hover) \<and>
     isDisabled (ownerData c) \<and> fired (ownerData c) = k"

lemma calm_goto:
  assumes "calm k c" and "n = Idle \<or> n = Hover"
  obtains c' where "button_goto n c = Inr c'" and "calm k c'" and "currentFlameState c' = Some n"
proof -
  have "\<exists>c'. button_goto n c = Inr c' \<and> calm k c' \<and> currentFlameState c' = Some n"
    using assms by (auto simp: calm_def gotoFlameState_def exit_current_def run_hook_def
        button_hook_defs)
  then show thesis using that by blast
qed

lemma calm_upd_timers [simp]: "calm k (upd (timers_update f) c) = calm k c"
  by (simp add: calm_def)

lemma calm_goto_true:
  assumes "calm k c" and "n = Idle \<or> n = Hover"
  shows "\<exists>r c'. goto_then_true n args c = Inr (r, c') \<and> calm k c'"
  by (rule calm_goto [OF assms]) (simp add: goto_then_true_def)

lemma calm_mouseDown: "calm k c \<Longrightarrow> hover_mouseDown args c = Inr (RBool True, c)"
  by (simp add: hover_mouseDown_def calm_def)

lemma calm_idle_click:
  assumes "calm k c"
  shows "\<exists>r c'. idle_simulateClick args c = Inr (r, c') \<and> calm k c'"
proof -
  obtain ch where ch: "button_goto Hover c = Inr ch" "calm k ch" "currentFlameState ch = Some Hover"
    by (rule calm_goto [OF assms, of Hover]) simp
  have "button_call ''mouseDown'' [] ch = Inr (RBool True, ch)"
    using ch(3) calm_mouseDown [OF ch(2)]
    by (simp add: button_call_def invokeStateMethod_def with_methods_def)
  with ch show ?thesis by (simp add: idle_simulateClick_def)
qed

lemma calm_invoke:
  assumes "calm k c" and "m \<noteq> ''touchStart''"
  shows "\<exists>r c'. button_invoke m [] c = Inr (r, c') \<and> calm k c'"
proof -
  have "currentFlameState c = Some Idle \<or> currentFlameState c = Some Hover"
    using assms(1) by (simp add: calm_def)
  then show ?thesis
    using assms calm_goto_true [OF assms(1)] calm_idle_click [OF assms(1)] calm_mouseDown [OF assms(1)]
    by (auto simp: button_invoke_def invokeStateMethod_def button_get_def with_methods_def
        button_methods_def idle_mouseEnter_def hover_mouseLeave_def hover_simulateClick_def no_key_def)
qed

text \<open>Events other than touches and the application enabling the button.\<close>

fun touch_free :: "button_event \<Rightarrow> bool" where
  "touch_free (Touch m) = False"
| "touch_free (SetDisabled b) = b"
| "touch_free e = True"

lemma calm_timer:
  assumes "calm k c"
  shows "\<exists>r c'. fire_timer t args c = Inr (r, c') \<and> calm k c'"
proof -
  obtain r c1 where 1: "button_invoke ''mouseUp'' [] c = Inr (r, c1)" "calm k c1"
    using calm_invoke [OF assms, of "''mouseUp''"] by auto
  obtain r' c2 where "button_invoke ''mouseLeave'' [] c1 = Inr (r', c2)" "calm k c2"
    using calm_invoke [OF 1(2), of "''mouseLeave''"] by auto
  with 1 show ?thesis by (cases t) (simp_all add: fire_timer_def)
qed

lemma calm_handle:
  assumes "calm k c" and "touch_free e"
  shows "\<exists>c'. button_handle e c = Inr c' \<and> calm k c'"
proof (cases e)
  case (Mouse m)
  with assms calm_invoke [OF assms(1), of m] show ?thesis by auto
next
  case Space
  with calm_invoke [OF assms(1), of "''simulateClick''"] show ?thesis
    by (auto simp: insertSpace_def)
next
  case Click
  with calm_invoke [OF assms(1), of "''simulateClick''"] show ?thesis by auto
next
  case (TimerFires i)
  show ?thesis
  proof (cases "objectAt (timers (ownerData c)) i")
    case None
    with TimerFires assms(1) show ?thesis by simp
  next
    case (Some t)
    obtain r c' where "fire_timer t [] (upd (timers_update (\<lambda>ts. take i ts @ drop (Suc i) ts)) c) = Inr (r, c')"
      "calm k c'"
      using calm_timer assms(1) calm_upd_timers by metis
    with Some TimerFires show ?thesis by simp
  qed
qed (use assms in \<open>simp_all add: calm_def\<close>)

lemma calm_run:
  "\<lbrakk>calm k c; list_all touch_free es\<rbrakk> \<Longrightarrow> \<exists>c'. button_run es c = Inr c' \<and> calm k c'"
proof (induction es arbitrary: c)
  case Nil
  then show ?case by simp
next
  case (Cons e es)
  then obtain c1 where "button_handle e c = Inr c1" "calm k c1"
    using calm_handle by fastforce
  with Cons show ?case by simp
qed

section \<open>Properties\<close>

text \<open>
  In every reachable state the style flags of a button tell its statechart state:
  \<open>isActive\<close> exactly while the mouse is held inside, \<open>isHovered\<close> exactly in \<open>hover\<close> (until the
  view is destroyed).
\<close>

theorem button_flags_follow_state:
  assumes "button_reachable c"
  shows "\<exists>n. currentFlameState c = Some n \<and>
    (isActive (ownerData c) \<longleftrightarrow> n = MouseDownInside) \<and>
    (\<not> isDestroyed (ownerData c) \<longrightarrow> (isHovered (ownerData c) \<longleftrightarrow> n = Hover))"
  using button_reachable_ok [OF assms] by (simp add: button_ok_def button_inv_def)

theorem button_flags_follow_state_witness:
  "\<exists>n. currentFlameState (button_init False False) = Some n \<and>
    (isActive (ownerData (button_init False False)) \<longleftrightarrow> n = MouseDownInside)"
  using button_flags_follow_state [OF button_reachable.start [of False False]] by blast

text \<open>
  No sequence of events, timers and property changes makes a reachable button throw, and the
  state it ends in is reachable.
\<close>

theorem button_events_never_throw:
  assumes "button_reachable c"
  shows "\<exists>c'. button_run es c = Inr c' \<and> button_reachable c'"
  using assms
proof (induction es arbitrary: c)
  case Nil
  then show ?case by simp
next
  case (Cons e es)
  obtain c1 where "button_handle e c = Inr c1"
    using button_handle_total [OF button_reachable_ok [OF Cons.prems]] by blast
  with Cons.IH [OF button_reachable.step [OF Cons.prems]] show ?case by simp
qed

theorem button_events_never_throw_witness:
  "\<exists>c'. button_run [Mouse ''mouseEnter'', Space, TimerFires 0, Destroy] (button_init False True) = Inr c' \<and>
        button_reachable c'"
  using button_events_never_throw [OF button_reachable.start [of False True]] by blast

text \<open>
  A disabled button that is idle or hovered does not fire its action on any sequence of mouse
  events, key presses, simulated clicks and pending timers, as long as it stays disabled and is
  not touched; the run never throws.
\<close>

theorem disabled_button_ignores_mouse_and_keys:
  assumes "currentFlameState c = Some Idle \<or> currentFlameState c = Some Hover"
    and "isDisabled (ownerData c)" and "list_all touch_free es"
  shows "\<exists>c'. button_run es c = Inr c' \<and> fired (ownerData c') = fired (ownerData c)"
  using calm_run [of "fired (ownerData c)" c es] assms by (auto simp: calm_def)

theorem disabled_button_ignores_mouse_and_keys_witness:
  "\<exists>c'. button_run [Mouse ''mouseEnter'', Mouse ''mouseDown'', Mouse ''mouseUp'', Space, TimerFires 0]
      (button_init True False) = Inr c' \<and> fired (ownerData c') = 0"
  using disabled_button_ignores_mouse_and_keys [of "button_init True False"
      "[Mouse ''mouseEnter'', Mouse ''mouseDown'', Mouse ''mouseUp'', Space, TimerFires 0]"]
  by (simp add: button_init_def new_button_def)

text \<open>
  The guard that keeps a disabled button from firing is missing on the touch path: \<open>touchStart\<close>
  enters \<open>mouseDownInside\<close> without looking at \<open>isDisabled\<close>, and \<open>touchEnd\<close> then fires the action,
  whatever the button's flags.
\<close>

theorem disabled_button_fires_on_touch:
  "\<exists>c'. button_run [Touch ''touchStart'', Touch ''touchEnd''] (button_init True sticky) = Inr c' \<and>
        isDisabled (ownerData c') \<and> fired (ownerData c') = 1 \<and> currentFlameState c' = Some Idle"
  by (simp add: button_init_def new_button_def button_invoke_def invokeStateMethod_def button_get_def
      with_methods_def button_methods_def idle_touchStart_def goto_then_true_def gotoFlameState_def
      exit_current_def run_hook_def button_hook_defs inside_touchEnd_def handleClick_def Let_def)

end
