(* ===== verification/Split_View.thy ===== *)
theory Split_View
  imports Statechart
begin

text \<open>
  The split views (\<open>views/split_view.js\<close>, \<open>horizontal_split_view.js\<close>,
  \<open>vertical_split_view.js\<close>) and their divider (\<open>split_view_divider_view_base.js\<close>).

  \<open>_updateLayout\<close> observes the properties it sets, so each \<open>set\<close> that changes a value runs it
  again before it returns.  The model keeps that recursion, with fuel; the lemmas show that
  \<open>observer_depth\<close> is enough and that the result is the one-pass solution of the two minimum sizes.
\<close>

section \<open>JavaScript numbers of the sizes\<close>

text \<open>A size is \<open>undefined\<close>, \<open>NaN\<close> or a number of pixels.\<close>

datatype dim = Undef | NaN | Px int

fun dim_plus :: "dim \<Rightarrow> dim \<Rightarrow> dim" where
  "dim_plus (Px a) (Px b) = Px (a + b)"
| "dim_plus _ _ = NaN"

fun dim_minus :: "dim \<Rightarrow> dim \<Rightarrow> dim" where
  "dim_minus (Px a) (Px b) = Px (a - b)"
| "dim_minus _ _ = NaN"

text \<open>\<open>typeof x === 'number' && x < m\<close>\<close>

fun below :: "dim \<Rightarrow> int \<Rightarrow> bool" where
  "below (Px a) m = (a < m)"
| "below _ m = False"

text \<open>Strict equality: \<open>NaN\<close> is not equal to itself.\<close>

fun dim_same :: "dim \<Rightarrow> dim \<Rightarrow> bool" where
  "dim_same Undef Undef = True"
| "dim_same (Px a) (Px b) = (a = b)"
| "dim_same _ _ = False"

lemma dim_same_eq: "dim_same a b \<longleftrightarrow> a = b \<and> a \<noteq> NaN"
  by (cases a; cases b) auto

text \<open>\<open>totalHeight !== null && totalHeight !== 0\<close>\<close>

definition total_known :: "int option \<Rightarrow> bool" where
  "total_known T \<longleftrightarrow> T \<noteq> None \<and> T \<noteq> Some 0"

text \<open>A coordinate given to \<open>_setDimensions\<close>: a size or the empty string.\<close>

datatype coord = Blank | Size dim

record box =
  box_left :: coord
  box_right :: coord
  box_top :: coord
  box_bottom :: coord
  box_height :: coord
  box_width :: coord

definition no_box :: box where
  "no_box = \<lparr>box_left = Blank, box_right = Blank, box_top = Blank, box_bottom = Blank,
             box_height = Blank, box_width = Blank\<rparr>"

section \<open>Horizontal split view\<close>

datatype hflex = FlexBottom | FlexTop | HFlexOther

record hsplit =
  topHeight :: dim
  bottomHeight :: dim
  minTopHeight :: int
  minBottomHeight :: int
  hflex :: hflex
  h_dividerThickness :: int
  h_allowResizing :: bool
  h_total :: "int option"
  unCollapsedTopHeight :: dim
  unCollapsedBottomHeight :: dim
  resizeStartY :: dim
  resizeStartTopHeight :: dim
  resizeStartBottomHeight :: dim
  topView :: box
  h_dividerView :: box
  bottomView :: box

text \<open>The local computation of \<open>_updateLayout\<close>: the two heights it is going to set.\<close>

definition h_solve :: "hsplit \<Rightarrow> dim \<times> dim" where
  "h_solve s =
     (let T = Px (the (h_total s));
          d = Px (h_dividerThickness s);
          t0 = (if hflex s = FlexBottom then topHeight s else Undef);
          b0 = (if hflex s = FlexTop then bottomHeight s else Undef);
          t1 = (if t0 = Undef \<and> b0 \<noteq> Undef \<and> total_known (h_total s)
                then dim_minus (dim_minus T b0) d else t0);
          b1 = (if b0 = Undef \<and> t1 \<noteq> Undef \<and> total_known (h_total s)
                then dim_minus (dim_minus T t1) d else b0);
          (t2, b2) = (if below t1 (minTopHeight s)
                      then (Px (minTopHeight s), dim_plus b1 (dim_minus t1 (Px (minTopHeight s))))
                      else (t1, b1));
          (t3, b3) = (if below b2 (minBottomHeight s)
                      then (dim_plus t2 (dim_minus b2 (Px (minBottomHeight s))), Px (minBottomHeight s))
                      else (t2, b2))
      in (t3, b3))"

definition h_setDimensions :: "coord \<Rightarrow> coord \<Rightarrow> coord \<Rightarrow> box \<Rightarrow> box" where
  "h_setDimensions tp ht bt v =
     v\<lparr>box_left := Size (Px 0), box_height := ht, box_right := Size (Px 0),
       box_top := tp, box_bottom := bt\<rparr>"

definition h_place :: "dim \<Rightarrow> dim \<Rightarrow> hsplit \<Rightarrow> hsplit" where
  "h_place t b s =
     (let d = Px (h_dividerThickness s) in
      if hflex s = FlexBottom then
        s\<lparr>topView := h_setDimensions (Size (Px 0)) (Size t) Blank (topView s),
          h_dividerView := h_setDimensions (Size t) (Size d) Blank (h_dividerView s),
          bottomView := h_setDimensions (Size (dim_plus t d)) Blank (Size (Px 0)) (bottomView s)\<rparr>
      else
        s\<lparr>topView := h_setDimensions (Size (Px 0)) Blank (Size (dim_plus b d)) (topView s),
          h_dividerView := h_setDimensions Blank (Size d) (Size b) (h_dividerView s),
          bottomView := h_setDimensions Blank (Size b) (Size (Px 0)) (bottomView s)\<rparr>)"

text \<open>
  \<open>_updateLayout\<close>: \<open>set\<close> of a changed height runs the observer, which is \<open>_updateLayout\<close> itself,
  before it returns; \<open>None\<close> means the observers are still calling each other when the fuel is spent.
\<close>

fun h_updateLayout :: "nat \<Rightarrow> hsplit \<Rightarrow> hsplit option" where
  "h_updateLayout 0 s = None"
| "h_updateLayout (Suc n) s =
     (let (t, b) = h_solve s in
      Option.bind (if dim_same (topHeight s) t then Some s
                   else h_updateLayout n (s\<lparr>topHeight := t\<rparr>)) (\<lambda>s1.
      Option.bind (if dim_same (bottomHeight s1) b then Some s1
                   else h_updateLayout n (s1\<lparr>bottomHeight := b\<rparr>)) (\<lambda>s2.
      Some (h_place t b s2))))"

text \<open>The depth of observer calls that is enough (shown below).\<close>

definition observer_depth :: nat where
  "observer_depth = 4"

definition h_setTopHeight :: "dim \<Rightarrow> hsplit \<Rightarrow> hsplit option" where
  "h_setTopHeight v s = (if dim_same (topHeight s) v then Some s
                         else h_updateLayout observer_depth (s\<lparr>topHeight := v\<rparr>))"

definition h_setBottomHeight :: "dim \<Rightarrow> hsplit \<Rightarrow> hsplit option" where
  "h_setBottomHeight v s = (if dim_same (bottomHeight s) v then Some s
                            else h_updateLayout observer_depth (s\<lparr>bottomHeight := v\<rparr>))"

definition h_init :: "hsplit \<Rightarrow> hsplit" where
  "h_init s = (if hflex s = FlexBottom then s\<lparr>bottomHeight := Undef\<rparr> else s\<lparr>topHeight := Undef\<rparr>)"

definition h_didInsertElement :: "int option \<Rightarrow> hsplit \<Rightarrow> hsplit option" where
  "h_didInsertElement innerHeight s = h_updateLayout observer_depth (s\<lparr>h_total := innerHeight\<rparr>)"

definition h_toggleCollapse :: "hsplit \<Rightarrow> hsplit option" where
  "h_toggleCollapse s =
     (if \<not> h_allowResizing s then Some s
      else if hflex s = FlexBottom then
        (if dim_same (topHeight s) (Px (minTopHeight s)) \<and> unCollapsedTopHeight s \<noteq> Undef
         then h_setTopHeight (unCollapsedTopHeight s) s
         else h_setTopHeight (Px (minTopHeight s)) (s\<lparr>unCollapsedTopHeight := topHeight s\<rparr>))
      else
        (if dim_same (bottomHeight s) (Px (minBottomHeight s)) \<and> unCollapsedBottomHeight s \<noteq> Undef
         then h_setBottomHeight (unCollapsedBottomHeight s) s
         else h_setBottomHeight (Px (minBottomHeight s)) (s\<lparr>unCollapsedBottomHeight := bottomHeight s\<rparr>)))"

definition h_startResize :: "dim \<Rightarrow> hsplit \<Rightarrow> hsplit" where
  "h_startResize y s = s\<lparr>resizeStartY := y, resizeStartTopHeight := topHeight s,
                          resizeStartBottomHeight := bottomHeight s\<rparr>"

definition h_resize :: "dim \<Rightarrow> hsplit \<Rightarrow> hsplit option" where
  "h_resize y s =
     (if hflex s = FlexBottom
      then h_setTopHeight (dim_plus (resizeStartTopHeight s) (dim_minus y (resizeStartY s))) s
      else h_setBottomHeight (dim_minus (resizeStartBottomHeight s) (dim_minus y (resizeStartY s))) s)"

section \<open>Vertical split view\<close>

datatype vflex = FlexRight | FlexLeft | VFlexOther

record vsplit =
  leftWidth :: dim
  rightWidth :: dim
  minLeftWidth :: int
  minRightWidth :: int
  vflex :: vflex
  v_dividerThickness :: int
  v_allowResizing :: bool
  v_total :: "int option"
  unCollapsedLeftWidth :: dim
  unCollapsedRightWidth :: dim
  resizeStartX :: dim
  resizeStartLeftWidth :: dim
  resizeStartRightWidth :: dim
  leftView :: box
  v_dividerView :: box
  rightView :: box

definition v_solve :: "vsplit \<Rightarrow> dim \<times> dim" where
  "v_solve s =
     (let T = Px (the (v_total s));
          d = Px (v_dividerThickness s);
          l0 = (if vflex s = FlexRight then leftWidth s else Undef);
          r0 = (if vflex s = FlexLeft then rightWidth s else Undef);
          l1 = (if l0 = Undef \<and> r0 \<noteq> Undef \<and> total_known (v_total s)
                then dim_minus (dim_minus T r0) d else l0);
          r1 = (if r0 = Undef \<and> l1 \<noteq> Undef \<and> total_known (v_total s)
                then dim_minus (dim_minus T l1) d else r0);
          (l2, r2) = (if below l1 (minLeftWidth s)
                      then (Px (minLeftWidth s), dim_plus r1 (dim_minus l1 (Px (minLeftWidth s))))
                      else (l1, r1));
          (l3, r3) = (if below r2 (minRightWidth s)
                      then (dim_plus l2 (dim_minus r2 (Px (minRightWidth s))), Px (minRightWidth s))
                      else (l2, r2))
      in (l3, r3))"

definition v_setDimensions :: "coord \<Rightarrow> coord \<Rightarrow> coord \<Rightarrow> box \<Rightarrow> box" where
  "v_setDimensions lf wd rt v =
     v\<lparr>box_left := lf, box_width := wd, box_right := rt,
       box_top := Size (Px 0), box_bottom := Size (Px 0)\<rparr>"

definition v_place :: "dim \<Rightarrow> dim \<Rightarrow> vsplit \<Rightarrow> vsplit" where
  "v_place l r s =
     (let d = Px (v_dividerThickness s) in
      if vflex s = FlexRight then
        s\<lparr>leftView := v_setDimensions (Size (Px 0)) (Size l) Blank (leftView s),
          v_dividerView := v_setDimensions (Size l) (Size d) Blank (v_dividerView s),
          rightView := v_setDimensions (Size (dim_plus l d)) Blank (Size (Px 0)) (rightView s)\<rparr>
      else
        s\<lparr>leftView := v_setDimensions (Size (Px 0)) Blank (Size (dim_plus r d)) (leftView s),
          v_dividerView := v_setDimensions Blank (Size d) (Size r) (v_dividerView s),
          rightView := v_setDimensions Blank (Size r) (Size (Px 0)) (rightView s)\<rparr>)"

fun v_updateLayout :: "nat \<Rightarrow> vsplit \<Rightarrow> vsplit option" where
  "v_updateLayout 0 s = None"
| "v_updateLayout (Suc n) s =
     (let (l, r) = v_solve s in
      Option.bind (if dim_same (leftWidth s) l then Some s
                   else v_updateLayout n (s\<lparr>leftWidth := l\<rparr>)) (\<lambda>s1.
      Option.bind (if dim_same (rightWidth s1) r then Some s1
                   else v_updateLayout n (s1\<lparr>rightWidth := r\<rparr>)) (\<lambda>s2.
      Some (v_place l r s2))))"

definition v_setLeftWidth :: "dim \<Rightarrow> vsplit \<Rightarrow> vsplit option" where
  "v_setLeftWidth v s = (if dim_same (leftWidth s) v then Some s
                         else v_updateLayout observer_depth (s\<lparr>leftWidth := v\<rparr>))"

definition v_setRightWidth :: "dim \<Rightarrow> vsplit \<Rightarrow> vsplit option" where
  "v_setRightWidth v s = (if dim_same (rightWidth s) v then Some s
                          else v_updateLayout observer_depth (s\<lparr>rightWidth := v\<rparr>))"

definition v_init :: "vsplit \<Rightarrow> vsplit" where
  "v_init s = (if vflex s = FlexRight then s\<lparr>rightWidth := Undef\<rparr> else s\<lparr>leftWidth := Undef\<rparr>)"

definition v_didInsertElement :: "int option \<Rightarrow> vsplit \<Rightarrow> vsplit option" where
  "v_didInsertElement innerWidth s = v_updateLayout observer_depth (s\<lparr>v_total := innerWidth\<rparr>)"

definition v_toggleCollapse :: "vsplit \<Rightarrow> vsplit option" where
  "v_toggleCollapse s =
     (if \<not> v_allowResizing s then Some s
      else if vflex s = FlexRight then
        (if dim_same (leftWidth s) (Px (minLeftWidth s)) \<and> unCollapsedLeftWidth s \<noteq> Undef
         then v_setLeftWidth (unCollapsedLeftWidth s) s
         else v_setLeftWidth (Px (minLeftWidth s)) (s\<lparr>unCollapsedLeftWidth := leftWidth s\<rparr>))
      else
        (if dim_same (rightWidth s) (Px (minRightWidth s)) \<and> unCollapsedRightWidth s \<noteq> Undef
         then v_setRightWidth (unCollapsedRightWidth s) s
         else v_setRightWidth (Px (minRightWidth s)) (s\<lparr>unCollapsedRightWidth := rightWidth s\<rparr>)))"

definition v_startResize :: "dim \<Rightarrow> vsplit \<Rightarrow> vsplit" where
  "v_startResize x s = s\<lparr>resizeStartX := x, resizeStartLeftWidth := leftWidth s,
                          resizeStartRightWidth := rightWidth s\<rparr>"

definition v_resize :: "dim \<Rightarrow> vsplit \<Rightarrow> vsplit option" where
  "v_resize x s =
     (if vflex s = FlexRight
      then v_setLeftWidth (dim_plus (resizeStartLeftWidth s) (dim_minus x (resizeStartX s))) s
      else v_setRightWidth (dim_minus (resizeStartRightWidth s) (dim_minus x (resizeStartX s))) s)"


section \<open>The observers settle\<close>

lemma h_place_simps [simp]:
  "topHeight (h_place t b s) = topHeight s" "bottomHeight (h_place t b s) = bottomHeight s"
  "minTopHeight (h_place t b s) = minTopHeight s" "minBottomHeight (h_place t b s) = minBottomHeight s"
  "hflex (h_place t b s) = hflex s" "h_total (h_place t b s) = h_total s"
  "h_dividerThickness (h_place t b s) = h_dividerThickness s"
  "h_allowResizing (h_place t b s) = h_allowResizing s"
  "unCollapsedTopHeight (h_place t b s) = unCollapsedTopHeight s"
  "unCollapsedBottomHeight (h_place t b s) = unCollapsedBottomHeight s"
  by (simp_all add: h_place_def Let_def)

lemma h_place_twice [simp]:
  "h_place t b (h_place t' b' s) = h_place t b s"
  "h_place t b (h_place t' b' s\<lparr>bottomHeight := x\<rparr>) = h_place t b (s\<lparr>bottomHeight := x\<rparr>)"
  by (simp_all add: h_place_def h_setDimensions_def Let_def)

lemma h_solve_place [simp]:
  "h_solve (h_place t b s) = h_solve s"
  "h_solve (h_place t b s\<lparr>bottomHeight := x\<rparr>) = h_solve (s\<lparr>bottomHeight := x\<rparr>)"
  by (simp_all add: h_solve_def Let_def cong: if_cong)

text \<open>
  A state whose solution does not depend on what the observers write is reached with two nested
  calls.
\<close>

lemma h_update_bottom:
  assumes "h_solve s = (t, b)" and "h_solve (s\<lparr>bottomHeight := b\<rparr>) = (t, b)"
    and "topHeight s = t" and "t \<noteq> NaN" and "b \<noteq> NaN"
  shows "h_updateLayout (Suc (Suc n)) s = Some (h_place t b (s\<lparr>bottomHeight := b\<rparr>))"
  using assms by (cases s) (auto simp: dim_same_eq)

lemma h_update_top:
  assumes "\<And>x y. x \<in> {topHeight s, t} \<Longrightarrow> y \<in> {bottomHeight s, b} \<Longrightarrow>
             h_solve (s\<lparr>topHeight := x, bottomHeight := y\<rparr>) = (t, b)"
    and "t \<noteq> NaN" and "b \<noteq> NaN"
  shows "h_updateLayout (Suc (Suc (Suc n))) s
           = Some (h_place t b (s\<lparr>topHeight := t, bottomHeight := b\<rparr>))"
proof (cases "topHeight s = t")
  case True
  have "h_solve s = (t, b)" and "h_solve (s\<lparr>bottomHeight := b\<rparr>) = (t, b)"
    using assms(1) [of "topHeight s" "bottomHeight s"] assms(1) [of "topHeight s" b] by simp_all
  then have "h_updateLayout (Suc (Suc (Suc n))) s = Some (h_place t b (s\<lparr>bottomHeight := b\<rparr>))"
    using h_update_bottom [of s t b "Suc n"] True assms(2,3) by blast
  moreover have "s\<lparr>topHeight := t, bottomHeight := b\<rparr> = s\<lparr>bottomHeight := b\<rparr>"
    using True by (cases s) simp
  ultimately show ?thesis by (simp only:)
next
  case False
  let ?s1 = "s\<lparr>topHeight := t\<rparr>"
  have "h_solve s = (t, b)" and "h_solve ?s1 = (t, b)" and "h_solve (?s1\<lparr>bottomHeight := b\<rparr>) = (t, b)"
    using assms(1) [of "topHeight s" "bottomHeight s"] assms(1) [of t "bottomHeight s"]
      assms(1) [of t b] by simp_all
  moreover from this have "h_updateLayout (Suc (Suc n)) ?s1 = Some (h_place t b (?s1\<lparr>bottomHeight := b\<rparr>))"
    using h_update_bottom [of ?s1 t b n] assms(2,3) by simp
  ultimately show ?thesis
    using False assms(2,3) by (simp add: dim_same_eq)
qed

text \<open>The one-pass solution: the minimum of the flexible side wins over the other one.\<close>

definition fit_first :: "int \<Rightarrow> int \<Rightarrow> int \<Rightarrow> int \<Rightarrow> int \<Rightarrow> int" where
  "fit_first T d minT minB t = min (max t minT) (T - d - minB)"

definition fit_second :: "int \<Rightarrow> int \<Rightarrow> int \<Rightarrow> int \<Rightarrow> int \<Rightarrow> int" where
  "fit_second T d minT minB b = max (min b (T - d - minT)) minB"

lemma fit_first_idem: "fit_first T d m n (fit_first T d m n t) = fit_first T d m n t"
  by (simp add: fit_first_def)

lemma fit_second_idem: "fit_second T d m n (fit_second T d m n b) = fit_second T d m n b"
  by (simp add: fit_second_def)

lemma h_solve_FlexBottom:
  assumes "hflex s = FlexBottom" and "topHeight s = Px t" and "h_total s = Some T" and "T \<noteq> 0"
    and "t' = fit_first T (h_dividerThickness s) (minTopHeight s) (minBottomHeight s) t"
  shows "h_solve s = (Px t', Px (T - h_dividerThickness s - t'))"
  using assms by (auto simp: h_solve_def total_known_def fit_first_def Let_def)

lemma h_solve_FlexTop:
  assumes "hflex s = FlexTop" and "bottomHeight s = Px b" and "h_total s = Some T" and "T \<noteq> 0"
    and "b' = fit_second T (h_dividerThickness s) (minTopHeight s) (minBottomHeight s) b"
  shows "h_solve s = (Px (T - h_dividerThickness s - b'), Px b')"
  using assms by (auto simp: h_solve_def total_known_def fit_second_def Let_def)

lemma h_update_FlexBottom:
  assumes "hflex s = FlexBottom" and "topHeight s = Px t" and "h_total s = Some T" and "T \<noteq> 0"
    and t': "t' = fit_first T (h_dividerThickness s) (minTopHeight s) (minBottomHeight s) t"
    and b': "b' = T - h_dividerThickness s - t'"
  shows "h_updateLayout (Suc (Suc (Suc n))) s
           = Some (h_place (Px t') (Px b') (s\<lparr>topHeight := Px t', bottomHeight := Px b'\<rparr>))"
proof (rule h_update_top)
  fix x y
  assume "x \<in> {topHeight s, Px t'}"
  then obtain u where u: "x = Px u" "fit_first T (h_dividerThickness s) (minTopHeight s) (minBottomHeight s) u = t'"
    using assms(2) t' by (auto simp: fit_first_idem)
  show "h_solve (s\<lparr>topHeight := x, bottomHeight := y\<rparr>) = (Px t', Px b')"
    using assms(1,3,4) u b' by (simp add: h_solve_FlexBottom [of _ u T t'])
qed simp_all

lemma h_update_FlexTop:
  assumes "hflex s = FlexTop" and "bottomHeight s = Px b" and "h_total s = Some T" and "T \<noteq> 0"
    and b': "b' = fit_second T (h_dividerThickness s) (minTopHeight s) (minBottomHeight s) b"
    and t': "t' = T - h_dividerThickness s - b'"
  shows "h_updateLayout (Suc (Suc (Suc n))) s
           = Some (h_place (Px t') (Px b') (s\<lparr>topHeight := Px t', bottomHeight := Px b'\<rparr>))"
proof (rule h_update_top)
  fix x y
  assume "y \<in> {bottomHeight s, Px b'}"
  then obtain u where u: "y = Px u" "fit_second T (h_dividerThickness s) (minTopHeight s) (minBottomHeight s) u = b'"
    using assms(2) b' by (auto simp: fit_second_idem)
  show "h_solve (s\<lparr>topHeight := x, bottomHeight := y\<rparr>) = (Px t', Px b')"
    using assms(1,3,4) u t' by (simp add: h_solve_FlexTop [of _ u T b'])
qed simp_all

section \<open>The vertical view is the horizontal one, transposed\<close>

definition transpose_box :: "box \<Rightarrow> box" where
  "transpose_box b = \<lparr>box_left = box_top b, box_right = box_bottom b, box_top = box_left b,
     box_bottom = box_right b, box_height = box_width b, box_width = box_height b\<rparr>"

fun as_hflex :: "vflex \<Rightarrow> hflex" where
  "as_hflex FlexRight = FlexBottom"
| "as_hflex FlexLeft = FlexTop"
| "as_hflex VFlexOther = HFlexOther"

definition as_horizontal :: "vsplit \<Rightarrow> hsplit" where
  "as_horizontal s = \<lparr>topHeight = leftWidth s, bottomHeight = rightWidth s,
     minTopHeight = minLeftWidth s, minBottomHeight = minRightWidth s, hflex = as_hflex (vflex s),
     h_dividerThickness = v_dividerThickness s, h_allowResizing = v_allowResizing s,
     h_total = v_total s, unCollapsedTopHeight = unCollapsedLeftWidth s,
     unCollapsedBottomHeight = unCollapsedRightWidth s, resizeStartY = resizeStartX s,
     resizeStartTopHeight = resizeStartLeftWidth s, resizeStartBottomHeight = resizeStartRightWidth s,
     topView = transpose_box (leftView s), h_dividerView = transpose_box (v_dividerView s),
     bottomView = transpose_box (rightView s)\<rparr>"

lemma as_hflex_simps [simp]:
  "(as_hflex f = FlexBottom) = (f = FlexRight)" "(as_hflex f = FlexTop) = (f = FlexLeft)"
  by (cases f; simp)+

lemma as_horizontal_simps [simp]:
  "topHeight (as_horizontal s) = leftWidth s" "bottomHeight (as_horizontal s) = rightWidth s"
  "minTopHeight (as_horizontal s) = minLeftWidth s" "minBottomHeight (as_horizontal s) = minRightWidth s"
  "hflex (as_horizontal s) = as_hflex (vflex s)" "h_total (as_horizontal s) = v_total s"
  "h_dividerThickness (as_horizontal s) = v_dividerThickness s"
  "h_allowResizing (as_horizontal s) = v_allowResizing s"
  "unCollapsedTopHeight (as_horizontal s) = unCollapsedLeftWidth s"
  "unCollapsedBottomHeight (as_horizontal s) = unCollapsedRightWidth s"
  "resizeStartY (as_horizontal s) = resizeStartX s"
  "resizeStartTopHeight (as_horizontal s) = resizeStartLeftWidth s"
  "resizeStartBottomHeight (as_horizontal s) = resizeStartRightWidth s"
  by (simp_all add: as_horizontal_def)

lemma as_horizontal_update [simp]:
  "as_horizontal s\<lparr>topHeight := x\<rparr> = as_horizontal (s\<lparr>leftWidth := x\<rparr>)"
  "as_horizontal s\<lparr>bottomHeight := x\<rparr> = as_horizontal (s\<lparr>rightWidth := x\<rparr>)"
  "as_horizontal s\<lparr>h_total := T\<rparr> = as_horizontal (s\<lparr>v_total := T\<rparr>)"
  "as_horizontal s\<lparr>unCollapsedTopHeight := x\<rparr> = as_horizontal (s\<lparr>unCollapsedLeftWidth := x\<rparr>)"
  "as_horizontal s\<lparr>unCollapsedBottomHeight := x\<rparr> = as_horizontal (s\<lparr>unCollapsedRightWidth := x\<rparr>)"
  by (simp_all add: as_horizontal_def)

lemma solve_transposed: "h_solve (as_horizontal s) = v_solve s"
  by (simp add: h_solve_def v_solve_def Let_def cong: if_cong)

lemma place_transposed: "h_place t b (as_horizontal s) = as_horizontal (v_place t b s)"
  by (simp add: h_place_def v_place_def Let_def as_horizontal_def h_setDimensions_def
      v_setDimensions_def transpose_box_def)

lemma update_transposed:
  "h_updateLayout n (as_horizontal s) = map_option as_horizontal (v_updateLayout n s)"
proof (induction n arbitrary: s)
  case 0
  show ?case by simp
next
  case (Suc n)
  obtain l r where lr: "v_solve s = (l, r)" by fastforce
  let ?s1 = "if dim_same (leftWidth s) l then Some s else v_updateLayout n (s\<lparr>leftWidth := l\<rparr>)"
  show ?case
  proof (cases ?s1)
    case None
    with lr Suc.IH show ?thesis by (auto simp: solve_transposed split: if_splits)
  next
    case (Some s1)
    let ?s2 = "if dim_same (rightWidth s1) r then Some s1 else v_updateLayout n (s1\<lparr>rightWidth := r\<rparr>)"
    show ?thesis
      using lr Some Suc.IH
      by (cases ?s2) (auto simp: solve_transposed place_transposed split: if_splits)
  qed
qed

lemmas transposed = update_transposed solve_transposed place_transposed

lemma setters_transposed:
  "h_setTopHeight x (as_horizontal s) = map_option as_horizontal (v_setLeftWidth x s)"
  "h_setBottomHeight x (as_horizontal s) = map_option as_horizontal (v_setRightWidth x s)"
  by (simp_all add: h_setTopHeight_def v_setLeftWidth_def h_setBottomHeight_def v_setRightWidth_def
      update_transposed)


section \<open>The divider\<close>

text \<open>What the divider calls on its parent view.\<close>

record 'p split_ops =
  op_allowResizing :: "'p \<Rightarrow> bool"
  op_startResize :: "ui_event \<Rightarrow> 'p \<Rightarrow> 'p"
  op_resize :: "ui_event \<Rightarrow> 'p \<Rightarrow> 'p result"
  op_toggleCollapse :: "'p \<Rightarrow> 'p result"
  op_endResize :: "('p \<Rightarrow> 'p) option"

datatype divider_state = DividerIdle | DividerResizing

type_synonym 'p divider = "(divider_state, 'p) owner"
type_synonym 'p divider_method = "(divider_state, 'p, ui_event) state_method"

definition resizing_exitState :: "'p split_ops \<Rightarrow> (divider_state, 'p) hook" where
  "resizing_exitState ops c = (case op_endResize ops of
       None \<Rightarrow> Inr c | Some f \<Rightarrow> Inr (c\<lparr>ownerData := f (ownerData c)\<rparr>))"

fun divider_hooks :: "'p split_ops \<Rightarrow> divider_state \<Rightarrow> (divider_state, 'p, ui_event) owner_prop" where
  "divider_hooks ops DividerIdle = AState \<lparr>enterState = None, exitState = None, methods = []\<rparr>"
| "divider_hooks ops DividerResizing =
     AState \<lparr>enterState = None, exitState = Some (resizing_exitState ops), methods = []\<rparr>"

abbreviation divider_goto :: "'p split_ops \<Rightarrow> divider_state \<Rightarrow> (divider_state, 'p) hook" where
  "divider_goto ops n \<equiv> gotoFlameState (divider_hooks ops) (Some n)"

fun with_event :: "(ui_event \<Rightarrow> 'c \<Rightarrow> 'r result) \<Rightarrow> ui_event list \<Rightarrow> 'c \<Rightarrow> 'r result" where
  "with_event f [] c = Inl TypeError"
| "with_event f (e # _) c = f e c"

definition divider_mouseDown :: "'p split_ops \<Rightarrow> 'p divider_method" where
  "divider_mouseDown ops = with_event (\<lambda>e c.
     if \<not> op_allowResizing ops (ownerData c) then Inr (RBool False, c)
     else rbind (divider_goto ops DividerResizing (c\<lparr>ownerData := op_startResize ops e (ownerData c)\<rparr>))
            (\<lambda>c'. Inr (RBool True, c')))"

definition divider_touchStart :: "'p split_ops \<Rightarrow> 'p divider_method" where
  "divider_touchStart ops = with_event (\<lambda>e c.
     rbind (normalizeTouchEvents e) (\<lambda>e'.
     rbind (divider_mouseDown ops [e'] c) (\<lambda>(_, c'). Inr (RBool True, c'))))"

definition divider_doubleClick :: "'p split_ops \<Rightarrow> 'p divider_method" where
  "divider_doubleClick ops args c =
     (if \<not> op_allowResizing ops (ownerData c) then Inr (RBool False, c)
      else rbind (op_toggleCollapse ops (ownerData c)) (\<lambda>p. Inr (RBool True, c\<lparr>ownerData := p\<rparr>)))"

definition resizing_mouseMove :: "'p split_ops \<Rightarrow> 'p divider_method" where
  "resizing_mouseMove ops = with_event (\<lambda>e c.
     rbind (op_resize ops e (ownerData c)) (\<lambda>p. Inr (RBool True, c\<lparr>ownerData := p\<rparr>)))"

definition resizing_touchMove :: "'p split_ops \<Rightarrow> 'p divider_method" where
  "resizing_touchMove ops = with_event (\<lambda>e c.
     rbind (normalizeTouchEvents e) (\<lambda>e'.
     rbind (resizing_mouseMove ops [e'] c) (\<lambda>(_, c'). Inr (RBool True, c'))))"

definition resizing_mouseUp :: "'p split_ops \<Rightarrow> 'p divider_method" where
  "resizing_mouseUp ops args c = rbind (divider_goto ops DividerIdle c) (\<lambda>c'. Inr (RBool True, c'))"

fun divider_methods :: "'p split_ops \<Rightarrow> divider_state \<Rightarrow> (string \<times> 'p divider_method) list" where
  "divider_methods ops DividerIdle =
     [(''mouseDown'', divider_mouseDown ops), (''touchStart'', divider_touchStart ops),
      (''doubleClick'', divider_doubleClick ops)]"
| "divider_methods ops DividerResizing =
     [(''mouseMove'', resizing_mouseMove ops), (''touchMove'', resizing_touchMove ops),
      (''mouseUp'', resizing_mouseUp ops), (''touchEnd'', resizing_mouseUp ops)]"

definition divider_get :: "'p split_ops \<Rightarrow> divider_state \<Rightarrow> (divider_state, 'p, ui_event) owner_prop" where
  "divider_get ops = with_methods (divider_hooks ops) (divider_methods ops)"

definition divider_event :: "'p split_ops \<Rightarrow> string \<Rightarrow> ui_event \<Rightarrow> 'p divider \<Rightarrow> 'p divider result" where
  "divider_event ops m e c =
     rbind (invokeStateMethod (divider_get ops) no_key m [e] c) (\<lambda>(_, c'). Inr c')"

fun divider_run ::
  "'p split_ops \<Rightarrow> (string \<times> ui_event) list \<Rightarrow> 'p divider \<Rightarrow> 'p divider result" where
  "divider_run ops [] c = Inr c"
| "divider_run ops ((m, e) # es) c = rbind (divider_event ops m e c) (divider_run ops es)"

section \<open>The interface between divider and parent\<close>

text \<open>
  What a parent promises: it is settled between drags and \<open>dragging\<close> during one; events carry
  a position (\<open>evok\<close>), also after normalisation.
\<close>

locale divider_parent =
  fixes ops :: "'p split_ops"
    and settled :: "'p \<Rightarrow> bool"
    and dragging :: "'p \<Rightarrow> bool"
    and evok :: "ui_event \<Rightarrow> bool"
  assumes start_ok: "settled p \<Longrightarrow> evok e \<Longrightarrow> dragging (op_startResize ops e p)"
    and resize_ok: "dragging p \<Longrightarrow> evok e \<Longrightarrow> \<exists>p'. op_resize ops e p = Inr p' \<and> dragging p'"
    and toggle_ok: "settled p \<Longrightarrow> \<exists>p'. op_toggleCollapse ops p = Inr p' \<and> settled p'"
    and dragging_settled: "dragging p \<Longrightarrow> settled p"
    and end_ok: "dragging p \<Longrightarrow> op_endResize ops = Some f \<Longrightarrow> settled (f p)"
    and evok_touch: "evok e \<Longrightarrow> \<exists>e'. normalizeTouchEvents e = Inr e' \<and> evok e'"
begin

definition divider_ok :: "'p divider \<Rightarrow> bool" where
  "divider_ok c \<longleftrightarrow> (currentFlameState c = Some DividerIdle \<and> settled (ownerData c)) \<or>
     (currentFlameState c = Some DividerResizing \<and> dragging (ownerData c))"

lemma divider_ok_settled: "divider_ok c \<Longrightarrow> settled (ownerData c)"
  using dragging_settled by (auto simp: divider_ok_def)

lemma idle_mouseDown_ok:
  assumes "currentFlameState c = Some DividerIdle" and "settled (ownerData c)" and "evok e"
  shows "\<exists>r c'. divider_mouseDown ops [e] c = Inr (r, c') \<and> divider_ok c'"
  using assms start_ok [OF assms(2,3)]
  by (simp add: divider_mouseDown_def divider_ok_def gotoFlameState_def exit_current_def run_hook_def)

lemma resizing_mouseMove_ok:
  assumes "currentFlameState c = Some DividerResizing" and "dragging (ownerData c)" and "evok e"
  shows "\<exists>r c'. resizing_mouseMove ops [e] c = Inr (r, c') \<and> divider_ok c'"
  using assms(1) resize_ok [OF assms(2,3)] by (auto simp: resizing_mouseMove_def divider_ok_def)

lemma resizing_mouseUp_ok:
  assumes "currentFlameState c = Some DividerResizing" and "dragging (ownerData c)"
  shows "\<exists>r c'. resizing_mouseUp ops args c = Inr (r, c') \<and> divider_ok c'"
  using assms dragging_settled end_ok
  by (cases "op_endResize ops")
    (simp_all add: resizing_mouseUp_def divider_ok_def gotoFlameState_def exit_current_def
      run_hook_def resizing_exitState_def)

lemma divider_event_ok:
  assumes "divider_ok c" and "evok e"
  shows "\<exists>c'. divider_event ops m e c = Inr c' \<and> divider_ok c'"
proof -
  obtain e' where e': "normalizeTouchEvents e = Inr e'" "evok e'"
    using evok_touch [OF assms(2)] by blast
  consider (idle) "currentFlameState c = Some DividerIdle" "settled (ownerData c)"
    | (resizing) "currentFlameState c = Some DividerResizing" "dragging (ownerData c)"
    using assms(1) by (auto simp: divider_ok_def)
  then have "\<exists>r c'. invokeStateMethod (divider_get ops) no_key m [e] c = Inr (r, c') \<and> divider_ok c'"
  proof cases
    case idle
    have "\<exists>r c'. divider_touchStart ops [e] c = Inr (r, c') \<and> divider_ok c'"
      using idle_mouseDown_ok [OF idle e'(2)] e'(1) by (auto simp: divider_touchStart_def)
    moreover have "\<exists>r c'. divider_doubleClick ops [e] c = Inr (r, c') \<and> divider_ok c'"
      using idle toggle_ok [OF idle(2)] by (auto simp: divider_doubleClick_def divider_ok_def)
    ultimately show ?thesis
      using idle assms idle_mouseDown_ok [OF idle assms(2)]
      by (simp add: invokeStateMethod_def divider_get_def with_methods_def no_key_def)
  next
    case resizing
    have "\<exists>r c'. resizing_touchMove ops [e] c = Inr (r, c') \<and> divider_ok c'"
      using resizing_mouseMove_ok [OF resizing e'(2)] e'(1) by (auto simp: resizing_touchMove_def)
    then show ?thesis
      using resizing assms resizing_mouseMove_ok [OF resizing assms(2)] resizing_mouseUp_ok [OF resizing]
      by (simp add: invokeStateMethod_def divider_get_def with_methods_def no_key_def)
  qed
  then show ?thesis by (auto simp: divider_event_def)
qed

lemma divider_run_ok:
  "divider_ok c \<Longrightarrow> list_all (evok \<circ> snd) es \<Longrightarrow> \<exists>c'. divider_run ops es c = Inr c' \<and> divider_ok c'"
proof (induction es arbitrary: c)
  case Nil
  then show ?case by simp
next
  case (Cons me es)
  obtain m e where me: "me = (m, e)" by fastforce
  with Cons.prems obtain c1 where "divider_event ops m e c = Inr c1" "divider_ok c1"
    using divider_event_ok by fastforce
  with Cons me show ?case by simp
qed

end

section \<open>Both split views are parents\<close>

fun num_dim :: "int option \<Rightarrow> dim" where
  "num_dim None = Undef"
| "num_dim (Some x) = Px x"

text \<open>Observers that never settle overflow the call stack.\<close>

fun settle :: "'p option \<Rightarrow> 'p result" where
  "settle None = Inl (ThrownError ''Maximum call stack size exceeded'')"
| "settle (Some p) = Inr p"

definition h_ops :: "hsplit split_ops" where
  "h_ops = \<lparr>op_allowResizing = h_allowResizing, op_startResize = (\<lambda>e. h_startResize (num_dim (pageY e))),
     op_resize = (\<lambda>e s. settle (h_resize (num_dim (pageY e)) s)),
     op_toggleCollapse = (\<lambda>s. settle (h_toggleCollapse s)), op_endResize = None\<rparr>"

definition v_ops :: "vsplit split_ops" where
  "v_ops = \<lparr>op_allowResizing = v_allowResizing, op_startResize = (\<lambda>e. v_startResize (num_dim (pageX e))),
     op_resize = (\<lambda>e s. settle (v_resize (num_dim (pageX e)) s)),
     op_toggleCollapse = (\<lambda>s. settle (v_toggleCollapse s)), op_endResize = None\<rparr>"

text \<open>
  A settled split view: the panes and the divider tile the total size, the second pane has its
  minimum, the first one has it too unless the second is down to its own minimum, and the child
  views are placed accordingly.
\<close>

definition tiles :: "int \<Rightarrow> int \<Rightarrow> int \<Rightarrow> int \<Rightarrow> int \<Rightarrow> int \<Rightarrow> bool" where
  "tiles T d minT minB t b \<longleftrightarrow> t + d + b = T \<and> minB \<le> b \<and> (minT \<le> t \<or> b = minB)"

definition h_settled :: "hsplit \<Rightarrow> bool" where
  "h_settled s \<longleftrightarrow> (hflex s = FlexBottom \<or> hflex s = FlexTop) \<and>
     unCollapsedTopHeight s \<noteq> NaN \<and> unCollapsedBottomHeight s \<noteq> NaN \<and>
     (\<exists>T t b. h_total s = Some T \<and> T \<noteq> 0 \<and> topHeight s = Px t \<and> bottomHeight s = Px b \<and>
        tiles T (h_dividerThickness s) (minTopHeight s) (minBottomHeight s) t b \<and>
        h_place (Px t) (Px b) s = s)"

definition h_dragging :: "hsplit \<Rightarrow> bool" where
  "h_dragging s \<longleftrightarrow> h_settled s \<and> (\<exists>y t b. resizeStartY s = Px y \<and> resizeStartTopHeight s = Px t \<and>
     resizeStartBottomHeight s = Px b)"

lemma fit_first_tiles: "tiles T d m n (fit_first T d m n t) (T - d - fit_first T d m n t)"
  by (auto simp: tiles_def fit_first_def)

lemma fit_second_tiles: "tiles T d m n (T - d - fit_second T d m n b) (fit_second T d m n b)"
  by (auto simp: tiles_def fit_second_def)

lemma h_place_resize_fields [simp]:
  "resizeStartY (h_place t b s) = resizeStartY s"
  "resizeStartTopHeight (h_place t b s) = resizeStartTopHeight s"
  "resizeStartBottomHeight (h_place t b s) = resizeStartBottomHeight s"
  by (simp_all add: h_place_def Let_def)

text \<open>What setting the size of the fixed pane does, in a view with a known total.\<close>

definition h_at :: "int \<Rightarrow> int \<Rightarrow> hsplit \<Rightarrow> hsplit" where
  "h_at t b s = h_place (Px t) (Px b) (s\<lparr>topHeight := Px t, bottomHeight := Px b\<rparr>)"

lemma h_at_simps [simp]:
  "topHeight (h_at t b s) = Px t" "bottomHeight (h_at t b s) = Px b"
  "minTopHeight (h_at t b s) = minTopHeight s" "minBottomHeight (h_at t b s) = minBottomHeight s"
  "hflex (h_at t b s) = hflex s" "h_total (h_at t b s) = h_total s"
  "h_dividerThickness (h_at t b s) = h_dividerThickness s"
  "h_allowResizing (h_at t b s) = h_allowResizing s"
  "unCollapsedTopHeight (h_at t b s) = unCollapsedTopHeight s"
  "unCollapsedBottomHeight (h_at t b s) = unCollapsedBottomHeight s"
  "resizeStartY (h_at t b s) = resizeStartY s"
  "resizeStartTopHeight (h_at t b s) = resizeStartTopHeight s"
  "resizeStartBottomHeight (h_at t b s) = resizeStartBottomHeight s"
  "h_place (Px t) (Px b) (h_at t b s) = h_at t b s"
  "h_at t b (s\<lparr>topHeight := x\<rparr>) = h_at t b s" "h_at t b (s\<lparr>bottomHeight := x\<rparr>) = h_at t b s"
  by (simp_all add: h_at_def)

lemma observer_depth_Suc: "observer_depth = Suc (Suc (Suc (Suc 0)))"
  by (simp add: observer_depth_def)

definition h_sized :: "hsplit \<Rightarrow> int \<Rightarrow> int \<Rightarrow> bool" where
  "h_sized s T x \<longleftrightarrow> h_total s = Some T \<and> T \<noteq> 0 \<and>
     ((hflex s = FlexBottom \<and> topHeight s = Px x) \<or> (hflex s = FlexTop \<and> bottomHeight s = Px x))"

lemma h_update_at:
  assumes "h_sized s T x"
  shows "\<exists>t b. h_updateLayout observer_depth s = Some (h_at t b s) \<and>
     tiles T (h_dividerThickness s) (minTopHeight s) (minBottomHeight s) t b \<and>
     (hflex s = FlexBottom \<longrightarrow> t = fit_first T (h_dividerThickness s) (minTopHeight s) (minBottomHeight s) x) \<and>
     (hflex s = FlexTop \<longrightarrow> b = fit_second T (h_dividerThickness s) (minTopHeight s) (minBottomHeight s) x)"
proof (cases "hflex s = FlexBottom")
  case True
  then have t: "topHeight s = Px x" and T: "h_total s = Some T" "T \<noteq> 0"
    using assms by (simp_all add: h_sized_def)
  from h_update_FlexBottom [OF True t T refl refl, of "Suc 0"] show ?thesis
    using True fit_first_tiles unfolding observer_depth_Suc h_at_def by (metis hflex.distinct(1))
next
  case False
  then have flex: "hflex s = FlexTop" and b: "bottomHeight s = Px x" and T: "h_total s = Some T" "T \<noteq> 0"
    using assms by (auto simp: h_sized_def)
  from h_update_FlexTop [OF flex b T refl refl, of "Suc 0"] show ?thesis
    using False fit_second_tiles unfolding observer_depth_Suc h_at_def by metis
qed

lemma h_at_settled:
  assumes "h_total s = Some T" and "T \<noteq> 0" and "hflex s = FlexBottom \<or> hflex s = FlexTop"
    and "unCollapsedTopHeight s \<noteq> NaN" and "unCollapsedBottomHeight s \<noteq> NaN"
    and "tiles T (h_dividerThickness s) (minTopHeight s) (minBottomHeight s) t b"
  shows "h_settled (h_at t b s)"
  using assms by (simp add: h_settled_def)

lemma h_settledD:
  assumes "h_settled s"
  shows "\<exists>T. h_total s = Some T \<and> T \<noteq> 0" "hflex s = FlexBottom \<or> hflex s = FlexTop"
    "unCollapsedTopHeight s \<noteq> NaN" "unCollapsedBottomHeight s \<noteq> NaN"
    "\<exists>t b. topHeight s = Px t \<and> bottomHeight s = Px b"
  using assms unfolding h_settled_def by blast+

lemma h_setTop_settles:
  assumes "h_settled s" and "hflex s = FlexBottom"
  shows "\<exists>s'. h_setTopHeight (Px x) s = Some s' \<and> h_settled s' \<and> (s' = s \<or> (\<exists>t b. s' = h_at t b s))"
proof (cases "topHeight s = Px x")
  case True
  then show ?thesis using assms by (simp add: h_setTopHeight_def)
next
  case False
  obtain T where T: "h_total s = Some T" "T \<noteq> 0" using h_settledD(1) [OF assms(1)] by blast
  have "h_sized (s\<lparr>topHeight := Px x\<rparr>) T x" using T assms(2) by (simp add: h_sized_def)
  from h_update_at [OF this] obtain t b where
    u: "h_updateLayout observer_depth (s\<lparr>topHeight := Px x\<rparr>) = Some (h_at t b s)" and
    "tiles T (h_dividerThickness s) (minTopHeight s) (minBottomHeight s) t b" by auto
  then have "h_settled (h_at t b s)"
    using h_at_settled [OF T h_settledD(2-4) [OF assms(1)]] by blast
  with u False show ?thesis by (auto simp: h_setTopHeight_def dim_same_eq)
qed

lemma h_setBottom_settles:
  assumes "h_settled s" and "hflex s = FlexTop"
  shows "\<exists>s'. h_setBottomHeight (Px x) s = Some s' \<and> h_settled s' \<and> (s' = s \<or> (\<exists>t b. s' = h_at t b s))"
proof (cases "bottomHeight s = Px x")
  case True
  then show ?thesis using assms by (simp add: h_setBottomHeight_def)
next
  case False
  obtain T where T: "h_total s = Some T" "T \<noteq> 0" using h_settledD(1) [OF assms(1)] by blast
  have "h_sized (s\<lparr>bottomHeight := Px x\<rparr>) T x" using T assms(2) by (simp add: h_sized_def)
  from h_update_at [OF this] obtain t b where
    u: "h_updateLayout observer_depth (s\<lparr>bottomHeight := Px x\<rparr>) = Some (h_at t b s)" and
    "tiles T (h_dividerThickness s) (minTopHeight s) (minBottomHeight s) t b" by auto
  then have "h_settled (h_at t b s)"
    using h_at_settled [OF T h_settledD(2-4) [OF assms(1)]] by blast
  with u False show ?thesis by (auto simp: h_setBottomHeight_def dim_same_eq)
qed

lemma h_place_collapse_fields [simp]:
  "h_place t b (s\<lparr>unCollapsedTopHeight := x\<rparr>) = (h_place t b s)\<lparr>unCollapsedTopHeight := x\<rparr>"
  "h_place t b (s\<lparr>unCollapsedBottomHeight := x\<rparr>) = (h_place t b s)\<lparr>unCollapsedBottomHeight := x\<rparr>"
  "h_place t b (s\<lparr>resizeStartY := x\<rparr>) = (h_place t b s)\<lparr>resizeStartY := x\<rparr>"
  "h_place t b (s\<lparr>resizeStartTopHeight := x\<rparr>) = (h_place t b s)\<lparr>resizeStartTopHeight := x\<rparr>"
  "h_place t b (s\<lparr>resizeStartBottomHeight := x\<rparr>) = (h_place t b s)\<lparr>resizeStartBottomHeight := x\<rparr>"
  by (simp_all add: h_place_def Let_def)

lemma h_settled_uncollapse:
  assumes "h_settled s" and "x \<noteq> NaN"
  shows "h_settled (s\<lparr>unCollapsedTopHeight := x\<rparr>)" "h_settled (s\<lparr>unCollapsedBottomHeight := x\<rparr>)"
  using assms unfolding h_settled_def by force+

lemma h_toggle_settles:
  assumes "h_settled s"
  shows "\<exists>s'. h_toggleCollapse s = Some s' \<and> h_settled s'"
proof -
  obtain t b where tb: "topHeight s = Px t" "bottomHeight s = Px b"
    using h_settledD(5) [OF assms] by blast
  have keep: "h_settled (s\<lparr>unCollapsedTopHeight := Px t\<rparr>)" "h_settled (s\<lparr>unCollapsedBottomHeight := Px b\<rparr>)"
    using h_settled_uncollapse [OF assms] by simp_all
  have set: "\<exists>s'. h_setTopHeight x s0 = Some s' \<and> h_settled s'"
    if "h_settled s0" "hflex s0 = FlexBottom" "x \<noteq> NaN" "x \<noteq> Undef" for x s0
    using h_setTop_settles [OF that(1,2)] that(3,4) by (cases x) auto
  have set': "\<exists>s'. h_setBottomHeight x s0 = Some s' \<and> h_settled s'"
    if "h_settled s0" "hflex s0 = FlexTop" "x \<noteq> NaN" "x \<noteq> Undef" for x s0
    using h_setBottom_settles [OF that(1,2)] that(3,4) by (cases x) auto
  show ?thesis
    using h_settledD(2) [OF assms]
  proof
    assume "hflex s = FlexBottom"
    then show ?thesis
      using assms tb keep(1) h_settledD(3) [OF assms] set by (simp add: h_toggleCollapse_def)
  next
    assume "hflex s = FlexTop"
    then show ?thesis
      using assms tb keep(2) h_settledD(4) [OF assms] set' by (simp add: h_toggleCollapse_def)
  qed
qed

lemma h_resize_settles:
  assumes "h_dragging s"
  shows "\<exists>s'. h_resize (Px y) s = Some s' \<and> h_dragging s'"
proof -
  obtain y0 t0 b0 where r: "resizeStartY s = Px y0" "resizeStartTopHeight s = Px t0"
      "resizeStartBottomHeight s = Px b0" and s: "h_settled s"
    using assms by (auto simp: h_dragging_def)
  have drag: "h_dragging s'" if "h_settled s'" "s' = s \<or> (\<exists>t b. s' = h_at t b s)" for s'
    using that r by (auto simp: h_dragging_def)
  show ?thesis
    using h_settledD(2) [OF s]
  proof
    assume flex: "hflex s = FlexBottom"
    then show ?thesis
      using h_setTop_settles [OF s flex, of "t0 + (y - y0)"] drag r by (auto simp: h_resize_def)
  next
    assume flex: "hflex s = FlexTop"
    then show ?thesis
      using h_setBottom_settles [OF s flex, of "b0 - (y - y0)"] drag r by (auto simp: h_resize_def)
  qed
qed

lemma h_start_dragging:
  assumes "h_settled s"
  shows "h_dragging (h_startResize (Px y) s)"
proof -
  have "h_settled (h_startResize (Px y) s)"
    using assms unfolding h_settled_def h_startResize_def by force
  then show ?thesis
    using h_settledD(5) [OF assms] by (auto simp: h_dragging_def h_startResize_def)
qed

text \<open>An event with a position, and the touch event it may hide in.\<close>

definition positioned :: "ui_event \<Rightarrow> bool" where
  "positioned e \<longleftrightarrow> (\<exists>o'. originalEvent e = Some o' \<and> pageX o' \<noteq> None \<and> pageY o' \<noteq> None) \<and>
     pageX e \<noteq> None \<and> pageY e \<noteq> None"

lemma positioned_touch: "positioned e \<Longrightarrow> \<exists>e'. normalizeTouchEvents e = Inr e' \<and> positioned e'"
  unfolding positioned_def using normalizeTouchEvents_total by force

interpretation hd: divider_parent h_ops h_settled h_dragging positioned
proof
  fix p e
  assume "h_settled p" and "positioned e"
  then show "h_dragging (op_startResize h_ops e p)"
    by (auto simp: h_ops_def positioned_def h_start_dragging)
next
  fix p e
  assume d: "h_dragging p" and "positioned e"
  then obtain y where y: "pageY e = Some y" by (auto simp: positioned_def)
  then show "\<exists>p'. op_resize h_ops e p = Inr p' \<and> h_dragging p'"
    using h_resize_settles [OF d, of y] by (auto simp: h_ops_def)
next
  fix p
  assume "h_settled p"
  then show "\<exists>p'. op_toggleCollapse h_ops p = Inr p' \<and> h_settled p'"
    using h_toggle_settles [of p] by (auto simp: h_ops_def)
qed (auto simp: h_dragging_def h_ops_def positioned_touch)

lemma v_start_transposed: "h_startResize x (as_horizontal s) = as_horizontal (v_startResize x s)"
  by (simp add: h_startResize_def v_startResize_def as_horizontal_def)

lemma toggle_transposed: "h_toggleCollapse (as_horizontal s) = map_option as_horizontal (v_toggleCollapse s)"
  by (simp add: h_toggleCollapse_def v_toggleCollapse_def setters_transposed)

lemma resize_transposed: "h_resize x (as_horizontal s) = map_option as_horizontal (v_resize x s)"
  by (simp add: h_resize_def v_resize_def setters_transposed)

interpretation vd: divider_parent v_ops "h_settled \<circ> as_horizontal" "h_dragging \<circ> as_horizontal" positioned
proof
  fix p e
  assume "(h_settled \<circ> as_horizontal) p" and "positioned e"
  then show "(h_dragging \<circ> as_horizontal) (op_startResize v_ops e p)"
    by (auto simp: v_ops_def positioned_def v_start_transposed [symmetric] h_start_dragging)
next
  fix p e
  assume d: "(h_dragging \<circ> as_horizontal) p" and "positioned e"
  then obtain x where x: "pageX e = Some x" by (auto simp: positioned_def)
  then show "\<exists>p'. op_resize v_ops e p = Inr p' \<and> (h_dragging \<circ> as_horizontal) p'"
    using h_resize_settles [of "as_horizontal p" x] d by (auto simp: v_ops_def resize_transposed)
next
  fix p
  assume "(h_settled \<circ> as_horizontal) p"
  then show "\<exists>p'. op_toggleCollapse v_ops p = Inr p' \<and> (h_settled \<circ> as_horizontal) p'"
    using h_toggle_settles [of "as_horizontal p"] by (auto simp: v_ops_def toggle_transposed)
qed (auto simp: h_dragging_def v_ops_def positioned_touch)

section \<open>Properties\<close>

text \<open>
  C31: \<open>_updateLayout\<close> of a split view with a known total size terminates although it observes the
  properties it sets, and leaves the panes at the one-pass solution: the pane with the fixed size
  is clamped to its minimum and to what the other pane's minimum leaves, and panes and divider
  tile the total.
\<close>

theorem h_layout_settles:
  assumes "h_total s = Some T" and "T \<noteq> 0"
    and "(hflex s = FlexBottom \<and> topHeight s = Px x) \<or> (hflex s = FlexTop \<and> bottomHeight s = Px x)"
  shows "\<exists>s' t b. h_updateLayout observer_depth s = Some s' \<and>
     topHeight s' = Px t \<and> bottomHeight s' = Px b \<and> t + h_dividerThickness s + b = T \<and>
     minBottomHeight s \<le> b \<and> (minTopHeight s \<le> t \<or> b = minBottomHeight s) \<and>
     (hflex s = FlexBottom \<longrightarrow> t = min (max x (minTopHeight s)) (T - h_dividerThickness s - minBottomHeight s)) \<and>
     (hflex s = FlexTop \<longrightarrow> b = max (min x (T - h_dividerThickness s - minTopHeight s)) (minBottomHeight s))"
  using h_update_at [of s T x] assms
  by (fastforce simp: h_sized_def tiles_def fit_first_def fit_second_def)

definition sample_split :: "hflex \<Rightarrow> hsplit" where
  "sample_split f = \<lparr>topHeight = Px 100, bottomHeight = Px 100, minTopHeight = 20, minBottomHeight = 30,
     hflex = f, h_dividerThickness = 7, h_allowResizing = True, h_total = Some 300,
     unCollapsedTopHeight = Undef, unCollapsedBottomHeight = Undef, resizeStartY = Undef,
     resizeStartTopHeight = Undef, resizeStartBottomHeight = Undef,
     topView = no_box, h_dividerView = no_box, bottomView = no_box\<rparr>"

theorem h_layout_settles_witness:
  "\<exists>s'. h_updateLayout observer_depth (sample_split FlexBottom) = Some s' \<and>
        topHeight s' = Px 100 \<and> bottomHeight s' = Px 193"
  using h_layout_settles [of "sample_split FlexBottom" 300 100] by (auto simp: sample_split_def)

text \<open>
  C7: from a settled horizontal split view, no sequence of mouse, touch and double-click events on
  the divider throws or overflows the observers, and after each the panes tile the total size with
  the minimum sizes respected as far as they fit.
\<close>

theorem h_divider_keeps_tiling:
  assumes "h_settled s" and "list_all (positioned \<circ> snd) es"
  shows "\<exists>c' T t b. divider_run h_ops es \<lparr>currentFlameState = Some DividerIdle, ownerData = s\<rparr> = Inr c' \<and>
     h_total (ownerData c') = Some T \<and> topHeight (ownerData c') = Px t \<and> bottomHeight (ownerData c') = Px b \<and>
     tiles T (h_dividerThickness (ownerData c')) (minTopHeight (ownerData c')) (minBottomHeight (ownerData c')) t b"
proof -
  have "hd.divider_ok \<lparr>currentFlameState = Some DividerIdle, ownerData = s\<rparr>"
    using assms(1) by (simp add: hd.divider_ok_def)
  from hd.divider_run_ok [OF this assms(2)] obtain c' where
    run: "divider_run h_ops es \<lparr>currentFlameState = Some DividerIdle, ownerData = s\<rparr> = Inr c'"
    and ok: "hd.divider_ok c'" by blast
  from hd.divider_ok_settled [OF ok] show ?thesis
    using run unfolding h_settled_def by blast
qed

definition at_point :: "int \<Rightarrow> int \<Rightarrow> ui_event" where
  "at_point x y = \<lparr>touches = None, pageX = Some x, pageY = Some y, screenX = None, screenY = None,
     clientX = None, clientY = None,
     originalEvent = Some \<lparr>touches = None, pageX = Some x, pageY = Some y, screenX = None, screenY = None,
       clientX = None, clientY = None\<rparr>\<rparr>"

lemma positioned_at_point: "positioned (at_point x y)"
  by (simp add: positioned_def at_point_def)

theorem h_divider_keeps_tiling_witness:
  "\<exists>c' T t b. divider_run h_ops [(''mouseDown'', at_point 3 4), (''mouseMove'', at_point 3 900), (''mouseUp'', at_point 3 900)]
       \<lparr>currentFlameState = Some DividerIdle, ownerData = h_at 100 193 (sample_split FlexBottom)\<rparr> = Inr c' \<and>
     h_total (ownerData c') = Some T \<and> topHeight (ownerData c') = Px t \<and> bottomHeight (ownerData c') = Px b \<and>
     tiles T (h_dividerThickness (ownerData c')) (minTopHeight (ownerData c')) (minBottomHeight (ownerData c')) t b"
proof -
  have "h_settled (h_at 100 193 (sample_split FlexBottom))"
    by (rule h_at_settled [of _ 300]) (simp_all add: sample_split_def tiles_def)
  from h_divider_keeps_tiling [OF this, of "[(''mouseDown'', at_point 3 4), (''mouseMove'', at_point 3 900), (''mouseUp'', at_point 3 900)]"]
  show ?thesis by (simp add: positioned_at_point)
qed

text \<open>
  C39: the vertical split view is the horizontal one with the axes exchanged: laying out, resizing
  and collapsing commute with the transposition, at any observer depth.
\<close>

theorem v_is_transposed_h:
  "map_option as_horizontal (v_updateLayout n s) = h_updateLayout n (as_horizontal s) \<and>
   map_option as_horizontal (v_toggleCollapse s) = h_toggleCollapse (as_horizontal s) \<and>
   map_option as_horizontal (v_resize x s) = h_resize x (as_horizontal s) \<and>
   as_horizontal (v_startResize x s) = h_startResize x (as_horizontal s)"
  by (simp add: update_transposed toggle_transposed resize_transposed v_start_transposed)

text \<open>
  Collapsing a pane and double-clicking again restores the size it had, when both minimum
  sizes fit into the view.
\<close>

theorem h_collapse_roundtrip:
  assumes "h_settled s" and "h_allowResizing s" and "hflex s = FlexBottom"
    and "h_total s = Some T" and "minTopHeight s + h_dividerThickness s + minBottomHeight s \<le> T"
    and "topHeight s \<noteq> Px (minTopHeight s)"
  shows "\<exists>s1 s2. h_toggleCollapse s = Some s1 \<and> topHeight s1 = Px (minTopHeight s) \<and>
     h_toggleCollapse s1 = Some s2 \<and> topHeight s2 = topHeight s \<and> bottomHeight s2 = bottomHeight s"
proof -
  let ?m = "minTopHeight s" and ?n = "minBottomHeight s" and ?d = "h_dividerThickness s"
  obtain t b where tb: "topHeight s = Px t" "bottomHeight s = Px b" "tiles T ?d ?m ?n t b" and T: "T \<noteq> 0"
    using assms(1,4) unfolding h_settled_def by auto
  have t: "?m \<le> t" "t \<le> T - ?d - ?n" using tb(3) assms(5) by (auto simp: tiles_def)
  let ?s = "s\<lparr>unCollapsedTopHeight := Px t\<rparr>"
  have "h_sized (?s\<lparr>topHeight := Px ?m\<rparr>) T ?m" using assms(3,4) T by (simp add: h_sized_def)
  from h_update_at [OF this] obtain b1 where
    u1: "h_updateLayout observer_depth (?s\<lparr>topHeight := Px ?m\<rparr>) = Some (h_at ?m b1 ?s)"
    using assms(3,5) by (auto simp: fit_first_def)
  have s1: "h_toggleCollapse s = Some (h_at ?m b1 ?s)"
    using assms(2,3,6) tb u1 by (simp add: h_toggleCollapse_def h_setTopHeight_def dim_same_eq)
  have "h_sized (h_at ?m b1 ?s\<lparr>topHeight := Px t\<rparr>) T t" using assms(3,4) T by (simp add: h_sized_def)
  from h_update_at [OF this] obtain b2 where
    u2: "h_updateLayout observer_depth (h_at ?m b1 ?s\<lparr>topHeight := Px t\<rparr>) = Some (h_at t b2 (h_at ?m b1 ?s))"
    and "tiles T ?d ?m ?n t b2"
    using assms(3) t by (auto simp: fit_first_def)
  then have "b2 = b" using tb(3) by (simp add: tiles_def)
  moreover have "h_toggleCollapse (h_at ?m b1 ?s) = Some (h_at t b2 (h_at ?m b1 ?s))"
    using assms(2,3,6) tb u2 by (simp add: h_toggleCollapse_def h_setTopHeight_def dim_same_eq)
  ultimately show ?thesis using s1 tb by simp
qed

theorem h_collapse_roundtrip_witness:
  "\<exists>s1 s2. h_toggleCollapse (h_at 100 193 (sample_split FlexBottom)) = Some s1 \<and> topHeight s1 = Px 20 \<and>
     h_toggleCollapse s1 = Some s2 \<and> topHeight s2 = Px 100 \<and> bottomHeight s2 = Px 193"
proof -
  have "h_settled (h_at 100 193 (sample_split FlexBottom))"
    by (rule h_at_settled [of _ 300]) (simp_all add: sample_split_def tiles_def)
  from h_collapse_roundtrip [OF this, of 300] show ?thesis by (simp add: sample_split_def)
qed

end
