(* ===== verification/Table_Model.thy ===== *)
theory Table_Model
  imports Flame_Prelude
begin

text \<open>
  The table data model: \<open>controllers/table_controller.js\<close> (leaf headers and their paths, the
  index mapping, pushing batches of cells), \<open>controllers/data_table_controller.js\<close>
  (two-dimensional arrays), \<open>utils/table_cell.js\<close> and \<open>utils/table_view_content_adapter.js\<close>
  (the header rows with their spans).
\<close>

section \<open>Headers\<close>

text \<open>
  A header node: its own attributes, its \<open>id\<close> if it has one, its \<open>children\<close> if it has that
  property.
\<close>

type_synonym attrs = "string \<rightharpoonup> jsval"

datatype header = Header (hattrs: attrs) (hid: "nat option") (children: "header list option")

type_synonym path = "nat option list"

record leaf =
  leaf_attrs :: attrs
  leaf_path :: path
  leafIndex :: nat

text \<open>\<open>_getLeafs\<close>: collect the leafs in order with the path to each, then number them.\<close>

definition mark_leafs :: "leaf list \<Rightarrow> leaf list" where
  "mark_leafs ls = map (\<lambda>(i, l). l\<lparr>leafIndex := i\<rparr>) (enumerate 0 ls)"

fun collect_leafs :: "header list \<Rightarrow> path \<Rightarrow> leaf list" where
  "collect_leafs [] p = []"
| "collect_leafs (Header a i (Some cs) # ns) p =
     mark_leafs (collect_leafs cs (if i \<noteq> None then p @ [i] else p)) @ collect_leafs ns p"
| "collect_leafs (Header a i None # ns) p =
     \<lparr>leaf_attrs = a, leaf_path = p @ [i], leafIndex = 0\<rparr> # collect_leafs ns p"

definition getLeafs :: "header list \<Rightarrow> path \<Rightarrow> leaf list" where
  "getLeafs nodes p = mark_leafs (collect_leafs nodes p)"

section \<open>The controller\<close>

text \<open>
  A cell is a bag of attributes.  An entry of the data grid is \<open>null\<close> until its cell is pushed,
  or a placeholder that records attributes set on a cell that is not loaded yet.
\<close>

type_synonym cell = attrs

datatype entry = NullEntry | CellEntry cell | PendingEntry "(string \<times> jsval) list"

record cell_data =
  cell_row :: path
  cell_column :: path
  cell_fields :: attrs
  rowHeaderParams :: jsval
  columnHeaderParams :: jsval

datatype values_on = OnRow | OnColumn

record headers =
  rowHeaders :: "header list"
  columnHeaders :: "header list"

record table =
  t_headers :: "headers option"
  dirtyCells :: "(nat \<times> nat) list"
  t_data :: "entry list list"
  valuesOn :: values_on

definition rowLeafs :: "table \<Rightarrow> leaf list option" where
  "rowLeafs t = map_option (\<lambda>h. getLeafs (rowHeaders h) []) (t_headers t)"

definition columnLeafs :: "table \<Rightarrow> leaf list option" where
  "columnLeafs t = map_option (\<lambda>h. getLeafs (columnHeaders h) []) (t_headers t)"

text \<open>The property key of a path: an array converts to its elements joined with commas.\<close>

fun path_elem :: "nat option \<Rightarrow> string" where
  "path_elem None = []"
| "path_elem (Some n) = decimal n"

definition path_key :: "path \<Rightarrow> string" where
  "path_key p = join '','' (map path_elem p)"

definition row_mapping :: "nat \<Rightarrow> leaf list \<Rightarrow> string \<rightharpoonup> nat \<times> nat" where
  "row_mapping i cols =
     fold (\<lambda>(j, c) m. m(path_key (leaf_path c) \<mapsto> (i, j))) (enumerate 0 cols) Map.empty"

definition path_mapping :: "leaf list \<Rightarrow> leaf list \<Rightarrow> string \<rightharpoonup> (string \<rightharpoonup> nat \<times> nat)" where
  "path_mapping rows cols =
     fold (\<lambda>(i, r) m. m(path_key (leaf_path r) \<mapsto> row_mapping i cols)) (enumerate 0 rows) Map.empty"

definition indexFromPathMapping :: "table \<Rightarrow> (string \<rightharpoonup> (string \<rightharpoonup> nat \<times> nat)) option" where
  "indexFromPathMapping t = (case (rowLeafs t, columnLeafs t) of
       (Some rs, Some cs) \<Rightarrow> Some (path_mapping rs cs) | _ \<Rightarrow> None)"

text \<open>\<open>mapping[row][column]\<close>: an unknown row throws, an unknown column gives \<open>undefined\<close>.\<close>

definition lookup_index ::
  "(string \<rightharpoonup> (string \<rightharpoonup> nat \<times> nat)) \<Rightarrow> path \<Rightarrow> path \<Rightarrow> (nat \<times> nat) option result" where
  "lookup_index m r c = (case m (path_key r) of None \<Rightarrow> Inl TypeError
                                             | Some rm \<Rightarrow> Inr (rm (path_key c)))"

definition indexFromPath :: "table \<Rightarrow> path \<Rightarrow> path \<Rightarrow> (nat \<times> nat) option result" where
  "indexFromPath t r c = (case indexFromPathMapping t of
       None \<Rightarrow> Inl TypeError | Some m \<Rightarrow> lookup_index m r c)"

definition pathFromIndex :: "table \<Rightarrow> nat \<times> nat \<Rightarrow> (path \<times> path) result" where
  "pathFromIndex t ij = (case (rowLeafs t, columnLeafs t) of
       (Some rs, Some cs) \<Rightarrow>
         (case (objectAt rs (fst ij), objectAt cs (snd ij)) of
            (Some r, Some c) \<Rightarrow> Inr (leaf_path r, leaf_path c) | _ \<Rightarrow> Inl TypeError)
     | _ \<Rightarrow> Inl TypeError)"

definition dataBatchIsForCurrentTable ::
  "(string \<rightharpoonup> (string \<rightharpoonup> nat \<times> nat)) \<Rightarrow> cell_data list \<Rightarrow> bool" where
  "dataBatchIsForCurrentTable m batch =
     (if 0 < length batch
      then m (path_key (cell_row (hd batch))) \<noteq> None \<and> m (path_key (cell_row (last batch))) \<noteq> None
      else False)"

definition leaf_params :: "leaf \<Rightarrow> jsval" where
  "leaf_params l = (case leaf_attrs l ''params'' of None \<Rightarrow> JUndefined | Some v \<Rightarrow> v)"

definition merge_pending :: "entry \<Rightarrow> cell \<Rightarrow> cell" where
  "merge_pending e c = (case e of PendingEntry as \<Rightarrow> fold (\<lambda>(k, v) m. m(k \<mapsto> v)) as c | _ \<Rightarrow> c)"

definition set_grid :: "nat \<Rightarrow> nat \<Rightarrow> 'e \<Rightarrow> 'e list list \<Rightarrow> 'e list list" where
  "set_grid i j e g = g[i := (g ! i)[j := e]]"

text \<open>
  The loop of \<open>pushDataBatch\<close>.  \<open>createCell\<close> is the method of the leaf header that makes the
  cell (a header class may throw there).  The grid is written in place, so what was written
  before an exception stays written: the result carries the grid and the error side by side.
\<close>

fun push_cells ::
  "(leaf \<Rightarrow> cell_data \<Rightarrow> cell result) \<Rightarrow> (string \<rightharpoonup> (string \<rightharpoonup> nat \<times> nat)) \<Rightarrow> values_on \<Rightarrow>
   leaf list \<Rightarrow> leaf list \<Rightarrow> cell_data list \<Rightarrow> entry list list \<Rightarrow> (nat \<times> nat) list \<Rightarrow>
   entry list list \<times> (nat \<times> nat) list result" where
  "push_cells createCell m vo rs cs [] g dirty = (g, Inr dirty)"
| "push_cells createCell m vo rs cs (d # ds) g dirty =
     (case lookup_index m (cell_row d) (cell_column d) of
        Inl e \<Rightarrow> (g, Inl e)
      | Inr None \<Rightarrow> (g, Inl TypeError)
      | Inr (Some (i, j)) \<Rightarrow>
         (case (objectAt rs i, objectAt cs j) of
            (Some r, Some c) \<Rightarrow>
              (let d' = d\<lparr>rowHeaderParams := leaf_params r, columnHeaderParams := leaf_params c\<rparr>
               in case createCell (if vo = OnRow then r else c) d' of
                    Inl e \<Rightarrow> (g, Inl e)
                  | Inr cell \<Rightarrow>
                     (case objectAt g i of
                        None \<Rightarrow> (g, Inl TypeError)
                      | Some row \<Rightarrow>
                          push_cells createCell m vo rs cs ds
                            (set_grid i j (CellEntry (merge_pending (row ! j) cell)) g)
                            (dirty @ [(i, j)])))
          | _ \<Rightarrow> (g, Inl TypeError)))"

definition pushDataBatch ::
  "(leaf \<Rightarrow> cell_data \<Rightarrow> cell result) \<Rightarrow> cell_data list option \<Rightarrow> table \<Rightarrow> table \<times> js_error option" where
  "pushDataBatch createCell dataBatch t = (case dataBatch of
       None \<Rightarrow> (t, None)
     | Some batch \<Rightarrow>
        (case (t_headers t, rowLeafs t, columnLeafs t) of
           (Some h, Some rs, Some cs) \<Rightarrow>
             (let m = path_mapping rs cs in
              if \<not> dataBatchIsForCurrentTable m batch then (t, None)
              else (case push_cells createCell m (valuesOn t) rs cs batch (t_data t) (dirtyCells t) of
                  (g, Inl e) \<Rightarrow> (t\<lparr>t_data := g\<rparr>, Some e)
                | (g, Inr dirty) \<Rightarrow> (t\<lparr>t_data := g, dirtyCells := dirty\<rparr>, None)))
         | _ \<Rightarrow> (t, Some (ThrownError ''Can't push data without first setting headers!''))))"

definition headersDidChange :: "table \<Rightarrow> table" where
  "headersDidChange t = (case (rowLeafs t, columnLeafs t) of
       (Some rs, Some cs) \<Rightarrow>
          t\<lparr>dirtyCells := [], t_data := replicate (length rs) (replicate (length cs) NullEntry)\<rparr>
     | _ \<Rightarrow> t)"

section \<open>Table cells\<close>

definition TableCell :: "(string \<times> jsval) list \<Rightarrow> cell" where
  "TableCell opts = fold (\<lambda>(k, v) m. m(k \<mapsto> v)) opts [''value'' \<mapsto> JNull]"

definition formattedValue :: "cell \<Rightarrow> jsval" where
  "formattedValue c = (case c ''value'' of
       None \<Rightarrow> JUndefined | Some JNull \<Rightarrow> JStr [] | Some v \<Rightarrow> v)"

section \<open>Data tables\<close>

text \<open>
  \<open>_wrapHeaders\<close>: \<open>headerClass.create({id: i}, header)\<close>, so an \<open>id\<close> of the header itself wins;
  \<open>children\<close> are wrapped the same way.
\<close>

fun wrap_from :: "nat \<Rightarrow> header list \<Rightarrow> header list" where
  "wrap_from i [] = []"
| "wrap_from i (Header a h None # hs) =
     Header a (Some (case h of None \<Rightarrow> i | Some k \<Rightarrow> k)) None # wrap_from (Suc i) hs"
| "wrap_from i (Header a h (Some cs) # hs) =
     Header a (Some (case h of None \<Rightarrow> i | Some k \<Rightarrow> k)) (Some (wrap_from 0 cs)) # wrap_from (Suc i) hs"

definition wrapHeaders :: "header list \<Rightarrow> header list" where
  "wrapHeaders hs = wrap_from 0 hs"

definition dataTable_headers :: "header list option \<Rightarrow> header list option \<Rightarrow> headers" where
  "dataTable_headers rows cols = \<lparr>rowHeaders = wrapHeaders (case rows of None \<Rightarrow> [] | Some hs \<Rightarrow> hs),
     columnHeaders = wrapHeaders (case cols of None \<Rightarrow> [] | Some hs \<Rightarrow> hs)\<rparr>"

definition dataTable_createCell :: "leaf \<Rightarrow> cell_data \<Rightarrow> cell result" where
  "dataTable_createCell l d =
     Inr (TableCell [(''value'', case cell_fields d ''value'' of None \<Rightarrow> JUndefined | Some v \<Rightarrow> v)])"

definition transformData :: "jsval list list \<Rightarrow> cell_data list" where
  "transformData rows =
     concat (map (\<lambda>(i, row). map (\<lambda>(j, v).
       \<lparr>cell_row = [Some i], cell_column = [Some j], cell_fields = [''value'' \<mapsto> v],
        rowHeaderParams = JUndefined, columnHeaderParams = JUndefined\<rparr>) (enumerate 0 row))
       (enumerate 0 rows))"

definition dataTable_headersDidChange :: "jsval list list option \<Rightarrow> table \<Rightarrow> table \<times> js_error option" where
  "dataTable_headersDidChange data t =
     (let t1 = headersDidChange t in
      case data of None \<Rightarrow> (t1, None)
        | Some rows \<Rightarrow> pushDataBatch dataTable_createCell (Some (transformData rows)) t1)"

section \<open>The header rows of the view\<close>

text \<open>
  \<open>_processHeader\<close> annotates a header with its depth (from 1), the index of the top-level header
  it lies under and its span, which is the number it returns.
\<close>

datatype header_axis = Columns | Rows

record header_cell =
  hc_header :: header
  hc_depth :: nat
  dataIndex :: nat
  hc_span :: nat

fun header_count :: "header \<Rightarrow> nat" where
  "header_count (Header a i None) = 1"
| "header_count (Header a i (Some cs)) = sum_list (map header_count cs)"

definition push_at :: "nat \<Rightarrow> 'c \<Rightarrow> 'c list list \<Rightarrow> 'c list list" where
  "push_at d c rows =
     (let rows1 = (if d < length rows then rows else rows @ replicate (Suc d - length rows) [])
      in rows1[d := rows1 ! d @ [c]])"

definition push_last :: "bool \<Rightarrow> 'c \<Rightarrow> 'c list list \<Rightarrow> 'c list list" where
  "push_last isFirst c rows =
     (let rows1 = (if \<not> isFirst then rows @ [[]] else rows)
      in butlast rows1 @ [last rows1 @ [c]])"

fun processHeader ::
  "header_cell list list \<Rightarrow> header \<Rightarrow> header_axis \<Rightarrow> nat \<Rightarrow> bool \<Rightarrow> nat \<Rightarrow> header_cell list list"
and processChildren ::
  "header_cell list list \<Rightarrow> header list \<Rightarrow> header_axis \<Rightarrow> nat \<Rightarrow> bool \<Rightarrow> nat \<Rightarrow> header_cell list list" where
  "processHeader rows (Header a i cs) ax depth isFirst idx =
     (let c = \<lparr>hc_header = Header a i cs, hc_depth = depth + 1, dataIndex = idx,
               hc_span = header_count (Header a i cs)\<rparr>;
          rows1 = (case ax of Columns \<Rightarrow> push_at depth c rows | Rows \<Rightarrow> push_last isFirst c rows)
      in case cs of None \<Rightarrow> rows1 | Some ks \<Rightarrow> processChildren rows1 ks ax (depth + 1) True idx)"
| "processChildren rows [] ax depth isFirst idx = rows"
| "processChildren rows (k # ks) ax depth isFirst idx =
     processChildren (processHeader rows k ax depth isFirst idx) ks ax depth False idx"

definition columnHeaderRows :: "header list \<Rightarrow> header_cell list list" where
  "columnHeaderRows hs =
     fold (\<lambda>(i, h) rows. processHeader rows h Columns 0 False i) (enumerate 0 hs) []"

definition rowHeaderRows :: "header list \<Rightarrow> header_cell list list" where
  "rowHeaderRows hs =
     fold (\<lambda>(i, h) rows. processHeader rows h Rows 0 (i = 0) i) (enumerate 0 hs) [[]]"

definition is_leaf_cell :: "header_cell \<Rightarrow> bool" where
  "is_leaf_cell c \<longleftrightarrow> children (hc_header c) = None"

definition maxDepth :: "header_cell list list \<Rightarrow> nat" where
  "maxDepth rows = fold max (map hc_depth (filter is_leaf_cell (concat rows))) 0"

text \<open>The span of a leaf across the other axis: it reaches down to the data.\<close>

definition leaf_cross_span :: "header_cell list list \<Rightarrow> header_cell \<Rightarrow> nat" where
  "leaf_cross_span rows c = maxDepth rows - hc_depth c + 1"

section \<open>Leafs and paths\<close>

lemma mark_leafs_map:
  "map leaf_path (map (\<lambda>(i, l). l\<lparr>leafIndex := i\<rparr>) (enumerate n ls)) = map leaf_path ls"
  "map leaf_attrs (map (\<lambda>(i, l). l\<lparr>leafIndex := i\<rparr>) (enumerate n ls)) = map leaf_attrs ls"
  by (induction ls arbitrary: n) auto

lemma mark_leafs_simps [simp]:
  "length (mark_leafs ls) = length ls"
  "map leaf_path (mark_leafs ls) = map leaf_path ls"
  "map leaf_attrs (mark_leafs ls) = map leaf_attrs ls"
  unfolding mark_leafs_def by (simp_all only: mark_leafs_map length_map length_enumerate)

lemma leaf_path_mark_leafs [simp]: "leaf_path ` set (mark_leafs ls) = leaf_path ` set ls"
  using mark_leafs_simps(2) [of ls] by (metis list.set_map)

lemma mark_leafs_index: "i < length ls \<Longrightarrow> leafIndex (mark_leafs ls ! i) = i"
  by (simp add: mark_leafs_def nth_enumerate_eq)

text \<open>Siblings with distinct ids, at every level.\<close>

fun good_ids :: "header list \<Rightarrow> bool" where
  "good_ids [] = True"
| "good_ids (Header a i cs # ns) =
     (i \<noteq> None \<and> i \<notin> hid ` set ns \<and> (case cs of None \<Rightarrow> True | Some ks \<Rightarrow> good_ids ks) \<and> good_ids ns)"

lemma leaf_path_shape:
  assumes "good_ids ns" and "l \<in> set (collect_leafs ns p)"
  shows "\<exists>i r. leaf_path l = p @ Some i # map Some r \<and> Some i \<in> hid ` set ns"
  using assms
proof (induction ns p arbitrary: l rule: collect_leafs.induct)
  case (1 p)
  then show ?case by simp
next
  case (2 a i cs ns p)
  then obtain k where i: "i = Some k" by auto
  from "2.prems"(2) consider
      "leaf_path l \<in> leaf_path ` set (mark_leafs (collect_leafs cs (p @ [Some k])))"
    | "l \<in> set (collect_leafs ns p)"
    using i by (auto simp del: leaf_path_mark_leafs)
  then show ?case
  proof cases
    case 1
    then obtain l' where l': "l' \<in> set (collect_leafs cs (p @ [Some k]))" "leaf_path l = leaf_path l'"
      by auto
    with "2.IH"(1) [of l'] "2.prems"(1) i obtain j r where
      "leaf_path l = (p @ [Some k]) @ Some j # map Some r" by auto
    then have "leaf_path l = p @ Some k # map Some (j # r)" by simp
    with i show ?thesis by fastforce
  next
    case 2
    with "2.IH"(2) [of l] "2.prems"(1) show ?thesis by auto
  qed
next
  case (3 a i ns p)
  then obtain k where i: "i = Some k" by auto
  from "3.prems"(2) i consider "leaf_path l = p @ Some k # map Some []" | "l \<in> set (collect_leafs ns p)"
    by auto
  then show ?case
  proof cases
    case 1
    with i show ?thesis by fastforce
  next
    case 2
    with "3.IH" [of l] "3.prems"(1) show ?thesis by auto
  qed
qed

lemma distinct_leaf_paths: "good_ids ns \<Longrightarrow> distinct (map leaf_path (collect_leafs ns p))"
proof (induction ns p rule: collect_leafs.induct)
  case (1 p)
  then show ?case by simp
next
  case (2 a i cs ns p)
  then obtain k where i: "i = Some k" by auto
  have g: "good_ids cs" "good_ids ns" "Some k \<notin> hid ` set ns" using "2.prems" i by auto
  have "leaf_path l \<noteq> leaf_path l'"
    if "l \<in> set (collect_leafs cs (p @ [Some k]))" "l' \<in> set (collect_leafs ns p)" for l l'
    using leaf_path_shape [OF g(1) that(1)] leaf_path_shape [OF g(2) that(2)] g(3) by force
  then have "leaf_path ` set (collect_leafs cs (p @ [Some k])) \<inter> leaf_path ` set (collect_leafs ns p) = {}"
    by blast
  with 2 g i show ?case by simp
next
  case (3 a i ns p)
  then obtain k where i: "i = Some k" by auto
  have "leaf_path l' \<noteq> p @ [Some k]" if "l' \<in> set (collect_leafs ns p)" for l'
    using leaf_path_shape [of ns l' p] that "3.prems" i by force
  then have "p @ [Some k] \<notin> leaf_path ` set (collect_leafs ns p)" by fastforce
  with 3 i show ?case by simp
qed

lemma path_key_inj:
  assumes "path_key (map Some r) = path_key (map Some r')" and "r \<noteq> []" and "r' \<noteq> []"
  shows "r = r'"
proof -
  have "join '','' (map decimal r) = join '','' (map decimal r')"
    using assms(1) by (simp add: path_key_def comp_def)
  then have "map decimal r = map decimal r'"
    using join_digits_inj [of "map decimal r" "map decimal r'"] assms(2,3) decimal_digits
    by (simp add: list_all_iff)
  then show ?thesis
    using decimal_inj by (simp add: inj_on_def inj_map_eq_map [OF injI])
qed

lemma getLeafs_keys_distinct:
  assumes "good_ids ns"
  shows "distinct (map (path_key \<circ> leaf_path) (getLeafs ns []))"
proof -
  have paths: "map leaf_path (getLeafs ns []) = map leaf_path (collect_leafs ns [])"
    by (simp add: getLeafs_def)
  have "inj_on path_key (set (map leaf_path (collect_leafs ns [])))"
  proof (rule inj_onI)
    fix p q
    assume p: "p \<in> set (map leaf_path (collect_leafs ns []))" and q: "q \<in> set (map leaf_path (collect_leafs ns []))"
      and eq: "path_key p = path_key q"
    obtain i r where p': "p = map Some (i # r)" using leaf_path_shape [OF assms, of _ "[]"] p by fastforce
    obtain j s where q': "q = map Some (j # s)" using leaf_path_shape [OF assms, of _ "[]"] q by fastforce
    show "p = q" using path_key_inj [of "i # r" "j # s"] eq p' q' by simp
  qed
  with distinct_leaf_paths [OF assms, of "[]"] paths show ?thesis
    by (simp add: distinct_map flip: map_map)
qed

lemma path_mapping_lookup:
  assumes "distinct (map (path_key \<circ> leaf_path) rs)" and "distinct (map (path_key \<circ> leaf_path) cs)"
    and "i < length rs" and "j < length cs"
  shows "lookup_index (path_mapping rs cs) (leaf_path (rs ! i)) (leaf_path (cs ! j)) = Inr (Some (i, j))"
proof -
  have "path_mapping rs cs (path_key (leaf_path (rs ! i))) = Some (row_mapping i cs)"
    using fold_upd_lookup [of "path_key \<circ> leaf_path" rs i "\<lambda>i. row_mapping i cs" 0 Map.empty] assms(1,3)
    by (simp add: path_mapping_def comp_def)
  moreover have "row_mapping i cs (path_key (leaf_path (cs ! j))) = Some (i, j)"
    using fold_upd_lookup [of "path_key \<circ> leaf_path" cs j "\<lambda>j. (i, j)" 0 Map.empty] assms(2,4)
    by (simp add: row_mapping_def comp_def)
  ultimately show ?thesis by (simp add: lookup_index_def)
qed

lemma wrap_from_ids: "x \<in> set (wrap_from n hs) \<Longrightarrow> \<exists>k. hid x = Some k"
  by (induction n hs rule: wrap_from.induct) auto

text \<open>Headers that bring no ids of their own are numbered by \<open>_wrapHeaders\<close>.\<close>

fun anonymous :: "header list \<Rightarrow> bool" where
  "anonymous [] = True"
| "anonymous (Header a i cs # ns) =
     (i = None \<and> (case cs of None \<Rightarrow> True | Some ks \<Rightarrow> anonymous ks) \<and> anonymous ns)"

lemma wrap_from_ge: "anonymous hs \<Longrightarrow> x \<in> set (wrap_from n hs) \<Longrightarrow> \<exists>k\<ge>n. hid x = Some k"
proof (induction n hs rule: wrap_from.induct)
  case (1 i)
  then show ?case by simp
next
  case (2 i a h hs)
  then show ?case by (auto dest: Suc_leD)
next
  case (3 i a h cs hs)
  then show ?case by (auto dest: Suc_leD)
qed

lemma wrap_from_good: "anonymous hs \<Longrightarrow> good_ids (wrap_from n hs)"
proof (induction n hs rule: wrap_from.induct)
  case (1 i)
  then show ?case by simp
next
  case (2 i a h hs)
  then show ?case using wrap_from_ge [of hs _ "Suc i"] by fastforce
next
  case (3 i a h cs hs)
  then show ?case using wrap_from_ge [of hs _ "Suc i"] by fastforce
qed

section \<open>Pushing data\<close>

definition grid_ok :: "nat \<Rightarrow> nat \<Rightarrow> 'e list list \<Rightarrow> bool" where
  "grid_ok m n g \<longleftrightarrow> length g = m \<and> (\<forall>row \<in> set g. length row = n)"

lemma grid_ok_set: "grid_ok m n g \<Longrightarrow> i < m \<Longrightarrow> grid_ok m n (set_grid i j e g)"
  by (auto simp: grid_ok_def set_grid_def dest!: subsetD [OF set_update_subset_insert])

lemma set_grid_nth:
  assumes "grid_ok m n g" and "i < m" and "j < n" and "i' < m"
  shows "set_grid i j e g ! i' ! j' = (if i' = i \<and> j' = j then e else g ! i' ! j')"
  using assms by (auto simp: set_grid_def grid_ok_def nth_list_update)

text \<open>A cell of the batch that lies in the table: the mapping and the creation succeed.\<close>

definition pushes ::
  "(leaf \<Rightarrow> cell_data \<Rightarrow> cell result) \<Rightarrow> (string \<rightharpoonup> (string \<rightharpoonup> nat \<times> nat)) \<Rightarrow> values_on \<Rightarrow>
   leaf list \<Rightarrow> leaf list \<Rightarrow> cell_data \<Rightarrow> nat \<times> nat \<Rightarrow> cell \<Rightarrow> bool" where
  "pushes createCell m vo rs cs d ij cell \<longleftrightarrow>
     lookup_index m (cell_row d) (cell_column d) = Inr (Some ij) \<and>
     fst ij < length rs \<and> snd ij < length cs \<and>
     createCell (if vo = OnRow then rs ! fst ij else cs ! snd ij)
       (d\<lparr>rowHeaderParams := leaf_params (rs ! fst ij), columnHeaderParams := leaf_params (cs ! snd ij)\<rparr>)
       = Inr cell"

lemma push_cells_step:
  assumes "pushes createCell m vo rs cs d (i, j) cell" and "grid_ok (length rs) (length cs) g"
  shows "push_cells createCell m vo rs cs (d # ds) g dirty =
     push_cells createCell m vo rs cs ds
       (set_grid i j (CellEntry (merge_pending (g ! i ! j) cell)) g) (dirty @ [(i, j)])"
  using assms by (cases vo) (simp_all add: pushes_def grid_ok_def Let_def)

text \<open>
  Pushing a batch whose cells all lie in the table: every index is written and queued, in order,
  nothing else changes, the grid keeps its shape, and where the batch names an index once the
  new cell carries the attributes that were pending there.
\<close>

lemma push_cells_all:
  assumes "list_all2 (\<lambda>d (ij, cell). pushes createCell m vo rs cs d ij cell) ds ics"
    and "grid_ok (length rs) (length cs) g"
  shows "\<exists>g'. push_cells createCell m vo rs cs ds g dirty = (g', Inr (dirty @ map fst ics)) \<and>
           grid_ok (length rs) (length cs) g' \<and>
           (\<forall>i j. i < length rs \<longrightarrow> (i, j) \<notin> fst ` set ics \<longrightarrow> g' ! i ! j = g ! i ! j) \<and>
           (distinct (map fst ics) \<longrightarrow> (\<forall>i j cell. ((i, j), cell) \<in> set ics \<longrightarrow>
              g' ! i ! j = CellEntry (merge_pending (g ! i ! j) cell)))"
  using assms
proof (induction ds ics arbitrary: g dirty rule: list_all2_induct)
  case Nil
  then show ?case by simp
next
  case (Cons d ds ic ics)
  obtain i j cell where ic: "ic = ((i, j), cell)" by (metis prod.exhaust)
  with Cons.hyps(1) have p: "pushes createCell m vo rs cs d (i, j) cell" by simp
  then have ij: "i < length rs" "j < length cs" by (simp_all add: pushes_def)
  let ?g = "set_grid i j (CellEntry (merge_pending (g ! i ! j) cell)) g"
  have ok: "grid_ok (length rs) (length cs) ?g" using Cons.prems ij by (simp add: grid_ok_set)
  have nth: "?g ! i' ! j' = (if i' = i \<and> j' = j then CellEntry (merge_pending (g ! i ! j) cell) else g ! i' ! j')"
    if "i' < length rs" for i' j'
    by (rule set_grid_nth [OF Cons.prems ij that])
  from Cons.IH [OF ok, of "dirty @ [(i, j)]"] obtain g' where
    g': "push_cells createCell m vo rs cs ds ?g (dirty @ [(i, j)]) = (g', Inr ((dirty @ [(i, j)]) @ map fst ics))"
      "grid_ok (length rs) (length cs) g'"
    and other: "\<forall>i j. i < length rs \<longrightarrow> (i, j) \<notin> fst ` set ics \<longrightarrow> g' ! i ! j = ?g ! i ! j"
    and each: "distinct (map fst ics) \<longrightarrow> (\<forall>i j cell. ((i, j), cell) \<in> set ics \<longrightarrow>
              g' ! i ! j = CellEntry (merge_pending (?g ! i ! j) cell))"
    by blast
  have range: "i' < length rs" if "((i', j'), c) \<in> set ics" for i' j' c
    using Cons.hyps(2) that by (auto simp: list_all2_conv_all_nth in_set_conv_nth pushes_def)
  have "g' ! i' ! j' = CellEntry (merge_pending (g ! i' ! j') c)"
    if "distinct (map fst (ic # ics))" "((i', j'), c) \<in> set (ic # ics)" for i' j' c
  proof (cases "((i', j'), c) = ic")
    case True
    then show ?thesis using that(1) other ic ij nth [of i j] by auto
  next
    case False
    then have mem: "((i', j'), c) \<in> set ics" using that(2) by auto
    then have "(i', j') \<noteq> (i, j)" using that(1) ic by (force simp: image_iff)
    then show ?thesis using each that(1) mem nth [OF range [OF mem], of j'] by auto
  qed
  moreover have "g' ! i' ! j' = g ! i' ! j'"
    if "i' < length rs" "(i', j') \<notin> fst ` set (ic # ics)" for i' j'
    using other that nth [OF that(1), of j'] ic by auto
  ultimately show ?case
    using g' ic push_cells_step [OF p Cons.prems] by auto
qed

section \<open>Two-dimensional data\<close>

definition flat :: "attrs list \<Rightarrow> header list" where
  "flat as = map (\<lambda>a. Header a None None) as"

lemma anonymous_flat: "anonymous (flat as)"
  by (induction as) (auto simp: flat_def)

lemma leaf_paths_flat: "map leaf_path (collect_leafs (wrap_from n (flat as)) p) = map (\<lambda>i. p @ [Some i]) [n..<n + length as]"
proof (induction as arbitrary: n)
  case Nil
  then show ?case by (simp add: flat_def)
next
  case (Cons a as)
  have "[n..<n + length (a # as)] = n # [Suc n..<Suc n + length as]" by (simp add: upt_rec)
  with Cons [of "Suc n"] show ?case by (simp add: flat_def)
qed

lemma leaf_path_flat_nth:
  assumes "i < length as"
  shows "i < length (getLeafs (wrapHeaders (flat as)) []) \<and>
         leaf_path (getLeafs (wrapHeaders (flat as)) [] ! i) = [Some i]"
proof -
  have eq: "map leaf_path (getLeafs (wrapHeaders (flat as)) []) = map (\<lambda>i. [Some i]) [0..<length as]"
    using leaf_paths_flat [of 0 as "[]"] by (simp add: getLeafs_def wrapHeaders_def)
  then have "length (getLeafs (wrapHeaders (flat as)) []) = length as"
    by (metis length_map length_upt minus_nat.diff_0)
  with assms eq show ?thesis by (metis (no_types, lifting) add_0 length_upt map_nth minus_nat.diff_0 nth_map nth_upt)
qed

lemma length_leafs_flat: "length (getLeafs (wrapHeaders (flat as)) []) = length as"
  using leaf_paths_flat [of 0 as "[]"]
  by (metis add_0 diff_zero getLeafs_def length_map length_upt mark_leafs_simps(1) wrapHeaders_def)

definition row_major :: "nat \<Rightarrow> nat \<Rightarrow> (nat \<times> nat) list" where
  "row_major m n = concat (map (\<lambda>i. map (\<lambda>j. (i, j)) [0..<n]) [0..<m])"

lemma set_row_major: "set (row_major m n) = {0..<m} \<times> {0..<n}"
  by (auto simp: row_major_def)

lemma distinct_row_major: "distinct (row_major m n)"
proof -
  have "distinct (concat (map (\<lambda>i. map (\<lambda>j. (i, j)) [0..<n]) [k..<k + m]))" for k
  proof (induction m arbitrary: k)
    case 0
    then show ?case by simp
  next
    case (Suc m)
    have "[k..<k + Suc m] = k # [Suc k..<Suc k + m]" by (simp add: upt_rec)
    with Suc [of "Suc k"] show ?case by (auto simp: distinct_map inj_on_def)
  qed
  from this [of 0] show ?thesis by (simp add: row_major_def)
qed

definition plain_cell :: "nat \<Rightarrow> nat \<Rightarrow> jsval \<Rightarrow> cell_data" where
  "plain_cell i j v = \<lparr>cell_row = [Some i], cell_column = [Some j], cell_fields = [''value'' \<mapsto> v],
     rowHeaderParams = JUndefined, columnHeaderParams = JUndefined\<rparr>"

lemma enumerate_nth: "enumerate 0 xs = map (\<lambda>i. (i, xs ! i)) [0..<length xs]"
  by (rule nth_equalityI) (simp_all add: nth_enumerate_eq)

lemma transformData_row_major:
  assumes "grid_ok m n rows"
  shows "transformData rows = map (\<lambda>(i, j). plain_cell i j (rows ! i ! j)) (row_major m n)"
proof -
  have "map (\<lambda>(j, v). plain_cell i j v) (enumerate 0 (rows ! i))
      = map (\<lambda>(i, j). plain_cell i j (rows ! i ! j)) (map (\<lambda>j. (i, j)) [0..<n])" if "i < m" for i
    using assms that by (simp add: enumerate_nth grid_ok_def)
  then show ?thesis
    using assms
    by (auto simp: transformData_def row_major_def plain_cell_def [symmetric] enumerate_nth [of rows]
        map_concat comp_def grid_ok_def intro!: arg_cong [where f = concat])
qed

lemma plain_cell_pushes:
  assumes "i < length as" and "j < length bs"
  shows "pushes dataTable_createCell
     (path_mapping (getLeafs (wrapHeaders (flat as)) []) (getLeafs (wrapHeaders (flat bs)) [])) vo
     (getLeafs (wrapHeaders (flat as)) []) (getLeafs (wrapHeaders (flat bs)) [])
     (plain_cell i j v) (i, j) (TableCell [(''value'', v)])"
proof -
  have "distinct (map (path_key \<circ> leaf_path) (getLeafs (wrapHeaders (flat cs)) []))" for cs
    unfolding wrapHeaders_def by (rule getLeafs_keys_distinct [OF wrap_from_good [OF anonymous_flat]])
  then show ?thesis
    using path_mapping_lookup [of "getLeafs (wrapHeaders (flat as)) []" "getLeafs (wrapHeaders (flat bs)) []" i j]
      leaf_path_flat_nth [OF assms(1)] leaf_path_flat_nth [OF assms(2)]
    by (simp add: pushes_def plain_cell_def dataTable_createCell_def)
qed

section \<open>Header rows are the levels of the header tree\<close>

definition row_of :: "'c list list \<Rightarrow> nat \<Rightarrow> 'c list" where
  "row_of rows d = (if d < length rows then rows ! d else [])"

lemma row_of_push_at: "row_of (push_at d c rows) d' = row_of rows d' @ (if d' = d then [c] else [])"
  by (auto simp: row_of_def push_at_def Let_def nth_list_update nth_append)

fun kids :: "header \<Rightarrow> header list" where
  "kids (Header a i None) = []"
| "kids (Header a i (Some cs)) = cs"

fun level :: "nat \<Rightarrow> header list \<Rightarrow> header list" where
  "level 0 hs = hs"
| "level (Suc d) hs = level d (concat (map kids hs))"

lemma level_append: "level d (xs @ ys) = level d xs @ level d ys"
  by (induction d arbitrary: xs ys) simp_all

lemma level_Cons: "level d (h # hs) = level d [h] @ level d hs"
  using level_append [of d "[h]" hs] by simp

lemma level_Nil [simp]: "level d [] = []"
  by (induction d) simp_all

definition header_cell_at :: "nat \<Rightarrow> nat \<Rightarrow> header \<Rightarrow> header_cell" where
  "header_cell_at idx d h = \<lparr>hc_header = h, hc_depth = d + 1, dataIndex = idx, hc_span = header_count h\<rparr>"

lemma process_levels:
  "row_of (processHeader rows h Columns depth isFirst idx) d =
     row_of rows d @ (if d < depth then [] else map (header_cell_at idx d) (level (d - depth) [h]))"
  "row_of (processChildren rows ks Columns depth isFirst idx) d =
     row_of rows d @ (if d < depth then [] else map (header_cell_at idx d) (level (d - depth) ks))"
proof (induction rows h Columns depth isFirst idx and rows ks Columns depth isFirst idx
    arbitrary: d and d rule: processHeader_processChildren.induct)
  case (1 rows a i cs depth isFirst idx)
  show ?case
  proof (cases cs)
    case None
    then show ?thesis
      by (cases "d - depth")
        (auto simp: row_of_push_at header_cell_at_def Let_def)
  next
    case (Some ks)
    consider "d < depth" | "d = depth" | k where "d - depth = Suc k" "depth < d" "d - Suc depth = k"
      by (metis Suc_diff_Suc linorder_neqE_nat)
    then show ?thesis
      using "1"(1) [OF refl refl Some] Some
      by cases (auto simp: row_of_push_at header_cell_at_def Let_def)
  qed
next
  case (2 rows depth isFirst idx)
  then show ?case by simp
next
  case (3 rows k ks depth isFirst idx)
  then show ?case by (simp add: level_Cons [of _ k ks])
qed

lemma columnHeaderRows_levels:
  "map hc_header (row_of (columnHeaderRows hs) d) = level d hs"
  "map hc_span (row_of (columnHeaderRows hs) d) = map header_count (level d hs)"
  "\<forall>c \<in> set (row_of (columnHeaderRows hs) d). hc_depth c = d + 1"
proof -
  have gen: "map hc_header (row_of (fold (\<lambda>(i, h) rows. processHeader rows h Columns 0 False i) (enumerate n hs) rows) d)
        = map hc_header (row_of rows d) @ level d hs \<and>
      map hc_span (row_of (fold (\<lambda>(i, h) rows. processHeader rows h Columns 0 False i) (enumerate n hs) rows) d)
        = map hc_span (row_of rows d) @ map header_count (level d hs) \<and>
      ((\<forall>c \<in> set (row_of rows d). hc_depth c = d + 1) \<longrightarrow>
       (\<forall>c \<in> set (row_of (fold (\<lambda>(i, h) rows. processHeader rows h Columns 0 False i) (enumerate n hs) rows) d).
          hc_depth c = d + 1))" for n rows
  proof (induction hs arbitrary: n rows)
    case Nil
    then show ?case by simp
  next
    case (Cons h hs)
    show ?case
      using Cons.IH [of "Suc n" "processHeader rows h Columns 0 False n"]
      by (auto simp: process_levels level_Cons [of d h hs] header_cell_at_def comp_def)
  qed
  show "map hc_header (row_of (columnHeaderRows hs) d) = level d hs"
    "map hc_span (row_of (columnHeaderRows hs) d) = map header_count (level d hs)"
    "\<forall>c \<in> set (row_of (columnHeaderRows hs) d). hc_depth c = d + 1"
    using gen [of 0 "[]"] by (simp_all add: columnHeaderRows_def row_of_def)
qed

text \<open>Every level accounts for all leafs: those at or below it, and the leafs above it.\<close>

definition leafs_at :: "nat \<Rightarrow> header list \<Rightarrow> nat" where
  "leafs_at d hs = length (filter (\<lambda>h. children h = None) (level d hs))"

lemma count_split:
  "sum_list (map header_count hs) =
     length (filter (\<lambda>h. children h = None) hs) + sum_list (map header_count (concat (map kids hs)))"
proof (induction hs)
  case Nil
  then show ?case by simp
next
  case (Cons h hs)
  obtain a i cs where h: "h = Header a i cs" by (cases h)
  with Cons show ?case by (cases cs) simp_all
qed

lemma level_counts:
  "sum_list (map header_count (level d hs)) + (\<Sum>k<d. leafs_at k hs) = sum_list (map header_count hs)"
proof (induction d arbitrary: hs)
  case 0
  then show ?case by simp
next
  case (Suc d)
  have "(\<Sum>k<Suc d. leafs_at k hs) = leafs_at 0 hs + (\<Sum>k<d. leafs_at k (concat (map kids hs)))"
    by (simp add: leafs_at_def sum.lessThan_Suc_shift del: sum.lessThan_Suc)
  with Suc [of "concat (map kids hs)"] count_split [of hs] show ?case by (simp add: leafs_at_def)
qed

lemma length_collect_leafs: "length (collect_leafs hs p) = sum_list (map header_count hs)"
  by (induction hs p rule: collect_leafs.induct) simp_all

lemma path_mapping_range:
  assumes "r \<in> set rs"
  shows "\<exists>i. path_mapping rs cs (path_key (leaf_path r)) = Some (row_mapping i cs)"
proof -
  have "m (path_key (leaf_path r)) = Some (row_mapping k cs) \<or> r \<in> set xs \<Longrightarrow>
      \<exists>i. fold (\<lambda>(i, r) m. m(path_key (leaf_path r) \<mapsto> row_mapping i cs)) (enumerate n xs) m
            (path_key (leaf_path r)) = Some (row_mapping i cs)" for k n xs m
  proof (induction xs arbitrary: k n m)
    case Nil
    then show ?case by auto
  next
    case (Cons x xs)
    show ?case
    proof (cases "path_key (leaf_path x) = path_key (leaf_path r)")
      case True
      then show ?thesis
        using Cons.IH [of "m(path_key (leaf_path x) \<mapsto> row_mapping n cs)" n "Suc n"] by simp
    next
      case False
      with Cons.prems Cons.IH [of "m(path_key (leaf_path x) \<mapsto> row_mapping n cs)" k "Suc n"]
      show ?thesis by auto
    qed
  qed
  from this [of Map.empty 0 rs 0] assms show ?thesis by (simp add: path_mapping_def)
qed

lemma lookup_known_row:
  "lookup_index m r c = Inr x \<Longrightarrow> m (path_key r) \<noteq> None"
  by (auto simp: lookup_index_def split: option.splits)

lemma batch_is_current:
  assumes "list_all2 (\<lambda>d (ij, cell). pushes createCell m vo rs cs d ij cell) ds ics" and "ds \<noteq> []"
  shows "dataBatchIsForCurrentTable m ds"
proof -
  have "\<forall>d \<in> set ds. m (path_key (cell_row d)) \<noteq> None"
    using assms(1)
    by (induction ds ics rule: list_all2_induct) (auto simp: pushes_def dest: lookup_known_row)
  then have "m (path_key (cell_row (hd ds))) \<noteq> None" "m (path_key (cell_row (last ds))) \<noteq> None"
    using assms(2) by simp_all
  with assms(2) show ?thesis by (simp add: dataBatchIsForCurrentTable_def)
qed

lemma pushDataBatch_unfold:
  assumes "t_headers t = Some h" and "m = path_mapping (getLeafs (rowHeaders h) []) (getLeafs (columnHeaders h) [])"
    and "dataBatchIsForCurrentTable m batch"
  shows "pushDataBatch createCell (Some batch) t =
    (case push_cells createCell m (valuesOn t) (getLeafs (rowHeaders h) []) (getLeafs (columnHeaders h) [])
            batch (t_data t) (dirtyCells t) of
       (g, Inl e) \<Rightarrow> (t\<lparr>t_data := g\<rparr>, Some e)
     | (g, Inr dirty) \<Rightarrow> (t\<lparr>t_data := g, dirtyCells := dirty\<rparr>, None))"
  using assms by (simp add: pushDataBatch_def rowLeafs_def columnLeafs_def Let_def)

lemma maxDepth_ge: "c \<in> set (concat rows) \<Longrightarrow> is_leaf_cell c \<Longrightarrow> hc_depth c \<le> maxDepth rows"
proof -
  have *: "a \<le> fold max xs (a :: nat) \<and> (\<forall>x \<in> set xs. x \<le> fold max xs a)" for xs a
    by (induction xs arbitrary: a) (auto intro: max.coboundedI1, (meson max.boundedE)+)
  show "c \<in> set (concat rows) \<Longrightarrow> is_leaf_cell c \<Longrightarrow> hc_depth c \<le> maxDepth rows"
    using * [of 0 "map hc_depth (filter is_leaf_cell (concat rows))"] unfolding maxDepth_def by auto
qed

section \<open>Properties\<close>

text \<open>
  C16: indexes and paths translate into each other: where sibling headers have distinct ids, the
  path of a grid index exists and maps back to the same index.
\<close>

theorem path_index_roundtrip:
  assumes "t_headers t = Some h" and "good_ids (rowHeaders h)" and "good_ids (columnHeaders h)"
    and "i < length (getLeafs (rowHeaders h) [])" and "j < length (getLeafs (columnHeaders h) [])"
  shows "\<exists>r c. pathFromIndex t (i, j) = Inr (r, c) \<and> indexFromPath t r c = Inr (Some (i, j))"
  using path_mapping_lookup [OF getLeafs_keys_distinct [OF assms(2)] getLeafs_keys_distinct [OF assms(3)] assms(4,5)]
    assms
  by (simp add: pathFromIndex_def indexFromPath_def indexFromPathMapping_def rowLeafs_def columnLeafs_def)

definition sample_headers :: headers where
  "sample_headers = dataTable_headers
     (Some [Header Map.empty None None, Header Map.empty None None])
     (Some [Header Map.empty None (Some [Header Map.empty None None, Header Map.empty None None]),
            Header Map.empty None None])"

definition sample_table :: table where
  "sample_table = \<lparr>t_headers = Some sample_headers, dirtyCells = [],
     t_data = replicate 2 (replicate 3 NullEntry), valuesOn = OnColumn\<rparr>"

theorem path_index_roundtrip_witness:
  "\<exists>r c. pathFromIndex sample_table (1, 1) = Inr (r, c) \<and> indexFromPath sample_table r c = Inr (Some (1, 1))"
  using path_index_roundtrip [of sample_table sample_headers 1 1]
  by (simp add: sample_table_def sample_headers_def dataTable_headers_def wrapHeaders_def getLeafs_def)

text \<open>
  C3: pushing a batch whose cells lie in the table and can be created raises nothing, appends the
  indexes of the cells to the queue of dirty cells in order, keeps the shape of the grid and every
  cell the batch does not name, and puts each named cell in its place with the attributes that
  were pending there.
\<close>

theorem push_batch_effect:
  assumes "t_headers t = Some h"
    and "rs = getLeafs (rowHeaders h) []" and "cs = getLeafs (columnHeaders h) []"
    and "list_all2 (\<lambda>d (ij, cell). pushes createCell (path_mapping rs cs) (valuesOn t) rs cs d ij cell) batch ics"
    and "batch \<noteq> []" and "distinct (map fst ics)" and "grid_ok (length rs) (length cs) (t_data t)"
  shows "\<exists>g'. pushDataBatch createCell (Some batch) t =
       (t\<lparr>t_data := g', dirtyCells := dirtyCells t @ map fst ics\<rparr>, None) \<and>
     grid_ok (length rs) (length cs) g' \<and>
     (\<forall>i j. i < length rs \<longrightarrow> (i, j) \<notin> fst ` set ics \<longrightarrow> g' ! i ! j = t_data t ! i ! j) \<and>
     (\<forall>i j cell. ((i, j), cell) \<in> set ics \<longrightarrow>
        g' ! i ! j = CellEntry (merge_pending (t_data t ! i ! j) cell))"
  using push_cells_all [OF assms(4,7), of "dirtyCells t"] assms(1-3,6)
    pushDataBatch_unfold [OF assms(1) _ batch_is_current [OF assms(4,5)]]
  by auto

definition sample_cell :: cell_data where
  "sample_cell = \<lparr>cell_row = [Some 1], cell_column = [Some 0, Some 1], cell_fields = [''value'' \<mapsto> JNum 7],
     rowHeaderParams = JUndefined, columnHeaderParams = JUndefined\<rparr>"

theorem push_batch_effect_witness:
  "\<exists>g'. pushDataBatch dataTable_createCell (Some [sample_cell]) sample_table =
       (sample_table\<lparr>t_data := g', dirtyCells := [(1, 1)]\<rparr>, None) \<and>
     g' ! 0 ! 0 = NullEntry \<and> g' ! 1 ! 1 = CellEntry (TableCell [(''value'', JNum 7)])"
proof -
  let ?rs = "getLeafs (rowHeaders sample_headers) []" and ?cs = "getLeafs (columnHeaders sample_headers) []"
  let ?c = "TableCell [(''value'', JNum 7)]"
  have len: "length ?rs = 2" "length ?cs = 3"
    by (simp_all add: sample_headers_def dataTable_headers_def wrapHeaders_def getLeafs_def)
  have good: "good_ids (rowHeaders sample_headers)" "good_ids (columnHeaders sample_headers)"
    by (simp_all add: sample_headers_def dataTable_headers_def wrapHeaders_def)
  have "leaf_path (?rs ! 1) = [Some 1]" "leaf_path (?cs ! 1) = [Some 0, Some 1]"
    by (simp_all add: sample_headers_def dataTable_headers_def wrapHeaders_def getLeafs_def mark_leafs_def)
  with path_mapping_lookup [OF getLeafs_keys_distinct [OF good(1)] getLeafs_keys_distinct [OF good(2)], of 1 1] len
  have p: "pushes dataTable_createCell (path_mapping ?rs ?cs) OnColumn ?rs ?cs sample_cell (1, 1) ?c"
    by (simp add: pushes_def sample_cell_def dataTable_createCell_def)
  show ?thesis
    using push_batch_effect [of sample_table sample_headers ?rs ?cs dataTable_createCell "[sample_cell]" "[((1, 1), ?c)]"]
      p len by (auto simp: sample_table_def grid_ok_def merge_pending_def numeral_2_eq_2 numeral_3_eq_3)
qed

lemma data_table_load:
  assumes "t_headers t = Some (dataTable_headers (Some (flat as)) (Some (flat bs)))"
    and "grid_ok (length as) (length bs) rows" and "as \<noteq> []" and "bs \<noteq> []"
  shows "\<exists>t'. dataTable_headersDidChange (Some rows) t = (t', None) \<and>
     dirtyCells t' = row_major (length as) (length bs) \<and> grid_ok (length as) (length bs) (t_data t') \<and>
     (\<forall>i j. i < length as \<longrightarrow> j < length bs \<longrightarrow>
        t_data t' ! i ! j = CellEntry (TableCell [(''value'', rows ! i ! j)]))"
proof -
  let ?rs = "getLeafs (wrapHeaders (flat as)) []" and ?cs = "getLeafs (wrapHeaders (flat bs)) []"
  let ?h = "dataTable_headers (Some (flat as)) (Some (flat bs))"
  let ?t = "headersDidChange t"
  let ?ics = "map (\<lambda>(i, j). ((i, j), TableCell [(''value'', rows ! i ! j)])) (row_major (length as) (length bs))"
  have h: "rowHeaders ?h = wrapHeaders (flat as)" "columnHeaders ?h = wrapHeaders (flat bs)"
    by (simp_all add: dataTable_headers_def)
  have t: "t_headers ?t = Some ?h" "dirtyCells ?t = []"
      "t_data ?t = replicate (length as) (replicate (length bs) NullEntry)"
    using assms(1) h by (simp_all add: headersDidChange_def rowLeafs_def columnLeafs_def length_leafs_flat)
  have ok: "grid_ok (length ?rs) (length ?cs) (t_data ?t)"
    by (simp add: t grid_ok_def length_leafs_flat)
  have all: "list_all2 (\<lambda>d (ij, cell). pushes dataTable_createCell (path_mapping ?rs ?cs) (valuesOn ?t) ?rs ?cs d ij cell)
     (transformData rows) ?ics"
    unfolding transformData_row_major [OF assms(2)] list_all2_conv_all_nth
    using plain_cell_pushes set_row_major [of "length as" "length bs"]
    by (auto dest!: nth_mem split: prod.splits)
  have "(0, 0) \<in> set (row_major (length as) (length bs))"
    using assms(3,4) by (simp add: set_row_major)
  then have "row_major (length as) (length bs) \<noteq> []" by auto
  then have ne: "transformData rows \<noteq> []" by (simp add: transformData_row_major [OF assms(2)])
  have fst: "map fst ?ics = row_major (length as) (length bs)"
    by (simp add: comp_def split_def)
  have null: "t_data ?t ! i ! j = NullEntry" if "i < length as" "j < length bs" for i j
    using that by (simp add: t)
  from push_cells_all [OF all ok, of "[]"] fst distinct_row_major [of "length as" "length bs"] obtain g' where
    g': "push_cells dataTable_createCell (path_mapping ?rs ?cs) (valuesOn ?t) ?rs ?cs (transformData rows) (t_data ?t) []
          = (g', Inr (row_major (length as) (length bs)))" "grid_ok (length ?rs) (length ?cs) g'"
    and each: "\<forall>i j cell. ((i, j), cell) \<in> set ?ics \<longrightarrow> g' ! i ! j = CellEntry (merge_pending (t_data ?t ! i ! j) cell)"
    by auto
  have "g' ! i ! j = CellEntry (TableCell [(''value'', rows ! i ! j)])" if "i < length as" "j < length bs" for i j
    using each null [OF that] that set_row_major [of "length as" "length bs"]
    by (force simp: merge_pending_def)
  with g' show ?thesis
    using pushDataBatch_unfold [OF t(1) refl, of "transformData rows"] batch_is_current [OF all ne] h t(2)
    by (simp add: dataTable_headersDidChange_def Let_def length_leafs_flat)
qed



text \<open>
  The header rows of the view fit the grid: at every depth the spans of the headers of that row,
  together with the leafs of the rows above, make up the number of leafs, and each leaf spans down
  to the deepest row.
\<close>

theorem header_rows_fill_grid:
  "sum_list (map hc_span (row_of (columnHeaderRows hs) d)) +
     (\<Sum>k<d. length (filter is_leaf_cell (row_of (columnHeaderRows hs) k))) = length (getLeafs hs []) \<and>
   (\<forall>c. c \<in> set (concat (columnHeaderRows hs)) \<and> is_leaf_cell c \<longrightarrow>
      hc_depth c + leaf_cross_span (columnHeaderRows hs) c = maxDepth (columnHeaderRows hs) + 1)"
proof -
  have "length (filter is_leaf_cell (row_of (columnHeaderRows hs) k)) = leafs_at k hs" for k
    unfolding leafs_at_def columnHeaderRows_levels(1) [of hs k, symmetric]
    by (simp add: filter_map comp_def is_leaf_cell_def [abs_def])
  moreover have "sum_list (map hc_span (row_of (columnHeaderRows hs) d)) + (\<Sum>k<d. leafs_at k hs) = length (getLeafs hs [])"
    using level_counts [of d hs] by (simp add: columnHeaderRows_levels(2) getLeafs_def length_collect_leafs)
  ultimately show ?thesis by (auto simp: leaf_cross_span_def maxDepth_ge)
qed

theorem header_rows_fill_grid_witness:
  "sum_list (map hc_span (row_of (columnHeaderRows (columnHeaders sample_headers)) 1)) +
     (\<Sum>k<1. length (filter is_leaf_cell (row_of (columnHeaderRows (columnHeaders sample_headers)) k))) = 3"
  using header_rows_fill_grid [of "columnHeaders sample_headers" 1]
  by (simp add: sample_headers_def dataTable_headers_def wrapHeaders_def getLeafs_def)

text \<open>
  The guard against stale batches looks at rows only: a batch whose row still exists but whose
  column does not passes it and raises a \<open>TypeError\<close> in the middle of the push.
\<close>

theorem stale_column_batch_throws:
  assumes "t_headers t = Some h" and "r \<in> set (getLeafs (rowHeaders h) [])" and "cell_row d = leaf_path r"
    and "path_key (cell_column d) \<notin> path_key ` leaf_path ` set (getLeafs (columnHeaders h) [])"
  shows "pushDataBatch createCell (Some [d]) t = (t, Some TypeError)"
proof -
  let ?rs = "getLeafs (rowHeaders h) []" and ?cs = "getLeafs (columnHeaders h) []"
  obtain i where i: "path_mapping ?rs ?cs (path_key (cell_row d)) = Some (row_mapping i ?cs)"
    using path_mapping_range [OF assms(2)] assms(3) by metis
  have "row_mapping i ?cs (path_key (cell_column d)) = None"
    using fold_upd_other [of "path_key (cell_column d)" "path_key \<circ> leaf_path" ?cs "\<lambda>j. (i, j)" 0 Map.empty] assms(4)
    by (simp add: row_mapping_def comp_def image_image)
  then have "lookup_index (path_mapping ?rs ?cs) (cell_row d) (cell_column d) = Inr None"
    using i by (simp add: lookup_index_def)
  with pushDataBatch_unfold [OF assms(1) refl, of "[d]"] i show ?thesis
    by (simp add: dataBatchIsForCurrentTable_def)
qed

theorem stale_column_batch_throws_witness:
  "pushDataBatch dataTable_createCell (Some [sample_cell\<lparr>cell_column := [Some 5]\<rparr>]) sample_table
     = (sample_table, Some TypeError)"
  by (rule stale_column_batch_throws [of _ sample_headers "getLeafs (rowHeaders sample_headers) [] ! 1"])
    (simp_all add: sample_table_def sample_headers_def dataTable_headers_def wrapHeaders_def getLeafs_def
      sample_cell_def mark_leafs_def path_key_def decimal.simps)

end
