(* ===== verification/Sorting_Proxy.thy ===== *)
theory Sorting_Proxy
  imports Flame_Prelude "HOL-Library.Option_ord" "HOL-Library.Multiset"
begin

text \<open>
  The sorting array proxy (\<open>utils/sorting_array_proxy.js\<close>): a sorted copy (\<open>content\<close>) of a
  \<open>source\<close> array, each kept in step with the other by array observers, and the sort keys of the
  items kept in step with the order of the content.

  Items are numbers; the properties the proxy reads and writes on an item are maps of the state.
  An array observer runs inside the mutation that triggers it, so mutating one array may mutate
  the other: the two mutators are defined together over a bound on the depth of nested calls, and
  a mutation that exceeds it is the error of an exhausted call stack.  \<open>Array.prototype.sort\<close> is
  the stable sort of the current standard.
\<close>

type_synonym item = nat

text \<open>
  \<open>sortKeyOf\<close> is \<open>item.get(sortKey)\<close> (\<open>None\<close> for \<open>undefined\<close>, which \<open>Ember.compare\<close> places
  before every number), \<open>registered\<close> counts the sort key observers on an item and
  \<open>storedObserver\<close> tells whether the item holds one for later removal.
\<close>

record proxy =
  sortKeyOf :: "item \<Rightarrow> int option"
  lastPosition :: "item \<Rightarrow> int option"
  registered :: "item \<Rightarrow> nat"
  storedObserver :: "item \<Rightarrow> bool"
  p_source :: "item list option"
  p_content :: "item list"
  sourceObserved :: bool
  contentObserved :: bool
  suppressObservers :: bool

type_synonym replace_op = "nat \<Rightarrow> nat \<Rightarrow> item list \<Rightarrow> proxy \<Rightarrow> proxy result"

primrec rfold :: "('a \<Rightarrow> 's \<Rightarrow> 's result) \<Rightarrow> 'a list \<Rightarrow> 's \<Rightarrow> 's result" where
  "rfold f [] s = Inr s"
| "rfold f (x # xs) s = rbind (f x s) (rfold f xs)"

section \<open>Helpers of the proxy\<close>

definition withObserversSuppressed :: "(proxy \<Rightarrow> proxy result) \<Rightarrow> proxy \<Rightarrow> proxy result" where
  "withObserversSuppressed f p =
     (if suppressObservers p then Inr p
      else rbind (f (p\<lparr>suppressObservers := True\<rparr>)) (\<lambda>p'. Inr (p'\<lparr>suppressObservers := False\<rparr>)))"

definition sort_items :: "proxy \<Rightarrow> item list \<Rightarrow> item list" where
  "sort_items p xs = sort_key (sortKeyOf p) xs"

definition sortAndReplaceContent :: "replace_op \<Rightarrow> item list \<Rightarrow> proxy \<Rightarrow> proxy result" where
  "sortAndReplaceContent contentReplace newContent p =
     (let sorted = sort_items p newContent
      in withObserversSuppressed (\<lambda>q. contentReplace 0 (length (p_content q)) sorted q) p)"

definition addSortIndexObserver :: "item \<Rightarrow> proxy \<Rightarrow> proxy" where
  "addSortIndexObserver x p = p\<lparr>lastPosition := (lastPosition p)(x := sortKeyOf p x),
     registered := (registered p)(x := Suc (registered p x)),
     storedObserver := (storedObserver p)(x := True)\<rparr>"

definition removeSortIndexObserver :: "item \<Rightarrow> proxy \<Rightarrow> proxy" where
  "removeSortIndexObserver x p =
     (if storedObserver p x
      then p\<lparr>registered := (registered p)(x := registered p x - 1),
             storedObserver := (storedObserver p)(x := False)\<rparr>
      else p)"

text \<open>\<open>_reAssignSortKeys\<close>: missing keys take the key before them, the first one takes 0.\<close>

fun fill_keys :: "int \<Rightarrow> int option list \<Rightarrow> int list" where
  "fill_keys prev [] = []"
| "fill_keys prev (None # ks) = prev # fill_keys prev ks"
| "fill_keys prev (Some k # ks) = k # fill_keys k ks"

definition assign_keys :: "item list \<Rightarrow> int list \<Rightarrow> (item \<Rightarrow> int option) \<Rightarrow> item \<Rightarrow> int option" where
  "assign_keys xs ks m = fold (\<lambda>(x, k) m. m(x := Some k)) (zip xs ks) m"

definition reAssignSortKeys :: "proxy \<Rightarrow> proxy" where
  "reAssignSortKeys p = p\<lparr>sortKeyOf :=
     assign_keys (p_content p) (sort (fill_keys 0 (map (sortKeyOf p) (p_content p)))) (sortKeyOf p)\<rparr>"

text \<open>
  \<open>removeObject\<close> of a mutable array: one removal per occurrence, from the end.
\<close>

definition remove_each :: "(nat \<Rightarrow> 's \<Rightarrow> 's result) \<Rightarrow> 'x list \<Rightarrow> 'x \<Rightarrow> 's \<Rightarrow> 's result" where
  "remove_each removeAt xs x s = rfold removeAt (rev (filter (\<lambda>i. xs ! i = x) [0..<length xs])) s"

section \<open>Array observers\<close>

definition indexChanged :: "replace_op \<Rightarrow> item \<Rightarrow> proxy \<Rightarrow> proxy result" where
  "indexChanged contentReplace x p =
     (if lastPosition p x = sortKeyOf p x \<or> suppressObservers p then Inr p
      else sortAndReplaceContent contentReplace (p_content p) p)"

definition sourceArrayWillChange :: "replace_op \<Rightarrow> item list \<Rightarrow> nat \<Rightarrow> nat \<Rightarrow> proxy \<Rightarrow> proxy result" where
  "sourceArrayWillChange contentReplace src start removeCount p =
     withObserversSuppressed (\<lambda>q.
       if start = 0 \<and> removeCount = length (p_content q)
       then rbind (contentReplace 0 removeCount [] q) (\<lambda>q1.
              Inr (fold removeSortIndexObserver (p_content q1) q1))
       else rfold (\<lambda>i q1. case objectAt src i of
                None \<Rightarrow> Inl TypeError
              | Some x \<Rightarrow> rbind (remove_each (\<lambda>i. contentReplace i 1 []) (p_content q1) x q1)
                            (\<lambda>q2. Inr (removeSortIndexObserver x q2)))
              [start..<start + removeCount] q) p"

definition sourceArrayDidChange :: "replace_op \<Rightarrow> item list \<Rightarrow> nat \<Rightarrow> nat \<Rightarrow> proxy \<Rightarrow> proxy result" where
  "sourceArrayDidChange contentReplace src start addCount p =
     (if 0 < addCount
      then rbind (rfold (\<lambda>i q. case objectAt src i of
                 None \<Rightarrow> Inl TypeError
               | Some x \<Rightarrow> Inr (addSortIndexObserver x q)) [start..<start + addCount] p) (\<lambda>q.
             sortAndReplaceContent contentReplace (p_content p @ take addCount (drop start src)) q)
      else Inr p)"

definition contentArrayWillChange :: "replace_op \<Rightarrow> nat \<Rightarrow> nat \<Rightarrow> proxy \<Rightarrow> proxy result" where
  "contentArrayWillChange sourceReplace start removeCount p =
     withObserversSuppressed (rfold (\<lambda>i q.
       case (objectAt (p_content q) i, p_source q) of
         (Some x, Some src) \<Rightarrow> rbind (remove_each (\<lambda>i. sourceReplace i 1 []) src x q)
                                 (\<lambda>q1. Inr (removeSortIndexObserver x q1))
       | _ \<Rightarrow> Inl TypeError) [start..<start + removeCount]) p"

definition contentArrayDidChange :: "replace_op \<Rightarrow> nat \<Rightarrow> nat \<Rightarrow> proxy \<Rightarrow> proxy result" where
  "contentArrayDidChange sourceReplace start addCount p =
     (if 0 < addCount
      then withObserversSuppressed (\<lambda>q. rfold (\<lambda>i q1.
             case (objectAt (p_content q1) i, p_source q1) of
               (Some x, Some src) \<Rightarrow> sourceReplace (length src) 0 [x] (addSortIndexObserver x q1)
             | _ \<Rightarrow> Inl TypeError) [start..<start + addCount] (reAssignSortKeys q)) p
      else Inr p)"

section \<open>The two mutators\<close>

definition content_step :: "replace_op \<Rightarrow> replace_op" where
  "content_step sourceReplace start removeCount added p =
     rbind (if contentObserved p then contentArrayWillChange sourceReplace start removeCount p else Inr p) (\<lambda>q.
     let q1 = q\<lparr>p_content := replace_at start removeCount added (p_content q)\<rparr>
     in if contentObserved q1 then contentArrayDidChange sourceReplace start (length added) q1 else Inr q1)"

definition source_step :: "replace_op \<Rightarrow> replace_op" where
  "source_step contentReplace start removeCount added p = (case p_source p of
       None \<Rightarrow> Inl TypeError
     | Some src \<Rightarrow>
        rbind (if sourceObserved p then sourceArrayWillChange contentReplace src start removeCount p else Inr p) (\<lambda>q.
        let src1 = replace_at start removeCount added src; q1 = q\<lparr>p_source := Some src1\<rparr>
        in if sourceObserved q1 then sourceArrayDidChange contentReplace src1 start (length added) q1 else Inr q1))"

primrec mutators :: "nat \<Rightarrow> replace_op \<times> replace_op" where
  "mutators 0 = (\<lambda>_ _ _ _. Inl (ThrownError ''Maximum call stack size exceeded''),
                 \<lambda>_ _ _ _. Inl (ThrownError ''Maximum call stack size exceeded''))"
| "mutators (Suc n) = (content_step (snd (mutators n)), source_step (fst (mutators n)))"

definition contentReplace :: "nat \<Rightarrow> replace_op" where
  "contentReplace n = fst (mutators n)"

definition sourceReplace :: "nat \<Rightarrow> replace_op" where
  "sourceReplace n = snd (mutators n)"

lemma replace_Suc:
  "contentReplace (Suc n) = content_step (sourceReplace n)"
  "sourceReplace (Suc n) = source_step (contentReplace n)"
  by (simp_all add: contentReplace_def sourceReplace_def)

text \<open>Two nested calls are enough: inside a mutation the observers of the other array abort.\<close>

definition call_depth :: nat where
  "call_depth = 2"

section \<open>Operations\<close>

definition sourceWillChange :: "proxy \<Rightarrow> proxy" where
  "sourceWillChange p = (case p_source p of
       None \<Rightarrow> p
     | Some src \<Rightarrow> (fold removeSortIndexObserver src p)\<lparr>sourceObserved := False\<rparr>)"

definition sourceDidChange :: "proxy \<Rightarrow> proxy result" where
  "sourceDidChange p = (case p_source p of
       None \<Rightarrow> Inr p
     | Some src \<Rightarrow>
        rbind (contentReplace call_depth 0 (length (p_content p)) (sort_items p src) p) (\<lambda>q.
        Inr ((fold addSortIndexObserver (p_content q) q)\<lparr>sourceObserved := True\<rparr>)))"

definition setSource :: "item list option \<Rightarrow> proxy \<Rightarrow> proxy result" where
  "setSource src p = sourceDidChange ((sourceWillChange p)\<lparr>p_source := src\<rparr>)"

definition init_proxy :: "(item \<Rightarrow> int option) \<Rightarrow> item list option \<Rightarrow> proxy result" where
  "init_proxy keys src =
     rbind (sourceDidChange \<lparr>sortKeyOf = keys, lastPosition = (\<lambda>_. None), registered = (\<lambda>_. 0),
        storedObserver = (\<lambda>_. False), p_source = src, p_content = [], sourceObserved = False,
        contentObserved = False, suppressObservers = False\<rparr>) (\<lambda>p.
     Inr (p\<lparr>contentObserved := True\<rparr>))"

definition startMoving :: "proxy \<Rightarrow> proxy" where
  "startMoving p = p\<lparr>suppressObservers := True\<rparr>"

definition endMoving :: "proxy \<Rightarrow> proxy result" where
  "endMoving p = withObserversSuppressed (\<lambda>q. Inr (reAssignSortKeys q)) (p\<lparr>suppressObservers := False\<rparr>)"

text \<open>Somebody else sets the sort key of an item: every registered observer runs.\<close>

definition setSortKey :: "item \<Rightarrow> int option \<Rightarrow> proxy \<Rightarrow> proxy result" where
  "setSortKey x v p =
     (if sortKeyOf p x = v then Inr p
      else rfold (\<lambda>_. indexChanged (contentReplace call_depth) x) (replicate (registered p x) ())
             (p\<lparr>sortKeyOf := (sortKeyOf p)(x := v)\<rparr>))"

definition proxy_removeAt :: "nat \<Rightarrow> proxy \<Rightarrow> proxy result" where
  "proxy_removeAt i = contentReplace call_depth i 1 []"

definition proxy_insertAt :: "nat \<Rightarrow> item \<Rightarrow> proxy \<Rightarrow> proxy result" where
  "proxy_insertAt i x = contentReplace call_depth i 0 [x]"

section \<open>Mutations while the observers are suppressed\<close>

text \<open>
  The interface between the two arrays: an array inside the state whose removals, while the state
  is \<open>quiet\<close>, touch nothing but the array.  Removing an object then is filtering it out.
\<close>

locale quiet_array =
  fixes items :: "'s \<Rightarrow> 'x list"
    and put :: "'x list \<Rightarrow> 's \<Rightarrow> 's"
    and removeAt :: "nat \<Rightarrow> 's \<Rightarrow> 's result"
    and quiet :: "'s \<Rightarrow> bool"
  assumes items_put: "quiet s \<Longrightarrow> items (put xs s) = xs"
    and put_put: "quiet s \<Longrightarrow> put ys (put xs s) = put ys s"
    and put_items: "quiet s \<Longrightarrow> put (items s) s = s"
    and quiet_put: "quiet s \<Longrightarrow> quiet (put xs s)"
    and removeAt_quiet: "quiet s \<Longrightarrow> removeAt i s = Inr (put (replace_at i 1 [] (items s)) s)"
begin

lemma remove_suffix:
  assumes "quiet s" and "items s = xs @ ys"
  shows "rfold removeAt (rev (filter (\<lambda>i. xs ! i = x) [0..<length xs])) s
           = Inr (put (removeObject x xs @ ys) s)"
  using assms
proof (induction xs arbitrary: ys s rule: rev_induct)
  case Nil
  then show ?case using put_items [of s] by (simp add: removeObject_def)
next
  case (snoc y xs)
  have idx: "filter (\<lambda>i. (xs @ [y]) ! i = x) [0..<length xs] = filter (\<lambda>i. xs ! i = x) [0..<length xs]"
    by (rule filter_cong) (auto simp: nth_append)
  show ?case
  proof (cases "y = x")
    case True
    let ?s = "put (xs @ ys) s"
    have "removeAt (length xs) s = Inr ?s"
      using snoc.prems by (simp add: removeAt_quiet replace_at_def)
    moreover have "quiet ?s" "items ?s = xs @ ys"
      using snoc.prems(1) by (simp_all add: quiet_put items_put)
    ultimately show ?thesis
      using snoc.IH [of ?s ys] snoc.prems(1) True idx by (simp add: put_put removeObject_def)
  next
    case False
    then show ?thesis using snoc.IH [of s "y # ys"] snoc.prems by (simp add: idx removeObject_def)
  qed
qed

lemma remove_each_quiet:
  "quiet s \<Longrightarrow> remove_each removeAt (items s) x s = Inr (put (removeObject x (items s)) s)"
  using remove_suffix [of s "items s" "[]" x] by (simp add: remove_each_def)

end

lemma contentReplace_quiet [simp]:
  "suppressObservers p \<Longrightarrow> contentReplace (Suc n) start m added p
     = Inr (p\<lparr>p_content := replace_at start m added (p_content p)\<rparr>)"
  by (simp add: replace_Suc content_step_def contentArrayWillChange_def contentArrayDidChange_def
      withObserversSuppressed_def Let_def)

lemma sourceRemove_quiet [simp]:
  "suppressObservers p \<Longrightarrow> p_source p = Some src \<Longrightarrow> sourceReplace (Suc n) start m [] p
     = Inr (p\<lparr>p_source := Some (replace_at start m [] src)\<rparr>)"
  by (simp add: replace_Suc source_step_def sourceArrayWillChange_def sourceArrayDidChange_def
      withObserversSuppressed_def Let_def)

interpretation content: quiet_array p_content "\<lambda>xs p. p\<lparr>p_content := xs\<rparr>"
  "\<lambda>i. contentReplace (Suc n) i 1 []" suppressObservers for n
  by unfold_locales simp_all

definition source_items :: "proxy \<Rightarrow> item list" where
  "source_items p = (case p_source p of None \<Rightarrow> [] | Some src \<Rightarrow> src)"

interpretation source: quiet_array source_items "\<lambda>xs p. p\<lparr>p_source := Some xs\<rparr>"
  "\<lambda>i. sourceReplace (Suc n) i 1 []" "\<lambda>p. suppressObservers p \<and> p_source p \<noteq> None" for n
  by unfold_locales (auto simp: source_items_def)

section \<open>The invariant\<close>

text \<open>
  Between operations: the observers are installed and not suppressed, both arrays hold the same
  items, and the content is sorted by the sort keys.
\<close>

definition same_items :: "proxy \<Rightarrow> bool" where
  "same_items p \<longleftrightarrow> (\<exists>src. p_source p = Some src \<and> distinct src \<and> distinct (p_content p) \<and> set (p_content p) = set src)"

definition key_sorted :: "proxy \<Rightarrow> bool" where
  "key_sorted p \<longleftrightarrow> sorted (map (sortKeyOf p) (p_content p))"

definition in_sync :: "proxy \<Rightarrow> bool" where
  "in_sync p \<longleftrightarrow> sourceObserved p \<and> contentObserved p \<and> \<not> suppressObservers p \<and> same_items p \<and> key_sorted p"

lemma observer_frame [simp]:
  "sortKeyOf (addSortIndexObserver x p) = sortKeyOf p"
  "p_source (addSortIndexObserver x p) = p_source p"
  "p_content (addSortIndexObserver x p) = p_content p"
  "sourceObserved (addSortIndexObserver x p) = sourceObserved p"
  "contentObserved (addSortIndexObserver x p) = contentObserved p"
  "suppressObservers (addSortIndexObserver x p) = suppressObservers p"
  "sortKeyOf (removeSortIndexObserver x p) = sortKeyOf p"
  "p_source (removeSortIndexObserver x p) = p_source p"
  "p_content (removeSortIndexObserver x p) = p_content p"
  "sourceObserved (removeSortIndexObserver x p) = sourceObserved p"
  "contentObserved (removeSortIndexObserver x p) = contentObserved p"
  "suppressObservers (removeSortIndexObserver x p) = suppressObservers p"
  by (simp_all add: addSortIndexObserver_def removeSortIndexObserver_def)

text \<open>What a step leaves alone, apart from the two arrays and the bookkeeping of observers.\<close>

definition frame :: "proxy \<Rightarrow> proxy \<Rightarrow> bool" where
  "frame p q \<longleftrightarrow> sortKeyOf q = sortKeyOf p \<and> sourceObserved q = sourceObserved p \<and>
     contentObserved q = contentObserved p \<and> suppressObservers q = suppressObservers p"

lemma frame_refl [simp]: "frame p p"
  by (simp add: frame_def)

lemma frame_trans: "frame p q \<Longrightarrow> frame q r \<Longrightarrow> frame p r"
  by (simp add: frame_def)

lemma frame_updates [simp]:
  "frame p (addSortIndexObserver x q) = frame p q"
  "frame p (removeSortIndexObserver x q) = frame p q"
  "frame p (q\<lparr>p_content := xs\<rparr>) = frame p q"
  "frame p (q\<lparr>p_source := src\<rparr>) = frame p q"
  by (simp_all add: frame_def)

lemma fold_observer_frame [simp]:
  "frame p (fold addSortIndexObserver xs q) = frame p q"
  "p_source (fold addSortIndexObserver xs q) = p_source q"
  "p_content (fold addSortIndexObserver xs q) = p_content q"
  "frame p (fold removeSortIndexObserver xs q) = frame p q"
  "p_source (fold removeSortIndexObserver xs q) = p_source q"
  "p_content (fold removeSortIndexObserver xs q) = p_content q"
  by (induction xs arbitrary: q) simp_all


lemma fold_removeObserver_frame:
  "frame p (fold removeSortIndexObserver xs p)"
  by simp

section \<open>Changes of the source\<close>

lemma remove_items_quiet:
  assumes "suppressObservers p" and "\<forall>i \<in> set is. i < length src"
  shows "\<exists>q. rfold (\<lambda>i q1. case objectAt src i of
                None \<Rightarrow> Inl TypeError
              | Some x \<Rightarrow> rbind (remove_each (\<lambda>i. contentReplace (Suc n) i 1 []) (p_content q1) x q1)
                            (\<lambda>q2. Inr (removeSortIndexObserver x q2))) is p = Inr q \<and> frame p q \<and>
           p_source q = p_source p \<and>
           p_content q = filter (\<lambda>x. x \<notin> (!) src ` set is) (p_content p)"
  using assms
proof (induction "is" arbitrary: p)
  case Nil
  then show ?case by simp
next
  case (Cons i "is")
  let ?p = "removeSortIndexObserver (src ! i) (p\<lparr>p_content := removeObject (src ! i) (p_content p)\<rparr>)"
  have "suppressObservers ?p" using Cons.prems(1) by simp
  from Cons.IH [OF this] Cons.prems(2) obtain q where
    q: "rfold (\<lambda>i q1. case objectAt src i of
                None \<Rightarrow> Inl TypeError
              | Some x \<Rightarrow> rbind (remove_each (\<lambda>i. contentReplace (Suc n) i 1 []) (p_content q1) x q1)
                            (\<lambda>q2. Inr (removeSortIndexObserver x q2))) is ?p = Inr q"
      "frame ?p q" "p_source q = p_source ?p" "p_content q = filter (\<lambda>x. x \<notin> (!) src ` set is) (p_content ?p)"
    by auto
  have "frame p ?p" by simp
  then have "frame p q" using q(2) by (rule frame_trans)
  moreover have "p_content q = filter (\<lambda>x. x \<notin> (!) src ` set (i # is)) (p_content p)"
    unfolding q(4) by (auto simp: removeObject_def intro: filter_cong)
  ultimately show ?case
    using q(1,3) Cons.prems content.remove_each_quiet [of p n "src ! i"] by auto
qed

lemma filter_none: "(\<And>x. x \<in> set xs \<Longrightarrow> \<not> P x) \<Longrightarrow> filter P xs = []"
  by (simp add: filter_empty_conv)

lemma map_nth_upt: "start + m \<le> length src \<Longrightarrow> map ((!) src) [start..<start + m] = take m (drop start src)"
  by (rule nth_equalityI) simp_all

lemma image_nth_upt: "start + m \<le> length src \<Longrightarrow> (!) src ` set [start..<start + m] = set (take m (drop start src))"
  by (simp add: map_nth_upt del: set_upt flip: set_map)

lemma source_will_change:
  assumes "\<not> suppressObservers p" and "same_items p" and "p_source p = Some src" and "start + m \<le> length src"
  shows "\<exists>q. sourceArrayWillChange (contentReplace (Suc n)) src start m p = Inr q \<and> frame p q \<and>
     p_source q = Some src \<and> p_content q = filter (\<lambda>x. x \<notin> set (take m (drop start src))) (p_content p)"
proof -
  let ?p = "p\<lparr>suppressObservers := True\<rparr>"
  have len: "length (p_content p) = length src"
    using assms(2,3) by (metis distinct_card option.inject same_items_def)
  have "\<exists>q. (if start = 0 \<and> m = length (p_content ?p)
       then rbind (contentReplace (Suc n) 0 m [] ?p) (\<lambda>q1.
              Inr (fold removeSortIndexObserver (p_content q1) q1))
       else rfold (\<lambda>i q1. case objectAt src i of
                None \<Rightarrow> Inl TypeError
              | Some x \<Rightarrow> rbind (remove_each (\<lambda>i. contentReplace (Suc n) i 1 []) (p_content q1) x q1)
                            (\<lambda>q2. Inr (removeSortIndexObserver x q2)))
              [start..<start + m] ?p) = Inr q \<and> frame ?p q \<and>
     p_source q = Some src \<and> p_content q = filter (\<lambda>x. x \<notin> set (take m (drop start src))) (p_content p)"
  proof (cases "start = 0 \<and> m = length (p_content p)")
    case True
    then show ?thesis
      using assms(2,3) len by (auto simp: replace_at_def same_items_def intro!: filter_none [symmetric])
  next
    case False
    have "\<forall>i \<in> set [start..<start + m]. i < length src" using assms(4) by auto
    from remove_items_quiet [OF _ this, of ?p n] False show ?thesis
      using assms(3,4) by (auto simp: image_nth_upt simp del: set_upt)
  qed
  then obtain q where q: "(if start = 0 \<and> m = length (p_content ?p)
       then rbind (contentReplace (Suc n) 0 m [] ?p) (\<lambda>q1.
              Inr (fold removeSortIndexObserver (p_content q1) q1))
       else rfold (\<lambda>i q1. case objectAt src i of
                None \<Rightarrow> Inl TypeError
              | Some x \<Rightarrow> rbind (remove_each (\<lambda>i. contentReplace (Suc n) i 1 []) (p_content q1) x q1)
                            (\<lambda>q2. Inr (removeSortIndexObserver x q2)))
              [start..<start + m] ?p) = Inr q" "frame ?p q"
     "p_source q = Some src" "p_content q = filter (\<lambda>x. x \<notin> set (take m (drop start src))) (p_content p)"
    by blast
  have "sourceArrayWillChange (contentReplace (Suc n)) src start m p = Inr (q\<lparr>suppressObservers := False\<rparr>)"
    unfolding sourceArrayWillChange_def withObserversSuppressed_def using assms(1) q(1) by (simp del: contentReplace_quiet)
  then show ?thesis using q(2-4) assms(1) by (intro exI [of _ "q\<lparr>suppressObservers := False\<rparr>"]) (simp add: frame_def)
qed

lemma add_observers:
  "\<forall>i \<in> set is. i < length src \<Longrightarrow>
   rfold (\<lambda>i q. case objectAt src i of None \<Rightarrow> Inl TypeError | Some x \<Rightarrow> Inr (addSortIndexObserver x q)) is p
     = Inr (fold addSortIndexObserver (map ((!) src) is) p)"
  by (induction "is" arbitrary: p) simp_all

lemma sortAndReplaceContent_sorts:
  assumes "\<not> suppressObservers p"
  shows "\<exists>q. sortAndReplaceContent (contentReplace (Suc n)) xs p = Inr q \<and> frame p q \<and>
     p_source q = p_source p \<and> p_content q = sort_items p xs"
  using assms
  by (simp add: sortAndReplaceContent_def withObserversSuppressed_def Let_def replace_at_def frame_def)

lemma source_did_change:
  assumes "\<not> suppressObservers p" and "start + m \<le> length src"
  shows "\<exists>q. sourceArrayDidChange (contentReplace (Suc n)) src start m p = Inr q \<and> frame p q \<and>
     p_source q = p_source p \<and>
     p_content q = (if 0 < m then sort_items p (p_content p @ take m (drop start src)) else p_content p)"
proof -
  let ?p = "fold addSortIndexObserver (map ((!) src) [start..<start + m]) p"
  have idx: "\<forall>i \<in> set [start..<start + m]. i < length src" using assms(2) by auto
  have f: "frame p ?p" "p_source ?p = p_source p" "p_content ?p = p_content p" by simp_all
  then have "\<not> suppressObservers ?p" "sortKeyOf ?p = sortKeyOf p" using assms(1) by (simp_all add: frame_def)
  from sortAndReplaceContent_sorts [OF this(1), of n "p_content p @ take m (drop start src)"] this(2) f
  show ?thesis
    unfolding sourceArrayDidChange_def add_observers [OF idx]
    by (auto simp: sort_items_def frame_def)
qed


lemma split_replaced:
  "start + m \<le> length src \<Longrightarrow> src = take start src @ take m (drop start src) @ drop (start + m) src"
  by (metis add.commute append_take_drop_id drop_drop)

lemma set_replace_at:
  assumes "distinct src" and "start + m \<le> length src"
  shows "set (replace_at start m adds src) = (set src - set (take m (drop start src))) \<union> set adds"
proof -
  have "distinct (take start src @ take m (drop start src) @ drop (start + m) src)"
    using assms split_replaced by metis
  then have "set (take start src) \<inter> set (take m (drop start src)) = {}"
    "set (drop (start + m) src) \<inter> set (take m (drop start src)) = {}" by auto
  moreover have "set src = set (take start src) \<union> set (take m (drop start src)) \<union> set (drop (start + m) src)"
    using arg_cong [OF split_replaced [OF assms(2)], of set] by auto
  ultimately show ?thesis by (auto simp: replace_at_def)
qed

lemma removed_is_filter:
  assumes "distinct src" and "start + m \<le> length src"
  shows "take start src @ drop (start + m) src = filter (\<lambda>x. x \<notin> set (take m (drop start src))) src"
proof -
  let ?P = "\<lambda>x. x \<notin> set (take m (drop start src))"
  have d: "distinct (take start src @ take m (drop start src) @ drop (start + m) src)"
    using assms split_replaced by metis
  have "filter ?P (take start src) = take start src" "filter ?P (take m (drop start src)) = []"
      "filter ?P (drop (start + m) src) = drop (start + m) src"
    using d by (auto intro!: filter_True filter_False)
  then have "filter ?P (take start src @ take m (drop start src) @ drop (start + m) src)
      = take start src @ drop (start + m) src" by simp
  then show ?thesis using split_replaced [OF assms(2)] by simp
qed

lemma added_at: "start \<le> length src \<Longrightarrow> take (length adds) (drop start (replace_at start m adds src)) = adds"
  by (simp add: replace_at_def)

lemma added_fresh:
  assumes "distinct (replace_at start m adds src)" and "distinct src" and "start + m \<le> length src"
  shows "distinct adds" "set adds \<inter> (set src - set (take m (drop start src))) = {}"
proof -
  have d: "distinct (take start src @ take m (drop start src) @ drop (start + m) src)"
    using assms(2,3) split_replaced by metis
  have "set src - set (take m (drop start src)) \<subseteq> set (take start src) \<union> set (drop (start + m) src)"
    using arg_cong [OF split_replaced [OF assms(3)], of set] by auto
  with assms(1) show "distinct adds" "set adds \<inter> (set src - set (take m (drop start src))) = {}"
    by (auto simp: replace_at_def)
qed

lemma source_replace_syncs:
  assumes "in_sync p" and "p_source p = Some src" and "start + m \<le> length src"
    and "distinct (replace_at start m adds src)"
  shows "\<exists>q. sourceReplace (Suc (Suc n)) start m adds p = Inr q \<and> in_sync q \<and>
     p_source q = Some (replace_at start m adds src) \<and> sortKeyOf q = sortKeyOf p"
proof -
  let ?src = "replace_at start m adds src" and ?kept = "filter (\<lambda>x. x \<notin> set (take m (drop start src))) (p_content p)"
  have ok: "\<not> suppressObservers p" "same_items p" "sourceObserved p" "contentObserved p" "key_sorted p"
    using assms(1) by (simp_all add: in_sync_def)
  have items: "distinct src" "distinct (p_content p)" "set (p_content p) = set src"
    using ok(2) assms(2) by (auto simp: same_items_def)
  obtain q where q: "sourceArrayWillChange (contentReplace (Suc n)) src start m p = Inr q" "frame p q"
      "p_source q = Some src" "p_content q = ?kept"
    using source_will_change [OF ok(1,2) assms(2,3)] by blast
  let ?q = "q\<lparr>p_source := Some ?src\<rparr>"
  have "start + length adds \<le> length ?src" using assms(3) by (simp add: replace_at_def)
  moreover have "\<not> suppressObservers ?q" using q(2) ok(1) by (simp add: frame_def)
  ultimately obtain r where r: "sourceArrayDidChange (contentReplace (Suc n)) ?src start (length adds) ?q = Inr r"
      "frame ?q r" "p_source r = Some ?src"
      "p_content r = (if 0 < length adds then sort_items ?q (?kept @ take (length adds) (drop start ?src)) else ?kept)"
    using source_did_change [of ?q start "length adds" ?src n] q(4) by auto
  have pr: "frame p r" using q(2) r(2) by (auto simp: frame_def)
  have step: "sourceReplace (Suc (Suc n)) start m adds p = Inr r"
    using assms(2) q r(1) pr ok(3) by (simp add: replace_Suc(2) source_step_def frame_def Let_def)
  have added: "take (length adds) (drop start ?src) = adds" using assms(3) by (simp add: added_at)
  have keys: "sortKeyOf ?q = sortKeyOf p" "sortKeyOf r = sortKeyOf p" using q(2) pr by (simp_all add: frame_def)
  have content: "set (p_content r) = set ?kept \<union> set adds" "distinct (p_content r) = distinct (?kept @ adds)"
    using r(4) added by (simp_all add: sort_items_def)
  have "set (p_content r) = set ?src"
    unfolding content(1) set_replace_at [OF items(1) assms(3)] using items(3) by auto
  moreover have "distinct (p_content r)"
    unfolding content(2) using added_fresh [OF assms(4) items(1) assms(3)] items(2,3) by auto
  moreover have "sorted (map (sortKeyOf r) (p_content r))"
    using r(4) ok(5) keys sorted_filter [of "sortKeyOf p" "p_content p"] by (simp add: sort_items_def key_sorted_def)
  ultimately have "in_sync r"
    using pr ok r(3) assms(4) by (simp add: in_sync_def frame_def same_items_def key_sorted_def)
  then show ?thesis using step r(3) keys(2) by blast
qed

section \<open>Changes of the content\<close>

lemma length_fill_keys [simp]: "length (fill_keys k ks) = length ks"
  by (induction k ks rule: fill_keys.induct) simp_all

lemma fill_keys_defined: "fill_keys k (map Some ks) = ks"
  by (induction ks arbitrary: k) simp_all

lemma assign_keys_lookup:
  assumes "distinct xs" and "length ks = length xs"
  shows "map (assign_keys xs ks m) xs = map Some ks"
proof -
  have keep: "y \<notin> set xs \<Longrightarrow> assign_keys xs ks m y = m y" for xs ks m y
    unfolding assign_keys_def
    by (induction xs ks arbitrary: m rule: list_induct2') auto
  show ?thesis using assms
  proof (induction xs arbitrary: ks m)
    case Nil
    then show ?case by simp
  next
    case (Cons x xs)
    then obtain k ks' where "ks = k # ks'" by (cases ks) auto
    with Cons keep [of x xs ks' "m(x := Some k)"] show ?case by (simp add: assign_keys_def)
  qed
qed

lemma reAssignSortKeys_sorts:
  assumes "distinct (p_content p)"
  shows "key_sorted (reAssignSortKeys p)"
    "map (sortKeyOf (reAssignSortKeys p)) (p_content p) = map Some (sort (fill_keys 0 (map (sortKeyOf p) (p_content p))))"
proof -
  show keys: "map (sortKeyOf (reAssignSortKeys p)) (p_content p)
      = map Some (sort (fill_keys 0 (map (sortKeyOf p) (p_content p))))"
    using assms by (simp add: reAssignSortKeys_def assign_keys_lookup)
  have "sorted (map Some (sort ks))" for ks :: "int list"
    by (simp add: sorted_map sorted_wrt_map)
  then show "key_sorted (reAssignSortKeys p)"
    using keys by (simp add: key_sorted_def reAssignSortKeys_def)
qed

lemma reAssignSortKeys_frame [simp]:
  "p_source (reAssignSortKeys p) = p_source p"
  "p_content (reAssignSortKeys p) = p_content p"
  "sourceObserved (reAssignSortKeys p) = sourceObserved p"
  "contentObserved (reAssignSortKeys p) = contentObserved p"
  "suppressObservers (reAssignSortKeys p) = suppressObservers p"
  by (simp_all add: reAssignSortKeys_def)

lemma remove_from_source_quiet:
  assumes "suppressObservers p" and "p_source p = Some src" and "\<forall>i \<in> set is. i < length (p_content p)"
  shows "\<exists>q. rfold (\<lambda>i q. case (objectAt (p_content q) i, p_source q) of
         (Some x, Some src) \<Rightarrow> rbind (remove_each (\<lambda>i. sourceReplace (Suc n) i 1 []) src x q)
                                 (\<lambda>q1. Inr (removeSortIndexObserver x q1))
       | _ \<Rightarrow> Inl TypeError) is p = Inr q \<and> frame p q \<and> p_content q = p_content p \<and>
     p_source q = Some (filter (\<lambda>x. x \<notin> (!) (p_content p) ` set is) src)"
  using assms
proof (induction "is" arbitrary: p src)
  case Nil
  then show ?case by simp
next
  case (Cons i "is")
  let ?x = "p_content p ! i"
  let ?p = "removeSortIndexObserver ?x (p\<lparr>p_source := Some (removeObject ?x src)\<rparr>)"
  have "suppressObservers ?p" "p_source ?p = Some (removeObject ?x src)" "p_content ?p = p_content p"
    using Cons.prems(1) by simp_all
  with Cons.IH [of ?p "removeObject ?x src"] Cons.prems(3) obtain q where
    q: "rfold (\<lambda>i q. case (objectAt (p_content q) i, p_source q) of
         (Some x, Some src) \<Rightarrow> rbind (remove_each (\<lambda>i. sourceReplace (Suc n) i 1 []) src x q)
                                 (\<lambda>q1. Inr (removeSortIndexObserver x q1))
       | _ \<Rightarrow> Inl TypeError) is ?p = Inr q" "frame ?p q" "p_content q = p_content p"
      "p_source q = Some (filter (\<lambda>x. x \<notin> (!) (p_content p) ` set is) (removeObject ?x src))"
    by auto
  have "frame p ?p" by simp
  then have "frame p q" using q(2) by (rule frame_trans)
  moreover have "p_source q = Some (filter (\<lambda>x. x \<notin> (!) (p_content p) ` set (i # is)) src)"
    unfolding q(4) by (auto simp: removeObject_def intro: filter_cong)
  ultimately show ?case
    using q(1,3) Cons.prems source.remove_each_quiet [of p n ?x] by (auto simp: source_items_def)
qed

lemma content_will_change:
  assumes "\<not> suppressObservers p" and "p_source p = Some src" and "start + m \<le> length (p_content p)"
  shows "\<exists>q. contentArrayWillChange (sourceReplace (Suc n)) start m p = Inr q \<and> frame p q \<and>
     p_content q = p_content p \<and>
     p_source q = Some (filter (\<lambda>x. x \<notin> set (take m (drop start (p_content p)))) src)"
proof -
  let ?p = "p\<lparr>suppressObservers := True\<rparr>"
  have "\<forall>i \<in> set [start..<start + m]. i < length (p_content ?p)" using assms(3) by auto
  with assms(2) obtain q where q: "rfold (\<lambda>i q. case (objectAt (p_content q) i, p_source q) of
         (Some x, Some src) \<Rightarrow> rbind (remove_each (\<lambda>i. sourceReplace (Suc n) i 1 []) src x q)
                                 (\<lambda>q1. Inr (removeSortIndexObserver x q1))
       | _ \<Rightarrow> Inl TypeError) [start..<start + m] ?p = Inr q" "frame ?p q" "p_content q = p_content p"
      "p_source q = Some (filter (\<lambda>x. x \<notin> set (take m (drop start (p_content p)))) src)"
    using remove_from_source_quiet [of ?p src "[start..<start + m]" n] image_nth_upt [OF assms(3)] by auto
  have "contentArrayWillChange (sourceReplace (Suc n)) start m p = Inr (q\<lparr>suppressObservers := False\<rparr>)"
    unfolding contentArrayWillChange_def withObserversSuppressed_def using assms(1) q(1) by simp
  then show ?thesis
    using q(2-4) assms(1) by (intro exI [of _ "q\<lparr>suppressObservers := False\<rparr>"]) (simp add: frame_def)
qed

lemma source_push_quiet:
  assumes "suppressObservers p" and "p_source p = Some src"
  shows "\<exists>q. sourceReplace (Suc n) (length src) 0 [x] p = Inr q \<and> frame p q \<and>
     p_content q = p_content p \<and> p_source q = Some (src @ [x])"
  using assms
  by (auto simp: replace_Suc source_step_def sourceArrayWillChange_def sourceArrayDidChange_def
      withObserversSuppressed_def sortAndReplaceContent_def Let_def replace_at_def frame_def)

lemma push_items_quiet:
  assumes "suppressObservers p" and "p_source p = Some src" and "\<forall>i \<in> set is. i < length (p_content p)"
  shows "\<exists>q. rfold (\<lambda>i q1. case (objectAt (p_content q1) i, p_source q1) of
               (Some x, Some src) \<Rightarrow> sourceReplace (Suc n) (length src) 0 [x] (addSortIndexObserver x q1)
             | _ \<Rightarrow> Inl TypeError) is p = Inr q \<and> frame p q \<and> p_content q = p_content p \<and>
     p_source q = Some (src @ map ((!) (p_content p)) is)"
  using assms
proof (induction "is" arbitrary: p src)
  case Nil
  then show ?case by simp
next
  case (Cons i "is")
  let ?x = "p_content p ! i"
  obtain r where r: "sourceReplace (Suc n) (length src) 0 [?x] (addSortIndexObserver ?x p) = Inr r"
      "frame (addSortIndexObserver ?x p) r" "p_content r = p_content p" "p_source r = Some (src @ [?x])"
    using source_push_quiet [of "addSortIndexObserver ?x p" src n ?x] Cons.prems by auto
  then have "suppressObservers r" using Cons.prems(1) by (simp add: frame_def)
  with Cons.IH [of r "src @ [?x]"] Cons.prems(3) r obtain q where
    q: "rfold (\<lambda>i q1. case (objectAt (p_content q1) i, p_source q1) of
               (Some x, Some src) \<Rightarrow> sourceReplace (Suc n) (length src) 0 [x] (addSortIndexObserver x q1)
             | _ \<Rightarrow> Inl TypeError) is r = Inr q" "frame r q" "p_content q = p_content p"
      "p_source q = Some (src @ map ((!) (p_content p)) (i # is))"
    by auto
  moreover have "frame p q" using r(2) q(2) by (auto simp: frame_def)
  ultimately show ?case using r(1) Cons.prems by auto
qed

lemma content_did_change:
  assumes "\<not> suppressObservers p" and "p_source p = Some src" and "start + m \<le> length (p_content p)" and "0 < m"
  shows "\<exists>q. contentArrayDidChange (sourceReplace (Suc n)) start m p = Inr q \<and>
     frame (reAssignSortKeys p) q \<and> p_content q = p_content p \<and>
     p_source q = Some (src @ take m (drop start (p_content p)))"
proof -
  let ?p = "reAssignSortKeys (p\<lparr>suppressObservers := True\<rparr>)"
  have "suppressObservers ?p" "p_source ?p = Some src" "\<forall>i \<in> set [start..<start + m]. i < length (p_content ?p)"
    using assms(2,3) by auto
  from push_items_quiet [OF this, of n] obtain q where
    q: "rfold (\<lambda>i q1. case (objectAt (p_content q1) i, p_source q1) of
               (Some x, Some src) \<Rightarrow> sourceReplace (Suc n) (length src) 0 [x] (addSortIndexObserver x q1)
             | _ \<Rightarrow> Inl TypeError) [start..<start + m] ?p = Inr q" "frame ?p q" "p_content q = p_content p"
      "p_source q = Some (src @ take m (drop start (p_content p)))"
    using map_nth_upt [OF assms(3)] by auto
  have "contentArrayDidChange (sourceReplace (Suc n)) start m p = Inr (q\<lparr>suppressObservers := False\<rparr>)"
    unfolding contentArrayDidChange_def withObserversSuppressed_def using assms(1,4) q(1) by simp
  moreover have "sortKeyOf ?p = sortKeyOf (reAssignSortKeys p)" by (simp add: reAssignSortKeys_def)
  ultimately show ?thesis
    using q(2-4) assms(1) by (intro exI [of _ "q\<lparr>suppressObservers := False\<rparr>"]) (simp add: frame_def)
qed

lemma content_replace_syncs:
  assumes "in_sync p" and "p_source p = Some src" and "start + m \<le> length (p_content p)"
    and "distinct (replace_at start m adds (p_content p))"
  shows "\<exists>q. contentReplace (Suc (Suc n)) start m adds p = Inr q \<and> in_sync q \<and>
     p_content q = replace_at start m adds (p_content p) \<and>
     p_source q = Some (filter (\<lambda>x. x \<notin> set (take m (drop start (p_content p)))) src @ adds)"
proof -
  let ?new = "replace_at start m adds (p_content p)" and ?gone = "set (take m (drop start (p_content p)))"
  have ok: "\<not> suppressObservers p" "same_items p" "sourceObserved p" "contentObserved p" "key_sorted p"
    using assms(1) by (simp_all add: in_sync_def)
  have items: "distinct src" "distinct (p_content p)" "set (p_content p) = set src"
    using ok(2) assms(2) by (auto simp: same_items_def)
  obtain q where q: "contentArrayWillChange (sourceReplace (Suc n)) start m p = Inr q" "frame p q"
      "p_content q = p_content p" "p_source q = Some (filter (\<lambda>x. x \<notin> ?gone) src)"
    using content_will_change [OF ok(1) assms(2,3)] by blast
  let ?q = "q\<lparr>p_content := ?new\<rparr>" and ?src = "filter (\<lambda>x. x \<notin> ?gone) src @ adds"
  have fresh: "distinct adds" "set adds \<inter> (set (p_content p) - ?gone) = {}"
    using added_fresh [OF assms(4) items(2) assms(3)] by auto
  then have src: "distinct ?src" "set ?new = set ?src"
    using items by (auto simp: set_replace_at [OF items(2) assms(3)])
  have step: "contentReplace (Suc (Suc n)) start m adds p =
      contentArrayDidChange (sourceReplace (Suc n)) start (length adds) ?q"
    using q ok(4) by (simp add: replace_Suc(1) content_step_def frame_def Let_def)
  show ?thesis
  proof (cases "adds = []")
    case True
    have "sorted (map (sortKeyOf p) (filter (\<lambda>x. x \<notin> ?gone) (p_content p)))"
      using ok(5) by (simp add: key_sorted_def sorted_filter)
    moreover have "?new = filter (\<lambda>x. x \<notin> ?gone) (p_content p)"
      using True items(2) removed_is_filter [OF items(2) assms(3)] by (simp add: replace_at_def)
    ultimately have "in_sync ?q"
      using q src ok True assms(4) by (auto simp: in_sync_def same_items_def key_sorted_def frame_def)
    then show ?thesis using True step q(4) by (simp add: contentArrayDidChange_def)
  next
    case False
    have "start + length adds \<le> length (p_content ?q)" using assms(3) by (simp add: replace_at_def)
    moreover have "\<not> suppressObservers ?q" using q(2) ok(1) by (simp add: frame_def)
    ultimately obtain r where r: "contentArrayDidChange (sourceReplace (Suc n)) start (length adds) ?q = Inr r"
        "frame (reAssignSortKeys ?q) r" "p_content r = ?new" "p_source r = Some ?src"
      using content_did_change [of ?q "filter (\<lambda>x. x \<notin> ?gone) src" start "length adds" n] q(4) False assms(3)
      by (auto simp: added_at)
    have "key_sorted (reAssignSortKeys ?q)" using assms(4) by (intro reAssignSortKeys_sorts(1)) simp
    then have "in_sync r"
      using r q(2) src ok assms(4) by (simp add: in_sync_def same_items_def key_sorted_def frame_def)
    then show ?thesis using step r by simp
  qed
qed

section \<open>Moving an item\<close>

lemma some_keys: "\<forall>x \<in> set xs. f x \<noteq> None \<Longrightarrow> map f xs = map Some (map (the \<circ> f) xs)"
  by (induction xs) auto

lemma move_mset:
  assumes "i < length xs"
  shows "mset (replace_at j 0 [xs ! i] (replace_at i 1 [] xs)) = mset xs"
proof -
  let ?ys = "take i xs @ drop (Suc i) xs"
  have "mset (take j ?ys @ xs ! i # drop j ?ys) = add_mset (xs ! i) (mset (take j ?ys @ drop j ?ys))" by simp
  also have "\<dots> = mset (take i xs @ xs ! i # drop (Suc i) xs)" unfolding append_take_drop_id by simp
  also have "\<dots> = mset xs" using id_take_nth_drop [OF assms] by simp
  finally show ?thesis by (simp add: replace_at_def)
qed

lemma sorted_map_Some: "sorted (map Some ks) \<longleftrightarrow> sorted ks"
  by (induction ks) auto

lemma reassign_after_permutation:
  assumes "key_sorted p" and "\<forall>x \<in> set (p_content p). sortKeyOf p x \<noteq> None"
    and "mset ys = mset (p_content p)" and "distinct (p_content p)"
  shows "map (sortKeyOf (reAssignSortKeys (p\<lparr>p_content := ys\<rparr>))) ys = map (sortKeyOf p) (p_content p)"
proof -
  let ?f = "the \<circ> sortKeyOf p"
  have "set ys = set (p_content p)" using assms(3) by (rule mset_eq_setD)
  then have ys: "map (sortKeyOf p) ys = map Some (map ?f ys)" using assms(2) by (intro some_keys) simp
  have content: "map (sortKeyOf p) (p_content p) = map Some (map ?f (p_content p))"
    using assms(2) by (rule some_keys)
  then have "sorted (map ?f (p_content p))"
    using assms(1) unfolding key_sorted_def by (simp only: sorted_map_Some)
  moreover have "mset (map ?f (p_content p)) = mset (map ?f ys)" using assms(3) by simp
  ultimately have "sort (map ?f ys) = map ?f (p_content p)" by (metis properties_for_sort)
  moreover have "distinct ys" using assms(3,4) by (metis mset_eq_imp_distinct_iff)
  ultimately show ?thesis
    using reAssignSortKeys_sorts(2) [of "p\<lparr>p_content := ys\<rparr>"] fill_keys_defined [of 0 "map ?f ys"] ys content
    by (simp del: map_map)
qed

section \<open>Properties\<close>

text \<open>
  Creating a proxy gives a content with the items of the source in the order of the sort keys,
  with one sort key observer on every item, and neither the source nor the keys change.
\<close>

theorem proxy_init_sorted:
  assumes "distinct src"
  shows "\<exists>p. init_proxy keys (Some src) = Inr p \<and> in_sync p \<and> p_source p = Some src \<and> sortKeyOf p = keys \<and>
     p_content p = sort_key keys src \<and> (\<forall>x. registered p x = (if x \<in> set src then 1 else 0))"
proof -
  have fold_count: "registered (fold addSortIndexObserver xs p) x = registered p x + count_list xs x" for xs p x
    by (induction xs arbitrary: p) (auto simp: addSortIndexObserver_def)
  have fold_keys: "sortKeyOf (fold addSortIndexObserver xs p) = sortKeyOf p \<and>
      suppressObservers (fold addSortIndexObserver xs p) = suppressObservers p" for xs p
    by (induction xs arbitrary: p) simp_all
  have "count_list (sort_key keys src) x = (if x \<in> set src then 1 else 0)" for x
    using assms by (metis count_mset count_mset_0_iff distinct_count_atmost_1 mset_sort set_mset_mset)
  with assms show ?thesis
    by (simp add: init_proxy_def sourceDidChange_def call_depth_def numeral_2_eq_2 replace_Suc content_step_def Let_def
        replace_at_def fold_count fold_keys in_sync_def same_items_def key_sorted_def sort_items_def)
qed

definition sample_proxy :: proxy where
  "sample_proxy = \<lparr>sortKeyOf = (\<lambda>x. if x = 1 then Some 1 else if x = 2 then Some 3 else Some 5),
     lastPosition = (\<lambda>x. if x = 1 then Some 1 else if x = 2 then Some 3 else Some 5), registered = (\<lambda>_. 1),
     storedObserver = (\<lambda>_. True), p_source = Some [3, 1, 2], p_content = [1, 2, 3], sourceObserved = True,
     contentObserved = True, suppressObservers = False\<rparr>"

lemma sample_in_sync: "in_sync sample_proxy"
  by (auto simp: in_sync_def sample_proxy_def same_items_def key_sorted_def)

theorem proxy_init_sorted_witness:
  "\<exists>p. init_proxy (sortKeyOf sample_proxy) (Some [3, 1, 2]) = Inr p \<and> in_sync p \<and> registered p 3 = 1"
  using proxy_init_sorted [of "[3, 1, 2]" "sortKeyOf sample_proxy"] by auto

text \<open>
  C5: any replacement in the source that keeps its items distinct is mirrored: it returns, the
  source is the replaced array, the content holds the same items sorted by the unchanged keys.
\<close>

theorem proxy_follows_source:
  assumes "in_sync p" and "p_source p = Some src" and "start + removeCount \<le> length src"
    and "distinct (replace_at start removeCount added src)"
  shows "\<exists>q. sourceReplace call_depth start removeCount added p = Inr q \<and> in_sync q \<and>
     p_source q = Some (replace_at start removeCount added src) \<and> sortKeyOf q = sortKeyOf p"
  unfolding call_depth_def numeral_2_eq_2 using assms by (rule source_replace_syncs)

theorem proxy_follows_source_witness:
  "\<exists>q. sourceReplace call_depth 1 1 [7, 8] sample_proxy = Inr q \<and> in_sync q \<and> p_source q = Some [3, 7, 8, 2]"
  using proxy_follows_source [OF sample_in_sync, of "[3, 1, 2]" 1 1 "[7, 8]"]
  by (auto simp: sample_proxy_def replace_at_def)

text \<open>
  C17: any replacement through the proxy that keeps its items distinct is carried to the source:
  removed items leave it, inserted items are appended to it, and the keys are reassigned so that
  the content stays sorted.
\<close>

theorem source_follows_proxy:
  assumes "in_sync p" and "p_source p = Some src" and "start + removeCount \<le> length (p_content p)"
    and "distinct (replace_at start removeCount added (p_content p))"
  shows "\<exists>q. contentReplace call_depth start removeCount added p = Inr q \<and> in_sync q \<and>
     p_content q = replace_at start removeCount added (p_content p) \<and>
     p_source q = Some (filter (\<lambda>x. x \<notin> set (take removeCount (drop start (p_content p)))) src @ added)"
  unfolding call_depth_def numeral_2_eq_2 using assms by (rule content_replace_syncs)

theorem source_follows_proxy_witness:
  "\<exists>q. contentReplace call_depth 0 1 [9] sample_proxy = Inr q \<and> in_sync q \<and>
     p_content q = [9, 2, 3] \<and> p_source q = Some [3, 2, 9]"
  using source_follows_proxy [OF sample_in_sync, of "[3, 1, 2]" 0 1 "[9]"]
  by (auto simp: sample_proxy_def replace_at_def)

text \<open>
  The move protocol (\<open>startMoving\<close>, \<open>removeAt\<close>, \<open>insertAt\<close>, \<open>endMoving\<close>) never touches the
  source and permutes the sort keys among the items, so that every position of the content keeps
  the key it had.
\<close>

theorem proxy_move_keeps_position_keys:
  assumes "in_sync p" and "\<forall>x \<in> set (p_content p). sortKeyOf p x \<noteq> None" and "i < length (p_content p)"
  shows "\<exists>q. rbind (proxy_removeAt i (startMoving p)) (\<lambda>p1.
       rbind (proxy_insertAt j (p_content p ! i) p1) endMoving) = Inr q \<and>
     in_sync q \<and> p_source q = p_source p \<and>
     p_content q = replace_at j 0 [p_content p ! i] (replace_at i 1 [] (p_content p)) \<and>
     map (sortKeyOf q) (p_content q) = map (sortKeyOf p) (p_content p)"
proof -
  let ?ys = "replace_at j 0 [p_content p ! i] (replace_at i 1 [] (p_content p))"
  let ?q = "reAssignSortKeys (p\<lparr>p_content := ?ys\<rparr>)"
  have ok: "distinct (p_content p)" "key_sorted p" "\<not> suppressObservers p"
    using assms(1) by (auto simp: in_sync_def same_items_def)
  have ms: "mset ?ys = mset (p_content p)" using assms(3) by (rule move_mset)
  then have ys: "distinct ?ys" "set ?ys = set (p_content p)"
    using ok(1) by (metis mset_eq_imp_distinct_iff, metis mset_eq_setD)
  have "rbind (proxy_removeAt i (startMoving p)) (\<lambda>p1.
       rbind (proxy_insertAt j (p_content p ! i) p1) endMoving) = Inr ?q"
    using ok(3) by (simp add: proxy_removeAt_def proxy_insertAt_def call_depth_def numeral_2_eq_2 startMoving_def
        endMoving_def withObserversSuppressed_def reAssignSortKeys_def)
  moreover have "in_sync ?q"
    using assms(1) ys reAssignSortKeys_sorts(1) [of "p\<lparr>p_content := ?ys\<rparr>"] by (auto simp: in_sync_def same_items_def)
  moreover have "map (sortKeyOf ?q) ?ys = map (sortKeyOf p) (p_content p)"
    by (rule reassign_after_permutation [OF ok(2) assms(2) ms ok(1)])
  ultimately show ?thesis by (intro exI [of _ ?q] conjI) simp_all
qed

theorem proxy_move_keeps_position_keys_witness:
  "\<exists>q. rbind (proxy_removeAt 0 (startMoving sample_proxy)) (\<lambda>p1. rbind (proxy_insertAt 2 1 p1) endMoving) = Inr q \<and>
     p_content q = [2, 3, 1] \<and> map (sortKeyOf q) [2, 3, 1] = [Some 1, Some 3, Some 5]"
  using proxy_move_keeps_position_keys [OF sample_in_sync, of 0 2] by (auto simp: sample_proxy_def replace_at_def)


text \<open>
  Replacing the source of an existing proxy fills the content while the observers of the
  content are live: every item of the new source is pushed to that source a second time.
\<close>

theorem proxy_new_source_duplicated:
  assumes "in_sync p" and "distinct src" and "set src \<inter> set (p_content p) = {}" and "src \<noteq> []"
  shows "\<exists>q. setSource (Some src) p = Inr q \<and> p_content q = sort_key (sortKeyOf p) src \<and>
     p_source q = Some (src @ sort_key (sortKeyOf p) src)"
proof -
  obtain old where old: "p_source p = Some old" using assms(1) by (auto simp: in_sync_def same_items_def)
  let ?p = "(sourceWillChange p)\<lparr>p_source := Some src\<rparr>" and ?new = "sort_key (sortKeyOf p) src"
  have f: "frame (p\<lparr>sourceObserved := False\<rparr>) ?p" "p_content ?p = p_content p"
    using old fold_removeObserver_frame [of p old] by (simp_all add: sourceWillChange_def frame_def)
  then have p: "\<not> suppressObservers ?p" "contentObserved ?p" "sortKeyOf ?p = sortKeyOf p"
    using assms(1) by (simp_all add: frame_def in_sync_def)
  obtain q where q: "contentArrayWillChange (sourceReplace (Suc 0)) 0 (length (p_content p)) ?p = Inr q"
      "frame ?p q" "p_content q = p_content p" "p_source q = Some src"
    using content_will_change [OF p(1), of src 0 "length (p_content p)" 0] f(2) assms(3)
    by (auto simp: disjoint_iff filter_True)
  let ?q = "q\<lparr>p_content := ?new\<rparr>"
  have "\<not> suppressObservers ?q" using q(2) p(1) by (simp add: frame_def)
  then obtain r where r: "contentArrayDidChange (sourceReplace (Suc 0)) 0 (length ?new) ?q = Inr r"
      "p_content r = ?new" "p_source r = Some (src @ ?new)"
    using content_did_change [of ?q src 0 "length ?new" 0] q(4) assms(4) by auto
  have "contentReplace call_depth 0 (length (p_content ?p)) ?new ?p = Inr r"
    using q r(1) f(2) p(2) by (simp add: call_depth_def numeral_2_eq_2 replace_Suc(1) content_step_def frame_def
        Let_def replace_at_def)
  then show ?thesis using r p(3) by (simp add: setSource_def sourceDidChange_def sort_items_def)
qed

theorem proxy_new_source_duplicated_witness:
  "\<exists>q. setSource (Some [8]) sample_proxy = Inr q \<and> p_content q = [8] \<and> p_source q = Some [8, 8]"
  using proxy_new_source_duplicated [OF sample_in_sync, of "[8]"] by (auto simp: sample_proxy_def)

end
