(* ===== verification/Event_Manager.thy ===== *)
theory Event_Manager
  imports Statechart
begin

text \<open>
  The event manager (\<open>mixins/event_manager.js\<close>) and its client for text inputs
  (\<open>mixins/focus_support.js\<close>): the stack of key responders, the mouse responder that captures the
  pointer between mouse down and mouse up, the dispatch of mouse events along the parent views and
  the translation of key events into named actions.

  A view is an identity with its chain of parent views, so that recursion to the parent is
  structural.  Event handlers and the responder hooks belong to the views: they are parameters,
  functions that may change the whole state of the application.
\<close>

section \<open>Views and the state\<close>

datatype view = View (vid: nat) (parentView: "view option")

fun ancestors :: "view \<Rightarrow> view list" where
  "ancestors (View i None) = [View i None]"
| "ancestors (View i (Some p)) = View i (Some p) # ancestors p"

text \<open>A key responder is a view or some other object that can lose the focus (\<open>blur\<close>).\<close>

datatype responder = ViewR view | InputR nat

record vprops =
  acceptsKeyResponder :: bool
  v_isDisabled :: bool
  isVisible :: bool
  inDOM :: bool
  v_isDestroyed :: bool
  isFocused :: bool

record dom_event =
  e_type :: string
  keyCode :: nat
  shiftKey :: bool

record 'x world =
  key_stack :: "responder list"
  mouse_current :: "view option"
  vprops_of :: "nat \<Rightarrow> vprops"
  blurred :: "responder list"
  focus_timers :: "responder list"
  app :: 'x

datatype signal = WillBecome | DidBecome | WillLose | DidLose

type_synonym 'x hooks = "signal \<Rightarrow> responder \<Rightarrow> 'x world \<Rightarrow> 'x world"
type_synonym 'x handler = "responder option \<Rightarrow> dom_event \<Rightarrow> 'x world \<Rightarrow> retval \<times> 'x world"
type_synonym 'x handlers = "nat \<Rightarrow> string \<Rightarrow> 'x handler option"

section \<open>The stack of key responders\<close>

definition current :: "'x world \<Rightarrow> responder option" where
  "current w = (if key_stack w = [] then None else Some (last (key_stack w)))"

text \<open>\<open>view.set && !view.isDestroyed\<close>: only views have the property.\<close>

fun set_focused :: "bool \<Rightarrow> responder \<Rightarrow> 'x world \<Rightarrow> 'x world" where
  "set_focused b (ViewR v) w =
     (if v_isDestroyed (vprops_of w (vid v)) then w
      else w\<lparr>vprops_of := (vprops_of w)(vid v := vprops_of w (vid v)\<lparr>isFocused := b\<rparr>)\<rparr>)"
| "set_focused b (InputR n) w = w"

definition push :: "'x hooks \<Rightarrow> responder option \<Rightarrow> 'x world \<Rightarrow> 'x world" where
  "push hook r w = (case r of
       None \<Rightarrow> w
     | Some v \<Rightarrow>
        (let w1 = set_focused True v (hook WillBecome v w);
             w2 = w1\<lparr>key_stack := key_stack w1 @ [v]\<rparr>
         in hook DidBecome v w2))"

text \<open>
  \<open>pop\<close> signals the current responder first; the one it then takes off the stack is the top at
  that time.
\<close>

definition pop :: "'x hooks \<Rightarrow> 'x world \<Rightarrow> (responder option \<times> 'x world) result" where
  "pop hook w = (case current w of
       None \<Rightarrow> Inr (None, w)
     | Some cur \<Rightarrow>
        (let w1 = hook WillLose cur w in
         case current w1 of
           None \<Rightarrow> Inl TypeError
         | Some v \<Rightarrow>
            (let w2 = set_focused False v (w1\<lparr>key_stack := butlast (key_stack w1)\<rparr>)
             in Inr (Some v, hook DidLose v w2))))"

definition blur_if_input :: "responder option \<Rightarrow> 'x world \<Rightarrow> 'x world" where
  "blur_if_input r w = (case r of Some (InputR n) \<Rightarrow> w\<lparr>blurred := blurred w @ [InputR n]\<rparr> | _ \<Rightarrow> w)"

definition replace :: "'x hooks \<Rightarrow> responder option \<Rightarrow> 'x world \<Rightarrow> 'x world result" where
  "replace hook r w =
     (if current w \<noteq> r
      then rbind (pop hook (blur_if_input (current w) w)) (\<lambda>(_, w1). Inr (push hook r w1))
      else Inr w)"

fun becomeKeyResponder :: "'x hooks \<Rightarrow> bool \<Rightarrow> view \<Rightarrow> 'x world \<Rightarrow> 'x world result" where
  "becomeKeyResponder hook repl (View i p) w =
     (if acceptsKeyResponder (vprops_of w i) \<and> \<not> v_isDisabled (vprops_of w i)
      then (if repl then replace hook (Some (ViewR (View i p))) w
            else Inr (push hook (Some (ViewR (View i p))) w))
      else (case p of None \<Rightarrow> Inr w | Some q \<Rightarrow> becomeKeyResponder hook repl q w))"

definition resignKeyResponder :: "'x hooks \<Rightarrow> 'x world \<Rightarrow> 'x world result" where
  "resignKeyResponder hook w = rbind (pop hook w) (\<lambda>(_, w1). Inr w1)"

section \<open>Dispatching mouse events\<close>

text \<open>\<open>_dispatch\<close>: the view that handled the event, or \<open>None\<close> for \<open>false\<close>.\<close>

fun dispatch :: "'x handlers \<Rightarrow> string \<Rightarrow> dom_event \<Rightarrow> view \<Rightarrow> 'x world \<Rightarrow> view option \<times> 'x world" where
  "dispatch hs name e (View i p) w =
     (let (r, w1) = (case hs i name of None \<Rightarrow> (RUndefined, w) | Some h \<Rightarrow> h (Some (ViewR (View i p))) e w)
      in case r of
           RAllowDefault \<Rightarrow> (None, w1)
         | RBool True \<Rightarrow> (Some (View i p), w1)
         | _ \<Rightarrow> (case p of None \<Rightarrow> (None, w1) | Some q \<Rightarrow> dispatch hs name e q w1))"

definition mouseDown :: "'x hooks \<Rightarrow> 'x handlers \<Rightarrow> dom_event \<Rightarrow> view \<Rightarrow> 'x world \<Rightarrow> (bool \<times> 'x world) result" where
  "mouseDown hook hs e v w =
     rbind (becomeKeyResponder hook True v w) (\<lambda>w1.
       let (handling, w2) = dispatch hs ''mouseDown'' e v (w1\<lparr>mouse_current := None\<rparr>)
       in Inr (case handling of None \<Rightarrow> (True, w2) | Some u \<Rightarrow> (False, w2\<lparr>mouse_current := Some u\<rparr>)))"

definition not_handled :: "view option \<times> 'x world \<Rightarrow> bool \<times> 'x world" where
  "not_handled r = (fst r = None, snd r)"

definition mouseUp :: "'x handlers \<Rightarrow> dom_event \<Rightarrow> view \<Rightarrow> 'x world \<Rightarrow> bool \<times> 'x world" where
  "mouseUp hs e v w = (case mouse_current w of
       None \<Rightarrow> not_handled (dispatch hs ''mouseUp'' e v w)
     | Some u \<Rightarrow>
        (if \<not> inDOM (vprops_of w (vid u)) then (True, w)
         else not_handled (dispatch hs ''mouseUp'' e u (w\<lparr>mouse_current := None\<rparr>))))"

definition mouseMove :: "'x handlers \<Rightarrow> dom_event \<Rightarrow> view \<Rightarrow> 'x world \<Rightarrow> bool \<times> 'x world" where
  "mouseMove hs e v w = (case mouse_current w of
       None \<Rightarrow> not_handled (dispatch hs ''mouseMove'' e v w)
     | Some u \<Rightarrow>
        (if \<not> inDOM (vprops_of w (vid u)) then (True, w)
         else not_handled (dispatch hs ''mouseMove'' e u w)))"

definition doubleClick :: "'x handlers \<Rightarrow> dom_event \<Rightarrow> view \<Rightarrow> 'x world \<Rightarrow> bool \<times> 'x world" where
  "doubleClick hs e v w =
     not_handled (dispatch hs ''doubleClick'' e (case mouse_current w of None \<Rightarrow> v | Some u \<Rightarrow> u) w)"

text \<open>The handler on the window; \<open>None\<close> is \<open>undefined\<close>, the browser then goes on.\<close>

definition window_mouseup :: "'x handlers \<Rightarrow> dom_event \<Rightarrow> 'x world \<Rightarrow> bool option \<times> 'x world" where
  "window_mouseup hs e w = (case mouse_current w of
       None \<Rightarrow> (None, w)
     | Some u \<Rightarrow>
        (if \<not> inDOM (vprops_of w (vid u)) then (Some True, w)
         else (case not_handled (dispatch hs ''mouseUp'' e u (w\<lparr>mouse_current := None\<rparr>)) of
                 (b, w1) \<Rightarrow> (Some b, w1))))"

section \<open>Key events\<close>

definition KEY_BINDINGS :: "nat \<Rightarrow> string option" where
  "KEY_BINDINGS k = map_of [(8, ''deleteBackward''), (9, ''insertTab''), (13, ''insertNewline''),
     (27, ''cancel''), (32, ''insertSpace''), (37, ''moveLeft''), (38, ''moveUp''), (39, ''moveRight''),
     (40, ''moveDown''), (46, ''deleteForward'')] k"

definition MODIFIED_KEY_BINDINGS :: "nat \<Rightarrow> string option" where
  "MODIFIED_KEY_BINDINGS k = map_of [(8, ''deleteForward''), (9, ''insertBacktab''),
     (37, ''moveLeftAndModifySelection''), (38, ''moveUpAndModifySelection''),
     (39, ''moveRightAndModifySelection''), (40, ''moveDownAndModifySelection'')] k"

definition interpretKeyEvents :: "'x handlers \<Rightarrow> dom_event \<Rightarrow> view \<Rightarrow> 'x world \<Rightarrow> retval \<times> 'x world" where
  "interpretKeyEvents hs e v w =
     (case (if shiftKey e then MODIFIED_KEY_BINDINGS else KEY_BINDINGS) (keyCode e) of
        None \<Rightarrow> (RBool False, w)
      | Some name \<Rightarrow> (case hs (vid v) name of
            None \<Rightarrow> (RBool False, w)
          | Some h \<Rightarrow> h (Some (ViewR v)) e w))"

definition ember_event :: "dom_event \<Rightarrow> string option" where
  "ember_event e = (if e_type e = ''keydown'' then Some ''keyDown''
                    else if e_type e = ''keypress'' then Some ''keyPress'' else None)"

text \<open>The truth value JavaScript's \<open>!\<close> sees; the marker object is truthy.\<close>

fun ret_truthy :: "retval \<Rightarrow> bool" where
  "ret_truthy RUndefined = False"
| "ret_truthy (RBool b) = b"
| "ret_truthy RAllowDefault = True"

text \<open>
  \<open>handleKeyEvent\<close> and \<open>_handleKeyEvent\<close> in one recursion up the parents.  The handler found on a
  view is called with the current key responder as receiver.
\<close>

fun handleKeyEvent :: "'x handlers \<Rightarrow> dom_event \<Rightarrow> view \<Rightarrow> 'x world \<Rightarrow> bool \<times> 'x world" where
  "handleKeyEvent hs e (View i p) w =
     (case Option.bind (ember_event e) (hs i) of
        Some h \<Rightarrow> (let (r, w1) = h (current w) e w in (\<not> ret_truthy r, w1))
      | None \<Rightarrow>
         (let (r, w1) = (if ember_event e = Some ''keyDown'' then interpretKeyEvents hs e (View i p) w
                         else (RUndefined, w))
          in if r = RAllowDefault then (True, w1)
             else if ret_truthy r then (False, w1)
             else (case p of Some q \<Rightarrow> handleKeyEvent hs e q w1 | None \<Rightarrow> (True, w1))))"

definition keyDown :: "'x handlers \<Rightarrow> dom_event \<Rightarrow> 'x world \<Rightarrow> bool \<times> 'x world" where
  "keyDown hs e w = (case current w of
       Some (ViewR v) \<Rightarrow> (if isVisible (vprops_of w (vid v)) then handleKeyEvent hs e v w else (True, w))
     | _ \<Rightarrow> (True, w))"

section \<open>Focus support\<close>

text \<open>
  The hooks that text inputs add: becoming the key responder schedules a call of the browser's
  \<open>focus\<close>, losing it blurs the element.  The scheduled call focuses the element unless it is the
  active one already.
\<close>

definition focus_hooks :: "'x hooks" where
  "focus_hooks s r w = (case s of
       DidBecome \<Rightarrow> w\<lparr>focus_timers := focus_timers w @ [r]\<rparr>
     | DidLose \<Rightarrow> w\<lparr>blurred := blurred w @ [r]\<rparr>
     | _ \<Rightarrow> w)"

definition focusIn :: "'x hooks \<Rightarrow> view \<Rightarrow> 'x world \<Rightarrow> 'x world result" where
  "focusIn hook v w = (if current w \<noteq> Some (ViewR v) then becomeKeyResponder hook True v w else Inr w)"

definition focusOut :: "'x hooks \<Rightarrow> bool \<Rightarrow> view \<Rightarrow> 'x world \<Rightarrow> 'x world result" where
  "focusOut hook documentHasFocus v w =
     (if current w = Some (ViewR v) \<and> documentHasFocus then resignKeyResponder hook w else Inr w)"

section \<open>The responder interface\<close>

text \<open>
  What the stack relies on: hooks that neither touch the stack nor the properties of the views.
\<close>

locale responder_hooks =
  fixes hook :: "'x hooks"
  assumes keeps_stack: "key_stack (hook s r w) = key_stack w"
    and keeps_props: "vprops_of (hook s r w) = vprops_of w"
begin

lemma key_stack_push [simp]: "key_stack (push hook (Some r) w) = key_stack w @ [r]"
proof -
  have "key_stack (set_focused b r w) = key_stack w" for b and w :: "'x world" by (cases r) simp_all
  then show ?thesis by (simp add: push_def Let_def keeps_stack)
qed

lemma props_push [simp]: "vprops_of (push hook (Some r) w) = vprops_of (set_focused True r w)"
  by (cases r) (simp_all add: push_def Let_def keeps_props)

lemma pop_empty [simp]: "key_stack w = [] \<Longrightarrow> pop hook w = Inr (None, w)"
  by (simp add: pop_def current_def)

lemma pop_top:
  assumes "key_stack w = rs @ [r]"
  shows "\<exists>w'. pop hook w = Inr (Some r, w') \<and> key_stack w' = rs \<and>
    vprops_of w' = vprops_of (set_focused False r w)"
proof -
  have "key_stack (set_focused b r w) = key_stack w" for b and w :: "'x world" by (cases r) simp_all
  moreover have "vprops_of (set_focused False r ((hook WillLose r w)\<lparr>key_stack := rs\<rparr>)) = vprops_of (set_focused False r w)"
    by (cases r) (simp_all add: keeps_props)
  ultimately show ?thesis
    using assms by (simp add: pop_def current_def Let_def keeps_stack keeps_props)
qed

lemma replace_top:
  assumes "current w \<noteq> Some r"
  shows "\<exists>w'. replace hook (Some r) w = Inr w' \<and> key_stack w' = butlast (key_stack w) @ [r] \<and>
    vprops_of w' = vprops_of (set_focused True r
      (case current w of None \<Rightarrow> w | Some c \<Rightarrow> set_focused False c w))"
proof (cases "key_stack w" rule: rev_cases)
  case Nil
  with assms show ?thesis
    by (cases r) (auto simp: replace_def current_def blur_if_input_def push_def Let_def keeps_stack keeps_props)
next
  case (snoc rs c)
  let ?w = "blur_if_input (Some c) w"
  have "key_stack ?w = rs @ [c]" "vprops_of (set_focused False c ?w) = vprops_of (set_focused False c w)"
    using snoc by (cases c; simp add: blur_if_input_def)+
  then obtain w1 where "pop hook ?w = Inr (Some c, w1)" "key_stack w1 = rs"
    "vprops_of w1 = vprops_of (set_focused False c w)"
    using pop_top [of ?w rs c] by auto
  moreover have "vprops_of (set_focused True r w1) = vprops_of (set_focused True r (set_focused False c w))"
    using calculation(3) by (cases r) auto
  ultimately show ?thesis
    using snoc assms by (simp add: replace_def current_def)
qed

end

interpretation focus: responder_hooks "focus_hooks :: 'x hooks"
  by unfold_locales (simp_all add: focus_hooks_def split: signal.splits)

section \<open>Focus flags\<close>

definition view_ids :: "responder list \<Rightarrow> nat list" where
  "view_ids rs = concat (map (\<lambda>r. case r of ViewR v \<Rightarrow> [vid v] | InputR n \<Rightarrow> []) rs)"

lemma view_ids_simps [simp]:
  "view_ids [] = []"
  "view_ids (xs @ ys) = view_ids xs @ view_ids ys"
  "view_ids [ViewR v] = [vid v]"
  "view_ids [InputR n] = []"
  by (simp_all add: view_ids_def)

text \<open>
  A view is marked as focused exactly while it is on the stack; each view is there at most once.
\<close>

definition focus_ok :: "'x world \<Rightarrow> bool" where
  "focus_ok w \<longleftrightarrow> distinct (view_ids (key_stack w)) \<and>
     (\<forall>i. \<not> v_isDestroyed (vprops_of w i) \<longrightarrow> (isFocused (vprops_of w i) \<longleftrightarrow> i \<in> set (view_ids (key_stack w))))"

definition fresh :: "responder \<Rightarrow> responder list \<Rightarrow> bool" where
  "fresh r rs \<longleftrightarrow> set (view_ids [r]) \<inter> set (view_ids rs) = {}"

lemma set_focused_props:
  "vprops_of (set_focused b r w) i =
     (if i \<in> set (view_ids [r]) \<and> \<not> v_isDestroyed (vprops_of w i)
      then vprops_of w i\<lparr>isFocused := b\<rparr> else vprops_of w i)"
  by (cases r) auto

inductive responder_step :: "'x hooks \<Rightarrow> 'x world \<Rightarrow> 'x world \<Rightarrow> bool" for hook where
  step_push: "fresh r (key_stack w) \<Longrightarrow> responder_step hook w (push hook (Some r) w)"
| step_pop: "pop hook w = Inr (r, w') \<Longrightarrow> responder_step hook w w'"
| step_replace: "current w = Some r \<or> fresh r (butlast (key_stack w)) \<Longrightarrow>
    replace hook (Some r) w = Inr w' \<Longrightarrow> responder_step hook w w'"

context responder_hooks
begin

lemma focus_push: "focus_ok w \<Longrightarrow> fresh r (key_stack w) \<Longrightarrow> focus_ok (push hook (Some r) w)"
  by (cases r) (auto simp: focus_ok_def fresh_def)

lemma focus_pop:
  assumes "focus_ok w" and "pop hook w = Inr (r, w')"
  shows "focus_ok w'"
proof (cases "key_stack w" rule: rev_cases)
  case Nil
  with assms show ?thesis by simp
next
  case (snoc rs c)
  from pop_top [OF this] assms(2) have "key_stack w' = rs" "vprops_of w' = vprops_of (set_focused False c w)" by auto
  with assms(1) snoc show ?thesis by (cases c) (auto simp: focus_ok_def)
qed

lemma focus_replace:
  assumes "focus_ok w" and "current w = Some r \<or> fresh r (butlast (key_stack w))"
    and "replace hook (Some r) w = Inr w'"
  shows "focus_ok w'"
proof (cases "current w = Some r")
  case True
  with assms(1,3) show ?thesis by (simp add: replace_def)
next
  case False
  with assms(2) have fresh: "fresh r (butlast (key_stack w))" by blast
  from replace_top [OF False] assms(3) have w': "key_stack w' = butlast (key_stack w) @ [r]"
    "vprops_of w' = vprops_of (set_focused True r (case current w of None \<Rightarrow> w | Some c \<Rightarrow> set_focused False c w))"
    by auto
  show ?thesis
  proof (cases "key_stack w" rule: rev_cases)
    case Nil
    with assms(1) w' fresh show ?thesis by (cases r) (auto simp: focus_ok_def current_def)
  next
    case (snoc rs c)
    then have cur: "current w = Some c" by (simp add: current_def)
    show ?thesis
      using assms(1) w' fresh snoc cur
      by (cases c; cases r) (auto simp: focus_ok_def fresh_def)
  qed
qed

lemma focus_step: "responder_step hook w w' \<Longrightarrow> focus_ok w \<Longrightarrow> focus_ok w'"
  by (induction rule: responder_step.induct) (auto intro: focus_push focus_pop focus_replace)

end

section \<open>Dispatch\<close>

text \<open>What a view answers to an event in a given state.\<close>

definition verdict :: "'x handlers \<Rightarrow> string \<Rightarrow> dom_event \<Rightarrow> 'x world \<Rightarrow> view \<Rightarrow> retval" where
  "verdict hs name e w v = (case hs (vid v) name of None \<Rightarrow> RUndefined | Some h \<Rightarrow> fst (h (Some (ViewR v)) e w))"

text \<open>Handlers whose answer does not depend on the state.\<close>

definition steady :: "'x handlers \<Rightarrow> string \<Rightarrow> bool" where
  "steady hs name \<longleftrightarrow> (\<forall>i h r e w w'. hs i name = Some h \<longrightarrow> fst (h r e w) = fst (h r e w'))"

lemma verdict_steady: "steady hs name \<Longrightarrow> verdict hs name e w v = verdict hs name e w' v"
  by (auto simp: verdict_def steady_def split: option.splits)

lemma dispatch_first:
  assumes "steady hs name"
  shows "fst (dispatch hs name e v w) =
    (case find (\<lambda>u. ret_truthy (verdict hs name e w0 u)) (ancestors v) of
       None \<Rightarrow> None
     | Some u \<Rightarrow> (if verdict hs name e w0 u = RAllowDefault then None else Some u))"
proof (induction v arbitrary: w)
  case (View i p)
  let ?v = "View i p"
  obtain r w1 where rw: "(case hs i name of None \<Rightarrow> (RUndefined, w) | Some h \<Rightarrow> h (Some (ViewR ?v)) e w) = (r, w1)"
    by (metis prod.exhaust)
  have r: "verdict hs name e w0 ?v = r"
  proof (cases "hs i name")
    case None
    with rw show ?thesis by (simp add: verdict_def)
  next
    case (Some h)
    with rw have "fst (h (Some (ViewR ?v)) e w) = r" by simp
    with Some assms show ?thesis by (auto simp: verdict_def steady_def)
  qed
  show ?case
  proof (cases p)
    case None
    with r rw show ?thesis by (cases r) (auto simp: Let_def split: bool.splits)
  next
    case (Some q)
    with r rw View.IH [of q w1] show ?thesis by (cases r) (auto simp: Let_def split: bool.splits)
  qed
qed

lemma key_first:
  assumes "\<forall>u \<in> set (ancestors v). hs (vid u) ''keyDown'' = None" and "e_type e = ''keydown''"
    and "(if shiftKey e then MODIFIED_KEY_BINDINGS else KEY_BINDINGS) (keyCode e) = Some name"
    and "steady hs name"
  shows "fst (handleKeyEvent hs e v w) =
    (case find (\<lambda>u. ret_truthy (verdict hs name e w0 u)) (ancestors v) of
       None \<Rightarrow> True
     | Some u \<Rightarrow> verdict hs name e w0 u = RAllowDefault)"
  using assms(1)
proof (induction v arbitrary: w)
  case (View i p)
  let ?v = "View i p"
  have no: "hs i ''keyDown'' = None" using View.prems by (cases p) auto
  obtain r w1 where rw: "interpretKeyEvents hs e ?v w = (r, w1)" by (metis prod.exhaust)
  have r: "ret_truthy r = ret_truthy (verdict hs name e w0 ?v) \<and>
      (r = RAllowDefault) = (verdict hs name e w0 ?v = RAllowDefault)"
  proof (cases "hs i name")
    case None
    with rw assms(3) show ?thesis by (auto simp: interpretKeyEvents_def verdict_def)
  next
    case (Some h)
    with rw assms(3) have "fst (h (Some (ViewR ?v)) e w) = r" by (simp add: interpretKeyEvents_def)
    moreover have "fst (h (Some (ViewR ?v)) e w) = fst (h (Some (ViewR ?v)) e w0)"
      using Some assms(4) unfolding steady_def by blast
    ultimately show ?thesis using Some by (simp add: verdict_def)
  qed
  have ev: "ember_event e = Some ''keyDown''" using assms(2) by (simp add: ember_event_def)
  show ?case
  proof (cases p)
    case None
    with r rw no ev show ?thesis by (auto simp: Let_def)
  next
    case (Some q)
    with View.prems have "\<forall>u \<in> set (ancestors q). hs (vid u) ''keyDown'' = None" by simp
    with Some r rw no ev View.IH [of q w1] show ?thesis by (auto simp: Let_def)
  qed
qed

section \<open>Capturing the pointer\<close>

text \<open>Handlers that leave the mouse responder and the presence of views in the document alone.\<close>

definition pointer_neutral :: "'x handlers \<Rightarrow> bool" where
  "pointer_neutral hs \<longleftrightarrow> (\<forall>i name h r e w. hs i name = Some h \<longrightarrow>
     mouse_current (snd (h r e w)) = mouse_current w \<and>
     (\<forall>j. inDOM (vprops_of (snd (h r e w)) j) = inDOM (vprops_of w j)))"

lemma dispatch_neutral:
  assumes "pointer_neutral hs"
  shows "mouse_current (snd (dispatch hs name e v w)) = mouse_current w \<and>
    inDOM (vprops_of (snd (dispatch hs name e v w)) j) = inDOM (vprops_of w j)"
proof (induction v arbitrary: w)
  case (View i p)
  obtain r w1 where rw: "(case hs i name of None \<Rightarrow> (RUndefined, w) | Some h \<Rightarrow> h (Some (ViewR (View i p))) e w) = (r, w1)"
    by (metis prod.exhaust)
  have w1: "mouse_current w1 = mouse_current w" "inDOM (vprops_of w1 j) = inDOM (vprops_of w j)"
  proof -
    have "mouse_current w1 = mouse_current w \<and> inDOM (vprops_of w1 j) = inDOM (vprops_of w j)"
    proof (cases "hs i name")
      case None
      with rw show ?thesis by simp
    next
      case (Some h)
      with rw have "snd (h (Some (ViewR (View i p))) e w) = w1" by simp
      with Some assms show ?thesis unfolding pointer_neutral_def by blast
    qed
    then show "mouse_current w1 = mouse_current w" "inDOM (vprops_of w1 j) = inDOM (vprops_of w j)" by auto
  qed
  with rw show ?case
    using View.IH [of _ w1]
    by (cases r) (auto simp: Let_def split: bool.splits option.splits)
qed

fun moves :: "'x handlers \<Rightarrow> (dom_event \<times> view) list \<Rightarrow> 'x world \<Rightarrow> 'x world" where
  "moves hs [] w = w"
| "moves hs ((e, v) # es) w = moves hs es (snd (mouseMove hs e v w))"

lemma moves_captured:
  assumes "pointer_neutral hs" and "mouse_current w = Some u" and "inDOM (vprops_of w (vid u))"
    and "map fst es = map fst es'"
  shows "moves hs es w = moves hs es' w \<and> mouse_current (moves hs es w) = Some u \<and>
    inDOM (vprops_of (moves hs es w) (vid u))"
  using assms(2-4)
proof (induction es arbitrary: es' w)
  case Nil
  then show ?case by simp
next
  case (Cons ev es)
  obtain e v where ev: "ev = (e, v)" by fastforce
  then obtain v' es'' where es': "es' = (e, v') # es''" "map fst es = map fst es''"
    using Cons.prems(3) by (cases es') auto
  let ?w = "snd (dispatch hs ''mouseMove'' e u w)"
  have "mouseMove hs e x w = not_handled (dispatch hs ''mouseMove'' e u w)" for x
    using Cons.prems(1,2) by (simp add: mouseMove_def)
  moreover have "mouse_current ?w = Some u" "inDOM (vprops_of ?w (vid u))"
    using dispatch_neutral [OF assms(1)] Cons.prems(1,2) by metis+
  ultimately show ?case using Cons.IH [of ?w es''] ev es' by (auto simp: not_handled_def)
qed

section \<open>Properties\<close>


definition plain_props :: vprops where
  "plain_props = \<lparr>acceptsKeyResponder = True, v_isDisabled = False, isVisible = True, inDOM = True,
     v_isDestroyed = False, isFocused = False\<rparr>"

definition new_world :: "unit world" where
  "new_world = \<lparr>key_stack = [], mouse_current = None, vprops_of = (\<lambda>_. plain_props), blurred = [],
     focus_timers = [], app = ()\<rparr>"


text \<open>
  Opening and closing a modal element restores the key responders: a pop after a push returns
  the pushed responder, leaves the stack as it was and no other view's focus flag changed.
\<close>

theorem push_pop_restores:
  assumes "responder_hooks hook"
  shows "\<exists>w'. pop hook (push hook (Some r) w) = Inr (Some r, w') \<and> key_stack w' = key_stack w \<and>
    (\<forall>i. i \<notin> set (view_ids [r]) \<longrightarrow> vprops_of w' i = vprops_of w i)"
proof -
  obtain w' where w': "pop hook (push hook (Some r) w) = Inr (Some r, w')" "key_stack w' = key_stack w"
      "vprops_of w' = vprops_of (set_focused False r (push hook (Some r) w))"
    using responder_hooks.pop_top [OF assms, of "push hook (Some r) w" "key_stack w" r]
      responder_hooks.key_stack_push [OF assms] by auto
  have "vprops_of w' i = vprops_of w i" if "i \<notin> set (view_ids [r])" for i
    using that w'(3) responder_hooks.props_push [OF assms, of r w] by (simp add: set_focused_props)
  with w' show ?thesis by blast
qed

theorem push_pop_restores_witness:
  "\<exists>w'. pop focus_hooks (push focus_hooks (Some (ViewR (View 1 None))) new_world) = Inr (Some (ViewR (View 1 None)), w') \<and>
    key_stack w' = []"
  using push_pop_restores [OF focus.responder_hooks_axioms, of "ViewR (View 1 None)" new_world]
  by (auto simp: new_world_def)

text \<open>
  Becoming the key responder goes to the nearest view up the parents that accepts key events
  and is enabled, which replaces the top of the stack; without such a view nothing happens.
\<close>

theorem key_responder_is_nearest_accepting:
  assumes "responder_hooks hook"
  shows "\<exists>w'. becomeKeyResponder hook True v w = Inr w' \<and>
    (case find (\<lambda>u. acceptsKeyResponder (vprops_of w (vid u)) \<and> \<not> v_isDisabled (vprops_of w (vid u))) (ancestors v) of
       None \<Rightarrow> w' = w
     | Some u \<Rightarrow> key_stack w' = butlast (key_stack w) @ [ViewR u])"
proof (induction v)
  case (View i p)
  show ?case
  proof (cases "acceptsKeyResponder (vprops_of w i) \<and> \<not> v_isDisabled (vprops_of w i)")
    case True
    then have found: "find (\<lambda>u. acceptsKeyResponder (vprops_of w (vid u)) \<and> \<not> v_isDisabled (vprops_of w (vid u)))
        (ancestors (View i p)) = Some (View i p)"
      by (cases p) simp_all
    show ?thesis
    proof (cases "current w = Some (ViewR (View i p))")
      case True
      then have "key_stack w = butlast (key_stack w) @ [ViewR (View i p)]"
        by (auto simp: current_def split: if_splits dest: append_butlast_last_id)
      with True found \<open>acceptsKeyResponder _ \<and> _\<close> show ?thesis by (simp add: replace_def)
    next
      case False
      with found \<open>acceptsKeyResponder _ \<and> _\<close> responder_hooks.replace_top [OF assms False] show ?thesis by auto
    qed
  next
    case False
    show ?thesis
    proof (cases p)
      case None
      with False show ?thesis by auto
    next
      case (Some q)
      with False View.IH [of q] show ?thesis by auto
    qed
  qed
qed

theorem key_responder_is_nearest_accepting_witness:
  "\<exists>w'. becomeKeyResponder focus_hooks True (View 2 (Some (View 1 None)))
      (new_world\<lparr>vprops_of := (\<lambda>_. plain_props)(2 := plain_props\<lparr>acceptsKeyResponder := False\<rparr>)\<rparr>) = Inr w' \<and>
    key_stack w' = [ViewR (View 1 None)]"
  using key_responder_is_nearest_accepting [OF focus.responder_hooks_axioms, of "View 2 (Some (View 1 None))"
      "new_world\<lparr>vprops_of := (\<lambda>_. plain_props)(2 := plain_props\<lparr>acceptsKeyResponder := False\<rparr>)\<rparr>"]
  by (simp add: new_world_def plain_props_def)

text \<open>
  A mouse event is handled by the first view up the parents whose handler returns \<open>true\<close>, unless
  a view before it asks for the browser's default handling; then, and when no handler wants it,
  the event counts as not handled.
\<close>

theorem dispatch_finds_first_handler:
  assumes "steady hs name"
  shows "fst (dispatch hs name e v w) =
    (case find (\<lambda>u. ret_truthy (verdict hs name e w u)) (ancestors v) of
       None \<Rightarrow> None
     | Some u \<Rightarrow> (if verdict hs name e w u = RAllowDefault then None else Some u))"
  using assms by (rule dispatch_first)

definition root_handles :: "unit handlers" where
  "root_handles i name = (if i = 1 \<and> (name = ''mouseDown'' \<or> name = ''cancel'')
     then Some (\<lambda>r e w. (RBool True, w)) else None)"

definition a_event :: dom_event where
  "a_event = \<lparr>e_type = ''keydown'', keyCode = 27, shiftKey = False\<rparr>"

theorem dispatch_finds_first_handler_witness:
  "fst (dispatch root_handles ''mouseDown'' a_event (View 2 (Some (View 1 None))) new_world) = Some (View 1 None)"
  using dispatch_finds_first_handler [of root_handles "''mouseDown''" a_event "View 2 (Some (View 1 None))" new_world]
  by (simp add: steady_def root_handles_def verdict_def)

text \<open>
  A key press without a raw \<open>keyDown\<close> handler on the way is offered to the parents under its
  bound name; the first that accepts it suppresses the browser's default, and the default stays
  allowed when none does or when that view asks for it.
\<close>

theorem key_event_bubbles:
  assumes "\<forall>u \<in> set (ancestors v). hs (vid u) ''keyDown'' = None" and "e_type e = ''keydown''"
    and "(if shiftKey e then MODIFIED_KEY_BINDINGS else KEY_BINDINGS) (keyCode e) = Some name"
    and "steady hs name"
  shows "fst (handleKeyEvent hs e v w) =
    (case find (\<lambda>u. ret_truthy (verdict hs name e w u)) (ancestors v) of
       None \<Rightarrow> True
     | Some u \<Rightarrow> verdict hs name e w u = RAllowDefault)"
  using assms by (rule key_first)

theorem key_event_bubbles_witness:
  "fst (handleKeyEvent root_handles a_event (View 2 (Some (View 1 None))) new_world) = False"
  using key_event_bubbles [of "View 2 (Some (View 1 None))" root_handles a_event "''cancel''" new_world]
  by (simp add: steady_def root_handles_def verdict_def a_event_def KEY_BINDINGS_def)



text \<open>
  A view that leaves the document while it captures the pointer is never released by the mouse:
  every mouse up and mouse move anywhere is ignored and changes nothing, until the next mouse down.
\<close>

theorem removed_responder_swallows_mouse:
  assumes "mouse_current w = Some u" and "\<not> inDOM (vprops_of w (vid u))"
  shows "mouseUp hs e v w = (True, w) \<and> mouseMove hs e v w = (True, w) \<and> moves hs es w = w \<and>
    window_mouseup hs e w = (Some True, w)"
proof -
  have move: "mouseMove hs e v w = (True, w)" for e v using assms by (simp add: mouseMove_def)
  then have "moves hs es w = w" by (induction es) auto
  then show ?thesis using assms move by (simp add: mouseUp_def window_mouseup_def)
qed

theorem removed_responder_swallows_mouse_witness:
  "mouseUp root_handles a_event (View 3 None) (new_world\<lparr>mouse_current := Some (View 1 None),
     vprops_of := \<lambda>_. plain_props\<lparr>inDOM := False\<rparr>\<rparr>) =
   (True, new_world\<lparr>mouse_current := Some (View 1 None), vprops_of := \<lambda>_. plain_props\<lparr>inDOM := False\<rparr>\<rparr>)"
  using removed_responder_swallows_mouse [of "new_world\<lparr>mouse_current := Some (View 1 None),
     vprops_of := \<lambda>_. plain_props\<lparr>inDOM := False\<rparr>\<rparr>" "View 1 None" root_handles a_event "View 3 None" "[]"] by simp

end
