(* ===== verification/Layout.thy ===== *)
theory Layout
  imports Flame_Prelude
begin

text \<open>
  Layouts: \<open>mixins/layout_support.js\<close> (the layout hash of a view, its translation to CSS, adjusting
  one property, consulting the layout manager) and \<open>layout_manager.js\<close> with
  \<open>layout_managers/vertical_stack_layout_manager.js\<close>, which stacks the child views.

  A layout value is \<open>undefined\<close>, \<open>null\<close>, \<open>NaN\<close>, a whole number of pixels or a string: a number, a
  percentage, or the path of a property that supplies the value.
\<close>

section \<open>Values\<close>

datatype lval = LUndef | LNull | LNaN | LNum int | LStr string

fun int_text :: "int \<Rightarrow> string" where
  "int_text k = (if k < 0 then CHR ''-'' # decimal (nat (- k)) else decimal (nat k))"

declare int_text.simps [simp del]

text \<open>\<open>parseInt(s, 10)\<close>: an optional sign and the leading digits; \<open>None\<close> is \<open>NaN\<close>.\<close>

definition leading_digits :: "string \<Rightarrow> int option" where
  "leading_digits s = (let ds = takeWhile is_digit s in if ds = [] then None else Some (int (digits_value ds)))"

fun parse_int :: "string \<Rightarrow> int option" where
  "parse_int (c # s) =
     (if c = CHR '' '' then parse_int s
      else if c = CHR ''-'' then map_option uminus (leading_digits s)
      else if c = CHR ''+'' then leading_digits s
      else leading_digits (c # s))"
| "parse_int [] = None"

definition lval_isNone :: "lval \<Rightarrow> bool" where
  "lval_isNone v \<longleftrightarrow> v = LUndef \<or> v = LNull"

text \<open>\<open>!==\<close> of two values: \<open>NaN\<close> differs from everything.\<close>

definition lval_differs :: "lval \<Rightarrow> lval \<Rightarrow> bool" where
  "lval_differs a b \<longleftrightarrow> a = LNaN \<or> b = LNaN \<or> a \<noteq> b"

section \<open>Layouts\<close>

datatype lprop = PLeft | PRight | PTop | PBottom | PWidth | PHeight | PMaxHeight

record layout =
  lprops :: "lprop \<Rightarrow> lval"
  overflow :: "string option"
  centerX :: "int option"
  centerY :: "int option"
  topMargin :: "int option"
  topPadding :: "int option"
  bottomPadding :: "int option"
  bindingsResolved :: bool

definition layoutProperties :: "lprop list" where
  "layoutProperties = [PLeft, PRight, PTop, PBottom, PWidth, PHeight, PMaxHeight]"

definition set_lprop :: "lprop \<Rightarrow> lval \<Rightarrow> layout \<Rightarrow> layout" where
  "set_lprop p v l = l\<lparr>lprops := (lprops l)(p := v)\<rparr>"

definition initLayoutSupport :: "lval \<Rightarrow> lval \<Rightarrow> layout \<Rightarrow> layout" where
  "initLayoutSupport defaultWidth defaultHeight l =
     (let l1 = (if lprops l PWidth = LUndef \<and> lprops l PRight = LUndef \<and> defaultWidth \<noteq> LUndef
                then set_lprop PWidth defaultWidth l else l)
      in if lprops l1 PHeight = LUndef \<and> (lprops l1 PTop = LUndef \<or> lprops l1 PBottom = LUndef) \<and> defaultHeight \<noteq> LUndef
         then set_lprop PHeight defaultHeight l1 else l1)"

text \<open>\<open>_resolveLayoutBindings\<close>: values that look like property paths are observed and read.\<close>

fun is_path :: "lval \<Rightarrow> bool" where
  "is_path (LStr s) = (s \<noteq> [] \<and> parse_int s = None)"
| "is_path v = False"

definition read_path :: "(string \<Rightarrow> lval) \<Rightarrow> lval \<Rightarrow> lval" where
  "read_path get v = (case v of LStr s \<Rightarrow> (if is_path v then get s else v) | _ \<Rightarrow> v)"

definition resolveLayoutBindings ::
  "(string \<Rightarrow> lval) \<Rightarrow> layout \<Rightarrow> layout \<times> (string \<times> lprop) list" where
  "resolveLayoutBindings get l =
     (if bindingsResolved l then (l, [])
      else (l\<lparr>lprops := (\<lambda>p. read_path get (lprops l p)), bindingsResolved := True\<rparr>,
            concat (map (\<lambda>p. case lprops l p of LStr s \<Rightarrow> (if is_path (LStr s) then [(s, p)] else []) | _ \<Rightarrow> [])
                        layoutProperties)))"

section \<open>Translation to CSS\<close>

datatype cprop = CLeft | CRight | CTop | CBottom | CWidth | CHeight | CMarginLeft | CMarginTop | COverflow

definition cssProperties :: "cprop list" where
  "cssProperties = [CLeft, CRight, CTop, CBottom, CWidth, CHeight, CMarginLeft, CMarginTop, COverflow]"

text \<open>The text of half an integer.\<close>

definition half_text :: "int \<Rightarrow> string" where
  "half_text k = (if even k then int_text (k div 2)
     else (if k < 0 then CHR ''-'' # decimal (nat (- k) div 2) else decimal (nat k div 2)) @ ''.5'')"

text \<open>
  \<open>(-((size || 0) / 2) + center) + 'px'\<close>.  A size that is no number gives \<open>NaN\<close>.
\<close>

definition center_margin :: "lval \<Rightarrow> int \<Rightarrow> lval" where
  "center_margin sz c = (case sz of
       LNum n \<Rightarrow> LStr (half_text (2 * c - n) @ ''px'')
     | LStr s \<Rightarrow> (if s = [] then LStr (half_text (2 * c) @ ''px'')
                 else (case parse_int s of
                         Some n \<Rightarrow> if int_text n = s then LStr (half_text (2 * c - n) @ ''px'') else LStr ''NaNpx''
                       | None \<Rightarrow> LStr ''NaNpx''))
     | _ \<Rightarrow> LStr (half_text (2 * c) @ ''px''))"

definition raw_css :: "layout \<Rightarrow> cprop \<Rightarrow> lval" where
  "raw_css l p = (case p of
       COverflow \<Rightarrow> (case overflow l of
           None \<Rightarrow> (if lprops l PMaxHeight \<noteq> LUndef then LStr ''auto'' else LUndef)
         | Some s \<Rightarrow> (if s \<noteq> [] then LStr s else LUndef))
     | CWidth \<Rightarrow> lprops l PWidth
     | CHeight \<Rightarrow> lprops l PHeight
     | CLeft \<Rightarrow> (if centerX l = None then lprops l PLeft else LStr ''50%'')
     | CRight \<Rightarrow> (if centerX l = None then lprops l PRight else LUndef)
     | CTop \<Rightarrow> (if centerY l = None then lprops l PTop else LStr ''50%'')
     | CBottom \<Rightarrow> (if centerY l = None then lprops l PBottom else LUndef)
     | CMarginLeft \<Rightarrow> (case centerX l of None \<Rightarrow> LUndef | Some c \<Rightarrow> center_margin (lprops l PWidth) c)
     | CMarginTop \<Rightarrow> (case centerY l of None \<Rightarrow> LUndef | Some c \<Rightarrow> center_margin (lprops l PHeight) c))"

text \<open>A number, or a string that only holds a number, gets the unit.\<close>

definition with_px :: "lval \<Rightarrow> lval" where
  "with_px v = (case v of
       LNum n \<Rightarrow> LStr (int_text n @ ''px'')
     | LNaN \<Rightarrow> LStr ''NaNpx''
     | LStr s \<Rightarrow> (case parse_int s of Some n \<Rightarrow> (if int_text n = s then LStr (s @ ''px'') else v)
                                   | None \<Rightarrow> (if s = ''NaN'' then LStr ''NaNpx'' else v))
     | _ \<Rightarrow> v)"

definition translateLayout :: "layout \<Rightarrow> cprop \<Rightarrow> lval" where
  "translateLayout l p = with_px (raw_css l p)"

text \<open>What \<open>_renderElementAttributes\<close> writes to the render buffer.\<close>

definition css_styles :: "layout \<Rightarrow> (cprop \<times> lval) list" where
  "css_styles l = filter (\<lambda>(p, v). \<not> lval_isNone v) (map (\<lambda>p. (p, translateLayout l p)) cssProperties)"

section \<open>Adjusting a layout\<close>

text \<open>
  A view as far as layout goes.  \<open>css\<close> is what was last set on the DOM element, if there is one;
  \<open>notified\<close> counts the calls of \<open>layoutDidChangeFor\<close> on the parent view.
\<close>

record child =
  c_layout :: "layout option"
  c_ignore :: bool
  c_visible :: "bool option"
  c_get :: "string \<Rightarrow> lval"
  c_css :: "(cprop \<Rightarrow> lval) option"
  c_absolute :: bool
  c_notified :: nat

definition empty_layout :: layout where
  "empty_layout = \<lparr>lprops = (\<lambda>_. LUndef), overflow = None, centerX = None, centerY = None, topMargin = None,
     topPadding = None, bottomPadding = None, bindingsResolved = False\<rparr>"

definition updateLayout :: "child \<Rightarrow> child" where
  "updateLayout c =
     (let c1 = (if c_absolute c \<and> c_css c \<noteq> None
                then c\<lparr>c_css := Some (translateLayout (case c_layout c of None \<Rightarrow> empty_layout | Some l \<Rightarrow> l))\<rparr> else c)
      in c1\<lparr>c_notified := Suc (c_notified c1)\<rparr>)"

definition js_add :: "lval \<Rightarrow> int \<Rightarrow> lval" where
  "js_add v k = (case v of LNum n \<Rightarrow> LNum (n + k) | LNull \<Rightarrow> LNum k | LStr s \<Rightarrow> LStr (s @ int_text k) | _ \<Rightarrow> LNaN)"

definition adjustLayout :: "lprop \<Rightarrow> lval \<Rightarrow> int option \<Rightarrow> child \<Rightarrow> child result" where
  "adjustLayout p v inc c = (case c_layout c of
       None \<Rightarrow> Inl TypeError
     | Some l \<Rightarrow>
        rbind (if v \<noteq> LUndef then Inr v
               else (case inc of Some k \<Rightarrow> Inr (js_add (lprops l p) k)
                     | None \<Rightarrow> Inl (ThrownError ''Give either a new value or an increment!''))) (\<lambda>new.
        Inr (if lval_differs (lprops l p) new then updateLayout (c\<lparr>c_layout := Some (set_lprop p new l)\<rparr>) else c)))"

section \<open>The vertical stack\<close>

record stack_manager =
  m_topMargin :: int
  m_bottomMargin :: int
  m_spacing :: int

definition affected :: "child \<Rightarrow> bool" where
  "affected c \<longleftrightarrow> \<not> c_ignore c \<and> c_visible c \<noteq> Some False \<and> c_layout c \<noteq> None"

definition getAffectedChildViews :: "child list \<Rightarrow> child list" where
  "getAffectedChildViews cs = filter affected cs"

definition or_zero :: "int option \<Rightarrow> int" where
  "or_zero x = (case x of None \<Rightarrow> 0 | Some n \<Rightarrow> n)"

text \<open>The number a height stands for; \<open>None\<close> is \<open>NaN\<close>.\<close>

fun height_of :: "lval \<Rightarrow> int option" where
  "height_of (LNum n) = Some n"
| "height_of (LStr s) = parse_int s"
| "height_of v = None"

definition num :: "int option \<Rightarrow> lval" where
  "num t = (case t of None \<Rightarrow> LNaN | Some n \<Rightarrow> LNum n)"

definition add_num :: "int option \<Rightarrow> int \<Rightarrow> int option" where
  "add_num t k = map_option (\<lambda>n. n + k) t"

definition add_height :: "int option \<Rightarrow> lval \<Rightarrow> int option" where
  "add_height t v = (case (t, height_of v) of (Some a, Some b) \<Rightarrow> Some (a + b) | _ \<Rightarrow> None)"

text \<open>
  One step of the loop of \<open>setupLayout\<close>: place a child below \<open>tp\<close> (the variable \<open>top\<close> after the
  spacing was added) and return where the next one goes, and whether the child is fluid.
\<close>

definition resolved :: "child \<Rightarrow> layout" where
  "resolved c = fst (resolveLayoutBindings (c_get c) (case c_layout c of None \<Rightarrow> empty_layout | Some l \<Rightarrow> l))"

definition place_child :: "int option \<Rightarrow> child \<Rightarrow> child result" where
  "place_child tp c =
     adjustLayout PTop (num (add_num tp (or_zero (topMargin (resolved c))))) None (c\<lparr>c_layout := Some (resolved c)\<rparr>)"

definition after_child :: "int option \<Rightarrow> child \<Rightarrow> int option" where
  "after_child tp c =
     (let l = resolved c;
          t = add_num tp (or_zero (topMargin l) + or_zero (topPadding l) + or_zero (bottomPadding l))
      in if lval_isNone (lprops l PHeight) then t else add_height t (lprops l PHeight))"

definition is_fluid :: "child \<Rightarrow> bool" where
  "is_fluid c \<longleftrightarrow> lval_isNone (lprops (resolved c) PHeight)"

text \<open>
  The loop over the affected children; \<open>i\<close> is the index among them and \<open>n\<close> their number.  Children
  placed before an assertion fails stay placed.
\<close>

fun stack_from ::
  "stack_manager \<Rightarrow> nat \<Rightarrow> nat \<Rightarrow> int option \<Rightarrow> bool \<Rightarrow> child list \<Rightarrow> child list \<times> (int option \<times> bool) result" where
  "stack_from m n i tp fluid [] = ([], Inr (tp, fluid))"
| "stack_from m n i tp fluid (c # cs) =
     (if \<not> affected c
      then (let (cs', r) = stack_from m n i tp fluid cs in (c # cs', r))
      else (let tp1 = (if 0 < i then add_num tp (m_spacing m) else tp) in
        case place_child tp1 c of
          Inl e \<Rightarrow> (c # cs, Inl e)
        | Inr c' \<Rightarrow>
           (if Suc i < n \<and> is_fluid c
            then (c' # cs, Inl (AssertionFailed ''All child views except last one must define layout.height when using VerticalStackLayoutManager!''))
            else (let (cs', r) = stack_from m n (Suc i) (after_child tp1 c) (fluid \<or> is_fluid c) cs
                  in (c' # cs', r)))))"

record stack =
  s_view :: child
  s_manager :: "stack_manager option"
  s_children :: "child list"
  layoutChangeInProgress :: bool

text \<open>\<open>if (maxHeight !== undefined && top > maxHeight) top = maxHeight\<close>, with the conversions of \<open>>\<close>.\<close>

definition cap :: "int option \<Rightarrow> lval \<Rightarrow> lval" where
  "cap t mx = (case t of None \<Rightarrow> LNaN | Some a \<Rightarrow>
     (case mx of
        LNum b \<Rightarrow> (if b < a then mx else LNum a)
      | LNull \<Rightarrow> (if 0 < a then mx else LNum a)
      | LStr s \<Rightarrow> (if (s = [] \<and> 0 < a) \<or> (\<exists>b \<in> set_option (parse_int s). int_text b = s \<and> b < a) then mx else LNum a)
      | _ \<Rightarrow> LNum a))"

definition setupLayout :: "stack_manager \<Rightarrow> stack \<Rightarrow> stack \<times> js_error option" where
  "setupLayout m s =
     (let mx = (case c_layout (s_view s) of None \<Rightarrow> LUndef | Some l \<Rightarrow> lprops l PMaxHeight) in
      case stack_from m (length (getAffectedChildViews (s_children s))) 0 (Some (m_topMargin m)) False (s_children s) of
        (cs, Inl e) \<Rightarrow> (s\<lparr>s_children := cs\<rparr>, Some e)
      | (cs, Inr (tp, fluid)) \<Rightarrow>
         (let tp1 = cap (if fluid then tp else add_num tp (m_bottomMargin m)) mx in
          if \<not> fluid \<or> mx \<noteq> LUndef
          then (case adjustLayout PHeight tp1 None (s_view s) of
                  Inl e \<Rightarrow> (s\<lparr>s_children := cs\<rparr>, Some e)
                | Inr v \<Rightarrow> (s\<lparr>s_children := cs, s_view := v\<rparr>, None))
          else (s\<lparr>s_children := cs\<rparr>, None)))"

text \<open>
  \<open>consultLayoutManager\<close>: a call that arrives while the manager is at work, from a child whose
  layout it adjusts, is ignored.
\<close>

definition consultLayoutManager :: "stack \<Rightarrow> stack \<times> js_error option" where
  "consultLayoutManager s = (case s_manager s of
       None \<Rightarrow> (s, None)
     | Some m \<Rightarrow>
        (if layoutChangeInProgress s then (s, None)
         else (case setupLayout m (s\<lparr>layoutChangeInProgress := True\<rparr>) of
                 (s1, None) \<Rightarrow> (s1\<lparr>layoutChangeInProgress := False\<rparr>, None)
               | (s1, Some e) \<Rightarrow> (s1, Some e))))"

text \<open>Adjusting the layout of the stack itself; a new \<open>maxHeight\<close> consults the manager.\<close>

definition adjustStackLayout :: "lprop \<Rightarrow> lval \<Rightarrow> int option \<Rightarrow> stack \<Rightarrow> stack \<times> js_error option" where
  "adjustStackLayout p v inc s = (case adjustLayout p v inc (s_view s) of
       Inl e \<Rightarrow> (s, Some e)
     | Inr c \<Rightarrow> (if p = PMaxHeight \<and> c_notified c \<noteq> c_notified (s_view s)
                then consultLayoutManager (s\<lparr>s_view := c\<rparr>) else (s\<lparr>s_view := c\<rparr>, None)))"

section \<open>Numbers and their text\<close>

lemma digits_then: "takeWhile is_digit (decimal n @ CHR ''p'' # s) = decimal n"
proof -
  have "\<not> is_digit (CHR ''p'')" by (simp add: is_digit_def)
  with decimal_digits [of n] show ?thesis by (simp add: takeWhile_append list_all_iff takeWhile_eq_all_conv)
qed

lemma leading_digits_decimal: "leading_digits (decimal n @ CHR ''p'' # s) = Some (int n)"
  by (simp add: leading_digits_def digits_then digits_value_decimal Let_def)

lemma parse_digit_first: "is_digit c \<Longrightarrow> parse_int (c # s) = leading_digits (c # s)"
  by (auto simp: is_digit_def)

lemma parse_int_px: "parse_int (int_text k @ ''px'') = Some k"
proof (cases "k < 0")
  case True
  then show ?thesis by (simp add: int_text.simps leading_digits_decimal)
next
  case False
  obtain c s where d: "decimal (nat k) = c # s" by (meson decimal_nonempty neq_Nil_conv)
  then have "is_digit c" using decimal_digits [of "nat k"] by simp
  with d have "parse_int (decimal (nat k) @ ''px'') = leading_digits (decimal (nat k) @ ''px'')"
    by (simp only: append_Cons parse_digit_first)
  with False show ?thesis by (simp add: int_text.simps leading_digits_decimal)
qed

section \<open>Stacking\<close>

text \<open>The abstract stack: margins, paddings and heights to tops.\<close>

fun tops :: "int \<Rightarrow> int \<Rightarrow> (int \<times> int \<times> int) list \<Rightarrow> int list" where
  "tops sp t [] = []"
| "tops sp t ((g, p, h) # ds) = (t + g) # tops sp (t + g + p + h + sp) ds"

definition extent :: "int \<Rightarrow> (int \<times> int \<times> int) list \<Rightarrow> int" where
  "extent sp ds = (\<Sum>(g, p, h) \<leftarrow> ds. g + p + h) + sp * (int (length ds) - 1)"

definition child_dims :: "child \<Rightarrow> int \<times> int \<times> int" where
  "child_dims c = (let l = resolved c in
     (or_zero (topMargin l), or_zero (topPadding l) + or_zero (bottomPadding l), the (height_of (lprops l PHeight))))"

definition child_top :: "child \<Rightarrow> lval" where
  "child_top c = (case c_layout c of None \<Rightarrow> LUndef | Some l \<Rightarrow> lprops l PTop)"

definition sized :: "child \<Rightarrow> bool" where
  "sized c \<longleftrightarrow> height_of (lprops (resolved c) PHeight) \<noteq> None"

lemma sized_not_fluid: "sized c \<Longrightarrow> \<not> is_fluid c"
  by (auto simp: sized_def is_fluid_def lval_isNone_def)

lemma updateLayout_simps [simp]:
  "c_layout (updateLayout c) = c_layout c" "c_ignore (updateLayout c) = c_ignore c"
  "c_visible (updateLayout c) = c_visible c" "c_get (updateLayout c) = c_get c"
  by (simp_all add: updateLayout_def Let_def)

lemma set_lprop_same: "lprops l p = v \<Longrightarrow> set_lprop p v l = l"
  by (auto simp: set_lprop_def)

lemma place_child_Some:
  "\<exists>c'. place_child (Some t) c = Inr c' \<and>
     c_layout c' = Some (set_lprop PTop (LNum (t + or_zero (topMargin (resolved c)))) (resolved c)) \<and>
     c_ignore c' = c_ignore c \<and> c_visible c' = c_visible c \<and> c_get c' = c_get c"
  by (simp add: place_child_def adjustLayout_def num_def add_num_def lval_differs_def set_lprop_same)

lemma after_child_Some:
  "sized c \<Longrightarrow> after_child (Some t) c = (case child_dims c of (g, p, h) \<Rightarrow> Some (t + g + p + h))"
  by (auto simp: after_child_def child_dims_def sized_def add_num_def add_height_def lval_isNone_def Let_def)

lemma stack_from_spec:
  assumes "list_all sized (filter affected cs)"
  shows "\<exists>cs' tp'. stack_from m n i (Some tp) fluid cs = (cs', Inr (Some tp', fluid)) \<and>
     map affected cs' = map affected cs \<and>
     map child_top (filter affected cs') =
       map LNum (tops (m_spacing m) (if 0 < i then tp + m_spacing m else tp) (map child_dims (filter affected cs))) \<and>
     filter (\<lambda>c. \<not> affected c) cs' = filter (\<lambda>c. \<not> affected c) cs \<and>
     tp' = (if filter affected cs = [] then tp
            else (if 0 < i then tp + m_spacing m else tp) + extent (m_spacing m) (map child_dims (filter affected cs)))"
  using assms
proof (induction cs arbitrary: i tp)
  case Nil
  then show ?case by simp
next
  case (Cons c cs)
  show ?case
  proof (cases "affected c")
    case False
    with Cons.IH [of i tp] Cons.prems show ?thesis by auto
  next
    case True
    let ?t = "if 0 < i then tp + m_spacing m else tp"
    obtain g p h where d: "child_dims c = (g, p, h)" by (metis prod_cases3)
    have sz: "sized c" "list_all sized (filter affected cs)" using Cons.prems True by auto
    obtain c' where c': "place_child (Some ?t) c = Inr c'" "child_top c' = LNum (?t + g)" "affected c'"
      using place_child_Some [of ?t c] True d
      by (auto simp: child_top_def affected_def child_dims_def set_lprop_def Let_def)
    have tp1: "(if 0 < i then add_num (Some tp) (m_spacing m) else Some tp) = Some ?t" by (simp add: add_num_def)
    have aft: "after_child (Some ?t) c = Some (?t + g + p + h)" using after_child_Some [OF sz(1)] d by simp
    from Cons.IH [of "Suc i" "?t + g + p + h"] sz(2) obtain cs' tp' where
      r: "stack_from m n (Suc i) (Some (?t + g + p + h)) fluid cs = (cs', Inr (Some tp', fluid))"
        "map affected cs' = map affected cs"
        "map child_top (filter affected cs') =
           map LNum (tops (m_spacing m) (?t + g + p + h + m_spacing m) (map child_dims (filter affected cs)))"
        "filter (\<lambda>c. \<not> affected c) cs' = filter (\<lambda>c. \<not> affected c) cs"
        "tp' = (if filter affected cs = [] then ?t + g + p + h
            else ?t + g + p + h + m_spacing m + extent (m_spacing m) (map child_dims (filter affected cs)))"
      by auto
    have step: "stack_from m n i (Some tp) fluid (c # cs) = (c' # cs', Inr (Some tp', fluid))"
      using True c'(1) sized_not_fluid [OF sz(1)] r(1) aft by (simp add: tp1 Let_def)
    have "tp' = ?t + extent (m_spacing m) (map child_dims (filter affected (c # cs)))"
      using r(5) True d by (auto simp: extent_def algebra_simps)
    with step r True c'(2,3) d show ?thesis by auto
  qed
qed

section \<open>Stacking again\<close>

lemma resolved_done: "bindingsResolved (resolved c)"
  by (simp add: resolved_def resolveLayoutBindings_def)

lemma resolved_again: "c_layout c = Some l \<Longrightarrow> bindingsResolved l \<Longrightarrow> resolved c = l"
  by (simp add: resolved_def resolveLayoutBindings_def)

lemma place_child_again:
  assumes "place_child (Some t) c = Inr c'" and "affected c"
  shows "place_child (Some t) c' = Inr c'" "child_dims c' = child_dims c" "sized c' = sized c" "affected c'"
proof -
  let ?l = "set_lprop PTop (LNum (t + or_zero (topMargin (resolved c)))) (resolved c)"
  obtain c'' where "place_child (Some t) c = Inr c''" "c_layout c'' = Some ?l"
    "c_ignore c'' = c_ignore c" "c_visible c'' = c_visible c"
    using place_child_Some [of t c] by auto
  with assms have l: "c_layout c' = Some ?l" "affected c'" by (auto simp: affected_def)
  have r: "resolved c' = ?l" using l(1) by (rule resolved_again) (simp add: set_lprop_def resolved_done)
  have same: "c'\<lparr>c_layout := Some ?l\<rparr> = c'" using l(1) by simp
  show "place_child (Some t) c' = Inr c'"
    unfolding place_child_def r same
    by (simp add: adjustLayout_def l(1) num_def add_num_def lval_differs_def set_lprop_def)
  show "child_dims c' = child_dims c" "sized c' = sized c"
    by (simp_all add: child_dims_def sized_def r set_lprop_def Let_def)
  show "affected c'" by (rule l(2))
qed

lemma stack_from_again:
  assumes "list_all sized (filter affected cs)" and "stack_from m n i (Some tp) fluid cs = (cs', Inr (Some tp', fluid))"
  shows "stack_from m n i (Some tp) fluid cs' = (cs', Inr (Some tp', fluid))"
  using assms
proof (induction cs arbitrary: i tp cs')
  case Nil
  then show ?case by simp
next
  case (Cons c cs)
  show ?case
  proof (cases "affected c")
    case False
    then obtain ds where "cs' = c # ds" "stack_from m n i (Some tp) fluid cs = (ds, Inr (Some tp', fluid))"
      using Cons.prems(2) by (auto split: prod.splits)
    with False Cons.IH [of i tp ds] Cons.prems(1) show ?thesis by simp
  next
    case True
    let ?t = "if 0 < i then tp + m_spacing m else tp"
    have tp1: "(if 0 < i then add_num (Some tp) (m_spacing m) else Some tp) = Some ?t" by (simp add: add_num_def)
    have sz: "sized c" "list_all sized (filter affected cs)" using Cons.prems(1) True by auto
    obtain c' where c': "place_child (Some ?t) c = Inr c'" using place_child_Some [of ?t c] by auto
    obtain t' where t': "after_child (Some ?t) c = Some t'"
      using after_child_Some [OF sz(1)] by (cases "child_dims c") auto
    obtain ds where ds: "cs' = c' # ds" "stack_from m n (Suc i) (Some t') fluid cs = (ds, Inr (Some tp', fluid))"
      using Cons.prems(2) True c' t' sized_not_fluid [OF sz(1)] by (auto simp: tp1 Let_def split: prod.splits)
    note again = place_child_again [OF c' True]
    have "after_child (Some ?t) c' = Some t'"
      using after_child_Some [of c'] after_child_Some [OF sz(1)] again(2,3) sz(1) t' by simp
    with ds again Cons.IH [OF sz(2) ds(2)] sized_not_fluid [of c'] sz(1) show ?thesis
      by (simp add: tp1 Let_def)
  qed
qed

lemma tops_step:
  "Suc k < length ds \<Longrightarrow> tops sp t ds ! Suc k =
     tops sp t ds ! k + fst (snd (ds ! k)) + snd (snd (ds ! k)) + sp + fst (ds ! Suc k)"
proof (induction ds arbitrary: t k)
  case Nil
  then show ?case by simp
next
  case (Cons d ds)
  obtain g p h where d: "d = (g, p, h)" by (metis prod_cases3)
  show ?case
  proof (cases k)
    case 0
    with Cons.prems obtain g' p' h' es where "ds = (g', p', h') # es" by (cases ds) auto
    with 0 d show ?thesis by simp
  next
    case (Suc j)
    with Cons.IH [of j] Cons.prems d show ?thesis by simp
  qed
qed

lemma length_tops [simp]: "length (tops sp t ds) = length ds"
  by (induction sp t ds rule: tops.induct) simp_all

text \<open>The height the manager gives to the parent.\<close>

definition stack_height :: "stack_manager \<Rightarrow> lval \<Rightarrow> (int \<times> int \<times> int) list \<Rightarrow> int" where
  "stack_height m mx ds =
     (let t = m_topMargin m + (if ds = [] then 0 else extent (m_spacing m) ds) + m_bottomMargin m
      in case mx of LNum b \<Rightarrow> min b t | _ \<Rightarrow> t)"

lemma setup_stack:
  assumes "list_all sized (filter affected (s_children s))" and "c_layout (s_view s) = Some l"
    and "lprops l PMaxHeight = LUndef \<or> lprops l PMaxHeight = LNum b"
  shows "\<exists>cs v. setupLayout m s = (s\<lparr>s_children := cs, s_view := v\<rparr>, None) \<and>
     (\<exists>tp. stack_from m (length (filter affected (s_children s))) 0 (Some (m_topMargin m)) False (s_children s)
        = (cs, Inr (Some tp, False))) \<and>
     map affected cs = map affected (s_children s) \<and>
     map child_top (filter affected cs) = map LNum (tops (m_spacing m) (m_topMargin m) (map child_dims (filter affected (s_children s)))) \<and>
     filter (\<lambda>c. \<not> affected c) cs = filter (\<lambda>c. \<not> affected c) (s_children s) \<and>
     c_layout v = Some (set_lprop PHeight (LNum (stack_height m (lprops l PMaxHeight) (map child_dims (filter affected (s_children s))))) l)"
proof -
  let ?ds = "map child_dims (filter affected (s_children s))"
  let ?h = "LNum (stack_height m (lprops l PMaxHeight) ?ds)"
  obtain cs tp where r: "stack_from m (length (filter affected (s_children s))) 0 (Some (m_topMargin m)) False (s_children s)
        = (cs, Inr (Some tp, False))" "map affected cs = map affected (s_children s)"
      "map child_top (filter affected cs) = map LNum (tops (m_spacing m) (m_topMargin m) ?ds)"
      "filter (\<lambda>c. \<not> affected c) cs = filter (\<lambda>c. \<not> affected c) (s_children s)"
      "tp = (if ?ds = [] then m_topMargin m else m_topMargin m + extent (m_spacing m) ?ds)"
    using stack_from_spec [OF assms(1), of m "length (filter affected (s_children s))" 0 "m_topMargin m" False] by auto
  have h: "cap (add_num (Some tp) (m_bottomMargin m)) (lprops l PMaxHeight) = ?h"
    using assms(3) r(5) by (auto simp: cap_def add_num_def stack_height_def Let_def)
  obtain v where v: "adjustLayout PHeight ?h None (s_view s) = Inr v" "c_layout v = Some (set_lprop PHeight ?h l)"
    using assms(2) by (auto simp: adjustLayout_def lval_differs_def set_lprop_same)
  have "setupLayout m s = (s\<lparr>s_children := cs, s_view := v\<rparr>, None)"
    using r(1) h v(1) assms(2) by (simp add: setupLayout_def getAffectedChildViews_def Let_def)
  then show ?thesis using r v(2) by blast
qed

lemma same_affected:
  "map affected cs = map affected ds \<Longrightarrow> length (filter affected cs) = length (filter affected ds)"
proof (induction cs arbitrary: ds)
  case Nil
  then show ?case by simp
next
  case (Cons c cs)
  then obtain d es where "ds = d # es" by (cases ds) auto
  with Cons show ?case by simp
qed

section \<open>Properties\<close>


definition box_layout :: "int \<Rightarrow> layout" where
  "box_layout h = empty_layout\<lparr>lprops := (\<lambda>_. LUndef)(PHeight := LNum h)\<rparr>"

definition box_child :: "int \<Rightarrow> child" where
  "box_child h = \<lparr>c_layout = Some (box_layout h), c_ignore = False, c_visible = None, c_get = (\<lambda>_. LUndef), c_css = None,
     c_absolute = True, c_notified = 0\<rparr>"

definition sample_stack :: stack where
  "sample_stack = \<lparr>s_view = box_child 0, s_manager = Some \<lparr>m_topMargin = 5, m_bottomMargin = 5, m_spacing = 10\<rparr>,
     s_children = [box_child 20, box_child 30], layoutChangeInProgress = False\<rparr>"

lemma sample_stack_ok:
  "s_manager sample_stack = Some \<lparr>m_topMargin = 5, m_bottomMargin = 5, m_spacing = 10\<rparr>"
  "\<not> layoutChangeInProgress sample_stack"
  "list_all sized (filter affected (s_children sample_stack))"
  "c_layout (s_view sample_stack) = Some (box_layout 0)"
  "lprops (box_layout 0) PMaxHeight = LUndef \<or> lprops (box_layout 0) PMaxHeight = LNum 0"
  "[(0, 0, 20), (0, 0, 30)] = map child_dims (filter affected (s_children sample_stack))"
  by (simp_all add: sample_stack_def box_child_def box_layout_def empty_layout_def affected_def sized_def resolved_def
      resolveLayoutBindings_def read_path_def child_dims_def or_zero_def)


text \<open>
  The layout settles: consulting the manager a second time changes nothing and notifies nobody.
\<close>

theorem stack_layout_settles:
  assumes "s_manager s = Some m" and "\<not> layoutChangeInProgress s"
    and "list_all sized (filter affected (s_children s))" and "c_layout (s_view s) = Some l"
    and "lprops l PMaxHeight = LUndef \<or> lprops l PMaxHeight = LNum b"
  shows "\<exists>s'. consultLayoutManager s = (s', None) \<and> consultLayoutManager s' = (s', None)"
proof -
  let ?s = "s\<lparr>layoutChangeInProgress := True\<rparr>" and ?n = "length (filter affected (s_children s))"
  let ?ds = "map child_dims (filter affected (s_children s))"
  let ?h = "LNum (stack_height m (lprops l PMaxHeight) ?ds)"
  obtain cs v tp where r: "setupLayout m ?s = (?s\<lparr>s_children := cs, s_view := v\<rparr>, None)"
      "stack_from m ?n 0 (Some (m_topMargin m)) False (s_children s) = (cs, Inr (Some tp, False))"
      "map affected cs = map affected (s_children s)" "c_layout v = Some (set_lprop PHeight ?h l)"
    using setup_stack [of ?s l b m] assms(3-5) by auto
  let ?s' = "s\<lparr>s_children := cs, s_view := v\<rparr>"
  have one: "consultLayoutManager s = (?s', None)"
    using assms(1,2) r(1) by (simp add: consultLayoutManager_def)
  have n: "length (filter affected cs) = ?n" using r(3) by (rule same_affected)
  have again: "stack_from m ?n 0 (Some (m_topMargin m)) False cs = (cs, Inr (Some tp, False))"
    by (rule stack_from_again [OF assms(3) r(2)])
  obtain tp' where "stack_from m ?n 0 (Some (m_topMargin m)) False (s_children s) = (cs, Inr (Some tp', False))"
      "tp' = (if ?ds = [] then m_topMargin m else m_topMargin m + extent (m_spacing m) ?ds)"
    using stack_from_spec [OF assms(3), of m ?n 0 "m_topMargin m" False] r(2) by auto
  with r(2) have "tp = (if ?ds = [] then m_topMargin m else m_topMargin m + extent (m_spacing m) ?ds)" by simp
  then have "cap (add_num (Some tp) (m_bottomMargin m)) (lprops l PMaxHeight) = ?h"
    using assms(5) by (auto simp: cap_def add_num_def stack_height_def Let_def)
  moreover have "adjustLayout PHeight ?h None v = Inr v"
    by (simp add: adjustLayout_def r(4) lval_differs_def set_lprop_def)
  ultimately have "consultLayoutManager ?s' = (?s', None)"
    using assms(1,2) again n r(4)
    by (simp add: consultLayoutManager_def setupLayout_def getAffectedChildViews_def set_lprop_def Let_def)
  with one show ?thesis by blast
qed

theorem stack_layout_settles_witness:
  "\<exists>s'. consultLayoutManager sample_stack = (s', None) \<and> consultLayoutManager s' = (s', None)"
  using stack_layout_settles [OF sample_stack_ok(1-5)] .

text \<open>
  The guard against endless layout loops is not reset when the manager throws: after a failed
  assertion every further consultation of that view is ignored.
\<close>

theorem failed_layout_blocks_view:
  assumes "consultLayoutManager s = (s', Some e)"
  shows "consultLayoutManager s' = (s', None)"
proof -
  obtain m where m: "s_manager s = Some m" "\<not> layoutChangeInProgress s"
      "setupLayout m (s\<lparr>layoutChangeInProgress := True\<rparr>) = (s', Some e)"
    using assms by (auto simp: consultLayoutManager_def split: option.splits if_splits prod.splits)
  have "layoutChangeInProgress s'"
    using m(3) by (auto simp: setupLayout_def Let_def split: prod.splits sum.splits if_splits)
  then show ?thesis by (simp add: consultLayoutManager_def split: option.splits)
qed

theorem failed_layout_blocks_view_witness:
  "\<exists>s' e. consultLayoutManager (sample_stack\<lparr>s_children := [(box_child 0)\<lparr>c_layout := Some empty_layout\<rparr>, box_child 9]\<rparr>)
      = (s', Some e) \<and> consultLayoutManager s' = (s', None)"
proof -
  let ?c = "(box_child 0)\<lparr>c_layout := Some empty_layout\<rparr>"
  let ?s = "sample_stack\<lparr>s_children := [?c, box_child 9]\<rparr>"
  let ?m = "\<lparr>m_topMargin = 5, m_bottomMargin = 5, m_spacing = 10\<rparr>"
  have c: "affected ?c" "affected (box_child 9)" "is_fluid ?c"
    by (simp_all add: affected_def box_child_def is_fluid_def resolved_def resolveLayoutBindings_def read_path_def
        empty_layout_def lval_isNone_def)
  obtain c' where "place_child (Some 5) ?c = Inr c'" using place_child_Some [of 5 ?c] by auto
  then obtain cs e where "stack_from ?m 2 0 (Some 5) False [?c, box_child 9] = (cs, Inl e)"
    using c by (simp add: Let_def)
  then obtain s' where err: "setupLayout ?m (?s\<lparr>layoutChangeInProgress := True\<rparr>) = (s', Some e)"
    using c by (simp add: setupLayout_def getAffectedChildViews_def Let_def numeral_2_eq_2)
  have "s_manager ?s = Some ?m" "\<not> layoutChangeInProgress ?s" by (simp_all add: sample_stack_def)
  with err have "consultLayoutManager ?s = (s', Some e)" unfolding consultLayoutManager_def by simp
  with failed_layout_blocks_view [OF this] show ?thesis by blast
qed

text \<open>
  A size in pixels is written to the style so that it reads back as the same number.
\<close>

theorem css_size_roundtrip:
  assumes "lprops l PWidth = LNum n"
  shows "\<exists>t. translateLayout l CWidth = LStr t \<and> height_of (LStr t) = Some n \<and> (CWidth, LStr t) \<in> set (css_styles l)"
proof -
  let ?t = "int_text n @ ''px''"
  have t: "translateLayout l CWidth = LStr ?t" using assms by (simp add: translateLayout_def raw_css_def with_px_def)
  have "(CWidth, translateLayout l CWidth) \<in> set (map (\<lambda>p. (p, translateLayout l p)) cssProperties)"
    by (simp add: cssProperties_def)
  moreover have "\<not> lval_isNone (LStr ?t)" by (simp add: lval_isNone_def)
  ultimately have "(CWidth, LStr ?t) \<in> set (css_styles l)" unfolding css_styles_def t by auto
  moreover have "height_of (LStr ?t) = Some n" by (simp only: height_of.simps parse_int_px)
  ultimately show ?thesis using t by blast
qed

theorem css_size_roundtrip_witness:
  "\<exists>t. translateLayout (set_lprop PWidth (LNum (-40)) empty_layout) CWidth = LStr t \<and> height_of (LStr t) = Some (-40)"
  using css_size_roundtrip [of "set_lprop PWidth (LNum (-40)) empty_layout" "-40"] by (auto simp: set_lprop_def)

end
