(* ===== verification/Lazy_List.thy ===== *)
theory Lazy_List
  imports Flame_Prelude
begin

text \<open>
  The lazy list view (\<open>views/lazy_list_view.js\<close>): a list that renders only the rows in the visible
  part of its scroll view and recycles the item views that scroll out of it.

  Items are numbers with a class; an item view is known by its position among the child views, to
  which views are only ever appended.  The operations are written over the rows the view displays
  (\<open>rows\<close>), so that the tree view, which computes its rows from the expanded items, uses the same
  ones.  The buffer size is even (the default is 10): an odd one makes the row numbers fractional.
\<close>

section \<open>State\<close>

type_synonym item = nat

record item_view =
  iv_content :: item
  contentIndex :: "int option"
  iv_isSelected :: bool
  iv_isVisible :: bool
  isDragged :: bool

record lazy_list =
  rows :: "item list"
  views :: "item_view list"
  recycled :: "nat \<Rightarrow> nat list"
  itemHeight :: nat
  halfBuffer :: int
  lastScrollHeight :: "nat option"
  lastScrollTop :: "int option"
  hasElement :: bool
  offsetFromParent :: int
  selection :: "item option"
  allowSelection :: bool
  ll_suppress :: bool
  ll_height :: "nat option"

section \<open>Which rows to render\<close>

text \<open>
  \<open>~~(x / itemHeight)\<close> truncates; an undefined scroll position is \<open>NaN\<close>, which becomes 0.
\<close>

definition scroll_row :: "nat \<Rightarrow> int option \<Rightarrow> int" where
  "scroll_row h x = (case x of None \<Rightarrow> 0 | Some y \<Rightarrow> max 0 y div int h)"

definition rowsToRenderRange :: "lazy_list \<Rightarrow> nat option \<Rightarrow> int option \<Rightarrow> int \<times> int" where
  "rowsToRenderRange l scrollHeight scrollTop =
     (if \<not> hasElement l then (0, -1)
      else (let topRow = scroll_row (itemHeight l) (map_option (\<lambda>t. t - offsetFromParent l) scrollTop);
                desired = scroll_row (itemHeight l) (map_option int scrollHeight) + 2 * halfBuffer l;
                start = topRow - halfBuffer l;
                last = min (int (length (rows l)) - 1) (start + desired)
            in (max 0 (last - desired), last)))"

section \<open>Recycling views\<close>

definition set_view :: "nat \<Rightarrow> (item_view \<Rightarrow> item_view) \<Rightarrow> lazy_list \<Rightarrow> lazy_list" where
  "set_view k f l = (if k < length (views l) then l\<lparr>views := (views l)[k := f (views l ! k)]\<rparr> else l)"

definition recycleView :: "(item \<Rightarrow> nat) \<Rightarrow> nat \<Rightarrow> lazy_list \<Rightarrow> lazy_list" where
  "recycleView cls k l =
     (let c = cls (iv_content (views l ! k));
          l1 = set_view k (\<lambda>v. v\<lparr>contentIndex := None, iv_isSelected := False\<rparr>) l
      in l1\<lparr>recycled := (recycled l1)(c := recycled l1 c @ [k])\<rparr>)"

text \<open>\<open>viewForRow\<close>: the row of an item that does not exist has no class: a \<open>TypeError\<close>.\<close>

definition show_in :: "item \<Rightarrow> int \<Rightarrow> item option \<Rightarrow> item_view \<Rightarrow> item_view" where
  "show_in x row sel v = v\<lparr>iv_content := x, contentIndex := Some row, iv_isSelected := (Some x = sel), iv_isVisible := True\<rparr>"

definition viewForRow :: "(item \<Rightarrow> nat) \<Rightarrow> int \<Rightarrow> lazy_list \<Rightarrow> lazy_list result" where
  "viewForRow cls row l = (case objectAt_int (rows l) row of
       None \<Rightarrow> Inl TypeError
     | Some x \<Rightarrow>
        (let free = recycled l (cls x) in
         if free = []
         then Inr (l\<lparr>views := views l @ [show_in x row (selection l)
                \<lparr>iv_content = x, contentIndex = None, iv_isSelected = False, iv_isVisible = True, isDragged = False\<rparr>]\<rparr>)
         else Inr (set_view (last free) (show_in x row (selection l))
                (l\<lparr>recycled := (recycled l)(cls x := butlast free)\<rparr>))))"

fun views_for_rows :: "(item \<Rightarrow> nat) \<Rightarrow> int list \<Rightarrow> lazy_list \<Rightarrow> lazy_list result" where
  "views_for_rows cls [] l = Inr l"
| "views_for_rows cls (r # rs) l = rbind (viewForRow cls r l) (views_for_rows cls rs)"

text \<open>
  \<open>_hideRecycledViews\<close>: a recycled view waits in the list of the class of its content.
\<close>

definition hideRecycledViews :: "(item \<Rightarrow> nat) \<Rightarrow> lazy_list \<Rightarrow> lazy_list" where
  "hideRecycledViews cls l = l\<lparr>views := map (\<lambda>(k, v).
       if k \<in> set (recycled l (cls (iv_content v))) then v\<lparr>iv_isVisible := False\<rparr> else v) (enumerate 0 (views l))\<rparr>"

section \<open>Scrolling\<close>

text \<open>
  The loop over the child views: those out of rng are recycled unless they are dragged, the
  others narrow the gaps that remain.
\<close>

definition scroll_step :: "(item \<Rightarrow> nat) \<Rightarrow> int \<times> int \<Rightarrow> nat \<Rightarrow> lazy_list \<times> int \<times> int \<Rightarrow> lazy_list \<times> int \<times> int" where
  "scroll_step cls rng k s = (case s of (l, mn, mx) \<Rightarrow>
     (case contentIndex (views l ! k) of
        None \<Rightarrow> (l, mn, mx)
      | Some i \<Rightarrow>
         (if i < fst rng \<or> i > snd rng
          then (if isDragged (views l ! k) then (l, mn, mx) else (recycleView cls k l, mn, mx))
          else (l, min mn i, max mx i))))"

definition rows_down :: "int \<Rightarrow> int \<Rightarrow> int list" where
  "rows_down from until = rev [until + 1..from]"

definition didScroll :: "(item \<Rightarrow> nat) \<Rightarrow> nat option \<Rightarrow> int option \<Rightarrow> lazy_list \<Rightarrow> lazy_list result" where
  "didScroll cls scrollHeight scrollTop l =
     (let l0 = l\<lparr>lastScrollHeight := scrollHeight, lastScrollTop := scrollTop\<rparr>;
          rng = rowsToRenderRange l0 scrollHeight scrollTop;
          (l1, mn, mx) = fold (scroll_step cls rng) [0..<length (views l0)] (l0, snd rng, fst rng);
          mn1 = (if mn = snd rng then mn + 1 else mn)
      in rbind (views_for_rows cls [fst rng..mn1 - 1] l1) (\<lambda>l2.
         rbind (if mx \<noteq> fst rng then views_for_rows cls (rows_down (snd rng) mx) l2 else Inr l2) (\<lambda>l3.
         Inr (hideRecycledViews cls l3))))"

definition updateHeight :: "lazy_list \<Rightarrow> lazy_list" where
  "updateHeight l = l\<lparr>ll_height := Some (length (rows l) * itemHeight l)\<rparr>"

definition recycle_shown :: "(item \<Rightarrow> nat) \<Rightarrow> lazy_list \<Rightarrow> lazy_list" where
  "recycle_shown cls l =
     fold (\<lambda>k l. if contentIndex (views l ! k) \<noteq> None then recycleView cls k l else l) [0..<length (views l)] l"

text \<open>\<open>fullRerender\<close>; the height is updated in the same run loop.\<close>

definition fullRerender :: "(item \<Rightarrow> nat) \<Rightarrow> lazy_list \<Rightarrow> lazy_list result" where
  "fullRerender cls l =
     (let l1 = updateHeight (recycle_shown cls l)
      in didScroll cls (lastScrollHeight l1) (lastScrollTop l1) l1)"

definition arrayDidChange :: "(item \<Rightarrow> nat) \<Rightarrow> item list \<Rightarrow> lazy_list \<Rightarrow> lazy_list result" where
  "arrayDidChange cls content l =
     (let l1 = l\<lparr>rows := content\<rparr> in if ll_suppress l1 then Inr l1 else fullRerender cls l1)"

definition updateScrollPosition :: "(item \<Rightarrow> nat) \<Rightarrow> (nat \<times> int) option \<Rightarrow> lazy_list \<Rightarrow> lazy_list result" where
  "updateScrollPosition cls scroller l = (case scroller of
       None \<Rightarrow> Inr l | Some (h, t) \<Rightarrow> didScroll cls (Some h) (Some t) l)"

definition willDestroyElement :: "(item \<Rightarrow> nat) \<Rightarrow> lazy_list \<Rightarrow> lazy_list" where
  "willDestroyElement cls l = recycle_shown cls l"

section \<open>Selection\<close>

definition itemForRow :: "lazy_list \<Rightarrow> int \<Rightarrow> item option" where
  "itemForRow l row = objectAt_int (rows l) row"

definition rowForItem :: "lazy_list \<Rightarrow> item \<Rightarrow> int option" where
  "rowForItem l x = map_option int (indexOf (rows l) x)"

definition childViewForIndex :: "lazy_list \<Rightarrow> int option \<Rightarrow> nat option" where
  "childViewForIndex l i = (case filter (\<lambda>k. contentIndex (views l ! k) = i) [0..<length (views l)] of
       [] \<Rightarrow> None | k # ks \<Rightarrow> Some k)"

definition setIsSelectedStatus :: "item option \<Rightarrow> bool \<Rightarrow> lazy_list \<Rightarrow> lazy_list" where
  "setIsSelectedStatus x status l = (case x of
       None \<Rightarrow> l
     | Some y \<Rightarrow> (case rowForItem l y of
         None \<Rightarrow> l
       | Some r \<Rightarrow> (case childViewForIndex l (Some r) of
           None \<Rightarrow> l | Some k \<Rightarrow> set_view k (\<lambda>v. v\<lparr>iv_isSelected := status\<rparr>) l)))"

text \<open>
  \<open>selectIndex\<close> sets the selection; the observers of the list view (before and after the change)
  then move the mark.
\<close>

definition set_selection :: "item option \<Rightarrow> lazy_list \<Rightarrow> lazy_list" where
  "set_selection x l =
     (if selection l = x then l
      else setIsSelectedStatus x True ((setIsSelectedStatus (selection l) False l)\<lparr>selection := x\<rparr>))"

definition selectIndex :: "int \<Rightarrow> lazy_list \<Rightarrow> bool \<times> lazy_list" where
  "selectIndex i l = (if \<not> allowSelection l then (False, l) else (True, set_selection (itemForRow l i) l))"

text \<open>\<open>changeSelection\<close>: an item that is not in the list counts as row 0 (\<open>null + direction\<close>);
  the direction is 1 or -1, with 0 the loop of the source would not end.\<close>

function change_from :: "int \<Rightarrow> int \<Rightarrow> lazy_list \<Rightarrow> bool \<times> lazy_list" where
  "change_from direction i l =
     (if 0 \<le> i \<and> i < int (length (rows l))
      then (let (done, l1) = selectIndex i l in
            if done then (True, l1)
            else if direction = 0 then (False, l) else change_from direction (i + direction) l)
      else (False, l))"
  by pat_completeness auto
termination
  by (relation "measure (\<lambda>(d, i, l). nat (if 0 < d then int (length (rows l)) - i else i + 1))") auto

declare change_from.simps [simp del]

definition changeSelection :: "int \<Rightarrow> lazy_list \<Rightarrow> bool \<times> lazy_list" where
  "changeSelection direction l =
     change_from direction
       ((case selection l of None \<Rightarrow> 0 | Some x \<Rightarrow> (case rowForItem l x of None \<Rightarrow> 0 | Some r \<Rightarrow> r)) + direction) l"

section \<open>Views and the rows they show\<close>

text \<open>\<open>shows_row l k\<close> is the row that view \<open>k\<close> shows, if it shows one.\<close>

definition shows_row :: "lazy_list \<Rightarrow> nat \<rightharpoonup> int" where
  "shows_row l k = (if k < length (views l) then contentIndex (views l ! k) else None)"

text \<open>
  The invariant: a view either shows a row or waits, visible or not, in the list of the class of
  its content, once; the views that show a row are visible and have the item of that row.
\<close>

definition lazy_ok :: "(item \<Rightarrow> nat) \<Rightarrow> lazy_list \<Rightarrow> bool" where
  "lazy_ok cls l \<longleftrightarrow>
     (\<forall>c. distinct (recycled l c)) \<and>
     (\<forall>c k. k \<in> set (recycled l c) \<longleftrightarrow>
        k < length (views l) \<and> contentIndex (views l ! k) = None \<and> cls (iv_content (views l ! k)) = c) \<and>
     (\<forall>k i. shows_row l k = Some i \<longrightarrow> iv_isVisible (views l ! k))"

definition right_items :: "lazy_list \<Rightarrow> bool" where
  "right_items l \<longleftrightarrow> (\<forall>k i. shows_row l k = Some i \<longrightarrow> objectAt_int (rows l) i = Some (iv_content (views l ! k)))"

definition frame_of :: "lazy_list \<Rightarrow> lazy_list" where
  "frame_of l = l\<lparr>views := [], recycled := (\<lambda>_. [])\<rparr>"

lemma frame_fields:
  assumes "frame_of l = frame_of l'"
  shows "rows l = rows l'" "hasElement l = hasElement l'" "itemHeight l = itemHeight l'" "halfBuffer l = halfBuffer l'"
    "lastScrollHeight l = lastScrollHeight l'" "lastScrollTop l = lastScrollTop l'" "offsetFromParent l = offsetFromParent l'"
  using arg_cong [OF assms, of rows] arg_cong [OF assms, of hasElement] arg_cong [OF assms, of itemHeight]
    arg_cong [OF assms, of halfBuffer] arg_cong [OF assms, of lastScrollHeight] arg_cong [OF assms, of lastScrollTop]
    arg_cong [OF assms, of offsetFromParent]
  by (simp_all add: frame_of_def)

lemmas frame_rows = frame_fields(1)

lemma frame_of_updates [simp]:
  "frame_of (l\<lparr>views := vs\<rparr>) = frame_of l" "frame_of (l\<lparr>recycled := r\<rparr>) = frame_of l"
  "frame_of (set_view k f l) = frame_of l"
  by (simp_all add: frame_of_def set_view_def)

lemma viewForRow_shows:
  assumes "lazy_ok cls l" and "objectAt_int (rows l) row = Some x"
  shows "\<exists>l' k. viewForRow cls row l = Inr l' \<and> lazy_ok cls l' \<and> shows_row l k = None \<and>
    shows_row l' = (shows_row l)(k \<mapsto> row) \<and> frame_of l' = frame_of l \<and> (right_items l \<longrightarrow> right_items l')"
proof (cases "recycled l (cls x)" rule: rev_cases)
  case Nil
  let ?v = "show_in x row (selection l)
      \<lparr>iv_content = x, contentIndex = None, iv_isSelected = False, iv_isVisible = True, isDragged = False\<rparr>"
  let ?l = "l\<lparr>views := views l @ [?v]\<rparr>"
  have "viewForRow cls row l = Inr ?l" using assms(2) Nil by (simp add: viewForRow_def)
  moreover have sh: "shows_row ?l = (shows_row l)(length (views l) \<mapsto> row)"
    by (auto simp: shows_row_def nth_append show_in_def fun_eq_iff)
  moreover have "lazy_ok cls ?l"
    using assms(1) unfolding lazy_ok_def sh by (auto simp: nth_append show_in_def shows_row_def less_Suc_eq)
  moreover have "right_items ?l" if "right_items l"
    using that assms(2) unfolding right_items_def sh by (auto simp: nth_append show_in_def shows_row_def split: if_splits)
  ultimately show ?thesis by (intro exI [of _ ?l] exI [of _ "length (views l)"]) (simp add: shows_row_def)
next
  case (snoc ks k)
  let ?l0 = "l\<lparr>recycled := (recycled l)(cls x := ks)\<rparr>"
  let ?l = "set_view k (show_in x row (selection l)) ?l0"
  have ok: "\<And>c. distinct (recycled l c)"
    "\<And>c j. j \<in> set (recycled l c) \<longleftrightarrow> j < length (views l) \<and> contentIndex (views l ! j) = None \<and> cls (iv_content (views l ! j)) = c"
    "\<And>j i. shows_row l j = Some i \<Longrightarrow> iv_isVisible (views l ! j)"
    using assms(1) by (auto simp: lazy_ok_def)
  have k: "k < length (views l)" "contentIndex (views l ! k) = None" "cls (iv_content (views l ! k)) = cls x"
    using ok(2) [of k "cls x"] snoc by auto
  have ks: "k \<notin> set ks" "distinct ks" using ok(1) [of "cls x"] snoc by auto
  have step: "viewForRow cls row l = Inr ?l" using assms(2) snoc by (simp add: viewForRow_def Let_def)
  have len: "views ?l = (views l)[k := show_in x row (selection l) (views l ! k)]"
    using k(1) by (simp add: set_view_def)
  have sh: "shows_row ?l = (shows_row l)(k \<mapsto> row)"
    using k(1) by (auto simp: shows_row_def len nth_list_update show_in_def fun_eq_iff)
  have rec: "recycled ?l = (recycled l)(cls x := ks)" using k(1) by (simp add: set_view_def)
  have "lazy_ok cls ?l"
    unfolding lazy_ok_def
  proof (intro conjI allI impI)
    fix c show "distinct (recycled ?l c)" using ok(1) ks by (simp add: rec)
  next
    fix c j
    have "j \<in> set ks \<longleftrightarrow> j \<noteq> k \<and> j \<in> set (recycled l (cls x))" using snoc ks by auto
    then show "(j \<in> set (recycled ?l c)) \<longleftrightarrow>
        (j < length (views ?l) \<and> contentIndex (views ?l ! j) = None \<and> cls (iv_content (views ?l ! j)) = c)"
      using k ok(2) by (auto simp: rec len nth_list_update show_in_def)
  next
    fix j i assume "shows_row ?l j = Some i"
    then show "iv_isVisible (views ?l ! j)"
      using ok(3) [of j] k(1) unfolding sh by (auto simp: len nth_list_update show_in_def split: if_splits)
  qed
  moreover have "right_items ?l" if "right_items l"
    using that assms(2) k(1) unfolding right_items_def sh
    by (auto simp: len nth_list_update show_in_def set_view_def split: if_splits)
  ultimately show ?thesis using k step sh by (intro exI [of _ ?l] exI [of _ k]) (simp add: shows_row_def)
qed

text \<open>Every row that is shown is shown by one view.\<close>

definition once :: "lazy_list \<Rightarrow> bool" where
  "once l \<longleftrightarrow> inj_on (shows_row l) (dom (shows_row l))"

lemma views_for_rows_show:
  assumes "lazy_ok cls l" and "right_items l" and "once l"
    and "distinct rs" and "set rs \<inter> ran (shows_row l) = {}" and "\<forall>r \<in> set rs. 0 \<le> r \<and> r < int (length (rows l))"
  shows "\<exists>l'. views_for_rows cls rs l = Inr l' \<and> lazy_ok cls l' \<and> right_items l' \<and> once l' \<and>
    ran (shows_row l') = ran (shows_row l) \<union> set rs \<and> frame_of l' = frame_of l"
  using assms
proof (induction rs arbitrary: l)
  case Nil
  then show ?case by simp
next
  case (Cons r rs)
  have "objectAt_int (rows l) r = Some (rows l ! nat r)" using Cons.prems(6) by (simp add: objectAt_int_def nat_less_iff)
  from viewForRow_shows [OF Cons.prems(1) this] obtain l1 k where
    l1: "viewForRow cls r l = Inr l1" "lazy_ok cls l1" "shows_row l k = None" "shows_row l1 = (shows_row l)(k \<mapsto> r)"
      "frame_of l1 = frame_of l" "right_items l1"
    using Cons.prems(2) by blast
  have ran: "ran (shows_row l1) = insert r (ran (shows_row l))" using l1(3,4) by simp
  have "r \<notin> ran (shows_row l)" using Cons.prems(5) by auto
  then have "once l1"
    using Cons.prems(3) l1(3) unfolding once_def l1(4) inj_on_def by (auto simp: dom_def ran_def)
  moreover have "set rs \<inter> ran (shows_row l1) = {}" using ran Cons.prems(4,5) by auto
  moreover have "rows l1 = rows l" using l1(5) by (rule frame_rows)
  ultimately obtain l' where "views_for_rows cls rs l1 = Inr l'" "lazy_ok cls l'" "right_items l'" "once l'"
      "ran (shows_row l') = ran (shows_row l1) \<union> set rs" "frame_of l' = frame_of l1"
    using Cons.IH [of l1] l1(2,6) Cons.prems(4,6) by auto
  with l1 ran show ?case by auto
qed

lemma recycleView_hides:
  assumes "lazy_ok cls l" and "shows_row l k = Some i"
  shows "lazy_ok cls (recycleView cls k l)" "shows_row (recycleView cls k l) = (shows_row l)(k := None)"
    "frame_of (recycleView cls k l) = frame_of l" "length (views (recycleView cls k l)) = length (views l)"
    "right_items l \<Longrightarrow> right_items (recycleView cls k l)"
    "isDragged (views (recycleView cls k l) ! j) = isDragged (views l ! j)"
proof -
  let ?c = "cls (iv_content (views l ! k))" and ?l = "recycleView cls k l"
  have k: "k < length (views l)" "contentIndex (views l ! k) = Some i"
    using assms(2) by (auto simp: shows_row_def split: if_splits)
  have vs: "views ?l = (views l)[k := (views l ! k)\<lparr>contentIndex := None, iv_isSelected := False\<rparr>]"
    and rec: "recycled ?l = (recycled l)(?c := recycled l ?c @ [k])"
    using k(1) by (simp_all add: recycleView_def set_view_def Let_def)
  show sh: "shows_row ?l = (shows_row l)(k := None)"
    using k(1) by (auto simp: shows_row_def vs nth_list_update fun_eq_iff)
  have ok: "\<And>c. distinct (recycled l c)"
    "\<And>c j. j \<in> set (recycled l c) \<longleftrightarrow> j < length (views l) \<and> contentIndex (views l ! j) = None \<and> cls (iv_content (views l ! j)) = c"
    "\<And>j i. shows_row l j = Some i \<Longrightarrow> iv_isVisible (views l ! j)"
    using assms(1) by (auto simp: lazy_ok_def)
  show "lazy_ok cls ?l"
    unfolding lazy_ok_def
  proof (intro conjI allI impI)
    fix c show "distinct (recycled ?l c)" using ok(1,2) k(2) by (auto simp: rec)
  next
    fix c j
    show "(j \<in> set (recycled ?l c)) \<longleftrightarrow>
        (j < length (views ?l) \<and> contentIndex (views ?l ! j) = None \<and> cls (iv_content (views ?l ! j)) = c)"
      using k ok(2) by (auto simp: rec vs nth_list_update)
  next
    fix j i assume "shows_row ?l j = Some i"
    then show "iv_isVisible (views ?l ! j)"
      using ok(3) [of j] k(1) unfolding sh by (auto simp: vs nth_list_update split: if_splits)
  qed
  show "frame_of ?l = frame_of l" by (simp add: recycleView_def Let_def)
  then have "rows ?l = rows l" by (rule frame_rows)
  then show "right_items l \<Longrightarrow> right_items ?l"
    unfolding right_items_def sh by (auto simp: vs nth_list_update split: if_splits)
  show "length (views ?l) = length (views l)" by (simp add: vs)
  show "isDragged (views ?l ! j) = isDragged (views l ! j)"
    using k(1) by (cases "j = k") (simp_all add: vs)
qed

section \<open>Scrolling\<close>

definition in_range :: "int \<times> int \<Rightarrow> int \<Rightarrow> bool" where
  "in_range rng i \<longleftrightarrow> fst rng \<le> i \<and> i \<le> snd rng"

lemma scroll_fold:
  assumes "lazy_ok cls l" and "right_items l" and "\<forall>k < length (views l). \<not> isDragged (views l ! k)"
    and "set ks \<subseteq> {0..<length (views l)}"
  shows "\<exists>l' mn' mx'. fold (scroll_step cls rng) ks (l, mn, mx) = (l', mn', mx') \<and>
    lazy_ok cls l' \<and> right_items l' \<and> frame_of l' = frame_of l \<and>
    shows_row l' = (\<lambda>k. if k \<in> set ks \<and> \<not> in_range rng (the (shows_row l k)) then None else shows_row l k) \<and>
    mn' \<le> mn \<and> mx \<le> mx' \<and> (\<forall>k \<in> set ks. \<forall>i. shows_row l k = Some i \<and> in_range rng i \<longrightarrow> mn' \<le> i \<and> i \<le> mx') \<and>
    (mn' = mn \<or> (\<exists>k. shows_row l k = Some mn' \<and> in_range rng mn')) \<and>
    (mx' = mx \<or> (\<exists>k. shows_row l k = Some mx' \<and> in_range rng mx'))"
  using assms
proof (induction ks arbitrary: l mn mx)
  case Nil
  then show ?case by simp
next
  case (Cons k ks)
  have k: "k < length (views l)" using Cons.prems(4) by simp
  have sub: "set ks \<subseteq> {0..<length (views l)}" using Cons.prems(4) by simp
  have idx: "contentIndex (views l ! k) = shows_row l k" using k by (simp add: shows_row_def)
  have nd: "\<not> isDragged (views l ! k)" using Cons.prems(3) k by blast
  consider (idle) "shows_row l k = None" | (out) i where "shows_row l k = Some i" "\<not> in_range rng i"
    | (inside) i where "shows_row l k = Some i" "in_range rng i"
    by (cases "shows_row l k") auto
  then show ?case
  proof cases
    case idle
    then have "scroll_step cls rng k (l, mn, mx) = (l, mn, mx)" by (simp add: scroll_step_def idx)
    with Cons.IH [OF Cons.prems(1-3) sub, of mn mx] idle show ?thesis
      by (clarsimp simp: fun_eq_iff)
  next
    case out
    let ?l = "recycleView cls k l"
    note hide = recycleView_hides [OF Cons.prems(1) out(1)]
    have step: "scroll_step cls rng k (l, mn, mx) = (?l, mn, mx)"
      using out nd by (auto simp: scroll_step_def idx in_range_def)
    have "\<forall>j < length (views ?l). \<not> isDragged (views ?l ! j)" using Cons.prems(3) hide(4,6) by simp
    with Cons.IH [of ?l mn mx] hide Cons.prems(2) sub obtain l' mn' mx' where
      r: "fold (scroll_step cls rng) ks (?l, mn, mx) = (l', mn', mx')"
        "lazy_ok cls l'" "right_items l'" "frame_of l' = frame_of l"
        "shows_row l' = (\<lambda>j. if j \<in> set ks \<and> \<not> in_range rng (the (shows_row ?l j)) then None else shows_row ?l j)"
        "mn' \<le> mn" "mx \<le> mx'" "\<forall>j \<in> set ks. \<forall>i. shows_row ?l j = Some i \<and> in_range rng i \<longrightarrow> mn' \<le> i \<and> i \<le> mx'"
        "mn' = mn \<or> (\<exists>j. shows_row ?l j = Some mn' \<and> in_range rng mn')"
        "mx' = mx \<or> (\<exists>j. shows_row ?l j = Some mx' \<and> in_range rng mx')"
      by auto
    have sh: "shows_row l' = (\<lambda>j. if j \<in> set (k # ks) \<and> \<not> in_range rng (the (shows_row l j)) then None else shows_row l j)"
      unfolding r(5) hide(2) using out by (auto simp: fun_eq_iff)
    have "\<forall>j \<in> set (k # ks). \<forall>i. shows_row l j = Some i \<and> in_range rng i \<longrightarrow> mn' \<le> i \<and> i \<le> mx'"
      using r(8) out unfolding hide(2) by (auto split: if_splits)
    moreover have "mn' = mn \<or> (\<exists>j. shows_row l j = Some mn' \<and> in_range rng mn')"
      "mx' = mx \<or> (\<exists>j. shows_row l j = Some mx' \<and> in_range rng mx')"
      using r(9,10) unfolding hide(2) by (auto split: if_splits)
    ultimately show ?thesis using r step sh by (intro exI [of _ l'] exI [of _ mn'] exI [of _ mx']) simp
  next
    case inside
    have step: "scroll_step cls rng k (l, mn, mx) = (l, min mn i, max mx i)"
      using inside by (auto simp: scroll_step_def idx in_range_def)
    from Cons.IH [OF Cons.prems(1-3) sub, of "min mn i" "max mx i"] obtain l' mn' mx' where
      r: "fold (scroll_step cls rng) ks (l, min mn i, max mx i) = (l', mn', mx')"
        "lazy_ok cls l'" "right_items l'" "frame_of l' = frame_of l"
        "shows_row l' = (\<lambda>j. if j \<in> set ks \<and> \<not> in_range rng (the (shows_row l j)) then None else shows_row l j)"
        "mn' \<le> min mn i" "max mx i \<le> mx'" "\<forall>j \<in> set ks. \<forall>i. shows_row l j = Some i \<and> in_range rng i \<longrightarrow> mn' \<le> i \<and> i \<le> mx'"
        "mn' = min mn i \<or> (\<exists>j. shows_row l j = Some mn' \<and> in_range rng mn')"
        "mx' = max mx i \<or> (\<exists>j. shows_row l j = Some mx' \<and> in_range rng mx')"
      by blast
    have sh: "shows_row l' = (\<lambda>j. if j \<in> set (k # ks) \<and> \<not> in_range rng (the (shows_row l j)) then None else shows_row l j)"
      unfolding r(5) using inside by (auto simp: fun_eq_iff)
    have low: "mn' = mn \<or> (\<exists>j. shows_row l j = Some mn' \<and> in_range rng mn')"
    proof (cases "mn' = mn")
      case False
      with r(9) have "mn' = i \<or> (\<exists>j. shows_row l j = Some mn' \<and> in_range rng mn')" by (auto simp: min_def split: if_splits)
      with inside show ?thesis by blast
    qed simp
    have high: "mx' = mx \<or> (\<exists>j. shows_row l j = Some mx' \<and> in_range rng mx')"
    proof (cases "mx' = mx")
      case False
      with r(10) have "mx' = i \<or> (\<exists>j. shows_row l j = Some mx' \<and> in_range rng mx')" by (auto simp: max_def split: if_splits)
      with inside show ?thesis by blast
    qed simp
    have all: "\<forall>j \<in> set (k # ks). \<forall>i. shows_row l j = Some i \<and> in_range rng i \<longrightarrow> mn' \<le> i \<and> i \<le> mx'"
      using r(6-8) inside(1) by simp
    show ?thesis
      using r(1-4,6,7) sh step low high all by (intro exI [of _ l'] exI [of _ mn'] exI [of _ mx'] conjI) simp_all
  qed
qed

lemma hide_keeps [simp]:
  "shows_row (hideRecycledViews cls l) = shows_row l" "frame_of (hideRecycledViews cls l) = frame_of l"
  by (auto simp: shows_row_def hideRecycledViews_def nth_enumerate_eq fun_eq_iff frame_of_def)

lemma hide_right: "right_items l \<Longrightarrow> right_items (hideRecycledViews cls l)"
  unfolding right_items_def hide_keeps
  by (auto simp: hideRecycledViews_def nth_enumerate_eq shows_row_def split: if_splits)

lemma hide_ok: "lazy_ok cls l \<Longrightarrow> lazy_ok cls (hideRecycledViews cls l)"
  unfolding lazy_ok_def hide_keeps
  by (auto simp: hideRecycledViews_def nth_enumerate_eq shows_row_def split: if_splits)

lemma hide_visible:
  "lazy_ok cls l \<Longrightarrow> k < length (views l) \<Longrightarrow>
   iv_isVisible (views (hideRecycledViews cls l) ! k) \<longleftrightarrow> shows_row l k \<noteq> None"
  by (auto simp: hideRecycledViews_def nth_enumerate_eq lazy_ok_def shows_row_def)

text \<open>
  The rows of the range that are shown already: none, or a block that leaves at least the first
  or the last row of the range alone on its side, as \<open>didScroll\<close> assumes.
\<close>

definition fillable :: "int \<times> int \<Rightarrow> int set \<Rightarrow> bool" where
  "fillable rng R \<longleftrightarrow> {i \<in> R. in_range rng i} = {} \<or>
     (\<exists>a b. {i \<in> R. in_range rng i} = {a..b} \<and> a \<le> b \<and> a < snd rng \<and> fst rng < b)"

lemma range_valid:
  assumes "rowsToRenderRange l h t = rng" and "in_range rng i"
  shows "0 \<le> i" "i < int (length (rows l))"
  using assms by (auto simp: rowsToRenderRange_def in_range_def Let_def split: if_splits)

definition scrolled :: "nat option \<Rightarrow> int option \<Rightarrow> lazy_list \<Rightarrow> lazy_list" where
  "scrolled h t l = l\<lparr>lastScrollHeight := h, lastScrollTop := t\<rparr>"

lemma scrolled_shows [simp]: "shows_row (scrolled h t l) = shows_row l"
  by (rule ext) (simp add: scrolled_def shows_row_def)

lemma scrolled_simps [simp]:
  "views (scrolled h t l) = views l" "rows (scrolled h t l) = rows l"
  "lazy_ok cls (scrolled h t l) = lazy_ok cls l" "right_items (scrolled h t l) = right_items l"
  "once (scrolled h t l) = once l"
  by (simp_all add: lazy_ok_def right_items_def once_def) (simp_all add: scrolled_def)

lemma didScroll_fills:
  assumes "lazy_ok cls l" and "right_items l" and "once l" and "\<forall>k < length (views l). \<not> isDragged (views l ! k)"
    and "rng = rowsToRenderRange (scrolled h t l) h t" and "fillable rng (ran (shows_row l))"
  shows "\<exists>l'. didScroll cls h t l = Inr l' \<and> lazy_ok cls l' \<and> right_items l' \<and> once l' \<and>
    ran (shows_row l') = {fst rng..snd rng} \<and> frame_of l' = frame_of (scrolled h t l) \<and>
    (\<forall>k < length (views l'). iv_isVisible (views l' ! k) \<longleftrightarrow> shows_row l' k \<noteq> None)"
proof -
  let ?l = "scrolled h t l" and ?I = "{i \<in> ran (shows_row l). in_range rng i}"
  have pre: "lazy_ok cls ?l" "right_items ?l" "\<forall>k < length (views ?l). \<not> isDragged (views ?l ! k)"
      "set [0..<length (views l)] \<subseteq> {0..<length (views ?l)}"
    using assms(1,2,4) by simp_all
  obtain l1 mn mx where f: "fold (scroll_step cls rng) [0..<length (views l)] (?l, snd rng, fst rng) = (l1, mn, mx)"
      "lazy_ok cls l1" "right_items l1" "frame_of l1 = frame_of ?l"
      "shows_row l1 = (\<lambda>k. if k \<in> set [0..<length (views l)] \<and> \<not> in_range rng (the (shows_row l k)) then None else shows_row l k)"
      "mn \<le> snd rng" "fst rng \<le> mx"
      "\<forall>k \<in> set [0..<length (views l)]. \<forall>i. shows_row l k = Some i \<and> in_range rng i \<longrightarrow> mn \<le> i \<and> i \<le> mx"
      "mn = snd rng \<or> (\<exists>k. shows_row l k = Some mn \<and> in_range rng mn)"
      "mx = fst rng \<or> (\<exists>k. shows_row l k = Some mx \<and> in_range rng mx)"
    using scroll_fold [OF pre, of rng "snd rng" "fst rng"] unfolding scrolled_shows by blast
  have shown: "shows_row l k = Some i \<Longrightarrow> k \<in> set [0..<length (views l)]" for k i
    by (simp add: shows_row_def split: if_splits)
  have "shows_row l1 k = Some i \<longleftrightarrow> shows_row l k = Some i \<and> in_range rng i" for k i
    unfolding f(5) using shown [of k i] by (cases "shows_row l k") auto
  then have ran1: "ran (shows_row l1) = ?I" by (auto simp: ran_def)
  have once1: "once l1" using assms(3) unfolding once_def f(5) by (auto simp: inj_on_def dom_def split: if_splits)
  have bounds: "i \<in> ?I \<Longrightarrow> mn \<le> i \<and> i \<le> mx" for i using f(8) shown unfolding ran_def by blast
  have attained: "mn = snd rng \<or> mn \<in> ?I" "mx = fst rng \<or> mx \<in> ?I" using f(9,10) unfolding ran_def by auto
  have valid: "in_range rng i \<Longrightarrow> 0 \<le> i \<and> i < int (length (rows l1))" for i
    using range_valid [OF assms(5) [symmetric]] frame_rows [OF f(4)] by auto
  let ?up = "[fst rng..(if mn = snd rng then mn + 1 else mn) - 1]"
  let ?down = "if mx \<noteq> fst rng then rows_down (snd rng) mx else []"
  have gaps: "set ?up \<inter> ?I = {}" "set ?down \<inter> (?I \<union> set ?up) = {}" "distinct ?up" "distinct ?down"
      "?I \<union> set ?up \<union> set ?down = {fst rng..snd rng}"
  proof -
    have "set ?up \<inter> ?I = {} \<and> set ?down \<inter> (?I \<union> set ?up) = {} \<and> ?I \<union> set ?up \<union> set ?down = {fst rng..snd rng}"
    proof (cases "?I = {}")
      case True
      then have "mn = snd rng" "mx = fst rng" using attained by auto
      then show ?thesis unfolding True by (auto simp: in_range_def)
    next
      case False
      then obtain a b where ab: "?I = {a..b}" "a \<le> b" "a < snd rng" "fst rng < b"
        using assms(6) unfolding fillable_def by blast
      have mem: "a \<in> ?I" "b \<in> ?I" unfolding ab(1) using ab(2) by simp_all
      then have "fst rng \<le> a" "b \<le> snd rng" by (simp_all add: in_range_def)
      moreover have "mn = snd rng \<or> a \<le> mn" "mx = fst rng \<or> mx \<le> b" using attained unfolding ab(1) by auto
      then have "mn = a" "mx = b" using bounds [OF mem(1)] bounds [OF mem(2)] ab(3,4) by auto
      ultimately show ?thesis unfolding ab(1) using ab(2-4) by (auto simp: rows_down_def)
    qed
    then show "set ?up \<inter> ?I = {}" "set ?down \<inter> (?I \<union> set ?up) = {}" "?I \<union> set ?up \<union> set ?down = {fst rng..snd rng}"
      by blast+
    show "distinct ?up" "distinct ?down" by (simp_all add: rows_down_def)
  qed
  have in_rng: "in_range rng r" if "r \<in> set ?up \<union> set ?down" for r
  proof -
    have "r \<in> {fst rng..snd rng}" using that unfolding gaps(5) [symmetric] by blast
    then show ?thesis by (simp add: in_range_def)
  qed
  obtain l2 where l2: "views_for_rows cls ?up l1 = Inr l2" "lazy_ok cls l2" "right_items l2" "once l2"
      "ran (shows_row l2) = ?I \<union> set ?up" "frame_of l2 = frame_of l1"
    using views_for_rows_show [OF f(2,3) once1 gaps(3)] gaps(1) ran1 in_rng valid by auto
  have rows2: "rows l2 = rows l1" using l2(6) by (rule frame_rows)
  obtain l3 where l3: "views_for_rows cls ?down l2 = Inr l3" "lazy_ok cls l3" "right_items l3" "once l3"
      "ran (shows_row l3) = ?I \<union> set ?up \<union> set ?down" "frame_of l3 = frame_of l2"
    using views_for_rows_show [OF l2(2-4) gaps(4)] gaps(2) l2(5) rows2 in_rng valid by auto
  have "didScroll cls h t l = Inr (hideRecycledViews cls l3)"
    using f(1) l2(1) l3(1)
    by (simp add: didScroll_def Let_def scrolled_def [symmetric] assms(5) [symmetric] split: if_splits)
  moreover have "once (hideRecycledViews cls l3)" using l3(4) by (simp add: once_def)
  moreover have "length (views (hideRecycledViews cls l3)) = length (views l3)" by (simp add: hideRecycledViews_def)
  ultimately show ?thesis
    using l3 gaps(5) f(4) l2(6) hide_ok [OF l3(2)] hide_right [OF l3(3)] hide_visible [OF l3(2)]
    by (intro exI [of _ "hideRecycledViews cls l3"]) simp
qed

section \<open>Rendering everything again\<close>

lemma recycle_fold:
  assumes "lazy_ok cls l" and "\<forall>k < length (views l). \<not> isDragged (views l ! k)" and "set ks \<subseteq> {0..<length (views l)}"
  shows "\<exists>l'. fold (\<lambda>k l. if contentIndex (views l ! k) \<noteq> None then recycleView cls k l else l) ks l = l' \<and>
    lazy_ok cls l' \<and> frame_of l' = frame_of l \<and> shows_row l' = (\<lambda>k. if k \<in> set ks then None else shows_row l k) \<and>
    length (views l') = length (views l) \<and> (\<forall>k < length (views l'). \<not> isDragged (views l' ! k))"
  using assms
proof (induction ks arbitrary: l)
  case Nil
  then show ?case by simp
next
  case (Cons k ks)
  have k: "contentIndex (views l ! k) = shows_row l k" using Cons.prems(3) by (simp add: shows_row_def)
  show ?case
  proof (cases "shows_row l k")
    case None
    then have "(\<lambda>j. if j \<in> set ks then None else shows_row l j) = (\<lambda>j. if j \<in> set (k # ks) then None else shows_row l j)"
      by (auto simp: fun_eq_iff)
    with Cons.IH [OF Cons.prems(1,2)] Cons.prems(3) None k show ?thesis by auto
  next
    case (Some i)
    note hide = recycleView_hides [OF Cons.prems(1) Some]
    let ?l = "recycleView cls k l"
    have "\<forall>j < length (views ?l). \<not> isDragged (views ?l ! j)" "set ks \<subseteq> {0..<length (views ?l)}"
      using Cons.prems(2,3) hide(4,6) by simp_all
    from Cons.IH [OF hide(1) this] obtain l' where l': "fold (\<lambda>k l. if contentIndex (views l ! k) \<noteq> None then recycleView cls k l else l) ks ?l = l'"
        "lazy_ok cls l'" "frame_of l' = frame_of ?l" "shows_row l' = (\<lambda>j. if j \<in> set ks then None else shows_row ?l j)"
        "length (views l') = length (views ?l)" "\<forall>k < length (views l'). \<not> isDragged (views l' ! k)" by blast
    have "shows_row l' = (\<lambda>j. if j \<in> set (k # ks) then None else shows_row l j)"
      unfolding l'(4) hide(2) by (auto simp: fun_eq_iff)
    with l' hide(3,4) Some k show ?thesis by auto
  qed
qed

lemma recycle_shown_empties:
  assumes "lazy_ok cls l" and "\<forall>k < length (views l). \<not> isDragged (views l ! k)"
  shows "lazy_ok cls (recycle_shown cls l)" "shows_row (recycle_shown cls l) = Map.empty"
    "frame_of (recycle_shown cls l) = frame_of l" "\<forall>k < length (views (recycle_shown cls l)). \<not> isDragged (views (recycle_shown cls l) ! k)"
proof -
  have "set [0..<length (views l)] \<subseteq> {0..<length (views l)}" by simp
  note r = recycle_fold [OF assms this]
  have "shows_row l k = None" if "\<not> k < length (views l)" for k using that by (simp add: shows_row_def)
  then have "(\<lambda>k. if k \<in> set [0..<length (views l)] then None else shows_row l k) = Map.empty" by (auto simp: fun_eq_iff)
  with r show "lazy_ok cls (recycle_shown cls l)" "shows_row (recycle_shown cls l) = Map.empty"
    "frame_of (recycle_shown cls l) = frame_of l" "\<forall>k < length (views (recycle_shown cls l)). \<not> isDragged (views (recycle_shown cls l) ! k)"
    unfolding recycle_shown_def by auto
qed

lemma updateHeight_simps [simp]:
  "lazy_ok cls (updateHeight l) = lazy_ok cls l" "shows_row (updateHeight l) = shows_row l"
  "views (updateHeight l) = views l" "rows (updateHeight l) = rows l"
proof -
  show sh: "shows_row (updateHeight l) = shows_row l" by (rule ext) (simp add: updateHeight_def shows_row_def)
  show "lazy_ok cls (updateHeight l) = lazy_ok cls l" unfolding lazy_ok_def sh by (simp add: updateHeight_def)
qed (simp_all add: updateHeight_def)

lemma fullRerender_fills:
  assumes "lazy_ok cls l" and "\<forall>k < length (views l). \<not> isDragged (views l ! k)"
    and "rng = rowsToRenderRange l (lastScrollHeight l) (lastScrollTop l)"
  shows "\<exists>l'. fullRerender cls l = Inr l' \<and> lazy_ok cls l' \<and> right_items l' \<and> once l' \<and>
    ran (shows_row l') = {fst rng..snd rng} \<and> rows l' = rows l \<and>
    (\<forall>k < length (views l'). iv_isVisible (views l' ! k) \<longleftrightarrow> shows_row l' k \<noteq> None)"
proof -
  let ?l = "updateHeight (recycle_shown cls l)"
  note r = recycle_shown_empties [OF assms(1,2)]
  have fr: "rows ?l = rows l" "hasElement ?l = hasElement l" "itemHeight ?l = itemHeight l" "halfBuffer ?l = halfBuffer l"
      "lastScrollHeight ?l = lastScrollHeight l" "lastScrollTop ?l = lastScrollTop l" "offsetFromParent ?l = offsetFromParent l"
    using frame_fields [OF r(3)] by (simp_all add: updateHeight_def)
  have rng: "rng = rowsToRenderRange (scrolled (lastScrollHeight ?l) (lastScrollTop ?l) ?l) (lastScrollHeight ?l) (lastScrollTop ?l)"
    unfolding assms(3) rowsToRenderRange_def by (simp add: fr scrolled_def del: updateHeight_simps)
  have pre: "lazy_ok cls ?l" "right_items ?l" "once ?l" "\<forall>k < length (views ?l). \<not> isDragged (views ?l ! k)"
      "fillable rng (ran (shows_row ?l))"
    using r(1,2,4) by (simp_all add: right_items_def once_def fillable_def)
  obtain l' where l': "didScroll cls (lastScrollHeight ?l) (lastScrollTop ?l) ?l = Inr l'" "lazy_ok cls l'" "right_items l'"
      "once l'" "ran (shows_row l') = {fst rng..snd rng}" "frame_of l' = frame_of (scrolled (lastScrollHeight ?l) (lastScrollTop ?l) ?l)"
      "\<forall>k < length (views l'). iv_isVisible (views l' ! k) \<longleftrightarrow> shows_row l' k \<noteq> None"
    using didScroll_fills [OF pre(1-4) rng pre(5)] by blast
  have "rows l' = rows l" using frame_rows [OF l'(6)] fr(1) by simp
  with l' show ?thesis by (auto simp: fullRerender_def Let_def)
qed

section \<open>Properties\<close>


definition new_list :: "item list \<Rightarrow> int \<Rightarrow> lazy_list" where
  "new_list xs b = \<lparr>rows = xs, views = [], recycled = (\<lambda>_. []), itemHeight = 25, halfBuffer = b,
     lastScrollHeight = Some 75, lastScrollTop = Some 0, hasElement = True, offsetFromParent = 0, selection = None,
     allowSelection = True, ll_suppress = False, ll_height = None\<rparr>"

lemma new_list_ok:
  "lazy_ok cls (new_list xs b)" "right_items (new_list xs b)" "once (new_list xs b)"
  "\<forall>k < length (views (new_list xs b)). \<not> isDragged (views (new_list xs b) ! k)"
  "shows_row (new_list xs b) = Map.empty"
proof -
  show sh: "shows_row (new_list xs b) = Map.empty" by (rule ext) (simp add: shows_row_def new_list_def)
  show "lazy_ok cls (new_list xs b)" "right_items (new_list xs b)" "once (new_list xs b)"
    unfolding lazy_ok_def right_items_def once_def sh by (simp_all add: new_list_def)
  show "\<forall>k < length (views (new_list xs b)). \<not> isDragged (views (new_list xs b) ! k)" by (simp add: new_list_def)
qed


text \<open>
  A full rerender, whatever was shown before and however the content has changed, shows every
  row of the range in exactly one visible view with the right item.
\<close>

theorem lazy_rerender_shows_range:
  assumes "lazy_ok cls l" and "\<forall>k < length (views l). \<not> isDragged (views l ! k)"
    and "rng = rowsToRenderRange l (lastScrollHeight l) (lastScrollTop l)"
  shows "\<exists>l'. fullRerender cls l = Inr l' \<and> lazy_ok cls l' \<and> right_items l' \<and> once l' \<and>
    ran (shows_row l') = {fst rng..snd rng} \<and> rows l' = rows l \<and>
    (\<forall>k < length (views l'). iv_isVisible (views l' ! k) \<longleftrightarrow> shows_row l' k \<noteq> None)"
  using assms by (rule fullRerender_fills)

theorem lazy_rerender_shows_range_witness:
  "\<exists>l'. fullRerender (\<lambda>_. 0) (new_list [10, 11, 12, 13, 14, 15, 16, 17] 0) = Inr l' \<and> ran (shows_row l') = {0..3}"
proof -
  let ?l = "new_list [10, 11, 12, 13, 14, 15, 16, 17] 0"
  have "(0, 3) = rowsToRenderRange ?l (lastScrollHeight ?l) (lastScrollTop ?l)"
    by (simp add: rowsToRenderRange_def new_list_def scroll_row_def)
  from lazy_rerender_shows_range [OF new_list_ok(1,4) this]
  obtain l' where "fullRerender (\<lambda>_. 0) ?l = Inr l'" "ran (shows_row l') = {fst (0::int, 3::int)..snd (0::int, 3::int)}" by blast
  then show ?thesis by simp
qed

definition row_view :: "item \<Rightarrow> int \<Rightarrow> item_view" where
  "row_view x i = \<lparr>iv_content = x, contentIndex = Some i, iv_isSelected = False, iv_isVisible = True, isDragged = False\<rparr>"

text \<open>
  The test for \<open>nothing was found\<close> in \<open>didScroll\<close> also fires when the only row found is the last
  of the range: a list with one row gets a second view for that row on every scroll event.
\<close>

theorem lazy_scroll_duplicates_last_row:
  "\<exists>l'. didScroll (\<lambda>_. 0) (Some 75) (Some 0) ((new_list [x] b)\<lparr>halfBuffer := 0, views := [row_view x 0]\<rparr>) = Inr l' \<and>
     shows_row l' 0 = Some 0 \<and> shows_row l' 1 = Some 0"
  by (simp add: didScroll_def new_list_def rowsToRenderRange_def scroll_row_def scroll_step_def row_view_def
      viewForRow_def objectAt_int_def show_in_def hideRecycledViews_def shows_row_def enumerate_eq_zip Let_def)

text \<open>
  The gap below is not filled when the only row found is the first of the range: after scrolling
  by all rows but one, the rest of the range stays empty.
\<close>

theorem lazy_scroll_leaves_gap:
  "\<exists>l'. didScroll (\<lambda>_. 0) (Some 75) (Some 75)
       ((new_list [10, 11, 12, 13, 14, 15, 16, 17] 0)\<lparr>views := [row_view 10 0, row_view 11 1, row_view 12 2, row_view 13 3]\<rparr>) = Inr l' \<and>
     rowsToRenderRange l' (Some 75) (Some 75) = (3, 6) \<and> map contentIndex (views l') = [None, None, None, Some 3]"
  by (simp add: didScroll_def new_list_def rowsToRenderRange_def scroll_row_def scroll_step_def row_view_def
      recycleView_def set_view_def hideRecycledViews_def enumerate_eq_zip Let_def)

text \<open>
  Without a selection the row of \<open>undefined\<close> counts as 0, so moving down selects the second row
  and skips the first.
\<close>

theorem lazy_move_down_skips_first:
  assumes "selection l = None" and "allowSelection l" and "1 < length (rows l)"
  shows "\<exists>l'. changeSelection 1 l = (True, l') \<and> selection l' = Some (rows l ! 1)"
proof -
  have "selection (setIsSelectedStatus x b l) = selection l" for x b l
    by (auto simp: setIsSelectedStatus_def set_view_def split: option.splits)
  with assms show ?thesis
    by (simp add: changeSelection_def change_from.simps selectIndex_def itemForRow_def objectAt_int_def set_selection_def)
qed

theorem lazy_move_down_skips_first_witness:
  "\<exists>l'. changeSelection 1 (new_list [10, 11, 12] 0) = (True, l') \<and> selection l' = Some 11"
  using lazy_move_down_skips_first [of "new_list [10, 11, 12] 0"] by (simp add: new_list_def)

end
