(* ===== verification/Lazy_Tree.thy ===== *)
theory Lazy_Tree
  imports Lazy_List
begin

text \<open>
  The lazy tree view (\<open>views/lazy_tree_view.js\<close>): a lazy list over the rows of a tree whose items
  can be expanded and collapsed.  The caches that map rows to items, items to rows, levels and
  parents are built by walking the expanded part of the tree.
\<close>

section \<open>The row cache\<close>

text \<open>A tree item and its \<open>treeItemChildren\<close>, if it has that property.\<close>

datatype tree_item = TreeItem (tid: item) (treeItemChildren: "tree_item list option")

record row_cache =
  rowToItem :: "item list"
  itemToRow :: "item \<rightharpoonup> nat"
  itemToLevel :: "item \<rightharpoonup> nat"
  itemToParent :: "item \<rightharpoonup> item"

definition empty_cache :: row_cache where
  "empty_cache = \<lparr>rowToItem = [], itemToRow = Map.empty, itemToLevel = Map.empty, itemToParent = Map.empty\<rparr>"

definition cache_item :: "item \<Rightarrow> nat \<Rightarrow> item option \<Rightarrow> row_cache \<Rightarrow> row_cache" where
  "cache_item x level parent c =
     c\<lparr>rowToItem := rowToItem c @ [x],
       itemToRow := (itemToRow c)(x \<mapsto> length (rowToItem c)),
       itemToLevel := (itemToLevel c)(x \<mapsto> level),
       itemToParent := (case parent of None \<Rightarrow> itemToParent c | Some p \<Rightarrow> (itemToParent c)(x \<mapsto> p))\<rparr>"

fun loadItemIntoCache :: "item set \<Rightarrow> tree_item \<Rightarrow> nat \<Rightarrow> item option \<Rightarrow> row_cache \<Rightarrow> row_cache"
and loadItems :: "item set \<Rightarrow> tree_item list \<Rightarrow> nat \<Rightarrow> item option \<Rightarrow> row_cache \<Rightarrow> row_cache" where
  "loadItemIntoCache expanded (TreeItem x kids) level parent c =
     (let c1 = cache_item x level parent c in
      if x \<notin> expanded then c1
      else (case kids of None \<Rightarrow> c1 | Some ks \<Rightarrow> loadItems expanded ks (level + 1) (Some x) c1))"
| "loadItems expanded [] level parent c = c"
| "loadItems expanded (t # ts) level parent c =
     loadItems expanded ts level parent (loadItemIntoCache expanded t level parent c)"

definition loadCache :: "item set \<Rightarrow> tree_item list \<Rightarrow> row_cache" where
  "loadCache expanded content = loadItems expanded content 0 None empty_cache"

section \<open>The view\<close>

record lazy_tree =
  lt_list :: lazy_list
  lt_content :: "tree_item list"
  expandedItems :: "item set"
  lt_cache :: row_cache
  viewExpanded :: "nat \<Rightarrow> bool"
  viewLevel :: "nat \<Rightarrow> nat option"

text \<open>\<open>numberOfRowsChanged\<close>; the height follows in the same run loop.\<close>

definition numberOfRowsChanged :: "lazy_tree \<Rightarrow> lazy_tree" where
  "numberOfRowsChanged t =
     (let c = loadCache (expandedItems t) (lt_content t)
      in t\<lparr>lt_cache := c, lt_list := updateHeight ((lt_list t)\<lparr>rows := rowToItem c\<rparr>)\<rparr>)"

definition tree_rowForItem :: "lazy_tree \<Rightarrow> item \<Rightarrow> int option" where
  "tree_rowForItem t x = map_option int (itemToRow (lt_cache t) x)"

definition levelForItem :: "lazy_tree \<Rightarrow> item option \<Rightarrow> int option" where
  "levelForItem t x = (case x of None \<Rightarrow> Some (- 1) | Some y \<Rightarrow> map_option int (itemToLevel (lt_cache t) y))"

text \<open>The view that the list view takes for a row: a recycled one or a new one.\<close>

definition view_taken :: "(item \<Rightarrow> nat) \<Rightarrow> item \<Rightarrow> lazy_list \<Rightarrow> nat" where
  "view_taken cls x l = (if recycled l (cls x) = [] then length (views l) else last (recycled l (cls x)))"

definition tree_viewForRow :: "(item \<Rightarrow> nat) \<Rightarrow> int \<Rightarrow> lazy_tree \<Rightarrow> lazy_tree result" where
  "tree_viewForRow cls row t = (case objectAt_int (rows (lt_list t)) row of
       None \<Rightarrow> Inl TypeError
     | Some x \<Rightarrow>
        rbind (viewForRow cls row (lt_list t)) (\<lambda>l.
        let k = view_taken cls x (lt_list t)
        in Inr (t\<lparr>lt_list := l, viewExpanded := (viewExpanded t)(k := (x \<in> expandedItems t)),
                  viewLevel := (viewLevel t)(k := itemToLevel (lt_cache t) x)\<rparr>)))"

fun tree_views_for_rows :: "(item \<Rightarrow> nat) \<Rightarrow> int list \<Rightarrow> lazy_tree \<Rightarrow> lazy_tree result" where
  "tree_views_for_rows cls [] t = Inr t"
| "tree_views_for_rows cls (r # rs) t = rbind (tree_viewForRow cls r t) (tree_views_for_rows cls rs)"

section \<open>Expanding and collapsing\<close>

definition set_expanded :: "bool \<Rightarrow> item \<Rightarrow> lazy_tree \<Rightarrow> lazy_tree" where
  "set_expanded b x t = t\<lparr>expandedItems := (if b then insert x (expandedItems t) else expandedItems t - {x})\<rparr>"

text \<open>
  The loop over the views in \<open>toggleItem\<close>: a view whose item has no row any more is recycled, the
  others move to their new row and are recycled when that lies out of range.
\<close>

definition toggle_step ::
  "(item \<Rightarrow> nat) \<Rightarrow> (item \<Rightarrow> int option) \<Rightarrow> int \<times> int \<Rightarrow> nat \<Rightarrow> lazy_list \<times> int list \<Rightarrow> lazy_list \<times> int list" where
  "toggle_step cls rowOf rng k s = (case s of (l, indices) \<Rightarrow>
     (case (contentIndex (views l ! k), rowOf (iv_content (views l ! k))) of
        (None, _) \<Rightarrow> (l, indices)
      | (Some i, None) \<Rightarrow> (recycleView cls k l, indices)
      | (Some i, Some row) \<Rightarrow>
         (let l1 = set_view k (\<lambda>v. v\<lparr>contentIndex := Some row\<rparr>) l
          in (if row < fst rng \<or> row > snd rng then recycleView cls k l1 else l1, indices @ [row]))))"

definition toggleItem :: "(item \<Rightarrow> nat) \<Rightarrow> nat \<Rightarrow> lazy_tree \<Rightarrow> lazy_tree result" where
  "toggleItem cls k t =
     (let t1 = numberOfRowsChanged (set_expanded (viewExpanded t k) (iv_content (views (lt_list t) ! k)) t);
          l = lt_list t1;
          rng = rowsToRenderRange l (lastScrollHeight l) (lastScrollTop l);
          (l1, indices) = fold (toggle_step cls (tree_rowForItem t1) rng) [0..<length (views l)] (l, [])
      in rbind (tree_views_for_rows cls (filter (\<lambda>i. i \<notin> set indices) [fst rng..snd rng]) (t1\<lparr>lt_list := l1\<rparr>)) (\<lambda>t2.
         Inr (t2\<lparr>lt_list := hideRecycledViews cls (lt_list t2)\<rparr>)))"

definition changeIsExpanded :: "(item \<Rightarrow> nat) \<Rightarrow> item \<Rightarrow> bool \<Rightarrow> lazy_tree \<Rightarrow> lazy_tree result" where
  "changeIsExpanded cls x status t =
     (let t1 = set_expanded status x t in
      case childViewForIndex (lt_list t1) (tree_rowForItem t1 x) of
        None \<Rightarrow> Inr t1
      | Some k \<Rightarrow>
         (if viewExpanded t1 k then Inr t1
          else (let t2 = t1\<lparr>viewExpanded := (viewExpanded t1)(k := status)\<rparr>
                in if status then toggleItem cls k t2 else Inr t2)))"

definition collapseItem :: "(item \<Rightarrow> nat) \<Rightarrow> item \<Rightarrow> lazy_tree \<Rightarrow> lazy_tree result" where
  "collapseItem cls x = changeIsExpanded cls x False"

definition expandItem :: "(item \<Rightarrow> nat) \<Rightarrow> item \<Rightarrow> lazy_tree \<Rightarrow> lazy_tree result" where
  "expandItem cls x = changeIsExpanded cls x True"

datatype tree_action = Expand | Collapse

definition collapseOrExpandSelection :: "(item \<Rightarrow> nat) \<Rightarrow> tree_action \<Rightarrow> lazy_tree \<Rightarrow> (bool \<times> lazy_tree) result" where
  "collapseOrExpandSelection cls action t = (case selection (lt_list t) of
       None \<Rightarrow> Inr (False, t)
     | Some x \<Rightarrow>
        (case childViewForIndex (lt_list t) (tree_rowForItem t x) of
           None \<Rightarrow> Inr (True, set_expanded (x \<notin> expandedItems t) x t)
         | Some k \<Rightarrow>
            (if action = Collapse \<and> viewExpanded t k
             then rbind (toggleItem cls k (t\<lparr>viewExpanded := (viewExpanded t)(k := False)\<rparr>)) (\<lambda>t1. Inr (True, t1))
             else if action = Expand \<and> \<not> viewExpanded t k
             then rbind (toggleItem cls k (t\<lparr>viewExpanded := (viewExpanded t)(k := True)\<rparr>)) (\<lambda>t1. Inr (True, t1))
             else Inr (False, t))))"

section \<open>Ancestors\<close>

text \<open>
  \<open>getAncestors\<close> follows the parent cache; the bound is on the number of steps.  The closing
  \<open>null\<close> of the source is the root.
\<close>

fun ancestor_chain :: "nat \<Rightarrow> (item \<rightharpoonup> item) \<Rightarrow> item \<Rightarrow> item list option" where
  "ancestor_chain 0 parents x = None"
| "ancestor_chain (Suc n) parents x = (case parents x of
       None \<Rightarrow> Some [x]
     | Some p \<Rightarrow> map_option ((#) x) (ancestor_chain n parents p))"

definition getAncestors :: "lazy_tree \<Rightarrow> item option \<Rightarrow> item option list option" where
  "getAncestors t x = (case x of
       None \<Rightarrow> Some [None, None]
     | Some y \<Rightarrow> map_option (\<lambda>xs. map Some xs @ [None])
                  (ancestor_chain (Suc (length (rowToItem (lt_cache t)))) (itemToParent (lt_cache t)) y))"

section \<open>The cache lists the expanded part of the tree\<close>

text \<open>The abstract rows: the items of the expanded part in preorder, with level and parent.\<close>

fun visible_rows :: "item set \<Rightarrow> tree_item \<Rightarrow> nat \<Rightarrow> item option \<Rightarrow> (item \<times> nat \<times> item option) list"
and visible_forest :: "item set \<Rightarrow> tree_item list \<Rightarrow> nat \<Rightarrow> item option \<Rightarrow> (item \<times> nat \<times> item option) list" where
  "visible_rows E (TreeItem x kids) level parent =
     (x, level, parent) # (if x \<in> E then (case kids of None \<Rightarrow> [] | Some ks \<Rightarrow> visible_forest E ks (Suc level) (Some x)) else [])"
| "visible_forest E [] level parent = []"
| "visible_forest E (t # ts) level parent = visible_rows E t level parent @ visible_forest E ts level parent"

fun item_ids :: "tree_item \<Rightarrow> item list" and forest_ids :: "tree_item list \<Rightarrow> item list" where
  "item_ids (TreeItem x None) = [x]"
| "item_ids (TreeItem x (Some ks)) = x # forest_ids ks"
| "forest_ids [] = []"
| "forest_ids (t # ts) = item_ids t @ forest_ids ts"

lemma visible_rows_simps [simp]:
  "x \<notin> E \<Longrightarrow> visible_rows E (TreeItem x kids) level parent = [(x, level, parent)]"
  "visible_rows E (TreeItem x None) level parent = [(x, level, parent)]"
  "x \<in> E \<Longrightarrow> visible_rows E (TreeItem x (Some ks)) level parent =
     (x, level, parent) # visible_forest E ks (Suc level) (Some x)"
  by (simp_all add: visible_rows.simps)

declare visible_rows.simps [simp del]

definition cache_rows :: "(item \<times> nat \<times> item option) list \<Rightarrow> row_cache \<Rightarrow> row_cache" where
  "cache_rows es c = fold (\<lambda>(x, level, parent). cache_item x level parent) es c"

lemma load_is_cache_rows:
  "loadItemIntoCache E t level parent c = cache_rows (visible_rows E t level parent) c"
  "loadItems E ts level parent c = cache_rows (visible_forest E ts level parent) c"
proof (induction E t level parent c and E ts level parent c rule: loadItemIntoCache_loadItems.induct)
  case (1 E x kids level parent c)
  show ?case
  proof (cases "x \<in> E \<and> kids \<noteq> None")
    case True
    then obtain ks where "kids = Some ks" by auto
    with True 1 [OF refl] show ?thesis by (simp add: cache_rows_def)
  next
    case False
    then show ?thesis by (cases kids) (auto simp: cache_rows_def Let_def)
  qed
next
  case (2 E level parent c)
  then show ?case by (simp add: cache_rows_def)
next
  case (3 E t ts level parent c)
  then show ?case by (simp add: cache_rows_def)
qed

lemma visible_ids:
  "set (map fst (visible_rows E t level parent)) \<subseteq> set (item_ids t) \<and>
     (distinct (item_ids t) \<longrightarrow> distinct (map fst (visible_rows E t level parent)))"
  "set (map fst (visible_forest E ts level parent)) \<subseteq> set (forest_ids ts) \<and>
     (distinct (forest_ids ts) \<longrightarrow> distinct (map fst (visible_forest E ts level parent)))"
proof (induction E t level parent and E ts level parent rule: visible_rows_visible_forest.induct)
  case (1 E x kids level parent)
  show ?case
  proof (cases kids)
    case None
    then show ?thesis by simp
  next
    case (Some ks)
    show ?thesis
    proof (cases "x \<in> E")
      case True
      have "set (map fst (visible_forest E ks (Suc level) (Some x))) \<subseteq> set (forest_ids ks)"
        "distinct (forest_ids ks) \<longrightarrow> distinct (map fst (visible_forest E ks (Suc level) (Some x)))"
        using 1 [OF True Some] by blast+
      with True Some show ?thesis by auto
    next
      case False
      with Some show ?thesis by simp
    qed
  qed
next
  case (2 E level parent)
  then show ?case by simp
next
  case (3 E t ts level parent)
  then show ?case by fastforce
qed

lemma cache_rows_snoc:
  "cache_rows (es @ [(x, level, parent)]) c = cache_item x level parent (cache_rows es c)"
  by (simp add: cache_rows_def)

lemma cache_rows_contents:
  assumes "distinct (map fst es)"
  shows "rowToItem (cache_rows es empty_cache) = map fst es \<and>
    (\<forall>x r. itemToRow (cache_rows es empty_cache) x = Some r \<longleftrightarrow> r < length es \<and> fst (es ! r) = x) \<and>
    (\<forall>x v. itemToLevel (cache_rows es empty_cache) x = Some v \<longleftrightarrow> (\<exists>q. (x, v, q) \<in> set es)) \<and>
    (\<forall>x p. itemToParent (cache_rows es empty_cache) x = Some p \<longleftrightarrow> (\<exists>v. (x, v, Some p) \<in> set es))"
  using assms
proof (induction es rule: rev_induct)
  case Nil
  then show ?case by (simp add: cache_rows_def empty_cache_def)
next
  case (snoc e es)
  obtain x v q where e: "e = (x, v, q)" by (metis prod_cases3)
  have new: "x \<notin> fst ` set es" "distinct (map fst es)" using snoc.prems e by auto
  let ?c = "cache_rows es empty_cache"
  have IH: "rowToItem ?c = map fst es" "\<And>y r. itemToRow ?c y = Some r \<longleftrightarrow> r < length es \<and> fst (es ! r) = y"
    "\<And>y w. itemToLevel ?c y = Some w \<longleftrightarrow> (\<exists>q. (y, w, q) \<in> set es)"
    "\<And>y p. itemToParent ?c y = Some p \<longleftrightarrow> (\<exists>w. (y, w, Some p) \<in> set es)"
    using snoc.IH [OF new(2)] by auto
  have nth: "fst (es ! r) \<noteq> x" if "r < length es" for r using that new(1) by (metis image_eqI nth_mem)
  have "itemToRow (cache_item x v q ?c) y = Some r \<longleftrightarrow> r < length (es @ [e]) \<and> fst ((es @ [e]) ! r) = y" for y r
    using IH(1,2) nth by (auto simp: cache_item_def nth_append e less_Suc_eq split: if_splits)
  moreover have "itemToLevel (cache_item x v q ?c) y = Some w \<longleftrightarrow> (\<exists>q. (y, w, q) \<in> set (es @ [e]))" for y w
    using IH(3) new(1) by (force simp: cache_item_def e image_iff)
  moreover have "itemToParent (cache_item x v q ?c) y = Some p \<longleftrightarrow> (\<exists>w. (y, w, Some p) \<in> set (es @ [e]))" for y p
  proof (cases q)
    case None
    then show ?thesis using IH(4) by (auto simp: cache_item_def e)
  next
    case (Some z)
    then show ?thesis using IH(4) new(1) by (force simp: cache_item_def e image_iff)
  qed
  ultimately show ?case using IH(1) by (simp add: e cache_rows_snoc) (simp add: cache_item_def)
qed

text \<open>A cached item is a root of the walk or comes after its parent, one level below it.\<close>

definition parent_first :: "nat \<Rightarrow> item option \<Rightarrow> (item \<times> nat \<times> item option) list \<Rightarrow> bool" where
  "parent_first level parent es \<longleftrightarrow> (\<forall>r < length es. snd (es ! r) = (level, parent) \<or>
     (\<exists>s < r. snd (snd (es ! r)) = Some (fst (es ! s)) \<and> fst (snd (es ! r)) = Suc (fst (snd (es ! s)))))"

lemma parent_first_append:
  assumes "parent_first level parent xs" and "parent_first level parent ys"
  shows "parent_first level parent (xs @ ys)"
  unfolding parent_first_def
proof (intro allI impI)
  fix r assume r: "r < length (xs @ ys)"
  show "snd ((xs @ ys) ! r) = (level, parent) \<or> (\<exists>s < r. snd (snd ((xs @ ys) ! r)) = Some (fst ((xs @ ys) ! s)) \<and>
      fst (snd ((xs @ ys) ! r)) = Suc (fst (snd ((xs @ ys) ! s))))"
  proof (cases "r < length xs")
    case True
    with assms(1) consider "snd (xs ! r) = (level, parent)"
      | s where "s < r" "snd (snd (xs ! r)) = Some (fst (xs ! s))" "fst (snd (xs ! r)) = Suc (fst (snd (xs ! s)))"
      unfolding parent_first_def by blast
    then show ?thesis
    proof cases
      case 2
      with True show ?thesis by (intro disjI2 exI [of _ s]) (simp add: nth_append)
    qed (simp add: True nth_append)
  next
    case False
    then obtain j where j: "r = length xs + j" "j < length ys" using r by (metis add_less_cancel_left le_Suc_ex length_append not_le)
    with assms(2) consider "snd (ys ! j) = (level, parent)"
      | s where "s < j" "snd (snd (ys ! j)) = Some (fst (ys ! s))" "fst (snd (ys ! j)) = Suc (fst (snd (ys ! s)))"
      unfolding parent_first_def by blast
    then show ?thesis
    proof cases
      case 2
      with j show ?thesis by (intro disjI2 exI [of _ "length xs + s"]) (simp add: nth_append)
    qed (simp add: j nth_append)
  qed
qed

lemma parent_first_Cons:
  assumes "parent_first (Suc level) (Some x) es"
  shows "parent_first level parent ((x, level, parent) # es)"
  unfolding parent_first_def
proof (intro allI impI)
  fix r assume r: "r < length ((x, level, parent) # es)"
  let ?es = "(x, level, parent) # es"
  show "snd (?es ! r) = (level, parent) \<or> (\<exists>s < r. snd (snd (?es ! r)) = Some (fst (?es ! s)) \<and>
      fst (snd (?es ! r)) = Suc (fst (snd (?es ! s))))"
  proof (cases r)
    case (Suc j)
    with assms r consider "snd (es ! j) = (Suc level, Some x)"
      | s where "s < j" "snd (snd (es ! j)) = Some (fst (es ! s))" "fst (snd (es ! j)) = Suc (fst (snd (es ! s)))"
      unfolding parent_first_def by auto
    then show ?thesis
    proof cases
      case 1
      with Suc show ?thesis by (intro disjI2 exI [of _ 0]) simp
    next
      case 2
      with Suc show ?thesis by (intro disjI2 exI [of _ "Suc s"]) simp
    qed
  qed simp
qed

lemma visible_parent_first:
  "parent_first level parent (visible_rows E t level parent)"
  "parent_first level parent (visible_forest E ts level parent)"
proof (induction E t level parent and E ts level parent rule: visible_rows_visible_forest.induct)
  case (1 E x kids level parent)
  have nil: "parent_first (Suc level) (Some x) []" by (simp add: parent_first_def)
  show ?case
  proof (cases "x \<in> E \<and> kids \<noteq> None")
    case True
    then obtain ks where ks: "x \<in> E" "kids = Some ks" by auto
    with 1 [OF ks] show ?thesis by (simp add: parent_first_Cons)
  next
    case False
    then have "visible_rows E (TreeItem x kids) level parent = [(x, level, parent)]" by (cases kids) auto
    with parent_first_Cons [OF nil] show ?thesis by simp
  qed
next
  case (2 E level parent)
  then show ?case by (simp add: parent_first_def)
next
  case (3 E t ts level parent)
  then show ?case by (simp add: parent_first_append)
qed

lemma cache_lookup:
  assumes "distinct (forest_ids content)"
  shows "rowToItem (loadCache E content) = map fst (visible_forest E content 0 None)"
    "distinct (rowToItem (loadCache E content))"
    "itemToRow (loadCache E content) x = Some r \<longleftrightarrow>
       r < length (rowToItem (loadCache E content)) \<and> rowToItem (loadCache E content) ! r = x"
    "itemToLevel (loadCache E content) x = Some v \<longleftrightarrow> (\<exists>q. (x, v, q) \<in> set (visible_forest E content 0 None))"
    "itemToParent (loadCache E content) x = Some p \<longleftrightarrow> (\<exists>v. (x, v, Some p) \<in> set (visible_forest E content 0 None))"
proof -
  let ?es = "visible_forest E content 0 None"
  have d: "distinct (map fst ?es)" using visible_ids(2) assms by blast
  have l: "loadCache E content = cache_rows ?es empty_cache" by (simp add: loadCache_def load_is_cache_rows)
  note c = cache_rows_contents [OF d]
  show rows: "rowToItem (loadCache E content) = map fst ?es" using c l by simp
  show "distinct (rowToItem (loadCache E content))" using rows d by simp
  show "itemToRow (loadCache E content) x = Some r \<longleftrightarrow>
       r < length (rowToItem (loadCache E content)) \<and> rowToItem (loadCache E content) ! r = x"
    using c l by auto
  show "itemToLevel (loadCache E content) x = Some v \<longleftrightarrow> (\<exists>q. (x, v, q) \<in> set ?es)"
    "itemToParent (loadCache E content) x = Some p \<longleftrightarrow> (\<exists>v. (x, v, Some p) \<in> set ?es)"
    using c l by auto
qed

lemma ancestor_chain_found:
  assumes d: "distinct (map fst es)" and pf: "parent_first 0 None es" and "r < length es" and "r < n"
    and parents: "\<And>x p. parents x = Some p \<longleftrightarrow> (\<exists>v. (x, v, Some p) \<in> set es)"
  shows "\<exists>xs. ancestor_chain n parents (fst (es ! r)) = Some xs \<and> length xs = Suc (fst (snd (es ! r)))"
  using assms(3,4)
proof (induction n arbitrary: r)
  case 0
  then show ?case by simp
next
  case (Suc n)
  obtain x v q where e: "es ! r = (x, v, q)" by (metis prod_cases3)
  have only: "(x, v', q') \<in> set es \<Longrightarrow> (v', q') = (v, q)" for v' q'
    using d e Suc.prems(1) nth_mem [of r es] by (metis eq_key_imp_eq_value)
  from pf Suc.prems(1) e consider "(v, q) = (0, None)"
    | s where "s < r" "q = Some (fst (es ! s))" "v = Suc (fst (snd (es ! s)))"
    unfolding parent_first_def by fastforce
  then show ?case
  proof cases
    case 1
    then have "parents x = None" using parents only by (metis not_None_eq option.distinct(1) prod.inject)
    with 1 e show ?thesis by simp
  next
    case 2
    have "(x, v, q) \<in> set es" using e Suc.prems(1) nth_mem [of r es] by simp
    then have "parents x = Some (fst (es ! s))" using parents 2(2) by blast
    moreover obtain xs where "ancestor_chain n parents (fst (es ! s)) = Some xs" "length xs = Suc (fst (snd (es ! s)))"
      using Suc.IH [of s] 2(1) Suc.prems by auto
    ultimately show ?thesis using e 2(3) by simp
  qed
qed

section \<open>Toggling\<close>

lemma reposition:
  assumes "lazy_ok cls l" and "shows_row l k = Some i"
  shows "lazy_ok cls (set_view k (\<lambda>v. v\<lparr>contentIndex := Some row\<rparr>) l)"
    "shows_row (set_view k (\<lambda>v. v\<lparr>contentIndex := Some row\<rparr>) l) = (shows_row l)(k \<mapsto> row)"
    "length (views (set_view k (\<lambda>v. v\<lparr>contentIndex := Some row\<rparr>) l)) = length (views l)"
    "iv_content (views (set_view k (\<lambda>v. v\<lparr>contentIndex := Some row\<rparr>) l) ! j) = iv_content (views l ! j)"
proof -
  let ?l = "set_view k (\<lambda>v. v\<lparr>contentIndex := Some row\<rparr>) l"
  have k: "k < length (views l)" "contentIndex (views l ! k) = Some i"
    using assms(2) by (auto simp: shows_row_def split: if_splits)
  have vs: "views ?l = (views l)[k := (views l ! k)\<lparr>contentIndex := Some row\<rparr>]" "recycled ?l = recycled l"
    using k(1) by (simp_all add: set_view_def)
  show sh: "shows_row ?l = (shows_row l)(k \<mapsto> row)" using k(1) by (auto simp: shows_row_def vs nth_list_update fun_eq_iff)
  show "length (views ?l) = length (views l)" "iv_content (views ?l ! j) = iv_content (views l ! j)"
    using k(1) by (simp_all add: vs nth_list_update)
  have ok: "\<And>c. distinct (recycled l c)"
    "\<And>c j. j \<in> set (recycled l c) \<longleftrightarrow> j < length (views l) \<and> contentIndex (views l ! j) = None \<and> cls (iv_content (views l ! j)) = c"
    "\<And>j i. shows_row l j = Some i \<Longrightarrow> iv_isVisible (views l ! j)"
    using assms(1) by (auto simp: lazy_ok_def)
  show "lazy_ok cls ?l"
    unfolding lazy_ok_def
  proof (intro conjI allI impI)
    fix c show "distinct (recycled ?l c)" using ok(1) by (simp add: vs)
  next
    fix c j
    show "(j \<in> set (recycled ?l c)) \<longleftrightarrow>
        (j < length (views ?l) \<and> contentIndex (views ?l ! j) = None \<and> cls (iv_content (views ?l ! j)) = c)"
      using k ok(2) by (auto simp: vs nth_list_update)
  next
    fix j i' assume "shows_row ?l j = Some i'"
    then show "iv_isVisible (views ?l ! j)"
      using ok(3) [of j] ok(3) [OF assms(2)] k(1) unfolding sh by (auto simp: vs nth_list_update split: if_splits)
  qed
qed

lemma recycle_contents: "iv_content (views (recycleView cls k l) ! j) = iv_content (views l ! j)"
  by (cases "k < length (views l)") (auto simp: recycleView_def set_view_def Let_def nth_list_update)

text \<open>Where a view ends up.\<close>

definition new_row :: "(item \<Rightarrow> int option) \<Rightarrow> int \<times> int \<Rightarrow> lazy_list \<Rightarrow> nat \<Rightarrow> int option" where
  "new_row rowOf rng l k = (case shows_row l k of None \<Rightarrow> None | Some i \<Rightarrow>
     (case rowOf (iv_content (views l ! k)) of None \<Rightarrow> None | Some r \<Rightarrow> if in_range rng r then Some r else None))"

lemma toggle_step_effect:
  assumes "lazy_ok cls l" and "k < length (views l)"
  shows "\<exists>l' js'. toggle_step cls rowOf rng k (l, js) = (l', js') \<and> lazy_ok cls l' \<and>
    shows_row l' = (shows_row l)(k := new_row rowOf rng l k) \<and> frame_of l' = frame_of l \<and>
    length (views l') = length (views l) \<and> (\<forall>j. iv_content (views l' ! j) = iv_content (views l ! j)) \<and>
    set js' = set js \<union> {r. shows_row l k \<noteq> None \<and> rowOf (iv_content (views l ! k)) = Some r}"
proof (cases "shows_row l k")
  case None
  then have "contentIndex (views l ! k) = None" using assms(2) by (simp add: shows_row_def)
  with None assms(1) show ?thesis by (simp add: toggle_step_def new_row_def fun_upd_idem)
next
  case (Some i)
  then have ci: "contentIndex (views l ! k) = Some i" using assms(2) by (simp add: shows_row_def)
  show ?thesis
  proof (cases "rowOf (iv_content (views l ! k))")
    case None
    note hide = recycleView_hides [OF assms(1) Some]
    show ?thesis
      using None Some ci hide recycle_contents by (simp add: toggle_step_def new_row_def)
  next
    case (Some r)
    let ?l = "set_view k (\<lambda>v. v\<lparr>contentIndex := Some r\<rparr>) l"
    note move = reposition [OF assms(1) \<open>shows_row l k = Some i\<close>, of r]
    show ?thesis
    proof (cases "in_range rng r")
      case True
      then have "toggle_step cls rowOf rng k (l, js) = (?l, js @ [r])"
        using ci Some by (auto simp: toggle_step_def in_range_def Let_def)
      with True Some \<open>shows_row l k = Some i\<close> move show ?thesis by (auto simp: new_row_def)
    next
      case False
      have "shows_row ?l k = Some r" using move(2) by simp
      note hide = recycleView_hides [OF move(1) this]
      have "toggle_step cls rowOf rng k (l, js) = (recycleView cls k ?l, js @ [r])"
        using False ci Some by (auto simp: toggle_step_def in_range_def Let_def)
      moreover have "shows_row (recycleView cls k ?l) = (shows_row l)(k := None)" using hide(2) move(2) by simp
      ultimately show ?thesis
        using False Some \<open>shows_row l k = Some i\<close> move hide recycle_contents by (auto simp: new_row_def)
    qed
  qed
qed

lemma toggle_fold:
  assumes "lazy_ok cls l" and "distinct ks" and "set ks \<subseteq> {0..<length (views l)}"
  shows "\<exists>l' js'. fold (toggle_step cls rowOf rng) ks (l, js) = (l', js') \<and> lazy_ok cls l' \<and>
    shows_row l' = (\<lambda>k. if k \<in> set ks then new_row rowOf rng l k else shows_row l k) \<and> frame_of l' = frame_of l \<and>
    length (views l') = length (views l) \<and> (\<forall>j. iv_content (views l' ! j) = iv_content (views l ! j)) \<and>
    set js' = set js \<union> {r. \<exists>k \<in> set ks. shows_row l k \<noteq> None \<and> rowOf (iv_content (views l ! k)) = Some r}"
  using assms
proof (induction ks arbitrary: l js)
  case Nil
  then show ?case by simp
next
  case (Cons k ks)
  have k: "k < length (views l)" "k \<notin> set ks" using Cons.prems by auto
  obtain l1 js1 where s: "toggle_step cls rowOf rng k (l, js) = (l1, js1)" "lazy_ok cls l1"
      "shows_row l1 = (shows_row l)(k := new_row rowOf rng l k)" "frame_of l1 = frame_of l"
      "length (views l1) = length (views l)" "\<And>j. iv_content (views l1 ! j) = iv_content (views l ! j)"
      "set js1 = set js \<union> {r. shows_row l k \<noteq> None \<and> rowOf (iv_content (views l ! k)) = Some r}"
    using toggle_step_effect [OF Cons.prems(1) k(1), of rowOf rng js] by blast
  have other: "shows_row l1 j = shows_row l j" "new_row rowOf rng l1 j = new_row rowOf rng l j" if "j \<in> set ks" for j
  proof -
    show sr: "shows_row l1 j = shows_row l j" using that k(2) s(3) by auto
    show "new_row rowOf rng l1 j = new_row rowOf rng l j" unfolding new_row_def sr s(6) ..
  qed
  from Cons.IH [OF s(2), of js1] Cons.prems(2,3) s(5) obtain l' js' where
    r: "fold (toggle_step cls rowOf rng) ks (l1, js1) = (l', js')" "lazy_ok cls l'"
      "shows_row l' = (\<lambda>j. if j \<in> set ks then new_row rowOf rng l1 j else shows_row l1 j)" "frame_of l' = frame_of l1"
      "length (views l') = length (views l1)" "\<And>j. iv_content (views l' ! j) = iv_content (views l1 ! j)"
      "set js' = set js1 \<union> {r. \<exists>k \<in> set ks. shows_row l1 k \<noteq> None \<and> rowOf (iv_content (views l1 ! k)) = Some r}"
    by auto
  have "shows_row l' = (\<lambda>j. if j \<in> set (k # ks) then new_row rowOf rng l j else shows_row l j)"
    unfolding r(3) using other s(3) k(2) by (auto simp: fun_eq_iff)
  moreover have "set js' = set js \<union> {r. \<exists>k \<in> set (k # ks). shows_row l k \<noteq> None \<and> rowOf (iv_content (views l ! k)) = Some r}"
    unfolding r(7) s(7) using other(1) s(6) by auto
  ultimately show ?case using s r by auto
qed

lemma tree_views_as_list:
  assumes "views_for_rows cls rs (lt_list t) = Inr l'"
  shows "\<exists>t'. tree_views_for_rows cls rs t = Inr t' \<and> lt_list t' = l' \<and> lt_cache t' = lt_cache t \<and>
    expandedItems t' = expandedItems t \<and> lt_content t' = lt_content t"
  using assms
proof (induction rs arbitrary: t)
  case Nil
  then show ?case by simp
next
  case (Cons r rs)
  then obtain l1 where l1: "viewForRow cls r (lt_list t) = Inr l1" "views_for_rows cls rs l1 = Inr l'" by auto
  then obtain x where "objectAt_int (rows (lt_list t)) r = Some x"
    by (auto simp: viewForRow_def split: option.splits)
  with l1(1) obtain t1 where "tree_viewForRow cls r t = Inr t1" "lt_list t1 = l1" "lt_cache t1 = lt_cache t"
      "expandedItems t1 = expandedItems t" "lt_content t1 = lt_content t"
    by (simp add: tree_viewForRow_def Let_def)
  with Cons.IH [of t1] l1(2) show ?case by auto
qed

text \<open>The tree view between events: the rows of the list are those of the cache, which is up to date.\<close>

definition tree_ok :: "(item \<Rightarrow> nat) \<Rightarrow> lazy_tree \<Rightarrow> bool" where
  "tree_ok cls t \<longleftrightarrow> distinct (forest_ids (lt_content t)) \<and> lt_cache t = loadCache (expandedItems t) (lt_content t) \<and>
     rows (lt_list t) = rowToItem (lt_cache t) \<and> lazy_ok cls (lt_list t) \<and> right_items (lt_list t) \<and> once (lt_list t)"

lemma shown_contents_differ:
  assumes "right_items l" and "once l" and "distinct (rows l)"
    and "shows_row l k = Some i" and "shows_row l j = Some i'" and "iv_content (views l ! k) = iv_content (views l ! j)"
  shows "k = j"
proof -
  have "objectAt_int (rows l) i = Some (iv_content (views l ! k))" "objectAt_int (rows l) i' = Some (iv_content (views l ! j))"
    using assms(1,4,5) by (auto simp: right_items_def)
  then have nn: "0 \<le> i" "0 \<le> i'" "nat i < length (rows l)" "nat i' < length (rows l)" "rows l ! nat i = rows l ! nat i'"
    using assms(6) by (auto simp: objectAt_int_def split: if_splits)
  then have "nat i = nat i'" using assms(3) by (simp add: nth_eq_iff_index_eq)
  with nn(1,2) have "i = i'" by simp
  then show ?thesis using assms(2,4,5) unfolding once_def inj_on_def by (metis domI)
qed

lemma toggle_rerenders:
  assumes "lazy_ok cls l" and "right_items (l\<lparr>rows := old\<rparr>)" and "once l" and "distinct old"
    and rowOf: "\<And>x r. rowOf x = Some r \<longleftrightarrow> 0 \<le> r \<and> r < int (length (rows l)) \<and> rows l ! nat r = x"
    and rng: "rng = rowsToRenderRange l h t"
  shows "\<exists>l1 js l2. fold (toggle_step cls rowOf rng) [0..<length (views l)] (l, []) = (l1, js) \<and>
    views_for_rows cls (filter (\<lambda>i. i \<notin> set js) [fst rng..snd rng]) l1 = Inr l2 \<and>
    lazy_ok cls l2 \<and> right_items l2 \<and> once l2 \<and> ran (shows_row l2) = {fst rng..snd rng} \<and> frame_of l2 = frame_of l"
proof -
  obtain l1 js where f: "fold (toggle_step cls rowOf rng) [0..<length (views l)] (l, []) = (l1, js)" "lazy_ok cls l1"
      "shows_row l1 = (\<lambda>k. if k \<in> set [0..<length (views l)] then new_row rowOf rng l k else shows_row l k)"
      "frame_of l1 = frame_of l" "\<forall>j. iv_content (views l1 ! j) = iv_content (views l ! j)"
      "set js = set [] \<union> {r. \<exists>k \<in> set [0..<length (views l)]. shows_row l k \<noteq> None \<and> rowOf (iv_content (views l ! k)) = Some r}"
    using toggle_fold [OF assms(1), of "[0..<length (views l)]" rowOf rng "[]"] by auto
  have sh1: "shows_row l1 k = Some r \<longleftrightarrow> shows_row l k \<noteq> None \<and> rowOf (iv_content (views l ! k)) = Some r \<and> in_range rng r" for k r
    unfolding f(3) new_row_def by (auto simp: shows_row_def split: option.splits if_splits)
  have shown: "shows_row l k \<noteq> None \<Longrightarrow> k \<in> set [0..<length (views l)]" for k by (auto simp: shows_row_def split: if_splits)
  have rows1: "rows l1 = rows l" using f(4) by (rule frame_rows)
  have ran1: "ran (shows_row l1) = {r \<in> set js. in_range rng r}"
    unfolding ran_def sh1 f(6) using shown by auto
  have right1: "right_items l1"
    unfolding right_items_def sh1 rows1 using rowOf f(5) by (auto simp: objectAt_int_def nat_less_iff)
  have sold: "shows_row (l\<lparr>rows := old\<rparr>) = shows_row l" by (rule ext) (simp add: shows_row_def)
  have "once (l\<lparr>rows := old\<rparr>)" using assms(3) by (simp add: once_def sold)
  then have same: "k = j" if "shows_row l k \<noteq> None" "shows_row l j \<noteq> None" "iv_content (views l ! k) = iv_content (views l ! j)" for k j
    using shown_contents_differ [OF assms(2)] assms(4) that by (auto simp: sold)
  have once1: "once l1"
    unfolding once_def
  proof (rule inj_onI)
    fix k j assume "k \<in> dom (shows_row l1)" "j \<in> dom (shows_row l1)" "shows_row l1 k = shows_row l1 j"
    then obtain r where "shows_row l1 k = Some r" "shows_row l1 j = Some r" by auto
    then have "shows_row l k \<noteq> None" "shows_row l j \<noteq> None" "rowOf (iv_content (views l ! k)) = Some r"
      "rowOf (iv_content (views l ! j)) = Some r" unfolding sh1 by auto
    then show "k = j" using same rowOf by metis
  qed
  let ?rs = "filter (\<lambda>i. i \<notin> set js) [fst rng..snd rng]"
  have "\<forall>r \<in> set ?rs. 0 \<le> r \<and> r < int (length (rows l1))"
    using range_valid [OF rng [symmetric]] rows1 by (auto simp: in_range_def)
  moreover have "set ?rs \<inter> ran (shows_row l1) = {}" unfolding ran1 by auto
  ultimately obtain l2 where "views_for_rows cls ?rs l1 = Inr l2" "lazy_ok cls l2" "right_items l2" "once l2"
      "ran (shows_row l2) = ran (shows_row l1) \<union> set ?rs" "frame_of l2 = frame_of l1"
    using views_for_rows_show [OF f(2) right1 once1, of ?rs] by auto
  moreover have "ran (shows_row l1) \<union> set ?rs = {fst rng..snd rng}" unfolding ran1 by (auto simp: in_range_def)
  ultimately show ?thesis using f(1,4) by (intro exI [of _ l1] exI [of _ js] exI [of _ l2]) simp
qed

section \<open>Properties\<close>

text \<open>
  The row cache is a faithful index of the expanded part of the tree: looking up the row of
  the item on a row gives the row back, an item has a row exactly when it is listed, its level is
  the number of its ancestors, and \<open>getAncestors\<close> finds them all.
\<close>

theorem tree_cache_roundtrip:
  assumes "distinct (forest_ids content)" and "lt_cache t = loadCache E content"
    and "r < length (rowToItem (lt_cache t))" and "x = rowToItem (lt_cache t) ! r"
  shows "tree_rowForItem t x = Some (int r) \<and>
    (\<exists>v xs. levelForItem t (Some x) = Some (int v) \<and> getAncestors t (Some x) = Some xs \<and> length xs = v + 2)"
proof -
  let ?es = "visible_forest E content 0 None"
  note c = cache_lookup [OF assms(1), of E]
  have d: "distinct (map fst ?es)" using visible_ids(2) assms(1) by blast
  have rows: "rowToItem (lt_cache t) = map fst ?es" using c(1) assms(2) by simp
  then have r: "r < length ?es" "x = fst (?es ! r)" using assms(3,4) by simp_all
  have "itemToRow (lt_cache t) x = Some r" using c(3) [of x r] assms(2-4) by auto
  moreover obtain v q where e: "?es ! r = (x, v, q)" using r(2) by (metis prod.collapse)
  then have "(x, v, q) \<in> set ?es" using r(1) nth_mem by metis
  then have "itemToLevel (lt_cache t) x = Some v" using c(4) [of x v] assms(2) by auto
  moreover have parents: "itemToParent (lt_cache t) y = Some p \<longleftrightarrow> (\<exists>v. (y, v, Some p) \<in> set ?es)" for y p
    unfolding assms(2) by (rule c(5))
  have "r < Suc (length ?es)" using r(1) by simp
  from ancestor_chain_found [OF d visible_parent_first(2) r(1) this parents] obtain xs where
    "ancestor_chain (Suc (length ?es)) (itemToParent (lt_cache t)) x = Some xs" "length xs = Suc v"
    using e by auto
  ultimately show ?thesis using rows by (simp add: tree_rowForItem_def levelForItem_def getAncestors_def)
qed

definition sample_forest :: "tree_item list" where
  "sample_forest = [TreeItem 10 (Some [TreeItem 2 None, TreeItem 3 (Some [TreeItem 4 None])]), TreeItem 5 None]"

definition sample_tree :: lazy_tree where
  "sample_tree = \<lparr>lt_list = (new_list [10, 2, 3, 5] 0), lt_content = sample_forest, expandedItems = {10},
     lt_cache = loadCache {10} sample_forest, viewExpanded = (\<lambda>_. False), viewLevel = (\<lambda>_. None)\<rparr>"

lemma sample_rows: "rowToItem (loadCache {10} sample_forest) = [10, 2, 3, 5]"
  by (simp add: sample_forest_def loadCache_def cache_item_def empty_cache_def)

theorem tree_cache_roundtrip_witness:
  "tree_rowForItem sample_tree 3 = Some 2 \<and> (\<exists>v xs. levelForItem sample_tree (Some 3) = Some (int v) \<and>
     getAncestors sample_tree (Some 3) = Some xs \<and> length xs = v + 2)"
proof -
  have "lt_cache sample_tree = loadCache {10} sample_forest" by (simp add: sample_tree_def)
  moreover have "distinct (forest_ids sample_forest)" by (simp add: sample_forest_def)
  moreover have "2 < length (rowToItem (lt_cache sample_tree))" "3 = rowToItem (lt_cache sample_tree) ! 2"
    by (simp_all add: sample_tree_def sample_rows)
  ultimately show ?thesis using tree_cache_roundtrip [of sample_forest sample_tree "{10}" 2 3] by simp
qed

lemma rows_changed:
  assumes "tree_ok cls t" and t': "t' = numberOfRowsChanged (set_expanded b x t)"
  shows "rows (lt_list t') = rowToItem (loadCache (expandedItems t') (lt_content t))"
    and "lt_cache t' = loadCache (expandedItems t') (lt_content t)" and "lt_content t' = lt_content t"
    and "expandedItems t' = expandedItems (set_expanded b x t)"
    and "lazy_ok cls (lt_list t')" and "right_items ((lt_list t')\<lparr>rows := rows (lt_list t)\<rparr>)" and "once (lt_list t')"
    and "distinct (rows (lt_list t))"
    and "tree_rowForItem t' y = Some r \<longleftrightarrow> 0 \<le> r \<and> r < int (length (rows (lt_list t'))) \<and> rows (lt_list t') ! nat r = y"
proof -
  let ?l = "lt_list t'" and ?c = "loadCache (expandedItems t') (lt_content t)"
  have ok: "distinct (forest_ids (lt_content t))" "rows (lt_list t) = rowToItem (loadCache (expandedItems t) (lt_content t))"
      "lazy_ok cls (lt_list t)" "right_items (lt_list t)" "once (lt_list t)"
    using assms(1) by (auto simp: tree_ok_def)
  have l: "?l = updateHeight ((lt_list t)\<lparr>rows := rowToItem ?c\<rparr>)"
    by (simp add: t' numberOfRowsChanged_def set_expanded_def Let_def)
  show cache: "lt_cache t' = ?c" and "lt_content t' = lt_content t" and "expandedItems t' = expandedItems (set_expanded b x t)"
    by (simp_all add: t' numberOfRowsChanged_def set_expanded_def Let_def)
  have sh: "shows_row ?l = shows_row (lt_list t)" by (rule ext) (simp add: l shows_row_def updateHeight_def)
  have vs: "views ?l = views (lt_list t)" "recycled ?l = recycled (lt_list t)" by (simp_all add: l updateHeight_def)
  show rs: "rows ?l = rowToItem ?c" by (simp add: l updateHeight_def)
  show "lazy_ok cls ?l" using ok(3) unfolding lazy_ok_def sh vs .
  have "shows_row (?l\<lparr>rows := rows (lt_list t)\<rparr>) = shows_row (lt_list t)" by (rule ext) (simp add: shows_row_def vs)
  then show "right_items (?l\<lparr>rows := rows (lt_list t)\<rparr>)" using ok(4) by (simp add: right_items_def vs)
  show "once ?l" using ok(5) by (simp add: once_def sh)
  show "distinct (rows (lt_list t))" using cache_lookup(2) [OF ok(1)] ok(2) by simp
  show "tree_rowForItem t' y = Some r \<longleftrightarrow> 0 \<le> r \<and> r < int (length (rows ?l)) \<and> rows ?l ! nat r = y"
    using cache_lookup(3) [OF ok(1), of "expandedItems t'" y "nat r"] unfolding tree_rowForItem_def cache rs
    by (auto simp: nat_less_iff)
qed

text \<open>
  C38: expanding or collapsing an item through its view rebuilds the rows and renders them: the
  expanded items change by that item only, and every row of the visible range is shown by exactly
  one view with the right item.
\<close>

theorem tree_toggle_shows_range:
  assumes "tree_ok cls t" and "x = iv_content (views (lt_list t) ! k)"
  shows "\<exists>t' rng. toggleItem cls k t = Inr t' \<and> tree_ok cls t' \<and>
    expandedItems t' = (if viewExpanded t k then insert x (expandedItems t) else expandedItems t - {x}) \<and>
    rng = rowsToRenderRange (lt_list t') (lastScrollHeight (lt_list t')) (lastScrollTop (lt_list t')) \<and>
    ran (shows_row (lt_list t')) = {fst rng..snd rng}"
proof -
  define u where "u = numberOfRowsChanged (set_expanded (viewExpanded t k) x t)"
  let ?l = "lt_list u"
  let ?rng = "rowsToRenderRange ?l (lastScrollHeight ?l) (lastScrollTop ?l)"
  note u = rows_changed [OF assms(1) u_def]
  obtain l1 js l2 where r: "fold (toggle_step cls (tree_rowForItem u) ?rng) [0..<length (views ?l)] (?l, []) = (l1, js)"
      "views_for_rows cls (filter (\<lambda>i. i \<notin> set js) [fst ?rng..snd ?rng]) l1 = Inr l2"
      "lazy_ok cls l2" "right_items l2" "once l2" "ran (shows_row l2) = {fst ?rng..snd ?rng}" "frame_of l2 = frame_of ?l"
    using toggle_rerenders [OF u(5-9) refl] by blast
  let ?rs = "filter (\<lambda>i. i \<notin> set js) [fst ?rng..snd ?rng]"
  have "views_for_rows cls ?rs (lt_list (u\<lparr>lt_list := l1\<rparr>)) = Inr l2" using r(2) by simp
  from tree_views_as_list [OF this] u(2-4) obtain t2 where
    t2: "tree_views_for_rows cls ?rs (u\<lparr>lt_list := l1\<rparr>) = Inr t2"
      "lt_list t2 = l2" "lt_cache t2 = loadCache (expandedItems u) (lt_content t)" "expandedItems t2 = expandedItems u" "lt_content t2 = lt_content t"
    by (metis lazy_tree.select_convs(2-4) lazy_tree.surjective lazy_tree.update_convs(1))
  let ?t' = "t2\<lparr>lt_list := hideRecycledViews cls l2\<rparr>"
  have step: "toggleItem cls k t = Inr ?t'"
    using r(1) t2(1,2) by (simp add: toggleItem_def assms(2) [symmetric] u_def Let_def)
  have fr: "frame_of (hideRecycledViews cls l2) = frame_of ?l" using r(7) by simp
  note ff = frame_fields [OF fr]
  have "tree_ok cls ?t'"
    using assms(1) t2 r(3-5) hide_ok hide_right ff(1) u(1) by (auto simp: tree_ok_def once_def)
  moreover have "rowsToRenderRange (hideRecycledViews cls l2) (lastScrollHeight (hideRecycledViews cls l2)) (lastScrollTop (hideRecycledViews cls l2)) = ?rng"
    unfolding rowsToRenderRange_def ff ..
  moreover have "expandedItems u = (if viewExpanded t k then insert x (expandedItems t) else expandedItems t - {x})" by (simp add: u(4) set_expanded_def)
  ultimately show ?thesis
    using step t2(4) r(6) by (intro exI [of _ ?t'] exI [of _ ?rng]) simp
qed

lemma sample_tree_ok: "tree_ok cls sample_tree"
proof -
  have "distinct (forest_ids sample_forest)" by (simp add: sample_forest_def)
  moreover have "rows (new_list [10, 2, 3, 5] 0) = [10, 2, 3, 5]" by (simp add: new_list_def)
  ultimately show ?thesis
    using new_list_ok(1) [of cls "[10, 2, 3, 5]" 0] new_list_ok(2,3) [of "[10, 2, 3, 5]" 0] by (simp add: tree_ok_def sample_tree_def sample_rows)
qed

theorem tree_toggle_shows_range_witness:
  "\<exists>t'. toggleItem (\<lambda>_. 0) 0 (sample_tree\<lparr>lt_list := (new_list [10, 2, 3, 5] 0)\<lparr>views := [row_view 10 0]\<rparr>\<rparr>) = Inr t' \<and>
     expandedItems t' = {}"
proof -
  let ?l = "(new_list [10, 2, 3, 5] 0)\<lparr>views := [row_view 10 0]\<rparr>"
  have sh: "shows_row ?l = [0 \<mapsto> 0]" by (rule ext) (simp add: shows_row_def row_view_def)
  have "lazy_ok (\<lambda>_. 0) ?l" "right_items ?l" "once ?l"
    unfolding lazy_ok_def right_items_def once_def sh
    by (auto simp: new_list_def row_view_def objectAt_int_def split: if_splits)
  then have "tree_ok (\<lambda>_. 0) (sample_tree\<lparr>lt_list := ?l\<rparr>)"
    using sample_tree_ok [of "\<lambda>_. 0"] by (simp add: tree_ok_def sample_tree_def)
  from tree_toggle_shows_range [OF this refl, of 0] show ?thesis
    by (auto simp: sample_tree_def row_view_def)
qed

text \<open>
  Collapsing an expanded item that is rendered is ignored by the view: the test in
  \<open>changeIsExpanded\<close> only lets views through that are not expanded, so the item leaves the set of
  expanded items while the cache, the rows and the view keep showing it expanded.
\<close>

theorem tree_collapse_leaves_rows:
  assumes "childViewForIndex (lt_list t) (tree_rowForItem t x) = Some k" and "viewExpanded t k"
  shows "collapseItem cls x t = Inr (t\<lparr>expandedItems := expandedItems t - {x}\<rparr>)"
  using assms by (simp add: collapseItem_def changeIsExpanded_def set_expanded_def tree_rowForItem_def)

theorem tree_collapse_leaves_rows_witness:
  "collapseItem (\<lambda>_. 0) 10 (sample_tree\<lparr>lt_list := (new_list [10, 2, 3, 5] 0)\<lparr>views := [row_view 10 0]\<rparr>, viewExpanded := (\<lambda>_. True)\<rparr>)
   = Inr (sample_tree\<lparr>lt_list := (new_list [10, 2, 3, 5] 0)\<lparr>views := [row_view 10 0]\<rparr>, viewExpanded := (\<lambda>_. True), expandedItems := {}\<rparr>)"
proof -
  let ?t = "sample_tree\<lparr>lt_list := (new_list [10, 2, 3, 5] 0)\<lparr>views := [row_view 10 0]\<rparr>, viewExpanded := (\<lambda>_. True)\<rparr>"
  have "itemToRow (loadCache {10} sample_forest) 10 = Some 0"
    by (simp add: sample_forest_def loadCache_def cache_item_def empty_cache_def)
  then have "childViewForIndex (lt_list ?t) (tree_rowForItem ?t 10) = Some 0"
    by (simp add: childViewForIndex_def tree_rowForItem_def sample_tree_def row_view_def)
  from tree_collapse_leaves_rows [OF this] show ?thesis by (simp add: sample_tree_def)
qed

end
