(* ===== verification/Cell_Updates.thy ===== *)
theory Cell_Updates
  imports Flame_Prelude
begin

text \<open>
  How \<open>views/table_data_view.js\<close> puts cells on the screen: \<open>_renderTable\<close>, the two updaters
  \<open>_cellsDidChange\<close> and \<open>_updatingCellsDidChange\<close>, and \<open>manipulateCells\<close> with
  \<open>_batchUpdate\<close>, which spreads a long list of dirty cells over several run loops.
\<close>

section \<open>Cells and elements\<close>

text \<open>
  A cell is an object \<open>'c\<close> of a class derived from \<open>TableCell\<close> (\<open>utils/table_cell.js\<close>); the
  table only calls its methods, collected in the record below.  \<open>options\<close> (title/value
  pairs) and \<open>placeholder\<close> are methods the base class does not have (\<open>None\<close>); its
  \<open>editableValue\<close> throws.
\<close>

datatype cell_content = NoContent | TextContent string | NodeContent string

record 'c cell_class =
  cl_content :: "'c \<Rightarrow> cell_content"
  cl_cssClasses :: "'c \<Rightarrow> string list"
  cl_titleValue :: "'c \<Rightarrow> string option"
  cl_inlineStyles :: "'c \<Rightarrow> string"
  cl_markUpdating :: "'c \<Rightarrow> 'c"
  cl_isEditable :: "'c \<Rightarrow> bool"
  cl_isPastable :: "'c \<Rightarrow> bool"
  cl_isCopyable :: "'c \<Rightarrow> bool"
  cl_options :: "('c \<Rightarrow> (string \<times> string) list option) option"
  cl_placeholder :: "('c \<Rightarrow> string) option"
  cl_formattedValue :: "'c \<Rightarrow> string option"
  cl_editableValue :: "'c \<Rightarrow> string option result"
  cl_validate :: "'c \<Rightarrow> string \<Rightarrow> bool"
  cl_showEditor :: "'c \<Rightarrow> bool"
  cl_showReadOnlyEditor :: "'c \<Rightarrow> bool"

definition cssClassesString :: "'c cell_class \<Rightarrow> 'c \<Rightarrow> string" where
  "cssClassesString K c = join '' '' (cl_cssClasses K c)"

text \<open>
  The methods of \<open>TableCell\<close> itself, on its \<open>value\<close> (\<open>None\<close> for \<open>null\<close>) and its
  \<open>isUpdating\<close> mark.
\<close>

record table_cell =
  tc_value :: "string option"
  tc_isUpdating :: bool

definition TableCell_class :: "table_cell cell_class" where
  "TableCell_class = \<lparr>
     cl_content = (\<lambda>c. TextContent (case tc_value c of None \<Rightarrow> [] | Some v \<Rightarrow> v)),
     cl_cssClasses = (\<lambda>c. []),
     cl_titleValue = (\<lambda>c. None),
     cl_inlineStyles = (\<lambda>c. []),
     cl_markUpdating = (\<lambda>c. c\<lparr>tc_isUpdating := True\<rparr>),
     cl_isEditable = (\<lambda>c. False),
     cl_isPastable = (\<lambda>c. True),
     cl_isCopyable = (\<lambda>c. True),
     cl_options = None,
     cl_placeholder = None,
     cl_formattedValue = (\<lambda>c. Some (case tc_value c of None \<Rightarrow> [] | Some v \<Rightarrow> v)),
     cl_editableValue = (\<lambda>c. Inl (ThrownError ''Not implemented'')),
     cl_validate = (\<lambda>c v. True),
     cl_showEditor = (\<lambda>c. False),
     cl_showReadOnlyEditor = (\<lambda>c. False)\<rparr>"

text \<open>
  An entry of \<open>data\<close>: nothing yet, a cell, or the placeholder \<open>{pending: {isUpdating: ...}}\<close>
  (which has none of the methods of a cell, so calling one throws).
\<close>

datatype 'c slot = Missing | Cell 'c | Pending bool

datatype body = TextBody string | NodeBody string

record element =
  el_class :: string
  el_width :: string
  el_styles :: string
  el_title :: string
  el_body :: body

type_synonym 'c updater = "'c slot \<Rightarrow> element \<Rightarrow> bool \<Rightarrow> ('c slot \<times> element) result"

definition parity_class :: "bool \<Rightarrow> string" where
  "parity_class isEvenColumn = (if isEvenColumn then '' even-col'' else '' odd-col'')"

section \<open>The first rendering\<close>

text \<open>
  One \<open>td\<close> of \<open>_renderTable\<close>.  \<open>escape\<close> is \<open>Handlebars.Utils.escapeExpression\<close>.  The format
  string is \<open><td data-index="%@" class="%@" style="width: %@px; %@" %@>%@</td>\<close>, with the
  arguments index, classes, width, title, inline styles and content in that order.
\<close>

definition quoted :: "string \<Rightarrow> string \<Rightarrow> string" where
  "quoted attr v = attr @ ''='' @ [CHR 0x22] @ v @ [CHR 0x22]"

definition td_markup :: "string \<Rightarrow> string \<Rightarrow> string \<Rightarrow> string \<Rightarrow> string \<Rightarrow> string \<Rightarrow> string" where
  "td_markup index classes width arg4 arg5 content =
     ''<td '' @ quoted ''data-index'' index @ '' '' @ quoted ''class'' classes @ '' ''
     @ quoted ''style'' (''width: '' @ width @ ''px; '' @ arg4) @ '' '' @ arg5 @ ''>'' @ content @ ''</td>''"

definition render_content :: "(string \<Rightarrow> string) \<Rightarrow> cell_content \<Rightarrow> string" where
  "render_content escape c = (case c of
       NoContent \<Rightarrow> escape [] | TextContent s \<Rightarrow> escape s | NodeContent html \<Rightarrow> html)"

definition title_markup :: "(string \<Rightarrow> string) \<Rightarrow> string option \<Rightarrow> string" where
  "title_markup escape t = (case t of
       None \<Rightarrow> [] | Some s \<Rightarrow> (if s = [] then [] else quoted ''title'' (escape s)))"

definition loading_markup :: string where
  "loading_markup = ''<span '' @ quoted ''style'' ''color: #999'' @ ''>...</span>''"

definition render_td ::
  "(string \<Rightarrow> string) \<Rightarrow> 'c cell_class \<Rightarrow> nat \<Rightarrow> nat \<Rightarrow> 'c slot \<Rightarrow> string result" where
  "render_td escape K width j s = (case s of
       Missing \<Rightarrow> Inr (td_markup (decimal j) (parity_class (even j)) (decimal width) [] [] loading_markup)
     | Pending b \<Rightarrow> Inl TypeError
     | Cell c \<Rightarrow> Inr (td_markup (decimal j) (cssClassesString K c @ parity_class (even j)) (decimal width)
           (title_markup escape (cl_titleValue K c)) (cl_inlineStyles K c)
           (render_content escape (cl_content K c))))"

text \<open>
  \<open>columnLeafs[j].get('render_width') || defaultCellWidth\<close>, for every column of the first row.
\<close>

definition column_width :: "nat option list \<Rightarrow> nat \<Rightarrow> nat \<Rightarrow> nat result" where
  "column_width leafs dflt j = (case objectAt leafs j of
       None \<Rightarrow> Inl TypeError
     | Some None \<Rightarrow> Inr dflt
     | Some (Some w) \<Rightarrow> Inr (if w = 0 then dflt else w))"

fun render_row ::
  "(string \<Rightarrow> string) \<Rightarrow> 'c cell_class \<Rightarrow> nat option list \<Rightarrow> nat \<Rightarrow> 'c slot list \<Rightarrow> nat list \<Rightarrow> string result" where
  "render_row escape K leafs dflt row [] = Inr []"
| "render_row escape K leafs dflt row (j # js) =
     rbind (column_width leafs dflt j) (\<lambda>w.
     rbind (render_td escape K w j (if j < length row then row ! j else Missing)) (\<lambda>td.
     rbind (render_row escape K leafs dflt row js) (\<lambda>rest. Inr (td @ rest))))"

fun render_rows ::
  "(string \<Rightarrow> string) \<Rightarrow> 'c cell_class \<Rightarrow> nat option list \<Rightarrow> nat \<Rightarrow> nat \<Rightarrow> nat \<Rightarrow> 'c slot list list \<Rightarrow> string result" where
  "render_rows escape K leafs dflt cols i [] = Inr []"
| "render_rows escape K leafs dflt cols i (r # rs) =
     rbind (render_row escape K leafs dflt r [0..<cols]) (\<lambda>tds.
     rbind (render_rows escape K leafs dflt cols (Suc i) rs) (\<lambda>rest.
     Inr (''<tr '' @ quoted ''data-index'' (decimal i) @ ''>'' @ tds @ ''</tr>'' @ rest)))"

definition renderTable ::
  "(string \<Rightarrow> string) \<Rightarrow> 'c cell_class \<Rightarrow> nat option list \<Rightarrow> nat \<Rightarrow> bool \<Rightarrow> 'c slot list list \<Rightarrow> string result" where
  "renderTable escape K leafs dflt allowSelection d = (case d of
       [] \<Rightarrow> Inr []
     | r # rs \<Rightarrow>
        rbind (render_rows escape K leafs dflt (length r) 0 d) (\<lambda>trs.
        Inr (''<table '' @ quoted ''class'' (''flame-table'' @ (if allowSelection then [] else '' is-selectable''))
             @ '' '' @ quoted ''width'' ''1px'' @ ''>'' @ trs @ ''</table>''
             @ ''<div '' @ quoted ''class'' ''table-selection'' @ ''></div>''
             @ ''<input '' @ quoted ''type'' ''text'' @ '' '' @ quoted ''class'' ''table-edit-field'' @ ''>''
             @ ''<div '' @ quoted ''class'' ''clipboard-container'' @ ''></div>'')))"

section \<open>Updating elements in place\<close>

text \<open>
  The callback of \<open>_cellsDidChange\<close>.  A placeholder is truthy but has no
  \<open>cssClassesString\<close>.  The style attribute is rewritten with the width the element had.
\<close>

definition show_cell :: "'c cell_class \<Rightarrow> 'c updater" where
  "show_cell K s el isEvenColumn = (case s of
       Cell c \<Rightarrow> Inr (s, el\<lparr>
           el_class := cssClassesString K c @ parity_class isEvenColumn,
           el_styles := cl_inlineStyles K c,
           el_body := (case cl_content K c of NoContent \<Rightarrow> TextBody []
               | TextContent t \<Rightarrow> TextBody t | NodeContent n \<Rightarrow> NodeBody n),
           el_title := (case cl_titleValue K c of None \<Rightarrow> el_title el
               | Some t \<Rightarrow> (if t = [] then el_title el else t))\<rparr>)
     | _ \<Rightarrow> Inl TypeError)"

text \<open>The callback of \<open>_updatingCellsDidChange\<close>.\<close>

definition mark_updating :: "'c cell_class \<Rightarrow> 'c updater" where
  "mark_updating K s el isEvenColumn = (case s of
       Missing \<Rightarrow> Inl TypeError
     | Pending b \<Rightarrow> Inr (Pending True, el\<lparr>el_class := el_class el @ parity_class isEvenColumn\<rparr>)
     | Cell c \<Rightarrow> (let c' = cl_markUpdating K c
                 in Inr (Cell c', el\<lparr>el_class := cssClassesString K c' @ parity_class isEvenColumn\<rparr>)))"

section \<open>Batches\<close>

text \<open>
  The parts of the view the updates work on: the data grid, the \<open>td\<close> elements of the table in
  document order, the update counter, and the closures scheduled with \<open>Ember.run.next\<close>.  A
  closure is the argument list of the \<open>_batchUpdate\<close> call it makes; \<open>None\<close> as update counter
  is \<open>undefined\<close>.
\<close>

record 'c batch =
  b_maxUpdates :: int
  b_startIx :: nat
  b_counter :: "nat option"
  b_cellRefs :: "(nat \<times> nat) list"
  b_callback :: "'c updater"

record 'c screen =
  s_data :: "'c slot list list"
  s_elements :: "element list"
  s_updateCounter :: nat
  s_queue :: "'c batch list"

text \<open>Writing \<open>data[x][y]\<close>: an index past the end of the row extends it with holes.\<close>

definition put_slot :: "nat \<Rightarrow> nat \<Rightarrow> 'c slot \<Rightarrow> 'c slot list list \<Rightarrow> 'c slot list list" where
  "put_slot x y s d = d[x := (let row = d ! x @ replicate (Suc y - length (d ! x)) Missing in row[y := s])]"

definition get_slot :: "'c slot list list \<Rightarrow> nat \<Rightarrow> nat \<Rightarrow> 'c slot" where
  "get_slot d x y = (if x < length d \<and> y < length (d ! x) then d ! x ! y else Missing)"

text \<open>The body of the loop.\<close>

definition update_cell ::
  "'c updater \<Rightarrow> nat \<Rightarrow> nat \<times> nat \<Rightarrow> 'c slot list list \<times> element list \<Rightarrow> ('c slot list list \<times> element list) result" where
  "update_cell callback columnLength ref de = (case (ref, de) of ((x, y), (d, els)) \<Rightarrow>
     (if length d \<le> x then Inl TypeError
      else
        (let s = (case get_slot d x y of Missing \<Rightarrow> Pending False | s \<Rightarrow> s);
             d1 = (if get_slot d x y = Missing then put_slot x y s d else d);
             k = x * columnLength + y
         in if k < length els
            then rbind (callback s (els ! k) (even y)) (\<lambda>(s', el').
                 Inr (put_slot x y s' d1, els[k := el']))
            else Inr (d1, els))))"

fun update_cells ::
  "'c updater \<Rightarrow> nat \<Rightarrow> (nat \<times> nat) list \<Rightarrow> 'c slot list list \<times> element list \<Rightarrow> ('c slot list list \<times> element list) result" where
  "update_cells callback columnLength [] de = Inr de"
| "update_cells callback columnLength (r # rs) de =
     rbind (update_cell callback columnLength r de) (update_cells callback columnLength rs)"

definition batchUpdate :: "'c batch \<Rightarrow> 'c screen \<Rightarrow> 'c screen result" where
  "batchUpdate b v =
     (if b_counter b \<noteq> None \<and> b_counter b \<noteq> Some (s_updateCounter v) then Inr v
      else (case s_data v of
         [] \<Rightarrow> Inl TypeError
       | row0 # _ \<Rightarrow>
          (let len = length (b_cellRefs b);
               upTo = (if b_maxUpdates b = -1 then len else nat (b_maxUpdates b));
               now = take upTo (drop (b_startIx b) (b_cellRefs b));
               i = b_startIx b + length now
           in rbind (update_cells (b_callback b) (length row0) now (s_data v, s_elements v)) (\<lambda>(d, els).
              let v' = v\<lparr>s_data := d, s_elements := els\<rparr>
              in Inr (if i < len then v'\<lparr>s_queue := s_queue v' @ [b\<lparr>b_startIx := i\<rparr>]\<rparr> else v')))))"

text \<open>
  \<open>manipulateCells\<close> takes the references over and leaves the caller an empty array
  (\<open>cellRefs.splice\<close>): the result has the references that remain.  \<open>limit\<close> is
  \<open>updateBatchSize\<close> when \<open>batchUpdates\<close> is set, \<open>-1\<close> otherwise.
\<close>

definition manipulateCells ::
  "bool \<Rightarrow> int \<Rightarrow> (nat \<times> nat) list \<Rightarrow> 'c updater \<Rightarrow> nat option \<Rightarrow> 'c screen \<Rightarrow> ((nat \<times> nat) list \<times> 'c screen) result" where
  "manipulateCells inDOM limit cellRefs callback counter v =
     (if cellRefs = [] \<or> \<not> inDOM then Inr (cellRefs, v)
      else rbind (batchUpdate \<lparr>b_maxUpdates = limit, b_startIx = 0, b_counter = counter,
                     b_cellRefs = cellRefs, b_callback = callback\<rparr> v) (\<lambda>v'. Inr ([], v')))"

definition cellsDidChange ::
  "'c cell_class \<Rightarrow> bool \<Rightarrow> int \<Rightarrow> (nat \<times> nat) list \<Rightarrow> 'c screen \<Rightarrow> ((nat \<times> nat) list \<times> 'c screen) result" where
  "cellsDidChange K inDOM limit dirtyCells v =
     (let v1 = v\<lparr>s_updateCounter := Suc (s_updateCounter v)\<rparr>
      in manipulateCells inDOM limit dirtyCells (show_cell K) (Some (s_updateCounter v1)) v1)"

definition updatingCellsDidChange ::
  "'c cell_class \<Rightarrow> bool \<Rightarrow> int \<Rightarrow> (nat \<times> nat) list \<Rightarrow> 'c screen \<Rightarrow> ((nat \<times> nat) list \<times> 'c screen) result" where
  "updatingCellsDidChange K inDOM limit marked v =
     manipulateCells inDOM limit marked (mark_updating K) None v"

text \<open>The next run loop: the first scheduled closure runs.\<close>

definition run_next :: "'c screen \<Rightarrow> 'c screen result" where
  "run_next v = (case s_queue v of [] \<Rightarrow> Inr v | b # bs \<Rightarrow> batchUpdate b (v\<lparr>s_queue := bs\<rparr>))"

fun run_loops :: "nat \<Rightarrow> 'c screen \<Rightarrow> 'c screen result" where
  "run_loops 0 v = Inr v"
| "run_loops (Suc n) v = rbind (run_next v) (run_loops n)"

section \<open>The grid\<close>

text \<open>
  A rendered table: all rows of \<open>data\<close> have the length of the first, and there is one element
  per entry, row by row.
\<close>

definition grid_cols :: "'c slot list list \<Rightarrow> nat" where
  "grid_cols d = length (hd d)"

definition in_grid :: "'c slot list list \<Rightarrow> nat \<times> nat \<Rightarrow> bool" where
  "in_grid d p \<longleftrightarrow> fst p < length d \<and> snd p < grid_cols d"

definition grid_ok :: "'c slot list list \<Rightarrow> bool" where
  "grid_ok d \<longleftrightarrow> d \<noteq> [] \<and> list_all (\<lambda>r. length r = grid_cols d) d"

definition screen_ok :: "'c screen \<Rightarrow> bool" where
  "screen_ok v \<longleftrightarrow> grid_ok (s_data v) \<and> length (s_elements v) = length (s_data v) * grid_cols (s_data v)"

definition flat :: "nat \<Rightarrow> nat \<times> nat \<Rightarrow> nat" where
  "flat cols p = fst p * cols + snd p"

definition is_cell :: "'c slot \<Rightarrow> bool" where
  "is_cell s = (case s of Cell c \<Rightarrow> True | _ \<Rightarrow> False)"

definition holds_cell :: "'c slot list list \<Rightarrow> nat \<times> nat \<Rightarrow> bool" where
  "holds_cell d p \<longleftrightarrow> in_grid d p \<and> is_cell (get_slot d (fst p) (snd p))"

text \<open>What the user sees of a cell: the classes, the inline styles and the content.\<close>

definition shows_cell :: "'c cell_class \<Rightarrow> nat \<Rightarrow> 'c slot \<Rightarrow> element \<Rightarrow> bool" where
  "shows_cell K y s el = (case s of
       Cell c \<Rightarrow> el_class el = cssClassesString K c @ parity_class (even y)
               \<and> el_styles el = cl_inlineStyles K c
               \<and> el_body el = (case cl_content K c of NoContent \<Rightarrow> TextBody []
                    | TextContent t \<Rightarrow> TextBody t | NodeContent n \<Rightarrow> NodeBody n)
     | _ \<Rightarrow> False)"

lemma flat_inj:
  assumes "snd p < cols" and "snd q < cols" and "flat cols p = flat cols q"
  shows "p = q"
proof -
  have "flat cols p div cols = fst p" "flat cols p mod cols = snd p" using assms(1) by (auto simp: flat_def)
  moreover have "flat cols q div cols = fst q" "flat cols q mod cols = snd q"
    using assms(2) by (auto simp: flat_def)
  ultimately show ?thesis using assms(3) by (simp add: prod_eq_iff)
qed

lemma flat_less: "in_grid d p \<Longrightarrow> flat (grid_cols d) p < length d * grid_cols d"
proof -
  assume "in_grid d p"
  then have "fst p < length d" "snd p < grid_cols d" by (auto simp: in_grid_def)
  then have "flat (grid_cols d) p < Suc (fst p) * grid_cols d" by (simp add: flat_def)
  also have "\<dots> \<le> length d * grid_cols d" using \<open>fst p < length d\<close> by (intro mult_le_mono1) simp
  finally show ?thesis .
qed

lemma grid_row_length: "grid_ok d \<Longrightarrow> x < length d \<Longrightarrow> length (d ! x) = grid_cols d"
  by (auto simp: grid_ok_def list_all_length)

lemma get_slot_in: "grid_ok d \<Longrightarrow> in_grid d (x, y) \<Longrightarrow> get_slot d x y = d ! x ! y"
  by (auto simp: get_slot_def in_grid_def grid_row_length)

lemma put_slot_same:
  assumes "x < length d" and "y < length (d ! x)"
  shows "put_slot x y (d ! x ! y) d = d"
  using assms by (simp add: put_slot_def Let_def)

lemma update_cell_show:
  assumes "grid_ok d" and "holds_cell d (x, y)" and "length els = length d * grid_cols d"
  shows "\<exists>el. update_cell (show_cell K) (grid_cols d) (x, y) (d, els)
      = Inr (d, els[flat (grid_cols d) (x, y) := el]) \<and> shows_cell K y (get_slot d x y) el"
proof -
  have xy: "x < length d" "y < length (d ! x)"
    using assms(1,2) by (auto simp: holds_cell_def in_grid_def grid_row_length)
  obtain c where c: "d ! x ! y = Cell c"
    using assms(1,2) xy by (auto simp: holds_cell_def is_cell_def get_slot_def split: slot.splits)
  have "flat (grid_cols d) (x, y) < length els"
    using flat_less assms(2,3) by (metis holds_cell_def)
  then show ?thesis
    using xy c put_slot_same [OF xy]
    by (auto simp: update_cell_def get_slot_def Let_def show_cell_def flat_def shows_cell_def)
qed

lemma update_cells_append:
  "update_cells cb n (rs @ rs') de = rbind (update_cells cb n rs de) (update_cells cb n rs')"
  by (induction rs arbitrary: de) (simp_all add: rbind_assoc cong: rbind_cong)

text \<open>A pass over dirty cells shows each of them and touches no other element.\<close>

lemma update_cells_show:
  assumes "grid_ok d" and "\<forall>p\<in>set refs. holds_cell d p" and "length els = length d * grid_cols d"
  shows "\<exists>els'. update_cells (show_cell K) (grid_cols d) refs (d, els) = Inr (d, els')
     \<and> length els' = length els
     \<and> (\<forall>p. in_grid d p \<longrightarrow> (p \<in> set refs \<longrightarrow> shows_cell K (snd p) (get_slot d (fst p) (snd p)) (els' ! flat (grid_cols d) p))
                      \<and> (p \<notin> set refs \<longrightarrow> els' ! flat (grid_cols d) p = els ! flat (grid_cols d) p))"
  using assms(2,3)
proof (induction refs arbitrary: els)
  case Nil
  then show ?case by simp
next
  case (Cons r refs)
  obtain x y where r: "r = (x, y)" by (cases r)
  let ?f = "flat (grid_cols d)"
  obtain el where el: "update_cell (show_cell K) (grid_cols d) r (d, els) = Inr (d, els[?f r := el])"
    and sh: "shows_cell K y (get_slot d x y) el"
    using update_cell_show [OF assms(1), of x y els K] Cons.prems r by auto
  obtain els' where IH: "update_cells (show_cell K) (grid_cols d) refs (d, els[?f r := el]) = Inr (d, els')"
      "length els' = length els"
      "\<And>p. in_grid d p \<Longrightarrow> p \<in> set refs \<Longrightarrow> shows_cell K (snd p) (get_slot d (fst p) (snd p)) (els' ! ?f p)"
      "\<And>p. in_grid d p \<Longrightarrow> p \<notin> set refs \<Longrightarrow> els' ! ?f p = els[?f r := el] ! ?f p"
    using Cons.IH [of "els[?f r := el]"] Cons.prems by auto
  have rin: "in_grid d r" using Cons.prems by (auto simp: holds_cell_def)
  have rl: "?f r < length els" using flat_less [OF rin] Cons.prems by simp
  have ne: "?f p \<noteq> ?f r" if "in_grid d p" "p \<noteq> r" for p
    using flat_inj [of p "grid_cols d" r] that rin by (auto simp: in_grid_def)
  have "shows_cell K (snd p) (get_slot d (fst p) (snd p)) (els' ! ?f p)" if p: "in_grid d p" "p \<in> set (r # refs)" for p
    using IH(3) [OF p(1)] IH(4) [OF p(1)] p(2) rl sh r by (cases "p \<in> set refs") auto
  moreover have "els' ! ?f p = els ! ?f p" if p: "in_grid d p" "p \<notin> set (r # refs)" for p
    using IH(4) [OF p(1)] ne [OF p(1)] p(2) by auto
  ultimately show ?case using el IH(1,2) by auto
qed

section \<open>Batches are one pass\<close>

text \<open>A batch that is current and whose limit is positive makes progress.\<close>

lemma batchUpdate_current:
  assumes "b_counter b = None \<or> b_counter b = Some (s_updateCounter v)" and "s_data v \<noteq> []"
    and "0 < b_maxUpdates b"
  shows "batchUpdate b v = rbind (update_cells (b_callback b) (grid_cols (s_data v))
           (take (nat (b_maxUpdates b)) (drop (b_startIx b) (b_cellRefs b))) (s_data v, s_elements v)) (\<lambda>(d, els).
       Inr (if b_startIx b + nat (b_maxUpdates b) < length (b_cellRefs b)
            then v\<lparr>s_data := d, s_elements := els,
                   s_queue := s_queue v @ [b\<lparr>b_startIx := b_startIx b + nat (b_maxUpdates b)\<rparr>]\<rparr>
            else v\<lparr>s_data := d, s_elements := els\<rparr>))"
proof -
  obtain row0 rest where d: "s_data v = row0 # rest" using assms(2) by (cases "s_data v") auto
  have iff: "b_startIx b + min (length (b_cellRefs b) - b_startIx b) (nat (b_maxUpdates b)) < length (b_cellRefs b)
      \<longleftrightarrow> b_startIx b + nat (b_maxUpdates b) < length (b_cellRefs b)" by linarith
  have eq: "b_startIx b + min (length (b_cellRefs b) - b_startIx b) (nat (b_maxUpdates b))
      = b_startIx b + nat (b_maxUpdates b)"
    if "b_startIx b + nat (b_maxUpdates b) < length (b_cellRefs b)" using that by linarith
  have mx: "b_maxUpdates b \<noteq> - 1" using assms(3) by simp
  show ?thesis
    using assms(1,3) iff eq mx
    by (cases "b_startIx b + nat (b_maxUpdates b) < length (b_cellRefs b)")
      (auto simp: batchUpdate_def Let_def d grid_cols_def intro!: arg_cong2 [where f = rbind])
qed

lemma batch_runs_out:
  assumes "grid_ok d" and "\<forall>p\<in>set (b_cellRefs b). holds_cell d p"
    and "b_callback b = show_cell K" and "0 < b_maxUpdates b"
    and "b_counter b = Some (s_updateCounter v)" and "s_data v = d"
    and "length (s_elements v) = length d * grid_cols d" and "s_queue v = []"
    and "length (b_cellRefs b) - b_startIx b \<le> n"
  shows "\<exists>v1 els. batchUpdate b v = Inr v1
     \<and> update_cells (show_cell K) (grid_cols d) (drop (b_startIx b) (b_cellRefs b)) (d, s_elements v) = Inr (d, els)
     \<and> run_loops n v1 = Inr (v\<lparr>s_elements := els\<rparr>)"
  using assms(2-)
proof (induction n arbitrary: b v)
  case 0
  then have "batchUpdate b v = Inr v" "drop (b_startIx b) (b_cellRefs b) = []"
    using assms(1) by (simp_all add: batchUpdate_current grid_ok_def)
  then show ?case using 0 by auto
next
  case (Suc n)
  let ?now = "take (nat (b_maxUpdates b)) (drop (b_startIx b) (b_cellRefs b))"
  let ?later = "drop (nat (b_maxUpdates b)) (drop (b_startIx b) (b_cellRefs b))"
  have "\<forall>p\<in>set ?now. holds_cell d p" using Suc.prems(1) by (meson in_set_takeD in_set_dropD)
  then obtain els1 where e1: "update_cells (show_cell K) (grid_cols d) ?now (d, s_elements v) = Inr (d, els1)"
      "length els1 = length (s_elements v)"
    using update_cells_show [OF assms(1) _ Suc.prems(6), of ?now K] by auto
  have bu: "batchUpdate b v = Inr (if b_startIx b + nat (b_maxUpdates b) < length (b_cellRefs b)
      then v\<lparr>s_elements := els1, s_queue := [b\<lparr>b_startIx := b_startIx b + nat (b_maxUpdates b)\<rparr>]\<rparr>
      else v\<lparr>s_elements := els1\<rparr>)"
    using batchUpdate_current [of b v] Suc.prems assms(1) e1 by (auto simp: grid_ok_def)
  have split: "update_cells (show_cell K) (grid_cols d) (drop (b_startIx b) (b_cellRefs b)) (d, s_elements v)
      = update_cells (show_cell K) (grid_cols d) ?later (d, els1)"
    using update_cells_append [of "show_cell K" "grid_cols d" ?now ?later "(d, s_elements v)"] e1
    by (simp del: drop_drop)
  show ?case
  proof (cases "b_startIx b + nat (b_maxUpdates b) < length (b_cellRefs b)")
    case True
    let ?b = "b\<lparr>b_startIx := b_startIx b + nat (b_maxUpdates b)\<rparr>"
    have dl: "?later = drop (b_startIx ?b) (b_cellRefs ?b)" by (simp add: add.commute)
    have "length (b_cellRefs ?b) - b_startIx ?b \<le> n" using Suc.prems(3,8) by simp
    then obtain v1 els where "batchUpdate ?b (v\<lparr>s_elements := els1\<rparr>) = Inr v1"
        "update_cells (show_cell K) (grid_cols d) ?later (d, els1) = Inr (d, els)"
        "run_loops n v1 = Inr (v\<lparr>s_elements := els\<rparr>)"
      using Suc.IH [of ?b "v\<lparr>s_elements := els1\<rparr>"] Suc.prems e1(2) dl by auto
    moreover have "v\<lparr>s_elements := els1, s_queue := []\<rparr> = v\<lparr>s_elements := els1\<rparr>" using Suc.prems(7) by simp
    ultimately show ?thesis using bu True split by (auto simp: run_next_def)
  next
    case False
    then have "?later = []" by simp
    moreover have "run_loops m (v\<lparr>s_elements := els1\<rparr>) = Inr (v\<lparr>s_elements := els1\<rparr>)" for m
      using Suc.prems(7) by (induction m) (simp_all add: run_next_def)
    ultimately show ?thesis using bu False split by (auto simp del: run_loops.simps)
  qed
qed


definition blank_el :: element where
  "blank_el = \<lparr>el_class = [], el_width = ''90px'', el_styles = [], el_title = [], el_body = TextBody ''...''\<rparr>"

definition text_cell :: "string \<Rightarrow> table_cell slot" where
  "text_cell t = Cell \<lparr>tc_value = Some t, tc_isUpdating = False\<rparr>"

definition three_cells :: "table_cell screen" where
  "three_cells = \<lparr>s_data = [[text_cell ''a'', text_cell ''b'', text_cell ''c'']],
     s_elements = [blank_el, blank_el, blank_el], s_updateCounter = 0, s_queue = []\<rparr>"

lemma three_cells_ok:
  "screen_ok three_cells" "holds_cell (s_data three_cells) (0, 0)" "holds_cell (s_data three_cells) (0, 1)"
  "holds_cell (s_data three_cells) (0, 2)"
  by (simp_all add: screen_ok_def three_cells_def grid_ok_def grid_cols_def holds_cell_def in_grid_def
      get_slot_def is_cell_def text_cell_def)


section \<open>Superseded batches\<close>

text \<open>
  A scheduled batch of an earlier change stops at once when it runs, because the counter has
  moved on.  \<open>only_refs S v\<close>: every scheduled batch is out of date or about cells of \<open>S\<close>.
\<close>

definition only_refs :: "(nat \<times> nat) list \<Rightarrow> 'c cell_class \<Rightarrow> 'c screen \<Rightarrow> bool" where
  "only_refs S K v \<longleftrightarrow> (\<forall>b\<in>set (s_queue v).
      (b_counter b \<noteq> None \<and> b_counter b \<noteq> Some (s_updateCounter v))
      \<or> (set (b_cellRefs b) \<subseteq> set S \<and> b_callback b = show_cell K \<and> 0 < b_maxUpdates b))"

definition untouched :: "(nat \<times> nat) list \<Rightarrow> 'c screen \<Rightarrow> 'c screen \<Rightarrow> bool" where
  "untouched S v v' \<longleftrightarrow> s_data v' = s_data v \<and> length (s_elements v') = length (s_elements v)
     \<and> (\<forall>p. in_grid (s_data v) p \<longrightarrow> p \<notin> set S \<longrightarrow>
          s_elements v' ! flat (grid_cols (s_data v)) p = s_elements v ! flat (grid_cols (s_data v)) p)"

lemma untouched_refl [simp]: "untouched S v v"
  by (simp add: untouched_def)

lemma untouched_trans: "untouched S v1 v2 \<Longrightarrow> untouched S v2 v3 \<Longrightarrow> untouched S v1 v3"
  by (simp add: untouched_def)

lemma batchUpdate_untouched:
  assumes "screen_ok v" and "\<forall>p\<in>set S. holds_cell (s_data v) p"
    and "only_refs S K (v\<lparr>s_queue := b # s_queue v\<rparr>)" and "batchUpdate b v = Inr v'"
  shows "untouched S v v' \<and> only_refs S K v' \<and> screen_ok v'"
proof (cases "b_counter b \<noteq> None \<and> b_counter b \<noteq> Some (s_updateCounter v)")
  case True
  then have "v' = v" using assms(4) by (simp add: batchUpdate_def)
  then show ?thesis using assms(1,3) by (auto simp: only_refs_def)
next
  case False
  then have b: "set (b_cellRefs b) \<subseteq> set S" "b_callback b = show_cell K" "0 < b_maxUpdates b"
    using assms(3) by (auto simp: only_refs_def)
  have ok: "grid_ok (s_data v)" "length (s_elements v) = length (s_data v) * grid_cols (s_data v)"
    using assms(1) by (auto simp: screen_ok_def)
  let ?now = "take (nat (b_maxUpdates b)) (drop (b_startIx b) (b_cellRefs b))"
  have sub: "set ?now \<subseteq> set S" using b(1) by (meson in_set_takeD in_set_dropD subset_iff)
  have "\<forall>p\<in>set ?now. holds_cell (s_data v) p" using sub assms(2) by blast
  then obtain els where els: "update_cells (show_cell K) (grid_cols (s_data v)) ?now (s_data v, s_elements v)
        = Inr (s_data v, els)" "length els = length (s_elements v)"
      "\<And>p. in_grid (s_data v) p \<Longrightarrow> p \<notin> set ?now \<Longrightarrow>
         els ! flat (grid_cols (s_data v)) p = s_elements v ! flat (grid_cols (s_data v)) p"
    using update_cells_show [OF ok(1) _ ok(2), of ?now K] by auto
  have "v' = (if b_startIx b + nat (b_maxUpdates b) < length (b_cellRefs b)
      then v\<lparr>s_elements := els, s_queue := s_queue v @ [b\<lparr>b_startIx := b_startIx b + nat (b_maxUpdates b)\<rparr>]\<rparr>
      else v\<lparr>s_elements := els\<rparr>)"
    using batchUpdate_current [of b v] False ok(1) b(2,3) els(1) assms(4) by (auto simp: grid_ok_def)
  moreover have "els ! flat (grid_cols (s_data v)) p = s_elements v ! flat (grid_cols (s_data v)) p"
    if "in_grid (s_data v) p" "p \<notin> set S" for p using els(3) that sub by blast
  ultimately show ?thesis
    using assms(1,3) els(2) b by (auto simp: untouched_def only_refs_def screen_ok_def)
qed

lemma run_loops_untouched:
  assumes "screen_ok v" and "\<forall>p\<in>set S. holds_cell (s_data v) p" and "only_refs S K v"
    and "run_loops n v = Inr v'"
  shows "untouched S v v'"
  using assms
proof (induction n arbitrary: v)
  case 0
  then show ?case by simp
next
  case (Suc n)
  then obtain v1 where v1: "run_next v = Inr v1" "run_loops n v1 = Inr v'" by auto
  have "untouched S v v1 \<and> only_refs S K v1 \<and> screen_ok v1"
  proof (cases "s_queue v")
    case Nil
    then show ?thesis using v1(1) Suc.prems by (simp add: run_next_def)
  next
    case (Cons b bs)
    have q: "v\<lparr>s_queue := b # bs\<rparr> = v" using Cons by simp
    have "untouched S (v\<lparr>s_queue := bs\<rparr>) v1 \<and> only_refs S K v1 \<and> screen_ok v1"
      using batchUpdate_untouched [of "v\<lparr>s_queue := bs\<rparr>" S K b v1] v1(1) Suc.prems(1-3) Cons q
      by (simp add: run_next_def screen_ok_def)
    then show ?thesis by (simp add: untouched_def)
  qed
  then show ?case
    using Suc.IH [of v1] v1(2) Suc.prems(2) untouched_trans by (auto simp: untouched_def)
qed

text \<open>
  A change that arrives while an earlier one is still being worked through drops the rest
  of it.  Whatever was scheduled, after a second call of \<open>_cellsDidChange\<close> no run loop touches
  an element outside the second list of dirty cells, although the cells of the first list that
  were waiting have already been taken out of \<open>dirtyCells\<close>: they stay as they were on the
  screen.
\<close>

theorem superseded_cells_stay_stale:
  assumes "screen_ok v" and "0 < limit" and "refs \<noteq> []" and "\<forall>p\<in>set refs. holds_cell (s_data v) p"
    and "\<forall>b\<in>set (s_queue v). \<exists>m \<le> s_updateCounter v. b_counter b = Some m"
    and "cellsDidChange K True limit refs v = Inr (left, v1)" and "run_loops n v1 = Inr v2"
    and "in_grid (s_data v) p" and "p \<notin> set refs"
  shows "s_elements v2 ! flat (grid_cols (s_data v)) p = s_elements v ! flat (grid_cols (s_data v)) p"
proof -
  let ?v = "v\<lparr>s_updateCounter := Suc (s_updateCounter v)\<rparr>"
  let ?b = "\<lparr>b_maxUpdates = limit, b_startIx = 0, b_counter = Some (Suc (s_updateCounter v)),
             b_cellRefs = refs, b_callback = show_cell K\<rparr>"
  have bu: "batchUpdate ?b ?v = Inr v1"
    using assms(3,6) by (auto simp: cellsDidChange_def manipulateCells_def)
  have "only_refs refs K (?v\<lparr>s_queue := ?b # s_queue ?v\<rparr>)"
    using assms(2,5) by (fastforce simp: only_refs_def)
  then have "untouched refs ?v v1 \<and> only_refs refs K v1 \<and> screen_ok v1"
    using batchUpdate_untouched [of ?v refs K ?b v1] assms(1,4) bu by (simp add: screen_ok_def)
  moreover then have "untouched refs v1 v2"
    using run_loops_untouched [of v1 refs K n v2] assms(4,7) by (auto simp: untouched_def)
  ultimately have "untouched refs ?v v2" using untouched_trans by blast
  then show ?thesis using assms(8,9) by (cases p) (simp add: untouched_def)
qed

definition waiting_screen :: "table_cell screen" where
  "waiting_screen = three_cells\<lparr>s_updateCounter := 1, s_queue := [\<lparr>b_maxUpdates = 1, b_startIx = 1,
     b_counter = Some 1, b_cellRefs = [(0, 0), (0, 2)], b_callback = show_cell TableCell_class\<rparr>]\<rparr>"

theorem superseded_cells_stay_stale_witness:
  "\<exists>v1 v2. cellsDidChange TableCell_class True 1 [(0, 1)] waiting_screen = Inr ([], v1)
    \<and> run_loops 1 v1 = Inr v2 \<and> el_body (s_elements v2 ! 2) = TextBody ''...''"
proof -
  have ok: "screen_ok waiting_screen" "\<forall>p\<in>set [(0, 1)]. holds_cell (s_data waiting_screen) p"
    using three_cells_ok by (simp_all add: waiting_screen_def screen_ok_def)
  obtain v1 where v1: "cellsDidChange TableCell_class True 1 [(0, 1)] waiting_screen = Inr ([], v1)"
      "s_queue v1 = s_queue waiting_screen" "s_updateCounter v1 = 2"
    by (simp add: cellsDidChange_def manipulateCells_def batchUpdate_def waiting_screen_def three_cells_def
        update_cell_def get_slot_def text_cell_def show_cell_def grid_cols_def)
  obtain v2 where v2: "run_loops 1 v1 = Inr v2"
    using v1(2,3) by (simp add: run_next_def waiting_screen_def batchUpdate_def)
  have "s_elements v2 ! flat (grid_cols (s_data waiting_screen)) (0, 2)
      = s_elements waiting_screen ! flat (grid_cols (s_data waiting_screen)) (0, 2)"
    by (rule superseded_cells_stay_stale [OF ok(1) _ _ ok(2) _ v1(1) v2])
      (simp_all add: waiting_screen_def three_cells_def in_grid_def grid_cols_def)
  then have "el_body (s_elements v2 ! 2) = TextBody ''...''"
    by (simp add: waiting_screen_def three_cells_def grid_cols_def flat_def blank_el_def numeral_2_eq_2)
  then show ?thesis using v1(1) v2 by blast
qed

end
