(* ===== verification/Table_Data_View.thy ===== *)
theory Table_Data_View
  imports Statechart Cell_Updates
begin

text \<open>
  The statechart of \<open>views/table_data_view.js\<close>: selecting cells with the mouse and the
  keyboard, editing, reading, copying and pasting.  The states use the transitions of
  \<open>Statechart\<close>, what appears on the screen is \<open>Cell_Updates\<close>.

  An exception ends a handler; the model then keeps only the error, not the partly updated
  view.  The frame around the selection and scrolling to it (\<open>_updateSelection\<close>) are in
  \<open>Selection_Box\<close>; the placement of the edit field is not modelled.
\<close>

section \<open>State\<close>

text \<open>
  An element the mouse is on: a \<open>td\<close>, a numbered element inside one, the selection
  rectangle, an element inside that, or something else.
\<close>

datatype target = TdTarget "nat \<times> nat" | InsideTd "nat \<times> nat" nat | SelectionDiv
  | InsideSelection nat | OtherTarget nat

record mouse_event =
  ev_target :: target
  ev_under :: target
  ev_shift :: bool

text \<open>
  \<open>selectionEnd\<close> is \<open>null\<close>, the very jQuery object in \<open>selectedCell\<close>, or another one (two
  jQuery objects for the same cell differ under \<open>===\<close>).
\<close>

datatype sel_end = NoEnd | AtStart | AtCell "nat \<times> nat"

datatype td_state = Loaded | MouseIsDown | Selected | SelectingReadOnly | Editing

datatype td_call = DidMakeSelection "nat \<times> nat" "nat \<times> nat" | PasteDidFail string
  | DelegateMouseUp "nat \<times> nat" | MenuPopup

record 'c tdv =
  tv_screen :: "'c screen"
  tv_dirty :: "(nat \<times> nat) list"
  selectedCell :: "(nat \<times> nat) option"
  selectionEnd :: sel_end
  editValue :: "string option"
  lastTarget :: "target option"
  editField :: string
  editShown :: bool
  editInvalid :: bool
  selHtml :: string
  selReadOnly :: bool
  selShown :: bool
  selectionContent :: "string option"
  clipboard :: "string option"
  tv_allowSelection :: bool
  tv_inDOM :: bool
  tv_limit :: int
  tv_calls :: "td_call list"

text \<open>
  What comes from outside: the class of the cells, the table view delegate (its
  \<open>cellUpdated\<close> may change the cell object and tells whether the cell is dirty; whether it
  has a \<open>mouseUp\<close>), and Handlebars' escaping.
\<close>

record 'c delegate =
  dg_cellUpdated :: "'c \<Rightarrow> string \<Rightarrow> nat \<times> nat \<Rightarrow> 'c \<times> bool"
  dg_mouseUp :: bool

record 'c outside =
  ox_class :: "'c cell_class"
  ox_delegate :: "'c delegate option"
  ox_escape :: "string \<Rightarrow> string"

type_synonym 'c td_owner = "(td_state, 'c tdv) owner"
type_synonym 'c td_hook = "(td_state, 'c tdv) hook"
type_synonym 'c td_handler = "'c td_owner \<Rightarrow> (retval \<times> 'c td_owner) result"

abbreviation tv_data :: "'c tdv \<Rightarrow> 'c slot list list" where
  "tv_data v \<equiv> s_data (tv_screen v)"

definition log_call :: "'c outside \<Rightarrow> td_call \<Rightarrow> 'c tdv \<Rightarrow> 'c tdv" where
  "log_call ox k v = (if ox_delegate ox = None then v else v\<lparr>tv_calls := tv_calls v @ [k]\<rparr>)"

section \<open>Cells and the selection\<close>

definition cellForTarget :: "target \<Rightarrow> (nat \<times> nat) option" where
  "cellForTarget t = (case t of TdTarget p \<Rightarrow> Some p | InsideTd p n \<Rightarrow> Some p | _ \<Rightarrow> None)"

definition isCellSelectable :: "(nat \<times> nat) option \<Rightarrow> bool" where
  "isCellSelectable cell \<longleftrightarrow> cell \<noteq> None"

text \<open>The neighbours of a cell in the rendered table; an empty jQuery object is \<open>None\<close>.\<close>

definition prevCell :: "'c slot list list \<Rightarrow> nat \<times> nat \<Rightarrow> (nat \<times> nat) option" where
  "prevCell d p = (if 0 < snd p then Some (fst p, snd p - 1) else None)"

definition nextCell :: "'c slot list list \<Rightarrow> nat \<times> nat \<Rightarrow> (nat \<times> nat) option" where
  "nextCell d p = (if Suc (snd p) < grid_cols d then Some (fst p, Suc (snd p)) else None)"

definition cellUp :: "'c slot list list \<Rightarrow> nat \<times> nat \<Rightarrow> (nat \<times> nat) option" where
  "cellUp d p = (if 0 < fst p then Some (fst p - 1, snd p) else None)"

definition cellDown :: "'c slot list list \<Rightarrow> nat \<times> nat \<Rightarrow> (nat \<times> nat) option" where
  "cellDown d p = (if Suc (fst p) < length d then Some (Suc (fst p), snd p) else None)"

datatype dir = ToLeft | ToRight | ToDown | ToUp

definition neighbour :: "dir \<Rightarrow> 'c slot list list \<Rightarrow> nat \<times> nat \<Rightarrow> (nat \<times> nat) option" where
  "neighbour k = (case k of ToLeft \<Rightarrow> prevCell | ToRight \<Rightarrow> nextCell | ToDown \<Rightarrow> cellDown | ToUp \<Rightarrow> cellUp)"

definition end_pos :: "'c tdv \<Rightarrow> (nat \<times> nat) option" where
  "end_pos v = (case selectionEnd v of NoEnd \<Rightarrow> None | AtStart \<Rightarrow> selectedCell v | AtCell q \<Rightarrow> Some q)"

definition selectedDataCell :: "'c tdv \<Rightarrow> 'c slot result" where
  "selectedDataCell v = (case selectedCell v of
       None \<Rightarrow> Inl TypeError
     | Some (x, y) \<Rightarrow> (if x < length (tv_data v) then Inr (get_slot (tv_data v) x y) else Inl TypeError))"

definition notifySelectionChange :: "'c outside \<Rightarrow> 'c tdv \<Rightarrow> 'c tdv" where
  "notifySelectionChange ox v = (case (selectedCell v, end_pos v) of
       (Some p, Some q) \<Rightarrow> log_call ox (DidMakeSelection p q) v | _ \<Rightarrow> v)"

definition selectCell :: "'c outside \<Rightarrow> (nat \<times> nat) option \<Rightarrow> bool \<Rightarrow> 'c tdv \<Rightarrow> bool \<times> 'c tdv" where
  "selectCell ox newSelection notify v =
     (if tv_allowSelection v \<and> isCellSelectable newSelection
      then (let v1 = v\<lparr>selectedCell := newSelection, selectionEnd := AtStart\<rparr>
            in (True, if notify then notifySelectionChange ox v1 else v1))
      else (False, v))"

definition modifySelection :: "'c outside \<Rightarrow> (nat \<times> nat) option \<Rightarrow> 'c tdv \<Rightarrow> bool \<times> 'c tdv" where
  "modifySelection ox cell v = (case cell of
       Some p \<Rightarrow> (True, notifySelectionChange ox (v\<lparr>selectionEnd := AtCell p\<rparr>))
     | None \<Rightarrow> (False, v))"

definition editableValue :: "'c outside \<Rightarrow> 'c \<Rightarrow> bool \<Rightarrow> 'c tdv \<Rightarrow> string result" where
  "editableValue ox dataCell readOnly v = (case editValue v of
       Some e \<Rightarrow> Inr e
     | None \<Rightarrow> rbind (if readOnly then Inr (cl_formattedValue (ox_class ox) dataCell)
                     else cl_editableValue (ox_class ox) dataCell) (\<lambda>ev.
              Inr (case ev of None \<Rightarrow> [] | Some e \<Rightarrow> e)))"

section \<open>Storing a value\<close>

definition set_dirtyCells :: "'c outside \<Rightarrow> (nat \<times> nat) list \<Rightarrow> 'c tdv \<Rightarrow> 'c tdv result" where
  "set_dirtyCells ox cells v =
     rbind (cellsDidChange (ox_class ox) (tv_inDOM v) (tv_limit v) cells (tv_screen v)) (\<lambda>(dirty, s).
     Inr (v\<lparr>tv_dirty := dirty, tv_screen := s\<rparr>))"

definition validateAndSet ::
  "'c outside \<Rightarrow> string \<Rightarrow> (nat \<times> nat) option \<Rightarrow> 'c tdv \<Rightarrow> (bool \<times> 'c tdv) result" where
  "validateAndSet ox newValue cell v = (case (if cell \<noteq> None then cell else selectedCell v) of
       None \<Rightarrow> Inl TypeError
     | Some (x, y) \<Rightarrow> (case get_slot (tv_data v) x y of
         Cell c \<Rightarrow>
           rbind (cl_editableValue (ox_class ox) c) (\<lambda>old.
           if old = Some newValue then Inr (True, v)
           else if cl_validate (ox_class ox) c newValue then
             (case ox_delegate ox of
                None \<Rightarrow> Inl TypeError
              | Some dg \<Rightarrow>
                 (let (c', dirty) = dg_cellUpdated dg c newValue (x, y);
                      v1 = v\<lparr>tv_screen := (tv_screen v)\<lparr>s_data := put_slot x y (Cell c') (tv_data v)\<rparr>\<rparr>
                  in if dirty then rbind (set_dirtyCells ox (tv_dirty v @ [(x, y)]) v1) (\<lambda>v2. Inr (True, v2))
                     else Inr (True, v1)))
           else Inr (False, v))
       | _ \<Rightarrow> Inl TypeError))"

definition confirmEdit :: "'c outside \<Rightarrow> 'c tdv \<Rightarrow> (bool \<times> 'c tdv) result" where
  "confirmEdit ox v =
     rbind (validateAndSet ox (editField v) None v) (\<lambda>(ok, v1).
     Inr (if ok then (True, v1) else (False, v1\<lparr>editInvalid := True\<rparr>)))"

section \<open>Copying and pasting\<close>

definition is_space :: "char \<Rightarrow> bool" where
  "is_space c \<longleftrightarrow> of_char c \<in> ({9, 10, 11, 12, 13, 32, 160} :: nat set)"

definition tab :: char where "tab = CHR 0x09"
definition newline :: char where "newline = CHR 0x0A"
definition carriage :: char where "carriage = CHR 0x0D"

fun normalize_newlines :: "string \<Rightarrow> string" where
  "normalize_newlines [] = []"
| "normalize_newlines [c] = (if c = carriage then [newline] else [c])"
| "normalize_newlines (c # d # cs) =
     (if c = carriage
      then newline # (if d = newline then normalize_newlines cs else normalize_newlines (d # cs))
      else c # normalize_newlines (d # cs))"

definition strippable :: "char \<Rightarrow> bool" where
  "strippable c \<longleftrightarrow> is_space c \<and> c \<noteq> tab"

definition trim :: "string \<Rightarrow> string" where
  "trim value = rev (dropWhile strippable (rev (dropWhile strippable (normalize_newlines value))))"

text \<open>\<open>String.prototype.split\<close> with a one-character separator.\<close>

fun split :: "char \<Rightarrow> string \<Rightarrow> string list" where
  "split sep [] = [[]]"
| "split sep (c # cs) = (if c = sep then [] # split sep cs
     else (case split sep cs of [] \<Rightarrow> [[c]] | w # ws \<Rightarrow> (c # w) # ws))"

definition selection_box :: "'c tdv \<Rightarrow> (nat list \<times> nat list) result" where
  "selection_box v = (case (selectedCell v, end_pos v) of
       (Some p, Some q) \<Rightarrow> Inr ([min (fst p) (fst q)..<Suc (max (fst p) (fst q))],
                              [min (snd p) (snd q)..<Suc (max (snd p) (snd q))])
     | _ \<Rightarrow> Inl TypeError)"

text \<open>\<open>_forEachSelectedCell\<close> visits the cells of the box row by row.\<close>

definition forEachSelectedCell :: "'c tdv \<Rightarrow> (nat \<times> nat) list result" where
  "forEachSelectedCell v = rbind (selection_box v) (\<lambda>(rows, cols).
     Inr (concat (map (\<lambda>i. map (\<lambda>j. (i, j)) cols) rows)))"

definition copy_field :: "'c cell_class \<Rightarrow> 'c slot \<Rightarrow> string result" where
  "copy_field K s = (case s of
       Missing \<Rightarrow> Inr []
     | Pending b \<Rightarrow> Inl TypeError
     | Cell c \<Rightarrow> (if cl_isCopyable K c
                then rbind (cl_editableValue K c) (\<lambda>e. Inr (case e of None \<Rightarrow> [] | Some s \<Rightarrow> s))
                else Inr []))"

fun copy_row :: "'c cell_class \<Rightarrow> 'c slot list list \<Rightarrow> nat \<Rightarrow> nat list \<Rightarrow> string list result" where
  "copy_row K d i [] = Inr []"
| "copy_row K d i (j # js) =
     rbind (copy_field K (get_slot d i j)) (\<lambda>f. rbind (copy_row K d i js) (\<lambda>fs. Inr (f # fs)))"

fun copy_rows :: "'c cell_class \<Rightarrow> 'c slot list list \<Rightarrow> nat list \<Rightarrow> nat list \<Rightarrow> string list list result" where
  "copy_rows K d [] cols = Inr []"
| "copy_rows K d (i # is) cols =
     rbind (copy_row K d i cols) (\<lambda>r. rbind (copy_rows K d is cols) (\<lambda>rs. Inr (r # rs)))"

definition copy_text :: "string list list \<Rightarrow> string" where
  "copy_text rows = join [newline] (map (join [tab]) rows)"

definition valueForCopy :: "'c outside \<Rightarrow> 'c tdv \<Rightarrow> string result" where
  "valueForCopy ox v = rbind (selection_box v) (\<lambda>(rows, cols).
     rbind (copy_rows (ox_class ox) (tv_data v) rows cols) (\<lambda>t. Inr (copy_text t)))"

text \<open>
  One pasted field.  With \<open>translate\<close> the title of an option is replaced by its value, which
  the branch for a single value does not do.
\<close>

definition paste_set :: "'c outside \<Rightarrow> string \<Rightarrow> nat \<times> nat \<Rightarrow> 'c tdv \<Rightarrow> 'c tdv result" where
  "paste_set ox field p v = rbind (validateAndSet ox field (Some p) v) (\<lambda>(ok, v1).
     Inr (if ok then v1 else log_call ox (PasteDidFail field) v1))"

definition paste_one ::
  "'c outside \<Rightarrow> bool \<Rightarrow> (nat \<times> nat) \<times> string \<Rightarrow> 'c tdv \<Rightarrow> 'c tdv result" where
  "paste_one ox translate pf v = (case pf of (p, field) \<Rightarrow>
     (case get_slot (tv_data v) (fst p) (snd p) of
        Missing \<Rightarrow> Inr v
      | Pending b \<Rightarrow> Inl TypeError
      | Cell c \<Rightarrow>
         (if cl_isEditable (ox_class ox) c \<and> cl_isPastable (ox_class ox) c then
            (if \<not> translate then paste_set ox field p v
             else (case cl_options (ox_class ox) of
                 None \<Rightarrow> Inl TypeError
               | Some options \<Rightarrow> (case options c of
                    None \<Rightarrow> paste_set ox field p v
                  | Some os \<Rightarrow> (case find (\<lambda>opt. fst opt = field) os of
                       None \<Rightarrow> Inr (log_call ox (PasteDidFail field) v)
                     | Some opt \<Rightarrow> paste_set ox (snd opt) p v))))
          else Inr v)))"

fun paste_all ::
  "'c outside \<Rightarrow> bool \<Rightarrow> ((nat \<times> nat) \<times> string) list \<Rightarrow> 'c tdv \<Rightarrow> 'c tdv result" where
  "paste_all ox translate [] v = Inr v"
| "paste_all ox translate (pf # pfs) v = rbind (paste_one ox translate pf v) (paste_all ox translate pfs)"

definition paste_row :: "nat \<Rightarrow> nat \<Rightarrow> string list \<Rightarrow> ((nat \<times> nat) \<times> string) list" where
  "paste_row x y fs = map (\<lambda>(j, f). ((x, y + j), f)) (enumerate 0 fs)"

definition paste_targets :: "nat \<times> nat \<Rightarrow> string \<Rightarrow> ((nat \<times> nat) \<times> string) list" where
  "paste_targets p value =
     concat (map (\<lambda>(i, line). paste_row (fst p + i) (snd p) (split tab line)) (enumerate 0 (split newline value)))"

definition pasteValue :: "'c outside \<Rightarrow> string \<Rightarrow> 'c tdv \<Rightarrow> 'c tdv result" where
  "pasteValue ox text v = (let value = trim text in
     case selectedCell v of
       None \<Rightarrow> Inl TypeError
     | Some p \<Rightarrow>
        (if newline \<notin> set value \<and> tab \<notin> set value \<and> selectionEnd v \<noteq> AtStart
         then rbind (forEachSelectedCell v) (\<lambda>cells. paste_all ox False (map (\<lambda>q. (q, value)) cells) v)
         else paste_all ox True (paste_targets p value) v))"

section \<open>Entering and leaving the states\<close>

definition loaded_enterState :: "'c td_hook" where
  "loaded_enterState c = Inr (upd (\<lambda>v. v\<lparr>selectedCell := None, selectionEnd := NoEnd,
     selShown := (if tv_inDOM v then False else selShown v)\<rparr>) c)"

definition selected_exitState :: "'c td_hook" where
  "selected_exitState c = Inr (upd (\<lambda>v. if tv_inDOM v then v\<lparr>clipboard := None\<rparr> else v) c)"

definition readOnly_enterState :: "'c outside \<Rightarrow> 'c td_hook" where
  "readOnly_enterState ox c = (let v = ownerData c in
     rbind (selectedDataCell v) (\<lambda>s. case s of
       Cell dataCell \<Rightarrow>
         (if cl_showReadOnlyEditor (ox_class ox) dataCell then Inr c
          else rbind (editableValue ox dataCell True v) (\<lambda>readOnlyValue.
            Inr (upd (\<lambda>v. v\<lparr>selectionContent := Some (selHtml v), selHtml := ox_escape ox readOnlyValue,
                           selReadOnly := True\<rparr>) c)))
     | _ \<Rightarrow> Inl TypeError))"

text \<open>\<open>selection.html(undefined)\<close> only reads the markup.\<close>

definition readOnly_exitState :: "'c td_hook" where
  "readOnly_exitState c = Inr (upd (\<lambda>v. v\<lparr>selHtml := (case selectionContent v of None \<Rightarrow> selHtml v | Some h \<Rightarrow> h),
     selReadOnly := False\<rparr>) c)"

definition editing_enterState :: "'c outside \<Rightarrow> 'c td_hook" where
  "editing_enterState ox c = (let v = ownerData c in
     rbind (selectedDataCell v) (\<lambda>s. case s of
       Cell dataCell \<Rightarrow> (case cl_options (ox_class ox) of
           None \<Rightarrow> Inl TypeError
         | Some options \<Rightarrow>
            (if cl_showEditor (ox_class ox) dataCell then Inr c
             else if options dataCell \<noteq> None then Inr (upd (\<lambda>v. v\<lparr>tv_calls := tv_calls v @ [MenuPopup]\<rparr>) c)
             else (case cl_placeholder (ox_class ox) of
                 None \<Rightarrow> Inl TypeError
               | Some _ \<Rightarrow> rbind (editableValue ox dataCell False v) (\<lambda>e.
                   Inr (upd (\<lambda>v. v\<lparr>editField := e, editValue := None, editShown := True\<rparr>) c)))))
     | _ \<Rightarrow> Inl TypeError))"

definition editing_exitState :: "'c td_hook" where
  "editing_exitState c = (if selectedCell (ownerData c) = None then Inl TypeError
     else Inr (upd (\<lambda>v. v\<lparr>editShown := False, editInvalid := False\<rparr>) c))"

fun td_hooks :: "'c outside \<Rightarrow> td_state \<Rightarrow> (td_state, 'c tdv, unit) owner_prop" where
  "td_hooks ox Loaded = AState \<lparr>enterState = Some loaded_enterState, exitState = None, methods = []\<rparr>"
| "td_hooks ox MouseIsDown = AState \<lparr>enterState = None, exitState = None, methods = []\<rparr>"
| "td_hooks ox Selected = AState \<lparr>enterState = None, exitState = Some selected_exitState, methods = []\<rparr>"
| "td_hooks ox SelectingReadOnly =
     AState \<lparr>enterState = Some (readOnly_enterState ox), exitState = Some readOnly_exitState, methods = []\<rparr>"
| "td_hooks ox Editing =
     AState \<lparr>enterState = Some (editing_enterState ox), exitState = Some editing_exitState, methods = []\<rparr>"

abbreviation td_goto :: "'c outside \<Rightarrow> td_state \<Rightarrow> 'c td_hook" where
  "td_goto ox n \<equiv> gotoFlameState (td_hooks ox) (Some n)"

definition td_goto_ret :: "'c outside \<Rightarrow> td_state \<Rightarrow> retval \<Rightarrow> 'c td_handler" where
  "td_goto_ret ox n r c = rbind (td_goto ox n c) (\<lambda>c1. Inr (r, c1))"

section \<open>Handlers of the states\<close>

definition loaded_mouseDown :: "'c outside \<Rightarrow> mouse_event \<Rightarrow> 'c td_handler" where
  "loaded_mouseDown ox ev c =
     (case selectCell ox (cellForTarget (ev_target ev)) False (ownerData c) of
        (True, v) \<Rightarrow> td_goto_ret ox MouseIsDown (RBool True) (c\<lparr>ownerData := v\<lparr>selShown := True\<rparr>\<rparr>)
      | (False, v) \<Rightarrow> Inr (RBool False, c\<lparr>ownerData := v\<rparr>))"

definition isDown_mouseMove :: "target \<Rightarrow> 'c td_handler" where
  "isDown_mouseMove t c = Inr (RBool True,
     upd (\<lambda>v. if lastTarget v \<noteq> Some t
              then (case cellForTarget t of
                     Some p \<Rightarrow> v\<lparr>selectionEnd := AtCell p, lastTarget := Some t\<rparr>
                   | None \<Rightarrow> v\<lparr>lastTarget := Some t\<rparr>)
              else v) c)"

text \<open>Clicks on the selection rectangle are meant for the element below it.\<close>

definition retarget :: "mouse_event \<Rightarrow> mouse_event" where
  "retarget ev = (if ev_target ev = SelectionDiv then ev\<lparr>ev_target := ev_under ev\<rparr> else ev)"

definition selected_mouseUp :: "'c outside \<Rightarrow> mouse_event \<Rightarrow> 'c td_handler" where
  "selected_mouseUp ox ev c = (case ox_delegate ox of
       None \<Rightarrow> Inr (RUndefined, c)
     | Some dg \<Rightarrow>
        (if \<not> dg_mouseUp dg then Inr (RUndefined, c)
         else (let t = ev_target (retarget ev);
                   cell = (case t of TdTarget p \<Rightarrow> t | _ \<Rightarrow> ev_under ev)
               in Inr (RUndefined, upd (\<lambda>v. notifySelectionChange ox (case cell of
                      TdTarget p \<Rightarrow> log_call ox (DelegateMouseUp p) v | _ \<Rightarrow> v)) c))))"

definition isDown_mouseUp :: "'c outside \<Rightarrow> mouse_event \<Rightarrow> 'c td_handler" where
  "isDown_mouseUp ox ev c = rbind (td_goto ox Selected c) (selected_mouseUp ox ev)"

definition startEdit :: "'c outside \<Rightarrow> 'c td_handler" where
  "startEdit ox c = rbind (selectedDataCell (ownerData c)) (\<lambda>s. case s of
       Missing \<Rightarrow> Inr (RUndefined, c)
     | Pending b \<Rightarrow> Inl TypeError
     | Cell dataCell \<Rightarrow>
        (let c1 = upd (\<lambda>v. v\<lparr>selectionEnd := AtStart\<rparr>) c in
         if cl_isEditable (ox_class ox) dataCell then td_goto_ret ox Editing RUndefined c1
         else (case cl_options (ox_class ox) of
             None \<Rightarrow> Inl TypeError
           | Some options \<Rightarrow> (if options dataCell = None then td_goto_ret ox SelectingReadOnly RUndefined c1
                             else Inr (RUndefined, c)))))"

definition has_options :: "'c outside \<Rightarrow> 'c slot \<Rightarrow> bool" where
  "has_options ox s = (case (s, cl_options (ox_class ox)) of
       (Cell dataCell, Some options) \<Rightarrow> options dataCell \<noteq> None | _ \<Rightarrow> False)"

definition selected_mouseDown :: "'c outside \<Rightarrow> mouse_event \<Rightarrow> 'c td_handler" where
  "selected_mouseDown ox ev0 c = (let ev = retarget ev0; t = ev_target ev in
     rbind (selectedDataCell (ownerData c)) (\<lambda>s.
     if has_options ox s \<and> (case t of TdTarget p \<Rightarrow> selectedCell (ownerData c) = Some p | _ \<Rightarrow> False)
     then rbind (startEdit ox c) (\<lambda>(_, c1). Inr (RBool True, c1))
     else if ev_shift ev \<and> isCellSelectable (cellForTarget t)
     then Inr (RBool True, upd (\<lambda>v. v\<lparr>selectionEnd := AtCell (the (cellForTarget t))\<rparr>) c)
     else (case t of
         SelectionDiv \<Rightarrow> Inr (RBool True, c)
       | InsideSelection n \<Rightarrow> Inr (RBool True, c)
       | _ \<Rightarrow> rbind (td_goto ox Loaded c) (loaded_mouseDown ox ev))))"

text \<open>A key press starts editing when the cell is editable and the character is one of these.\<close>

definition starts_edit :: "char \<Rightarrow> bool" where
  "starts_edit c \<longleftrightarrow> (let n = (of_char c :: nat) in
     (97 \<le> n \<and> n \<le> 122) \<or> (65 \<le> n \<and> n \<le> 90) \<or> is_digit c \<or> c \<in> set ''+*-[/='')"

definition selected_keyPress :: "'c outside \<Rightarrow> bool \<Rightarrow> char \<Rightarrow> 'c td_handler" where
  "selected_keyPress ox ctrl key c =
     (if ctrl then Inr (RBool False, c)
      else rbind (selectedDataCell (ownerData c)) (\<lambda>s. case s of
        Missing \<Rightarrow> Inr (RBool False, c)
      | Pending b \<Rightarrow> Inl TypeError
      | Cell dataCell \<Rightarrow>
         (if \<not> cl_isEditable (ox_class ox) dataCell \<or> \<not> starts_edit key then Inr (RBool False, c)
          else rbind (startEdit ox (upd (\<lambda>v. v\<lparr>editValue := Some [key]\<rparr>) c)) (\<lambda>(_, c1). Inr (RBool True, c1)))))"

definition wipeCell :: "'c outside \<Rightarrow> 'c td_handler" where
  "wipeCell ox c = rbind (selectedDataCell (ownerData c)) (\<lambda>s. case s of
       Missing \<Rightarrow> Inr (RBool True, c)
     | Pending b \<Rightarrow> Inl TypeError
     | Cell dataCell \<Rightarrow>
        (if cl_isEditable (ox_class ox) dataCell
         then rbind (validateAndSet ox [] None (ownerData c)) (\<lambda>(_, v). Inr (RBool True, c\<lparr>ownerData := v\<rparr>))
         else Inr (RBool True, c)))"

definition selected_move :: "'c outside \<Rightarrow> dir \<Rightarrow> 'c td_handler" where
  "selected_move ox k c = (let v = ownerData c in case selectedCell v of
       None \<Rightarrow> Inl TypeError
     | Some p \<Rightarrow> Inr (RBool True, c\<lparr>ownerData := snd (selectCell ox (neighbour k (tv_data v) p) True v)\<rparr>))"

definition selected_moveAndModify :: "'c outside \<Rightarrow> dir \<Rightarrow> 'c td_handler" where
  "selected_moveAndModify ox k c = (let v = ownerData c in case end_pos v of
       None \<Rightarrow> Inl TypeError
     | Some q \<Rightarrow> (case modifySelection ox (neighbour k (tv_data v) q) v of
                  (b, v1) \<Rightarrow> Inr (RBool b, c\<lparr>ownerData := v1\<rparr>)))"

text \<open>
  Ctrl or Command with another key: the text to copy is put into a text area, where the
  browser's own copy command finds it.  On a cell that is not loaded the key goes the way of
  every other key, to the key bindings of the event manager.
\<close>

definition selected_copyKey :: "'c outside \<Rightarrow> 'c td_handler" where
  "selected_copyKey ox c = rbind (selectedDataCell (ownerData c)) (\<lambda>s.
     if s = Missing then Inr (RUndefined, c)
     else rbind (valueForCopy ox (ownerData c)) (\<lambda>t. Inr (RBool False, upd (\<lambda>v. v\<lparr>clipboard := Some t\<rparr>) c)))"

text \<open>
  \<open>invokeStateMethod\<close> with one of the moves: \<open>selected\<close> has them all, \<open>selectingReadOnly\<close> goes to
  \<open>selected\<close> first, \<open>editing\<close> leaves left and right to the browser.
\<close>

definition invoke_move :: "'c outside \<Rightarrow> dir \<Rightarrow> 'c td_handler" where
  "invoke_move ox k c = (case currentFlameState c of
       Some Selected \<Rightarrow> selected_move ox k c
     | Some SelectingReadOnly \<Rightarrow>
         rbind (td_goto ox Selected c) (\<lambda>c1. rbind (selected_move ox k c1) (\<lambda>(_, c2). Inr (RUndefined, c2)))
     | Some Editing \<Rightarrow> Inr (if k = ToLeft \<or> k = ToRight then RAllowDefault else RUndefined, c)
     | _ \<Rightarrow> Inr (RUndefined, c))"

text \<open>\<open>insertNewline\<close>, \<open>insertTab\<close> and \<open>insertBacktab\<close> of \<open>editing\<close>: confirm, then move on.\<close>

definition editing_confirmAndMove :: "'c outside \<Rightarrow> dir \<Rightarrow> 'c td_handler" where
  "editing_confirmAndMove ox k c = rbind (confirmEdit ox (ownerData c)) (\<lambda>(ok, v).
     let c1 = c\<lparr>ownerData := v\<rparr> in
     if ok then rbind (td_goto ox Selected c1) (\<lambda>c2.
                rbind (invoke_move ox k c2) (\<lambda>(_, c3). Inr (RBool True, c3)))
     else Inr (RBool True, c1))"

definition editing_mouseDown :: "'c outside \<Rightarrow> mouse_event \<Rightarrow> 'c td_handler" where
  "editing_mouseDown ox ev c = (case cellForTarget (ev_target ev) of
       None \<Rightarrow> Inr (RBool False, c)
     | Some p \<Rightarrow> rbind (confirmEdit ox (ownerData c)) (\<lambda>(ok, v).
         let c1 = c\<lparr>ownerData := v\<rparr> in
         if ok then rbind (td_goto ox Selected c1) (\<lambda>c2.
                    Inr (RBool True, upd (\<lambda>v. snd (selectCell ox (Some p) True v)) c2))
         else rbind (confirmEdit ox v) (\<lambda>(ok2, v2).
              Inr (RBool (\<not> ok2), c1\<lparr>ownerData := v2\<rparr>))))"

definition readOnly_mouseDown :: "'c outside \<Rightarrow> mouse_event \<Rightarrow> 'c td_handler" where
  "readOnly_mouseDown ox ev c = (case cellForTarget (ev_target ev) of
       None \<Rightarrow> Inr (RBool False, c)
     | Some p \<Rightarrow> rbind (td_goto ox Selected c) (\<lambda>c1.
         Inr (RBool True, upd (\<lambda>v. snd (selectCell ox (Some p) True v)) c1)))"

text \<open>
  \<open>insertNewline\<close> of \<open>selectingReadOnly\<close>, and \<open>_invokeInSelected\<close> with the tab keys.
\<close>

definition readOnly_leaveAndMove :: "'c outside \<Rightarrow> dir \<Rightarrow> 'c td_handler" where
  "readOnly_leaveAndMove ox k c = rbind (td_goto ox Selected c) (\<lambda>c1.
     rbind (invoke_move ox k c1) (\<lambda>(_, c2). Inr (RUndefined, c2)))"

text \<open>
  Picking an item of the option menu: the menu closes first, which brings the table back to
  \<open>selected\<close>, then its action calls \<open>didSelectMenuItem\<close>.
\<close>

definition didSelectMenuItem :: "'c outside \<Rightarrow> string option \<Rightarrow> 'c td_handler" where
  "didSelectMenuItem ox value c =
     (let v = (ownerData c)\<lparr>editField := (case value of None \<Rightarrow> [] | Some s \<Rightarrow> s)\<rparr> in
      rbind (confirmEdit ox v) (\<lambda>(_, v1).
      rbind (invoke_move ox ToDown (c\<lparr>ownerData := v1\<rparr>)) (\<lambda>(_, c1). Inr (RUndefined, c1))))"

definition pickMenuItem :: "'c outside \<Rightarrow> string option \<Rightarrow> 'c td_handler" where
  "pickMenuItem ox value c = rbind (td_goto ox Selected c) (didSelectMenuItem ox value)"

section \<open>Events\<close>

text \<open>
  What reaches the view: mouse and key events through the proxies of the statechart, text typed
  into the visible edit field, the paste timer (which runs 100 ms later, in whatever state the
  view is by then), the option menu, and losing the key responder status.  \<open>cancel\<close> in
  \<open>selected\<close> resigns the key responder status, whose hook \<open>willLoseKeyResponder\<close> goes to
  \<open>loaded\<close>.  A method a state lacks returns \<open>undefined\<close>.
\<close>

datatype td_event = MouseDown mouse_event | MouseMove target | MouseUp mouse_event | KeyPress bool char
  | InsertNewline | DeleteKey bool | DoubleClick | Cancel | Move dir | MoveAndModify dir | InsertTab
  | InsertBacktab | TypeText string | CopyKey | PasteTimer string | PickMenuItem "string option"
  | CloseMenu | LoseKeyResponder

definition as_true :: "'c td_handler \<Rightarrow> 'c td_handler" where
  "as_true h c = rbind (h c) (\<lambda>(_, c1). Inr (RBool True, c1))"

fun selected_event :: "'c outside \<Rightarrow> td_event \<Rightarrow> 'c td_handler" where
  "selected_event ox (MouseDown ev) c = selected_mouseDown ox ev c"
| "selected_event ox (MouseUp ev) c = selected_mouseUp ox ev c"
| "selected_event ox (KeyPress ctrl k) c = selected_keyPress ox ctrl k c"
| "selected_event ox InsertNewline c = startEdit ox c"
| "selected_event ox (DeleteKey forward) c = wipeCell ox c"
| "selected_event ox DoubleClick c = startEdit ox c"
| "selected_event ox Cancel c = td_goto_ret ox Loaded (RBool True) c"
| "selected_event ox (Move k) c = selected_move ox k c"
| "selected_event ox (MoveAndModify k) c = selected_moveAndModify ox k c"
| "selected_event ox InsertTab c = as_true (invoke_move ox ToRight) c"
| "selected_event ox InsertBacktab c = as_true (invoke_move ox ToLeft) c"
| "selected_event ox CopyKey c = selected_copyKey ox c"
| "selected_event ox _ c = Inr (RUndefined, c)"

fun editing_event :: "'c outside \<Rightarrow> td_event \<Rightarrow> 'c td_handler" where
  "editing_event ox (MouseDown ev) c = editing_mouseDown ox ev c"
| "editing_event ox Cancel c = td_goto_ret ox Selected (RBool True) c"
| "editing_event ox (Move k) c = invoke_move ox k c"
| "editing_event ox InsertNewline c = editing_confirmAndMove ox ToDown c"
| "editing_event ox InsertTab c = editing_confirmAndMove ox ToRight c"
| "editing_event ox InsertBacktab c = editing_confirmAndMove ox ToLeft c"
| "editing_event ox _ c = Inr (RUndefined, c)"

fun readOnly_event :: "'c outside \<Rightarrow> td_event \<Rightarrow> 'c td_handler" where
  "readOnly_event ox (MouseDown ev) c = readOnly_mouseDown ox ev c"
| "readOnly_event ox Cancel c = td_goto_ret ox Selected (RBool True) c"
| "readOnly_event ox InsertNewline c = readOnly_leaveAndMove ox ToDown c"
| "readOnly_event ox (Move k) c = readOnly_leaveAndMove ox k c"
| "readOnly_event ox InsertTab c = readOnly_leaveAndMove ox ToRight c"
| "readOnly_event ox InsertBacktab c = readOnly_leaveAndMove ox ToLeft c"
| "readOnly_event ox (DeleteKey forward) c =
     (if forward then Inr (RUndefined, c) else td_goto_ret ox Selected (RBool True) c)"
| "readOnly_event ox _ c = Inr (RUndefined, c)"

fun isDown_event :: "'c outside \<Rightarrow> td_event \<Rightarrow> 'c td_handler" where
  "isDown_event ox (MouseMove t) c = isDown_mouseMove t c"
| "isDown_event ox (MouseUp ev) c = isDown_mouseUp ox ev c"
| "isDown_event ox _ c = Inr (RUndefined, c)"

fun loaded_event :: "'c outside \<Rightarrow> td_event \<Rightarrow> 'c td_handler" where
  "loaded_event ox (MouseDown ev) c = loaded_mouseDown ox ev c"
| "loaded_event ox _ c = Inr (RUndefined, c)"

definition state_event :: "'c outside \<Rightarrow> td_event \<Rightarrow> 'c td_handler" where
  "state_event ox e c = (case currentFlameState c of
       None \<Rightarrow> Inl (AssertionFailed ''Cannot invoke state method without having a current state!'')
     | Some Loaded \<Rightarrow> loaded_event ox e c
     | Some MouseIsDown \<Rightarrow> isDown_event ox e c
     | Some Selected \<Rightarrow> selected_event ox e c
     | Some SelectingReadOnly \<Rightarrow> readOnly_event ox e c
     | Some Editing \<Rightarrow> editing_event ox e c)"

definition handle_event :: "'c outside \<Rightarrow> td_event \<Rightarrow> 'c td_handler" where
  "handle_event ox e c = (case e of
       TypeText s \<Rightarrow> Inr (RUndefined, if editShown (ownerData c) then upd (\<lambda>v. v\<lparr>editField := s\<rparr>) c else c)
     | PasteTimer s \<Rightarrow> rbind (pasteValue ox s (ownerData c)) (\<lambda>v. Inr (RUndefined, c\<lparr>ownerData := v\<rparr>))
     | PickMenuItem value \<Rightarrow>
         (if currentFlameState c = Some Editing then pickMenuItem ox value c else Inr (RUndefined, c))
     | CloseMenu \<Rightarrow>
         (if currentFlameState c = Some Editing then td_goto_ret ox Selected RUndefined c else Inr (RUndefined, c))
     | LoseKeyResponder \<Rightarrow> td_goto_ret ox Loaded RUndefined c
     | _ \<Rightarrow> state_event ox e c)"

fun td_run :: "'c outside \<Rightarrow> td_event list \<Rightarrow> 'c td_owner \<Rightarrow> 'c td_owner result" where
  "td_run ox [] c = Inr c"
| "td_run ox (e # es) c = rbind (handle_event ox e c) (\<lambda>(_, c1). td_run ox es c1)"

section \<open>Well-formed views\<close>

text \<open>
  A step from a cell to a neighbour, as the handlers use it: it never leaves the table.  The
  four directions are interpretations.
\<close>

definition sel_ok :: "'c tdv \<Rightarrow> bool" where
  "sel_ok v \<longleftrightarrow> (\<forall>p. selectedCell v = Some p \<longrightarrow> in_grid (tv_data v) p)
             \<and> (\<forall>q. selectionEnd v = AtCell q \<longrightarrow> in_grid (tv_data v) q)"

definition has_selection :: "'c tdv \<Rightarrow> bool" where
  "has_selection v \<longleftrightarrow> selectedCell v \<noteq> None \<and> selectionEnd v \<noteq> NoEnd"

lemma log_call_simps [simp]:
  "selectedCell (log_call ox k v) = selectedCell v" "selectionEnd (log_call ox k v) = selectionEnd v"
  "tv_screen (log_call ox k v) = tv_screen v" "tv_dirty (log_call ox k v) = tv_dirty v"
  "tv_limit (log_call ox k v) = tv_limit v" "tv_inDOM (log_call ox k v) = tv_inDOM v"
  by (simp_all add: log_call_def)

lemma notify_simps [simp]:
  "selectedCell (notifySelectionChange ox v) = selectedCell v"
  "selectionEnd (notifySelectionChange ox v) = selectionEnd v"
  "tv_screen (notifySelectionChange ox v) = tv_screen v" "tv_dirty (notifySelectionChange ox v) = tv_dirty v"
  "tv_limit (notifySelectionChange ox v) = tv_limit v" "tv_inDOM (notifySelectionChange ox v) = tv_inDOM v"
  by (simp_all add: notifySelectionChange_def split: option.splits)

locale grid_step =
  fixes step :: "'c slot list list \<Rightarrow> nat \<times> nat \<Rightarrow> (nat \<times> nat) option"
  assumes step_in_grid: "in_grid d p \<Longrightarrow> step d p = Some q \<Longrightarrow> in_grid d q"
    and step_near: "step d p = Some q \<Longrightarrow>
      (fst q = fst p \<and> (snd q = Suc (snd p) \<or> snd p = Suc (snd q)))
      \<or> (snd q = snd p \<and> (fst q = Suc (fst p) \<or> fst p = Suc (fst q)))"
begin

lemma step_moves: "step d p = Some q \<Longrightarrow> q \<noteq> p"
  using step_near [of d p q] by auto

lemma select_step:
  assumes "sel_ok v" and "selectedCell v = Some p"
  shows "sel_ok (snd (selectCell ox (step (tv_data v) p) b v)) \<and>
    (selectionEnd v \<noteq> NoEnd \<longrightarrow> has_selection (snd (selectCell ox (step (tv_data v) p) b v)))"
  using assms step_in_grid [of "tv_data v" p]
  by (auto simp: selectCell_def sel_ok_def has_selection_def isCellSelectable_def Let_def)

lemma modify_step:
  assumes "sel_ok v" and "has_selection v" and "end_pos v = Some q"
  shows "sel_ok (snd (modifySelection ox (step (tv_data v) q) v))
       \<and> has_selection (snd (modifySelection ox (step (tv_data v) q) v))"
proof -
  have "in_grid (tv_data v) q"
    using assms by (auto simp: end_pos_def sel_ok_def simp del: split_paired_All split: sel_end.splits)
  then show ?thesis
    using assms step_in_grid [of "tv_data v" q]
    by (auto simp: modifySelection_def sel_ok_def has_selection_def split: option.splits)
qed

end

interpretation left: grid_step prevCell
  by unfold_locales (auto simp: prevCell_def in_grid_def split: if_splits)

interpretation right: grid_step nextCell
  by unfold_locales (auto simp: nextCell_def in_grid_def split: if_splits)

interpretation up: grid_step cellUp
  by unfold_locales (auto simp: cellUp_def in_grid_def split: if_splits)

interpretation down: grid_step cellDown
  by unfold_locales (auto simp: cellDown_def in_grid_def split: if_splits)

lemma select_neighbour:
  assumes "sel_ok v" and "selectedCell v = Some p"
  shows "sel_ok (snd (selectCell ox (neighbour k (tv_data v) p) b v)) \<and>
    (selectionEnd v \<noteq> NoEnd \<longrightarrow> has_selection (snd (selectCell ox (neighbour k (tv_data v) p) b v)))"
  using left.select_step [OF assms] right.select_step [OF assms] up.select_step [OF assms]
    down.select_step [OF assms]
  by (cases k) (simp_all add: neighbour_def)

lemma modify_neighbour:
  assumes "sel_ok v" and "has_selection v" and "end_pos v = Some q"
  shows "sel_ok (snd (modifySelection ox (neighbour k (tv_data v) q) v))
       \<and> has_selection (snd (modifySelection ox (neighbour k (tv_data v) q) v))"
  using left.modify_step [OF assms] right.modify_step [OF assms] up.modify_step [OF assms]
    down.modify_step [OF assms]
  by (cases k) (simp_all add: neighbour_def)

text \<open>The view between events: rendered, nothing dirty, no placeholder among the entries.\<close>

definition no_pending :: "'c slot list list \<Rightarrow> bool" where
  "no_pending d \<longleftrightarrow> list_all (list_all (\<lambda>s. s = Missing \<or> is_cell s)) d"

definition tdv_ok :: "'c tdv \<Rightarrow> bool" where
  "tdv_ok v \<longleftrightarrow> screen_ok (tv_screen v) \<and> no_pending (tv_data v) \<and> tv_dirty v = [] \<and> 0 < tv_limit v
     \<and> tv_inDOM v \<and> sel_ok v"

definition on_cell :: "'c tdv \<Rightarrow> bool" where
  "on_cell v \<longleftrightarrow> (case selectedCell v of None \<Rightarrow> False | Some p \<Rightarrow> is_cell (get_slot (tv_data v) (fst p) (snd p)))"

text \<open>What each state promises about the selection.\<close>

fun state_ok :: "td_state \<Rightarrow> 'c tdv \<Rightarrow> bool" where
  "state_ok Loaded v = (selectedCell v = None \<and> selectionEnd v = NoEnd)"
| "state_ok MouseIsDown v = has_selection v"
| "state_ok Selected v = has_selection v"
| "state_ok SelectingReadOnly v = (selectionEnd v = AtStart \<and> on_cell v)"
| "state_ok Editing v = (selectionEnd v = AtStart \<and> on_cell v)"

definition td_ok :: "'c td_owner \<Rightarrow> bool" where
  "td_ok c \<longleftrightarrow> (case currentFlameState c of None \<Rightarrow> False | Some n \<Rightarrow> state_ok n (ownerData c)) \<and> tdv_ok (ownerData c)"

text \<open>
  What the table needs of the outside: the cell classes have all the methods and none of them
  throws, and there is a delegate.
\<close>

definition outside_ok :: "'c outside \<Rightarrow> bool" where
  "outside_ok ox \<longleftrightarrow> cl_options (ox_class ox) \<noteq> None \<and> cl_placeholder (ox_class ox) \<noteq> None
     \<and> ox_delegate ox \<noteq> None \<and> (\<forall>c. \<exists>e. cl_editableValue (ox_class ox) c = Inr e)"

definition target_ok :: "'c tdv \<Rightarrow> target \<Rightarrow> bool" where
  "target_ok v t \<longleftrightarrow> (\<forall>p. cellForTarget t = Some p \<longrightarrow> in_grid (tv_data v) p)"

definition event_ok :: "'c tdv \<Rightarrow> td_event \<Rightarrow> bool" where
  "event_ok v e = (case e of
       MouseDown ev \<Rightarrow> target_ok v (ev_target ev) \<and> target_ok v (ev_under ev)
     | MouseMove t \<Rightarrow> target_ok v t
     | PasteTimer s \<Rightarrow> selectedCell v \<noteq> None
     | _ \<Rightarrow> True)"

section \<open>Storing keeps the view well-formed\<close>

definition keeps :: "'c tdv \<Rightarrow> 'c tdv \<Rightarrow> bool" where
  "keeps v w \<longleftrightarrow> selectedCell w = selectedCell v \<and> selectionEnd w = selectionEnd v
     \<and> length (tv_data w) = length (tv_data v) \<and> grid_cols (tv_data w) = grid_cols (tv_data v)
     \<and> (\<forall>x y. is_cell (get_slot (tv_data v) x y) \<longrightarrow> is_cell (get_slot (tv_data w) x y))"

lemma keeps_refl [simp]: "keeps v v"
  by (simp add: keeps_def)

lemma keeps_trans: "keeps u v \<Longrightarrow> keeps v w \<Longrightarrow> keeps u w"
  by (simp add: keeps_def)

lemma on_cell_updates [simp]:
  "on_cell (v\<lparr>clipboard := t\<rparr>) = on_cell v" "on_cell (v\<lparr>selectionContent := h\<rparr>) = on_cell v"
  "on_cell (v\<lparr>selHtml := m\<rparr>) = on_cell v" "on_cell (v\<lparr>selReadOnly := b\<rparr>) = on_cell v"
  "on_cell (v\<lparr>editField := e\<rparr>) = on_cell v" "on_cell (v\<lparr>editValue := k\<rparr>) = on_cell v"
  "on_cell (v\<lparr>editShown := b\<rparr>) = on_cell v" "on_cell (v\<lparr>tv_calls := ks\<rparr>) = on_cell v"
  "on_cell (v\<lparr>selectionEnd := q\<rparr>) = on_cell v" "on_cell (v\<lparr>editInvalid := b\<rparr>) = on_cell v"
  by (cases "selectedCell v"; simp add: on_cell_def)+

lemma keeps_on_cell: "keeps v w \<Longrightarrow> on_cell v \<Longrightarrow> on_cell w"
  by (auto simp: keeps_def on_cell_def split: option.splits)

lemma put_slot_in:
  assumes "grid_ok d" and "in_grid d (x, y)"
  shows "put_slot x y s d = d[x := (d ! x)[y := s]]"
  using assms by (simp add: put_slot_def in_grid_def grid_row_length Let_def)

lemma put_slot_grid:
  assumes "grid_ok d" and "in_grid d (x, y)"
  shows "grid_ok (put_slot x y s d) \<and> grid_cols (put_slot x y s d) = grid_cols d
       \<and> length (put_slot x y s d) = length d"
proof -
  have xy: "x < length d" "length (d ! x) = grid_cols d" "d \<noteq> []"
    using assms by (auto simp: in_grid_def grid_row_length grid_ok_def)
  have c: "grid_cols (put_slot x y s d) = grid_cols d"
    unfolding put_slot_in [OF assms] using xy by (auto simp: grid_cols_def hd_conv_nth nth_list_update)
  have "length r = grid_cols d" if "r \<in> set (put_slot x y s d)" for r
    using that xy assms(1) by (auto simp: put_slot_in [OF assms] in_set_conv_nth nth_list_update grid_row_length split: if_splits)
  then show ?thesis using c xy by (simp add: grid_ok_def list_all_iff put_slot_in [OF assms])
qed

lemma get_put_slot:
  assumes "grid_ok d" and "in_grid d (x, y)"
  shows "get_slot (put_slot x y s d) x' y' = (if (x', y') = (x, y) then s else get_slot d x' y')"
proof -
  have "x < length d" "y < length (d ! x)" using assms by (auto simp: in_grid_def grid_row_length)
  then show ?thesis by (auto simp: put_slot_in [OF assms] get_slot_def nth_list_update)
qed

lemma no_pending_iff:
  "no_pending d \<longleftrightarrow> (\<forall>x y. get_slot d x y = Missing \<or> is_cell (get_slot d x y))"
  by (auto simp: no_pending_def list_all_length get_slot_def)

lemma is_cell_in_grid: "grid_ok d \<Longrightarrow> is_cell (get_slot d x y) \<Longrightarrow> in_grid d (x, y)"
  by (auto simp: get_slot_def is_cell_def in_grid_def grid_row_length split: if_splits)

lemma set_dirty_ok:
  assumes "screen_ok (tv_screen v)" and "holds_cell (tv_data v) (x, y)" and "0 < tv_limit v" and "tv_inDOM v"
  shows "\<exists>els. set_dirtyCells ox [(x, y)] v = Inr (v\<lparr>tv_dirty := [], tv_screen := (tv_screen v)
      \<lparr>s_updateCounter := Suc (s_updateCounter (tv_screen v)), s_elements := els\<rparr>\<rparr>)
    \<and> length els = length (s_elements (tv_screen v))"
proof -
  let ?s = "(tv_screen v)\<lparr>s_updateCounter := Suc (s_updateCounter (tv_screen v))\<rparr>"
  let ?b = "\<lparr>b_maxUpdates = tv_limit v, b_startIx = 0, b_counter = Some (Suc (s_updateCounter (tv_screen v))),
             b_cellRefs = [(x, y)], b_callback = show_cell (ox_class ox)\<rparr>"
  have ok: "grid_ok (tv_data v)" "length (s_elements (tv_screen v)) = length (tv_data v) * grid_cols (tv_data v)"
    using assms(1) by (auto simp: screen_ok_def)
  obtain el where el: "update_cell (show_cell (ox_class ox)) (grid_cols (tv_data v)) (x, y)
      (tv_data v, s_elements (tv_screen v)) = Inr (tv_data v, (s_elements (tv_screen v))[flat (grid_cols (tv_data v)) (x, y) := el])"
    using update_cell_show [OF ok(1) assms(2) ok(2)] by blast
  have n: "nat (tv_limit v) = Suc (nat (tv_limit v) - 1)" using assms(3) by simp
  have t: "take (nat (tv_limit v)) [(x, y)] = [(x, y)]" by (subst n) simp
  have "batchUpdate ?b ?s = Inr (?s\<lparr>s_elements := (s_elements (tv_screen v))[flat (grid_cols (tv_data v)) (x, y) := el]\<rparr>)"
    using batchUpdate_current [of ?b ?s] ok(1) assms(3) el t by (simp add: grid_ok_def)
  then show ?thesis
    using assms(4) by (intro exI) (auto simp: set_dirtyCells_def cellsDidChange_def manipulateCells_def Let_def)
qed

lemma sel_ok_cong:
  "sel_ok v \<Longrightarrow> selectedCell w = selectedCell v \<Longrightarrow> selectionEnd w = selectionEnd v \<Longrightarrow>
   length (tv_data w) = length (tv_data v) \<Longrightarrow> grid_cols (tv_data w) = grid_cols (tv_data v) \<Longrightarrow> sel_ok w"
  by (simp add: sel_ok_def in_grid_def)

text \<open>
  A stored value: the entry is replaced by the cell the delegate leaves, everything else of the
  grid stays.
\<close>

definition stores :: "'c tdv \<Rightarrow> nat \<times> nat \<Rightarrow> 'c \<Rightarrow> 'c tdv \<Rightarrow> bool" where
  "stores v p c' v' \<longleftrightarrow> tv_data v' = put_slot (fst p) (snd p) (Cell c') (tv_data v)
     \<and> selectedCell v' = selectedCell v \<and> selectionEnd v' = selectionEnd v \<and> tdv_ok v'"

lemma put_cell_tdv_ok:
  assumes "tdv_ok v" and "in_grid (tv_data v) (x, y)"
  shows "tdv_ok (v\<lparr>tv_screen := (tv_screen v)\<lparr>s_data := put_slot x y (Cell c) (tv_data v)\<rparr>\<rparr>)"
proof -
  have g: "grid_ok (tv_data v)" using assms(1) by (simp add: tdv_ok_def screen_ok_def)
  have "no_pending (put_slot x y (Cell c) (tv_data v))"
    using assms(1) by (auto simp: tdv_ok_def no_pending_iff get_put_slot [OF g assms(2)] is_cell_def)
  then show ?thesis
    using assms(1) put_slot_grid [OF g assms(2), of "Cell c"]
    by (auto simp: tdv_ok_def screen_ok_def sel_ok_def in_grid_def)
qed

lemma validateAndSet_stores:
  assumes "tdv_ok v" and "outside_ok ox" and "(if cell \<noteq> None then cell else selectedCell v) = Some (x, y)"
    and "get_slot (tv_data v) x y = Cell c"
  shows "\<exists>b v' c'. validateAndSet ox s cell v = Inr (b, v') \<and> stores v (x, y) c' v'
    \<and> (b \<longleftrightarrow> cl_editableValue (ox_class ox) c = Inr (Some s) \<or> cl_validate (ox_class ox) c s)
    \<and> (if b \<and> cl_editableValue (ox_class ox) c \<noteq> Inr (Some s)
       then c' = fst (dg_cellUpdated (the (ox_delegate ox)) c s (x, y)) else c' = c)"
proof -
  have g: "grid_ok (tv_data v)" using assms(1) by (simp add: tdv_ok_def screen_ok_def)
  have xy: "in_grid (tv_data v) (x, y)" using is_cell_in_grid [OF g] assms(4) by (simp add: is_cell_def)
  obtain old where old: "cl_editableValue (ox_class ox) c = Inr old" using assms(2) by (auto simp: outside_ok_def)
  obtain dg where dg: "ox_delegate ox = Some dg" using assms(2) by (auto simp: outside_ok_def)
  have same: "put_slot x y (Cell c) (tv_data v) = tv_data v"
    using put_slot_same [of x "tv_data v" y] xy g assms(4)
    by (simp add: in_grid_def grid_row_length get_slot_def)
  show ?thesis
  proof (cases "old = Some s \<or> \<not> cl_validate (ox_class ox) c s")
    case True
    then show ?thesis
      using assms old same by (auto simp: validateAndSet_def stores_def intro!: exI [of _ c])
  next
    case False
    obtain c' dirty where cu: "dg_cellUpdated dg c s (x, y) = (c', dirty)" by fastforce
    let ?v1 = "v\<lparr>tv_screen := (tv_screen v)\<lparr>s_data := put_slot x y (Cell c') (tv_data v)\<rparr>\<rparr>"
    have ok1: "tdv_ok ?v1" by (rule put_cell_tdv_ok [OF assms(1) xy])
    have holds: "holds_cell (tv_data ?v1) (x, y)"
      using get_put_slot [OF g xy] put_slot_grid [OF g xy] xy
      by (simp add: holds_cell_def in_grid_def is_cell_def)
    obtain els where els: "set_dirtyCells ox [(x, y)] ?v1 = Inr (?v1\<lparr>tv_dirty := [], tv_screen := (tv_screen ?v1)
        \<lparr>s_updateCounter := Suc (s_updateCounter (tv_screen ?v1)), s_elements := els\<rparr>\<rparr>)"
        "length els = length (s_elements (tv_screen ?v1))"
      using set_dirty_ok [of ?v1 x y ox] holds ok1 by (auto simp: tdv_ok_def)
    have val: "validateAndSet ox s cell v = (if dirty then rbind (set_dirtyCells ox [(x, y)] ?v1) (\<lambda>v2. Inr (True, v2))
        else Inr (True, ?v1))"
      using False assms(1,3,4) old dg cu by (simp add: validateAndSet_def tdv_ok_def)
    show ?thesis
    proof (cases dirty)
      case True
      then show ?thesis
        using val els ok1 False old dg cu
        by (auto simp: stores_def tdv_ok_def screen_ok_def sel_ok_def)
    next
      case False
      then show ?thesis using val ok1 \<open>\<not> (old = Some s \<or> _)\<close> old dg cu by (auto simp: stores_def)
    qed
  qed
qed

lemma stores_keeps:
  assumes "tdv_ok v" and "in_grid (tv_data v) p" and "stores v p c' v'"
  shows "keeps v v'"
proof -
  have g: "grid_ok (tv_data v)" using assms(1) by (simp add: tdv_ok_def screen_ok_def)
  show ?thesis
    using assms(2,3) put_slot_grid [OF g] get_put_slot [OF g]
    by (cases p) (auto simp: stores_def keeps_def is_cell_def)
qed

lemma validateAndSet_ok:
  assumes "tdv_ok v" and "outside_ok ox" and "(if cell \<noteq> None then cell else selectedCell v) = Some p"
    and "is_cell (get_slot (tv_data v) (fst p) (snd p))"
  shows "\<exists>b v'. validateAndSet ox s cell v = Inr (b, v') \<and> tdv_ok v' \<and> keeps v v'"
proof -
  obtain x y where p: "p = (x, y)" by (cases p)
  obtain c where c: "get_slot (tv_data v) x y = Cell c"
    using assms(4) p by (auto simp: is_cell_def split: slot.splits)
  have "in_grid (tv_data v) p"
    using is_cell_in_grid assms(1,4) p by (auto simp: tdv_ok_def screen_ok_def)
  then show ?thesis
    using validateAndSet_stores [OF assms(1,2) _ c, of cell s] assms(3) p stores_keeps [OF assms(1)]
    by (auto simp: stores_def)
qed

lemma confirmEdit_ok:
  assumes "tdv_ok v" and "outside_ok ox" and "on_cell v"
  shows "\<exists>b v'. confirmEdit ox v = Inr (b, v') \<and> tdv_ok v' \<and> keeps v v'"
proof -
  obtain p where p: "selectedCell v = Some p" "is_cell (get_slot (tv_data v) (fst p) (snd p))"
    using assms(3) by (auto simp: on_cell_def split: option.splits)
  obtain b v' where "validateAndSet ox (editField v) None v = Inr (b, v')" "tdv_ok v'" "keeps v v'"
    using validateAndSet_ok [OF assms(1,2), of None p "editField v"] p by auto
  then show ?thesis by (auto simp: confirmEdit_def tdv_ok_def keeps_def sel_ok_def)
qed

section \<open>Every event keeps the promises\<close>

definition same_dims :: "'c td_owner \<Rightarrow> 'c td_owner \<Rightarrow> bool" where
  "same_dims c c' \<longleftrightarrow> length (tv_data (ownerData c')) = length (tv_data (ownerData c))
     \<and> grid_cols (tv_data (ownerData c')) = grid_cols (tv_data (ownerData c))"

definition fine :: "'c td_owner \<Rightarrow> (retval \<times> 'c td_owner) result \<Rightarrow> bool" where
  "fine c res \<longleftrightarrow> (\<exists>r c'. res = Inr (r, c') \<and> td_ok c' \<and> same_dims c c')"

lemma fine_Inr [simp]: "fine c (Inr (r, c')) \<longleftrightarrow> td_ok c' \<and> same_dims c c'"
  by (simp add: fine_def)

lemma same_dims_refl [simp]: "same_dims c c"
  by (simp add: same_dims_def)

lemma fine_trans: "fine c1 res \<Longrightarrow> same_dims c c1 \<Longrightarrow> fine c res"
  by (auto simp: fine_def same_dims_def)

lemma fine_map: "fine c res \<Longrightarrow> fine c (rbind res (\<lambda>(_, c1). Inr (r, c1)))"
  by (auto simp: fine_def)

lemmas goto_defs = gotoFlameState_def exit_current_def run_hook_def loaded_enterState_def selected_exitState_def
  readOnly_exitState_def editing_exitState_def

lemma td_ok_state: "td_ok c \<Longrightarrow> \<exists>n. currentFlameState c = Some n \<and> state_ok n (ownerData c) \<and> tdv_ok (ownerData c)"
  by (auto simp: td_ok_def split: option.splits)

lemma on_cell_selected: "on_cell v \<Longrightarrow> selectedCell v \<noteq> None"
  by (auto simp: on_cell_def split: option.splits)

lemma goto_Loaded_ok:
  assumes "td_ok c"
  shows "\<exists>c'. td_goto ox Loaded c = Inr c' \<and> td_ok c' \<and> currentFlameState c' = Some Loaded
     \<and> same_dims c c' \<and> tv_allowSelection (ownerData c') = tv_allowSelection (ownerData c)"
proof -
  obtain n where n: "currentFlameState c = Some n" "state_ok n (ownerData c)" "tdv_ok (ownerData c)"
    using td_ok_state [OF assms] by blast
  then show ?thesis
    by (cases n) (auto simp: goto_defs td_ok_def tdv_ok_def sel_ok_def same_dims_def dest: on_cell_selected)
qed

lemma goto_Selected_ok:
  assumes "td_ok c" and "currentFlameState c \<noteq> Some Loaded"
  shows "\<exists>c'. td_goto ox Selected c = Inr c' \<and> td_ok c' \<and> currentFlameState c' = Some Selected
     \<and> same_dims c c' \<and> selectedCell (ownerData c') = selectedCell (ownerData c)
     \<and> tv_data (ownerData c') = tv_data (ownerData c)"
proof -
  obtain n where n: "currentFlameState c = Some n" "state_ok n (ownerData c)" "tdv_ok (ownerData c)"
    using td_ok_state [OF assms(1)] by blast
  then show ?thesis using assms(2)
    by (cases n) (auto simp: goto_defs td_ok_def tdv_ok_def sel_ok_def same_dims_def has_selection_def
        dest: on_cell_selected)
qed

lemma on_cell_data: "on_cell v \<Longrightarrow> \<exists>dataCell. selectedDataCell v = Inr (Cell dataCell)"
  by (auto simp: on_cell_def selectedDataCell_def is_cell_def get_slot_def split: option.splits slot.splits if_splits)

lemma editableValue_ok: "outside_ok ox \<Longrightarrow> \<exists>e. editableValue ox dataCell b v = Inr e"
  by (auto simp: editableValue_def outside_ok_def split: option.splits)

lemma selectedDataCell_clipboard: "selectedDataCell (v\<lparr>clipboard := t\<rparr>) = selectedDataCell v"
  by (cases "selectedCell v") (auto simp: selectedDataCell_def)

lemma goto_Editing_ok:
  assumes "currentFlameState c = Some Selected" and "tdv_ok (ownerData c)" and "on_cell (ownerData c)"
    and "selectionEnd (ownerData c) = AtStart" and "outside_ok ox"
  shows "fine c (td_goto_ret ox Editing r c)"
proof -
  obtain dataCell where dc: "selectedDataCell (ownerData c) = Inr (Cell dataCell)" using on_cell_data assms(3) by blast
  let ?c = "(upd (\<lambda>v. if tv_inDOM v then v\<lparr>clipboard := None\<rparr> else v) c)\<lparr>currentFlameState := Some Editing\<rparr>"
  have dc': "selectedDataCell (ownerData ?c) = Inr (Cell dataCell)" using dc by (simp add: selectedDataCell_clipboard)
  obtain options pl where o: "cl_options (ox_class ox) = Some options" "cl_placeholder (ox_class ox) = Some pl"
    using assms(5) by (auto simp: outside_ok_def)
  obtain e where e: "editableValue ox dataCell False (ownerData ?c) = Inr e" using editableValue_ok [OF assms(5)] by blast
  have "fine c (rbind (editing_enterState ox ?c) (\<lambda>c1. Inr (r, c1)))"
    using assms(2-4) dc' o e
    by (auto simp: editing_enterState_def td_ok_def tdv_ok_def sel_ok_def same_dims_def)
  then show ?thesis using assms(1) by (simp add: td_goto_ret_def goto_defs)
qed

lemma goto_ReadOnly_ok:
  assumes "currentFlameState c = Some Selected" and "tdv_ok (ownerData c)" and "on_cell (ownerData c)"
    and "selectionEnd (ownerData c) = AtStart" and "outside_ok ox"
  shows "fine c (td_goto_ret ox SelectingReadOnly r c)"
proof -
  obtain dataCell where dc: "selectedDataCell (ownerData c) = Inr (Cell dataCell)" using on_cell_data assms(3) by blast
  let ?c = "(upd (\<lambda>v. if tv_inDOM v then v\<lparr>clipboard := None\<rparr> else v) c)\<lparr>currentFlameState := Some SelectingReadOnly\<rparr>"
  have dc': "selectedDataCell (ownerData ?c) = Inr (Cell dataCell)" using dc by (simp add: selectedDataCell_clipboard)
  obtain e where e: "editableValue ox dataCell True (ownerData ?c) = Inr e" using editableValue_ok [OF assms(5)] by blast
  have "fine c (rbind (readOnly_enterState ox ?c) (\<lambda>c1. Inr (r, c1)))"
    using assms(2-4) dc' e
    by (auto simp: readOnly_enterState_def td_ok_def tdv_ok_def sel_ok_def same_dims_def)
  then show ?thesis using assms(1) by (simp add: td_goto_ret_def goto_defs)
qed

lemma startEdit_ok:
  assumes "td_ok c" and "currentFlameState c = Some Selected" and "outside_ok ox"
  shows "fine c (startEdit ox c)"
proof -
  have v: "has_selection (ownerData c)" "tdv_ok (ownerData c)" using assms(1,2) by (auto simp: td_ok_def)
  obtain x y where p: "selectedCell (ownerData c) = Some (x, y)" using v(1) by (auto simp: has_selection_def)
  have g: "in_grid (tv_data (ownerData c)) (x, y)" using v(2) p by (simp add: tdv_ok_def sel_ok_def)
  have slot: "selectedDataCell (ownerData c) = Inr (get_slot (tv_data (ownerData c)) x y)"
    using p g by (simp add: selectedDataCell_def in_grid_def)
  let ?c1 = "upd (\<lambda>v. v\<lparr>selectionEnd := AtStart\<rparr>) c"
  have "get_slot (tv_data (ownerData c)) x y = Missing \<or> is_cell (get_slot (tv_data (ownerData c)) x y)"
    using v(2) by (simp add: tdv_ok_def no_pending_iff)
  moreover have "fine c (startEdit ox c)" if cell: "is_cell (get_slot (tv_data (ownerData c)) x y)"
  proof -
    obtain dataCell where dc: "get_slot (tv_data (ownerData c)) x y = Cell dataCell"
      using cell by (auto simp: is_cell_def split: slot.splits)
    have c1: "currentFlameState ?c1 = Some Selected" "tdv_ok (ownerData ?c1)" "on_cell (ownerData ?c1)"
        "selectionEnd (ownerData ?c1) = AtStart" "same_dims c ?c1"
      using assms(2) v(2) p cell by (auto simp: tdv_ok_def sel_ok_def on_cell_def same_dims_def)
    have "fine c (td_goto_ret ox n RUndefined ?c1)" if "n = Editing \<or> n = SelectingReadOnly" for n
      using that fine_trans [OF goto_Editing_ok [OF c1(1-4) assms(3)] c1(5)]
        fine_trans [OF goto_ReadOnly_ok [OF c1(1-4) assms(3)] c1(5)] by blast
    moreover obtain options where "cl_options (ox_class ox) = Some options"
      using assms(3) by (auto simp: outside_ok_def)
    ultimately show ?thesis using slot dc assms(1) by (auto simp: startEdit_def Let_def)
  qed
  ultimately show ?thesis using slot assms(1) by (auto simp: startEdit_def)
qed

lemma td_ok_select:
  assumes "currentFlameState c = Some n" and "n = Selected \<or> n = MouseIsDown" and "tdv_ok (ownerData c)"
    and "has_selection w" and "sel_ok w" and "tv_screen w = tv_screen (ownerData c)"
    and "tv_dirty w = tv_dirty (ownerData c)" and "tv_limit w = tv_limit (ownerData c)"
    and "tv_inDOM w = tv_inDOM (ownerData c)"
  shows "td_ok (c\<lparr>ownerData := w\<rparr>) \<and> same_dims c (c\<lparr>ownerData := w\<rparr>)"
  using assms by (auto simp: td_ok_def tdv_ok_def same_dims_def)

lemma selectCell_simps [simp]:
  "tv_screen (snd (selectCell ox p b v)) = tv_screen v" "tv_dirty (snd (selectCell ox p b v)) = tv_dirty v"
  "tv_limit (snd (selectCell ox p b v)) = tv_limit v" "tv_inDOM (snd (selectCell ox p b v)) = tv_inDOM v"
  by (simp_all add: selectCell_def Let_def)

lemma modifySelection_simps [simp]:
  "tv_screen (snd (modifySelection ox p v)) = tv_screen v" "tv_dirty (snd (modifySelection ox p v)) = tv_dirty v"
  "tv_limit (snd (modifySelection ox p v)) = tv_limit v" "tv_inDOM (snd (modifySelection ox p v)) = tv_inDOM v"
  by (simp_all add: modifySelection_def split: option.splits)

lemma selected_move_ok:
  assumes "td_ok c" and "currentFlameState c = Some Selected"
  shows "fine c (selected_move ox k c)"
proof -
  have v: "has_selection (ownerData c)" "tdv_ok (ownerData c)" "sel_ok (ownerData c)"
    using assms by (auto simp: td_ok_def tdv_ok_def)
  obtain p where p: "selectedCell (ownerData c) = Some p" using v(1) by (auto simp: has_selection_def)
  have "has_selection (snd (selectCell ox (neighbour k (tv_data (ownerData c)) p) True (ownerData c)))"
    "sel_ok (snd (selectCell ox (neighbour k (tv_data (ownerData c)) p) True (ownerData c)))"
    using select_neighbour [OF v(3) p] v(1) by (auto simp: has_selection_def)
  then show ?thesis
    using td_ok_select [OF assms(2) _ v(2)] p by (simp add: selected_move_def Let_def)
qed

lemma selected_moveAndModify_ok:
  assumes "td_ok c" and "currentFlameState c = Some Selected"
  shows "fine c (selected_moveAndModify ox k c)"
proof -
  have v: "has_selection (ownerData c)" "tdv_ok (ownerData c)" "sel_ok (ownerData c)"
    using assms by (auto simp: td_ok_def tdv_ok_def)
  obtain q where q: "end_pos (ownerData c) = Some q"
    using v(1) by (cases "selectionEnd (ownerData c)") (auto simp: has_selection_def end_pos_def)
  obtain b w where w: "modifySelection ox (neighbour k (tv_data (ownerData c)) q) (ownerData c) = (b, w)" by fastforce
  have "has_selection w" "sel_ok w" using modify_neighbour [OF v(3,1) q, of ox k] w by auto
  moreover have "tv_screen w = tv_screen (ownerData c)" "tv_dirty w = tv_dirty (ownerData c)"
    "tv_limit w = tv_limit (ownerData c)" "tv_inDOM w = tv_inDOM (ownerData c)"
    using modifySelection_simps [of ox "neighbour k (tv_data (ownerData c)) q" "ownerData c"] w by simp_all
  ultimately show ?thesis
    using td_ok_select [OF assms(2) _ v(2)] q w by (simp add: selected_moveAndModify_def Let_def)
qed

lemma invoke_move_ok:
  assumes "td_ok c"
  shows "fine c (invoke_move ox k c)"
proof -
  obtain n where n: "currentFlameState c = Some n" using td_ok_state [OF assms] by blast
  show ?thesis
  proof (cases n)
    case SelectingReadOnly
    then obtain c1 where c1: "td_goto ox Selected c = Inr c1" "td_ok c1" "currentFlameState c1 = Some Selected" "same_dims c c1"
      using goto_Selected_ok [OF assms, of ox] n by auto
    then show ?thesis
      using fine_map [OF fine_trans [OF selected_move_ok [OF c1(2,3), of ox k] c1(4)], of RUndefined] n SelectingReadOnly
      by (simp add: invoke_move_def)
  qed (use n assms selected_move_ok [OF assms] in \<open>auto simp: invoke_move_def\<close>)
qed

lemma leave_and_move_ok:
  assumes "td_ok c" and "currentFlameState c \<noteq> Some Loaded"
  shows "fine c (rbind (td_goto ox Selected c) (\<lambda>c1. rbind (invoke_move ox k c1) (\<lambda>(_, c2). Inr (r, c2))))"
proof -
  obtain c1 where c1: "td_goto ox Selected c = Inr c1" "td_ok c1" "same_dims c c1"
    using goto_Selected_ok [OF assms, of ox] by auto
  then show ?thesis
    using fine_map [OF fine_trans [OF invoke_move_ok [OF c1(2), of ox k] c1(3)], of r] by simp
qed

lemma selectCell_in:
  assumes "sel_ok v" and "in_grid (tv_data v) p" and "has_selection v"
  shows "sel_ok (snd (selectCell ox (Some p) b v)) \<and> has_selection (snd (selectCell ox (Some p) b v))"
  using assms by (auto simp: selectCell_def sel_ok_def has_selection_def Let_def)

lemma leave_and_select_ok:
  assumes "td_ok c" and "currentFlameState c \<noteq> Some Loaded" and "in_grid (tv_data (ownerData c)) p"
  shows "fine c (rbind (td_goto ox Selected c) (\<lambda>c2. Inr (r, upd (\<lambda>v. snd (selectCell ox (Some p) True v)) c2)))"
proof -
  obtain c1 where c1: "td_goto ox Selected c = Inr c1" "td_ok c1" "currentFlameState c1 = Some Selected"
      "same_dims c c1" "tv_data (ownerData c1) = tv_data (ownerData c)"
    using goto_Selected_ok [OF assms(1,2), of ox] by auto
  have v: "has_selection (ownerData c1)" "tdv_ok (ownerData c1)" "sel_ok (ownerData c1)"
    using c1(2,3) by (auto simp: td_ok_def tdv_ok_def)
  have s: "sel_ok (snd (selectCell ox (Some p) True (ownerData c1)))"
      "has_selection (snd (selectCell ox (Some p) True (ownerData c1)))"
    using selectCell_in [OF v(3) _ v(1)] assms(3) c1(5) by auto
  have "td_ok (c1\<lparr>ownerData := snd (selectCell ox (Some p) True (ownerData c1))\<rparr>)
      \<and> same_dims c1 (c1\<lparr>ownerData := snd (selectCell ox (Some p) True (ownerData c1))\<rparr>)"
    by (rule td_ok_select [OF c1(3) _ v(2) s(2,1)]) simp_all
  then show ?thesis using c1(1,4) by (auto simp: upd_def same_dims_def)
qed

lemma td_ok_keeps:
  assumes "td_ok c" and "tdv_ok v" and "keeps (ownerData c) v"
  shows "td_ok (c\<lparr>ownerData := v\<rparr>) \<and> same_dims c (c\<lparr>ownerData := v\<rparr>)"
proof -
  obtain n where n: "currentFlameState c = Some n" "state_ok n (ownerData c)" using td_ok_state [OF assms(1)] by blast
  have "state_ok n v"
    using n(2) assms(3) keeps_on_cell [OF assms(3)] by (cases n) (auto simp: has_selection_def keeps_def)
  then show ?thesis using n(1) assms(2,3) by (simp add: td_ok_def same_dims_def keeps_def)
qed

lemma editing_confirm:
  assumes "td_ok c" and "currentFlameState c = Some Editing" and "outside_ok ox"
  shows "\<exists>b v. confirmEdit ox (ownerData c) = Inr (b, v) \<and> td_ok (c\<lparr>ownerData := v\<rparr>)
     \<and> same_dims c (c\<lparr>ownerData := v\<rparr>)"
proof -
  have "tdv_ok (ownerData c)" "on_cell (ownerData c)" using assms(1,2) by (auto simp: td_ok_def)
  then obtain b v where "confirmEdit ox (ownerData c) = Inr (b, v)" "tdv_ok v" "keeps (ownerData c) v"
    using confirmEdit_ok [OF _ assms(3)] by blast
  then show ?thesis using td_ok_keeps [OF assms(1)] by blast
qed

lemma editing_confirmAndMove_ok:
  assumes "td_ok c" and "currentFlameState c = Some Editing" and "outside_ok ox"
  shows "fine c (editing_confirmAndMove ox k c)"
proof -
  obtain b v where v: "confirmEdit ox (ownerData c) = Inr (b, v)" "td_ok (c\<lparr>ownerData := v\<rparr>)"
      "same_dims c (c\<lparr>ownerData := v\<rparr>)" using editing_confirm [OF assms] by blast
  have "fine c (rbind (td_goto ox Selected (c\<lparr>ownerData := v\<rparr>)) (\<lambda>c1. rbind (invoke_move ox k c1)
      (\<lambda>(_, c2). Inr (RBool True, c2))))"
    using fine_trans [OF leave_and_move_ok [OF v(2)] v(3)] assms(2) by simp
  then show ?thesis using v by (simp add: editing_confirmAndMove_def Let_def)
qed

lemma editing_mouseDown_ok:
  assumes "td_ok c" and "currentFlameState c = Some Editing" and "outside_ok ox"
    and "target_ok (ownerData c) (ev_target ev)"
  shows "fine c (editing_mouseDown ox ev c)"
proof (cases "cellForTarget (ev_target ev)")
  case None
  then show ?thesis using assms(1) by (simp add: editing_mouseDown_def)
next
  case (Some p)
  obtain b v where v: "confirmEdit ox (ownerData c) = Inr (b, v)" "td_ok (c\<lparr>ownerData := v\<rparr>)"
      "same_dims c (c\<lparr>ownerData := v\<rparr>)" using editing_confirm [OF assms(1-3)] by blast
  have p: "in_grid (tv_data (ownerData (c\<lparr>ownerData := v\<rparr>))) p"
    using assms(4) Some v(3) by (auto simp: target_ok_def same_dims_def in_grid_def)
  have yes: "fine c (rbind (td_goto ox Selected (c\<lparr>ownerData := v\<rparr>))
      (\<lambda>c2. Inr (RBool True, upd (\<lambda>v. snd (selectCell ox (Some p) True v)) c2)))"
    using fine_trans [OF leave_and_select_ok [OF v(2) _ p] v(3)] assms(2) by simp
  obtain b2 v2 where v2: "confirmEdit ox v = Inr (b2, v2)" "td_ok (c\<lparr>ownerData := v2\<rparr>)" "same_dims c (c\<lparr>ownerData := v2\<rparr>)"
    using editing_confirm [OF v(2) _ assms(3)] assms(2) v(3) by (auto simp: same_dims_def)
  show ?thesis using Some v yes v2 by (cases b) (simp_all add: editing_mouseDown_def Let_def)
qed

lemma loaded_mouseDown_ok:
  assumes "td_ok c" and "currentFlameState c = Some Loaded" and "target_ok (ownerData c) (ev_target ev)"
  shows "fine c (loaded_mouseDown ox ev c)"
  using assms
  by (auto simp: loaded_mouseDown_def selectCell_def isCellSelectable_def target_ok_def td_goto_ret_def goto_defs
      td_ok_def tdv_ok_def sel_ok_def has_selection_def same_dims_def)

lemma target_ok_dims:
  "target_ok (ownerData c) t \<Longrightarrow> same_dims c c' \<Longrightarrow> target_ok (ownerData c') t"
  by (simp add: target_ok_def same_dims_def in_grid_def)

lemma fine_select_end:
  assumes "td_ok c" and "currentFlameState c = Some n" and "n = Selected \<or> n = MouseIsDown"
    and "in_grid (tv_data (ownerData c)) p"
  shows "td_ok (upd (\<lambda>v. v\<lparr>selectionEnd := AtCell p\<rparr>) c) \<and> same_dims c (upd (\<lambda>v. v\<lparr>selectionEnd := AtCell p\<rparr>) c)"
  using assms by (auto simp: td_ok_def tdv_ok_def sel_ok_def has_selection_def same_dims_def)

lemma selected_mouseDown_ok:
  assumes "td_ok c" and "currentFlameState c = Some Selected" and "outside_ok ox"
    and "target_ok (ownerData c) (ev_target ev)" and "target_ok (ownerData c) (ev_under ev)"
  shows "fine c (selected_mouseDown ox ev c)"
proof -
  let ?ev = "retarget ev"
  let ?t = "ev_target ?ev"
  have t: "target_ok (ownerData c) ?t" using assms(4,5) by (simp add: retarget_def)
  have v: "has_selection (ownerData c)" "tdv_ok (ownerData c)" using assms(1,2) by (auto simp: td_ok_def)
  obtain s where s: "selectedDataCell (ownerData c) = Inr s"
    using v by (auto simp: has_selection_def selectedDataCell_def tdv_ok_def sel_ok_def in_grid_def)
  have edit: "fine c (rbind (startEdit ox c) (\<lambda>(_, c1). Inr (RBool True, c1)))"
    using fine_map startEdit_ok [OF assms(1-3)] by blast
  have ext: "fine c (Inr (RBool True, upd (\<lambda>v. v\<lparr>selectionEnd := AtCell (the (cellForTarget ?t))\<rparr>) c))"
    if "isCellSelectable (cellForTarget ?t)"
    using fine_select_end [OF assms(1,2)] that t by (auto simp: isCellSelectable_def target_ok_def)
  obtain c1 where c1: "td_goto ox Loaded c = Inr c1" "td_ok c1" "currentFlameState c1 = Some Loaded" "same_dims c c1"
    using goto_Loaded_ok [OF assms(1)] by blast
  have restart: "fine c (rbind (td_goto ox Loaded c) (loaded_mouseDown ox ?ev))"
    using fine_trans [OF loaded_mouseDown_ok [OF c1(2,3) target_ok_dims [OF t c1(4)]] c1(4)] c1(1) by simp
  show ?thesis
    using s edit ext restart assms(1) unfolding selected_mouseDown_def Let_def
    by (auto split: target.splits)
qed

lemma wipeCell_ok:
  assumes "td_ok c" and "currentFlameState c = Some Selected" and "outside_ok ox"
  shows "fine c (wipeCell ox c)"
proof -
  have v: "has_selection (ownerData c)" "tdv_ok (ownerData c)" using assms(1,2) by (auto simp: td_ok_def)
  obtain p where p: "selectedCell (ownerData c) = Some p" using v(1) by (auto simp: has_selection_def)
  have g: "in_grid (tv_data (ownerData c)) p" using v(2) p by (simp add: tdv_ok_def sel_ok_def)
  have slot: "selectedDataCell (ownerData c) = Inr (get_slot (tv_data (ownerData c)) (fst p) (snd p))"
    using p g by (cases p) (simp add: selectedDataCell_def in_grid_def)
  have "get_slot (tv_data (ownerData c)) (fst p) (snd p) = Missing \<or> is_cell (get_slot (tv_data (ownerData c)) (fst p) (snd p))"
    using v(2) by (simp add: tdv_ok_def no_pending_iff)
  moreover have "fine c (wipeCell ox c)" if cell: "is_cell (get_slot (tv_data (ownerData c)) (fst p) (snd p))"
  proof -
    obtain b w where w: "validateAndSet ox [] None (ownerData c) = Inr (b, w)" "tdv_ok w" "keeps (ownerData c) w"
      using validateAndSet_ok [OF v(2) assms(3), of None p "[]"] p cell by auto
    have "td_ok (c\<lparr>ownerData := w\<rparr>) \<and> same_dims c (c\<lparr>ownerData := w\<rparr>)"
      using td_ok_keeps [OF assms(1) w(2,3)] .
    then show ?thesis using slot cell w(1) assms(1) by (auto simp: wipeCell_def is_cell_def split: slot.splits)
  qed
  ultimately show ?thesis using slot assms(1) by (auto simp: wipeCell_def)
qed

lemma selected_keyPress_ok:
  assumes "td_ok c" and "currentFlameState c = Some Selected" and "outside_ok ox"
  shows "fine c (selected_keyPress ox ctrl key c)"
proof -
  let ?c1 = "upd (\<lambda>v. v\<lparr>editValue := Some [key]\<rparr>) c"
  have v: "has_selection (ownerData c)" "tdv_ok (ownerData c)" using assms(1,2) by (auto simp: td_ok_def)
  obtain s where s: "selectedDataCell (ownerData c) = Inr s" "s = Missing \<or> is_cell s"
    using v by (auto simp: has_selection_def selectedDataCell_def tdv_ok_def sel_ok_def in_grid_def no_pending_iff)
  have "td_ok ?c1" "currentFlameState ?c1 = Some Selected" "same_dims c ?c1"
    using assms(1,2) by (auto simp: td_ok_def tdv_ok_def sel_ok_def has_selection_def same_dims_def)
  then have "fine c (rbind (startEdit ox ?c1) (\<lambda>(_, c1). Inr (RBool True, c1)))"
    using fine_map fine_trans startEdit_ok assms(3) by blast
  then show ?thesis
    using s assms(1) by (auto simp: selected_keyPress_def is_cell_def split: slot.splits)
qed

lemma copy_field_ok:
  "outside_ok ox \<Longrightarrow> s = Missing \<or> is_cell s \<Longrightarrow> \<exists>f. copy_field (ox_class ox) s = Inr f"
  by (auto simp: copy_field_def is_cell_def outside_ok_def split: slot.splits)

lemma copy_row_ok:
  assumes "outside_ok ox" and "no_pending d"
  shows "\<exists>fs. copy_row (ox_class ox) d i js = Inr fs \<and> length fs = length js"
proof (induction js)
  case (Cons j js)
  have "get_slot d i j = Missing \<or> is_cell (get_slot d i j)" using assms(2) by (simp add: no_pending_iff)
  then show ?case using Cons copy_field_ok [OF assms(1)] by fastforce
qed simp

lemma copy_rows_ok:
  assumes "outside_ok ox" and "no_pending d"
  shows "\<exists>rs. copy_rows (ox_class ox) d is js = Inr rs"
proof (induction "is")
  case (Cons i "is")
  then show ?case using copy_row_ok [OF assms, of i js] by auto
qed simp

lemma box_ok: "has_selection v \<Longrightarrow> \<exists>rows cols. selection_box v = Inr (rows, cols)"
  by (cases "selectionEnd v") (auto simp: selection_box_def has_selection_def end_pos_def)

lemma selected_copyKey_ok:
  assumes "td_ok c" and "currentFlameState c = Some Selected" and "outside_ok ox"
  shows "fine c (selected_copyKey ox c)"
proof -
  have v: "has_selection (ownerData c)" "tdv_ok (ownerData c)" using assms(1,2) by (auto simp: td_ok_def)
  obtain s where s: "selectedDataCell (ownerData c) = Inr s"
    using v by (auto simp: has_selection_def selectedDataCell_def tdv_ok_def sel_ok_def in_grid_def)
  obtain t where t: "valueForCopy ox (ownerData c) = Inr t"
    using box_ok [OF v(1)] copy_rows_ok [OF assms(3), of "tv_data (ownerData c)"] v(2)
    by (fastforce simp: valueForCopy_def tdv_ok_def)
  have "td_ok (upd (\<lambda>v. v\<lparr>clipboard := Some t\<rparr>) c)"
    using assms(1,2) by (simp add: td_ok_def tdv_ok_def sel_ok_def has_selection_def)
  then show ?thesis using s t assms(1) by (simp add: selected_copyKey_def same_dims_def)
qed

lemma log_call_ok: "tdv_ok (log_call ox k v) = tdv_ok v" "keeps u (log_call ox k v) = keeps u v"
  by (simp_all add: tdv_ok_def sel_ok_def keeps_def)

lemma paste_set_ok:
  assumes "tdv_ok v" and "outside_ok ox" and "is_cell (get_slot (tv_data v) (fst p) (snd p))"
  shows "\<exists>v'. paste_set ox f p v = Inr v' \<and> tdv_ok v' \<and> keeps v v'"
proof -
  obtain b v' where v': "validateAndSet ox f (Some p) v = Inr (b, v')" "tdv_ok v'" "keeps v v'"
    using validateAndSet_ok [OF assms(1,2), of "Some p" p f] assms(3) by auto
  then show ?thesis by (cases b) (simp_all add: paste_set_def log_call_ok)
qed

lemma paste_one_ok:
  assumes "tdv_ok v" and "outside_ok ox"
  shows "\<exists>v'. paste_one ox b (p, f) v = Inr v' \<and> tdv_ok v' \<and> keeps v v'"
proof -
  have "get_slot (tv_data v) (fst p) (snd p) = Missing \<or> is_cell (get_slot (tv_data v) (fst p) (snd p))"
    using assms(1) by (simp add: tdv_ok_def no_pending_iff)
  moreover have ?thesis if cell: "is_cell (get_slot (tv_data v) (fst p) (snd p))"
  proof -
    obtain c where c: "get_slot (tv_data v) (fst p) (snd p) = Cell c" using cell by (auto simp: is_cell_def split: slot.splits)
    obtain options where o: "cl_options (ox_class ox) = Some options" using assms(2) by (auto simp: outside_ok_def)
    show ?thesis
      using c o assms(1) paste_set_ok [OF assms cell] unfolding paste_one_def
      by (auto simp: log_call_ok split: option.splits)
  qed
  ultimately show ?thesis using assms(1) by (auto simp: paste_one_def)
qed

lemma paste_all_ok:
  assumes "tdv_ok v" and "outside_ok ox"
  shows "\<exists>v'. paste_all ox b pfs v = Inr v' \<and> tdv_ok v' \<and> keeps v v'"
  using assms(1)
proof (induction pfs arbitrary: v)
  case (Cons pf pfs)
  obtain v1 where v1: "paste_one ox b pf v = Inr v1" "tdv_ok v1" "keeps v v1"
    using paste_one_ok [OF Cons.prems assms(2), of b "fst pf" "snd pf"] by auto
  then show ?case using Cons.IH [OF v1(2)] keeps_trans by fastforce
qed simp

lemma pasteValue_ok:
  assumes "tdv_ok v" and "outside_ok ox" and "has_selection v"
  shows "\<exists>v'. pasteValue ox text v = Inr v' \<and> tdv_ok v' \<and> keeps v v'"
proof -
  obtain p where p: "selectedCell v = Some p" using assms(3) by (auto simp: has_selection_def)
  obtain cells where "forEachSelectedCell v = Inr cells"
    using box_ok [OF assms(3)] by (auto simp: forEachSelectedCell_def)
  then show ?thesis
    using p paste_all_ok [OF assms(1,2)] by (simp add: pasteValue_def Let_def)
qed

lemma state_has_selection: "state_ok n v \<Longrightarrow> selectedCell v \<noteq> None \<Longrightarrow> has_selection v"
  by (cases n) (auto simp: has_selection_def)

lemma didSelectMenuItem_ok:
  assumes "td_ok c" and "on_cell (ownerData c)" and "outside_ok ox"
  shows "fine c (didSelectMenuItem ox value c)"
proof -
  let ?v = "(ownerData c)\<lparr>editField := (case value of None \<Rightarrow> [] | Some s \<Rightarrow> s)\<rparr>"
  have "tdv_ok ?v" using assms(1) by (simp add: td_ok_def tdv_ok_def sel_ok_def)
  then obtain b w where w: "confirmEdit ox ?v = Inr (b, w)" "tdv_ok w" "keeps ?v w"
    using confirmEdit_ok [of ?v ox] assms(2,3) by auto
  have k: "keeps (ownerData c) w" using w(3) by (simp add: keeps_def)
  have c1: "td_ok (c\<lparr>ownerData := w\<rparr>)" "same_dims c (c\<lparr>ownerData := w\<rparr>)" using td_ok_keeps [OF assms(1) w(2) k] by auto
  then show ?thesis
    using w(1) fine_map [OF fine_trans [OF invoke_move_ok [OF c1(1), of ox ToDown] c1(2)], of RUndefined]
    by (simp add: didSelectMenuItem_def Let_def)
qed

lemma pickMenuItem_ok:
  assumes "td_ok c" and "currentFlameState c = Some Editing" and "outside_ok ox"
  shows "fine c (pickMenuItem ox value c)"
proof -
  obtain c1 where c1: "td_goto ox Selected c = Inr c1" "td_ok c1" "same_dims c c1"
      "selectedCell (ownerData c1) = selectedCell (ownerData c)" "tv_data (ownerData c1) = tv_data (ownerData c)"
    using goto_Selected_ok [OF assms(1), of ox] assms(2) by auto
  have "on_cell (ownerData c)" using assms(1,2) by (simp add: td_ok_def)
  then have "on_cell (ownerData c1)" using c1(4,5)
    by (cases "selectedCell (ownerData c)") (simp_all add: on_cell_def)
  then show ?thesis
    using fine_trans [OF didSelectMenuItem_ok [OF c1(2) _ assms(3)] c1(3)] c1(1) by (simp add: pickMenuItem_def)
qed

lemma isDown_mouseMove_ok:
  assumes "td_ok c" and "currentFlameState c = Some MouseIsDown" and "target_ok (ownerData c) t"
  shows "fine c (isDown_mouseMove t c)"
  using assms
  by (auto simp: isDown_mouseMove_def td_ok_def tdv_ok_def sel_ok_def has_selection_def same_dims_def target_ok_def
      split: option.splits)

lemma selected_mouseUp_ok:
  assumes "td_ok c" and "currentFlameState c = Some Selected"
  shows "fine c (selected_mouseUp ox ev c)"
proof -
  have v: "has_selection (ownerData c)" "tdv_ok (ownerData c)" using assms by (auto simp: td_ok_def)
  have "td_ok (upd (\<lambda>v. notifySelectionChange ox (case t of TdTarget p \<Rightarrow> log_call ox (DelegateMouseUp p) v | _ \<Rightarrow> v)) c)
      \<and> same_dims c (upd (\<lambda>v. notifySelectionChange ox (case t of TdTarget p \<Rightarrow> log_call ox (DelegateMouseUp p) v | _ \<Rightarrow> v)) c)"
    for t
    using assms(2) v
    by (cases t) (simp_all add: td_ok_def tdv_ok_def sel_ok_def has_selection_def same_dims_def)
  then show ?thesis using assms(1) by (auto simp: selected_mouseUp_def Let_def split: option.splits)
qed

lemma isDown_mouseUp_ok:
  assumes "td_ok c" and "currentFlameState c = Some MouseIsDown"
  shows "fine c (isDown_mouseUp ox ev c)"
proof -
  obtain c1 where c1: "td_goto ox Selected c = Inr c1" "td_ok c1" "currentFlameState c1 = Some Selected" "same_dims c c1"
    using goto_Selected_ok [OF assms(1), of ox] assms(2) by auto
  then show ?thesis using fine_trans [OF selected_mouseUp_ok [OF c1(2,3)] c1(4)] by (simp add: isDown_mouseUp_def)
qed

lemma goto_ret_ok:
  assumes "td_ok c" and "n = Loaded \<or> n = Selected \<and> currentFlameState c \<noteq> Some Loaded"
  shows "fine c (td_goto_ret ox n r c)"
  using goto_Loaded_ok [OF assms(1), of ox] goto_Selected_ok [OF assms(1), of ox] assms(2)
  by (auto simp: td_goto_ret_def)

lemma selected_event_ok:
  assumes "td_ok c" and "currentFlameState c = Some Selected" and "outside_ok ox" and "event_ok (ownerData c) e"
  shows "fine c (selected_event ox e c)"
proof -
  note ok = startEdit_ok [OF assms(1-3)] wipeCell_ok [OF assms(1-3)] selected_move_ok [OF assms(1,2)]
    selected_moveAndModify_ok [OF assms(1,2)] selected_copyKey_ok [OF assms(1-3)] selected_keyPress_ok [OF assms(1-3)]
    selected_mouseUp_ok [OF assms(1,2)] fine_map [OF invoke_move_ok [OF assms(1)]] goto_ret_ok [OF assms(1)]
  show ?thesis
    using assms(1,4) ok selected_mouseDown_ok [OF assms(1-3)]
    by (cases e) (simp_all add: as_true_def event_ok_def)
qed

lemma editing_event_ok:
  assumes "td_ok c" and "currentFlameState c = Some Editing" and "outside_ok ox" and "event_ok (ownerData c) e"
  shows "fine c (editing_event ox e c)"
  using assms(1,2,4) editing_confirmAndMove_ok [OF assms(1-3)] editing_mouseDown_ok [OF assms(1-3)]
    invoke_move_ok [OF assms(1)] goto_ret_ok [OF assms(1)]
  by (cases e) (simp_all add: event_ok_def)

lemma readOnly_event_ok:
  assumes "td_ok c" and "currentFlameState c = Some SelectingReadOnly" and "event_ok (ownerData c) e"
  shows "fine c (readOnly_event ox e c)"
proof -
  have nl: "currentFlameState c \<noteq> Some Loaded" using assms(2) by simp
  have md: "fine c (readOnly_mouseDown ox ev c)" if "target_ok (ownerData c) (ev_target ev)" for ev
    using leave_and_select_ok [OF assms(1) nl] that assms(1)
    by (auto simp: readOnly_mouseDown_def target_ok_def simp del: split_paired_All split: option.splits)
  show ?thesis
    using assms md leave_and_move_ok [OF assms(1) nl] goto_ret_ok [OF assms(1)] nl
    by (cases e) (simp_all add: event_ok_def readOnly_leaveAndMove_def)
qed

lemma state_event_ok:
  assumes "td_ok c" and "outside_ok ox" and "event_ok (ownerData c) e"
  shows "fine c (state_event ox e c)"
proof -
  obtain n where n: "currentFlameState c = Some n" using td_ok_state [OF assms(1)] by blast
  show ?thesis
  proof (cases n)
    case Loaded
    then show ?thesis using n assms loaded_mouseDown_ok [OF assms(1)]
      by (cases e) (simp_all add: state_event_def event_ok_def)
  next
    case MouseIsDown
    then show ?thesis using n assms isDown_mouseMove_ok [OF assms(1)] isDown_mouseUp_ok [OF assms(1)]
      by (cases e) (simp_all add: state_event_def event_ok_def)
  qed (use n assms selected_event_ok [OF assms(1) _ assms(2,3)] editing_event_ok [OF assms(1) _ assms(2,3)]
         readOnly_event_ok [OF assms(1) _ assms(3)] in \<open>simp_all add: state_event_def\<close>)
qed

lemma handle_event_ok:
  assumes "td_ok c" and "outside_ok ox" and "event_ok (ownerData c) e"
  shows "fine c (handle_event ox e c)"
proof -
  obtain n where n: "state_ok n (ownerData c)" "tdv_ok (ownerData c)" using td_ok_state [OF assms(1)] by blast
  have paste: "fine c (rbind (pasteValue ox s (ownerData c)) (\<lambda>v. Inr (RUndefined, c\<lparr>ownerData := v\<rparr>)))"
    if "selectedCell (ownerData c) \<noteq> None" for s
    using pasteValue_ok [OF n(2) assms(2) state_has_selection [OF n(1) that], of s] td_ok_keeps [OF assms(1)] by auto
  have typed: "td_ok (upd (\<lambda>v. v\<lparr>editField := s\<rparr>) c) \<and> same_dims c (upd (\<lambda>v. v\<lparr>editField := s\<rparr>) c)" for s
    using td_ok_keeps [OF assms(1), of "(ownerData c)\<lparr>editField := s\<rparr>"] n(2)
    by (simp add: upd_def tdv_ok_def sel_ok_def keeps_def)
  show ?thesis
    using assms(1,3) state_event_ok [OF assms] paste typed pickMenuItem_ok [OF assms(1) _ assms(2)]
      goto_ret_ok [OF assms(1)]
    by (cases e) (simp_all add: handle_event_def event_ok_def)
qed

text \<open>
  Events whose mouse targets are cells of the table, with pasting only while something is
  selected.
\<close>

fun events_ok :: "'c outside \<Rightarrow> td_event list \<Rightarrow> 'c td_owner \<Rightarrow> bool" where
  "events_ok ox [] c = True"
| "events_ok ox (e # es) c = (event_ok (ownerData c) e
     \<and> (case handle_event ox e c of Inl _ \<Rightarrow> True | Inr (_, c1) \<Rightarrow> events_ok ox es c1))"


section \<open>Copying and pasting\<close>

text \<open>A field that survives the text format: no separator and no carriage return in it.\<close>

definition plain :: "string \<Rightarrow> bool" where
  "plain f \<longleftrightarrow> tab \<notin> set f \<and> newline \<notin> set f \<and> carriage \<notin> set f"

lemma split_prefix:
  "sep \<notin> set x \<Longrightarrow> split sep (x @ sep # s) = x # split sep s"
  by (induction x) auto

lemma split_single: "sep \<notin> set x \<Longrightarrow> split sep x = [x]"
  by (induction x) auto

lemma split_join:
  assumes "xs \<noteq> []" and "\<forall>x\<in>set xs. sep \<notin> set x"
  shows "split sep (join [sep] xs) = xs"
  using assms
proof (induction xs rule: induct_list012)
  case (3 x y zs)
  then show ?case using split_prefix [of sep x] by simp
qed (auto simp: split_single)

lemma set_join: "set (join sep xs) \<subseteq> set sep \<union> (\<Union>x\<in>set xs. set x)"
  by (induction sep xs rule: join.induct) auto

lemma normalize_id: "carriage \<notin> set s \<Longrightarrow> normalize_newlines s = s"
  by (induction s rule: normalize_newlines.induct) auto

lemma trim_id:
  assumes "carriage \<notin> set s" and "s \<noteq> []" and "\<not> strippable (hd s)" and "\<not> strippable (last s)"
  shows "trim s = s"
proof -
  have "dropWhile strippable s = s" using assms(2,3) by (cases s) auto
  moreover have "dropWhile strippable (rev s) = rev s"
    using assms(2,4) dropWhile_eq_self_iff [of strippable "rev s"] by (simp add: hd_rev)
  ultimately show ?thesis using normalize_id [OF assms(1)] by (simp add: trim_def)
qed

lemma separators: "tab \<noteq> newline" "tab \<noteq> carriage" "newline \<noteq> carriage"
  by (simp_all add: tab_def newline_def carriage_def)

lemma row_text:
  assumes "\<forall>f\<in>set r. plain f"
  shows "newline \<notin> set (join [tab] r) \<and> carriage \<notin> set (join [tab] r)"
  using set_join [of "[tab]" r] assms separators by (auto simp: plain_def)

lemma copy_text_no_carriage:
  assumes "\<forall>r\<in>set t. \<forall>f\<in>set r. plain f"
  shows "carriage \<notin> set (copy_text t)"
  using set_join [of "[newline]" "map (join [tab]) t"] row_text assms separators
  by (fastforce simp: copy_text_def)

lemma paste_targets_copy:
  assumes "t \<noteq> []" and "\<forall>r\<in>set t. r \<noteq> [] \<and> (\<forall>f\<in>set r. plain f)"
  shows "paste_targets p (copy_text t)
    = concat (map (\<lambda>(i, r). paste_row (fst p + i) (snd p) r) (enumerate 0 t))"
proof -
  have "split newline (copy_text t) = map (join [tab]) t"
    unfolding copy_text_def by (rule split_join) (use assms row_text in auto)
  moreover have "split tab (join [tab] r) = r" if "r \<in> set t" for r
    by (rule split_join) (use assms that in \<open>auto simp: plain_def\<close>)
  ultimately show ?thesis
    unfolding paste_targets_def
    by (intro arg_cong [where f = concat] nth_equalityI) (simp_all add: nth_enumerate_eq)
qed

lemma enumerate_image: "set (enumerate 0 r) = (\<lambda>j. (j, r ! j)) ` {..<length r}"
  by (auto simp: in_set_enumerate_eq image_iff)

lemma paste_row_nth:
  "((x, y), f) \<in> set (paste_row a b r) \<longleftrightarrow> x = a \<and> (\<exists>j < length r. y = b + j \<and> f = r ! j)"
  unfolding paste_row_def set_map enumerate_image by (auto simp: image_iff)

lemma targets_nth:
  "((x, y), f) \<in> set (concat (map (\<lambda>(i, r). paste_row (a + i) b r) (enumerate 0 t)))
   \<longleftrightarrow> (\<exists>i < length t. \<exists>j < length (t ! i). x = a + i \<and> y = b + j \<and> f = t ! i ! j)"
  unfolding set_concat set_map enumerate_image by (auto simp: paste_row_nth)

lemma copy_rows_shape:
  assumes "copy_rows K d is js = Inr t"
  shows "length t = length is \<and> (\<forall>r\<in>set t. length r = length js)"
proof -
  have row: "copy_row K d i ks = Inr r \<Longrightarrow> length r = length ks" for i ks r
    by (induction ks arbitrary: r) auto
  show ?thesis using assms by (induction "is" arbitrary: t) (auto dest: row)
qed

text \<open>A cell that takes a pasted field as it is, and the value a cell shows to the editor.\<close>

definition accepts :: "'c outside \<Rightarrow> 'c slot \<Rightarrow> string \<Rightarrow> bool" where
  "accepts ox s f = (case (s, cl_options (ox_class ox)) of
       (Cell c, Some options) \<Rightarrow> cl_isEditable (ox_class ox) c \<and> cl_isPastable (ox_class ox) c
          \<and> options c = None \<and> cl_validate (ox_class ox) c f
     | _ \<Rightarrow> False)"

definition slot_value :: "'c outside \<Rightarrow> 'c slot \<Rightarrow> string option" where
  "slot_value ox s = (case s of
       Cell c \<Rightarrow> (case cl_editableValue (ox_class ox) c of Inr e \<Rightarrow> e | Inl _ \<Rightarrow> None)
     | _ \<Rightarrow> None)"

lemma paste_one_stores:
  assumes "tdv_ok v" and "outside_ok ox" and "accepts ox (get_slot (tv_data v) (fst p) (snd p)) f"
    and "\<And>c. cl_editableValue (ox_class ox) (fst (dg_cellUpdated (the (ox_delegate ox)) c f p)) = Inr (Some f)"
  shows "\<exists>v'. paste_one ox True (p, f) v = Inr v' \<and> tdv_ok v'
    \<and> slot_value ox (get_slot (tv_data v') (fst p) (snd p)) = Some f
    \<and> (\<forall>q. q \<noteq> p \<longrightarrow> get_slot (tv_data v') (fst q) (snd q) = get_slot (tv_data v) (fst q) (snd q))"
proof -
  obtain x y where p: "p = (x, y)" by (cases p)
  obtain c options where c: "get_slot (tv_data v) x y = Cell c" "cl_options (ox_class ox) = Some options"
      "cl_isEditable (ox_class ox) c" "cl_isPastable (ox_class ox) c" "options c = None" "cl_validate (ox_class ox) c f"
    using assms(3) p by (auto simp: accepts_def split: slot.splits option.splits)
  have g: "grid_ok (tv_data v)" using assms(1) by (simp add: tdv_ok_def screen_ok_def)
  have xy: "in_grid (tv_data v) (x, y)" using is_cell_in_grid [OF g] c(1) by (simp add: is_cell_def)
  obtain b v' c' where st: "validateAndSet ox f (Some p) v = Inr (b, v')" "stores v (x, y) c' v'" "b"
      "if b \<and> cl_editableValue (ox_class ox) c \<noteq> Inr (Some f)
       then c' = fst (dg_cellUpdated (the (ox_delegate ox)) c f (x, y)) else c' = c"
    using validateAndSet_stores [OF assms(1,2) _ c(1), of "Some p" f] c(6) p by fastforce
  have v': "validateAndSet ox f (Some p) v = Inr (True, v')" "stores v (x, y) c' v'"
      "cl_editableValue (ox_class ox) c' = Inr (Some f)"
    using st assms(4) [of c] p by (simp_all split: if_splits)
  have "get_slot (tv_data v') x' y' = (if (x', y') = (x, y) then Cell c' else get_slot (tv_data v) x' y')" for x' y'
    using v'(2) get_put_slot [OF g xy] by (simp add: stores_def)
  moreover have "paste_one ox True (p, f) v = Inr v'"
    using c p v'(1) by (simp add: paste_one_def paste_set_def)
  ultimately show ?thesis using v'(2,3) p by (auto simp: stores_def slot_value_def)
qed

lemma paste_all_stores:
  assumes "tdv_ok v" and "outside_ok ox" and "distinct (map fst pfs)"
    and "\<And>p f. (p, f) \<in> set pfs \<Longrightarrow> accepts ox (get_slot (tv_data v) (fst p) (snd p)) f"
    and "\<And>c f p. cl_editableValue (ox_class ox) (fst (dg_cellUpdated (the (ox_delegate ox)) c f p)) = Inr (Some f)"
  shows "\<exists>v'. paste_all ox True pfs v = Inr v' \<and> tdv_ok v'
    \<and> (\<forall>p f. (p, f) \<in> set pfs \<longrightarrow> slot_value ox (get_slot (tv_data v') (fst p) (snd p)) = Some f)
    \<and> (\<forall>q. q \<notin> fst ` set pfs \<longrightarrow> get_slot (tv_data v') (fst q) (snd q) = get_slot (tv_data v) (fst q) (snd q))"
  using assms(1,3,4)
proof (induction pfs arbitrary: v)
  case Nil
  then show ?case by simp
next
  case (Cons pf pfs)
  obtain p f where pf: "pf = (p, f)" by (cases pf)
  have acc: "accepts ox (get_slot (tv_data v) (fst p) (snd p)) f" using Cons.prems(3) [of p f] pf by simp
  obtain v1 where v1: "paste_one ox True (p, f) v = Inr v1" "tdv_ok v1"
      "slot_value ox (get_slot (tv_data v1) (fst p) (snd p)) = Some f"
      "\<And>q. q \<noteq> p \<Longrightarrow> get_slot (tv_data v1) (fst q) (snd q) = get_slot (tv_data v) (fst q) (snd q)"
    using paste_one_stores [OF Cons.prems(1) assms(2) acc assms(5)] by blast
  have new: "p \<notin> fst ` set pfs" and d: "distinct (map fst pfs)" using Cons.prems(2) pf by auto
  have rest: "accepts ox (get_slot (tv_data v1) (fst q) (snd q)) g" if "(q, g) \<in> set pfs" for q g
  proof -
    have "q \<noteq> p" using new that by force
    then show ?thesis using v1(4) Cons.prems(3) [of q g] that by simp
  qed
  obtain v' where v': "paste_all ox True pfs v1 = Inr v'" "tdv_ok v'"
      "\<And>q g. (q, g) \<in> set pfs \<Longrightarrow> slot_value ox (get_slot (tv_data v') (fst q) (snd q)) = Some g"
      "\<And>q. q \<notin> fst ` set pfs \<Longrightarrow> get_slot (tv_data v') (fst q) (snd q) = get_slot (tv_data v1) (fst q) (snd q)"
    using Cons.IH [OF v1(2) d rest] by blast
  have "paste_all ox True (pf # pfs) v = Inr v'" using v1(1) v'(1) pf by simp
  moreover have "slot_value ox (get_slot (tv_data v') (fst q) (snd q)) = Some g" if "(q, g) \<in> set (pf # pfs)" for q g
    using that v'(3) [of q g] v'(4) [OF new] v1(3) pf by auto
  moreover have "get_slot (tv_data v') (fst q) (snd q) = get_slot (tv_data v) (fst q) (snd q)"
    if "q \<notin> fst ` set (pf # pfs)" for q
    using that v'(4) [of q] v1(4) [of q] pf by auto
  ultimately show ?case using v'(2) by blast
qed

lemma targets_distinct:
  "distinct (map fst (concat (map (\<lambda>(i, r). paste_row (a + i) b r) (enumerate n t))))"
proof (induction t arbitrary: n)
  case Nil
  then show ?case by simp
next
  case (Cons r t)
  have row: "map fst (paste_row x b r) = map (\<lambda>j. (x, b + j)) [0..<length r]" for x
    by (auto simp: paste_row_def nth_enumerate_eq intro: nth_equalityI)
  have later: "fst q \<noteq> a + n" if "q \<in> fst ` set (concat (map (\<lambda>(i, r). paste_row (a + i) b r) (enumerate (Suc n) t)))" for q
    using that by (auto simp: paste_row_def in_set_enumerate_eq)
  have "set (map fst (paste_row (a + n) b r))
      \<inter> fst ` set (concat (map (\<lambda>(i, r). paste_row (a + i) b r) (enumerate (Suc n) t))) = {}"
  proof (rule ccontr)
    assume "\<not> ?thesis"
    then obtain q where "q \<in> set (map fst (paste_row (a + n) b r))"
        "q \<in> fst ` set (concat (map (\<lambda>(i, r). paste_row (a + i) b r) (enumerate (Suc n) t)))" by blast
    then show False using later [of q] unfolding row by auto
  qed
  moreover have "distinct (map fst (paste_row (a + n) b r))"
    unfolding row by (simp add: distinct_map inj_on_def)
  ultimately show ?case using Cons.IH [of "Suc n"] by simp
qed


section \<open>A concrete table\<close>

text \<open>
  Text cells that are editable unless they offer options, a delegate that stores what it is
  given, and views on small tables.
\<close>

definition field_class :: "table_cell cell_class" where
  "field_class = TableCell_class\<lparr>cl_isEditable := \<lambda>c. True,
     cl_options := Some (\<lambda>c. if tc_value c = Some ''menu'' then Some [(''one'', ''1'')] else None),
     cl_placeholder := Some (\<lambda>c. []), cl_editableValue := \<lambda>c. Inr (tc_value c)\<rparr>"

definition field_outside :: "table_cell outside" where
  "field_outside = \<lparr>ox_class = field_class,
     ox_delegate = Some \<lparr>dg_cellUpdated = \<lambda>c s p. (c\<lparr>tc_value := Some s\<rparr>, True), dg_mouseUp = True\<rparr>,
     ox_escape = id\<rparr>"

definition field_view :: "string list list \<Rightarrow> sel_end \<Rightarrow> table_cell tdv" where
  "field_view t e = \<lparr>tv_screen = \<lparr>s_data = map (map text_cell) t,
       s_elements = replicate (length (concat t)) blank_el, s_updateCounter = 0, s_queue = []\<rparr>,
     tv_dirty = [], selectedCell = Some (0, 0), selectionEnd = e, editValue = None, lastTarget = None,
     editField = [], editShown = False, editInvalid = False, selHtml = [], selReadOnly = False, selShown = True,
     selectionContent = None, clipboard = None, tv_allowSelection = True, tv_inDOM = True, tv_limit = 500,
     tv_calls = []\<rparr>"

lemma field_outside_ok: "outside_ok field_outside"
  by (simp add: outside_ok_def field_outside_def field_class_def)

lemma field_view_simps [simp]:
  "tv_data (field_view t e) = map (map text_cell) t" "selectedCell (field_view t e) = Some (0, 0)"
  "selectionEnd (field_view t e) = e" "tv_dirty (field_view t e) = []" "tv_limit (field_view t e) = 500"
  "tv_inDOM (field_view t e)" "length (s_elements (tv_screen (field_view t e))) = length (concat t)"
  by (simp_all add: field_view_def)

lemma field_slot:
  "x < length t \<Longrightarrow> y < length (t ! x) \<Longrightarrow> get_slot (map (map text_cell) t) x y = text_cell (t ! x ! y)"
  by (simp add: get_slot_def)

lemma field_value: "slot_value field_outside (text_cell s) = Some s"
  by (simp add: slot_value_def text_cell_def field_outside_def field_class_def)

lemma field_accepts: "accepts field_outside (text_cell s) f \<longleftrightarrow> s \<noteq> ''menu''"
  by (simp add: accepts_def text_cell_def field_outside_def field_class_def TableCell_class_def)

lemma field_stores:
  "cl_editableValue (ox_class field_outside) (fst (dg_cellUpdated (the (ox_delegate field_outside)) c f p)) = Inr (Some f)"
  by (simp add: field_outside_def field_class_def)

lemma length_concat_rows: "\<forall>r\<in>set t. length r = n \<Longrightarrow> length (concat t) = length t * n"
  by (induction t) auto

lemma field_view_ok:
  assumes "t \<noteq> []" and "hd t \<noteq> []" and "\<forall>r\<in>set t. length r = length (hd t)"
    and "e = AtStart \<or> (\<exists>q. e = AtCell q \<and> fst q < length t \<and> snd q < length (hd t))"
  shows "tdv_ok (field_view t e)"
proof -
  have len: "length (concat t) = length t * length (hd t)"
    using assms(3) by (rule length_concat_rows)
  have cols: "grid_cols (map (map text_cell) t) = length (hd t)"
    using assms(1) by (simp add: grid_cols_def hd_map)
  obtain n where n: "n = length (hd t)" "\<forall>r\<in>set t. length r = n" using assms(3) by blast
  then have "grid_ok (map (map text_cell) t)" using assms(1) cols by (simp add: grid_ok_def list_all_iff)
  moreover have "no_pending (map (map text_cell) t)"
    by (simp add: no_pending_def list_all_iff is_cell_def text_cell_def)
  moreover have "sel_ok (field_view t e)"
    using assms(1,2,4) cols by (auto simp: sel_ok_def in_grid_def)
  ultimately show ?thesis using len cols by (simp add: tdv_ok_def screen_ok_def)
qed

fun key_event :: "td_event \<Rightarrow> bool" where
  "key_event (MouseDown ev) = False" | "key_event (MouseMove t) = False" | "key_event (PasteTimer s) = False"
| "key_event _ = True"

lemma key_event_ok: "key_event e \<Longrightarrow> event_ok v e"
  by (cases e) (simp_all add: event_ok_def)

lemma key_events_ok: "list_all key_event es \<Longrightarrow> events_ok ox es c"
  by (induction es arbitrary: c) (auto simp: key_event_ok split: sum.splits)



section \<open>Where the code falls short\<close>

text \<open>
  A key pressed on a cell with options is not forgotten.  It opens the option menu, and
  after the menu is closed the next text cell that is edited starts with that key instead of its
  own value.
\<close>

theorem option_key_leaks_into_next_edit:
  "(case td_run field_outside [KeyPress False (CHR ''x''), CloseMenu, Move ToRight, InsertNewline]
      \<lparr>currentFlameState = Some Selected, ownerData = field_view [[''menu'', ''b'']] AtStart\<rparr> of
      Inr c \<Rightarrow> (currentFlameState c, selectedCell (ownerData c), editField (ownerData c),
                slot_value field_outside (get_slot (tv_data (ownerData c)) 0 1))
    | Inl e \<Rightarrow> (None, None, [], None))
   = (Some Editing, Some (0, 1), ''x'', Some ''b'')"
  by code_simp

text \<open>
  A read-only cell of the base class cannot be opened for reading.  \<open>startEdit\<close> calls
  \<open>options\<close> on it, a method \<open>TableCell\<close> does not have, and throws.
\<close>

theorem base_cell_start_edit_throws:
  assumes "ox_class ox = TableCell_class" and "selectedDataCell (ownerData c) = Inr (Cell dataCell)"
  shows "startEdit ox c = Inl TypeError"
  using assms by (simp add: startEdit_def TableCell_class_def)

theorem base_cell_start_edit_throws_witness:
  "startEdit \<lparr>ox_class = TableCell_class, ox_delegate = None, ox_escape = id\<rparr>
     \<lparr>currentFlameState = Some Selected, ownerData = field_view [[''a'']] AtStart\<rparr> = Inl TypeError"
  by (rule base_cell_start_edit_throws [where dataCell = "\<lparr>tc_value = Some ''a'', tc_isUpdating = False\<rparr>"])
    (simp_all add: selectedDataCell_def get_slot_def text_cell_def)

text \<open>
  A column that begins with an empty cell does not paste back where it came from: the text
  starts with a line break, which \<open>_trim\<close> removes, so the second field lands in the first row.
\<close>

theorem empty_first_cell_shifts_paste:
  "paste_targets (0, 0) (trim (copy_text [[[]], [f]])) =
     (if f = [] then [((0, 0), [])] else paste_targets (0, 0) (trim f))"
proof -
  have n: "strippable newline" by (simp add: strippable_def is_space_def newline_def tab_def)
  have norm: "normalize_newlines (newline # f) = newline # normalize_newlines f"
    by (cases f) (simp_all add: newline_def carriage_def)
  have "trim (copy_text [[[]], [f]]) = trim f"
    using n by (simp add: copy_text_def trim_def norm)
  then show ?thesis by (simp add: trim_def paste_targets_def paste_row_def)
qed

end
