(* ===== verification/Validations.thy ===== *)
theory Validations
  imports Flame_Prelude
begin

text \<open>
  \<open>validations.js\<close> and the validators under \<open>validators/\<close>: an object with a hash of
  validations, the flag \<open>fooIsValid\<close> per validated property, the flag \<open>isValid\<close> of the object,
  created on the first demand and kept up to date by an observer.
\<close>

section \<open>Validators\<close>

text \<open>
  A validator object sees the target and the key, a function is called with the value (and the
  object as \<open>this\<close>), anything \<open>null\<close> or \<open>undefined\<close> gives \<open>null\<close>.
\<close>

type_synonym props = "string \<Rightarrow> jsval"

datatype validator = ValidatorObject "props \<Rightarrow> string \<Rightarrow> jsval" | ValidatorFunction "props \<Rightarrow> jsval \<Rightarrow> jsval"
  | NoValidator

definition validate_with :: "validator \<Rightarrow> props \<Rightarrow> string \<Rightarrow> jsval" where
  "validate_with d vals key = (case d of
       ValidatorObject f \<Rightarrow> f vals key | ValidatorFunction f \<Rightarrow> f vals (vals key) | NoValidator \<Rightarrow> JNull)"

text \<open>The loop over the validators of a property stops at the first that fails.\<close>

fun run_validators :: "validator list \<Rightarrow> props \<Rightarrow> string \<Rightarrow> jsval" where
  "run_validators [] vals key = JUndefined"
| "run_validators (d # ds) vals key =
     (let r = validate_with d vals key in if truthy r \<and> ds \<noteq> [] then run_validators ds vals key else r)"

datatype coupled = NoCoupled | CoupledArray "string list" | CoupledOther

record vspec =
  v_validators :: "validator list"
  v_coupled :: coupled

text \<open>\<open>validators/not_blank.js\<close>.\<close>

definition blank_char :: "char \<Rightarrow> bool" where
  "blank_char c \<longleftrightarrow> of_char c \<in> ({9, 10, 11, 12, 13, 32, 160} :: nat set)"

definition isBlank :: "jsval \<Rightarrow> bool" where
  "isBlank v = (case v of JUndefined \<Rightarrow> True | JNull \<Rightarrow> True | JStr s \<Rightarrow> list_all blank_char s | _ \<Rightarrow> False)"

definition notBlankValidator :: validator where
  "notBlankValidator = ValidatorObject (\<lambda>vals key. JBool (\<not> isBlank (vals key)))"

text \<open>
  \<open>validators/number.js\<close>: the empty string, or what both \<open>Number\<close> and \<open>parseFloat\<close> read as a
  number.  For strings that is a decimal literal with an optional sign, fraction and exponent,
  \<open>Infinity\<close>, or a hexadecimal literal (of which \<open>parseFloat\<close> reads the zero).
\<close>

definition strip :: "string \<Rightarrow> string" where
  "strip s = rev (dropWhile blank_char (rev (dropWhile blank_char s)))"

definition hex_digit :: "char \<Rightarrow> bool" where
  "hex_digit c \<longleftrightarrow> is_digit c \<or> c \<in> set ''abcdefABCDEF''"

fun strip_sign :: "string \<Rightarrow> string" where
  "strip_sign [] = []"
| "strip_sign (c # s) = (if c = CHR ''+'' \<or> c = CHR ''-'' then s else c # s)"

definition exponent_ok :: "string \<Rightarrow> bool" where
  "exponent_ok s = (case s of [] \<Rightarrow> True
     | c # t \<Rightarrow> (c = CHR ''e'' \<or> c = CHR ''E'') \<and> strip_sign t \<noteq> [] \<and> list_all is_digit (strip_sign t))"

definition decimal_literal :: "string \<Rightarrow> bool" where
  "decimal_literal s = (let w = takeWhile is_digit s; r = dropWhile is_digit s in
     case r of [] \<Rightarrow> w \<noteq> []
     | c # t \<Rightarrow> (if c = CHR ''.''
                 then (w \<noteq> [] \<or> takeWhile is_digit t \<noteq> []) \<and> exponent_ok (dropWhile is_digit t)
                 else w \<noteq> [] \<and> exponent_ok r))"

definition numeric_string :: "string \<Rightarrow> bool" where
  "numeric_string s = (let t = strip s in
     decimal_literal (strip_sign t) \<or> strip_sign t = ''Infinity''
     \<or> (length t > 2 \<and> hd t = CHR ''0'' \<and> (t ! 1 = CHR ''x'' \<or> t ! 1 = CHR ''X'') \<and> list_all hex_digit (drop 2 t)))"

definition is_number :: "jsval \<Rightarrow> bool" where
  "is_number v = (case v of JNum n \<Rightarrow> True | JStr s \<Rightarrow> s = [] \<or> numeric_string s | _ \<Rightarrow> False)"

definition numberValidator :: validator where
  "numberValidator = ValidatorObject (\<lambda>vals key. JBool (is_number (vals key)))"

text \<open>
  \<open>validators/association.js\<close>.  The associated objects are seen through their \<open>isValid\<close>:
  \<open>assoc\<close> gives what the property holds (an array of objects, one object, or nothing truthy).
\<close>

datatype association = AssocArray "bool list" | AssocObject bool | AssocNone

definition associationValid :: "association \<Rightarrow> bool" where
  "associationValid a = (case a of AssocArray vs \<Rightarrow> list_all id vs | AssocObject v \<Rightarrow> v | AssocNone \<Rightarrow> True)"

definition associationValidator :: "(props \<Rightarrow> string \<Rightarrow> association) \<Rightarrow> validator" where
  "associationValidator assoc = ValidatorObject (\<lambda>vals key. JBool (associationValid (assoc vals key)))"

section \<open>Validatable objects\<close>

text \<open>
  \<open>validations\<close> in the order \<open>for (key in validations)\<close> visits them; \<open>defined\<close>: the properties
  whose \<open>IsValid\<close> flag exists; \<open>validity\<close>: \<open>_propertyValidity\<close>, by the name of the property;
  \<open>observed\<close>: the properties with the observer \<open>validateProperty\<close>; \<open>suspended\<close>: how often
  \<open>beginPropertyChanges\<close> was called without its end, which holds observers back.
\<close>

record vobj =
  vals :: props
  validations :: "(string \<times> vspec) list"
  defined_flags :: "string list"
  validity :: "string \<rightharpoonup> jsval"
  objectIsValid :: "bool option"
  observed :: "string list"
  suspended :: nat

type_synonym vstep = "vobj \<Rightarrow> vobj \<times> js_error option"

definition andThen :: "vstep \<Rightarrow> vstep \<Rightarrow> vstep" where
  "andThen f g s = (case f s of (s1, None) \<Rightarrow> g s1 | (s1, Some e) \<Rightarrow> (s1, Some e))"

fun steps :: "vstep list \<Rightarrow> vstep" where
  "steps [] s = (s, None)"
| "steps (f # fs) s = andThen f (steps fs) s"

definition pure_step :: "(vobj \<Rightarrow> vobj) \<Rightarrow> vstep" where
  "pure_step f s = (f s, None)"

definition spec_of :: "vobj \<Rightarrow> string \<Rightarrow> vspec" where
  "spec_of s key = (case map_of (validations s) key of Some vs \<Rightarrow> vs
     | None \<Rightarrow> \<lparr>v_validators = [NoValidator], v_coupled = NoCoupled\<rparr>)"

definition verdict :: "vobj \<Rightarrow> string \<Rightarrow> jsval" where
  "verdict s key = run_validators (v_validators (spec_of s key)) (vals s) key"

text \<open>The setter of a flag: setting \<open>undefined\<close> does nothing.\<close>

definition put_flag :: "string \<Rightarrow> jsval \<Rightarrow> vobj \<Rightarrow> vobj" where
  "put_flag key r s = (if r = JUndefined then s else s\<lparr>validity := (validity s)(key \<mapsto> r)\<rparr>)"

definition get_flag :: "vobj \<Rightarrow> string \<Rightarrow> jsval" where
  "get_flag s key = (case validity s key of None \<Rightarrow> JUndefined | Some r \<Rightarrow> r)"

definition define_flag :: "string \<Rightarrow> vobj \<Rightarrow> vobj" where
  "define_flag key s = (if key \<in> set (defined_flags s) then s else s\<lparr>defined_flags := defined_flags s @ [key]\<rparr>)"

text \<open>
  Setting and reading flags that may not exist yet.  \<open>create\<close> is \<open>_createIsValidProperties\<close>,
  which \<open>unknownProperty\<close> and \<open>setUnknownProperty\<close> run for a key that has a validation.  While
  that runs itself, all flags exist and it is not entered again.
\<close>

definition set_flag :: "vstep \<Rightarrow> string \<Rightarrow> jsval \<Rightarrow> vstep" where
  "set_flag create key r s =
     (if key \<in> set (defined_flags s) then (put_flag key r s, None)
      else if map_of (validations s) key \<noteq> None then andThen create (pure_step (put_flag key r)) s
      else (put_flag key r (define_flag key s), None))"

definition ensure_flag :: "vstep \<Rightarrow> string \<Rightarrow> vstep" where
  "ensure_flag create key s =
     (if key \<notin> set (defined_flags s) \<and> map_of (validations s) key \<noteq> None then create s else (s, None))"

text \<open>
  \<open>_checkValidity\<close> without revalidation, its result stored as \<open>isValid\<close>: the flags are read in
  order until one is not \<open>true\<close>.
\<close>

fun check_flags :: "vstep \<Rightarrow> string list \<Rightarrow> vstep" where
  "check_flags create [] s = (s\<lparr>objectIsValid := Some True\<rparr>, None)"
| "check_flags create (key # keys) s =
     andThen (ensure_flag create key) (\<lambda>s1.
       if get_flag s1 key \<noteq> JBool True then (s1\<lparr>objectIsValid := Some False\<rparr>, None)
       else check_flags create keys s1) s"

definition refresh_isValid :: "vstep \<Rightarrow> vstep" where
  "refresh_isValid create s = check_flags create (map fst (validations s)) s"

definition begin_changes :: vstep where
  "begin_changes = pure_step (\<lambda>s. s\<lparr>suspended := Suc (suspended s)\<rparr>)"

definition end_changes :: vstep where
  "end_changes = pure_step (\<lambda>s. s\<lparr>suspended := suspended s - 1\<rparr>)"

definition validate_own :: "vstep \<Rightarrow> string \<Rightarrow> vstep" where
  "validate_own create key s = set_flag create key (verdict s key) s"

text \<open>\<open>validateProperty\<close> with \<open>ignoreCoupledProperties\<close>, then the whole of it.\<close>

definition validate_single :: "vstep \<Rightarrow> string \<Rightarrow> vstep" where
  "validate_single create key =
     steps [begin_changes, validate_own create key, refresh_isValid create, end_changes]"

definition validate_coupled :: "vstep \<Rightarrow> string \<Rightarrow> vstep" where
  "validate_coupled create key s = (case v_coupled (spec_of s key) of
       NoCoupled \<Rightarrow> (s, None)
     | CoupledOther \<Rightarrow> (s, Some (ThrownError ''Hint: coupledProperties must be an array!''))
     | CoupledArray ks \<Rightarrow> steps (map (validate_single create) (filter (\<lambda>k. k \<noteq> key) ks)) s)"

definition validateProperty_with :: "vstep \<Rightarrow> string \<Rightarrow> vstep" where
  "validateProperty_with create key =
     steps [begin_changes, validate_own create key, validate_coupled create key, refresh_isValid create, end_changes]"

definition observe :: "string \<Rightarrow> vstep" where
  "observe key = pure_step (\<lambda>s. if key \<in> set (observed s) then s else s\<lparr>observed := observed s @ [key]\<rparr>)"

definition createIsValidProperties :: vstep where
  "createIsValidProperties s = (let keys = map fst (validations s) in
     steps (map (\<lambda>key. pure_step (define_flag key)) keys
            @ concat (map (\<lambda>key. [observe key, validateProperty_with (\<lambda>s. (s, None)) key]) keys)) s)"

definition validateProperty :: "string \<Rightarrow> vstep" where
  "validateProperty = validateProperty_with createIsValidProperties"

text \<open>Setting a property: the observer runs when the value changes and nothing is held back.\<close>

definition set_property :: "string \<Rightarrow> jsval \<Rightarrow> vstep" where
  "set_property key v s =
     (if vals s key = v then (s, None)
      else (let s1 = s\<lparr>vals := (vals s)(key := v)\<rparr> in
            if key \<in> set (observed s1) \<and> suspended s1 = 0 then validateProperty key s1 else (s1, None)))"

text \<open>Reading \<open>fooIsValid\<close> and \<open>isValid\<close>.\<close>

definition get_valid_flag :: "string \<Rightarrow> vobj \<Rightarrow> jsval \<times> vobj" where
  "get_valid_flag key s = (case ensure_flag createIsValidProperties key s of (s1, _) \<Rightarrow> (get_flag s1 key, s1))"

definition get_isValid :: vstep where
  "get_isValid s = (if objectIsValid s = None then refresh_isValid createIsValidProperties s else (s, None))"

fun invalid_from :: "string list \<Rightarrow> vobj \<Rightarrow> string list \<times> vobj" where
  "invalid_from [] s = ([], s)"
| "invalid_from (key # keys) s = (case get_valid_flag key s of (r, s1) \<Rightarrow>
     (case invalid_from keys s1 of (ks, s2) \<Rightarrow> (if r \<noteq> JBool True then key # ks else ks, s2)))"

definition invalidProperties :: "vobj \<Rightarrow> string list \<times> vobj" where
  "invalidProperties s = invalid_from (map fst (validations s)) s"

text \<open>\<open>_checkValidity(true)\<close>: every property is validated again before its flag is read.\<close>

fun check_revalidating :: "string list \<Rightarrow> vobj \<Rightarrow> vobj \<times> (js_error + bool)" where
  "check_revalidating [] s = (s, Inr True)"
| "check_revalidating (key # keys) s = (case validateProperty key s of
       (s1, Some e) \<Rightarrow> (s1, Inl e)
     | (s1, None) \<Rightarrow> (if get_flag s1 key \<noteq> JBool True then (s1, Inr False) else check_revalidating keys s1))"

text \<open>\<open>setValidationFor\<close> adds a validation or replaces one.\<close>

definition put_spec :: "string \<Rightarrow> vspec \<Rightarrow> (string \<times> vspec) list \<Rightarrow> (string \<times> vspec) list" where
  "put_spec key vs l = (if map_of l key = None then l @ [(key, vs)]
     else map (\<lambda>(k, w). if k = key then (k, vs) else (k, w)) l)"

definition setValidationFor :: "string \<Rightarrow> vspec \<Rightarrow> vstep" where
  "setValidationFor key vs s =
     steps [pure_step (define_flag key), observe key, validateProperty key]
       (s\<lparr>validations := put_spec key vs (validations s)\<rparr>)"

section \<open>Flags follow the values\<close>

definition vkeys :: "vobj \<Rightarrow> string list" where
  "vkeys s = map fst (validations s)"

definition all_valid :: "vobj \<Rightarrow> bool" where
  "all_valid s \<longleftrightarrow> (\<forall>k \<in> set (vkeys s). get_flag s k = JBool True)"

definition coupled_keys :: "vobj \<Rightarrow> string \<Rightarrow> string list" where
  "coupled_keys s k = (case v_coupled (spec_of s k) of CoupledArray ks \<Rightarrow> ks | _ \<Rightarrow> [])"

text \<open>
  Reasonable validations: no verdict is \<open>undefined\<close>, coupled properties are given as an array
  and are validated themselves.
\<close>

definition specs_ok :: "vobj \<Rightarrow> bool" where
  "specs_ok s \<longleftrightarrow> (\<forall>k \<in> set (vkeys s).
      v_coupled (spec_of s k) \<noteq> CoupledOther \<and> set (coupled_keys s k) \<subseteq> set (vkeys s)
      \<and> (\<forall>f. run_validators (v_validators (spec_of s k)) f k \<noteq> JUndefined))"

text \<open>A verdict depends only on its own property and on those it is coupled to.\<close>

definition coupling_covers :: "vobj \<Rightarrow> bool" where
  "coupling_covers s \<longleftrightarrow> (\<forall>k \<in> set (vkeys s). \<forall>d f v. k \<noteq> d \<longrightarrow>
      \<not> (d \<in> set (vkeys s) \<and> k \<in> set (coupled_keys s d)) \<longrightarrow>
      run_validators (v_validators (spec_of s k)) (f(d := v)) k = run_validators (v_validators (spec_of s k)) f k)"

text \<open>What stays the same while flags are recomputed.\<close>

definition same_setup :: "vobj \<Rightarrow> vobj \<Rightarrow> bool" where
  "same_setup s t \<longleftrightarrow> vals t = vals s \<and> validations t = validations s \<and> suspended t = suspended s
     \<and> set (defined_flags s) \<subseteq> set (defined_flags t) \<and> set (observed s) \<subseteq> set (observed t)
     \<and> set (observed t) \<subseteq> set (observed s) \<union> set (vkeys s)"

definition flags_exist :: "vobj \<Rightarrow> bool" where
  "flags_exist s \<longleftrightarrow> set (vkeys s) \<subseteq> set (defined_flags s)"

lemma same_setup_refl [simp]: "same_setup s s"
  by (simp add: same_setup_def)

lemma same_setup_trans: "same_setup s t \<Longrightarrow> same_setup t u \<Longrightarrow> same_setup s u"
  by (auto simp: same_setup_def vkeys_def)

lemma same_setup_simps:
  assumes "same_setup s t"
  shows "vkeys t = vkeys s" "spec_of t = spec_of s" "verdict t = verdict s" "coupled_keys t = coupled_keys s"
    "specs_ok t = specs_ok s" "flags_exist s \<Longrightarrow> flags_exist t"
proof -
  have v: "vkeys t = vkeys s" "spec_of t = spec_of s"
    using assms by (auto simp: same_setup_def vkeys_def spec_of_def fun_eq_iff)
  then show "vkeys t = vkeys s" "spec_of t = spec_of s" by simp_all
  show "verdict t = verdict s" using v assms by (intro ext) (simp add: verdict_def same_setup_def)
  show c: "coupled_keys t = coupled_keys s" using v by (simp add: coupled_keys_def fun_eq_iff)
  show "specs_ok t = specs_ok s" using v c by (simp add: specs_ok_def)
  show "flags_exist s \<Longrightarrow> flags_exist t" using v assms by (auto simp: flags_exist_def same_setup_def)
qed

lemma check_flags_existing:
  assumes "flags_exist s" and "set keys \<subseteq> set (vkeys s)"
  shows "check_flags create keys s = (s\<lparr>objectIsValid := Some (\<forall>k \<in> set keys. get_flag s k = JBool True)\<rparr>, None)"
  using assms by (induction keys) (auto simp: andThen_def ensure_flag_def flags_exist_def)

lemma refresh_existing:
  "flags_exist s \<Longrightarrow> refresh_isValid create s = (s\<lparr>objectIsValid := Some (all_valid s)\<rparr>, None)"
  by (simp add: refresh_isValid_def check_flags_existing vkeys_def all_valid_def)

text \<open>Validating one property when all flags exist.\<close>

lemma validate_single_existing:
  assumes "flags_exist s" and "k \<in> set (vkeys s)" and "verdict s k \<noteq> JUndefined"
  shows "\<exists>t. validate_single create k s = (t, None) \<and> same_setup s t
     \<and> validity t = (validity s)(k \<mapsto> verdict s k) \<and> objectIsValid t = Some (all_valid t)"
proof -
  let ?s1 = "s\<lparr>suspended := Suc (suspended s)\<rparr>"
  let ?s2 = "?s1\<lparr>validity := (validity s)(k \<mapsto> verdict s k)\<rparr>"
  have v: "verdict ?s1 k = verdict s k" by (simp add: verdict_def spec_of_def)
  have "k \<in> set (defined_flags s)" using assms(1,2) by (auto simp: flags_exist_def)
  then have own: "validate_own create k ?s1 = (?s2, None)"
    using v assms(3) by (simp add: validate_own_def set_flag_def put_flag_def)
  have "flags_exist ?s2" using assms(1) by (simp add: flags_exist_def vkeys_def)
  then have "validate_single create k s
      = (?s2\<lparr>objectIsValid := Some (all_valid ?s2), suspended := suspended s\<rparr>, None)"
    using own by (simp add: validate_single_def andThen_def begin_changes_def end_changes_def pure_step_def refresh_existing)
  moreover have "all_valid (?s2\<lparr>objectIsValid := Some (all_valid ?s2), suspended := suspended s\<rparr>) = all_valid ?s2"
    by (simp add: all_valid_def vkeys_def get_flag_def)
  ultimately show ?thesis by (simp add: same_setup_def)
qed

lemma validate_singles_existing:
  assumes "flags_exist s" and "set ks \<subseteq> set (vkeys s)" and "\<forall>k \<in> set ks. verdict s k \<noteq> JUndefined"
  shows "\<exists>t. steps (map (validate_single create) ks) s = (t, None) \<and> same_setup s t
     \<and> validity t = (\<lambda>k. if k \<in> set ks then Some (verdict s k) else validity s k)"
  using assms
proof (induction ks arbitrary: s)
  case Nil
  then show ?case by simp
next
  case (Cons k ks)
  obtain s1 where s1: "validate_single create k s = (s1, None)" "same_setup s s1"
      "validity s1 = (validity s)(k \<mapsto> verdict s k)"
    using validate_single_existing [of s k create] Cons.prems by auto
  note ss = same_setup_simps [OF s1(2)]
  obtain t where t: "steps (map (validate_single create) ks) s1 = (t, None)" "same_setup s1 t"
      "validity t = (\<lambda>j. if j \<in> set ks then Some (verdict s1 j) else validity s1 j)"
    using Cons.IH [of s1] Cons.prems ss by auto
  have "validity t = (\<lambda>j. if j \<in> set (k # ks) then Some (verdict s j) else validity s j)"
    using t(3) s1(3) ss(3) by (auto simp: fun_eq_iff)
  then show ?case using s1(1) t(1) same_setup_trans [OF s1(2) t(2)] by (simp add: andThen_def)
qed

lemma validateProperty_existing:
  assumes "flags_exist s" and "specs_ok s" and "k \<in> set (vkeys s)"
  shows "\<exists>t. validateProperty_with create k s = (t, None) \<and> same_setup s t
     \<and> validity t = (\<lambda>j. if j = k \<or> j \<in> set (coupled_keys s k) then Some (verdict s j) else validity s j)
     \<and> objectIsValid t = Some (all_valid t)"
proof -
  let ?s1 = "s\<lparr>suspended := Suc (suspended s)\<rparr>"
  let ?s2 = "?s1\<lparr>validity := (validity s)(k \<mapsto> verdict s k)\<rparr>"
  let ?ks = "filter (\<lambda>j. j \<noteq> k) (coupled_keys s k)"
  have vd: "verdict s j \<noteq> JUndefined" if "j \<in> set (vkeys s)" for j
    using assms(2) that by (auto simp: specs_ok_def verdict_def)
  have eq: "verdict ?s1 = verdict s" "verdict ?s2 = verdict s" "vkeys ?s2 = vkeys s" "spec_of ?s2 = spec_of s"
    by (simp_all add: verdict_def spec_of_def vkeys_def fun_eq_iff)
  have "k \<in> set (defined_flags s)" using assms(1,3) by (auto simp: flags_exist_def)
  then have own: "validate_own create k ?s1 = (?s2, None)"
    using eq(1) vd [OF assms(3)] by (simp add: validate_own_def set_flag_def put_flag_def)
  have fe: "flags_exist ?s2" using assms(1) by (simp add: flags_exist_def vkeys_def)
  have sub: "set ?ks \<subseteq> set (vkeys ?s2)" using assms(2,3) eq(3) by (auto simp: specs_ok_def)
  have vs: "\<forall>j \<in> set ?ks. verdict ?s2 j \<noteq> JUndefined" unfolding eq(2) using sub eq(3) vd by auto
  obtain t where t: "steps (map (validate_single create) ?ks) ?s2 = (t, None)" "same_setup ?s2 t"
      "validity t = (\<lambda>j. if j \<in> set ?ks then Some (verdict s j) else validity ?s2 j)"
    using validate_singles_existing [OF fe sub vs, of create] unfolding eq(2) by blast
  have coup: "validate_coupled create k ?s2 = (t, None)"
    using t(1) assms(2,3) eq(4)
    by (auto simp: validate_coupled_def coupled_keys_def specs_ok_def split: coupled.splits)
  let ?t = "t\<lparr>objectIsValid := Some (all_valid t), suspended := suspended s\<rparr>"
  have "validateProperty_with create k s = (?t, None)"
    using own coup t(2) same_setup_simps(6) [OF t(2) fe]
    by (simp add: validateProperty_with_def andThen_def begin_changes_def end_changes_def pure_step_def
        refresh_existing same_setup_def)
  moreover have "all_valid ?t = all_valid t" by (simp add: all_valid_def vkeys_def get_flag_def)
  moreover have "validity t = (\<lambda>j. if j = k \<or> j \<in> set (coupled_keys s k) then Some (verdict s j) else validity s j)"
    using t(3) by (auto simp: fun_eq_iff)
  ultimately show ?thesis using t(2) eq(3) by (simp add: same_setup_def)
qed

text \<open>
  An object whose flags are in use: they exist and are observed, each is the verdict on the
  current values, and \<open>isValid\<close> sums them up.
\<close>

definition ready :: "vobj \<Rightarrow> bool" where
  "ready s \<longleftrightarrow> flags_exist s \<and> set (observed s) = set (vkeys s) \<and> suspended s = 0
     \<and> (\<forall>k \<in> set (vkeys s). get_flag s k = verdict s k) \<and> objectIsValid s = Some (all_valid s)"

lemma define_all:
  "\<exists>t. steps (map (\<lambda>k. pure_step (define_flag k)) ks) s = (t, None) \<and> same_setup s t
     \<and> set ks \<subseteq> set (defined_flags t) \<and> validity t = validity s"
proof (induction ks arbitrary: s)
  case Nil
  then show ?case by simp
next
  case (Cons k ks)
  have d: "same_setup s (define_flag k s)" "k \<in> set (defined_flags (define_flag k s))"
      "validity (define_flag k s) = validity s"
    by (auto simp: define_flag_def same_setup_def)
  obtain t where t: "steps (map (\<lambda>k. pure_step (define_flag k)) ks) (define_flag k s) = (t, None)"
      "same_setup (define_flag k s) t" "set ks \<subseteq> set (defined_flags t)" "validity t = validity (define_flag k s)"
    using Cons.IH [of "define_flag k s"] by blast
  have "k \<in> set (defined_flags t)" using t(2) d(2) by (auto simp: same_setup_def)
  then show ?case
    using t d(3) same_setup_trans [OF d(1) t(2)] pure_step_def [of "define_flag k" s] by (simp add: andThen_def)
qed

lemma steps_append: "steps (fs @ gs) s = andThen (steps fs) (steps gs) s"
  by (induction fs arbitrary: s) (auto simp: andThen_def split: prod.splits option.splits)

lemma observe_validate_all:
  assumes "flags_exist s" and "specs_ok s" and "set ks \<subseteq> set (vkeys s)"
    and "\<forall>k \<in> set done. get_flag s k = verdict s k"
  shows "\<exists>t. steps (concat (map (\<lambda>k. [observe k, validateProperty_with create k]) ks)) s = (t, None)
     \<and> same_setup s t \<and> set ks \<subseteq> set (observed t)
     \<and> (\<forall>k \<in> set done \<union> set ks. get_flag t k = verdict s k)
     \<and> (ks \<noteq> [] \<longrightarrow> objectIsValid t = Some (all_valid t))"
  using assms
proof (induction ks arbitrary: s "done")
  case Nil
  then show ?case by simp
next
  case (Cons k ks)
  obtain s1 where s1: "observe k s = (s1, None)" "same_setup s s1" "k \<in> set (observed s1)" "validity s1 = validity s"
    using Cons.prems(3) by (cases "k \<in> set (observed s)") (auto simp: observe_def pure_step_def same_setup_def)
  note ss1 = same_setup_simps [OF s1(2)]
  obtain s2 where s2: "validateProperty_with create k s1 = (s2, None)" "same_setup s1 s2"
      "validity s2 = (\<lambda>j. if j = k \<or> j \<in> set (coupled_keys s1 k) then Some (verdict s1 j) else validity s1 j)"
      "objectIsValid s2 = Some (all_valid s2)"
    using validateProperty_existing [of s1 k create] Cons.prems ss1 by auto
  note ss2 = same_setup_simps [OF s2(2)]
  have f2: "\<forall>j \<in> set (k # done). get_flag s2 j = verdict s2 j"
    using s2(3) s1(4) ss1(3) ss2(3) Cons.prems(4) by (auto simp: get_flag_def)
  obtain t where t: "steps (concat (map (\<lambda>k. [observe k, validateProperty_with create k]) ks)) s2 = (t, None)"
      "same_setup s2 t" "set ks \<subseteq> set (observed t)" "\<forall>j \<in> set (k # done) \<union> set ks. get_flag t j = verdict s2 j"
      "ks \<noteq> [] \<longrightarrow> objectIsValid t = Some (all_valid t)"
    using Cons.IH [of s2 "k # done"] Cons.prems ss1 ss2 f2 by auto
  have "objectIsValid t = Some (all_valid t)" using t(1,5) s2(4) by (cases "ks = []") auto
  moreover have "k \<in> set (observed t)" using s1(3) s2(2) t(2) by (auto simp: same_setup_def)
  moreover have "steps (concat (map (\<lambda>k. [observe k, validateProperty_with create k]) (k # ks))) s = (t, None)"
    using s1(1) s2(1) t(1) by (simp add: andThen_def)
  moreover have "same_setup s t" using same_setup_trans s1(2) s2(2) t(2) by blast
  ultimately show ?case using t(3,4) ss1(3) ss2(3) by auto
qed

lemma create_ready:
  assumes "specs_ok s" and "suspended s = 0" and "validations s \<noteq> []" and "set (observed s) \<subseteq> set (vkeys s)"
  shows "\<exists>t. createIsValidProperties s = (t, None) \<and> same_setup s t \<and> ready t"
proof -
  obtain s1 where s1: "steps (map (\<lambda>k. pure_step (define_flag k)) (vkeys s)) s = (s1, None)" "same_setup s s1"
      "set (vkeys s) \<subseteq> set (defined_flags s1)" using define_all by blast
  note ss = same_setup_simps [OF s1(2)]
  have fe: "flags_exist s1" using s1(3) ss(1) by (simp add: flags_exist_def)
  have sk: "specs_ok s1" "set (vkeys s) \<subseteq> set (vkeys s1)" using ss assms(1) by simp_all
  obtain t where t: "steps (concat (map (\<lambda>k. [observe k, validateProperty_with (\<lambda>s. (s, None)) k]) (vkeys s))) s1 = (t, None)"
      "same_setup s1 t" "set (vkeys s) \<subseteq> set (observed t)" "\<forall>k \<in> set (vkeys s). get_flag t k = verdict s1 k"
      "objectIsValid t = Some (all_valid t)"
    using observe_validate_all [OF fe sk, of "[]" "\<lambda>s. (s, None)"] assms(3) by (auto simp: vkeys_def)
  note st = same_setup_simps [OF t(2)]
  have "createIsValidProperties s = (t, None)"
    using s1(1) t(1) by (simp add: createIsValidProperties_def steps_append andThen_def Let_def vkeys_def)
  moreover have "ready t"
    using t st ss fe assms(2,4) s1(2) by (auto simp: ready_def same_setup_def)
  ultimately show ?thesis using same_setup_trans [OF s1(2) t(2)] by blast
qed

definition fresh :: "vobj \<Rightarrow> bool" where
  "fresh s \<longleftrightarrow> defined_flags s = [] \<and> observed s = [] \<and> suspended s = 0 \<and> objectIsValid s = None"

lemma first_demand:
  assumes "fresh s" and "specs_ok s"
  shows "\<exists>t. get_isValid s = (t, None) \<and> same_setup s t \<and> ready t"
proof (cases "validations s")
  case Nil
  then show ?thesis
    using assms(1)
    by (simp add: get_isValid_def fresh_def refresh_isValid_def same_setup_def ready_def flags_exist_def vkeys_def all_valid_def)
next
  case (Cons kv rest)
  obtain t where t: "createIsValidProperties s = (t, None)" "same_setup s t" "ready t"
    using create_ready [OF assms(2)] assms(1) Cons by (auto simp: fresh_def)
  have ks: "map fst (validations s) = vkeys t" using same_setup_simps(1) [OF t(2)] by (simp add: vkeys_def)
  have fe: "flags_exist t" using t(3) by (simp add: ready_def)
  have "refresh_isValid createIsValidProperties s = check_flags createIsValidProperties (vkeys t) t"
    using Cons assms(1) t(1) ks fe
    by (cases kv; cases "vkeys t") (auto simp: refresh_isValid_def andThen_def ensure_flag_def fresh_def flags_exist_def)
  also have "\<dots> = (t\<lparr>objectIsValid := Some (all_valid t)\<rparr>, None)"
    using check_flags_existing [OF fe] by (simp add: all_valid_def)
  also have "t\<lparr>objectIsValid := Some (all_valid t)\<rparr> = t" using t(3) by (simp add: ready_def)
  finally show ?thesis using t assms(1) by (simp add: get_isValid_def fresh_def)
qed

lemma set_property_ready:
  assumes "ready s" and "specs_ok s" and "coupling_covers s"
  shows "\<exists>t. set_property d v s = (t, None) \<and> ready t \<and> vals t = (vals s)(d := v)
     \<and> validations t = validations s"
proof (cases "vals s d = v")
  case True
  then show ?thesis using assms(1) by (auto simp: set_property_def)
next
  case False
  let ?s1 = "s\<lparr>vals := (vals s)(d := v)\<rparr>"
  have eq: "vkeys ?s1 = vkeys s" "spec_of ?s1 = spec_of s" "coupled_keys ?s1 = coupled_keys s"
    by (simp_all add: vkeys_def spec_of_def coupled_keys_def fun_eq_iff)
  have old: "get_flag ?s1 k = verdict ?s1 k"
    if "k \<in> set (vkeys s)" "k \<noteq> d" "\<not> (d \<in> set (vkeys s) \<and> k \<in> set (coupled_keys s d))" for k
  proof -
    have "verdict ?s1 k = verdict s k"
      using assms(3) that eq(2) by (simp add: coupling_covers_def verdict_def)
    moreover have "get_flag ?s1 k = get_flag s k" by (simp add: get_flag_def)
    ultimately show ?thesis using assms(1) that(1) by (simp add: ready_def)
  qed
  have fe: "flags_exist ?s1" "specs_ok ?s1"
    using assms(1,2) eq by (simp_all add: ready_def flags_exist_def specs_ok_def)
  show ?thesis
  proof (cases "d \<in> set (vkeys s)")
    case True
    then have obs: "d \<in> set (observed s)" "suspended s = 0" using assms(1) by (auto simp: ready_def)
    obtain t where t: "validateProperty d ?s1 = (t, None)" "same_setup ?s1 t"
        "validity t = (\<lambda>j. if j = d \<or> j \<in> set (coupled_keys ?s1 d) then Some (verdict ?s1 j) else validity ?s1 j)"
        "objectIsValid t = Some (all_valid t)"
      using validateProperty_existing [OF fe, of d createIsValidProperties] True eq(1) by (auto simp: validateProperty_def)
    note st = same_setup_simps [OF t(2)]
    have "get_flag t k = verdict t k" if "k \<in> set (vkeys s)" for k
      using t(3) st(3) old [OF that] eq(3) True by (auto simp: get_flag_def)
    then have "ready t"
      using t(2,4) st(1,6) fe(1) eq(1) assms(1) by (auto simp: ready_def same_setup_def)
    then show ?thesis
      using t(1,2) obs False by (auto simp: set_property_def same_setup_def)
  next
    case False
    then have no: "d \<notin> set (observed s)" using assms(1) by (simp add: ready_def)
    have "objectIsValid ?s1 = Some (all_valid ?s1)"
      using assms(1) by (simp add: ready_def all_valid_def get_flag_def vkeys_def)
    moreover have "\<forall>k \<in> set (vkeys s). get_flag ?s1 k = verdict ?s1 k" using old False by metis
    ultimately have "ready ?s1" using assms(1) fe(1) eq(1) by (simp add: ready_def)
    then show ?thesis using no \<open>vals s d \<noteq> v\<close> by (simp add: set_property_def)
  qed
qed

fun set_all :: "(string \<times> jsval) list \<Rightarrow> vstep" where
  "set_all [] s = (s, None)"
| "set_all ((k, v) # kvs) s = andThen (set_property k v) (set_all kvs) s"

lemma set_all_ready:
  assumes "ready s" and "specs_ok s" and "coupling_covers s"
  shows "\<exists>t. set_all kvs s = (t, None) \<and> ready t \<and> vals t = fold (\<lambda>(k, v) f. f(k := v)) kvs (vals s)
     \<and> validations t = validations s"
  using assms
proof (induction kvs arbitrary: s)
  case Nil
  then show ?case by simp
next
  case (Cons kv kvs)
  obtain k v where kv: "kv = (k, v)" by (cases kv)
  obtain s1 where s1: "set_property k v s = (s1, None)" "ready s1" "vals s1 = (vals s)(k := v)" "validations s1 = validations s"
    using set_property_ready [OF Cons.prems] by blast
  have e: "vkeys s1 = vkeys s" "spec_of s1 = spec_of s" "coupled_keys s1 = coupled_keys s"
    using s1(4) by (simp_all add: vkeys_def spec_of_def coupled_keys_def fun_eq_iff)
  have "specs_ok s1" "coupling_covers s1" using Cons.prems(2,3) e by (simp_all add: specs_ok_def coupling_covers_def)
  then show ?case using Cons.IH [OF s1(2)] s1 kv by (auto simp: andThen_def)
qed


definition account :: vobj where
  "account = \<lparr>vals = (\<lambda>_. JStr []),
     validations = [(''password'', \<lparr>v_validators = [notBlankValidator], v_coupled = CoupledArray [''repeat'']\<rparr>),
       (''repeat'', \<lparr>v_validators = [ValidatorFunction (\<lambda>f v. JBool (v = f ''password''))], v_coupled = NoCoupled\<rparr>)],
     defined_flags = [], validity = Map.empty, objectIsValid = None, observed = [], suspended = 0\<rparr>"

lemma account_ok: "fresh account" "specs_ok account" "coupling_covers account"
  by (auto simp: fresh_def specs_ok_def coupling_covers_def account_def vkeys_def spec_of_def coupled_keys_def
      notBlankValidator_def validate_with_def Let_def)


text \<open>
  A mistake in \<open>coupledProperties\<close> switches validation off.  When they are not an array,
  \<open>validateProperty\<close> throws between \<open>beginPropertyChanges\<close> and \<open>endPropertyChanges\<close>; observers
  are then held back for good, and no later change of a property updates any flag.
\<close>

theorem bad_coupling_stops_validation:
  assumes "fresh s" and "validations s = (k, spec) # rest" and "v_coupled spec = CoupledOther"
  shows "\<exists>t. get_isValid s = (t, Some (ThrownError ''Hint: coupledProperties must be an array!''))
     \<and> suspended t = 1 \<and> set_property k2 w t = (t\<lparr>vals := (vals t)(k2 := w)\<rparr>, None)"
proof -
  obtain s1 where s1: "steps (map (\<lambda>k. pure_step (define_flag k)) (vkeys s)) s = (s1, None)" "same_setup s s1"
      "set (vkeys s) \<subseteq> set (defined_flags s1)" using define_all by blast
  obtain s2 where s2: "observe k s1 = (s2, None)" "validations s2 = validations s" "suspended s2 = 0"
      "k \<in> set (defined_flags s2)"
    using s1(2,3) assms(1,2)
    by (cases "k \<in> set (observed s1)") (auto simp: observe_def pure_step_def same_setup_def fresh_def vkeys_def)
  let ?s3 = "s2\<lparr>suspended := 1\<rparr>"
  let ?t = "put_flag k (verdict ?s3 k) ?s3"
  let ?e = "Some (ThrownError ''Hint: coupledProperties must be an array!'')"
  have "spec_of ?t k = spec" using s2(2) assms(2) by (simp add: put_flag_def spec_of_def)
  then have vp: "validateProperty_with (\<lambda>s. (s, None)) k s2 = (?t, ?e)"
    using s2(3,4) assms(3)
    by (simp add: validateProperty_with_def andThen_def begin_changes_def pure_step_def
        validate_own_def set_flag_def validate_coupled_def)
  have "createIsValidProperties s = (?t, ?e)"
    using s1(1) s2(1) vp assms(2)
    by (simp add: createIsValidProperties_def steps_append andThen_def Let_def vkeys_def)
  then have "get_isValid s = (?t, ?e)"
    using assms(1,2) by (simp add: get_isValid_def fresh_def refresh_isValid_def andThen_def ensure_flag_def)
  moreover have "suspended ?t = 1" by (simp add: put_flag_def)
  ultimately show ?thesis by (auto simp: set_property_def)
qed

definition uncoupled_account :: vobj where
  "uncoupled_account = account\<lparr>validations :=
     [(''a'', \<lparr>v_validators = [notBlankValidator], v_coupled = CoupledOther\<rparr>)]\<rparr>"

theorem bad_coupling_stops_validation_witness:
  "\<exists>t. get_isValid uncoupled_account = (t, Some (ThrownError ''Hint: coupledProperties must be an array!''))
     \<and> suspended t = 1 \<and> set_property ''a'' (JNum 1) t = (t\<lparr>vals := (vals t)(''a'' := JNum 1)\<rparr>, None)"
  by (rule bad_coupling_stops_validation [where rest = "[]"])
    ((simp_all add: uncoupled_account_def account_def fresh_def)+)

section \<open>The number validator\<close>

lemma decimal_starts: "takeWhile is_digit (decimal n) = decimal n" "dropWhile is_digit (decimal n) = []"
  using decimal_digits [of n] by (auto simp: list_all_iff takeWhile_eq_all_conv dropWhile_eq_Nil_conv)

lemma digit_not_blank: "is_digit c \<Longrightarrow> \<not> blank_char c"
  by (auto simp: is_digit_def blank_char_def)

lemma strip_id: "s \<noteq> [] \<Longrightarrow> \<not> blank_char (hd s) \<Longrightarrow> \<not> blank_char (last s) \<Longrightarrow> strip s = s"
  using dropWhile_eq_self_iff [of blank_char s] dropWhile_eq_self_iff [of blank_char "rev s"]
  by (simp add: strip_def hd_rev)

text \<open>
  The number validator accepts what the program itself prints: the decimal text of a
  natural number, with or without a minus sign.
\<close>

theorem number_validator_accepts_decimals:
  "is_number (JStr (decimal n)) \<and> is_number (JStr (CHR ''-'' # decimal n))"
proof -
  have d: "is_digit (hd (decimal n))" "is_digit (last (decimal n))"
    using decimal_digits [of n] by (simp_all add: list_all_iff)
  have sign: "strip_sign (decimal n) = decimal n"
    using d(1) by (cases "decimal n") (auto simp: is_digit_def)
  have lit: "decimal_literal (decimal n)"
    by (simp add: decimal_literal_def decimal_starts)
  have "strip (decimal n) = decimal n" "strip (CHR ''-'' # decimal n) = CHR ''-'' # decimal n"
    using d digit_not_blank by (simp_all add: strip_id blank_char_def)
  then have "numeric_string (decimal n)" "numeric_string (CHR ''-'' # decimal n)"
    using lit sign by (simp_all add: numeric_string_def)
  then show ?thesis by (simp add: is_number_def)
qed

end
