(* ===== verification/Drag_Helper.thy ===== *)
theory Drag_Helper
  imports Flame_Prelude "HOL-Library.Multiset"
begin

text \<open>
  \<open>views/list_view_drag_helper.js\<close>: reordering a list or a tree by dragging.  Paths name an item
  of the tree, a position letter says where to insert relative to it, \<open>_moveItem\<close> moves the
  dragged item, and \<open>_resolveNewPath\<close> finds the place from the position of the dragged clone.
\<close>

section \<open>Item views\<close>

text \<open>
  An item view: its content item, whether it has children and is expanded, and its
  \<open>childListView\<close> (\<open>None\<close> when no nested list is rendered).  A list view is the list of its
  item views; the content array and the child views of a list are changed in step, so one list
  stands for both.
\<close>

datatype 'a item_node = Item (nitem: 'a) (hasChildren: bool) (isExpanded: bool) (childList: "'a item_node list option")

fun items :: "'a item_node list \<Rightarrow> 'a list" where
  "items [] = []"
| "items (Item x h e None # vs) = x # items vs"
| "items (Item x h e (Some l) # vs) = x # items l @ items vs"

section \<open>Paths\<close>

datatype position = Before | After | Inside

record path =
  p_array :: "nat list"
  p_position :: position

text \<open>\<open>getView\<close>: \<open>undefined\<close> for the empty path, an exception when a list on the way is missing.\<close>

fun getView :: "'a item_node list \<Rightarrow> nat list \<Rightarrow> 'a item_node option result" where
  "getView l [] = Inr None"
| "getView l [i] = Inr (objectAt l i)"
| "getView l (i # j # ks) = (case objectAt l i of
       None \<Rightarrow> Inl TypeError
     | Some v \<Rightarrow> (case childList v of None \<Rightarrow> Inl TypeError | Some l' \<Rightarrow> getView l' (j # ks)))"

definition viewAt :: "'a item_node list \<Rightarrow> nat list \<Rightarrow> 'a item_node result" where
  "viewAt tree p = rbind (getView tree p) (\<lambda>v. case v of None \<Rightarrow> Inl TypeError | Some v \<Rightarrow> Inr v)"

definition getNestedListView :: "'a item_node list \<Rightarrow> nat list \<Rightarrow> 'a item_node list option result" where
  "getNestedListView tree p = rbind (viewAt tree p) (\<lambda>v. Inr (childList v))"

definition path_up :: "path \<Rightarrow> path" where
  "path_up p = \<lparr>p_array = butlast (p_array p), p_position = After\<rparr>"

definition path_down :: "'a item_node list \<Rightarrow> path \<Rightarrow> path result" where
  "path_down tree p = rbind (getNestedListView tree (p_array p)) (\<lambda>nested. case nested of
       None \<Rightarrow> Inl TypeError
     | Some l \<Rightarrow> Inr (if 0 < length l then \<lparr>p_array = p_array p @ [length l - 1], p_position = After\<rparr>
                     else \<lparr>p_array = p_array p, p_position = Inside\<rparr>))"

definition path_equals :: "nat list \<Rightarrow> path \<Rightarrow> bool" where
  "path_equals a p \<longleftrightarrow> a = p_array p"

text \<open>
  \<open>_resolvePath\<close> climbs from a view to the root, collecting the content indexes: the path of the
  view that shows the given item.
\<close>

fun path_from :: "nat \<Rightarrow> 'a item_node list \<Rightarrow> 'a \<Rightarrow> nat list option" where
  "path_from n [] x = None"
| "path_from n (Item y h e None # vs) x = (if y = x then Some [n] else path_from (Suc n) vs x)"
| "path_from n (Item y h e (Some l) # vs) x = (if y = x then Some [n]
     else (case path_from 0 l x of Some p \<Rightarrow> Some (n # p) | None \<Rightarrow> path_from (Suc n) vs x))"

definition resolvePath :: "'a item_node list \<Rightarrow> 'a \<Rightarrow> nat list result" where
  "resolvePath tree x = (case path_from 0 tree x of None \<Rightarrow> Inl TypeError | Some p \<Rightarrow> Inr p)"

section \<open>Moving an item\<close>

text \<open>
  \<open>removeObject\<close> on the list that holds the item, and \<open>insertAt\<close> at the content index of the
  target (before), after it, or at the front of its nested list.
\<close>

fun remove_item :: "'a \<Rightarrow> 'a item_node list \<Rightarrow> 'a item_node list" where
  "remove_item x [] = []"
| "remove_item x (Item y h e None # vs) =
     (if y = x then remove_item x vs else Item y h e None # remove_item x vs)"
| "remove_item x (Item y h e (Some l) # vs) =
     (if y = x then remove_item x vs else Item y h e (Some (remove_item x l)) # remove_item x vs)"

fun insert_rel :: "position \<Rightarrow> 'a \<Rightarrow> 'a item_node \<Rightarrow> 'a item_node list \<Rightarrow> 'a item_node list" where
  "insert_rel pos t v [] = []"
| "insert_rel pos t v (Item y h e None # vs) =
     (if y = t then (case pos of Before \<Rightarrow> v # Item y h e None # vs | After \<Rightarrow> Item y h e None # v # vs
                     | Inside \<Rightarrow> Item y h e None # vs)
      else Item y h e None # insert_rel pos t v vs)"
| "insert_rel pos t v (Item y h e (Some l) # vs) =
     (if y = t then (case pos of Before \<Rightarrow> v # Item y h e (Some l) # vs | After \<Rightarrow> Item y h e (Some l) # v # vs
                     | Inside \<Rightarrow> Item y h e (Some (v # l)) # vs)
      else Item y h e (Some (insert_rel pos t v l)) # insert_rel pos t v vs)"

definition moveItem :: "'a item_node list \<Rightarrow> nat list \<Rightarrow> path \<Rightarrow> 'a item_node list result" where
  "moveItem tree sourcePath targetPath =
     rbind (viewAt tree sourcePath) (\<lambda>view.
     rbind (viewAt tree (p_array targetPath)) (\<lambda>targetView.
     if p_position targetPath = Inside \<and> childList targetView = None then Inl TypeError
     else Inr (insert_rel (p_position targetPath) (nitem targetView) view (remove_item (nitem view) tree))))"

section \<open>Finding the new place\<close>

text \<open>
  \<open>_pathInvalid\<close>: \<open>valid\<close> is \<open>isValidDrop\<close> of the list view, which asks the reorder delegate
  about the dragged item, the new parent (\<open>None\<close> for \<open>null\<close>) and the drop target.
\<close>

type_synonym 'a valid_drop = "'a \<Rightarrow> 'a option \<Rightarrow> 'a \<Rightarrow> bool"

definition pathInvalid :: "'a valid_drop \<Rightarrow> 'a item_node list \<Rightarrow> 'a \<Rightarrow> path \<Rightarrow> bool result" where
  "pathInvalid valid tree dragged p = rbind (viewAt tree (p_array p)) (\<lambda>target.
     if p_position p = Inside then Inr (\<not> valid dragged (Some (nitem target)) (nitem target))
     else rbind (getView tree (p_array (path_up p))) (\<lambda>parent.
          Inr (\<not> valid dragged (map_option nitem parent) (nitem target))))"

text \<open>The list that holds the view of a path, and the sibling before it.\<close>

definition siblings :: "'a item_node list \<Rightarrow> nat list \<Rightarrow> 'a item_node list result" where
  "siblings tree a = (if length a \<le> 1 then Inr tree
     else rbind (getNestedListView tree (butlast a)) (\<lambda>l. case l of None \<Rightarrow> Inl TypeError | Some l \<Rightarrow> Inr l))"

definition getPrecedingView :: "'a item_node list \<Rightarrow> nat list \<Rightarrow> nat list option" where
  "getPrecedingView tree a = (if a \<noteq> [] \<and> 0 < last a then Some (butlast a @ [last a - 1]) else None)"

definition xStep :: int where "xStep = 10"

text \<open>
  The two loops of \<open>_resolveNewLevel\<close>.  The first moves up a level per step.  In it \<open>targetView\<close>
  is the view of the path.
\<close>

function level_up ::
  "'a valid_drop \<Rightarrow> 'a item_node list \<Rightarrow> 'a \<Rightarrow> nat list \<Rightarrow> int \<Rightarrow> path \<Rightarrow> (int \<times> path) result" where
  "level_up valid tree dragged itemPath xDiff p =
     rbind (pathInvalid valid tree dragged p) (\<lambda>invalid.
     rbind (siblings tree (p_array p)) (\<lambda>sibs.
     if (xDiff < - xStep \<or> invalid) \<and> (p_position p = After \<or> path_equals itemPath p)
        \<and> 1 < length (p_array p) \<and> Suc (last (p_array p)) = length sibs
     then level_up valid tree dragged itemPath (xDiff + xStep) (path_up p)
     else Inr (xDiff, p)))"
  by pat_completeness auto
termination
  by (relation "measure (\<lambda>(valid, tree, dragged, itemPath, xDiff, p). length (p_array p))")
    (auto simp: path_up_def)

declare level_up.simps [simp del]

text \<open>
  The second moves the item into the expanded item before the target, as its last child.  Each
  step goes a level deeper into the tree; \<open>fuel\<close> bounds the steps, and one unit per level of the
  tree is enough (shown below).
\<close>

definition can_enter :: "'a valid_drop \<Rightarrow> 'a item_node list \<Rightarrow> 'a \<Rightarrow> nat list \<Rightarrow> path option result" where
  "can_enter valid tree dragged a = (case getPrecedingView tree a of
       None \<Rightarrow> Inr None
     | Some q \<Rightarrow> rbind (viewAt tree q) (\<lambda>pv.
         if nitem pv \<noteq> dragged \<and> hasChildren pv \<and> isExpanded pv
         then rbind (path_down tree \<lparr>p_array = q, p_position = Inside\<rparr>) (\<lambda>p'.
              rbind (pathInvalid valid tree dragged p') (\<lambda>invalid. Inr (if invalid then None else Some p')))
         else Inr None))"

fun level_down ::
  "nat \<Rightarrow> 'a valid_drop \<Rightarrow> 'a item_node list \<Rightarrow> 'a \<Rightarrow> nat list \<Rightarrow> int \<Rightarrow> path \<Rightarrow> path result" where
  "level_down 0 valid tree dragged itemPath xDiff p = Inr p"
| "level_down (Suc fuel) valid tree dragged itemPath xDiff p =
     rbind (pathInvalid valid tree dragged p) (\<lambda>invalid.
     if (xDiff > xStep \<or> invalid) \<and> (p_position p \<noteq> Inside \<or> path_equals itemPath p)
     then rbind (can_enter valid tree dragged (p_array p)) (\<lambda>next_path. case next_path of
            None \<Rightarrow> Inr p
          | Some p' \<Rightarrow> level_down fuel valid tree dragged itemPath (xDiff - xStep) p')
     else Inr p)"

fun depth :: "'a item_node list \<Rightarrow> nat" where
  "depth [] = 0"
| "depth (Item y h e None # vs) = max 1 (depth vs)"
| "depth (Item y h e (Some l) # vs) = max (Suc (depth l)) (depth vs)"

definition resolveNewLevel ::
  "'a valid_drop \<Rightarrow> 'a item_node list \<Rightarrow> 'a \<Rightarrow> nat list \<Rightarrow> int \<Rightarrow> path \<Rightarrow> path result" where
  "resolveNewLevel valid tree dragged itemPath xDiff p =
     rbind (level_up valid tree dragged itemPath xDiff p) (\<lambda>(xd, p1).
     level_down (Suc (depth tree)) valid tree dragged itemPath xd p1)"

text \<open>
  The search over the elements of the items in document order.  An element has the item it
  shows, its top and height on the page, and whether it is visible, inside the dragged element,
  or part of the clone.
\<close>

record 'a item_element =
  e_item :: 'a
  e_top :: rat
  e_height :: rat
  e_visible :: bool
  e_inDragged :: bool
  e_inClone :: bool

definition passed :: "bool \<Rightarrow> rat \<Rightarrow> rat \<Rightarrow> 'a item_element \<Rightarrow> bool" where
  "passed down cloneTop cloneBottom el =
     (let threshold = e_top el + e_height el * (if down then 7 / 10 else 3 / 10)
      in if down then threshold < cloneBottom else cloneTop < threshold)"

text \<open>The elements after (before) the start, nearest first, with their indexes.\<close>

fun search :: "bool \<Rightarrow> rat \<Rightarrow> rat \<Rightarrow> (nat \<times> 'a item_element) list \<Rightarrow> nat \<Rightarrow> nat" where
  "search down ct cb [] newIndex = newIndex"
| "search down ct cb ((i, el) # els) newIndex =
     (if e_inClone el then newIndex
      else if e_visible el \<and> \<not> e_inDragged el
      then (if passed down ct cb el then search down ct cb els i else newIndex)
      else search down ct cb els newIndex)"

definition find_index :: "'a item_element list \<Rightarrow> nat \<Rightarrow> bool \<Rightarrow> rat \<Rightarrow> rat \<Rightarrow> nat" where
  "find_index els start down ct cb =
     search down ct cb (if down then drop (Suc start) (enumerate 0 els) else rev (take start (enumerate 0 els))) start"

record 'a geometry =
  g_elements :: "'a item_element list"
  g_start :: nat
  g_cloneTop :: rat
  g_cloneHeight :: rat
  g_draggedTop :: rat

definition resolveNewPath ::
  "'a valid_drop \<Rightarrow> 'a item_node list \<Rightarrow> nat list \<Rightarrow> int \<Rightarrow> 'a geometry \<Rightarrow> path option result" where
  "resolveNewPath valid tree itemPath xDiff g =
     rbind (viewAt tree itemPath) (\<lambda>draggedView.
     if length (g_elements g) \<le> g_start g then Inl (AssertionFailed ''Start element not found'')
     else
      (let down = g_cloneTop g > g_draggedTop g;
           k = find_index (g_elements g) (g_start g) down (g_cloneTop g) (g_cloneTop g + g_cloneHeight g)
       in rbind (resolvePath tree (e_item (g_elements g ! k))) (\<lambda>a.
          rbind (viewAt tree a) (\<lambda>targetView.
          rbind (if down \<and> hasChildren targetView \<and> isExpanded targetView
                 then rbind (pathInvalid valid tree (nitem draggedView) \<lparr>p_array = a, p_position = Inside\<rparr>) (\<lambda>b. Inr (\<not> b))
                 else Inr False) (\<lambda>canDropInside.
          rbind (resolveNewLevel valid tree (nitem draggedView) itemPath xDiff
                   \<lparr>p_array = a, p_position = (if canDropInside then Inside else if down then After else Before)\<rparr>) (\<lambda>p.
          rbind (pathInvalid valid tree (nitem draggedView) p) (\<lambda>invalid.
          Inr (if invalid then None else Some p))))))))"

section \<open>A drag\<close>

record 'a drag =
  d_root :: "'a item_node list"
  d_itemPath :: "nat list"
  d_lastPageX :: int
  d_mouseMoveCounter :: nat

text \<open>
  \<open>updateDisplay\<close>: an event scheduled by the scrolling logic is dropped when a real one came
  after it.  \<open>g\<close> is what the page looks like once the clone is moved.
\<close>

definition updateDisplay ::
  "'a valid_drop \<Rightarrow> int \<Rightarrow> 'a geometry \<Rightarrow> nat option \<Rightarrow> 'a drag \<Rightarrow> 'a drag result" where
  "updateDisplay valid pageX g scheduled d =
     (if scheduled \<noteq> None \<and> the scheduled \<le> d_mouseMoveCounter d then Inr d
      else (let d1 = (if scheduled = None then d\<lparr>d_mouseMoveCounter := Suc (d_mouseMoveCounter d)\<rparr> else d) in
        rbind (resolveNewPath valid (d_root d1) (d_itemPath d1) (pageX - d_lastPageX d1) g) (\<lambda>newPath.
        case newPath of
          None \<Rightarrow> Inr d1
        | Some p \<Rightarrow>
           (if path_equals (d_itemPath d1) p then Inr d1
            else rbind (viewAt (d_root d1) (d_itemPath d1)) (\<lambda>view.
                 rbind (moveItem (d_root d1) (d_itemPath d1) p) (\<lambda>tree.
                 rbind (resolvePath tree (nitem view)) (\<lambda>a.
                 Inr (d1\<lparr>d_root := tree, d_itemPath := a, d_lastPageX := pageX\<rparr>))))))))"

text \<open>\<open>_updateDraggingCloneAndScrollPosition\<close>: the clone stays within the content of the list.\<close>

definition clone_position :: "int \<Rightarrow> int \<Rightarrow> int \<Rightarrow> int \<Rightarrow> int \<Rightarrow> int \<Rightarrow> int" where
  "clone_position pageY yOffset parentTop scrollTop height scrollHeight =
     (let newTop = pageY - yOffset - parentTop + scrollTop;
          newTop1 = (if newTop < 0 then 0 else newTop)
      in if newTop1 + height > scrollHeight then scrollHeight - height else newTop1)"

definition scroll_step_px :: "int \<Rightarrow> rat" where
  "scroll_step_px diff = max (of_int diff / 5) 1"

definition scroll_delta :: "int \<Rightarrow> int \<Rightarrow> int \<Rightarrow> int \<Rightarrow> rat" where
  "scroll_delta newTop height scrollTop parentHeight =
     (let topDiff = scrollTop - newTop; bottomDiff = newTop + height - (scrollTop + parentHeight)
      in (if topDiff > 0 then - scroll_step_px topDiff else 0) + (if bottomDiff > 0 then scroll_step_px bottomDiff else 0))"

section \<open>Paths and items\<close>

fun find_node :: "'a \<Rightarrow> 'a item_node list \<Rightarrow> 'a item_node option" where
  "find_node x [] = None"
| "find_node x (Item y h e None # vs) = (if y = x then Some (Item y h e None) else find_node x vs)"
| "find_node x (Item y h e (Some l) # vs) = (if y = x then Some (Item y h e (Some l))
     else (case find_node x l of Some v \<Rightarrow> Some v | None \<Rightarrow> find_node x vs))"

lemma nitem_in_items: "nitem v \<in> set (items [v])"
  by (cases v; cases "childList v") auto

lemma items_Cons: "items (v # vs) = items [v] @ items vs"
  by (cases v; cases "childList v") auto

lemma items_single: "items [v] = nitem v # (case childList v of None \<Rightarrow> [] | Some l \<Rightarrow> items l)"
  by (cases v; cases "childList v") auto

lemma find_node_None: "find_node x l = None \<longleftrightarrow> x \<notin> set (items l)"
  by (induction x l rule: find_node.induct) (auto split: option.splits)

lemma find_node_item: "find_node x l = Some v \<Longrightarrow> nitem v = x"
  by (induction x l rule: find_node.induct) (auto split: option.splits if_splits)

lemma find_node_nth:
  assumes "distinct (items l)" and "i < length l" and "x \<in> set (items [l ! i])"
  shows "find_node x l = find_node x [l ! i]"
  using assms
proof (induction l arbitrary: i)
  case Nil
  then show ?case by simp
next
  case (Cons v vs)
  have split: "find_node x (v # vs) = (case find_node x [v] of Some w \<Rightarrow> Some w | None \<Rightarrow> find_node x vs)"
    by (cases v; cases "childList v") (auto split: option.splits)
  show ?case
  proof (cases i)
    case 0
    then show ?thesis using split Cons.prems(3) find_node_None [of x "[v]"] by (auto split: option.splits)
  next
    case (Suc j)
    have d: "distinct (items vs)" "set (items [v]) \<inter> set (items vs) = {}"
      using Cons.prems(1) unfolding items_Cons [of v vs] by auto
    have "x \<in> set (items vs)"
      using Cons.prems(2,3) Suc by (metis find_node_None find_node_None Cons.IH d(1) length_Cons not_less_eq nth_Cons_Suc)
    then have "find_node x [v] = None" using d(2) find_node_None by fastforce
    then show ?thesis using split Cons.IH [OF d(1), of j] Cons.prems(2,3) Suc by simp
  qed
qed

text \<open>The view at a path is the view of its item, and the path of its item is that path.\<close>

lemma items_nth_subset: "i < length l \<Longrightarrow> set (items [l ! i]) \<subseteq> set (items l)"
proof (induction l arbitrary: i)
  case (Cons v vs)
  then show ?case unfolding items_Cons [of v vs] by (cases i) auto
qed simp

lemma items_nth_distinct: "i < length l \<Longrightarrow> distinct (items l) \<Longrightarrow> distinct (items [l ! i])"
proof (induction l arbitrary: i)
  case (Cons v vs)
  then show ?case unfolding items_Cons [of v vs] by (cases i) auto
qed simp

lemma getView_find:
  assumes "distinct (items l)" and "getView l p = Inr (Some v)"
  shows "find_node (nitem v) l = Some v \<and> set (items [v]) \<subseteq> set (items l)"
  using assms
proof (induction l p rule: getView.induct)
  case (2 l i)
  then have i: "i < length l" "l ! i = v" by auto
  have "find_node (nitem v) [v] = Some v" by (cases v; cases "childList v") auto
  then show ?case using i find_node_nth [OF 2(1) i(1)] nitem_in_items items_nth_subset by metis
next
  case (3 l i j ks)
  then obtain w l' where w: "i < length l" "l ! i = w" "childList w = Some l'" "getView l' (j # ks) = Inr (Some v)"
    by (auto split: option.splits)
  have iw: "items [w] = nitem w # items l'" using w(3) by (simp add: items_single)
  have d: "distinct (nitem w # items l')" using items_nth_distinct [OF w(1) 3(2)] w(2) iw by simp
  have IH: "find_node (nitem v) l' = Some v" "set (items [v]) \<subseteq> set (items l')"
    using 3(1) [of w l'] w d by auto
  have vin: "nitem v \<in> set (items l')" using IH(2) nitem_in_items by blast
  have "find_node (nitem v) [w] = Some v"
    using IH(1) vin d w(3) by (cases w) auto
  then show ?case
    using find_node_nth [OF 3(2) w(1)] vin iw w(2) IH(2) items_nth_subset [OF w(1)] by auto
qed auto

lemma path_from_step:
  "path_from n (v # vs) x = (if nitem v = x then Some [n]
     else (case (case childList v of None \<Rightarrow> None | Some l \<Rightarrow> path_from 0 l x) of
             Some p \<Rightarrow> Some (n # p) | None \<Rightarrow> path_from (Suc n) vs x))"
  by (cases v; cases "childList v") auto

lemma path_from_None: "path_from n l x = None \<longleftrightarrow> x \<notin> set (items l)"
  by (induction n l x rule: path_from.induct) (auto split: option.splits)

lemma getView_Suc: "getView (v # vs) (Suc i # q) = getView vs (i # q)"
  by (cases q) (simp_all add: objectAt_def)

lemma getView_shift:
  assumes "Suc n \<le> k"
  shows "getView (v # vs) ((k - n) # q) = getView vs ((k - Suc n) # q)"
proof -
  have "k - n = Suc (k - Suc n)" using assms by simp
  then show ?thesis by (simp only: getView_Suc)
qed

lemma path_from_getView:
  "path_from n l x = Some p \<Longrightarrow> \<exists>k q v. p = k # q \<and> n \<le> k \<and> getView l ((k - n) # q) = Inr (Some v) \<and> nitem v = x"
proof (induction n l x arbitrary: p rule: path_from.induct)
  case (2 n y h e vs x)
  show ?case
  proof (cases "y = x")
    case False
    then obtain k q v where "p = k # q" "Suc n \<le> k" "getView vs ((k - Suc n) # q) = Inr (Some v)" "nitem v = x"
      using 2 by auto
    then show ?thesis using getView_shift [of n k "Item y h e None" vs q] by fastforce
  qed (use 2 in auto)
next
  case (3 n y h e l vs x)
  show ?case
  proof (cases "y = x")
    case False
    note ne = this
    show ?thesis
    proof (cases "path_from 0 l x")
      case None
      then obtain k q v where "p = k # q" "Suc n \<le> k" "getView vs ((k - Suc n) # q) = Inr (Some v)" "nitem v = x"
        using 3 ne by auto
      then show ?thesis using getView_shift [of n k "Item y h e (Some l)" vs q] by fastforce
    next
      case (Some q)
      then obtain k q' v where "q = k # q'" "getView l (k # q') = Inr (Some v)" "nitem v = x"
        using 3(1) [OF ne] by auto
      then show ?thesis using 3(3) ne Some by auto
    qed
  qed (use 3 in auto)
qed auto

lemma items_nth_disjoint:
  assumes "distinct (items l)" and "i < length l" and "j < length l" and "i \<noteq> j"
  shows "set (items [l ! i]) \<inter> set (items [l ! j]) = {}"
  using assms
proof (induction l arbitrary: i j)
  case (Cons v vs)
  have d: "distinct (items vs)" "set (items [v]) \<inter> set (items vs) = {}"
    using Cons.prems(1) unfolding items_Cons [of v vs] by auto
  have sub: "set (items [vs ! m]) \<subseteq> set (items vs)" if "m < length vs" for m using items_nth_subset that by blast
  show ?case
  proof (cases i; cases j)
    fix i' j' assume "i = Suc i'" "j = Suc j'"
    then show ?thesis using Cons.IH [OF d(1), of i' j'] Cons.prems by simp
  next
    fix j' assume "i = 0" "j = Suc j'"
    then show ?thesis using sub [of j'] d(2) Cons.prems by auto
  next
    fix i' assume "i = Suc i'" "j = 0"
    then show ?thesis using sub [of i'] d(2) Cons.prems by auto
  qed (use Cons.prems in auto)
qed simp

text \<open>The item seen along a path lies below the first view on the path.\<close>

lemma getView_Cons:
  assumes "getView l (i # q) = Inr (Some v)"
  shows "i < length l \<and> (if q = [] then v = l ! i
    else (\<exists>l'. childList (l ! i) = Some l' \<and> getView l' q = Inr (Some v)))"
  using assms by (cases q) (auto split: option.splits)

lemma getView_below:
  assumes "distinct (items l)" and "getView l (i # q) = Inr (Some v)"
  shows "nitem v \<in> set (items [l ! i]) \<and> (q \<noteq> [] \<longrightarrow> nitem v \<noteq> nitem (l ! i))"
proof (cases "q = []")
  case True
  then show ?thesis using getView_Cons [OF assms(2)] nitem_in_items by auto
next
  case False
  then obtain l' where l': "i < length l" "childList (l ! i) = Some l'" "getView l' q = Inr (Some v)"
    using getView_Cons [OF assms(2)] by auto
  have iw: "items [l ! i] = nitem (l ! i) # items l'" using l'(2) by (simp add: items_single)
  then have d: "distinct (nitem (l ! i) # items l')" using items_nth_distinct [OF l'(1) assms(1)] by simp
  then have "nitem v \<in> set (items l')" using getView_find [of l' q v] l'(3) nitem_in_items by auto
  then show ?thesis using iw d by auto
qed

lemma getView_inj:
  assumes "distinct (items l)" and "getView l p = Inr (Some v)" and "getView l p' = Inr (Some v')" and "nitem v = nitem v'"
  shows "p = p'"
  using assms
proof (induction p arbitrary: l p')
  case Nil
  then show ?case by simp
next
  case (Cons i q)
  obtain i' q' where p': "p' = i' # q'" using Cons.prems(3) by (cases p') auto
  have b: "nitem v \<in> set (items [l ! i])" "nitem v \<in> set (items [l ! i'])" "i < length l" "i' < length l"
    using getView_below [OF Cons.prems(1,2)] getView_below [OF Cons.prems(1), of i' q' v'] getView_Cons [OF Cons.prems(2)]
      getView_Cons [of l i' q' v'] Cons.prems(3,4) p' by auto
  then have ii: "i = i'" using items_nth_disjoint [OF Cons.prems(1) b(3,4)] by blast
  have qq: "q = [] \<longleftrightarrow> q' = []"
    using getView_below [OF Cons.prems(1,2)] getView_below [OF Cons.prems(1), of i' q' v'] getView_Cons [OF Cons.prems(2)]
      getView_Cons [of l i' q' v'] Cons.prems(3,4) p' ii by auto
  show ?case
  proof (cases "q = []")
    case True
    then show ?thesis using ii qq p' by simp
  next
    case False
    then obtain l' where l': "childList (l ! i) = Some l'" "getView l' q = Inr (Some v)" "getView l' q' = Inr (Some v')"
      using getView_Cons [OF Cons.prems(2)] getView_Cons [of l i' q' v'] Cons.prems(3) p' ii qq by auto
    have "distinct (items l')" using items_nth_distinct [OF b(3) Cons.prems(1)] l'(1) by (simp add: items_single)
    then show ?thesis using Cons.IH [OF _ l'(2,3) Cons.prems(4)] ii p' by simp
  qed
qed

text \<open>Paths and views are inverse to each other.\<close>

lemma resolvePath_getView:
  assumes "distinct (items l)" and "getView l p = Inr (Some v)"
  shows "resolvePath l (nitem v) = Inr p"
proof -
  have "nitem v \<in> set (items l)" using getView_find [OF assms] nitem_in_items by blast
  then obtain q where q: "path_from 0 l (nitem v) = Some q" using path_from_None by fastforce
  then obtain v' where "getView l q = Inr (Some v')" "nitem v' = nitem v"
    using path_from_getView [of 0 l "nitem v" q] by auto
  then have "q = p" using getView_inj [OF assms(1) _ assms(2)] by simp
  then show ?thesis using q by (simp add: resolvePath_def)
qed

lemma resolvePath_view:
  "x \<in> set (items l) \<Longrightarrow> \<exists>p v. resolvePath l x = Inr p \<and> getView l p = Inr (Some v) \<and> nitem v = x"
proof -
  assume "x \<in> set (items l)"
  then obtain q where q: "path_from 0 l x = Some q" using path_from_None by fastforce
  then show ?thesis using path_from_getView [of 0 l x q] by (auto simp: resolvePath_def)
qed

section \<open>Removing and inserting\<close>

lemma remove_absent: "x \<notin> set (items l) \<Longrightarrow> remove_item x l = l"
  by (induction x l rule: remove_item.induct) auto

lemma remove_gone: "distinct (items l) \<Longrightarrow> x \<notin> set (items (remove_item x l))"
  by (induction x l rule: remove_item.induct) auto

lemma remove_subset: "set (items (remove_item x l)) \<subseteq> set (items l)"
  by (induction x l rule: remove_item.induct) auto

lemma remove_mset:
  assumes "distinct (items l)" and "find_node x l = Some v"
  shows "mset (items l) = mset (items [v]) + mset (items (remove_item x l))"
  using assms
proof (induction x l rule: remove_item.induct)
  case (2 x y h e vs)
  then show ?case by (auto simp: remove_absent split: if_splits)
next
  case (3 x y h e l vs)
  show ?case
  proof (cases "y = x")
    case True
    then show ?thesis using 3(4,5) by (auto simp: remove_absent)
  next
    case ne: False
    show ?thesis
    proof (cases "find_node x l")
      case None
      then have "x \<notin> set (items l)" using find_node_None [of x l] by simp
      then show ?thesis using 3(3-5) ne None by (simp add: remove_absent)
    next
      case (Some w)
      then have "x \<in> set (items l)" using find_node_None [of x l] by simp
      then have "x \<notin> set (items vs)" using 3(4) by auto
      then show ?thesis using 3(2,4,5) ne Some by (simp add: remove_absent)
    qed
  qed
qed simp

lemma insert_absent: "t \<notin> set (items l) \<Longrightarrow> insert_rel pos t v l = l"
  by (induction pos t v l rule: insert_rel.induct) auto

definition can_hold :: "position \<Rightarrow> 'a \<Rightarrow> 'a item_node list \<Rightarrow> bool" where
  "can_hold pos t l \<longleftrightarrow> (pos = Inside \<longrightarrow> (\<exists>w. find_node t l = Some w \<and> childList w \<noteq> None))"

lemma insert_mset:
  assumes "distinct (items l)" and "t \<in> set (items l)" and "can_hold pos t l"
  shows "mset (items (insert_rel pos t v l)) = mset (items [v]) + mset (items l)"
  using assms
proof (induction pos t v l rule: insert_rel.induct)
  case (2 pos t v y h e vs)
  then show ?case
    using items_Cons [of v "Item y h e None # vs"] items_Cons [of v vs]
    by (cases pos) (auto simp: can_hold_def)
next
  case (3 pos t v y h e l vs)
  show ?case
  proof (cases "t \<in> set (items l)")
    case True
    then have "t \<notin> set (items vs)" "t \<noteq> y" using 3(3) by auto
    moreover have "can_hold pos t l"
      using 3(5) True \<open>t \<noteq> y\<close> by (auto simp: can_hold_def find_node_None split: option.splits)
    ultimately show ?thesis using 3(1,3) True by (simp add: insert_absent)
  next
    case False
    then have "find_node t l = None" by (simp add: find_node_None)
    then show ?thesis
      using False 3(2-5) items_Cons [of v "Item y h e (Some l) # vs"] items_Cons [of v vs] items_Cons [of v l]
      by (cases pos) (auto simp: can_hold_def insert_absent)
  qed
qed simp

lemma remove_insert:
  assumes "nitem v = x" and "x \<notin> set (items l)"
  shows "remove_item x (insert_rel pos t v l) = l"
proof -
  have v: "remove_item x (v # vs) = remove_item x vs" for vs
    using assms(1) by (cases v; cases "childList v") auto
  show ?thesis
    using assms(2) v
    by (induction pos t v l rule: insert_rel.induct) (auto simp: remove_absent split: position.splits)
qed

definition adjacent :: "position \<Rightarrow> nat list \<Rightarrow> nat list \<Rightarrow> bool" where
  "adjacent pos pt px = (case pos of
       Before \<Rightarrow> (\<exists>a i. px = a @ [i] \<and> pt = a @ [Suc i])
     | After \<Rightarrow> (\<exists>a i. pt = a @ [i] \<and> px = a @ [Suc i])
     | Inside \<Rightarrow> px = pt @ [0])"

lemma adjacent_Cons: "adjacent pos pt px \<Longrightarrow> adjacent pos (n # pt) (n # px)"
proof -
  have "n # a @ [i] = (n # a) @ [i]" for a and i :: nat by simp
  then show "adjacent pos pt px \<Longrightarrow> adjacent pos (n # pt) (n # px)"
    by (cases pos) (auto simp: adjacent_def simp del: append_Cons)
qed

text \<open>In the new tree the moved item is where the position letter says, seen from the target.\<close>

lemma path_head: "nitem w = x \<Longrightarrow> path_from n (w # ws) x = Some [n]"
  by (simp add: path_from_step)

lemma path_skip: "x \<notin> set (items [w]) \<Longrightarrow> path_from n (w # ws) x = path_from (Suc n) ws x"
proof -
  assume x: "x \<notin> set (items [w])"
  have "path_from 0 l x = None" if "childList w = Some l" for l
    using x that path_from_None [of 0 l x] by (simp add: items_single)
  then show ?thesis using x by (cases "childList w") (auto simp: path_from_step items_single)
qed

lemma insert_paths:
  assumes "distinct (items l)" and "t \<in> set (items l)" and "can_hold pos t l"
    and "nitem v = x" and "x \<notin> set (items l)" and "t \<notin> set (items [v])"
  shows "\<exists>pt px. path_from n (insert_rel pos t v l) t = Some pt \<and> path_from n (insert_rel pos t v l) x = Some px
    \<and> adjacent pos pt px"
  using assms
proof (induction pos t v l arbitrary: n rule: insert_rel.induct)
  case (2 pos t v y h e vs)
  note pv = path_head [OF 2(5)] path_skip [OF 2(7)]
  show ?case
  proof (cases "y = t")
    case True
    have "x \<noteq> t" using 2(5,7) nitem_in_items by metis
    then show ?thesis using True 2(4) pv by (cases pos) (auto simp: can_hold_def adjacent_def)
  next
    case False
    then show ?thesis using 2 by (auto simp: can_hold_def)
  qed
next
  case (3 pos t v y h e l vs)
  note pv = path_head [OF 3(6)] path_skip [OF 3(8)]
  have xt: "x \<noteq> t" using 3(6,8) nitem_in_items by metis
  have xl: "path_from m l x = None" "path_from m vs x = None" for m using 3(7) path_from_None by fastforce+
  show ?case
  proof (cases "y = t")
    case True
    then show ?thesis using xt 3(7) pv xl by (cases pos) (auto simp: adjacent_def)
  next
    case ne: False
    show ?thesis
    proof (cases "t \<in> set (items l)")
      case True
      have "can_hold pos t l" using 3(5) True ne by (auto simp: can_hold_def find_node_None split: option.splits)
      then obtain pt px where "path_from 0 (insert_rel pos t v l) t = Some pt"
          "path_from 0 (insert_rel pos t v l) x = Some px" "adjacent pos pt px"
        using 3(1) [OF ne _ True _ 3(6) _ 3(8), of 0] 3(3,7) by auto
      then show ?thesis using ne 3(7) adjacent_Cons by fastforce
    next
      case False
      have no: "path_from 0 l t = None" "find_node t l = None" using False path_from_None find_node_None by fastforce+
      have "can_hold pos t vs" "t \<in> set (items vs)" using 3(4,5) ne False no by (auto simp: can_hold_def)
      then obtain pt px where "path_from (Suc n) (insert_rel pos t v vs) t = Some pt"
          "path_from (Suc n) (insert_rel pos t v vs) x = Some px" "adjacent pos pt px"
        using 3(2) [OF ne _ _ _ 3(6) _ 3(8), of "Suc n"] 3(3,7) by auto
      then show ?thesis using ne no xl 3(7) False by (auto simp: insert_absent)
    qed
  qed
qed simp

lemma remove_find:
  assumes "distinct (items l)" and "find_node t l = Some w" and "find_node x l = Some v" and "t \<notin> set (items [v])"
  shows "\<exists>w'. find_node t (remove_item x l) = Some w' \<and> (childList w' = None \<longleftrightarrow> childList w = None)"
  using assms
proof (induction x l rule: remove_item.induct)
  case (2 x y h e vs)
  then show ?case by (cases "y = x") (auto simp: remove_absent split: if_splits)
next
  case (3 x y h e l vs)
  show ?case
  proof (cases "y = x")
    case True
    then have v: "v = Item x h e (Some l)" using 3(6) by simp
    then have "t \<noteq> x" "find_node t l = None" using 3(7) find_node_None [of t l] by auto
    then have "find_node t vs = Some w" using 3(5) True by simp
    moreover have "x \<notin> set (items vs)" using 3(4) True by auto
    ultimately show ?thesis using True by (simp add: remove_absent)
  next
    case ne: False
    show ?thesis
    proof (cases "y = t")
      case True
      then show ?thesis using ne 3(5) by auto
    next
      case nt: False
      show ?thesis
      proof (cases "find_node x l")
        case None
        then have "x \<notin> set (items l)" using find_node_None [of x l] by simp
        then have r: "remove_item x l = l" by (rule remove_absent)
        show ?thesis
        proof (cases "find_node t l")
          case (Some w1)
          then show ?thesis using 3(5) ne nt r by auto
        next
          case tn: None
          then show ?thesis using 3(3-7) ne nt r None by auto
        qed
      next
        case (Some v1)
        then have "x \<in> set (items l)" using find_node_None [of x l] by simp
        then have "x \<notin> set (items vs)" using 3(4) by auto
        then have r: "remove_item x vs = vs" by (rule remove_absent)
        show ?thesis
        proof (cases "find_node t l")
          case (Some w1)
          then obtain w' where "find_node t (remove_item x l) = Some w'" "(childList w' = None) = (childList w = None)"
            using 3(2,4-7) ne nt \<open>find_node x l = Some v1\<close> by auto
          then show ?thesis using ne nt by auto
        next
          case None
          then have "t \<notin> set (items (remove_item x l))" using remove_subset find_node_None [of t l] by fastforce
          then have "find_node t (remove_item x l) = None" by (simp add: find_node_None)
          then show ?thesis using 3(5) ne nt r None by auto
        qed
      qed
    qed
  qed
qed simp

lemma viewAt_getView: "viewAt l p = Inr v \<longleftrightarrow> getView l p = Inr (Some v)"
  by (auto simp: viewAt_def split: option.splits)

lemma move_item_at_target:
  assumes "distinct (items tree)" and "viewAt tree src = Inr view" and "viewAt tree (p_array tp) = Inr target"
    and "nitem target \<notin> set (items [view])" and "p_position tp = Inside \<longrightarrow> childList target \<noteq> None"
  shows "\<exists>r. moveItem tree src tp = Inr r \<and> mset (items r) = mset (items tree)
    \<and> remove_item (nitem view) r = remove_item (nitem view) tree
    \<and> (\<exists>pt px. resolvePath r (nitem target) = Inr pt \<and> resolvePath r (nitem view) = Inr px
         \<and> adjacent (p_position tp) pt px)"
proof -
  let ?x = "nitem view"
  let ?t = "nitem target"
  let ?l = "remove_item ?x tree"
  have v: "find_node ?x tree = Some view" "find_node ?t tree = Some target"
    using getView_find [OF assms(1)] assms(2,3) by (auto simp: viewAt_getView)
  have m: "mset (items tree) = mset (items [view]) + mset (items ?l)" by (rule remove_mset [OF assms(1) v(1)])
  have "mset (items tree) = mset (items [view] @ items ?l)" unfolding mset_append by (rule m)
  then have "distinct (items [view] @ items ?l)" using assms(1) mset_eq_imp_distinct_iff by blast
  then have d: "distinct (items ?l)" by (simp only: distinct_append)
  obtain w' where w': "find_node ?t ?l = Some w'" "(childList w' = None) = (childList target = None)"
    using remove_find [OF assms(1) v(2,1) assms(4)] by (elim exE conjE) (rule that)
  have t: "?t \<in> set (items ?l)" using w'(1) find_node_None [of ?t ?l] by simp
  have h: "can_hold (p_position tp) ?t ?l" using w' assms(5) by (auto simp: can_hold_def)
  have x: "?x \<notin> set (items ?l)" by (rule remove_gone [OF assms(1)])
  let ?r = "insert_rel (p_position tp) ?t view ?l"
  have "moveItem tree src tp = Inr ?r" using assms(2,3,5) by (auto simp: moveItem_def)
  moreover have "mset (items ?r) = mset (items tree)" using insert_mset [OF d t h] m by simp
  moreover have "remove_item ?x ?r = ?l" by (rule remove_insert [OF refl x])
  moreover obtain pt px where "path_from 0 ?r ?t = Some pt" "path_from 0 ?r ?x = Some px" "adjacent (p_position tp) pt px"
    using insert_paths [OF d t h refl x assms(4), of 0] by blast
  ultimately show ?thesis by (auto simp: resolvePath_def)
qed

text \<open>
  Dragging moves one item and nothing else.  \<open>_moveItem\<close>, given a drop target that is not
  inside the dragged item, keeps exactly the items of the tree, leaves everything but the
  dragged item in place, and puts it directly before or after the target, or first inside it, as
  the position letter says.
\<close>

theorem move_puts_item_at_target:
  assumes "distinct (items tree)" and "viewAt tree src = Inr view" and "viewAt tree (p_array tp) = Inr target"
    and "nitem target \<notin> set (items [view])" and "p_position tp = Inside \<longrightarrow> childList target \<noteq> None"
  shows "\<exists>r. moveItem tree src tp = Inr r \<and> mset (items r) = mset (items tree)
    \<and> remove_item (nitem view) r = remove_item (nitem view) tree
    \<and> (\<exists>pt px. resolvePath r (nitem target) = Inr pt \<and> resolvePath r (nitem view) = Inr px
         \<and> adjacent (p_position tp) pt px)"
  by (rule move_item_at_target [OF assms])

definition small_tree :: "nat item_node list" where
  "small_tree = [Item 10 True True (Some [Item 11 False False None, Item 12 False False None]), Item 13 False False None]"

theorem move_puts_item_at_target_witness:
  "\<exists>r. moveItem small_tree [1] \<lparr>p_array = [0, 0], p_position = After\<rparr> = Inr r
     \<and> mset (items r) = {#10, 11, 12, 13#}
     \<and> (\<exists>pt px. resolvePath r 11 = Inr pt \<and> resolvePath r 13 = Inr px \<and> adjacent After pt px)"
proof -
  have "distinct (items small_tree)" "viewAt small_tree [1] = Inr (Item 13 False False None)"
      "viewAt small_tree (p_array \<lparr>p_array = [0, 0], p_position = After\<rparr>) = Inr (Item 11 False False None)"
    by (simp_all add: small_tree_def viewAt_def)
  then obtain r where r: "moveItem small_tree [1] \<lparr>p_array = [0, 0], p_position = After\<rparr> = Inr r"
      "mset (items r) = mset (items small_tree)"
      "\<exists>pt px. resolvePath r (nitem (Item (11 :: nat) False False None)) = Inr pt
         \<and> resolvePath r (nitem (Item (13 :: nat) False False None)) = Inr px
         \<and> adjacent (p_position \<lparr>p_array = [0, 0], p_position = After\<rparr>) pt px"
    using move_puts_item_at_target [of small_tree "[1]" "Item 13 False False None" "\<lparr>p_array = [0, 0], p_position = After\<rparr>"
      "Item 11 False False None"] by auto
  have "mset (items r) = {#10, 11, 12, 13#}" using r(2) by (simp add: small_tree_def)
  then show ?thesis using r(1,3) by auto
qed

text \<open>
  \<open>_resolvePath\<close> and \<open>getView\<close> are inverse to each other in a tree without repeated items:
  the path of the item at a path is that path, and every item of the tree has a path that leads
  back to it.
\<close>

theorem path_view_roundtrip:
  assumes "distinct (items tree)"
  shows "(viewAt tree p = Inr v \<longrightarrow> resolvePath tree (nitem v) = Inr p)
    \<and> (x \<in> set (items tree) \<longrightarrow> (\<exists>q w. resolvePath tree x = Inr q \<and> viewAt tree q = Inr w \<and> nitem w = x))"
  using resolvePath_getView [OF assms] resolvePath_view [of x tree] by (auto simp: viewAt_getView)

theorem path_view_roundtrip_witness:
  "resolvePath small_tree 12 = Inr [0, 1] \<and> (\<exists>w. viewAt small_tree [0, 1] = Inr w \<and> nitem w = 12)"
proof -
  have d: "distinct (items small_tree)" by (simp add: small_tree_def)
  have v: "viewAt small_tree [0, 1] = Inr (Item 12 False False None)" by (simp add: small_tree_def viewAt_def)
  show ?thesis using path_view_roundtrip [OF d, of "[0, 1]" "Item 12 False False None" 12] v by auto
qed

section \<open>The level search ends\<close>

lemma getView_depth: "getView l p = Inr (Some v) \<Longrightarrow> length p \<le> depth l"
proof (induction l p rule: getView.induct)
  case (2 l i)
  then have "l \<noteq> []" by auto
  then show ?case by (cases l rule: depth.cases) auto
next
  case (3 l i j ks)
  then obtain w l' where w: "i < length l" "l ! i = w" "childList w = Some l'" "getView l' (j # ks) = Inr (Some v)"
    by (auto split: option.splits)
  have "Suc (depth l') \<le> depth l" if "i < length l" "childList (l ! i) = Some l'" for l :: "'a item_node list" and i l'
    using that by (induction l arbitrary: i rule: depth.induct) (auto simp: nth_Cons split: nat.splits; fastforce)+
  then have "Suc (depth l') \<le> depth l" using w by blast
  moreover have "length (j # ks) \<le> depth l'" using 3(1) [of w l'] w by auto
  ultimately show ?case by simp
qed simp

text \<open>
  A step of the second loop goes one level down, or stops the loop by choosing the inside of an
  item without children.
\<close>

lemma can_enter_step:
  assumes "can_enter valid tree dragged a = Inr (Some p)" and "viewAt tree itemPath = Inr dv" and "nitem dv = dragged"
  shows "(\<exists>w. viewAt tree (p_array p) = Inr w) \<and> (\<exists>b. pathInvalid valid tree dragged p = Inr b)
     \<and> (length (p_array p) = Suc (length a) \<or> (p_position p = Inside \<and> \<not> path_equals itemPath p))"
proof -
  obtain q pv where q: "getPrecedingView tree a = Some q" "viewAt tree q = Inr pv" "nitem pv \<noteq> dragged"
      "path_down tree \<lparr>p_array = q, p_position = Inside\<rparr> = Inr p"
      "pathInvalid valid tree dragged p = Inr False"
    using assms(1) by (auto simp: can_enter_def split: option.splits if_splits)
  have "length q = length a" using q(1) by (auto simp: getPrecedingView_def split: if_splits)
  moreover have "itemPath \<noteq> q" using q(2,3) assms(2,3) by auto
  ultimately show ?thesis
    using q(4,5) by (auto simp: path_down_def path_equals_def pathInvalid_def split: option.splits if_splits)
qed

lemma level_down_enough:
  assumes "viewAt tree itemPath = Inr dv" and "nitem dv = dragged" and "viewAt tree (p_array p) = Inr w"
    and "Suc (depth tree) \<le> length (p_array p) + f" and "Suc (depth tree) \<le> length (p_array p) + g"
  shows "level_down f valid tree dragged itemPath xDiff p = level_down g valid tree dragged itemPath xDiff p"
  using assms(3-)
proof (induction f arbitrary: g xDiff p w)
  case 0
  then show ?case using getView_depth [of tree "p_array p" w] by (simp add: viewAt_getView)
next
  case (Suc f)
  have "length (p_array p) \<le> depth tree" using getView_depth [of tree "p_array p" w] Suc.prems(1) by (simp add: viewAt_getView)
  then obtain g' where g: "g = Suc g'" using Suc.prems(3) by (cases g) auto
  have step: "level_down f valid tree dragged itemPath xd p' = level_down g' valid tree dragged itemPath xd p'"
    if "can_enter valid tree dragged (p_array p) = Inr (Some p')" for p' xd
  proof -
    note cs = can_enter_step [OF that assms(1,2)]
    obtain w' where w': "viewAt tree (p_array p') = Inr w'" using cs by blast
    show ?thesis
    proof (cases "length (p_array p') = Suc (length (p_array p))")
      case True
      then show ?thesis using Suc.prems(2,3) g by (intro Suc.IH [OF w']) simp_all
    next
      case False
      then have ins: "p_position p' = Inside" "\<not> path_equals itemPath p'" using cs by auto
      obtain b where "pathInvalid valid tree dragged p' = Inr b" using cs by blast
      then have "level_down k valid tree dragged itemPath xd p' = Inr p'" for k using ins by (cases k) simp_all
      then show ?thesis by simp
    qed
  qed
  have same: "rbind (can_enter valid tree dragged (p_array p)) (\<lambda>next_path. case next_path of
        None \<Rightarrow> Inr p | Some p' \<Rightarrow> level_down f valid tree dragged itemPath (xDiff - xStep) p')
      = rbind (can_enter valid tree dragged (p_array p)) (\<lambda>next_path. case next_path of
        None \<Rightarrow> Inr p | Some p' \<Rightarrow> level_down g' valid tree dragged itemPath (xDiff - xStep) p')"
  proof (rule rbind_cong [OF refl])
    fix np assume "can_enter valid tree dragged (p_array p) = Inr np"
    then show "(case np of None \<Rightarrow> Inr p | Some p' \<Rightarrow> level_down f valid tree dragged itemPath (xDiff - xStep) p')
        = (case np of None \<Rightarrow> Inr p | Some p' \<Rightarrow> level_down g' valid tree dragged itemPath (xDiff - xStep) p')"
      using step by (cases np) simp_all
  qed
  show ?case unfolding g level_down.simps same ..
qed

text \<open>
  The search for the level ends.  The second loop of \<open>_resolveNewLevel\<close> goes one level
  deeper per step, so after one step per level of the tree no further step happens: with any
  larger bound the result is the same.
\<close>

theorem level_search_ends:
  assumes "viewAt tree itemPath = Inr dv" and "viewAt tree (p_array p) = Inr w" and "depth tree < fuel"
  shows "level_down fuel valid tree (nitem dv) itemPath xDiff p
       = level_down (Suc (depth tree)) valid tree (nitem dv) itemPath xDiff p"
proof -
  have "p_array p \<noteq> []" using assms(2) by (auto simp: viewAt_def)
  then have "1 \<le> length (p_array p)" by (cases "p_array p") auto
  then show ?thesis using assms(3) by (intro level_down_enough [OF assms(1) refl assms(2)]) simp_all
qed

theorem level_search_ends_witness:
  "level_down 7 (\<lambda>_ _ _. True) small_tree 13 [1] 25 \<lparr>p_array = [1], p_position = Before\<rparr>
     = level_down 3 (\<lambda>_ _ _. True) small_tree 13 [1] 25 \<lparr>p_array = [1], p_position = Before\<rparr>"
proof -
  have "viewAt small_tree [1] = Inr (Item 13 False False None)" "depth small_tree = 2"
    by (simp_all add: small_tree_def viewAt_def)
  then show ?thesis
    using level_search_ends [of small_tree "[1]" "Item 13 False False None" "\<lparr>p_array = [1], p_position = Before\<rparr>"
        "Item 13 False False None" 7 "\<lambda>_ _ _. True" 25] by (simp add: eval_nat_numeral)
qed

text \<open>
  The dragged clone stays inside the list: its top lies between the start and the end of the
  scrolled content whenever the clone fits into it.
\<close>

theorem clone_stays_in_list:
  assumes "height \<le> scrollHeight"
  shows "0 \<le> clone_position pageY yOffset parentTop scrollTop height scrollHeight
    \<and> clone_position pageY yOffset parentTop scrollTop height scrollHeight + height \<le> scrollHeight"
  using assms by (simp add: clone_position_def Let_def)

theorem clone_stays_in_list_witness:
  "clone_position 5000 10 0 0 20 300 + 20 \<le> (300 :: int) \<and> 0 \<le> clone_position 5000 10 0 0 20 300"
  using clone_stays_in_list [of 20 300 5000 10 0 0] by simp

section \<open>A drag keeps the items\<close>

text \<open>\<open>below ip a\<close>: the path \<open>a\<close> leads to something inside the item at \<open>ip\<close>.\<close>

definition below :: "nat list \<Rightarrow> nat list \<Rightarrow> bool" where
  "below ip a \<longleftrightarrow> (\<exists>s. s \<noteq> [] \<and> a = ip @ s)"

lemma below_append: "below ip (a @ [i]) \<longleftrightarrow> a = ip \<or> below ip a"
proof
  assume "below ip (a @ [i])"
  then obtain s where s: "s \<noteq> []" "a @ [i] = ip @ s" by (auto simp: below_def)
  have "butlast (a @ [i]) = butlast (ip @ s)" using s(2) by simp
  then have eq: "a = ip @ butlast s" using s(1) by (simp add: butlast_append)
  show "a = ip \<or> below ip a"
  proof (cases "butlast s = []")
    case True
    then have "a = ip" using eq by simp
    then show ?thesis ..
  next
    case False
    have "below ip a" unfolding below_def by (rule exI [of _ "butlast s"]) (rule conjI [OF False eq])
    then show ?thesis ..
  qed
next
  assume "a = ip \<or> below ip a"
  then obtain s where s: "a = ip @ s" unfolding below_def by blast
  show "below ip (a @ [i])" unfolding below_def by (rule exI [of _ "s @ [i]"]) (simp add: s)
qed

lemma getView_append:
  assumes "a \<noteq> []" and "q \<noteq> []"
  shows "getView l (a @ q) = (case getView l a of
      Inl e \<Rightarrow> Inl e
    | Inr None \<Rightarrow> Inl TypeError
    | Inr (Some v) \<Rightarrow> (case childList v of None \<Rightarrow> Inl TypeError | Some l' \<Rightarrow> getView l' q))"
  using assms(1)
proof (induction l a rule: getView.induct)
  case (2 l i)
  then show ?case using assms(2) by (cases q) (auto split: option.splits)
qed (auto split: option.splits)

lemma viewAt_snoc:
  assumes "viewAt tree (a @ [i]) = Inr v"
  shows "\<exists>l. siblings tree (a @ [i]) = Inr l \<and> i < length l \<and> l ! i = v
     \<and> (\<forall>j < length l. viewAt tree (a @ [j]) = Inr (l ! j))
     \<and> (a \<noteq> [] \<longrightarrow> (\<exists>w. viewAt tree a = Inr w))"
proof (cases "a = []")
  case True
  then show ?thesis using assms by (auto simp: siblings_def viewAt_def split: option.splits)
next
  case False
  then obtain w l where w: "getView tree a = Inr (Some w)" "childList w = Some l" "objectAt l i = Some v"
    using assms getView_append [OF False, of "[i]" tree]
    by (auto simp: viewAt_getView split: sum.splits option.splits)
  moreover have "viewAt tree (a @ [j]) = Inr (l ! j)" if "j < length l" for j
    using w that getView_append [OF False, of "[j]" tree] by (simp add: viewAt_getView)
  ultimately show ?thesis
    using False by (auto simp: siblings_def getNestedListView_def viewAt_getView)
qed

lemma viewAt_nonempty: "viewAt tree a = Inr v \<Longrightarrow> \<exists>b i. a = b @ [i]"
  by (cases a rule: rev_cases) (auto simp: viewAt_def)

lemma pathInvalid_total:
  assumes "viewAt tree (p_array p) = Inr v"
  shows "\<exists>b. pathInvalid valid tree dragged p = Inr b"
proof -
  obtain b i where a: "p_array p = b @ [i]" using viewAt_nonempty [OF assms] by blast
  have "\<exists>w. getView tree b = Inr w"
    using viewAt_snoc [of tree b i v] assms a by (cases "b = []") (auto simp: viewAt_getView)
  then show ?thesis using assms a by (auto simp: pathInvalid_def path_up_def)
qed

lemma level_up_ok:
  assumes "viewAt tree (p_array p) = Inr v" and "\<not> below ip (p_array p)"
  shows "\<exists>xd p' w. level_up valid tree dragged ip xDiff p = Inr (xd, p') \<and> viewAt tree (p_array p') = Inr w
     \<and> \<not> below ip (p_array p') \<and> (p_position p' = Inside \<longrightarrow> p' = p)"
  using assms
proof (induction "length (p_array p)" arbitrary: p v xDiff rule: less_induct)
  case less
  obtain b i where a: "p_array p = b @ [i]" using viewAt_nonempty [OF less.prems(1)] by blast
  obtain inv where inv: "pathInvalid valid tree dragged p = Inr inv" using pathInvalid_total [OF less.prems(1)] by blast
  obtain l where l: "siblings tree (p_array p) = Inr l" "b \<noteq> [] \<longrightarrow> (\<exists>w. viewAt tree b = Inr w)"
    using viewAt_snoc [of tree b i v] less.prems(1) a by auto
  show ?case
  proof (cases "(xDiff < - xStep \<or> inv) \<and> (p_position p = After \<or> path_equals ip p) \<and> 1 < length (p_array p)
      \<and> Suc (last (p_array p)) = length l")
    case True
    then have ne: "b \<noteq> []" using a by auto
    have up: "p_array (path_up p) = b" "p_position (path_up p) = After" using a by (simp_all add: path_up_def)
    obtain w where "viewAt tree (p_array (path_up p)) = Inr w" using l(2) ne up by auto
    moreover have "\<not> below ip (p_array (path_up p))" using less.prems(2) a up by (simp add: below_append)
    ultimately obtain xd p' w' where "level_up valid tree dragged ip (xDiff + xStep) (path_up p) = Inr (xd, p')"
        "viewAt tree (p_array p') = Inr w'" "\<not> below ip (p_array p')" "p_position p' = Inside \<longrightarrow> p' = path_up p"
      using less.hyps [of "path_up p"] a up(1) by fastforce
    then show ?thesis using True inv l(1) up by (subst level_up.simps) auto
  next
    case False
    then show ?thesis using inv l(1) less.prems by (subst level_up.simps) auto
  qed
qed

text \<open>In a rendered tree every expanded item with children shows its nested list.\<close>

fun nodes :: "'a item_node list \<Rightarrow> 'a item_node list" where
  "nodes [] = []"
| "nodes (Item x h e None # vs) = Item x h e None # nodes vs"
| "nodes (Item x h e (Some l) # vs) = Item x h e (Some l) # nodes l @ nodes vs"

definition rendered :: "'a item_node list \<Rightarrow> bool" where
  "rendered tree \<longleftrightarrow> (\<forall>a v. viewAt tree a = Inr v \<longrightarrow> hasChildren v \<longrightarrow> isExpanded v \<longrightarrow> childList v \<noteq> None)"

lemma path_down_ok:
  assumes "viewAt tree q = Inr v" and "childList v = Some l"
  shows "\<exists>p w. path_down tree \<lparr>p_array = q, p_position = Inside\<rparr> = Inr p \<and> viewAt tree (p_array p) = Inr w
     \<and> (p_array p = q \<and> p_position p = Inside \<and> w = v \<or> (\<exists>k. p_array p = q @ [k]) \<and> p_position p = After)"
proof (cases "l = []")
  case True
  then show ?thesis using assms by (simp add: path_down_def getNestedListView_def)
next
  case False
  have ne: "q \<noteq> []" using assms(1) by (auto simp: viewAt_def)
  have "viewAt tree (q @ [length l - 1]) = Inr (l ! (length l - 1))"
    using assms False getView_append [OF ne, of "[length l - 1]" tree] by (simp add: viewAt_getView)
  then show ?thesis using assms False by (simp add: path_down_def getNestedListView_def)
qed

lemma can_enter_ok:
  assumes "rendered tree" and "viewAt tree a = Inr v" and "viewAt tree ip = Inr dv" and "\<not> below ip a"
  shows "\<exists>np. can_enter valid tree (nitem dv) a = Inr np \<and> (\<forall>p. np = Some p \<longrightarrow>
     (\<exists>w. viewAt tree (p_array p) = Inr w \<and> (p_position p = Inside \<longrightarrow> childList w \<noteq> None)) \<and> \<not> below ip (p_array p))"
proof (cases "getPrecedingView tree a")
  case None
  then show ?thesis by (simp add: can_enter_def)
next
  case (Some q)
  obtain b i where a: "a = b @ [i]" using viewAt_nonempty [OF assms(2)] by blast
  then have q: "q = b @ [i - 1]" "0 < i" using Some by (auto simp: getPrecedingView_def split: if_splits)
  obtain l where l: "i < length l" "\<forall>j < length l. viewAt tree (b @ [j]) = Inr (l ! j)"
    using viewAt_snoc [of tree b i v] assms(2) a by auto
  define pv where "pv = l ! (i - 1)"
  have pv: "viewAt tree q = Inr pv" using l q by (simp add: pv_def)
  show ?thesis
  proof (cases "nitem pv \<noteq> nitem dv \<and> hasChildren pv \<and> isExpanded pv")
    case True
    obtain l' where l': "childList pv = Some l'" using True assms(1) pv by (auto simp: rendered_def)
    obtain p w where p: "path_down tree \<lparr>p_array = q, p_position = Inside\<rparr> = Inr p" "viewAt tree (p_array p) = Inr w"
        "p_array p = q \<and> p_position p = Inside \<and> w = pv \<or> (\<exists>k. p_array p = q @ [k]) \<and> p_position p = After"
      using path_down_ok [OF pv l'] by blast
    obtain inv where "pathInvalid valid tree (nitem dv) p = Inr inv" using pathInvalid_total [OF p(2)] by blast
    moreover have nq: "q \<noteq> ip" using True pv assms(3) by auto
    have "\<not> below ip q" using assms(4) a q by (simp add: below_append)
    then have "\<not> below ip (p_array p)" using p(3) nq by (auto simp: below_append)
    ultimately show ?thesis
      using Some pv True p l' by (auto simp: can_enter_def)
  next
    case False
    then show ?thesis using Some pv by (auto simp: can_enter_def)
  qed
qed

lemma level_down_ok:
  assumes "rendered tree" and "viewAt tree ip = Inr dv"
    and "viewAt tree (p_array p) = Inr v" and "\<not> below ip (p_array p)" and "p_position p = Inside \<longrightarrow> childList v \<noteq> None"
  shows "\<exists>p' w. level_down f valid tree (nitem dv) ip xDiff p = Inr p' \<and> viewAt tree (p_array p') = Inr w
     \<and> \<not> below ip (p_array p') \<and> (p_position p' = Inside \<longrightarrow> childList w \<noteq> None)"
  using assms(3-)
proof (induction f arbitrary: p v xDiff)
  case 0
  then show ?case by auto
next
  case (Suc f)
  obtain inv where inv: "pathInvalid valid tree (nitem dv) p = Inr inv" using pathInvalid_total [OF Suc.prems(1)] by blast
  obtain np where np: "can_enter valid tree (nitem dv) (p_array p) = Inr np"
      "\<And>p'. np = Some p' \<Longrightarrow> (\<exists>w. viewAt tree (p_array p') = Inr w \<and> (p_position p' = Inside \<longrightarrow> childList w \<noteq> None))
          \<and> \<not> below ip (p_array p')"
    using can_enter_ok [OF assms(1) Suc.prems(1) assms(2) Suc.prems(2)] by blast
  show ?case
  proof (cases "((xDiff > xStep \<or> inv) \<and> (p_position p \<noteq> Inside \<or> path_equals ip p)) \<and> np \<noteq> None")
    case True
    then obtain p' where p': "np = Some p'" by auto
    then obtain w where "viewAt tree (p_array p') = Inr w" "p_position p' = Inside \<longrightarrow> childList w \<noteq> None"
        "\<not> below ip (p_array p')" using np(2) by blast
    then show ?thesis using Suc.IH True inv np(1) p' by auto
  next
    case False
    then show ?thesis using inv np(1) Suc.prems by (auto split: option.splits)
  qed
qed

lemma inside_is_below:
  assumes "distinct (items tree)" and "viewAt tree ip = Inr dv" and "viewAt tree a = Inr w" and "nitem w \<in> set (items [dv])"
  shows "a = ip \<or> below ip a"
proof (cases "nitem w = nitem dv")
  case True
  then show ?thesis using getView_inj [OF assms(1), of a w ip dv] assms(2,3) by (simp add: viewAt_getView)
next
  case False
  then have "nitem w \<in> set (case childList dv of None \<Rightarrow> [] | Some l \<Rightarrow> items l)"
    using assms(4) unfolding items_single [of dv] by simp
  then obtain l where l: "childList dv = Some l" "nitem w \<in> set (items l)"
    by (cases "childList dv") simp_all
  obtain q w' where q: "getView l q = Inr (Some w')" "nitem w' = nitem w" using resolvePath_view [OF l(2)] by blast
  have ne: "ip \<noteq> []" "q \<noteq> []" using assms(2) q(1) by (auto simp: viewAt_def)
  have "getView tree (ip @ q) = Inr (Some w')"
    using getView_append [OF ne, of tree] assms(2) l(1) q(1) by (simp add: viewAt_getView)
  then have "a = ip @ q" using getView_inj [OF assms(1)] assms(3) q(2) by (metis viewAt_getView)
  then show ?thesis using ne(2) by (auto simp: below_def)
qed

lemma search_found:
  "search down ct cb els k = n \<Longrightarrow>
   n = k \<or> (\<exists>el. (n, el) \<in> set els \<and> e_visible el \<and> \<not> e_inDragged el \<and> \<not> e_inClone el \<and> passed down ct cb el)"
  by (induction down ct cb els k rule: search.induct) (auto split: if_splits)

lemma find_index_found:
  assumes "find_index els start down ct cb = n" and "start < length els"
  shows "n < length els \<and> (n = start \<or> (e_visible (els ! n) \<and> \<not> e_inDragged (els ! n) \<and> \<not> e_inClone (els ! n)))"
proof -
  define es where "es = (if down then drop (Suc start) (enumerate 0 els) else rev (take start (enumerate 0 els)))"
  have "set es \<subseteq> set (enumerate 0 els)"
    unfolding es_def by (simp add: set_drop_subset set_take_subset)
  then have "n = start \<or> (\<exists>el. (n, el) \<in> set (enumerate 0 els) \<and> e_visible el \<and> \<not> e_inDragged el \<and> \<not> e_inClone el)"
    using search_found [of down ct cb es start n] assms(1) unfolding find_index_def es_def [symmetric] by blast
  then show ?thesis using assms(2) by (auto simp: in_set_enumerate_eq)
qed

text \<open>
  The page shows the tree: the start element is that of the dragged item, and every element
  outside the clone belongs to an item of the tree and knows whether it lies in the dragged one.
\<close>

definition geometry_ok :: "'a item_node list \<Rightarrow> 'a item_node \<Rightarrow> 'a geometry \<Rightarrow> bool" where
  "geometry_ok tree view g \<longleftrightarrow> g_start g < length (g_elements g)
     \<and> e_item (g_elements g ! g_start g) = nitem view
     \<and> (\<forall>el \<in> set (g_elements g). \<not> e_inClone el \<longrightarrow> e_item el \<in> set (items tree)
          \<and> (e_inDragged el \<longleftrightarrow> e_item el \<in> set (items [view])))"

lemma getView_distinct:
  assumes "distinct (items l)" and "getView l p = Inr (Some v)"
  shows "distinct (items [v])"
proof -
  have "mset (items l) = mset (items [v] @ items (remove_item (nitem v) l))"
    using remove_mset [OF assms(1)] getView_find [OF assms] by simp
  then have "distinct (items [v] @ items (remove_item (nitem v) l))"
    using assms(1) mset_eq_imp_distinct_iff by blast
  then show ?thesis by (simp only: distinct_append)
qed

lemma below_is_inside:
  assumes "distinct (items tree)" and "viewAt tree ip = Inr dv" and "viewAt tree a = Inr w" and "below ip a"
  shows "nitem w \<in> set (items [dv])"
proof -
  have gd: "getView tree ip = Inr (Some dv)" using assms(2) by (simp add: viewAt_getView)
  obtain q where q: "q \<noteq> []" "a = ip @ q" using assms(4) by (auto simp: below_def)
  have "ip \<noteq> []" using gd by auto
  then obtain l where l: "childList dv = Some l" "getView l q = Inr (Some w)"
    using assms(3) q gd getView_append [of ip q tree] by (cases "childList dv") (simp_all add: viewAt_getView)
  have dl: "items [dv] = nitem dv # items l" using l(1) by (simp add: items_single)
  then have "distinct (items l)" using getView_distinct [OF assms(1) gd] by simp
  then have "nitem w \<in> set (items l)" using getView_find [OF _ l(2)] nitem_in_items by blast
  then show ?thesis using dl by simp
qed

lemma resolveNewPath_ok:
  assumes "distinct (items tree)" and "rendered tree" and "viewAt tree ip = Inr dv" and "geometry_ok tree dv g"
  shows "\<exists>r. resolveNewPath valid tree ip xDiff g = Inr r \<and> (\<forall>p. r = Some p \<longrightarrow>
     (\<exists>w. viewAt tree (p_array p) = Inr w \<and> (p_position p = Inside \<longrightarrow> childList w \<noteq> None)) \<and> \<not> below ip (p_array p))"
proof -
  let ?down = "g_cloneTop g > g_draggedTop g"
  define k where "k = find_index (g_elements g) (g_start g) ?down (g_cloneTop g) (g_cloneTop g + g_cloneHeight g)"
  have st: "g_start g < length (g_elements g)" "e_item (g_elements g ! g_start g) = nitem dv"
    using assms(4) by (auto simp: geometry_ok_def)
  have k: "k < length (g_elements g)" "k = g_start g \<or> \<not> e_inDragged (g_elements g ! k) \<and> \<not> e_inClone (g_elements g ! k)"
    using find_index_found [OF k_def [symmetric] st(1)] by auto
  have gd: "getView tree ip = Inr (Some dv)" using assms(3) by (simp add: viewAt_getView)
  have din: "nitem dv \<in> set (items tree)" using getView_find [OF assms(1) gd] nitem_in_items by blast
  let ?x = "e_item (g_elements g ! k)"
  have xin: "?x \<in> set (items tree)"
    using k st din assms(4) nth_mem [OF k(1)] by (auto simp: geometry_ok_def)
  obtain a v where a: "resolvePath tree ?x = Inr a" "viewAt tree a = Inr v" "nitem v = ?x"
    using resolvePath_view [OF xin] by (auto simp: viewAt_getView)
  have nb: "\<not> below ip a"
  proof (cases "k = g_start g")
    case True
    then have "a = ip" using a(1) st(2) resolvePath_getView [OF assms(1) gd] by simp
    then show ?thesis by (simp add: below_def)
  next
    case False
    then have "?x \<notin> set (items [dv])" using k assms(4) nth_mem [OF k(1)] by (auto simp: geometry_ok_def)
    then show ?thesis using below_is_inside [OF assms(1,3) a(2)] a(3) by auto
  qed
  obtain b where b: "pathInvalid valid tree (nitem dv) \<lparr>p_array = a, p_position = Inside\<rparr> = Inr b"
    using pathInvalid_total [of tree "\<lparr>p_array = a, p_position = Inside\<rparr>" v] a(2) by auto
  define inside where "inside \<longleftrightarrow> (?down \<and> hasChildren v \<and> isExpanded v) \<and> \<not> b"
  define p0 where "p0 = \<lparr>p_array = a, p_position = (if inside then Inside else if ?down then After else Before)\<rparr>"
  have c: "p_position p0 = Inside \<longrightarrow> childList v \<noteq> None"
    using a(2) assms(2) by (auto simp: p0_def inside_def rendered_def)
  have pa: "p_array p0 = a" by (simp add: p0_def)
  obtain xd p1 w1 where up: "level_up valid tree (nitem dv) ip xDiff p0 = Inr (xd, p1)" "viewAt tree (p_array p1) = Inr w1"
      "\<not> below ip (p_array p1)" "p_position p1 = Inside \<longrightarrow> p1 = p0"
    using level_up_ok [of tree p0 v ip valid "nitem dv" xDiff] a(2) nb pa by auto
  have c1: "p_position p1 = Inside \<longrightarrow> childList w1 \<noteq> None" using up(2,4) c a(2) pa by auto
  obtain p2 w2 where dn: "level_down (Suc (depth tree)) valid tree (nitem dv) ip xd p1 = Inr p2" "viewAt tree (p_array p2) = Inr w2"
      "\<not> below ip (p_array p2)" "p_position p2 = Inside \<longrightarrow> childList w2 \<noteq> None"
    using level_down_ok [OF assms(2,3) up(2,3) c1] by blast
  obtain b2 where b2: "pathInvalid valid tree (nitem dv) p2 = Inr b2" using pathInvalid_total [OF dn(2)] by blast
  have lv: "resolveNewLevel valid tree (nitem dv) ip xDiff p0 = Inr p2"
    using up(1) dn(1) by (simp add: resolveNewLevel_def)
  have ci: "(if ?down \<and> hasChildren v \<and> isExpanded v
      then rbind (pathInvalid valid tree (nitem dv) \<lparr>p_array = a, p_position = Inside\<rparr>) (\<lambda>b. Inr (\<not> b))
      else Inr False) = Inr inside" using b by (auto simp: inside_def)
  have "resolveNewPath valid tree ip xDiff g = Inr (if b2 then None else Some p2)"
    using st(1) b2 unfolding resolveNewPath_def assms(3) k_def [symmetric] Let_def
    by (simp only: rbind.simps a(1,2) ci lv [unfolded p0_def]) simp
  then show ?thesis using dn(2-4) by auto
qed

lemma rendered_nodes:
  assumes "\<And>v. v \<in> set (nodes tree) \<Longrightarrow> hasChildren v \<Longrightarrow> isExpanded v \<Longrightarrow> childList v \<noteq> None"
  shows "rendered tree"
proof -
  have "v \<in> set (nodes l)" if "getView l a = Inr (Some v)" for l :: "'a item_node list" and a v
    using that
  proof (induction l a rule: getView.induct)
    case (2 l i)
    then have "v \<in> set l" by (auto simp: objectAt_def split: if_splits)
    then show ?case by (induction l rule: nodes.induct) auto
  next
    case (3 l i j ks)
    then obtain w l' where w: "w \<in> set l" "childList w = Some l'" "v \<in> set (nodes l')"
      by (auto split: option.splits dest: nth_mem)
    then show ?case by (induction l rule: nodes.induct) auto
  qed simp
  then show ?thesis using assms by (auto simp: rendered_def viewAt_getView)
qed

lemma updateDisplay_keeps:
  assumes "distinct (items (d_root d))" and "rendered (d_root d)" and "viewAt (d_root d) (d_itemPath d) = Inr view"
    and "geometry_ok (d_root d) view g"
  shows "\<exists>d' view'. updateDisplay valid pageX g scheduled d = Inr d'
     \<and> mset (items (d_root d')) = mset (items (d_root d))
     \<and> remove_item (nitem view) (d_root d') = remove_item (nitem view) (d_root d)
     \<and> viewAt (d_root d') (d_itemPath d') = Inr view' \<and> nitem view' = nitem view"
proof -
  define d1 where "d1 = (if scheduled = None then d\<lparr>d_mouseMoveCounter := Suc (d_mouseMoveCounter d)\<rparr> else d)"
  have d1: "d_root d1 = d_root d" "d_itemPath d1 = d_itemPath d" by (simp_all add: d1_def)
  obtain r where r: "resolveNewPath valid (d_root d) (d_itemPath d) (pageX - d_lastPageX d1) g = Inr r"
      "\<And>p. r = Some p \<Longrightarrow> (\<exists>w. viewAt (d_root d) (p_array p) = Inr w \<and> (p_position p = Inside \<longrightarrow> childList w \<noteq> None))
         \<and> \<not> below (d_itemPath d) (p_array p)"
    using resolveNewPath_ok [OF assms] by blast
  let ?stale = "scheduled \<noteq> None \<and> the scheduled \<le> d_mouseMoveCounter d"
  show ?thesis
  proof (cases "\<exists>p. \<not> ?stale \<and> r = Some p \<and> \<not> path_equals (d_itemPath d) p")
    case False
    then have "updateDisplay valid pageX g scheduled d = Inr (if ?stale then d else d1)"
      using r(1) unfolding updateDisplay_def d1_def [symmetric] Let_def d1 by (cases r) auto
    then show ?thesis using assms(3) d1 by auto
  next
    case True
    then obtain p where 4: "\<not> ?stale" "r = Some p" "\<not> path_equals (d_itemPath d) p" by blast
    obtain w where w: "viewAt (d_root d) (p_array p) = Inr w" "p_position p = Inside \<longrightarrow> childList w \<noteq> None"
        "\<not> below (d_itemPath d) (p_array p)" using r(2) [OF 4(2)] by blast
    have "nitem w \<notin> set (items [view])"
      using inside_is_below [OF assms(1,3) w(1)] w(3) 4(3) by (auto simp: path_equals_def)
    then obtain t px where t: "moveItem (d_root d) (d_itemPath d) p = Inr t" "mset (items t) = mset (items (d_root d))"
        "remove_item (nitem view) t = remove_item (nitem view) (d_root d)" "resolvePath t (nitem view) = Inr px"
      using move_item_at_target [OF assms(1,3) w(1)] w(2) by blast
    obtain view' where v': "getView t px = Inr (Some view')" "nitem view' = nitem view"
      using t(4) path_from_getView [of 0 t "nitem view" px] by (auto simp: resolvePath_def split: option.splits)
    have "updateDisplay valid pageX g scheduled d = Inr (d1\<lparr>d_root := t, d_itemPath := px, d_lastPageX := pageX\<rparr>)"
      using 4 r(1) t(1,4) assms(3) unfolding updateDisplay_def d1_def [symmetric] Let_def d1 by auto
    then show ?thesis using t(2,3) v' by (auto simp: viewAt_getView)
  qed
qed

text \<open>The recursive form of \<open>rendered\<close>; moving an item keeps it.\<close>

fun shown :: "'a item_node list \<Rightarrow> bool" where
  "shown [] = True"
| "shown (Item x h e None # vs) = (\<not> (h \<and> e) \<and> shown vs)"
| "shown (Item x h e (Some l) # vs) = (shown l \<and> shown vs)"

lemma shown_nodes: "shown l \<Longrightarrow> v \<in> set (nodes l) \<Longrightarrow> hasChildren v \<Longrightarrow> isExpanded v \<Longrightarrow> childList v \<noteq> None"
  by (induction l rule: shown.induct) auto

lemma shown_rendered: "shown l \<Longrightarrow> rendered l"
  by (rule rendered_nodes) (rule shown_nodes)

lemma shown_Cons: "shown (v # vs) \<longleftrightarrow> shown [v] \<and> shown vs"
  by (cases v; cases "childList v") auto

lemma shown_remove: "shown l \<Longrightarrow> shown (remove_item x l)"
  by (induction x l rule: remove_item.induct) auto

lemma shown_insert: "shown l \<Longrightarrow> shown [v] \<Longrightarrow> shown (insert_rel pos t v l)"
proof (induction pos t v l rule: insert_rel.induct)
  case (2 pos t v y h e vs)
  then show ?case using shown_Cons [of v "Item y h e None # vs"] shown_Cons [of v vs] by (cases pos) auto
next
  case (3 pos t v y h e l vs)
  then show ?case
    using shown_Cons [of v "Item y h e (Some l) # vs"] shown_Cons [of v vs] shown_Cons [of v l] by (cases pos) auto
qed simp

lemma shown_find: "shown l \<Longrightarrow> find_node x l = Some v \<Longrightarrow> shown [v]"
  by (induction x l rule: find_node.induct) (auto split: if_splits option.splits)

lemma shown_move:
  assumes "distinct (items tree)" and "shown tree" and "moveItem tree src tp = Inr r"
  shows "shown r"
proof -
  obtain v t where "viewAt tree src = Inr v" "r = insert_rel (p_position tp) t v (remove_item (nitem v) tree)"
    using assms(3) by (auto simp: moveItem_def split: if_splits)
  moreover have "find_node (nitem v) tree = Some v" using calculation(1) getView_find [OF assms(1)] by (simp add: viewAt_getView)
  moreover have "shown [v]" by (rule shown_find [OF assms(2) calculation(3)])
  ultimately show ?thesis using shown_insert [OF shown_remove [OF assms(2)]] by simp
qed

lemma updateDisplay_root:
  assumes "updateDisplay valid pageX g scheduled d = Inr d'"
  shows "d_root d' = d_root d \<or> (\<exists>p. moveItem (d_root d) (d_itemPath d) p = Inr (d_root d'))"
proof -
  define d1 where "d1 = (if scheduled = None then d\<lparr>d_mouseMoveCounter := Suc (d_mouseMoveCounter d)\<rparr> else d)"
  have d1: "d_root d1 = d_root d" "d_itemPath d1 = d_itemPath d" by (simp_all add: d1_def)
  note u = assms [unfolded updateDisplay_def d1_def [symmetric] Let_def d1]
  show ?thesis
  proof (cases "scheduled \<noteq> None \<and> the scheduled \<le> d_mouseMoveCounter d")
    case False
    then obtain np where np: "resolveNewPath valid (d_root d) (d_itemPath d) (pageX - d_lastPageX d1) g = Inr np" using u by auto
    note v = u [unfolded if_not_P [OF False] np rbind.simps]
    show ?thesis
    proof (cases np)
      case (Some p)
      then show ?thesis using v d1 by (cases "path_equals (d_itemPath d) p") auto
    qed (use v d1 in auto)
  qed (use u in auto)
qed

lemma updateDisplay_shown:
  assumes "updateDisplay valid pageX g scheduled d = Inr d'" and "distinct (items (d_root d))" and "shown (d_root d)"
  shows "shown (d_root d')"
  using updateDisplay_root [OF assms(1)] shown_move [OF assms(2,3)] assms(3) by auto

text \<open>
  C13: whatever the mouse does, a drag loses nothing.  While the page shows the tree, every call
  of \<open>updateDisplay\<close> succeeds for every reorder delegate, keeps exactly the items of the tree and
  everything but the dragged item in place, and the item path again leads to the dragged item.
\<close>

theorem drag_keeps_items:
  assumes "distinct (items (d_root d))" and "rendered (d_root d)" and "viewAt (d_root d) (d_itemPath d) = Inr view"
    and "geometry_ok (d_root d) view g"
  shows "\<exists>d' view'. updateDisplay valid pageX g scheduled d = Inr d'
     \<and> mset (items (d_root d')) = mset (items (d_root d))
     \<and> remove_item (nitem view) (d_root d') = remove_item (nitem view) (d_root d)
     \<and> viewAt (d_root d') (d_itemPath d') = Inr view' \<and> nitem view' = nitem view"
  by (rule updateDisplay_keeps [OF assms])

definition small_drag :: "nat drag" where
  "small_drag = \<lparr>d_root = small_tree, d_itemPath = [1], d_lastPageX = 0, d_mouseMoveCounter = 4\<rparr>"

text \<open>Four rows of 20 pixels; the clone of item 13 was dragged up to just below the first row.\<close>

definition small_page :: "nat geometry" where
  "small_page = \<lparr>g_elements = map (\<lambda>i. \<lparr>e_item = 10 + i, e_top = of_nat (20 * i), e_height = 20, e_visible = True,
       e_inDragged = (i = 3), e_inClone = False\<rparr>) [0, 1, 2, 3],
     g_start = 3, g_cloneTop = 24, g_cloneHeight = 20, g_draggedTop = 60\<rparr>"

theorem drag_keeps_items_witness:
  "\<exists>d' view'. updateDisplay (\<lambda>_ _ _. True) 0 small_page None small_drag = Inr d'
     \<and> mset (items (d_root d')) = {#10, 11, 12, 13#}
     \<and> viewAt (d_root d') (d_itemPath d') = Inr view' \<and> nitem view' = 13"
proof -
  have "rendered small_tree" by (rule rendered_nodes) (auto simp: small_tree_def)
  moreover have "distinct (items small_tree)" "items small_tree = [10, 11, 12, 13]" by (simp_all add: small_tree_def)
  moreover have "viewAt small_tree [1] = Inr (Item 13 False False None)" by (simp add: small_tree_def viewAt_def)
  moreover have "geometry_ok small_tree (Item 13 False False None) small_page"
    by (simp add: geometry_ok_def small_tree_def small_page_def)
  ultimately show ?thesis
    using drag_keeps_items [of small_drag "Item 13 False False None" small_page "\<lambda>_ _ _. True" 0 None]
    by (auto simp: small_drag_def)
qed

section \<open>Scrolling while dragging\<close>

text \<open>
  When the clone leaves the visible part of the list, \<open>_updateDraggingCloneAndScrollPosition\<close>
  schedules another \<open>updateDisplay\<close> with the number of real mouse moves so far.  The rest of the
  call leaves that number alone, so \<open>d\<close> may be the state after the call that scrolled.
\<close>

definition scroll_schedule :: "int \<Rightarrow> int \<Rightarrow> int \<Rightarrow> int \<Rightarrow> bool \<Rightarrow> 'a drag \<Rightarrow> nat option" where
  "scroll_schedule newTop height scrollTop parentHeight overflowAuto d =
     (if overflowAuto \<and> (scrollTop - newTop > 0 \<or> newTop + height - (scrollTop + parentHeight) > 0)
      then Some (d_mouseMoveCounter d) else None)"

lemma updateDisplay_counter:
  "updateDisplay valid pageX g scheduled d = Inr d' \<Longrightarrow> d_mouseMoveCounter d \<le> d_mouseMoveCounter d'"
  by (auto simp: updateDisplay_def Let_def split: if_splits option.splits)

inductive drag_moves :: "'a drag \<Rightarrow> 'a drag \<Rightarrow> bool" where
  no_move: "drag_moves d d"
| one_move: "drag_moves d d' \<Longrightarrow> updateDisplay valid pageX g scheduled d' = Inr d'' \<Longrightarrow> drag_moves d d''"

lemma drag_moves_counter: "drag_moves d d' \<Longrightarrow> d_mouseMoveCounter d \<le> d_mouseMoveCounter d'"
  by (induction rule: drag_moves.induct) (auto dest: updateDisplay_counter)

text \<open>
  The artificial mouse move never happens.  It carries the counter at the time of the
  scrolling, and \<open>updateDisplay\<close> drops it unless that number exceeds the current counter, which
  only grows: whatever happens in between, the scheduled call does nothing, so a list scrolls
  only one step per real mouse move.
\<close>

theorem scheduled_scroll_is_dropped:
  assumes "scroll_schedule newTop height scrollTop parentHeight overflowAuto d = Some n" and "drag_moves d d'"
  shows "updateDisplay valid pageX g (Some n) d' = Inr d'"
proof -
  have "n = d_mouseMoveCounter d" using assms(1) by (auto simp: scroll_schedule_def split: if_splits)
  then show ?thesis using drag_moves_counter [OF assms(2)] by (simp add: updateDisplay_def)
qed

theorem scheduled_scroll_is_dropped_witness:
  "scroll_schedule 0 20 50 100 True small_drag = Some 4
   \<and> updateDisplay (\<lambda>_ _ _. True) 0 small_page (Some 4) small_drag = Inr small_drag"
proof -
  have "scroll_schedule 0 20 50 100 True small_drag = Some 4" by (simp add: scroll_schedule_def small_drag_def)
  then show ?thesis using scheduled_scroll_is_dropped [OF _ no_move] by blast
qed

end
