(* ===== verification/Panels.thy ===== *)
theory Panels
  imports Event_Manager "HOL-Library.Word"
begin

unbundle bit_operations_syntax

text \<open>
  Pop-up panels (\<open>views/panel.js\<close>) and popovers (\<open>views/popover.js\<close>): where a panel is placed next
  to its anchor, the stack of shown panels with their modal panes and z-indexes, and the
  statecharts of the title bar (moving) and of the resize thumb.  Showing and closing a panel
  works on the key responder stack of the event manager.
\<close>

section \<open>Numbers that may be missing\<close>

text \<open>
  A field of a layout is a number or \<open>undefined\<close>.  Arithmetic with \<open>undefined\<close> gives \<open>NaN\<close>, and
  both are falsy and make every comparison false, so \<open>None\<close> stands for either.
\<close>

type_synonym num = "rat option"

definition num2 :: "(rat \<Rightarrow> rat \<Rightarrow> rat) \<Rightarrow> num \<Rightarrow> num \<Rightarrow> num" where
  "num2 f a b = (case a of None \<Rightarrow> None | Some x \<Rightarrow> (case b of None \<Rightarrow> None | Some y \<Rightarrow> Some (f x y)))"

definition num_less :: "num \<Rightarrow> num \<Rightarrow> bool" where
  "num_less a b = (case a of None \<Rightarrow> False | Some x \<Rightarrow> (case b of None \<Rightarrow> False | Some y \<Rightarrow> x < y))"

definition num_truthy :: "num \<Rightarrow> bool" where
  "num_truthy a \<longleftrightarrow> a \<noteq> None \<and> a \<noteq> Some 0"

lemma num2_simps [simp]: "num2 f (Some x) (Some y) = Some (f x y)" "num2 f None b = None" "num2 f a None = None"
  by (simp_all add: num2_def split: option.splits)

lemma num_less_simps [simp]: "num_less (Some x) (Some y) = (x < y)" "num_less None b = False" "num_less a None = False"
  by (simp_all add: num_less_def split: option.splits)

section \<open>Positions\<close>

text \<open>The bit operators of JavaScript work on 32 bits.\<close>

type_synonym pos_bits = "32 word"

definition POSITION_BELOW :: pos_bits where "POSITION_BELOW = push_bit 0 1"
definition POSITION_RIGHT :: pos_bits where "POSITION_RIGHT = push_bit 1 1"
definition POSITION_LEFT :: pos_bits where "POSITION_LEFT = push_bit 2 1"
definition POSITION_ABOVE :: pos_bits where "POSITION_ABOVE = push_bit 3 1"
definition POSITION_MIDDLE :: pos_bits where "POSITION_MIDDLE = push_bit 4 1"

lemmas position_defs = POSITION_BELOW_def POSITION_RIGHT_def POSITION_LEFT_def POSITION_ABOVE_def POSITION_MIDDLE_def

definition has :: "pos_bits \<Rightarrow> pos_bits \<Rightarrow> bool" where
  "has p m \<longleftrightarrow> p AND m \<noteq> 0"

section \<open>The layout of a panel\<close>

record panel_layout =
  l_top :: num
  l_left :: num
  l_width :: num
  l_height :: num
  l_movedX :: bool
  l_movedY :: bool
  l_centerX :: num
  l_centerY :: num
  l_zIndex :: "int option"

record page =
  win_width :: rat
  win_height :: rat

record anchor =
  a_top :: rat
  a_left :: rat
  a_width :: rat
  a_height :: rat

definition place_at :: "anchor \<Rightarrow> pos_bits \<Rightarrow> panel_layout \<Rightarrow> panel_layout result" where
  "place_at a p l =
     (if has p (POSITION_BELOW OR POSITION_ABOVE)
      then (let left = Some (a_left a) in Inr (l\<lparr>
         l_top := num2 (+) (Some (a_top a)) (if has p POSITION_BELOW then Some (a_height a) else map_option uminus (l_height l)),
         l_left := (if has p POSITION_MIDDLE
                    then num2 (+) (num2 (-) left (map_option (\<lambda>w. w / 2) (l_width l))) (Some (a_width a / 2)) else left)\<rparr>))
      else if has p (POSITION_RIGHT OR POSITION_LEFT)
      then (let top = Some (a_top a) in Inr (l\<lparr>
         l_top := (if has p POSITION_MIDDLE
                   then num2 (+) (num2 (-) top (map_option (\<lambda>h. h / 2) (l_height l))) (Some (a_height a / 2)) else top),
         l_left := num2 (+) (Some (a_left a)) (if has p POSITION_RIGHT then Some (a_width a) else map_option uminus (l_width l))\<rparr>))
      else Inl (AssertionFailed ''Invalid position for panel''))"

definition fit_horizontally :: "page \<Rightarrow> panel_layout \<Rightarrow> panel_layout" where
  "fit_horizontally w l =
     (if num_less (Some (win_width w - 10)) (num2 (+) (l_left l) (l_width l))
      then l\<lparr>l_left := num2 (-) (num2 (-) (Some (win_width w)) (l_width l)) (Some 10), l_movedX := True\<rparr>
      else l)"

definition fit_vertically :: "page \<Rightarrow> anchor \<Rightarrow> pos_bits \<Rightarrow> panel_layout \<Rightarrow> panel_layout" where
  "fit_vertically w a p l =
     (if has p POSITION_BELOW \<and> num_less (Some (win_height w - 10)) (num2 (+) (l_top l) (l_height l))
           \<and> l_height l \<noteq> None \<and> \<not> num_less (num2 (-) (Some (a_top a)) (l_height l)) (Some 0)
         \<or> has p POSITION_ABOVE \<and> num_less (l_top l) (Some 0)
      then l\<lparr>l_movedY := True\<rparr>
      else if num_less (l_top l) (Some 0) then l\<lparr>l_top := Some 10\<rparr>
      else l)"

text \<open>
  \<open>_layoutRelativeTo\<close>: \<open>contentHeight\<close> is the height in the layout of the first child view, used
  when the panel has none.  The layout object is changed in place; \<open>movedX\<close> and \<open>movedY\<close> are only
  ever set.
\<close>

definition layoutRelativeTo :: "page \<Rightarrow> num \<Rightarrow> anchor \<Rightarrow> pos_bits \<Rightarrow> panel_layout \<Rightarrow> panel_layout result" where
  "layoutRelativeTo w contentHeight a position l =
     (let p = (if position = 0 then POSITION_BELOW else position);
          l1 = (if num_truthy contentHeight \<and> \<not> num_truthy (l_height l) then l\<lparr>l_height := contentHeight\<rparr> else l)
      in rbind (place_at a p l1) (\<lambda>l2. Inr (fit_vertically w a p (fit_horizontally w l2))))"

text \<open>Popovers try the other side when they do not fit, and make room for the arrow.\<close>

datatype arrow = ArrowAbove | ArrowBelow | ArrowLeft | ArrowRight

definition other_side :: "panel_layout \<Rightarrow> pos_bits \<Rightarrow> pos_bits" where
  "other_side l p =
     (let p1 = (if l_movedX l \<and> has p (POSITION_LEFT OR POSITION_RIGHT) then p XOR (POSITION_LEFT OR POSITION_RIGHT) else p)
      in if l_movedY l \<and> has p1 (POSITION_ABOVE OR POSITION_BELOW) then p1 XOR (POSITION_ABOVE OR POSITION_BELOW) else p1)"

definition arrow_shift :: "pos_bits \<Rightarrow> panel_layout \<Rightarrow> panel_layout \<times> arrow option" where
  "arrow_shift p l =
     (if has p POSITION_ABOVE then (l\<lparr>l_top := num2 (-) (l_top l) (Some 15)\<rparr>, Some ArrowAbove)
      else if has p POSITION_BELOW then (l\<lparr>l_top := num2 (+) (l_top l) (Some 15)\<rparr>, Some ArrowBelow)
      else if has p POSITION_LEFT then (l\<lparr>l_left := num2 (-) (l_left l) (Some 15)\<rparr>, Some ArrowLeft)
      else if has p POSITION_RIGHT then (l\<lparr>l_left := num2 (+) (l_left l) (Some 15)\<rparr>, Some ArrowRight)
      else (l, None))"

text \<open>The layout, the \<open>position\<close> property and the arrow.\<close>

definition popover_layoutRelativeTo ::
  "page \<Rightarrow> num \<Rightarrow> anchor \<Rightarrow> pos_bits \<Rightarrow> panel_layout \<Rightarrow> (panel_layout \<times> pos_bits \<times> arrow option) result" where
  "popover_layoutRelativeTo w contentHeight a p l =
     rbind (layoutRelativeTo w contentHeight a p l) (\<lambda>l1.
     if l_movedX l1 \<or> l_movedY l1
     then (let p' = other_side l1 p in
           rbind (layoutRelativeTo w contentHeight a p' l1) (\<lambda>l2.
           let (l3, arr) = arrow_shift p' l2 in Inr (l3, p', arr)))
     else (let (l3, arr) = arrow_shift p l1 in Inr (l3, p, arr)))"

definition popover_position :: "pos_bits \<Rightarrow> pos_bits result" where
  "popover_position p = (if p = 0 then Inl (AssertionFailed ''Flame.Popover.popup requires a position'')
     else Inr (p OR POSITION_MIDDLE))"


section \<open>Where a panel is placed\<close>

lemma has_OR: "has p (m OR n) \<longleftrightarrow> has p m \<or> has p n"
proof -
  have "p AND (m OR n) = (p AND m) OR (p AND n)" by (rule bit.conj_disj_distrib)
  then show ?thesis by (simp add: has_def or_eq_0_iff)
qed

lemma fit_horizontally_fits:
  assumes "l_left l = Some x" and "l_width l = Some d"
  shows "\<exists>x'. l_left (fit_horizontally w l) = Some x' \<and> x' + d \<le> win_width w - 10"
  using assms by (auto simp: fit_horizontally_def)

lemma place_at_ok:
  assumes "has p (POSITION_BELOW OR POSITION_ABOVE) \<or> has p (POSITION_RIGHT OR POSITION_LEFT)"
    and "l_width l = Some d"
  shows "\<exists>l' x. place_at a p l = Inr l' \<and> l_width l' = Some d \<and> l_left l' = Some x"
  using assms by (auto simp: place_at_def Let_def)

lemma fit_vertically_frame [simp]:
  "l_left (fit_vertically w a p l) = l_left l" "l_width (fit_vertically w a p l) = l_width l"
  "l_height (fit_vertically w a p l) = l_height l" "l_movedX (fit_vertically w a p l) = l_movedX l"
  by (simp_all add: fit_vertically_def)

lemma fit_horizontally_frame [simp]:
  "l_top (fit_horizontally w l) = l_top l" "l_width (fit_horizontally w l) = l_width l"
  "l_height (fit_horizontally w l) = l_height l" "l_movedY (fit_horizontally w l) = l_movedY l"
  by (simp_all add: fit_horizontally_def)

text \<open>
  A panel of known width never sticks out of the window on the right: wherever its anchor is,
  \<open>_layoutRelativeTo\<close> leaves at least ten pixels to the right of it, and a panel whose vertical
  place was not marked as moved does not start above the window.
\<close>

theorem panel_fits_window:
  assumes "position = 0 \<or> has position (POSITION_BELOW OR POSITION_ABOVE) \<or> has position (POSITION_RIGHT OR POSITION_LEFT)"
    and "l_width l = Some d"
  shows "\<exists>l' x. layoutRelativeTo w contentHeight a position l = Inr l' \<and> l_left l' = Some x
     \<and> x + d \<le> win_width w - 10 \<and> (l_movedY l' \<or> \<not> num_less (l_top l') (Some 0))"
proof -
  let ?p = "if position = 0 then POSITION_BELOW else position"
  let ?l = "if num_truthy contentHeight \<and> \<not> num_truthy (l_height l) then l\<lparr>l_height := contentHeight\<rparr> else l"
  have p: "has ?p (POSITION_BELOW OR POSITION_ABOVE) \<or> has ?p (POSITION_RIGHT OR POSITION_LEFT)"
    using assms(1) by (auto simp: has_def position_defs)
  have "l_width ?l = Some d" using assms(2) by simp
  then obtain l2 x where l2: "place_at a ?p ?l = Inr l2" "l_width l2 = Some d" "l_left l2 = Some x"
    using place_at_ok [OF p] by blast
  obtain x' where "l_left (fit_horizontally w l2) = Some x'" "x' + d \<le> win_width w - 10"
    using fit_horizontally_fits [OF l2(3,2)] by blast
  then show ?thesis using l2(1) by (auto simp: layoutRelativeTo_def Let_def fit_vertically_def)
qed

definition plain_layout :: panel_layout where
  "plain_layout = \<lparr>l_top = None, l_left = None, l_width = Some 200, l_height = Some 100, l_movedX = False, l_movedY = False,
     l_centerX = None, l_centerY = None, l_zIndex = None\<rparr>"

definition small_window :: page where
  "small_window = \<lparr>win_width = 800, win_height = 600\<rparr>"

theorem panel_fits_window_witness:
  "\<exists>l' x. layoutRelativeTo small_window None \<lparr>a_top = 300, a_left = 700, a_width = 50, a_height = 20\<rparr> POSITION_BELOW plain_layout = Inr l'
     \<and> l_left l' = Some x \<and> x + 200 \<le> 790"
proof -
  have "has POSITION_BELOW (POSITION_BELOW OR POSITION_ABOVE)" by (simp add: has_def position_defs)
  then show ?thesis
    using panel_fits_window [of POSITION_BELOW plain_layout 200 small_window None "\<lparr>a_top = 300, a_left = 700, a_width = 50, a_height = 20\<rparr>"]
    by (auto simp: plain_layout_def small_window_def)
qed

section \<open>The sides of a popover\<close>

text \<open>Every named side is a single bit; a position names one side when exactly one of the four bits is set.\<close>

lemma side_bit: "k < 32 \<Longrightarrow> bit (push_bit k 1 :: pos_bits) n \<longleftrightarrow> n = k"
  by (auto simp: bit_exp_iff)

lemma side_has: "has p (push_bit k 1) \<longleftrightarrow> bit p k"
  by (simp add: has_def push_bit_of_1 and_exp_eq_0_iff_not_bit)

lemma position_bits:
  "bit POSITION_BELOW n \<longleftrightarrow> n = 0" "bit POSITION_RIGHT n \<longleftrightarrow> n = 1" "bit POSITION_LEFT n \<longleftrightarrow> n = 2"
  "bit POSITION_ABOVE n \<longleftrightarrow> n = 3" "bit POSITION_MIDDLE n \<longleftrightarrow> n = 4"
  unfolding position_defs by (rule side_bit; simp)+

lemma has_bit:
  "has p POSITION_BELOW \<longleftrightarrow> bit p 0" "has p POSITION_RIGHT \<longleftrightarrow> bit p 1" "has p POSITION_LEFT \<longleftrightarrow> bit p 2"
  "has p POSITION_ABOVE \<longleftrightarrow> bit p 3" "has p POSITION_MIDDLE \<longleftrightarrow> bit p 4"
  unfolding position_defs by (rule side_has)+

definition one_side :: "pos_bits \<Rightarrow> bool" where
  "one_side p \<longleftrightarrow> length (filter (bit p) [0, 1, 2, 3]) = 1"

definition arrow_for :: "pos_bits \<Rightarrow> arrow" where
  "arrow_for p = (if bit p 3 then ArrowAbove else if bit p 0 then ArrowBelow else if bit p 2 then ArrowLeft else ArrowRight)"

text \<open>The side that \<open>other_side\<close> chooses is on the same axis.\<close>

lemma other_side_bits:
  assumes "one_side p"
  shows "one_side (other_side l p)" and "(bit (other_side l p) 2 \<or> bit (other_side l p) 1) = (bit p 2 \<or> bit p 1)"
  using assms
  by (auto simp: other_side_def Let_def one_side_def has_OR has_bit bit_xor_iff bit_or_iff position_bits split: if_splits)

lemma layoutRelativeTo_ok:
  assumes "one_side p" and "l_width l = Some d"
  shows "\<exists>l'. layoutRelativeTo w contentHeight a p l = Inr l' \<and> l_width l' = Some d"
proof -
  have "has p (POSITION_BELOW OR POSITION_ABOVE) \<or> has p (POSITION_RIGHT OR POSITION_LEFT)" "p \<noteq> 0"
    using assms(1) by (auto simp: one_side_def has_OR has_bit split: if_splits)
  moreover define l1 where "l1 = (if num_truthy contentHeight \<and> \<not> num_truthy (l_height l) then l\<lparr>l_height := contentHeight\<rparr> else l)"
  moreover have "l_width l1 = Some d" using assms(2) by (simp add: l1_def)
  ultimately obtain l2 where "place_at a p l1 = Inr l2" "l_width l2 = Some d"
    using place_at_ok [of p l1 d a] by auto
  then show ?thesis using \<open>p \<noteq> 0\<close> by (simp add: layoutRelativeTo_def Let_def l1_def)
qed

lemma arrow_shift_arrow: "one_side p \<Longrightarrow> snd (arrow_shift p l) = Some (arrow_for p)"
  by (auto simp: arrow_shift_def arrow_for_def one_side_def has_bit split: if_splits)

text \<open>
  C24: a popover that is asked for one side of its anchor ends up on one side of it: when it does not
  fit it moves to the opposite side, never to another axis, the arrow points from the side it
  really has, and no assertion fails.
\<close>

theorem popover_keeps_one_side:
  assumes "one_side p" and "l_width l = Some d"
  shows "\<exists>l' p'. popover_layoutRelativeTo w contentHeight a p l = Inr (l', p', Some (arrow_for p')) \<and> one_side p'
     \<and> (has p' (POSITION_LEFT OR POSITION_RIGHT) \<longleftrightarrow> has p (POSITION_LEFT OR POSITION_RIGHT))"
proof -
  obtain l1 where l1: "layoutRelativeTo w contentHeight a p l = Inr l1" "l_width l1 = Some d"
    using layoutRelativeTo_ok [OF assms] by blast
  show ?thesis
  proof (cases "l_movedX l1 \<or> l_movedY l1")
    case True
    let ?p = "other_side l1 p"
    have p: "one_side ?p" "has ?p (POSITION_LEFT OR POSITION_RIGHT) \<longleftrightarrow> has p (POSITION_LEFT OR POSITION_RIGHT)"
      using other_side_bits [OF assms(1), of l1] by (simp_all add: has_OR has_bit)
    obtain l2 where "layoutRelativeTo w contentHeight a ?p l1 = Inr l2"
      using layoutRelativeTo_ok [OF p(1) l1(2)] by blast
    then have "popover_layoutRelativeTo w contentHeight a p l = Inr (fst (arrow_shift ?p l2), ?p, Some (arrow_for ?p))"
      using l1(1) True arrow_shift_arrow [OF p(1), of l2]
      by (cases "arrow_shift ?p l2") (simp add: popover_layoutRelativeTo_def Let_def)
    then show ?thesis using p by blast
  next
    case False
    then have "popover_layoutRelativeTo w contentHeight a p l = Inr (fst (arrow_shift p l1), p, Some (arrow_for p))"
      using l1(1) arrow_shift_arrow [OF assms(1), of l1]
      by (cases "arrow_shift p l1") (simp add: popover_layoutRelativeTo_def Let_def)
    then show ?thesis using assms(1) by blast
  qed
qed

definition left_anchor :: anchor where
  "left_anchor = \<lparr>a_top = 300, a_left = 100, a_width = 50, a_height = 20\<rparr>"

theorem popover_keeps_one_side_witness:
  "\<exists>l' p'. popover_layoutRelativeTo small_window None left_anchor (POSITION_RIGHT OR POSITION_MIDDLE) plain_layout
       = Inr (l', p', Some (arrow_for p')) \<and> one_side p'"
proof -
  have "one_side (POSITION_RIGHT OR POSITION_MIDDLE)" by (simp add: one_side_def bit_or_iff position_bits)
  then show ?thesis
    using popover_keeps_one_side [of _ plain_layout 200] by (fastforce simp: plain_layout_def)
qed

text \<open>
  A popover that once had to change sides remembers it: \<open>movedX\<close> is set on the layout and never
  reset, so when it is shown again next to an anchor with enough room on the right, it still
  goes to the left.
\<close>

lemma reused_popover_changes_sides:
  assumes "l_movedX l" and "l_width l = Some 200" and "l_height l = Some 100" and "\<not> l_movedY l"
  shows "\<exists>l'. popover_layoutRelativeTo small_window None left_anchor POSITION_RIGHT l = Inr (l', POSITION_LEFT, Some ArrowLeft)
     \<and> layoutRelativeTo small_window None left_anchor POSITION_RIGHT (l\<lparr>l_movedX := False\<rparr>)
       = Inr (l\<lparr>l_top := Some 300, l_left := Some 150, l_movedX := False\<rparr>)"
  using assms
  by (simp add: popover_layoutRelativeTo_def layoutRelativeTo_def place_at_def fit_horizontally_def fit_vertically_def
      other_side_def arrow_shift_def has_def position_defs left_anchor_def small_window_def num_truthy_def Let_def)

section \<open>Showing and closing\<close>

record panel =
  p_isModal :: bool
  p_destroyOnClose :: bool
  p_isShown :: bool
  p_allowClosingByClickingOutside :: bool
  p_allowClosingByCancelButton :: bool
  p_layout :: panel_layout
  p_modalPane :: "int option"
  p_persistenceKey :: "string option"

text \<open>
  All panels of a page, by the number of their view, with what they share: the key responders,
  \<open>zIndexCounter\<close> and the \<open>panelLayouts\<close> entry of the local storage.  \<open>p_modalPane\<close> is the
  z-index of the modal pane while that is on the page.
\<close>

record 'x panels =
  ps_world :: "'x world"
  ps_panel :: "nat \<Rightarrow> panel"
  ps_zIndexCounter :: int
  ps_storage :: "string \<rightharpoonup> num \<times> num"

definition set_visible :: "bool \<Rightarrow> nat \<Rightarrow> 'x world \<Rightarrow> 'x world" where
  "set_visible b i w = w\<lparr>vprops_of := (vprops_of w)(i := vprops_of w i\<lparr>isVisible := b\<rparr>)\<rparr>"

definition restore_layout :: "(string \<rightharpoonup> num \<times> num) \<Rightarrow> panel \<Rightarrow> panel_layout \<Rightarrow> panel_layout" where
  "restore_layout store p l = (case p_persistenceKey p of
       None \<Rightarrow> l
     | Some k \<Rightarrow> (if k = [] then l else (case store k of
           None \<Rightarrow> l
         | Some (x, y) \<Rightarrow> l\<lparr>l_top := y, l_left := x, l_centerX := None, l_centerY := None\<rparr>)))"

text \<open>\<open>place\<close> is \<open>_layoutRelativeTo\<close> at the anchor, if one is given.\<close>

definition popup ::
  "'x hooks \<Rightarrow> (panel_layout \<Rightarrow> panel_layout result) option \<Rightarrow> view \<Rightarrow> 'x panels \<Rightarrow> 'x panels result" where
  "popup hook place v st =
     (let p = ps_panel st (vid v); z = ps_zIndexCounter st in
      if p_isShown p then Inr st
      else (let p1 = (if p_isModal p then p\<lparr>p_modalPane := Some z\<rparr> else p) in
        rbind (case place of None \<Rightarrow> Inr (p_layout p1) | Some f \<Rightarrow> f (p_layout p1)) (\<lambda>l.
        let w = set_visible True (vid v) (ps_world st) in
        rbind (if acceptsKeyResponder (vprops_of w (vid v)) then becomeKeyResponder hook False v w else Inr w) (\<lambda>w1.
        Inr (st\<lparr>ps_world := w1, ps_zIndexCounter := z + 100,
          ps_panel := (ps_panel st)(vid v := p1\<lparr>p_isShown := True,
             p_layout := restore_layout (ps_storage st) p1 (l\<lparr>l_zIndex := Some (z + 10)\<rparr>)\<rparr>)\<rparr>)))))"

definition destroy :: "nat \<Rightarrow> 'x world \<Rightarrow> 'x world" where
  "destroy i w = w\<lparr>vprops_of := (vprops_of w)(i := vprops_of w i\<lparr>v_isDestroyed := True\<rparr>)\<rparr>"

definition close :: "'x hooks \<Rightarrow> view \<Rightarrow> 'x panels \<Rightarrow> 'x panels result" where
  "close hook v st =
     (let p = ps_panel st (vid v) in
      if v_isDestroyed (vprops_of (ps_world st) (vid v)) \<or> \<not> p_isShown p then Inr st
      else (let p1 = (if p_isModal p then p\<lparr>p_modalPane := None\<rparr> else p);
                w = set_visible False (vid v) (ps_world st) in
        rbind (if acceptsKeyResponder (vprops_of w (vid v)) then resignKeyResponder hook w else Inr w) (\<lambda>w1.
        Inr (st\<lparr>ps_world := (if p_destroyOnClose p then destroy (vid v) w1 else w1),
          ps_zIndexCounter := ps_zIndexCounter st - 100,
          ps_panel := (ps_panel st)(vid v := p1\<lparr>p_isShown := False\<rparr>)\<rparr>))))"

text \<open>The handlers that close a panel, and the input that gets the focus once it is rendered.\<close>

definition modalPane_mouseDown :: "'x hooks \<Rightarrow> view \<Rightarrow> 'x panels \<Rightarrow> (bool \<times> 'x panels) result" where
  "modalPane_mouseDown hook v st =
     (if p_allowClosingByClickingOutside (ps_panel st (vid v))
      then rbind (close hook v st) (\<lambda>st1. Inr (True, st1)) else Inr (True, st))"

definition cancel :: "'x hooks \<Rightarrow> view \<Rightarrow> 'x panels \<Rightarrow> (bool \<times> 'x panels) result" where
  "cancel hook v st =
     (if p_allowClosingByCancelButton (ps_panel st (vid v))
      then rbind (close hook v st) (\<lambda>st1. Inr (True, st1)) else Inr (True, st))"

definition focusDefaultInput :: "'x hooks \<Rightarrow> view option \<Rightarrow> 'x panels \<Rightarrow> 'x panels result" where
  "focusDefaultInput hook defaultFocus st = (case defaultFocus of
       None \<Rightarrow> Inr st
     | Some d \<Rightarrow> rbind (becomeKeyResponder hook True d (ps_world st)) (\<lambda>w. Inr (st\<lparr>ps_world := w\<rparr>)))"

section \<open>Panels on top of each other\<close>

text \<open>What showing, focusing and closing never change of a view, and what they do to the key responders.\<close>

definition same_static :: "'x world \<Rightarrow> 'x world \<Rightarrow> bool" where
  "same_static w w' \<longleftrightarrow> (\<forall>n. acceptsKeyResponder (vprops_of w' n) = acceptsKeyResponder (vprops_of w n)
     \<and> v_isDisabled (vprops_of w' n) = v_isDisabled (vprops_of w n)
     \<and> v_isDestroyed (vprops_of w' n) = v_isDestroyed (vprops_of w n))"

lemma same_static_refl [simp]: "same_static w w"
  by (simp add: same_static_def)

lemma same_static_trans: "same_static w w1 \<Longrightarrow> same_static w1 w2 \<Longrightarrow> same_static w w2"
  by (simp add: same_static_def)

lemma same_static_set [simp]: "same_static w (set_focused b r w)" "same_static w (set_visible b i w)"
  by (cases r) (auto simp: same_static_def set_visible_def)

lemma key_stack_set_visible [simp]: "key_stack (set_visible b i w) = key_stack w"
  by (simp add: set_visible_def)

lemma same_static_props: "vprops_of w' = vprops_of w1 \<Longrightarrow> same_static w w1 \<Longrightarrow> same_static w w'"
  by (simp add: same_static_def)

context responder_hooks
begin

lemma become_pushes:
  assumes "acceptsKeyResponder (vprops_of w (vid v))" and "\<not> v_isDisabled (vprops_of w (vid v))"
  shows "\<exists>w'. becomeKeyResponder hook False v w = Inr w' \<and> key_stack w' = key_stack w @ [ViewR v] \<and> same_static w w'"
proof -
  obtain i p where v: "v = View i p" by (cases v)
  have "same_static w (push hook (Some (ViewR v)) w)"
    by (rule same_static_props [OF props_push]) (rule same_static_set)
  then show ?thesis using assms v by simp
qed

lemma become_replaces:
  assumes "key_stack w \<noteq> []"
  shows "\<exists>w'. becomeKeyResponder hook True d w = Inr w' \<and> length (key_stack w') = length (key_stack w)
     \<and> butlast (key_stack w') = butlast (key_stack w) \<and> same_static w w'"
proof (induction d)
  case (View i p)
  show ?case
  proof (cases "acceptsKeyResponder (vprops_of w i) \<and> \<not> v_isDisabled (vprops_of w i)")
    case True
    let ?r = "ViewR (View i p)"
    show ?thesis
    proof (cases "current w = Some ?r")
      case True
      then show ?thesis using \<open>acceptsKeyResponder (vprops_of w i) \<and> \<not> v_isDisabled (vprops_of w i)\<close> by (simp add: replace_def)
    next
      case False
      then obtain w' where w': "replace hook (Some ?r) w = Inr w'" "key_stack w' = butlast (key_stack w) @ [?r]"
          "vprops_of w' = vprops_of (set_focused True ?r (case current w of None \<Rightarrow> w | Some c \<Rightarrow> set_focused False c w))"
        using replace_top by blast
      have "same_static w (set_focused True ?r (case current w of None \<Rightarrow> w | Some c \<Rightarrow> set_focused False c w))"
        by (rule same_static_trans [OF _ same_static_set(1)]) (simp split: option.splits)
      then have "same_static w w'" by (rule same_static_props [OF w'(3)])
      then show ?thesis using w' True assms by simp
    qed
  next
    case False
    then show ?thesis using View by (cases p) auto
  qed
qed

lemma resign_pops:
  assumes "key_stack w \<noteq> []"
  shows "\<exists>w'. resignKeyResponder hook w = Inr w' \<and> key_stack w' = butlast (key_stack w) \<and> same_static w w'"
proof -
  have "key_stack w = butlast (key_stack w) @ [last (key_stack w)]" using assms by simp
  then obtain w' where w': "pop hook w = Inr (Some (last (key_stack w)), w')" "key_stack w' = butlast (key_stack w)"
      "vprops_of w' = vprops_of (set_focused False (last (key_stack w)) w)"
    using pop_top by blast
  have "same_static w w'" by (rule same_static_props [OF w'(3)]) simp
  then show ?thesis using w'(1,2) by (simp add: resignKeyResponder_def)
qed

end

text \<open>
  The panels of a page as they are used: a panel is shown unless it was destroyed, some view takes
  the focus while a panel is open, and the panel that was opened last is closed first.  The list
  holds the open panels in the order in which they were opened.
\<close>

inductive nested :: "'x hooks \<Rightarrow> 'x panels \<Rightarrow> view list \<Rightarrow> 'x panels \<Rightarrow> bool" for hook st0 where
  nothing_open: "nested hook st0 [] st0"
| open_panel: "nested hook st0 vs st \<Longrightarrow> acceptsKeyResponder (vprops_of (ps_world st) (vid v)) \<Longrightarrow>
     \<not> v_isDisabled (vprops_of (ps_world st) (vid v)) \<Longrightarrow> \<not> v_isDestroyed (vprops_of (ps_world st) (vid v)) \<Longrightarrow>
     popup hook place v st = Inr st' \<Longrightarrow>
     nested hook st0 (if p_isShown (ps_panel st (vid v)) then vs else vs @ [v]) st'"
| focus_in_panel: "nested hook st0 vs st \<Longrightarrow> vs \<noteq> [] \<Longrightarrow> focusDefaultInput hook d st = Inr st' \<Longrightarrow> nested hook st0 vs st'"
| close_last: "nested hook st0 (vs @ [v]) st \<Longrightarrow> close hook v st = Inr st' \<Longrightarrow> nested hook st0 vs st'"

definition z_of :: "'x panels \<Rightarrow> view \<Rightarrow> int option" where
  "z_of st v = l_zIndex (p_layout (ps_panel st (vid v)))"

text \<open>The invariant of nested panels over a start state \<open>st0\<close> in which none is shown.\<close>

definition stacked :: "'x panels \<Rightarrow> view list \<Rightarrow> 'x panels \<Rightarrow> bool" where
  "stacked st0 vs st \<longleftrightarrow>
     ps_zIndexCounter st = ps_zIndexCounter st0 + 100 * int (length vs)
   \<and> distinct (map vid vs)
   \<and> (\<forall>i < length vs. p_isShown (ps_panel st (vid (vs ! i)))
        \<and> z_of st (vs ! i) = Some (ps_zIndexCounter st0 + 100 * int i + 10)
        \<and> p_modalPane (ps_panel st (vid (vs ! i))) =
            (if p_isModal (ps_panel st (vid (vs ! i))) then Some (ps_zIndexCounter st0 + 100 * int i) else None))
   \<and> (\<forall>n. n \<notin> vid ` set vs \<longrightarrow> \<not> p_isShown (ps_panel st n) \<and> p_modalPane (ps_panel st n) = None)
   \<and> (\<forall>v \<in> set vs. acceptsKeyResponder (vprops_of (ps_world st) (vid v)) \<and> \<not> v_isDestroyed (vprops_of (ps_world st) (vid v)))
   \<and> (\<exists>ks. key_stack (ps_world st) = key_stack (ps_world st0) @ ks \<and> length ks = length vs)"

definition none_shown :: "'x panels \<Rightarrow> bool" where
  "none_shown st \<longleftrightarrow> (\<forall>n. \<not> p_isShown (ps_panel st n) \<and> p_modalPane (ps_panel st n) = None)"

lemma restore_layout_zIndex [simp]: "l_zIndex (restore_layout store p l) = l_zIndex l"
  by (simp add: restore_layout_def split: option.splits prod.splits)

context responder_hooks
begin

lemma popup_new:
  assumes "popup hook place v st = Inr st'" and "\<not> p_isShown (ps_panel st (vid v))"
    and "acceptsKeyResponder (vprops_of (ps_world st) (vid v))" and "\<not> v_isDisabled (vprops_of (ps_world st) (vid v))"
  shows "ps_zIndexCounter st' = ps_zIndexCounter st + 100
    \<and> (\<forall>n. n \<noteq> vid v \<longrightarrow> ps_panel st' n = ps_panel st n)
    \<and> p_isShown (ps_panel st' (vid v)) \<and> z_of st' v = Some (ps_zIndexCounter st + 10)
    \<and> p_isModal (ps_panel st' (vid v)) = p_isModal (ps_panel st (vid v))
    \<and> p_modalPane (ps_panel st' (vid v)) =
        (if p_isModal (ps_panel st (vid v)) then Some (ps_zIndexCounter st) else p_modalPane (ps_panel st (vid v)))
    \<and> key_stack (ps_world st') = key_stack (ps_world st) @ [ViewR v] \<and> same_static (ps_world st) (ps_world st')"
proof -
  let ?w = "set_visible True (vid v) (ps_world st)"
  have acc: "acceptsKeyResponder (vprops_of ?w (vid v))" "\<not> v_isDisabled (vprops_of ?w (vid v))"
    using assms(3,4) by (simp_all add: set_visible_def)
  obtain w1 where w1: "becomeKeyResponder hook False v ?w = Inr w1" "key_stack w1 = key_stack ?w @ [ViewR v]" "same_static ?w w1"
    using become_pushes [OF acc] by blast
  have "same_static (ps_world st) w1" by (rule same_static_trans [OF _ w1(3)]) simp
  then show ?thesis
    using assms(1,2) acc(1) w1(1,2) by (auto simp: popup_def z_of_def Let_def split: option.splits)
qed

lemma popup_succeeds:
  assumes "acceptsKeyResponder (vprops_of (ps_world st) (vid v))" and "\<not> v_isDisabled (vprops_of (ps_world st) (vid v))"
  shows "\<exists>st'. popup hook None v st = Inr st'"
proof -
  let ?w = "set_visible True (vid v) (ps_world st)"
  have "acceptsKeyResponder (vprops_of ?w (vid v))" "\<not> v_isDisabled (vprops_of ?w (vid v))"
    using assms by (simp_all add: set_visible_def)
  then obtain w1 where "becomeKeyResponder hook False v ?w = Inr w1" using become_pushes by blast
  then show ?thesis by (simp add: popup_def Let_def)
qed

lemma close_shown:
  assumes "p_isShown (ps_panel st (vid v))" and "\<not> v_isDestroyed (vprops_of (ps_world st) (vid v))"
    and "acceptsKeyResponder (vprops_of (ps_world st) (vid v))" and "key_stack (ps_world st) \<noteq> []"
  shows "\<exists>st' w1. close hook v st = Inr st' \<and> ps_zIndexCounter st' = ps_zIndexCounter st - 100
    \<and> ps_panel st' = (ps_panel st)(vid v := (if p_isModal (ps_panel st (vid v)) then (ps_panel st (vid v))\<lparr>p_modalPane := None\<rparr>
         else ps_panel st (vid v))\<lparr>p_isShown := False\<rparr>)
    \<and> same_static (ps_world st) w1 \<and> key_stack w1 = butlast (key_stack (ps_world st))
    \<and> (ps_world st' = w1 \<or> ps_world st' = destroy (vid v) w1)"
proof -
  let ?w = "set_visible False (vid v) (ps_world st)"
  have acc: "acceptsKeyResponder (vprops_of ?w (vid v))" using assms(3) by (simp add: set_visible_def)
  have "key_stack ?w \<noteq> []" using assms(4) by simp
  then obtain w1 where w1: "resignKeyResponder hook ?w = Inr w1" "key_stack w1 = butlast (key_stack ?w)" "same_static ?w w1"
    using resign_pops by blast
  have "same_static (ps_world st) w1" by (rule same_static_trans [OF _ w1(3)]) simp
  then show ?thesis using assms(1,2) acc w1(1,2) by (auto simp: close_def Let_def)
qed

lemma stacked_open:
  assumes "stacked st0 vs st" and "popup hook place v st = Inr st'"
    and "acceptsKeyResponder (vprops_of (ps_world st) (vid v))" and "\<not> v_isDisabled (vprops_of (ps_world st) (vid v))"
    and "\<not> v_isDestroyed (vprops_of (ps_world st) (vid v))"
  shows "stacked st0 (if p_isShown (ps_panel st (vid v)) then vs else vs @ [v]) st'"
proof (cases "p_isShown (ps_panel st (vid v))")
  case True
  then show ?thesis using assms(1,2) by (simp add: popup_def)
next
  case False
  note new = popup_new [OF assms(2) False assms(3,4)]
  note sp = assms(1) [unfolded stacked_def]
  have fresh: "vid v \<notin> vid ` set vs" using sp False by (metis in_set_conv_nth image_iff)
  have old: "ps_panel st' (vid u) = ps_panel st (vid u)" if "u \<in> set vs" for u
    using new fresh that by (metis image_eqI)
  have "p_modalPane (ps_panel st (vid v)) = None" using sp fresh by blast
  then have panels: "\<forall>i < length (vs @ [v]). p_isShown (ps_panel st' (vid ((vs @ [v]) ! i)))
        \<and> z_of st' ((vs @ [v]) ! i) = Some (ps_zIndexCounter st0 + 100 * int i + 10)
        \<and> p_modalPane (ps_panel st' (vid ((vs @ [v]) ! i))) =
            (if p_isModal (ps_panel st' (vid ((vs @ [v]) ! i))) then Some (ps_zIndexCounter st0 + 100 * int i) else None)"
    using sp new old by (auto simp: nth_append z_of_def less_Suc_eq)
  have others: "\<forall>n. n \<notin> vid ` set (vs @ [v]) \<longrightarrow> \<not> p_isShown (ps_panel st' n) \<and> p_modalPane (ps_panel st' n) = None"
    using sp new by simp
  have static: "\<forall>u \<in> set (vs @ [v]). acceptsKeyResponder (vprops_of (ps_world st') (vid u)) \<and> \<not> v_isDestroyed (vprops_of (ps_world st') (vid u))"
    using sp new assms(3,5) by (auto simp: same_static_def)
  obtain ks where "key_stack (ps_world st) = key_stack (ps_world st0) @ ks" "length ks = length vs" using sp by blast
  then have "\<exists>ks. key_stack (ps_world st') = key_stack (ps_world st0) @ ks \<and> length ks = length (vs @ [v])"
    using new by (intro exI [of _ "ks @ [ViewR v]"]) simp
  then show ?thesis
    using False panels others static sp fresh new by (simp add: stacked_def)
qed

lemma stacked_focus:
  assumes "stacked st0 vs st" and "vs \<noteq> []" and "focusDefaultInput hook d st = Inr st'"
  shows "stacked st0 vs st'"
proof (cases d)
  case None
  then show ?thesis using assms by (simp add: focusDefaultInput_def)
next
  case (Some dv)
  obtain ks where ks: "key_stack (ps_world st) = key_stack (ps_world st0) @ ks" "length ks = length vs"
    using assms(1) by (auto simp: stacked_def)
  have ne: "ks \<noteq> []" using ks(2) assms(2) by auto
  then obtain w where w: "becomeKeyResponder hook True dv (ps_world st) = Inr w"
      "length (key_stack w) = length (key_stack (ps_world st))"
      "butlast (key_stack w) = butlast (key_stack (ps_world st))" "same_static (ps_world st) w"
    using become_replaces [of "ps_world st" dv] ks(1) by auto
  have st': "st' = st\<lparr>ps_world := w\<rparr>" using assms(3) Some w(1) by (simp add: focusDefaultInput_def)
  have "key_stack w \<noteq> []" using w(2) ks(1) ne by auto
  then have "key_stack w = butlast (key_stack w) @ [last (key_stack w)]" by simp
  also have "\<dots> = key_stack (ps_world st0) @ butlast ks @ [last (key_stack w)]"
    using w(3) ks(1) ne by (simp add: butlast_append)
  finally have "\<exists>ks'. key_stack w = key_stack (ps_world st0) @ ks' \<and> length ks' = length vs"
    using ks(2) assms(2) by (intro exI [of _ "butlast ks @ [last (key_stack w)]"]) (cases vs, auto)
  then show ?thesis using assms(1) w(4) st' by (simp add: stacked_def same_static_def z_of_def)
qed

lemma stacked_close:
  assumes "stacked st0 (vs @ [v]) st" and "close hook v st = Inr st'"
  shows "stacked st0 vs st'"
proof -
  note sp = assms(1) [unfolded stacked_def]
  have v: "p_isShown (ps_panel st (vid v))" "\<not> v_isDestroyed (vprops_of (ps_world st) (vid v))"
      "acceptsKeyResponder (vprops_of (ps_world st) (vid v))"
    using sp by (auto simp: nth_append)
  obtain ks where ks: "key_stack (ps_world st) = key_stack (ps_world st0) @ ks" "length ks = Suc (length vs)"
    using sp by auto
  have "key_stack (ps_world st) \<noteq> []" using ks by auto
  then obtain w1 where st': "ps_zIndexCounter st' = ps_zIndexCounter st - 100"
      "ps_panel st' = (ps_panel st)(vid v := (if p_isModal (ps_panel st (vid v)) then (ps_panel st (vid v))\<lparr>p_modalPane := None\<rparr>
         else ps_panel st (vid v))\<lparr>p_isShown := False\<rparr>)"
      "same_static (ps_world st) w1" "key_stack w1 = butlast (key_stack (ps_world st))"
      "ps_world st' = w1 \<or> ps_world st' = destroy (vid v) w1"
    using close_shown [OF v] assms(2) by auto
  have fresh: "vid v \<notin> vid ` set vs" "distinct (map vid vs)" using sp by auto
  have ne: "vid u \<noteq> vid v" if "u \<in> set vs" for u using fresh(1) that by (metis image_eqI)
  have panels: "\<forall>i < length vs. p_isShown (ps_panel st' (vid (vs ! i)))
        \<and> z_of st' (vs ! i) = Some (ps_zIndexCounter st0 + 100 * int i + 10)
        \<and> p_modalPane (ps_panel st' (vid (vs ! i))) =
            (if p_isModal (ps_panel st' (vid (vs ! i))) then Some (ps_zIndexCounter st0 + 100 * int i) else None)"
  proof (intro allI impI)
    fix i assume "i < length vs"
    then show "p_isShown (ps_panel st' (vid (vs ! i)))
        \<and> z_of st' (vs ! i) = Some (ps_zIndexCounter st0 + 100 * int i + 10)
        \<and> p_modalPane (ps_panel st' (vid (vs ! i))) =
            (if p_isModal (ps_panel st' (vid (vs ! i))) then Some (ps_zIndexCounter st0 + 100 * int i) else None)"
      using sp [THEN conjunct2, THEN conjunct2, THEN conjunct1, rule_format, of i] ne [of "vs ! i"] st'(2)
      by (simp add: nth_append z_of_def)
  qed
  have "p_modalPane (ps_panel st (vid v)) = None" if "\<not> p_isModal (ps_panel st (vid v))"
    using sp that by (auto simp: nth_append)
  then have others: "\<forall>n. n \<notin> vid ` set vs \<longrightarrow> \<not> p_isShown (ps_panel st' n) \<and> p_modalPane (ps_panel st' n) = None"
    using sp st'(2) by auto
  have static: "\<forall>u \<in> set vs. acceptsKeyResponder (vprops_of (ps_world st') (vid u)) \<and> \<not> v_isDestroyed (vprops_of (ps_world st') (vid u))"
    using sp st'(3,5) ne by (auto simp: same_static_def destroy_def)
  have "key_stack (ps_world st') = key_stack w1" using st'(5) by (auto simp: destroy_def)
  then have "\<exists>ks'. key_stack (ps_world st') = key_stack (ps_world st0) @ ks' \<and> length ks' = length vs"
    using st'(4) ks by (intro exI [of _ "butlast ks"]) (cases "ks = []", simp_all add: butlast_append)
  moreover have "ps_zIndexCounter st' = ps_zIndexCounter st0 + 100 * int (length vs)" using sp st'(1) by simp
  ultimately show ?thesis unfolding stacked_def using panels others static fresh(2) by blast
qed

lemma nested_stacked:
  assumes "nested hook st0 vs st" and "none_shown st0"
  shows "stacked st0 vs st"
  using assms(1)
proof (induction rule: nested.induct)
  case nothing_open
  then show ?case using assms(2) by (simp add: stacked_def none_shown_def)
next
  case open_panel
  show ?case by (rule stacked_open [OF open_panel.IH open_panel.hyps(5,2,3,4)])
next
  case focus_in_panel
  show ?case by (rule stacked_focus [OF focus_in_panel.IH focus_in_panel.hyps(2,3)])
next
  case close_last
  show ?case by (rule stacked_close [OF close_last.IH close_last.hyps(2)])
qed

end

text \<open>
  C20: panels that are closed in the reverse order of opening lie on top of each other.  However
  panels are opened, focused and closed that way, each open panel is above every panel opened
  before it, the modal pane of a modal panel lies between the two, and the z-index counter and the
  height of the key responder stack are what they were plus one step per open panel; with no panel
  open the key responders are those of before.
\<close>

theorem nested_panels_stack:
  assumes "nested focus_hooks st0 vs st" and "none_shown st0"
  shows "(\<forall>i j. i < j \<longrightarrow> j < length vs \<longrightarrow> (\<exists>zi zj. z_of st (vs ! i) = Some zi \<and> z_of st (vs ! j) = Some zj \<and> zi < zj
       \<and> (p_isModal (ps_panel st (vid (vs ! j))) \<longrightarrow>
            (\<exists>m. p_modalPane (ps_panel st (vid (vs ! j))) = Some m \<and> zi < m \<and> m < zj))))
   \<and> ps_zIndexCounter st = ps_zIndexCounter st0 + 100 * int (length vs)
   \<and> take (length (key_stack (ps_world st0))) (key_stack (ps_world st)) = key_stack (ps_world st0)
   \<and> length (key_stack (ps_world st)) = length (key_stack (ps_world st0)) + length vs"
proof -
  note sp = focus.nested_stacked [OF assms, unfolded stacked_def]
  then show ?thesis by auto
qed

definition modal_panel :: panel where
  "modal_panel = \<lparr>p_isModal = True, p_destroyOnClose = False, p_isShown = False, p_allowClosingByClickingOutside = True,
     p_allowClosingByCancelButton = False, p_layout = plain_layout, p_modalPane = None, p_persistenceKey = None\<rparr>"

definition some_panels :: "unit panels" where
  "some_panels = \<lparr>ps_world = \<lparr>key_stack = [], mouse_current = None,
       vprops_of = (\<lambda>_. \<lparr>acceptsKeyResponder = True, v_isDisabled = False, isVisible = False, inDOM = False,
          v_isDestroyed = False, isFocused = False\<rparr>), blurred = [], focus_timers = [], app = ()\<rparr>,
     ps_panel = (\<lambda>_. modal_panel), ps_zIndexCounter = 100, ps_storage = Map.empty\<rparr>"

theorem nested_panels_stack_witness:
  "\<exists>st. nested focus_hooks some_panels [View 1 None, View 2 None] st \<and> ps_zIndexCounter st = 300
     \<and> (\<exists>z1 z2. z_of st (View 1 None) = Some z1 \<and> z_of st (View 2 None) = Some z2 \<and> z1 < z2)"
proof -
  let ?a = "View 1 None" and ?b = "View 2 None"
  have ok: "acceptsKeyResponder (vprops_of (ps_world some_panels) n)" "\<not> v_isDisabled (vprops_of (ps_world some_panels) n)"
      "\<not> v_isDestroyed (vprops_of (ps_world some_panels) n)" "\<not> p_isShown (ps_panel some_panels n)" for n
    by (simp_all add: some_panels_def modal_panel_def)
  have none: "none_shown some_panels" by (simp add: none_shown_def some_panels_def modal_panel_def)
  obtain st1 where st1: "popup focus_hooks None ?a some_panels = Inr st1" using focus.popup_succeeds ok by blast
  note n1 = focus.popup_new [OF st1 ok(4,1,2)]
  have ok1: "acceptsKeyResponder (vprops_of (ps_world st1) n)" "\<not> v_isDisabled (vprops_of (ps_world st1) n)"
      "\<not> v_isDestroyed (vprops_of (ps_world st1) n)" for n
    using n1 ok by (simp_all add: same_static_def)
  have b: "\<not> p_isShown (ps_panel st1 (vid ?b))" using n1 ok(4) by simp
  obtain st2 where st2: "popup focus_hooks None ?b st1 = Inr st2" using focus.popup_succeeds ok1 by blast
  have "nested focus_hooks some_panels [?a] st1"
    using open_panel [OF nothing_open ok(1,2,3) st1] ok(4) by simp
  then have n: "nested focus_hooks some_panels [?a, ?b] st2" using open_panel [OF _ ok1 st2, of some_panels "[?a]"] b by simp
  then show ?thesis using nested_panels_stack [OF n none] by (fastforce simp: some_panels_def)
qed

text \<open>
  Closing in another order breaks the stack: with panels 1 and 2 open, closing panel 1 takes the
  key responder of panel 2 off the stack, and the next panel is given the z-index that panel 2
  has, so its modal pane lies below panel 2 and does not cover it.
\<close>

theorem unordered_closing_confuses_panels:
  "(case rbind (popup focus_hooks None (View 1 None) some_panels) (\<lambda>st1.
         rbind (popup focus_hooks None (View 2 None) st1) (\<lambda>st2.
         rbind (close focus_hooks (View 1 None) st2) (\<lambda>st3.
         rbind (popup focus_hooks None (View 3 None) st3) (\<lambda>st4. Inr (st3, st4))))) of
      Inr (st3, st4) \<Rightarrow> (key_stack (ps_world st3), z_of st4 (View 2 None), z_of st4 (View 3 None), p_modalPane (ps_panel st4 3))
    | Inl e \<Rightarrow> ([], None, None, None))
   = ([ViewR (View 1 None)], Some 210, Some 210, Some 200)"
  by code_simp

section \<open>Moving a panel by its title\<close>

text \<open>
  The title view.  \<open>tv_newX\<close> and \<open>tv_newY\<close> are fields of the state object, undefined until the
  first mouse move.  \<open>tv_offset\<close> is where the panel is on the page (left, top), \<open>tv_size\<close> its
  width and height.
\<close>

datatype title_state = TitleIdle | TitleMoving

record title =
  tv_allowMoving :: bool
  tv_key :: "string option"
  tv_storage :: "string \<rightharpoonup> num \<times> num"
  tv_offset :: "rat \<times> rat"
  tv_size :: "rat \<times> rat"
  tv_window :: page
  tv_pageX :: num
  tv_pageY :: num
  tv_panelX :: num
  tv_panelY :: num
  tv_frame :: "(rat \<times> rat) \<times> page"
  tv_newX :: num
  tv_newY :: num
  tv_css :: "(num \<times> num) option"

definition ev_num :: "int option \<Rightarrow> num" where
  "ev_num x = map_option rat_of_int x"

definition moving_enterState :: "(title_state, title) hook" where
  "moving_enterState c = Inr (upd (\<lambda>t. t\<lparr>tv_frame := (tv_size t, tv_window t)\<rparr>) c)"

definition moving_exitState :: "(title_state, title) hook" where
  "moving_exitState c = Inr (upd (\<lambda>t. case tv_key t of
       None \<Rightarrow> t
     | Some k \<Rightarrow> (if k = [] then t else t\<lparr>tv_storage := (tv_storage t)(k \<mapsto> (tv_newX t, tv_newY t))\<rparr>)) c)"

fun title_hooks :: "title_state \<Rightarrow> (title_state, title, ui_event) owner_prop" where
  "title_hooks TitleIdle = AState \<lparr>enterState = None, exitState = None, methods = []\<rparr>"
| "title_hooks TitleMoving = AState \<lparr>enterState = Some moving_enterState, exitState = Some moving_exitState, methods = []\<rparr>"

abbreviation title_goto :: "title_state \<Rightarrow> (title_state, title) hook" where
  "title_goto n \<equiv> gotoFlameState title_hooks (Some n)"

definition title_mouseDown :: "ui_event \<Rightarrow> (title_state, title) owner \<Rightarrow> (title_state, title) owner result" where
  "title_mouseDown e c =
     (if \<not> tv_allowMoving (ownerData c) then Inr c
      else title_goto TitleMoving (upd (\<lambda>t. t\<lparr>tv_pageX := ev_num (pageX e), tv_pageY := ev_num (pageY e),
             tv_panelX := Some (fst (tv_offset t)), tv_panelY := Some (snd (tv_offset t))\<rparr>) c))"

definition constrain :: "num \<Rightarrow> rat \<Rightarrow> rat \<Rightarrow> num" where
  "constrain x window extent = map_option (\<lambda>x. max 5 (min x (window - extent - 5))) x"

definition title_mouseMove :: "ui_event \<Rightarrow> (title_state, title) owner \<Rightarrow> (title_state, title) owner result" where
  "title_mouseMove e c = Inr (upd (\<lambda>t.
     let newX = num2 (+) (tv_panelX t) (num2 (-) (ev_num (pageX e)) (tv_pageX t));
         newY = num2 (+) (tv_panelY t) (num2 (-) (ev_num (pageY e)) (tv_pageY t));
         ((wd, ht), win) = tv_frame t;
         x = constrain newX (win_width win) wd; y = constrain newY (win_height win) ht
     in t\<lparr>tv_newX := x, tv_newY := y, tv_css := Some (x, y)\<rparr>) c)"

text \<open>Both statecharts have the same handlers: a touch is handled like the mouse after normalisation.\<close>

type_synonym ('n, 'x) mouse_handler = "ui_event \<Rightarrow> ('n, 'x) owner \<Rightarrow> ('n, 'x) owner result"

definition by_mouse :: "('n, 'x) mouse_handler \<Rightarrow> ('n, 'x, ui_event) state_method" where
  "by_mouse f args c = (case args of [] \<Rightarrow> Inl TypeError | e # _ \<Rightarrow> rbind (f e c) (\<lambda>c'. Inr (RBool True, c')))"

definition by_touch :: "('n, 'x) mouse_handler \<Rightarrow> ('n, 'x, ui_event) state_method" where
  "by_touch f args c = (case args of [] \<Rightarrow> Inl TypeError
     | e # _ \<Rightarrow> rbind (normalizeTouchEvents e) (\<lambda>e'. rbind (f e' c) (\<lambda>c'. Inr (RBool True, c'))))"

fun title_methods :: "title_state \<Rightarrow> (string \<times> (title_state, title, ui_event) state_method) list" where
  "title_methods TitleIdle = [(''mouseDown'', by_mouse title_mouseDown), (''touchStart'', by_touch title_mouseDown)]"
| "title_methods TitleMoving = [(''mouseMove'', by_mouse title_mouseMove), (''touchMove'', by_touch title_mouseMove),
     (''mouseUp'', by_mouse (\<lambda>_. title_goto TitleIdle)), (''touchEnd'', by_mouse (\<lambda>_. title_goto TitleIdle))]"

text \<open>The thumb in the corner that resizes the panel.\<close>

datatype resize_state = ResizeIdle | Resizing

record thumb =
  rz_isResizable :: bool
  rz_minWidth :: rat
  rz_minHeight :: rat
  rz_isResizing :: bool
  rz_size :: "rat \<times> rat"
  rz_pageX :: num
  rz_pageY :: num
  rz_startW :: num
  rz_startH :: num
  rz_css :: "(num \<times> num) option"

definition set_isResizing :: "bool \<Rightarrow> (resize_state, thumb) hook" where
  "set_isResizing b c = Inr (upd (\<lambda>t. t\<lparr>rz_isResizing := b\<rparr>) c)"

fun thumb_hooks :: "resize_state \<Rightarrow> (resize_state, thumb, ui_event) owner_prop" where
  "thumb_hooks ResizeIdle = AState \<lparr>enterState = Some (set_isResizing False), exitState = None, methods = []\<rparr>"
| "thumb_hooks Resizing = AState \<lparr>enterState = Some (set_isResizing True), exitState = None, methods = []\<rparr>"

abbreviation thumb_goto :: "resize_state \<Rightarrow> (resize_state, thumb) hook" where
  "thumb_goto n \<equiv> gotoFlameState thumb_hooks (Some n)"

definition thumb_mouseDown :: "(resize_state, thumb) mouse_handler" where
  "thumb_mouseDown e c =
     (if \<not> rz_isResizable (ownerData c) then Inr c
      else thumb_goto Resizing (upd (\<lambda>t. t\<lparr>rz_pageX := ev_num (pageX e), rz_pageY := ev_num (pageY e),
             rz_startW := Some (fst (rz_size t)), rz_startH := Some (snd (rz_size t))\<rparr>) c))"

definition thumb_mouseMove :: "(resize_state, thumb) mouse_handler" where
  "thumb_mouseMove e c = Inr (upd (\<lambda>t.
     let newW = num2 (+) (rz_startW t) (num2 (-) (ev_num (pageX e)) (rz_pageX t));
         newH = num2 (+) (rz_startH t) (num2 (-) (ev_num (pageY e)) (rz_pageY t))
     in t\<lparr>rz_css := Some (map_option (max (rz_minWidth t)) newW, map_option (max (rz_minHeight t)) newH)\<rparr>) c)"

fun thumb_methods :: "resize_state \<Rightarrow> (string \<times> (resize_state, thumb, ui_event) state_method) list" where
  "thumb_methods ResizeIdle = [(''mouseDown'', by_mouse thumb_mouseDown), (''touchStart'', by_touch thumb_mouseDown)]"
| "thumb_methods Resizing = [(''mouseMove'', by_mouse thumb_mouseMove), (''touchMove'', by_touch thumb_mouseMove),
     (''mouseUp'', by_mouse (\<lambda>_. thumb_goto ResizeIdle)), (''touchEnd'', by_mouse (\<lambda>_. thumb_goto ResizeIdle))]"

text \<open>Any sequence of named events sent to such a view.\<close>

fun run_events ::
  "('n \<Rightarrow> ('n, 'x, ui_event) owner_prop) \<Rightarrow> (string \<times> ui_event) list \<Rightarrow> ('n, 'x) owner \<Rightarrow> ('n, 'x) owner result" where
  "run_events get [] c = Inr c"
| "run_events get ((m, e) # es) c =
     rbind (invokeStateMethod get no_key m [e] c) (\<lambda>(_, c'). run_events get es c')"

section \<open>Moving and resizing\<close>

text \<open>
  What the two statecharts share: \<open>inv\<close> is kept by every handler of every state, when the event
  carries its original event (every jQuery event does).
\<close>

locale mouse_chart =
  fixes hooks :: "'n \<Rightarrow> ('n, 'x, ui_event) owner_prop"
    and meths :: "'n \<Rightarrow> (string \<times> ('n, 'x, ui_event) state_method) list"
    and inv :: "('n, 'x) owner \<Rightarrow> bool"
  assumes is_state: "inv c \<Longrightarrow> \<exists>n s. currentFlameState c = Some n \<and> hooks n = AState s"
    and handler_kind: "(m, f) \<in> set (meths n) \<Longrightarrow> \<exists>g. (f = by_mouse g \<or> f = by_touch g)
      \<and> (\<forall>e c. inv c \<longrightarrow> currentFlameState c = Some n \<longrightarrow> (\<exists>c'. g e c = Inr c' \<and> inv c'))"
begin

lemma event_ok:
  assumes "inv c" and "originalEvent e \<noteq> None"
  shows "\<exists>r c'. invokeStateMethod (with_methods hooks meths) no_key m [e] c = Inr (r, c') \<and> inv c'"
proof -
  obtain n s where n: "currentFlameState c = Some n" "hooks n = AState s" using is_state [OF assms(1)] by blast
  show ?thesis
  proof (cases "map_of (meths n) m")
    case None
    then show ?thesis using n assms(1) by (simp add: invokeStateMethod_def with_methods_def no_key_def)
  next
    case (Some f)
    then obtain g where g: "f = by_mouse g \<or> f = by_touch g" "\<And>e. \<exists>c'. g e c = Inr c' \<and> inv c'"
      using handler_kind [OF map_of_SomeD] n(1) assms(1) by blast
    obtain orig where "originalEvent e = Some orig" using assms(2) by blast
    then obtain e' where "normalizeTouchEvents e = Inr e'" using normalizeTouchEvents_total by blast
    then have "\<exists>r c'. f [e] c = Inr (r, c') \<and> inv c'"
      using g(1) g(2) [of e] g(2) [of e'] by (auto simp: by_mouse_def by_touch_def)
    then show ?thesis using n Some by (simp add: invokeStateMethod_def with_methods_def)
  qed
qed

lemma run_events_ok:
  assumes "inv c" and "list_all (\<lambda>(m, e). originalEvent e \<noteq> None) es"
  shows "\<exists>c'. run_events (with_methods hooks meths) es c = Inr c' \<and> inv c'"
  using assms
proof (induction es arbitrary: c)
  case (Cons me es)
  obtain m e where me: "me = (m, e)" by (cases me)
  have "originalEvent e \<noteq> None" using Cons.prems(2) me by simp
  then obtain r c1 where "invokeStateMethod (with_methods hooks meths) no_key m [e] c = Inr (r, c1)" "inv c1"
    using event_ok [OF Cons.prems(1)] by blast
  then show ?case using Cons.IH [of c1] Cons.prems(2) me by auto
qed simp

end

definition fits_in :: "num \<Rightarrow> rat \<Rightarrow> rat \<Rightarrow> bool" where
  "fits_in x window extent = (case x of None \<Rightarrow> True | Some a \<Rightarrow> 5 \<le> a \<and> a + extent \<le> window - 5)"

definition title_ok :: "rat \<times> rat \<Rightarrow> page \<Rightarrow> (title_state, title) owner \<Rightarrow> bool" where
  "title_ok sz win c \<longleftrightarrow> currentFlameState c \<noteq> None \<and> tv_size (ownerData c) = sz \<and> tv_window (ownerData c) = win
     \<and> fst sz + 10 \<le> win_width win \<and> snd sz + 10 \<le> win_height win
     \<and> (currentFlameState c = Some TitleMoving \<longrightarrow> tv_frame (ownerData c) = (sz, win))
     \<and> (\<forall>x y. tv_css (ownerData c) = Some (x, y) \<longrightarrow> tv_newX (ownerData c) = x \<and> tv_newY (ownerData c) = y
          \<and> fits_in x (win_width win) (fst sz) \<and> fits_in y (win_height win) (snd sz))"

lemma fits_constrain: "extent + 10 \<le> window \<Longrightarrow> fits_in (constrain x window extent) window extent"
  by (cases x) (auto simp: fits_in_def constrain_def)

lemma title_mouseDown_ok:
  "title_ok sz win c \<Longrightarrow> currentFlameState c = Some TitleIdle \<Longrightarrow> \<exists>c'. title_mouseDown e c = Inr c' \<and> title_ok sz win c'"
  by (simp add: title_mouseDown_def title_ok_def gotoFlameState_def exit_current_def run_hook_def moving_enterState_def upd_def)

lemma title_mouseMove_ok:
  "title_ok sz win c \<Longrightarrow> currentFlameState c = Some TitleMoving \<Longrightarrow> \<exists>c'. title_mouseMove e c = Inr c' \<and> title_ok sz win c'"
  by (cases sz) (auto simp: title_mouseMove_def title_ok_def Let_def upd_def fits_constrain)

lemma title_mouseUp_ok:
  "title_ok sz win c \<Longrightarrow> currentFlameState c = Some TitleMoving \<Longrightarrow> \<exists>c'. title_goto TitleIdle c = Inr c' \<and> title_ok sz win c'"
  by (simp add: title_ok_def gotoFlameState_def exit_current_def run_hook_def moving_exitState_def upd_def split: option.splits)

interpretation title: mouse_chart title_hooks title_methods "title_ok sz win" for sz win
proof
  fix c assume "title_ok sz win c"
  then obtain n where "currentFlameState c = Some n" by (auto simp: title_ok_def)
  then show "\<exists>n s. currentFlameState c = Some n \<and> title_hooks n = AState s" by (cases n) auto
next
  fix m f n assume "(m, f) \<in> set (title_methods n)"
  then show "\<exists>g. (f = by_mouse g \<or> f = by_touch g)
      \<and> (\<forall>e c. title_ok sz win c \<longrightarrow> currentFlameState c = Some n \<longrightarrow> (\<exists>c'. g e c = Inr c' \<and> title_ok sz win c'))"
    using title_mouseDown_ok [of sz win] title_mouseMove_ok [of sz win] title_mouseUp_ok [of sz win]
    by (cases n) (auto; blast)+
qed

text \<open>
  C34: a panel cannot be dragged out of the window.  Whatever mouse and touch events its title gets,
  none throws, and whenever the panel was given a position it lies inside the window with five
  pixels to spare on every side, provided it fits into the window at all.
\<close>

theorem moved_panel_stays_in_window:
  assumes "currentFlameState c = Some TitleIdle" and "tv_css (ownerData c) = None"
    and "list_all (\<lambda>(m, e). originalEvent e \<noteq> None) es"
    and "fst (tv_size (ownerData c)) + 10 \<le> win_width (tv_window (ownerData c))"
    and "snd (tv_size (ownerData c)) + 10 \<le> win_height (tv_window (ownerData c))"
  shows "\<exists>c'. run_events (with_methods title_hooks title_methods) es c = Inr c'
     \<and> (\<forall>x y. tv_css (ownerData c') = Some (x, y) \<longrightarrow>
          fits_in x (win_width (tv_window (ownerData c))) (fst (tv_size (ownerData c)))
        \<and> fits_in y (win_height (tv_window (ownerData c))) (snd (tv_size (ownerData c))))"
proof -
  have "title_ok (tv_size (ownerData c)) (tv_window (ownerData c)) c" using assms by (simp add: title_ok_def)
  then obtain c' where "run_events (with_methods title_hooks title_methods) es c = Inr c'"
      "title_ok (tv_size (ownerData c)) (tv_window (ownerData c)) c'"
    using title.run_events_ok [OF _ assms(3)] by blast
  then show ?thesis by (auto simp: title_ok_def)
qed

definition some_title :: title where
  "some_title = \<lparr>tv_allowMoving = True, tv_key = Some ''main'', tv_storage = Map.empty, tv_offset = (100, 100), tv_size = (200, 100),
     tv_window = small_window, tv_pageX = None, tv_pageY = None, tv_panelX = None, tv_panelY = None,
     tv_frame = ((0, 0), small_window), tv_newX = None, tv_newY = None, tv_css = None\<rparr>"

definition mouse_at :: "int \<Rightarrow> int \<Rightarrow> ui_event" where
  "mouse_at x y = \<lparr>touches = None, pageX = Some x, pageY = Some y, screenX = None, screenY = None, clientX = None, clientY = None,
     originalEvent = Some \<lparr>touches = None, pageX = Some x, pageY = Some y, screenX = None, screenY = None, clientX = None, clientY = None\<rparr>\<rparr>"

theorem moved_panel_stays_in_window_witness:
  "\<exists>c'. run_events (with_methods title_hooks title_methods)
        [(''mouseDown'', mouse_at 110 105), (''mouseMove'', mouse_at 2000 (-50)), (''mouseUp'', mouse_at 2000 (-50))]
        \<lparr>currentFlameState = Some TitleIdle, ownerData = some_title\<rparr> = Inr c'
     \<and> (\<forall>x y. tv_css (ownerData c') = Some (x, y) \<longrightarrow> fits_in x 800 200 \<and> fits_in y 600 100)"
proof -
  let ?c = "\<lparr>currentFlameState = Some TitleIdle, ownerData = some_title\<rparr>"
  let ?es = "[(''mouseDown'', mouse_at 110 105), (''mouseMove'', mouse_at 2000 (-50)), (''mouseUp'', mouse_at 2000 (-50))]"
  have "currentFlameState ?c = Some TitleIdle" "tv_css (ownerData ?c) = None" "list_all (\<lambda>(m, e). originalEvent e \<noteq> None) ?es"
      "tv_size (ownerData ?c) = (200, 100)" "tv_window (ownerData ?c) = \<lparr>win_width = 800, win_height = 600\<rparr>"
    by (simp_all add: some_title_def small_window_def mouse_at_def)
  then show ?thesis using moved_panel_stays_in_window [of ?c ?es] by (simp del: run_events.simps)
qed

lemma popup_restores:
  assumes "popup hook place v st = Inr st'" and "\<not> p_isShown (ps_panel st (vid v))"
  shows "\<exists>l p. p_layout (ps_panel st' (vid v)) = restore_layout (ps_storage st) p l
     \<and> p_persistenceKey p = p_persistenceKey (ps_panel st (vid v))"
proof -
  let ?p = "if p_isModal (ps_panel st (vid v)) then (ps_panel st (vid v))\<lparr>p_modalPane := Some (ps_zIndexCounter st)\<rparr>
    else ps_panel st (vid v)"
  obtain l where "p_layout (ps_panel st' (vid v)) = restore_layout (ps_storage st) ?p l"
    using assms unfolding popup_def Let_def by auto
  then show ?thesis by (intro exI [of _ l] exI [of _ ?p]) simp
qed

text \<open>
  A panel reopens where it was left.  After the title was dragged, the position that the last
  mouse move gave the panel is stored under its persistence key, and the next time a panel with
  that key is shown it gets exactly that position.
\<close>

theorem moved_panel_reopens_there:
  assumes "currentFlameState c = Some TitleMoving" and "tv_key (ownerData c) = Some k" and "k \<noteq> []"
    and "run_events (with_methods title_hooks title_methods) [(''mouseMove'', e), (''mouseUp'', e')] c = Inr c'"
    and "ps_storage st = tv_storage (ownerData c')" and "p_persistenceKey (ps_panel st (vid v)) = Some k"
    and "\<not> p_isShown (ps_panel st (vid v))" and "popup focus_hooks place v st = Inr st'"
  shows "\<exists>x y. tv_css (ownerData c') = Some (x, y)
     \<and> l_left (p_layout (ps_panel st' (vid v))) = x \<and> l_top (p_layout (ps_panel st' (vid v))) = y"
proof -
  have c': "\<exists>x y. tv_css (ownerData c') = Some (x, y) \<and> tv_storage (ownerData c') k = Some (x, y)"
    using assms(1-4)
    by (auto simp: invokeStateMethod_def with_methods_def by_mouse_def title_mouseMove_def gotoFlameState_def exit_current_def
        run_hook_def moving_exitState_def upd_def Let_def split: prod.splits)
  obtain l p where "p_layout (ps_panel st' (vid v)) = restore_layout (ps_storage st) p l" "p_persistenceKey p = Some k"
    using popup_restores [OF assms(8,7)] assms(6) by auto
  then show ?thesis using c' assms(3,5) by (auto simp: restore_layout_def)
qed

theorem moved_panel_reopens_there_witness:
  "\<exists>c' st'. run_events (with_methods title_hooks title_methods) [(''mouseMove'', mouse_at 50 60), (''mouseUp'', mouse_at 50 60)]
        \<lparr>currentFlameState = Some TitleMoving, ownerData = some_title\<rparr> = Inr c'
     \<and> popup focus_hooks None (View 1 None) (some_panels\<lparr>ps_panel := \<lambda>_. modal_panel\<lparr>p_persistenceKey := Some ''main''\<rparr>,
          ps_storage := tv_storage (ownerData c')\<rparr>) = Inr st'
     \<and> (\<exists>x y. tv_css (ownerData c') = Some (x, y) \<and> l_left (p_layout (ps_panel st' 1)) = x \<and> l_top (p_layout (ps_panel st' 1)) = y)"
proof -
  let ?c = "\<lparr>currentFlameState = Some TitleMoving, ownerData = some_title\<rparr>"
  let ?es = "[(''mouseMove'', mouse_at 50 60), (''mouseUp'', mouse_at 50 60)]"
  let ?p = "modal_panel\<lparr>p_persistenceKey := Some ''main''\<rparr>"
  obtain c' where c': "run_events (with_methods title_hooks title_methods) ?es ?c = Inr c'"
    by (simp add: invokeStateMethod_def with_methods_def by_mouse_def title_mouseMove_def gotoFlameState_def exit_current_def
        run_hook_def moving_exitState_def)
  let ?st = "some_panels\<lparr>ps_panel := \<lambda>_. ?p, ps_storage := tv_storage (ownerData c')\<rparr>"
  have ok: "acceptsKeyResponder (vprops_of (ps_world ?st) (vid (View 1 None)))" "\<not> v_isDisabled (vprops_of (ps_world ?st) (vid (View 1 None)))"
    by (simp_all add: some_panels_def)
  obtain st' where st': "popup focus_hooks None (View 1 None) ?st = Inr st'" using focus.popup_succeeds [OF ok] by blast
  have pre: "tv_key (ownerData ?c) = Some ''main''" "p_persistenceKey (ps_panel ?st (vid (View 1 None))) = Some ''main''"
      "\<not> p_isShown (ps_panel ?st (vid (View 1 None)))"
    by (simp_all add: some_title_def modal_panel_def)
  show ?thesis
    using moved_panel_reopens_there [OF _ pre(1) _ c' _ pre(2,3) st'] c' st' by (simp del: run_events.simps)
qed

text \<open>
  A click on the title forgets the position: without a mouse move in between, the exit of \<open>moving\<close>
  stores an undefined position, and the panel is shown without one the next time.
\<close>

theorem title_click_forgets_position:
  "(case run_events (with_methods title_hooks title_methods) [(''mouseDown'', mouse_at 110 105), (''mouseUp'', mouse_at 110 105)]
        \<lparr>currentFlameState = Some TitleIdle, ownerData = some_title\<rparr> of
      Inr c \<Rightarrow> tv_storage (ownerData c) ''main'' | Inl _ \<Rightarrow> None) = Some (None, None)"
  by (simp add: invokeStateMethod_def with_methods_def by_mouse_def title_mouseDown_def gotoFlameState_def exit_current_def
      run_hook_def moving_exitState_def moving_enterState_def upd_def some_title_def)

text \<open>\<open>isResizing\<close> follows the state, and a resized panel has at least its minimum size.\<close>

definition thumb_ok :: "rat \<Rightarrow> rat \<Rightarrow> (resize_state, thumb) owner \<Rightarrow> bool" where
  "thumb_ok mw mh c \<longleftrightarrow> currentFlameState c \<noteq> None \<and> rz_minWidth (ownerData c) = mw \<and> rz_minHeight (ownerData c) = mh
     \<and> rz_isResizing (ownerData c) = (currentFlameState c = Some Resizing)
     \<and> (\<forall>w h. rz_css (ownerData c) = Some (w, h) \<longrightarrow> (\<forall>a. w = Some a \<longrightarrow> mw \<le> a) \<and> (\<forall>a. h = Some a \<longrightarrow> mh \<le> a))"

lemma thumb_handlers_ok:
  "thumb_ok mw mh c \<Longrightarrow> currentFlameState c = Some ResizeIdle \<Longrightarrow> \<exists>c'. thumb_mouseDown e c = Inr c' \<and> thumb_ok mw mh c'"
  "thumb_ok mw mh c \<Longrightarrow> currentFlameState c = Some Resizing \<Longrightarrow> \<exists>c'. thumb_mouseMove e c = Inr c' \<and> thumb_ok mw mh c'"
  "thumb_ok mw mh c \<Longrightarrow> currentFlameState c = Some Resizing \<Longrightarrow> \<exists>c'. thumb_goto ResizeIdle c = Inr c' \<and> thumb_ok mw mh c'"
  by (auto simp: thumb_mouseDown_def thumb_mouseMove_def thumb_ok_def gotoFlameState_def exit_current_def run_hook_def
      set_isResizing_def upd_def Let_def)

interpretation thumb: mouse_chart thumb_hooks thumb_methods "thumb_ok mw mh" for mw mh
proof
  fix c assume "thumb_ok mw mh c"
  then obtain n where "currentFlameState c = Some n" by (auto simp: thumb_ok_def)
  then show "\<exists>n s. currentFlameState c = Some n \<and> thumb_hooks n = AState s" by (cases n) auto
next
  fix m f n assume "(m, f) \<in> set (thumb_methods n)"
  then show "\<exists>g. (f = by_mouse g \<or> f = by_touch g)
      \<and> (\<forall>e c. thumb_ok mw mh c \<longrightarrow> currentFlameState c = Some n \<longrightarrow> (\<exists>c'. g e c = Inr c' \<and> thumb_ok mw mh c'))"
    using thumb_handlers_ok [of mw mh] by (cases n) (auto; blast)+
qed

text \<open>
  A panel cannot be resized below its minimum.  Whatever events the thumb gets, none throws,
  \<open>isResizing\<close> is set exactly in the state \<open>resizing\<close>, and every size given to the panel is at
  least \<open>minWidth\<close> by \<open>minHeight\<close>.
\<close>

theorem resized_panel_keeps_minimum:
  assumes "currentFlameState c = Some ResizeIdle" and "\<not> rz_isResizing (ownerData c)" and "rz_css (ownerData c) = None"
    and "list_all (\<lambda>(m, e). originalEvent e \<noteq> None) es"
  shows "\<exists>c'. run_events (with_methods thumb_hooks thumb_methods) es c = Inr c'
     \<and> rz_isResizing (ownerData c') = (currentFlameState c' = Some Resizing)
     \<and> (\<forall>w h. rz_css (ownerData c') = Some (w, h) \<longrightarrow>
          (\<forall>a. w = Some a \<longrightarrow> rz_minWidth (ownerData c) \<le> a) \<and> (\<forall>a. h = Some a \<longrightarrow> rz_minHeight (ownerData c) \<le> a))"
proof -
  have "thumb_ok (rz_minWidth (ownerData c)) (rz_minHeight (ownerData c)) c" using assms by (simp add: thumb_ok_def)
  then obtain c' where "run_events (with_methods thumb_hooks thumb_methods) es c = Inr c'"
      "thumb_ok (rz_minWidth (ownerData c)) (rz_minHeight (ownerData c)) c'"
    using thumb.run_events_ok [OF _ assms(4)] by blast
  then show ?thesis unfolding thumb_ok_def by blast
qed

definition some_thumb :: thumb where
  "some_thumb = \<lparr>rz_isResizable = True, rz_minWidth = 100, rz_minHeight = 52, rz_isResizing = False, rz_size = (200, 100),
     rz_pageX = None, rz_pageY = None, rz_startW = None, rz_startH = None, rz_css = None\<rparr>"

theorem resized_panel_keeps_minimum_witness:
  "\<exists>c'. run_events (with_methods thumb_hooks thumb_methods) [(''mouseDown'', mouse_at 300 200), (''mouseMove'', mouse_at 0 0)]
        \<lparr>currentFlameState = Some ResizeIdle, ownerData = some_thumb\<rparr> = Inr c'
     \<and> rz_isResizing (ownerData c') = (currentFlameState c' = Some Resizing)"
proof -
  let ?c = "\<lparr>currentFlameState = Some ResizeIdle, ownerData = some_thumb\<rparr>"
  let ?es = "[(''mouseDown'', mouse_at 300 200), (''mouseMove'', mouse_at 0 0)]"
  have "currentFlameState ?c = Some ResizeIdle" "\<not> rz_isResizing (ownerData ?c)" "rz_css (ownerData ?c) = None"
      "list_all (\<lambda>(m, e). originalEvent e \<noteq> None) ?es"
    by (simp_all add: some_thumb_def mouse_at_def)
  then show ?thesis using resized_panel_keeps_minimum [of ?c ?es] by blast
qed

end
