(* ===== verification/Menu_View.thy ===== *)
theory Menu_View
  imports Flame_Prelude
begin

text \<open>
  Menus with submenus (\<open>views/menu_view.js\<close> and \<open>mixins/menu_view_support.js\<close>): highlighting by
  keyboard and mouse, opening and closing submenus, key search, the selection that every open
  submenu reports to its parents, making a selection, and the size of a menu in the window.
\<close>

section \<open>Menus\<close>

text \<open>
  An item of the menu: its title, value and action (\<open>None\<close> for null or undefined), whether its
  \<open>isEnabled\<close> is \<open>false\<close>, and the items of its submenu (\<open>None\<close> when it has none).
\<close>

datatype 'v menu_item = MenuItem (title: string) (mvalue: "'v option") (isDisabled: bool)
  (maction: "string option") (subMenuItems: "'v menu_item list option")

definition isEnabled :: "'v menu_item \<Rightarrow> bool" where
  "isEnabled i \<longleftrightarrow> \<not> (isDisabled i \<or> subMenuItems i = Some [])"

definition isSelectable :: "'v menu_item \<Rightarrow> bool" where
  "isSelectable i \<longleftrightarrow> isEnabled i \<and> (case subMenuItems i of None \<Rightarrow> True | Some l \<Rightarrow> l = [])"

text \<open>
  \<open>isSel\<close> holds the \<open>isSelected\<close> fields of the menu items; \<open>internalSelection\<close> is \<open>None\<close> when
  \<open>isSet\<close> is false.  An open submenu hangs on the item that it belongs to (\<open>subMenuView\<close>).
\<close>

record 'v menu_data =
  mitems :: "'v menu_item list"
  isSel :: "bool list"
  highlightIndex :: int
  userHighlightIndex :: int
  internalSelection :: "'v menu_item option"
  searchKey :: string

datatype 'v menu = Menu (md: "'v menu_data") (subMenuViews: "'v menu option list")

text \<open>
  Every assignment of \<open>_internalSelection\<close> is passed on to the parent menus by an observer.  An
  operation on a menu returns the menu and the last selection it assigned, if any.
\<close>

type_synonym 'v report = "'v menu_item option option"
type_synonym 'v menu_op = "'v menu \<Rightarrow> 'v menu \<times> 'v report"

definition receive :: "'v report \<Rightarrow> 'v menu_data \<Rightarrow> 'v menu_data" where
  "receive r d = (case r of None \<Rightarrow> d | Some s \<Rightarrow> d\<lparr>internalSelection := s\<rparr>)"

definition later :: "'v report \<Rightarrow> 'v report \<Rightarrow> 'v report" where
  "later r r' = (case r' of None \<Rightarrow> r | Some s \<Rightarrow> r')"

section \<open>Highlighting\<close>

text \<open>
  \<open>closeSubMenu\<close>: closing a submenu sets its highlight to \<open>-1\<close>, which closes the submenus below it
  and, unless it was \<open>-1\<close> already, reports that nothing is selected.
\<close>

definition closing_report :: "'v menu option \<Rightarrow> 'v report" where
  "closing_report s = (case s of None \<Rightarrow> None | Some m \<Rightarrow> if highlightIndex (md m) = -1 then None else Some None)"

definition closeSubMenu :: "nat \<Rightarrow> 'v menu_op" where
  "closeSubMenu i m = (let r = closing_report (subMenuViews m ! i)
     in (Menu (receive r (md m)) ((subMenuViews m)[i := None]), r))"

text \<open>Setting \<open>_highlightIndex\<close>, with its two observers; setting the same value does nothing.\<close>

definition highlightWillChange :: "'v menu \<Rightarrow> 'v menu" where
  "highlightWillChange m = (case objectAt_int (mitems (md m)) (highlightIndex (md m)) of
       None \<Rightarrow> m
     | Some _ \<Rightarrow> (let i = nat (highlightIndex (md m)) in
         fst (closeSubMenu i (Menu (md m\<lparr>isSel := (isSel (md m))[i := False]\<rparr>) (subMenuViews m)))))"

definition highlightDidChange :: "'v menu_op" where
  "highlightDidChange m =
     (let d = md m; h = highlightIndex d;
          sel = (case objectAt_int (mitems d) h of None \<Rightarrow> None | Some i \<Rightarrow> if isSelectable i then Some i else None);
          fl = (case objectAt_int (mitems d) h of None \<Rightarrow> isSel d | Some _ \<Rightarrow> (isSel d)[nat h := True])
      in (Menu (d\<lparr>isSel := fl, internalSelection := sel\<rparr>) (subMenuViews m), Some sel))"

definition set_highlight :: "int \<Rightarrow> 'v menu_op" where
  "set_highlight j m =
     (if j = highlightIndex (md m) then (m, None)
      else (let m1 = highlightWillChange m
            in highlightDidChange (Menu (md m1\<lparr>highlightIndex := j\<rparr>) (subMenuViews m1))))"

definition set_userHighlight :: "int \<Rightarrow> 'v menu_op" where
  "set_userHighlight j m =
     (if j = userHighlightIndex (md m) then (m, None)
      else set_highlight j (Menu (md m\<lparr>userHighlightIndex := j\<rparr>) (subMenuViews m)))"

definition clearKeySearch :: "'v menu \<Rightarrow> 'v menu" where
  "clearKeySearch m = Menu (md m\<lparr>searchKey := []\<rparr>) (subMenuViews m)"

text \<open>\<open>_selectNext\<close>: the loop runs over the indexes from the highlight on, in the given direction.\<close>

definition next_indexes :: "int \<Rightarrow> int \<Rightarrow> nat \<Rightarrow> nat list" where
  "next_indexes h increment len =
     (if increment = 1 then [nat (h + 1)..<len] else if nat h \<le> len then rev [0..<nat h] else [])"

definition next_enabled :: "'v menu_item list \<Rightarrow> nat list \<Rightarrow> nat option" where
  "next_enabled items is = find (\<lambda>i. isEnabled (items ! i)) is"

definition selectNext :: "int \<Rightarrow> 'v menu_op" where
  "selectNext increment m =
     (let d = md m;
          (m1, r) = (case next_enabled (mitems d) (next_indexes (highlightIndex d) increment (length (mitems d))) of
              None \<Rightarrow> (m, None) | Some i \<Rightarrow> set_highlight (int i) m)
      in (clearKeySearch m1, r))"

section \<open>Key search\<close>

definition lower :: "char \<Rightarrow> char" where
  "lower c = (let n = of_char c :: nat in if 65 \<le> n \<and> n \<le> 90 then char_of (n + 32) else c)"

text \<open>
  \<open>_findByName\<close> builds the regular expression \<open>^name\<close> with the special characters escaped and the
  flag \<open>i\<close>: a prefix test that ignores case (of ASCII letters here).
\<close>

fun prefix_ignoring_case :: "string \<Rightarrow> string \<Rightarrow> bool" where
  "prefix_ignoring_case [] t = True"
| "prefix_ignoring_case (x # xs) [] = False"
| "prefix_ignoring_case (x # xs) (y # ys) = (lower x = lower y \<and> prefix_ignoring_case xs ys)"

definition findIndex :: "('v menu_item \<Rightarrow> bool) \<Rightarrow> 'v menu_item list \<Rightarrow> nat option" where
  "findIndex P items = find (\<lambda>i. P (items ! i)) [0..<length items]"

definition findByName :: "string \<Rightarrow> 'v menu_item list \<Rightarrow> nat option" where
  "findByName name items = findIndex (\<lambda>i. prefix_ignoring_case name (title i)) items"

definition doKeySearch :: "char \<Rightarrow> 'v menu_op" where
  "doKeySearch key m =
     (let key' = searchKey (md m) @ [key]; m1 = Menu (md m\<lparr>searchKey := key'\<rparr>) (subMenuViews m)
      in case findByName key' (mitems (md m)) of None \<Rightarrow> (m1, None) | Some i \<Rightarrow> set_highlight (int i) m1)"

definition valueDidChange :: "'v option \<Rightarrow> 'v menu_op" where
  "valueDidChange v m = (case v of None \<Rightarrow> (m, None)
     | Some x \<Rightarrow> (case findIndex (\<lambda>i. mvalue i = Some x) (mitems (md m)) of
         None \<Rightarrow> (m, None) | Some i \<Rightarrow> set_highlight (int i) m))"

section \<open>Opening menus\<close>

text \<open>
  \<open>init\<close>: the items that carry the value are selected, and in a top-level menu each of them is
  highlighted in turn.  A submenu is created without a value.
\<close>

definition createMenu :: "'v option \<Rightarrow> 'v menu_item list \<Rightarrow> 'v menu" where
  "createMenu v items = Menu \<lparr>mitems = items, isSel = map (\<lambda>i. v \<noteq> None \<and> mvalue i = v) items, highlightIndex = -1,
     userHighlightIndex = -1, internalSelection = None, searchKey = []\<rparr> (replicate (length items) None)"

definition initMenu :: "'v option \<Rightarrow> 'v menu_item list \<Rightarrow> 'v menu" where
  "initMenu v items = fold (\<lambda>i m. fst (set_highlight (int i) m))
     (filter (\<lambda>i. v \<noteq> None \<and> mvalue (items ! i) = v) [0..<length items]) (createMenu v items)"

text \<open>
  \<open>_tryOpenSubmenu\<close>.  For a submenu that is open already it resets the user highlight; the reset of
  \<open>internalSelection\<close> names a property that no menu has.
\<close>

definition tryOpenSubmenu :: "bool \<Rightarrow> 'v menu_op" where
  "tryOpenSubmenu selectItem m =
     (let d = md m; h = highlightIndex d in case objectAt_int (mitems d) h of
        None \<Rightarrow> (m, None)
      | Some item \<Rightarrow> (case subMenuItems item of
          None \<Rightarrow> (m, None)
        | Some l \<Rightarrow>
           (if isEnabled item \<and> l \<noteq> []
            then (let (s, r) = (case subMenuViews m ! nat h of
                        None \<Rightarrow> (createMenu None l, None) | Some s \<Rightarrow> set_userHighlight (-1) s);
                      (s', r') = (if selectItem then selectNext 1 s else (s, None));
                      rep = later r r'
                  in (Menu (receive rep (d\<lparr>searchKey := []\<rparr>)) ((subMenuViews m)[nat h := Some s']), rep))
            else (m, None))))"

definition closeCurrentlyOpenSubMenu :: "'v menu_op" where
  "closeCurrentlyOpenSubMenu m =
     (if 0 \<le> highlightIndex (md m) then closeSubMenu (nat (highlightIndex (md m))) m else (m, None))"

definition mouseEntered :: "nat \<Rightarrow> 'v menu_op" where
  "mouseEntered j m0 =
     (let (m, r) = set_userHighlight (int j) m0; item = mitems (md m) ! j in
      case subMenuViews m ! j of
        Some s \<Rightarrow> (let (s', _) = set_userHighlight (-1) s
                  in (Menu (md m\<lparr>internalSelection := Some item\<rparr>) ((subMenuViews m)[j := Some s']), Some (Some item)))
      | None \<Rightarrow> (let (m', r') = tryOpenSubmenu False m in (m', later r r')))"

section \<open>Events\<close>

text \<open>
  An operation on an open submenu, named by the items that lead to it; its report reaches every
  menu above it.
\<close>

fun at_path :: "nat list \<Rightarrow> 'v menu_op \<Rightarrow> 'v menu_op" where
  "at_path [] f m = f m"
| "at_path (i # p) f m = (case objectAt (subMenuViews m) i of
       Some (Some s) \<Rightarrow> (let (s', r) = at_path p f s
                         in (Menu (receive r (md m)) ((subMenuViews m)[i := Some s']), r))
     | _ \<Rightarrow> (m, None))"

fun menu_at :: "nat list \<Rightarrow> 'v menu \<Rightarrow> 'v menu option" where
  "menu_at [] m = Some m"
| "menu_at (i # p) m = (case objectAt (subMenuViews m) i of Some (Some s) \<Rightarrow> menu_at p s | _ \<Rightarrow> None)"

lemma size_sub: "Some s \<in> set (subMenuViews m) \<Longrightarrow> size s < size m"
proof -
  assume "Some s \<in> set (subMenuViews m)"
  then have "size_option size (Some s) \<le> size_list (size_option size) (subMenuViews m)"
    by (rule size_list_estimation') simp
  then show ?thesis by (cases m) simp
qed

lemma size_sub_nth: "i < length (subMenuViews m) \<Longrightarrow> subMenuViews m ! i = Some s \<Longrightarrow> size s < size m"
  by (metis size_sub nth_mem)

text \<open>The submenu that was opened last is the key responder: the one at the end of the highlighted items.\<close>

function open_path :: "'v menu \<Rightarrow> nat list" where
  "open_path m = (case objectAt_int (subMenuViews m) (highlightIndex (md m)) of
       Some (Some s) \<Rightarrow> nat (highlightIndex (md m)) # open_path s
     | _ \<Rightarrow> [])"
  by pat_completeness auto
termination
  by (relation "measure size") (auto simp: objectAt_int_def objectAt_def split: if_splits intro: size_sub_nth)

declare open_path.simps [simp del]

datatype 'v menu_event = MoveUp | MoveDown | MoveRight | MoveLeft | KeyPress nat | SearchTimeout "nat list"
  | MouseEnter "nat list" nat | SetValue "'v option"

definition keyPress :: "nat \<Rightarrow> 'v menu_op" where
  "keyPress which m = (if 31 < which then doKeySearch (char_of which) m else (m, None))"

text \<open>Mouse events come from the elements of the items.\<close>

definition on_item :: "nat \<Rightarrow> 'v menu_op \<Rightarrow> 'v menu_op" where
  "on_item j f m = (if j < length (mitems (md m)) then f m else (m, None))"

definition moveLeft :: "'v menu \<Rightarrow> 'v menu" where
  "moveLeft m = (if open_path m = [] then m else fst (at_path (butlast (open_path m)) closeCurrentlyOpenSubMenu m))"

fun handle :: "'v menu_event \<Rightarrow> 'v menu \<Rightarrow> 'v menu" where
  "handle MoveUp m = fst (at_path (open_path m) (selectNext (-1)) m)"
| "handle MoveDown m = fst (at_path (open_path m) (selectNext 1) m)"
| "handle MoveRight m = fst (at_path (open_path m) (tryOpenSubmenu True) m)"
| "handle MoveLeft m = moveLeft m"
| "handle (KeyPress k) m = fst (at_path (open_path m) (keyPress k) m)"
| "handle (SearchTimeout p) m = fst (at_path p (\<lambda>x. (clearKeySearch x, None)) m)"
| "handle (MouseEnter p j) m = fst (at_path p (on_item j (mouseEntered j)) m)"
| "handle (SetValue v) m = fst (valueDidChange v m)"

text \<open>
  \<open>makeSelection\<close> of a submenu is that of the top-level menu: the value and the action of the
  internal selection, and the menu closes.
\<close>

definition makeSelection :: "string option \<Rightarrow> 'v menu \<Rightarrow> ('v option \<times> string option) option" where
  "makeSelection act m = map_option (\<lambda>i. (mvalue i, case maction i of None \<Rightarrow> act | Some a \<Rightarrow> if a = [] then act else Some a))
     (internalSelection (md m))"

text \<open>
  \<open>mouseClicked\<close> in the menu at a path, \<open>elapsed\<close> milliseconds after the top-level menu was opened:
  the menu afterwards, and whether the selection is made.
\<close>

definition mouseClicked :: "nat list \<Rightarrow> nat \<Rightarrow> nat \<Rightarrow> 'v menu \<Rightarrow> 'v menu \<times> bool" where
  "mouseClicked p j elapsed m =
     (if p = [] \<and> elapsed < 300 then (m, False)
      else (let m1 = fst (at_path p (on_item j (set_highlight (int j))) m)
            in (m1, case menu_at p m1 of None \<Rightarrow> False | Some s \<Rightarrow> 0 \<le> userHighlightIndex (md s))))"

section \<open>The highlighted item\<close>

definition local_ok :: "'v menu \<Rightarrow> bool" where
  "local_ok m \<longleftrightarrow> (let d = md m; n = length (mitems d) in
     length (isSel d) = n \<and> length (subMenuViews m) = n \<and> -1 \<le> highlightIndex d \<and> highlightIndex d < int n
   \<and> (\<forall>i < n. isSel d ! i = (int i = highlightIndex d))
   \<and> (\<forall>i < n. \<forall>s. subMenuViews m ! i = Some s \<longrightarrow> int i = highlightIndex d \<and> isEnabled (mitems d ! i)
        \<and> subMenuItems (mitems d ! i) = Some (mitems (md s)) \<and> mitems (md s) \<noteq> []))"

definition own_choice :: "'v menu_item list \<Rightarrow> int \<Rightarrow> 'v menu_item option" where
  "own_choice items h = (case objectAt_int items h of None \<Rightarrow> None | Some i \<Rightarrow> if isSelectable i then Some i else None)"

text \<open>A new highlight closes what was open, marks the one item and reports its choice.\<close>

lemma set_highlight_eq:
  assumes "local_ok m" and "j \<noteq> highlightIndex (md m)" and "-1 \<le> j" and "j < int (length (mitems (md m)))"
  shows "set_highlight j m = (Menu (md m\<lparr>highlightIndex := j, isSel := map (\<lambda>i. int i = j) [0..<length (mitems (md m))],
      internalSelection := own_choice (mitems (md m)) j\<rparr>) (replicate (length (mitems (md m))) None),
      Some (own_choice (mitems (md m)) j))"
proof -
  let ?n = "length (mitems (md m))" and ?h = "highlightIndex (md m)"
  note ok = assms(1) [unfolded local_ok_def Let_def]
  define m1 where "m1 = highlightWillChange m"
  have fl: "isSel (md m1) = replicate ?n False"
  proof (rule nth_equalityI)
    show "length (isSel (md m1)) = length (replicate ?n False)"
      using ok by (simp add: m1_def highlightWillChange_def closeSubMenu_def receive_def Let_def split: option.splits)
    fix i assume "i < length (isSel (md m1))"
    then show "isSel (md m1) ! i = replicate ?n False ! i"
      using ok by (auto simp: m1_def highlightWillChange_def closeSubMenu_def receive_def Let_def objectAt_int_def objectAt_def
          nth_list_update split: option.splits if_splits)
  qed
  have sub: "subMenuViews m1 = replicate ?n None"
  proof (rule nth_equalityI)
    show "length (subMenuViews m1) = length (replicate ?n None)"
      using ok by (simp add: m1_def highlightWillChange_def closeSubMenu_def Let_def split: option.splits)
    fix i assume i: "i < length (subMenuViews m1)"
    have "subMenuViews m ! i = None" if "int i \<noteq> ?h" "i < ?n"
      using ok that by (cases "subMenuViews m ! i") auto
    then show "subMenuViews m1 ! i = replicate ?n None ! i"
      using ok i by (auto simp: m1_def highlightWillChange_def closeSubMenu_def Let_def objectAt_int_def objectAt_def
          nth_list_update split: option.splits if_splits)
  qed
  have rest: "md m1\<lparr>highlightIndex := j, isSel := b, internalSelection := x\<rparr>
      = md m\<lparr>highlightIndex := j, isSel := b, internalSelection := x\<rparr>" for b x
    by (simp add: m1_def highlightWillChange_def closeSubMenu_def receive_def Let_def split: option.splits)
  have marks: "(case objectAt_int (mitems (md m)) j of None \<Rightarrow> replicate ?n False | Some _ \<Rightarrow> (replicate ?n False)[nat j := True])
      = map (\<lambda>i. int i = j) [0..<?n]"
    by (rule nth_equalityI) (use assms(3,4) in \<open>auto simp: objectAt_int_def objectAt_def nth_list_update\<close>)
  have items: "mitems (md m1) = mitems (md m)"
    by (simp add: m1_def highlightWillChange_def closeSubMenu_def receive_def Let_def split: option.splits)
  have "set_highlight j m = highlightDidChange (Menu (md m1\<lparr>highlightIndex := j\<rparr>) (subMenuViews m1))"
    using assms(2) by (simp add: set_highlight_def m1_def Let_def)
  also have "\<dots> = (Menu (md m1\<lparr>highlightIndex := j, isSel := map (\<lambda>i. int i = j) [0..<?n],
      internalSelection := own_choice (mitems (md m)) j\<rparr>) (replicate ?n None), Some (own_choice (mitems (md m)) j))"
    using marks by (cases "objectAt_int (mitems (md m)) j") (simp_all add: highlightDidChange_def Let_def items fl sub own_choice_def)
  finally show ?thesis by (simp only: rest)
qed

lemma set_highlight_same [simp]: "set_highlight (highlightIndex (md m)) m = (m, None)"
  by (simp add: set_highlight_def)

text \<open>
  What the menu would choose: the highlighted item of the menu at the end of the open submenus, when
  it can be selected.
\<close>

function chosen :: "'v menu \<Rightarrow> 'v menu_item option" where
  "chosen m = (case objectAt_int (subMenuViews m) (highlightIndex (md m)) of
       Some (Some s) \<Rightarrow> chosen s
     | _ \<Rightarrow> own_choice (mitems (md m)) (highlightIndex (md m)))"
  by pat_completeness auto
termination
  by (relation "measure size") (auto simp: objectAt_int_def objectAt_def split: if_splits intro: size_sub_nth)

declare chosen.simps [simp del]

text \<open>
  A menu is sound when it and all its open submenus satisfy \<open>local_ok\<close>; it is in step when
  \<open>_internalSelection\<close> of each of them is what it would choose.
\<close>

inductive sound :: "'v menu \<Rightarrow> bool" where
  sound: "local_ok m \<Longrightarrow> (\<And>s. Some s \<in> set (subMenuViews m) \<Longrightarrow> sound s) \<Longrightarrow> sound m"

inductive in_step :: "'v menu \<Rightarrow> bool" where
  in_step: "local_ok m \<Longrightarrow> internalSelection (md m) = chosen m \<Longrightarrow>
     (\<And>s. Some s \<in> set (subMenuViews m) \<Longrightarrow> in_step s) \<Longrightarrow> in_step m"

inductive_cases soundE: "sound m"
inductive_cases in_stepE: "in_step m"

lemma soundD: "sound m \<Longrightarrow> local_ok m" "sound m \<Longrightarrow> Some s \<in> set (subMenuViews m) \<Longrightarrow> sound s"
  by (auto elim: soundE)

lemma in_stepD:
  "in_step m \<Longrightarrow> local_ok m" "in_step m \<Longrightarrow> internalSelection (md m) = chosen m"
  "in_step m \<Longrightarrow> Some s \<in> set (subMenuViews m) \<Longrightarrow> in_step s"
  by (auto elim: in_stepE)

lemma in_step_sound: "in_step m \<Longrightarrow> sound m"
  by (induction rule: in_step.induct) (auto intro: sound.sound)

lemma no_subs:
  assumes "subMenuViews m = replicate n None"
  shows "chosen m = own_choice (mitems (md m)) (highlightIndex (md m))" and "Some s \<notin> set (subMenuViews m)"
  using assms by (auto simp: chosen.simps [of m] objectAt_int_def objectAt_def split: option.splits)

definition latest :: "'v report \<Rightarrow> 'v menu_item option \<Rightarrow> 'v menu_item option" where
  "latest r x = (case r of None \<Rightarrow> x | Some y \<Rightarrow> y)"

lemma latest_simps [simp]: "latest None x = x" "latest (Some y) x = y" "latest (later r r') x = latest r' (latest r x)"
  by (simp_all add: latest_def later_def split: option.splits)

lemma receive_simps [simp]:
  "mitems (receive r d) = mitems d" "isSel (receive r d) = isSel d" "highlightIndex (receive r d) = highlightIndex d"
  "userHighlightIndex (receive r d) = userHighlightIndex d"
  "internalSelection (receive r d) = latest r (internalSelection d)"
  by (simp_all add: receive_def latest_def split: option.splits)

text \<open>Putting a submenu at the highlighted item.\<close>

lemma put_sub_ok:
  assumes "local_ok m" and "highlightIndex (md m) = int i" and "isEnabled (mitems (md m) ! i)"
    and "subMenuItems (mitems (md m) ! i) = Some (mitems (md s))" and "mitems (md s) \<noteq> []"
    and "mitems d = mitems (md m)" and "isSel d = isSel (md m)" and "highlightIndex d = highlightIndex (md m)"
  shows "local_ok (Menu (receive r d) ((subMenuViews m)[i := Some s]))"
    and "chosen (Menu (receive r d) ((subMenuViews m)[i := Some s])) = chosen s"
proof -
  have i: "i < length (subMenuViews m)" using assms(1,2) by (simp add: local_ok_def Let_def)
  show "local_ok (Menu (receive r d) ((subMenuViews m)[i := Some s]))"
    using assms by (auto simp: local_ok_def Let_def nth_list_update)
  show "chosen (Menu (receive r d) ((subMenuViews m)[i := Some s])) = chosen s"
    using assms(2,8) i by (subst chosen.simps) (simp add: objectAt_int_def objectAt_def)
qed

lemma put_sub_sound:
  assumes "sound m" and "sound s" and "highlightIndex (md m) = int i" and "isEnabled (mitems (md m) ! i)"
    and "subMenuItems (mitems (md m) ! i) = Some (mitems (md s))" and "mitems (md s) \<noteq> []"
    and "mitems d = mitems (md m)" and "isSel d = isSel (md m)" and "highlightIndex d = highlightIndex (md m)"
  shows "sound (Menu (receive r d) ((subMenuViews m)[i := Some s]))"
proof (rule sound.sound)
  show "local_ok (Menu (receive r d) ((subMenuViews m)[i := Some s]))"
    by (rule put_sub_ok(1) [OF soundD(1) [OF assms(1)] assms(3-)])
  fix u assume "Some u \<in> set (subMenuViews (Menu (receive r d) ((subMenuViews m)[i := Some s])))"
  then have "Some u \<in> insert (Some s) (set (subMenuViews m))" using set_update_subset_insert by fastforce
  then show "sound u" using assms(2) soundD(2) [OF assms(1)] by blast
qed

lemma put_sub_in_step:
  assumes "in_step m" and "in_step s" and "chosen s = latest r (chosen m)"
    and "highlightIndex (md m) = int i" and "isEnabled (mitems (md m) ! i)"
    and "subMenuItems (mitems (md m) ! i) = Some (mitems (md s))" and "mitems (md s) \<noteq> []"
    and "mitems d = mitems (md m)" and "isSel d = isSel (md m)" and "highlightIndex d = highlightIndex (md m)"
    and "internalSelection d = internalSelection (md m)"
  shows "in_step (Menu (receive r d) ((subMenuViews m)[i := Some s]))"
    and "chosen (Menu (receive r d) ((subMenuViews m)[i := Some s])) = latest r (chosen m)"
proof -
  let ?m = "Menu (receive r d) ((subMenuViews m)[i := Some s])"
  note p = put_sub_ok [OF in_stepD(1) [OF assms(1)] assms(4-10), of r]
  show c: "chosen ?m = latest r (chosen m)" using p(2) assms(3) by simp
  show "in_step ?m"
  proof (rule in_step.in_step)
    show "local_ok ?m" by (rule p(1))
    show "internalSelection (md ?m) = chosen ?m"
      using c assms(11) in_stepD(2) [OF assms(1)] by (simp split: option.splits)
    fix u assume "Some u \<in> set (subMenuViews ?m)"
    then have "Some u \<in> insert (Some s) (set (subMenuViews m))" using set_update_subset_insert by fastforce
    then show "in_step u" using assms(2) in_stepD(3) [OF assms(1)] by blast
  qed
qed

lemma open_sub:
  assumes "local_ok m" and "i < length (subMenuViews m)" and "subMenuViews m ! i = Some s"
  shows "highlightIndex (md m) = int i" and "isEnabled (mitems (md m) ! i)" and "i < length (mitems (md m))"
    and "subMenuItems (mitems (md m) ! i) = Some (mitems (md s))" and "mitems (md s) \<noteq> []" and "chosen m = chosen s"
proof -
  show h: "highlightIndex (md m) = int i" and "isEnabled (mitems (md m) ! i)" and "i < length (mitems (md m))"
    and "subMenuItems (mitems (md m) ! i) = Some (mitems (md s))" and "mitems (md s) \<noteq> []"
    using assms by (auto simp: local_ok_def Let_def)
  show "chosen m = chosen s" using h assms(2,3) by (subst chosen.simps) (simp add: objectAt_int_def objectAt_def)
qed

text \<open>What an operation on one menu promises to the menus above it.\<close>

locale menu_step =
  fixes f :: "'v menu_op"
  assumes keeps_items: "mitems (md (fst (f m))) = mitems (md m)"
    and keeps_sound: "sound m \<Longrightarrow> sound (fst (f m))"
begin

lemma at_path_sound: "sound m \<Longrightarrow> sound (fst (at_path p f m)) \<and> mitems (md (fst (at_path p f m))) = mitems (md m)"
proof (induction p arbitrary: m)
  case Nil
  then show ?case by (simp add: keeps_items keeps_sound)
next
  case (Cons i p)
  show ?case
  proof (cases "\<exists>s. objectAt (subMenuViews m) i = Some (Some s)")
    case True
    then obtain s where s: "i < length (subMenuViews m)" "subMenuViews m ! i = Some s"
      by (auto simp: objectAt_def split: if_splits)
    have ok: "local_ok m" "sound s" using soundD [OF Cons.prems] s nth_mem [OF s(1)] by auto
    obtain s' r where sr: "at_path p f s = (s', r)" by (cases "at_path p f s")
    then have s': "sound s'" "mitems (md s') = mitems (md s)" using Cons.IH [OF ok(2)] by auto
    have res: "fst (at_path (i # p) f m) = Menu (receive r (md m)) ((subMenuViews m)[i := Some s'])"
      using s sr by (simp add: objectAt_def)
    have "sound (Menu (receive r (md m)) ((subMenuViews m)[i := Some s']))"
      using open_sub [OF ok(1) s] s'(2) by (intro put_sub_sound [OF Cons.prems s'(1)]) simp_all
    then show ?thesis unfolding res by simp
  next
    case False
    then have "at_path (i # p) f m = (m, None)" by (auto split: option.splits)
    then show ?thesis using Cons.prems by simp
  qed
qed

end

text \<open>An operation that also reports what the menu would choose.\<close>

locale reporting_step = menu_step f for f :: "'v menu_op" +
  assumes keeps_step: "in_step m \<Longrightarrow> f m = (m', r) \<Longrightarrow> in_step m' \<and> chosen m' = latest r (chosen m)"
begin

lemma at_path_in_step:
  "in_step m \<Longrightarrow> at_path p f m = (m', r) \<Longrightarrow> in_step m' \<and> chosen m' = latest r (chosen m)"
proof (induction p arbitrary: m m' r)
  case Nil
  then show ?case using keeps_step by simp
next
  case (Cons i p)
  show ?case
  proof (cases "\<exists>s. objectAt (subMenuViews m) i = Some (Some s)")
    case True
    then obtain s where s: "i < length (subMenuViews m)" "subMenuViews m ! i = Some s"
      by (auto simp: objectAt_def split: if_splits)
    have ok: "local_ok m" "in_step s" using in_stepD [OF Cons.prems(1)] s nth_mem [OF s(1)] by auto
    obtain s' where s': "at_path p f s = (s', r)" "m' = Menu (receive r (md m)) ((subMenuViews m)[i := Some s'])"
      using Cons.prems(2) s by (auto simp: objectAt_def split: prod.splits)
    have IH: "in_step s'" "chosen s' = latest r (chosen s)"
      using Cons.IH [OF ok(2) s'(1)] by auto
    have items: "mitems (md s') = mitems (md s)" using at_path_sound [OF in_step_sound [OF ok(2)], of p] s'(1) by simp
    note o = open_sub [OF ok(1) s]
    have ch: "chosen s' = latest r (chosen m)" using IH(2) o(6) by (simp split: option.splits)
    show ?thesis unfolding s'(2)
      using put_sub_in_step [OF Cons.prems(1) IH(1) ch o(1,2)] o(4,5) items by simp
  next
    case False
    then have "at_path (i # p) f m = (m, None)" by (auto split: option.splits)
    then show ?thesis using Cons.prems by simp
  qed
qed

lemma at_path_keeps: "in_step m \<Longrightarrow> in_step (fst (at_path p f m))"
  using at_path_in_step [of m p "fst (at_path p f m)" "snd (at_path p f m)"] by simp

end

section \<open>Every operation keeps the menu sound and in step\<close>

lemma same_view:
  assumes "mitems d' = mitems d" and "isSel d' = isSel d" and "highlightIndex d' = highlightIndex d"
  shows "local_ok (Menu d' S) = local_ok (Menu d S)" and "chosen (Menu d' S) = chosen (Menu d S)"
    and "sound (Menu d S) \<Longrightarrow> sound (Menu d' S)"
    and "in_step (Menu d S) \<Longrightarrow> internalSelection d' = internalSelection d \<Longrightarrow> in_step (Menu d' S)"
proof -
  show ok: "local_ok (Menu d' S) = local_ok (Menu d S)" using assms by (simp add: local_ok_def)
  show ch: "chosen (Menu d' S) = chosen (Menu d S)" using assms by (simp add: chosen.simps split: option.splits)
  show "sound (Menu d' S)" if "sound (Menu d S)"
    using soundD [OF that] ok by - (rule sound.sound, auto)
  show "in_step (Menu d' S)" if "in_step (Menu d S)" "internalSelection d' = internalSelection d"
    using in_stepD [OF that(1)] that(2) ok ch by - (rule in_step.in_step, auto)
qed

lemma closed_menu:
  assumes "length (isSel d) = length (mitems d)" and "-1 \<le> highlightIndex d" and "highlightIndex d < int (length (mitems d))"
    and "\<And>i. i < length (mitems d) \<Longrightarrow> isSel d ! i = (int i = highlightIndex d)"
    and "internalSelection d = own_choice (mitems d) (highlightIndex d)"
  shows "in_step (Menu d (replicate (length (mitems d)) None))"
    and "chosen (Menu d (replicate (length (mitems d)) None)) = own_choice (mitems d) (highlightIndex d)"
proof -
  let ?m = "Menu d (replicate (length (mitems d)) None)"
  show c: "chosen ?m = own_choice (mitems d) (highlightIndex d)" using no_subs(1) [of ?m] by simp
  have "local_ok ?m" using assms(1-4) by (simp add: local_ok_def)
  then show "in_step ?m" using assms(5) c no_subs(2) [of ?m] by - (rule in_step.in_step, auto)
qed

lemma createMenu_in_step: "in_step (createMenu None l) \<and> chosen (createMenu None l) = None"
proof -
  define d :: "'a menu_data" where "d = \<lparr>mitems = l, isSel = map (\<lambda>i. False) l, highlightIndex = -1,
     userHighlightIndex = -1, internalSelection = None, searchKey = []\<rparr>"
  have c: "createMenu None l = Menu d (replicate (length (mitems d)) None)" by (simp add: createMenu_def d_def)
  have o: "own_choice (mitems d) (highlightIndex d) = None" by (simp add: d_def own_choice_def objectAt_int_def)
  have d: "length (isSel d) = length (mitems d)" "-1 \<le> highlightIndex d" "highlightIndex d < int (length (mitems d))"
      "\<And>i. i < length (mitems d) \<Longrightarrow> isSel d ! i = (int i = highlightIndex d)" "internalSelection d = None"
    by (simp_all add: d_def)
  show ?thesis unfolding c using closed_menu [OF d(1-4)] d(5) o by simp
qed

lemma set_highlight_items [simp]: "mitems (md (fst (set_highlight j m))) = mitems (md m)"
  by (simp add: set_highlight_def highlightDidChange_def highlightWillChange_def closeSubMenu_def receive_def Let_def split: option.splits)

lemma set_highlight_new:
  assumes "local_ok m" and "-1 \<le> j" and "j < int (length (mitems (md m)))" and "j \<noteq> highlightIndex (md m)"
    and "set_highlight j m = (m', r)"
  shows "in_step m' \<and> r = Some (chosen m') \<and> subMenuViews m' = replicate (length (mitems (md m))) None
    \<and> userHighlightIndex (md m') = userHighlightIndex (md m) \<and> highlightIndex (md m') = j"
proof -
  let ?d = "md m\<lparr>highlightIndex := j, isSel := map (\<lambda>i. int i = j) [0..<length (mitems (md m))],
      internalSelection := own_choice (mitems (md m)) j\<rparr>"
  have m': "m' = Menu ?d (replicate (length (mitems ?d)) None)" "r = Some (own_choice (mitems (md m)) j)"
    using set_highlight_eq [OF assms(1,4,2,3)] assms(5) by auto
  have d: "length (isSel ?d) = length (mitems ?d)" "-1 \<le> highlightIndex ?d" "highlightIndex ?d < int (length (mitems ?d))"
      "\<And>i. i < length (mitems ?d) \<Longrightarrow> isSel ?d ! i = (int i = highlightIndex ?d)"
      "internalSelection ?d = own_choice (mitems ?d) (highlightIndex ?d)"
    using assms(2,3) by simp_all
  show ?thesis using closed_menu [OF d] m' by simp
qed

lemma set_highlight_sound:
  assumes "sound m" and "-1 \<le> j" and "j < int (length (mitems (md m)))"
  shows "sound (fst (set_highlight j m))"
proof (cases "j = highlightIndex (md m)")
  case False
  obtain m' r where "set_highlight j m = (m', r)" by (cases "set_highlight j m")
  then show ?thesis using set_highlight_new [OF soundD(1) [OF assms(1)] assms(2,3) False] by (simp add: in_step_sound)
qed (use assms in simp)

lemma set_highlight_in_step:
  assumes "in_step m" and "-1 \<le> j" and "j < int (length (mitems (md m)))" and "set_highlight j m = (m', r)"
  shows "in_step m' \<and> chosen m' = latest r (chosen m)"
proof (cases "j = highlightIndex (md m)")
  case False
  then show ?thesis using set_highlight_new [OF in_stepD(1) [OF assms(1)] assms(2,3) False assms(4)] by simp
qed (use assms in auto)

lemma set_user_items [simp]: "mitems (md (fst (set_userHighlight j m))) = mitems (md m)"
  by (simp add: set_userHighlight_def)

lemma user_view:
  "sound m \<Longrightarrow> sound (Menu (md m\<lparr>userHighlightIndex := j\<rparr>) (subMenuViews m))"
  "in_step m \<Longrightarrow> in_step (Menu (md m\<lparr>userHighlightIndex := j\<rparr>) (subMenuViews m))"
  "chosen (Menu (md m\<lparr>userHighlightIndex := j\<rparr>) (subMenuViews m)) = chosen m"
  using same_view [of "md m\<lparr>userHighlightIndex := j\<rparr>" "md m" "subMenuViews m"] by simp_all

lemma set_user_sound:
  "sound m \<Longrightarrow> -1 \<le> j \<Longrightarrow> j < int (length (mitems (md m))) \<Longrightarrow> sound (fst (set_userHighlight j m))"
  using set_highlight_sound [OF user_view(1), of m j j] by (simp add: set_userHighlight_def)

lemma set_user_in_step:
  assumes "in_step m" and "-1 \<le> j" and "j < int (length (mitems (md m)))" and "set_userHighlight j m = (m', r)"
  shows "in_step m' \<and> chosen m' = latest r (chosen m)"
  using set_highlight_in_step [OF user_view(2) [OF assms(1)], of j j m' r] assms
  by (auto simp: set_userHighlight_def user_view(3) split: if_splits)

lemma search_view:
  "sound m \<Longrightarrow> sound (Menu (md m\<lparr>searchKey := k\<rparr>) (subMenuViews m))"
  "in_step m \<Longrightarrow> in_step (Menu (md m\<lparr>searchKey := k\<rparr>) (subMenuViews m))"
  "chosen (Menu (md m\<lparr>searchKey := k\<rparr>) (subMenuViews m)) = chosen m"
  using same_view [of "md m\<lparr>searchKey := k\<rparr>" "md m" "subMenuViews m"] by simp_all

lemma find_range: "find P is = Some i \<Longrightarrow> set is \<subseteq> {..<n} \<Longrightarrow> -1 \<le> int i \<and> int i < int n"
  by (auto simp: find_Some_iff) (metis lessThan_iff nth_mem subsetD)

lemma next_indexes_range: "-1 \<le> h \<Longrightarrow> set (next_indexes h increment len) \<subseteq> {..<len}"
  by (auto simp: next_indexes_def)

lemma selectNext_range:
  assumes "local_ok m" and "next_enabled (mitems (md m)) (next_indexes (highlightIndex (md m)) increment (length (mitems (md m)))) = Some i"
  shows "-1 \<le> int i \<and> int i < int (length (mitems (md m)))"
  using assms(2) unfolding next_enabled_def
  by (rule find_range) (use assms(1) in \<open>simp add: next_indexes_range local_ok_def Let_def\<close>)

interpretation stepping: reporting_step "selectNext increment" for increment
proof
  fix m :: "'a menu"
  show "mitems (md (fst (selectNext increment m))) = mitems (md m)"
    by (auto simp: selectNext_def clearKeySearch_def Let_def split: option.splits prod.splits) (metis fst_conv set_highlight_items)
next
  fix m :: "'a menu" assume m: "sound m"
  show "sound (fst (selectNext increment m))"
  proof (cases "next_enabled (mitems (md m)) (next_indexes (highlightIndex (md m)) increment (length (mitems (md m))))")
    case None
    then show ?thesis using search_view(1) [OF m] by (simp add: selectNext_def clearKeySearch_def)
  next
    case (Some i)
    then have "sound (fst (set_highlight (int i) m))"
      using selectNext_range [OF soundD(1) [OF m]] set_highlight_sound [OF m] by blast
    then show ?thesis
      using Some search_view(1) by (cases "set_highlight (int i) m") (simp add: selectNext_def clearKeySearch_def)
  qed
next
  fix m m' :: "'a menu" and r assume m: "in_step m" and eq: "selectNext increment m = (m', r)"
  show "in_step m' \<and> chosen m' = latest r (chosen m)"
  proof (cases "next_enabled (mitems (md m)) (next_indexes (highlightIndex (md m)) increment (length (mitems (md m))))")
    case None
    then show ?thesis using eq search_view(2,3) [where m = m] m by (auto simp: selectNext_def clearKeySearch_def)
  next
    case (Some i)
    obtain m1 where m1: "set_highlight (int i) m = (m1, r)" "m' = clearKeySearch m1"
      using eq Some by (auto simp: selectNext_def split: prod.splits)
    then show ?thesis
      using set_highlight_in_step [OF m _ _ m1(1)] selectNext_range [OF in_stepD(1) [OF m] Some] search_view(2,3) [where m = m1]
      by (simp add: clearKeySearch_def)
  qed
qed

lemma findIndex_range: "findIndex P items = Some i \<Longrightarrow> -1 \<le> int i \<and> int i < int (length items)"
  unfolding findIndex_def by (rule find_range) auto

lemma keyPress_cases:
  obtains "keyPress k m = (m, None)"
  | key where "keyPress k m = (Menu (md m\<lparr>searchKey := key\<rparr>) (subMenuViews m), None)"
  | key i where "keyPress k m = set_highlight (int i) (Menu (md m\<lparr>searchKey := key\<rparr>) (subMenuViews m))"
      "-1 \<le> int i" "int i < int (length (mitems (md m)))"
proof (cases "31 < k")
  case False
  then show ?thesis using that(1) by (simp add: keyPress_def)
next
  case True
  let ?key = "searchKey (md m) @ [char_of k]"
  show ?thesis
  proof (cases "findByName ?key (mitems (md m))")
    case None
    then show ?thesis using that(2) True by (simp add: keyPress_def doKeySearch_def Let_def)
  next
    case (Some i)
    then show ?thesis
      using that(3) True findIndex_range [OF Some [unfolded findByName_def]] by (simp add: keyPress_def doKeySearch_def Let_def)
  qed
qed

interpretation press: reporting_step "keyPress k" for k
proof
  fix m :: "'a menu"
  show "mitems (md (fst (keyPress k m))) = mitems (md m)" by (cases k m rule: keyPress_cases) simp_all
next
  fix m :: "'a menu" assume "sound m"
  then show "sound (fst (keyPress k m))"
    by (cases k m rule: keyPress_cases) (simp_all add: search_view(1) set_highlight_sound)
next
  fix m m' :: "'a menu" and r assume m: "in_step m" and eq: "keyPress k m = (m', r)"
  show "in_step m' \<and> chosen m' = latest r (chosen m)"
  proof (cases k m rule: keyPress_cases)
    case (3 key i)
    then show ?thesis
      using set_highlight_in_step [OF search_view(2) [OF m, of key], of "int i" m' r] eq by (simp add: search_view(3))
  qed (use m eq search_view(2,3) [where m = m] in auto)
qed

interpretation timeout: reporting_step "\<lambda>m. (clearKeySearch m, None)"
  by unfold_locales (auto simp: clearKeySearch_def search_view)

text \<open>Opening and closing a submenu.\<close>

lemma folder_not_chosen:
  assumes "i < length items" and "subMenuItems (items ! i) = Some l" and "l \<noteq> []"
  shows "own_choice items (int i) = None"
  using assms by (simp add: own_choice_def objectAt_int_def objectAt_def isSelectable_def)

lemma closeSubMenu_ok:
  assumes "local_ok m" and "i < length (mitems (md m))"
  shows "local_ok (fst (closeSubMenu i m))"
  using assms by (auto simp: closeSubMenu_def Let_def local_ok_def nth_list_update)

interpretation leaving: reporting_step closeCurrentlyOpenSubMenu
proof
  fix m :: "'a menu"
  show "mitems (md (fst (closeCurrentlyOpenSubMenu m))) = mitems (md m)"
    by (simp add: closeCurrentlyOpenSubMenu_def closeSubMenu_def Let_def)
next
  fix m :: "'a menu" assume m: "sound m"
  let ?i = "nat (highlightIndex (md m))"
  show "sound (fst (closeCurrentlyOpenSubMenu m))"
  proof (cases "0 \<le> highlightIndex (md m)")
    case True
    then have "?i < length (mitems (md m))" using soundD(1) [OF m] by (auto simp: local_ok_def Let_def)
    then have "local_ok (fst (closeSubMenu ?i m))" by (rule closeSubMenu_ok [OF soundD(1) [OF m]])
    moreover have "sound u" if "Some u \<in> set (subMenuViews (fst (closeSubMenu ?i m)))" for u
    proof -
      have "Some u \<in> insert None (set (subMenuViews m))"
        using that set_update_subset_insert by (fastforce simp: closeSubMenu_def Let_def)
      then show ?thesis using soundD(2) [OF m] by blast
    qed
    ultimately show ?thesis using True by (simp add: closeCurrentlyOpenSubMenu_def sound.sound)
  qed (use m in \<open>simp add: closeCurrentlyOpenSubMenu_def\<close>)
next
  fix m m' :: "'a menu" and r assume m: "in_step m" and eq: "closeCurrentlyOpenSubMenu m = (m', r)"
  let ?i = "nat (highlightIndex (md m))"
  note ok = in_stepD(1) [OF m]
  show "in_step m' \<and> chosen m' = latest r (chosen m)"
  proof (cases "0 \<le> highlightIndex (md m) \<and> subMenuViews m ! ?i \<noteq> None")
    case True
    then obtain s where s: "subMenuViews m ! ?i = Some s" by auto
    have i: "?i < length (subMenuViews m)" using ok True by (auto simp: local_ok_def Let_def)
    note o = open_sub [OF ok i s]
    have r: "r = closing_report (Some s)" and m': "m' = Menu (receive r (md m)) ((subMenuViews m)[?i := None])"
      using eq True s by (auto simp: closeCurrentlyOpenSubMenu_def closeSubMenu_def Let_def)
    have "chosen m' = own_choice (mitems (md m)) (int ?i)"
      unfolding m' using i True by (subst chosen.simps) (simp add: objectAt_int_def objectAt_def)
    then have c: "chosen m' = None" using folder_not_chosen [OF o(3,4,5)] by simp
    have l: "latest r (chosen m) = None"
    proof (cases "highlightIndex (md s) = -1")
      case True
      then have "chosen s = None" by (subst chosen.simps) (simp add: objectAt_int_def own_choice_def)
      then show ?thesis using o(6) r True by (simp add: closing_report_def)
    qed (use r in \<open>simp add: closing_report_def\<close>)
    have "in_step m'"
    proof (rule in_step.in_step)
      show "local_ok m'" using closeSubMenu_ok [OF ok o(3)] eq True by (simp add: closeCurrentlyOpenSubMenu_def)
      show "internalSelection (md m') = chosen m'" unfolding c using l in_stepD(2) [OF m] m' by simp
      fix u assume "Some u \<in> set (subMenuViews m')"
      then have "Some u \<in> insert None (set (subMenuViews m))" using m' set_update_subset_insert by fastforce
      then show "in_step u" using in_stepD(3) [OF m] by blast
    qed
    then show ?thesis using c l by simp
  next
    case False
    then have "closeCurrentlyOpenSubMenu m = (m, None)"
      by (cases m) (auto simp: closeCurrentlyOpenSubMenu_def closeSubMenu_def closing_report_def receive_def Let_def,
          metis list_update_id)
    then show ?thesis using m eq by simp
  qed
qed

text \<open>What \<open>_tryOpenSubmenu\<close> does when there is a submenu to open.\<close>

lemma tryOpen_cases:
  obtains "tryOpenSubmenu b m = (m, None)"
  | i l s0 r0 s r where "highlightIndex (md m) = int i" "i < length (mitems (md m))"
      "subMenuItems (mitems (md m) ! i) = Some l" "isEnabled (mitems (md m) ! i)" "l \<noteq> []"
      "(s0, r0) = (case subMenuViews m ! i of None \<Rightarrow> (createMenu None l, None) | Some s \<Rightarrow> set_userHighlight (-1) s)"
      "(s, r) = (if b then selectNext 1 s0 else (s0, None))"
      "tryOpenSubmenu b m = (Menu (receive (later r0 r) (md m\<lparr>searchKey := []\<rparr>)) ((subMenuViews m)[i := Some s]), later r0 r)"
proof (cases "\<exists>i l. highlightIndex (md m) = int i \<and> i < length (mitems (md m))
    \<and> subMenuItems (mitems (md m) ! i) = Some l \<and> isEnabled (mitems (md m) ! i) \<and> l \<noteq> []")
  case True
  then obtain i l where i: "highlightIndex (md m) = int i" "i < length (mitems (md m))"
      "subMenuItems (mitems (md m) ! i) = Some l" "isEnabled (mitems (md m) ! i)" "l \<noteq> []" by blast
  obtain s0 r0 where s0: "(s0, r0) = (case subMenuViews m ! i of None \<Rightarrow> (createMenu None l, None) | Some s \<Rightarrow> set_userHighlight (-1) s)"
    by (metis surj_pair)
  obtain s r where s: "(s, r) = (if b then selectNext 1 s0 else (s0, None))" by (metis surj_pair)
  show ?thesis
  proof (rule that(2) [OF i s0 s])
    show "tryOpenSubmenu b m = (Menu (receive (later r0 r) (md m\<lparr>searchKey := []\<rparr>)) ((subMenuViews m)[i := Some s]), later r0 r)"
      using i s0 [symmetric] s [symmetric] by (simp add: tryOpenSubmenu_def objectAt_int_def objectAt_def Let_def)
  qed
next
  case False
  have "tryOpenSubmenu b m = (m, None)"
  proof (cases "objectAt_int (mitems (md m)) (highlightIndex (md m))")
    case (Some item)
    then have h: "highlightIndex (md m) = int (nat (highlightIndex (md m)))" "nat (highlightIndex (md m)) < length (mitems (md m))"
        "mitems (md m) ! nat (highlightIndex (md m)) = item"
      by (auto simp: objectAt_int_def objectAt_def split: if_splits)
    have "\<not> (isEnabled item \<and> l \<noteq> [])" if "subMenuItems item = Some l" for l using False h that by metis
    then show ?thesis using Some by (cases "subMenuItems item") (auto simp: tryOpenSubmenu_def Let_def)
  qed (simp add: tryOpenSubmenu_def)
  then show ?thesis by (rule that(1))
qed

interpretation entering: reporting_step "tryOpenSubmenu b" for b
proof
  fix m :: "'a menu"
  show "mitems (md (fst (tryOpenSubmenu b m))) = mitems (md m)" by (cases b m rule: tryOpen_cases) simp_all
next
  fix m :: "'a menu" assume m: "sound m"
  show "sound (fst (tryOpenSubmenu b m))"
  proof (cases b m rule: tryOpen_cases)
    case (2 i l s0 r0 s r)
    have i: "i < length (subMenuViews m)" using soundD(1) [OF m] 2(2) by (simp add: local_ok_def Let_def)
    have s0: "sound s0 \<and> mitems (md s0) = l"
    proof (cases "subMenuViews m ! i")
      case None
      then show ?thesis using 2(6) createMenu_in_step [of l] by (simp add: in_step_sound) (simp add: createMenu_def)
    next
      case (Some u)
      have "sound u" using soundD(2) [OF m] Some i nth_mem by metis
      moreover have "mitems (md u) = l" using open_sub(4) [OF soundD(1) [OF m] i Some] 2(3) by simp
      moreover have "s0 = fst (set_userHighlight (-1) u)" using 2(6) Some by (metis fst_conv option.simps(5))
      ultimately show ?thesis using set_user_sound [of u "-1"] by simp
    qed
    have "sound s \<and> mitems (md s) = l"
      using 2(7) s0 stepping.keeps_sound [of s0 1] stepping.keeps_items [of 1 s0] by (cases b) (auto, (metis fst_conv)+)
    then show ?thesis unfolding 2(8) fst_conv using 2(1,3,4,5) by (intro put_sub_sound [OF m]) simp_all
  qed (use m in simp)
next
  fix m m' :: "'a menu" and r' assume m: "in_step m" and eq: "tryOpenSubmenu b m = (m', r')"
  show "in_step m' \<and> chosen m' = latest r' (chosen m)"
  proof (cases b m rule: tryOpen_cases)
    case (2 i l s0 r0 s r)
    note ok = in_stepD(1) [OF m]
    have i: "i < length (subMenuViews m)" using ok 2(2) by (simp add: local_ok_def Let_def)
    have s0: "in_step s0 \<and> chosen s0 = latest r0 (chosen m) \<and> mitems (md s0) = l"
    proof (cases "subMenuViews m ! i")
      case None
      have "chosen m = own_choice (mitems (md m)) (int i)"
        using None i 2(1) by (subst chosen.simps) (simp add: objectAt_int_def objectAt_def)
      then have "chosen m = None" using folder_not_chosen [OF 2(2,3,5)] by simp
      then show ?thesis using None 2(6) createMenu_in_step [of l] by (simp) (simp add: createMenu_def)
    next
      case (Some u)
      have u: "in_step u" "mitems (md u) = l" "chosen m = chosen u"
        using in_stepD(3) [OF m] nth_mem [OF i] Some open_sub(4,6) [OF ok i Some] 2(3) by auto
      have "set_userHighlight (-1) u = (s0, r0)" using 2(6) Some by simp
      then show ?thesis using set_user_in_step [OF u(1), of "-1" s0 r0] u(2,3) set_user_items [of "-1" u] by simp
    qed
    have s: "in_step s \<and> chosen s = latest (later r0 r) (chosen m) \<and> mitems (md s) = l"
    proof (cases b)
      case True
      then have "selectNext 1 s0 = (s, r)" using 2(7) by simp
      then show ?thesis using stepping.keeps_step [of s0 1 s r] stepping.keeps_items [of 1 s0] s0 by simp
    qed (use 2(7) s0 in simp)
    have "m' = Menu (receive r' (md m\<lparr>searchKey := []\<rparr>)) ((subMenuViews m)[i := Some s])" "r' = later r0 r" using 2(8) eq by auto
    then show ?thesis using put_sub_in_step [OF m, of s r' i "md m\<lparr>searchKey := []\<rparr>"] s 2(1,3,4,5) by simp
  qed (use m eq in simp)
qed

text \<open>The mouse.  Coming back to an item whose submenu is open is the one case that gets out of step.\<close>

lemma mouseEntered_sub:
  assumes "local_ok m0" and "j < length (mitems (md m0))" and "set_userHighlight (int j) m0 = (m, r)" and "subMenuViews m ! j = Some s"
  shows "subMenuViews m0 ! j = Some s"
proof (cases "int j = userHighlightIndex (md m0) \<or> int j = highlightIndex (md m0)")
  case True
  then have "subMenuViews m = subMenuViews m0" using assms(3) by (auto simp: set_userHighlight_def set_highlight_def split: if_splits)
  then show ?thesis using assms(4) by simp
next
  case False
  let ?m = "Menu (md m0\<lparr>userHighlightIndex := int j\<rparr>) (subMenuViews m0)"
  have "local_ok ?m" using same_view(1) [of "md ?m" "md m0" "subMenuViews m0"] assms(1) by simp
  moreover have "set_highlight (int j) ?m = (m, r)" using False assms(3) by (simp add: set_userHighlight_def)
  ultimately have "subMenuViews m = replicate (length (mitems (md ?m))) None"
    using set_highlight_new [of ?m "int j" m r] False assms(2) by simp
  then show ?thesis using assms(2,4) by simp
qed

interpretation hover: menu_step "on_item j (mouseEntered j)" for j
proof
  fix m :: "'a menu"
  show "mitems (md (fst (on_item j (mouseEntered j) m))) = mitems (md m)"
    using set_user_items [of "int j" m] entering.keeps_items [of False "fst (set_userHighlight (int j) m)"]
    by (cases "set_userHighlight (int j) m") (auto simp: on_item_def mouseEntered_def Let_def split: option.splits prod.splits)
next
  fix m0 :: "'a menu" assume m0: "sound m0"
  show "sound (fst (on_item j (mouseEntered j) m0))"
  proof (cases "j < length (mitems (md m0))")
    case True
    obtain m r where m: "set_userHighlight (int j) m0 = (m, r)" by (cases "set_userHighlight (int j) m0")
    have snd: "sound m" "mitems (md m) = mitems (md m0)"
      using set_user_sound [OF m0, of "int j"] set_user_items [of "int j" m0] m True by auto
    show ?thesis
    proof (cases "subMenuViews m ! j")
      case None
      then show ?thesis using True m entering.keeps_sound [OF snd(1), of False]
        by (cases "tryOpenSubmenu False m") (simp add: on_item_def mouseEntered_def)
    next
      case (Some s)
      have j: "j < length (subMenuViews m)" using soundD(1) [OF snd(1)] True snd(2) by (simp add: local_ok_def Let_def)
      note o = open_sub [OF soundD(1) [OF snd(1)] j Some]
      have s: "sound s" using soundD(2) [OF snd(1)] nth_mem [OF j] Some by simp
      let ?s = "fst (set_userHighlight (-1) s)"
      have "sound (Menu (receive (Some (Some (mitems (md m) ! j))) (md m)) ((subMenuViews m)[j := Some ?s]))"
        using o set_user_sound [OF s, of "-1"] by (intro put_sub_sound [OF snd(1)]) simp_all
      then show ?thesis using True m Some
        by (cases "set_userHighlight (-1) s") (simp add: on_item_def mouseEntered_def receive_def Let_def)
    qed
  qed (use m0 in \<open>simp add: on_item_def\<close>)
qed

lemma mouseEntered_in_step:
  assumes "in_step m0" and "\<And>s. objectAt (subMenuViews m0) j \<noteq> Some (Some s)" and "on_item j (mouseEntered j) m0 = (m', r)"
  shows "in_step m' \<and> chosen m' = latest r (chosen m0)"
proof (cases "j < length (mitems (md m0))")
  case True
  obtain m r0 where m: "set_userHighlight (int j) m0 = (m, r0)" by (cases "set_userHighlight (int j) m0")
  have "j < length (subMenuViews m0)" using in_stepD(1) [OF assms(1)] True by (simp add: local_ok_def Let_def)
  then have "subMenuViews m0 ! j = None" using assms(2) by (cases "subMenuViews m0 ! j") (auto simp: objectAt_def)
  then have "subMenuViews m ! j = None"
    using mouseEntered_sub [OF in_stepD(1) [OF assms(1)] True m] by (cases "subMenuViews m ! j") auto
  then obtain r1 where "tryOpenSubmenu False m = (m', r1)" "r = later r0 r1"
    using assms(3) True m by (auto simp: on_item_def mouseEntered_def split: prod.splits)
  then show ?thesis
    using entering.keeps_step [of m False m' r1] set_user_in_step [OF assms(1) _ _ m] True by simp
qed (use assms in \<open>simp add: on_item_def\<close>)

text \<open>The same for the submenus.\<close>

lemma mouse_at_path_in_step:
  assumes "in_step m" and "\<And>s. menu_at (p @ [j]) m \<noteq> Some s" and "at_path p (on_item j (mouseEntered j)) m = (m', r)"
  shows "in_step m' \<and> chosen m' = latest r (chosen m)"
  using assms
proof (induction p arbitrary: m m' r)
  case Nil
  have "objectAt (subMenuViews m) j \<noteq> Some (Some s)" for s using Nil.prems(2) [of s] by auto
  then show ?case using mouseEntered_in_step [OF Nil.prems(1), of j m' r] Nil.prems(3) by simp
next
  case (Cons i p)
  show ?case
  proof (cases "\<exists>s. objectAt (subMenuViews m) i = Some (Some s)")
    case True
    then obtain s where s: "i < length (subMenuViews m)" "subMenuViews m ! i = Some s"
      by (auto simp: objectAt_def split: if_splits)
    have ok: "local_ok m" "in_step s" using in_stepD [OF Cons.prems(1)] s nth_mem [OF s(1)] by auto
    obtain s' where s': "at_path p (on_item j (mouseEntered j)) s = (s', r)"
        "m' = Menu (receive r (md m)) ((subMenuViews m)[i := Some s'])"
      using Cons.prems(3) s by (auto simp: objectAt_def split: prod.splits)
    have "menu_at (p @ [j]) s \<noteq> Some u" for u using Cons.prems(2) [of u] s by (simp add: objectAt_def)
    then have IH: "in_step s'" "chosen s' = latest r (chosen s)" using Cons.IH [OF ok(2) _ s'(1)] by auto
    have items: "mitems (md s') = mitems (md s)"
      using hover.at_path_sound [OF in_step_sound [OF ok(2)], of p j] s'(1) by simp
    note o = open_sub [OF ok(1) s]
    show ?thesis unfolding s'(2)
      using put_sub_in_step [OF Cons.prems(1) IH(1) _ o(1,2)] IH(2) o(4,5,6) items by simp
  next
    case False
    then have "at_path (i # p) (on_item j (mouseEntered j)) m = (m, None)" by (auto split: option.splits)
    then show ?thesis using Cons.prems by simp
  qed
qed

section \<open>Sequences of events\<close>

lemma valueDidChange_cases:
  obtains "valueDidChange v m = (m, None)"
  | i where "valueDidChange v m = set_highlight (int i) m" "-1 \<le> int i" "int i < int (length (mitems (md m)))"
proof (cases v)
  case (Some x)
  show ?thesis
  proof (cases "findIndex (\<lambda>i. mvalue i = Some x) (mitems (md m))")
    case (Some i)
    then show ?thesis using that(2) \<open>v = Some x\<close> findIndex_range [OF Some] by (simp add: valueDidChange_def)
  qed (use that(1) Some in \<open>simp add: valueDidChange_def\<close>)
qed (use that(1) in \<open>simp add: valueDidChange_def\<close>)

lemma update_replicate [simp]: "(replicate n x)[i := x] = replicate n x"
  by (cases "i < n") (simp_all add: list_update_same_conv list_update_beyond)

text \<open>The top-level menu after \<open>init\<close>: of the items with the value, the last one is highlighted.\<close>

lemma init_marks:
  assumes "set is \<subseteq> {..<length (mitems d)}" and "distinct is" and "highlightIndex d \<notin> int ` set is"
    and "length (isSel d) = length (mitems d)" and "-1 \<le> highlightIndex d" and "highlightIndex d < int (length (mitems d))"
    and "\<And>i. i < length (mitems d) \<Longrightarrow> isSel d ! i = (int i = highlightIndex d \<or> i \<in> set is)"
    and "internalSelection d = own_choice (mitems d) (highlightIndex d)"
  shows "in_step (fold (\<lambda>i m. fst (set_highlight (int i) m)) is (Menu d (replicate (length (mitems d)) None)))"
  using assms
proof (induction "is" arbitrary: d)
  case Nil
  then show ?case using closed_menu(1) [of d] by simp
next
  case (Cons i js)
  let ?n = "length (mitems d)" and ?h = "highlightIndex d"
  define b where "b = ((if 0 \<le> ?h then (isSel d)[nat ?h := False] else isSel d)[i := True])"
  let ?d = "d\<lparr>isSel := b, internalSelection := own_choice (mitems d) (int i), highlightIndex := int i\<rparr>"
  have i: "i < ?n" "int i \<noteq> ?h" using Cons.prems(1,3) by auto
  have "set_highlight (int i) (Menu d (replicate ?n None)) = (Menu ?d (replicate ?n None), Some (own_choice (mitems d) (int i)))"
    using i Cons.prems(6)
    by (auto simp: set_highlight_def highlightWillChange_def highlightDidChange_def closeSubMenu_def closing_report_def
        receive_def Let_def objectAt_int_def objectAt_def own_choice_def b_def)
  moreover have "in_step (fold (\<lambda>i m. fst (set_highlight (int i) m)) js (Menu ?d (replicate (length (mitems ?d)) None)))"
  proof (rule Cons.IH)
    fix k assume k: "k < length (mitems ?d)"
    have "isSel d ! k = (int k = ?h \<or> k = i \<or> k \<in> set js)" using Cons.prems(7) [of k] k by auto
    moreover have "int k = ?h \<Longrightarrow> k \<notin> set js" using Cons.prems(3) by (metis image_eqI list.set_intros(2))
    ultimately show "isSel ?d ! k = (int k = highlightIndex ?d \<or> k \<in> set js)"
      using k Cons.prems(4,6) i by (auto simp: b_def nth_list_update)
  qed (use Cons.prems i in \<open>auto simp: b_def\<close>)
  ultimately show ?case by simp
qed

lemma initMenu_in_step: "in_step (initMenu v items)"
proof -
  let ?is = "filter (\<lambda>i. v \<noteq> None \<and> mvalue (items ! i) = v) [0..<length items]"
  define d where "d = md (createMenu v items)"
  have "createMenu v items = Menu d (replicate (length (mitems d)) None)" by (simp add: d_def createMenu_def)
  moreover have "in_step (fold (\<lambda>i m. fst (set_highlight (int i) m)) ?is (Menu d (replicate (length (mitems d)) None)))"
    by (rule init_marks) (auto simp: d_def createMenu_def own_choice_def objectAt_int_def)
  ultimately show ?thesis by (simp add: initMenu_def)
qed

lemma handle_sound: "sound m \<Longrightarrow> sound (handle e m)"
proof (cases e)
  case (SetValue v)
  assume "sound m"
  then show ?thesis using SetValue by (cases v m rule: valueDidChange_cases) (simp_all add: set_highlight_sound)
qed (simp_all add: moveLeft_def stepping.at_path_sound press.at_path_sound timeout.at_path_sound leaving.at_path_sound
    entering.at_path_sound hover.at_path_sound)

text \<open>Re-entering an item whose submenu is open.\<close>

fun reenters :: "'v menu_event \<Rightarrow> 'v menu \<Rightarrow> bool" where
  "reenters (MouseEnter p j) m = (menu_at (p @ [j]) m \<noteq> None)"
| "reenters _ m = False"

fun no_reentry :: "'v menu_event list \<Rightarrow> 'v menu \<Rightarrow> bool" where
  "no_reentry [] m = True"
| "no_reentry (e # es) m = (\<not> reenters e m \<and> no_reentry es (handle e m))"

lemma handle_in_step:
  assumes "in_step m" and "\<not> reenters e m"
  shows "in_step (handle e m)"
proof (cases e)
  case (SetValue v)
  show ?thesis
  proof (cases v m rule: valueDidChange_cases)
    case (2 i)
    then show ?thesis using SetValue set_highlight_in_step [OF assms(1), of "int i"] by (cases "set_highlight (int i) m") simp
  qed (use SetValue assms in simp)
next
  case (MouseEnter p j)
  let ?x = "at_path p (on_item j (mouseEntered j)) m"
  have "menu_at (p @ [j]) m \<noteq> Some s" for s using assms(2) MouseEnter by simp
  then have "in_step (fst ?x)" using mouse_at_path_in_step [OF assms(1), of p j "fst ?x" "snd ?x"] by simp
  then show ?thesis using MouseEnter by simp
qed (simp_all add: assms(1) moveLeft_def stepping.at_path_keeps press.at_path_keeps timeout.at_path_keeps
    leaving.at_path_keeps entering.at_path_keeps)

lemma run_in_step: "in_step m \<Longrightarrow> no_reentry es m \<Longrightarrow> in_step (fold handle es m)"
  by (induction es arbitrary: m) (simp_all add: handle_in_step)

lemma menu_at_sound: "sound m \<Longrightarrow> menu_at p m = Some s \<Longrightarrow> sound s"
proof (induction p arbitrary: m)
  case (Cons i p)
  then obtain u where "objectAt (subMenuViews m) i = Some (Some u)" "menu_at p u = Some s" by (auto split: option.splits)
  moreover have "sound u" using soundD(2) [OF Cons.prems(1)] calculation(1) nth_mem by (metis objectAt_def option.distinct(1) option.inject)
  ultimately show ?case using Cons.IH by blast
qed simp

lemma chosen_selectable: "chosen m = Some i \<Longrightarrow> isSelectable i"
proof (induction m rule: chosen.induct)
  case (1 m)
  then show ?case
    by (subst (asm) (2) chosen.simps) (auto simp: own_choice_def split: option.splits if_splits)
qed

text \<open>
  The menus stay tidy.  Whatever keys are pressed, wherever the mouse goes and whatever value is
  set, in the top-level menu and in every open submenu exactly the highlighted item is marked as
  selected, at most that item has an open submenu, and that submenu shows the item's own entries.
\<close>

theorem menu_highlight_consistent:
  assumes "menu_at p (fold handle es (initMenu v items)) = Some s" and "i < length (mitems (md s))"
  shows "isSel (md s) ! i = (int i = highlightIndex (md s))
    \<and> (\<forall>u. subMenuViews s ! i = Some u \<longrightarrow> int i = highlightIndex (md s) \<and> subMenuItems (mitems (md s) ! i) = Some (mitems (md u)))"
proof -
  have "sound (fold handle es m)" if "sound m" for m using that by (induction es arbitrary: m) (simp_all add: handle_sound)
  then have "local_ok s" using menu_at_sound [OF _ assms(1)] in_step_sound [OF initMenu_in_step] soundD(1) by blast
  then show ?thesis using assms(2) by (simp add: local_ok_def Let_def)
qed

definition file_menu :: "nat menu_item list" where
  "file_menu = [MenuItem ''Open'' (Some 1) False None None, MenuItem ''Close'' (Some 2) True None None,
     MenuItem ''Export'' (Some 3) False None (Some [MenuItem ''Picture'' (Some 31) False None None, MenuItem ''Text'' (Some 32) False None None])]"

theorem menu_highlight_consistent_witness:
  "\<exists>s. menu_at [2] (fold handle [MoveDown, MoveDown, MoveRight] (initMenu (Some 1) file_menu)) = Some s
     \<and> isSel (md s) ! 0 = (int 0 = highlightIndex (md s))"
proof -
  let ?m = "fold handle [MoveDown, MoveDown, MoveRight] (initMenu (Some 1) file_menu)"
  have "(case menu_at [2] ?m of None \<Rightarrow> False | Some s \<Rightarrow> 0 < length (mitems (md s)))" by code_simp
  moreover obtain r where r: "menu_at [2] ?m = r" by blast
  ultimately obtain s where s: "menu_at [2] ?m = Some s" "0 < length (mitems (md s))"
    unfolding r by (cases r) auto
  show ?thesis using menu_highlight_consistent [OF s] s(1) by blast
qed

text \<open>
  C8: what a menu would choose is what it shows.  As long as the mouse does not come back to an item
  whose submenu is open, the selection that \<open>makeSelection\<close> reads from the top-level menu, put
  together from the reports of all open submenus, is the highlighted item at the end of the open
  submenus when that item can be selected, and none otherwise.
\<close>

theorem menu_selection_refines_highlight:
  assumes "no_reentry es (initMenu v items)"
  shows "internalSelection (md (fold handle es (initMenu v items))) = chosen (fold handle es (initMenu v items))
    \<and> (\<forall>i. internalSelection (md (fold handle es (initMenu v items))) = Some i \<longrightarrow> isSelectable i)"
  using in_stepD(2) [OF run_in_step [OF initMenu_in_step assms]] chosen_selectable by auto

theorem menu_selection_refines_highlight_witness:
  "\<exists>m. m = fold handle [MoveDown, MoveDown, MoveRight, MoveDown] (initMenu None file_menu)
     \<and> internalSelection (md m) = chosen m \<and> makeSelection None m = Some (Some 32, None)"
proof -
  have n: "no_reentry [MoveDown, MoveDown, MoveRight, MoveDown] (initMenu None file_menu)" by simp
  have "makeSelection None (fold handle [MoveDown, MoveDown, MoveRight, MoveDown] (initMenu None file_menu)) = Some (Some 32, None)"
    by code_simp
  then show ?thesis using menu_selection_refines_highlight [OF n] by blast
qed

text \<open>
  Coming back to an item with an open submenu selects it: after the mouse went from the item into
  its submenu and back, a click chooses the item itself, although it cannot be selected.
\<close>

theorem reentered_folder_gets_selected:
  "(let m = fold handle [MouseEnter [] 2, MouseEnter [2] 0, MouseEnter [] 2] (initMenu None file_menu);
        (m', made) = mouseClicked [] 2 1000 m
    in (made, makeSelection None m', isSelectable (file_menu ! 2))) = (True, Some (Some 3, None), False)"
  by code_simp

lemma find_upt:
  "find P [a..<n] = Some i \<Longrightarrow> a \<le> i \<and> i < n \<and> P i \<and> (\<forall>k. a \<le> k \<longrightarrow> k < i \<longrightarrow> \<not> P k)"
proof -
  assume "find P [a..<n] = Some i"
  then obtain k where k: "k < n - a" "P ([a..<n] ! k)" "i = [a..<n] ! k" "\<forall>j<k. \<not> P ([a..<n] ! j)"
    by (auto simp: find_Some_iff)
  moreover have "\<not> P m" if "a \<le> m" "m < a + k" for m
    using k(1,4) that by (auto dest: spec [of _ "m - a"])
  ultimately show ?thesis by auto
qed

lemma find_rev_upt:
  "find P (rev [0..<n]) = Some i \<Longrightarrow> i < n \<and> P i \<and> (\<forall>k. i < k \<longrightarrow> k < n \<longrightarrow> \<not> P k)"
proof -
  assume "find P (rev [0..<n]) = Some i"
  then obtain k where k: "k < n" "P (rev [0..<n] ! k)" "i = rev [0..<n] ! k" "\<forall>j<k. \<not> P (rev [0..<n] ! j)"
    by (auto simp: find_Some_iff)
  have r: "rev [0..<n] ! j = n - Suc j" if "j < n" for j using that by (simp add: rev_nth)
  have "\<not> P m" if "i < m" "m < n" for m
  proof -
    have "n - Suc m < k" using k(1,3) that r [OF k(1)] by simp
    then have "\<not> P (n - Suc (n - Suc m))" using k(1,4) r [of "n - Suc m"] that by auto
    then show ?thesis using that by (simp add: Suc_diff_Suc)
  qed
  then show ?thesis using k r by auto
qed

lemma selectNext_highlight:
  "local_ok m \<Longrightarrow> highlightIndex (md (fst (selectNext increment m))) =
     (case next_enabled (mitems (md m)) (next_indexes (highlightIndex (md m)) increment (length (mitems (md m)))) of
        None \<Rightarrow> highlightIndex (md m) | Some i \<Rightarrow> int i)"
proof -
  assume ok: "local_ok m"
  show ?thesis
  proof (cases "next_enabled (mitems (md m)) (next_indexes (highlightIndex (md m)) increment (length (mitems (md m))))")
    case (Some i)
    obtain m' r where m': "set_highlight (int i) m = (m', r)" by (cases "set_highlight (int i) m")
    have "highlightIndex (md m') = int i"
      using set_highlight_new [OF ok _ _ _ m'] selectNext_range [OF ok Some] m' by (cases "int i = highlightIndex (md m)") auto
    then show ?thesis using Some m' by (simp add: selectNext_def clearKeySearch_def)
  qed (simp add: selectNext_def clearKeySearch_def)
qed

text \<open>
  The arrow keys skip what is disabled: \<open>_selectNext(1)\<close> highlights the first enabled item after
  the highlighted one and \<open>_selectNext(-1)\<close> the last one before it; when there is none the
  highlight stays.
\<close>

theorem arrow_keys_skip_disabled:
  assumes "local_ok m" and "h = highlightIndex (md m)"
    and "down = highlightIndex (md (fst (selectNext 1 m)))" and "up = highlightIndex (md (fst (selectNext (-1) m)))"
  shows "(if down = h then \<forall>i < length (mitems (md m)). h < int i \<longrightarrow> \<not> isEnabled (mitems (md m) ! i)
          else h < down \<and> isEnabled (mitems (md m) ! nat down) \<and> (\<forall>i. h < int i \<longrightarrow> int i < down \<longrightarrow> \<not> isEnabled (mitems (md m) ! i)))
    \<and> (if up = h then \<forall>i. int i < h \<longrightarrow> \<not> isEnabled (mitems (md m) ! i)
       else up < h \<and> isEnabled (mitems (md m) ! nat up) \<and> (\<forall>i. up < int i \<longrightarrow> int i < h \<longrightarrow> \<not> isEnabled (mitems (md m) ! i)))"
proof
  let ?items = "mitems (md m)" and ?n = "length (mitems (md m))"
  have h: "-1 \<le> h" "h < int ?n" using assms(1,2) by (simp_all add: local_ok_def Let_def)
  then have hn: "nat (highlightIndex (md m)) \<le> ?n" using assms(2) by simp
  show "if down = h then \<forall>i < ?n. h < int i \<longrightarrow> \<not> isEnabled (?items ! i)
      else h < down \<and> isEnabled (?items ! nat down) \<and> (\<forall>i. h < int i \<longrightarrow> int i < down \<longrightarrow> \<not> isEnabled (?items ! i))"
  proof (cases "find (\<lambda>i. isEnabled (?items ! i)) [nat (h + 1)..<?n]")
    case None
    then have "down = h" using selectNext_highlight [OF assms(1), of 1] assms(2,3) by (simp add: next_enabled_def next_indexes_def)
    then show ?thesis using None h(1) by (auto simp: find_None_iff)
  next
    case (Some i)
    then have "down = int i" using selectNext_highlight [OF assms(1), of 1] assms(2,3) by (simp add: next_enabled_def next_indexes_def)
    then show ?thesis using find_upt [OF Some] h(1) by auto
  qed
  show "if up = h then \<forall>i. int i < h \<longrightarrow> \<not> isEnabled (?items ! i)
      else up < h \<and> isEnabled (?items ! nat up) \<and> (\<forall>i. up < int i \<longrightarrow> int i < h \<longrightarrow> \<not> isEnabled (?items ! i))"
  proof (cases "find (\<lambda>i. isEnabled (?items ! i)) (rev [0..<nat h])")
    case None
    then have "up = h" using selectNext_highlight [OF assms(1), of "-1"] assms(2,4) hn by (simp add: next_enabled_def next_indexes_def)
    then show ?thesis using None by (auto simp: find_None_iff)
  next
    case (Some i)
    then have "up = int i" using selectNext_highlight [OF assms(1), of "-1"] assms(2,4) hn by (simp add: next_enabled_def next_indexes_def)
    then show ?thesis using find_rev_upt [OF Some] by auto
  qed
qed

theorem arrow_keys_skip_disabled_witness:
  "local_ok (initMenu (Some 1) file_menu) \<and> highlightIndex (md (fst (selectNext 1 (initMenu (Some 1) file_menu)))) = 2
     \<and> \<not> isEnabled (file_menu ! 1)"
proof -
  let ?m = "initMenu (Some 1) file_menu"
  have ok: "local_ok ?m" by (rule in_stepD(1) [OF initMenu_in_step])
  have m: "highlightIndex (md ?m) = 0" "mitems (md ?m) = file_menu" "highlightIndex (md (fst (selectNext 1 ?m))) = 2"
      "highlightIndex (md (fst (selectNext (-1) ?m))) = 0" by code_simp+
  show ?thesis
    using arrow_keys_skip_disabled [OF ok refl refl refl] ok unfolding m by auto
qed

section \<open>The size of a menu\<close>

text \<open>
  \<open>_updateMenuSize\<close>: the menu is as high as its items or as the window allows, and is moved up when
  it would reach below the window.  \<open>top\<close> is where the panel was placed.
\<close>

record menu_box =
  mb_top :: int
  mb_height :: int
  mb_needScrolling :: bool

definition updateMenuSize :: "nat \<Rightarrow> int \<Rightarrow> int \<Rightarrow> int \<Rightarrow> int \<Rightarrow> int \<Rightarrow> bool \<Rightarrow> int \<Rightarrow> menu_box" where
  "updateMenuSize itemCount itemHeight margin wh anchorTop anchorHeight isSubMenu topPos =
     (let paddingTop = 5; paddingBottom = 5; borderWidth = 1;
          menuOuterHeight = int itemCount * itemHeight + (paddingTop + paddingBottom) + 2 * borderWidth;
          spaceDownwards = wh - anchorTop + (if isSubMenu then borderWidth + paddingTop else - anchorHeight)
      in if menuOuterHeight + margin * 2 \<le> wh
         then \<lparr>mb_top = (if isSubMenu \<and> spaceDownwards \<ge> menuOuterHeight + margin then anchorTop - (borderWidth + paddingTop)
                        else if spaceDownwards < menuOuterHeight + margin then wh - (menuOuterHeight + margin)
                        else topPos),
               mb_height = menuOuterHeight, mb_needScrolling = False\<rparr>
         else \<lparr>mb_top = margin, mb_height = wh - 2 * margin, mb_needScrolling = True\<rparr>)"

text \<open>
  A menu fits into the window.  A menu placed below its anchor or beside the item it belongs to
  ends at least the margin above the lower edge of the window, starts below the upper edge, and
  scrolls exactly when its items do not fit between the margins.
\<close>

theorem menu_fits_window:
  assumes "b = updateMenuSize itemCount itemHeight margin wh anchorTop anchorHeight isSubMenu topPos"
    and "6 \<le> anchorTop" and "0 \<le> anchorHeight" and "0 \<le> margin" and "isSubMenu \<or> topPos = anchorTop + anchorHeight"
  shows "0 \<le> mb_top b \<and> mb_top b + mb_height b \<le> wh - margin
    \<and> (mb_needScrolling b \<longleftrightarrow> wh < int itemCount * itemHeight + 12 + 2 * margin)"
  using assms by (auto simp: updateMenuSize_def Let_def)

theorem menu_fits_window_witness:
  "mb_top (updateMenuSize 40 21 12 600 500 24 False 524) + mb_height (updateMenuSize 40 21 12 600 500 24 False 524) \<le> 588
   \<and> mb_needScrolling (updateMenuSize 40 21 12 600 500 24 False 524)"
  using menu_fits_window [OF refl, of 500 24 12 False 524 40 21 600] by simp

end
