(* ===== verification/List_View.thy ===== *)
theory List_View
  imports Statechart Drag_Helper
begin

text \<open>
  List views (\<open>views/list_view.js\<close>, \<open>views/list_item_view.js\<close>) and what tree views add to them
  (\<open>views/tree_view.js\<close>): selecting items with mouse and keys, and the statechart that starts,
  performs and ends the reordering of items with the drag helper.
\<close>

section \<open>The list\<close>

record drag_start =
  dh_itemPath :: "nat list"
  dh_lastPageX :: int
  dh_lastPageY :: int
  dh_counter :: nat

text \<open>
  \<open>lv_root\<close> holds the item views with their content (see the drag helper), \<open>lv_selectable\<close> whether
  the view of an item is visible and may be selected, \<open>lv_isSelected\<close> the items whose views are
  marked, and \<open>lv_isDragged\<close> the item whose view is dimmed.
\<close>

record 'a list_data =
  lv_root :: "'a item_node list"
  lv_selectable :: "'a \<Rightarrow> bool"
  lv_allowSelection :: bool
  lv_allowReordering :: bool
  lv_allowReorderingItem :: "nat \<Rightarrow> bool"
  lv_selection :: "'a option"
  lv_isSelected :: "'a list"
  lv_dragHelper :: "drag_start option"
  lv_isDragging :: bool
  lv_isDragged :: "'a option"

abbreviation content :: "'a list_data \<Rightarrow> 'a list" where
  "content d \<equiv> map nitem (lv_root d)"

section \<open>Selecting\<close>

definition setIsSelectedStatus :: "'a option \<Rightarrow> bool \<Rightarrow> 'a list_data \<Rightarrow> 'a list_data" where
  "setIsSelectedStatus contentItem status d = (case contentItem of
       None \<Rightarrow> d
     | Some x \<Rightarrow> (case indexOf (content d) x of
         None \<Rightarrow> d
       | Some _ \<Rightarrow> d\<lparr>lv_isSelected := (if status then List.insert x (lv_isSelected d) else removeAll x (lv_isSelected d))\<rparr>))"

text \<open>Setting \<open>selection\<close> runs \<open>_selectionWillChange\<close> and \<open>_selectionDidChange\<close> when it changes.\<close>

definition set_selection :: "'a option \<Rightarrow> 'a list_data \<Rightarrow> 'a list_data" where
  "set_selection new d =
     (if new = lv_selection d then d
      else setIsSelectedStatus new True ((setIsSelectedStatus (lv_selection d) False d)\<lparr>lv_selection := new\<rparr>))"

definition init_list :: "'a list_data \<Rightarrow> 'a list_data" where
  "init_list d = setIsSelectedStatus (lv_selection d) True d"

definition selectIndex :: "nat \<Rightarrow> 'a list_data \<Rightarrow> bool \<times> 'a list_data" where
  "selectIndex index d =
     (if \<not> lv_allowSelection d then (False, d)
      else (case objectAt (content d) index of
          None \<Rightarrow> (False, d)
        | Some x \<Rightarrow> (if lv_selectable d x then (True, set_selection (Some x) d) else (False, d))))"

text \<open>The loop of \<open>changeSelection\<close>; \<open>indexOf\<close> gives \<open>-1\<close> when nothing is selected.\<close>

function change_from :: "int \<Rightarrow> int \<Rightarrow> 'a list_data \<Rightarrow> bool \<times> 'a list_data" where
  "change_from newIndex direction d =
     (if (direction = 1 \<or> direction = -1) \<and> 0 \<le> newIndex \<and> newIndex < int (length (content d))
      then (case selectIndex (nat newIndex) d of
              (True, d') \<Rightarrow> (True, d')
            | (False, d') \<Rightarrow> change_from (newIndex + direction) direction d)
      else (False, d))"
  by pat_completeness auto
termination
  by (relation "measure (\<lambda>(n, dir, d). if dir = 1 then nat (int (length (content d)) - n) else nat (n + 1))") auto

declare change_from.simps [simp del]

definition changeSelection :: "int \<Rightarrow> 'a list_data \<Rightarrow> bool \<times> 'a list_data" where
  "changeSelection direction d =
     (let index = (case lv_selection d of None \<Rightarrow> -1 | Some x \<Rightarrow> (case indexOf (content d) x of None \<Rightarrow> -1 | Some i \<Rightarrow> int i))
      in change_from (index + direction) direction d)"

section \<open>The statechart\<close>

datatype list_state = ListIdle | MouseButtonPressed | Reordering

type_synonym 'a list_owner = "(list_state, 'a list_data) owner"

record 'a list_event =
  le_pageX :: int
  le_pageY :: int
  le_geometry :: "'a geometry"

definition idle_enterState :: "(list_state, 'a list_data) hook" where
  "idle_enterState c = Inr (upd (\<lambda>d. d\<lparr>lv_dragHelper := None\<rparr>) c)"

text \<open>\<open>initReorder\<close> and \<open>finishReorder\<close> of the drag helper need the view at the item path.\<close>

definition reordering_enterState :: "(list_state, 'a list_data) hook" where
  "reordering_enterState c = (case lv_dragHelper (ownerData c) of
       None \<Rightarrow> Inl TypeError
     | Some h \<Rightarrow> rbind (viewAt (lv_root (ownerData c)) (dh_itemPath h)) (\<lambda>v.
         Inr (upd (\<lambda>d. d\<lparr>lv_isDragged := Some (nitem v), lv_isDragging := True\<rparr>) c)))"

definition reordering_exitState :: "(list_state, 'a list_data) hook" where
  "reordering_exitState c = (case lv_dragHelper (ownerData c) of
       None \<Rightarrow> Inl TypeError
     | Some h \<Rightarrow> rbind (viewAt (lv_root (ownerData c)) (dh_itemPath h)) (\<lambda>v.
         Inr (upd (\<lambda>d. d\<lparr>lv_isDragged := None, lv_dragHelper := None, lv_isDragging := False\<rparr>) c)))"

fun list_hooks :: "list_state \<Rightarrow> (list_state, 'a list_data, 'a list_event) owner_prop" where
  "list_hooks ListIdle = AState \<lparr>enterState = Some idle_enterState, exitState = None, methods = []\<rparr>"
| "list_hooks MouseButtonPressed = AState \<lparr>enterState = None, exitState = None, methods = []\<rparr>"
| "list_hooks Reordering = AState \<lparr>enterState = Some reordering_enterState, exitState = Some reordering_exitState, methods = []\<rparr>"

definition list_goto :: "list_state \<Rightarrow> 'a list_owner \<Rightarrow> 'a list_owner result" where
  "list_goto n = gotoFlameState list_hooks (Some n)"

text \<open>Reading the position of the item's view fails when there is none.\<close>

definition mouseDownOnItem :: "nat \<Rightarrow> 'a list_event \<Rightarrow> 'a list_owner \<Rightarrow> 'a list_owner result" where
  "mouseDownOnItem itemIndex e c =
     (let d = snd (selectIndex itemIndex (ownerData c)) in
      rbind (if lv_allowReordering d \<and> lv_allowReorderingItem d itemIndex
             then (case objectAt (lv_root d) itemIndex of
                 None \<Rightarrow> Inl TypeError
               | Some _ \<Rightarrow> Inr (d\<lparr>lv_dragHelper := Some \<lparr>dh_itemPath = [itemIndex], dh_lastPageX = le_pageX e,
                     dh_lastPageY = le_pageY e, dh_counter = 0\<rparr>\<rparr>))
             else Inr d) (\<lambda>d'.
      list_goto MouseButtonPressed (c\<lparr>ownerData := d'\<rparr>)))"

definition shouldStartDragging :: "'a list_event \<Rightarrow> 'a list_data \<Rightarrow> bool" where
  "shouldStartDragging e d = (case lv_dragHelper d of
       None \<Rightarrow> False
     | Some h \<Rightarrow> \<bar>dh_lastPageX h - le_pageX e\<bar> > 4 \<or> \<bar>dh_lastPageY h - le_pageY e\<bar> > 4)"

text \<open>
  \<open>mouseMove\<close> while reordering schedules \<open>updateDisplay\<close>, which runs at the end of the same run
  loop.
\<close>

definition reordering_mouseMove :: "'a valid_drop \<Rightarrow> 'a list_event \<Rightarrow> 'a list_owner \<Rightarrow> 'a list_owner result" where
  "reordering_mouseMove valid e c = (case lv_dragHelper (ownerData c) of
       None \<Rightarrow> Inl TypeError
     | Some h \<Rightarrow> rbind (updateDisplay valid (le_pageX e) (le_geometry e) None
           \<lparr>d_root = lv_root (ownerData c), d_itemPath = dh_itemPath h, d_lastPageX = dh_lastPageX h,
            d_mouseMoveCounter = dh_counter h\<rparr>) (\<lambda>g.
         Inr (upd (\<lambda>d. d\<lparr>lv_root := d_root g, lv_dragHelper := Some (h\<lparr>dh_itemPath := d_itemPath g,
            dh_lastPageX := d_lastPageX g, dh_counter := d_mouseMoveCounter g\<rparr>)\<rparr>) c)))"

definition startReordering :: "'a valid_drop \<Rightarrow> drag_start \<Rightarrow> 'a list_event \<Rightarrow> 'a list_owner \<Rightarrow> 'a list_owner result" where
  "startReordering valid h e c =
     rbind (list_goto Reordering (upd (\<lambda>d. d\<lparr>lv_dragHelper := Some h\<rparr>) c)) (reordering_mouseMove valid e)"

definition pressed_mouseMove :: "'a valid_drop \<Rightarrow> 'a list_event \<Rightarrow> 'a list_owner \<Rightarrow> 'a list_owner result" where
  "pressed_mouseMove valid e c =
     (if shouldStartDragging e (ownerData c)
      then rbind (list_goto ListIdle c) (startReordering valid (the (lv_dragHelper (ownerData c))) e)
      else Inr c)"

datatype 'a list_input = DownOnItem nat "'a list_event" | UpOnItem | Up | Move "'a list_event" | ArrowUp | ArrowDown

text \<open>What the current state makes of an event; a method that it does not have does nothing.\<close>

definition list_handle :: "'a valid_drop \<Rightarrow> 'a list_input \<Rightarrow> 'a list_owner \<Rightarrow> 'a list_owner result" where
  "list_handle valid i c = (case currentFlameState c of
       None \<Rightarrow> Inl (AssertionFailed ''Cannot invoke state method without having a current state!'')
     | Some ListIdle \<Rightarrow> (case i of
           DownOnItem k e \<Rightarrow> mouseDownOnItem k e c
         | ArrowUp \<Rightarrow> Inr (upd (\<lambda>d. snd (changeSelection (-1) d)) c)
         | ArrowDown \<Rightarrow> Inr (upd (\<lambda>d. snd (changeSelection 1 d)) c)
         | _ \<Rightarrow> Inr c)
     | Some MouseButtonPressed \<Rightarrow> (case i of
           UpOnItem \<Rightarrow> list_goto ListIdle c
         | Up \<Rightarrow> list_goto ListIdle c
         | Move e \<Rightarrow> pressed_mouseMove valid e c
         | _ \<Rightarrow> Inr c)
     | Some Reordering \<Rightarrow> (case i of
           Up \<Rightarrow> list_goto ListIdle c
         | Move e \<Rightarrow> reordering_mouseMove valid e c
         | _ \<Rightarrow> Inr c))"

fun list_run :: "'a valid_drop \<Rightarrow> 'a list_input list \<Rightarrow> 'a list_owner \<Rightarrow> 'a list_owner result" where
  "list_run valid [] c = Inr c"
| "list_run valid (i # is) c = rbind (list_handle valid i c) (list_run valid is)"

text \<open>
  In a tree every nested list puts the index of the item it belongs to in front of the path and
  hands over to its parent.
\<close>

fun tree_startReordering :: "nat list \<Rightarrow> drag_start \<Rightarrow> drag_start" where
  "tree_startReordering [] h = h"
| "tree_startReordering (i # q) h =
     (let h' = tree_startReordering q h in h'\<lparr>dh_itemPath := i # dh_itemPath h'\<rparr>)"

section \<open>The nearest selectable item\<close>

definition selectable_at :: "'a list_data \<Rightarrow> nat \<Rightarrow> bool" where
  "selectable_at d i \<longleftrightarrow> lv_allowSelection d \<and> lv_selectable d (content d ! i)"

definition current_index :: "'a list_data \<Rightarrow> int" where
  "current_index d = (case lv_selection d of None \<Rightarrow> -1 | Some x \<Rightarrow> (case indexOf (content d) x of None \<Rightarrow> -1 | Some i \<Rightarrow> int i))"

lemma selectIndex_in_range:
  "i < length (lv_root d) \<Longrightarrow> selectIndex i d =
     (if selectable_at d i then (True, set_selection (Some (content d ! i)) d) else (False, d))"
  by (simp add: selectIndex_def selectable_at_def objectAt_def)

lemma change_from_result:
  assumes "change_from n dir d = (r, d')" and "dir = 1 \<or> dir = -1"
  shows "(r \<and> (\<exists>i < length (lv_root d). 0 \<le> (int i - n) * dir \<and> selectable_at d i
            \<and> d' = set_selection (Some (content d ! i)) d
            \<and> (\<forall>k < length (lv_root d). 0 \<le> (int k - n) * dir \<longrightarrow> 0 < (int i - int k) * dir \<longrightarrow> \<not> selectable_at d k)))
    \<or> (\<not> r \<and> d' = d \<and> (0 \<le> n \<and> n < int (length (lv_root d)) \<longrightarrow>
          (\<forall>k < length (lv_root d). 0 \<le> (int k - n) * dir \<longrightarrow> \<not> selectable_at d k)))"
  using assms
proof (induction n dir d arbitrary: r d' rule: change_from.induct)
  case (1 n dir d)
  show ?case
  proof (cases "0 \<le> n \<and> n < int (length (lv_root d))")
    case False
    then show ?thesis using 1(2) by (auto simp: change_from.simps [of n dir d])
  next
    case in_range: True
    then have n: "nat n < length (lv_root d)" "int (nat n) = n" by auto
    show ?thesis
    proof (cases "selectable_at d (nat n)")
      case True
      then have "r" "d' = set_selection (Some (content d ! nat n)) d"
        using 1(2,3) n by (auto simp: change_from.simps [of n dir d] selectIndex_in_range)
      moreover have "\<not> (0 \<le> (int k - n) * dir \<and> 0 < (int (nat n) - int k) * dir)" for k
        using n(2) 1(3) by (auto simp: algebra_simps)
      ultimately show ?thesis using True n by (intro disjI1 conjI exI [of _ "nat n"]) auto
    next
      case False
      have sel: "selectIndex (nat n) d = (False, d)" using False n(1) by (simp add: selectIndex_in_range)
      have step: "change_from (n + dir) dir d = (r, d')"
        using 1(2,3) n sel by (simp add: change_from.simps [of n dir d])
      have cond: "(dir = 1 \<or> dir = -1) \<and> 0 \<le> n \<and> n < int (length (content d))" using 1(3) in_range by auto
      have IH: "(r \<and> (\<exists>i < length (lv_root d). 0 \<le> (int i - (n + dir)) * dir \<and> selectable_at d i
            \<and> d' = set_selection (Some (content d ! i)) d
            \<and> (\<forall>k < length (lv_root d). 0 \<le> (int k - (n + dir)) * dir \<longrightarrow> 0 < (int i - int k) * dir \<longrightarrow> \<not> selectable_at d k)))
        \<or> (\<not> r \<and> d' = d \<and> (0 \<le> n + dir \<and> n + dir < int (length (lv_root d)) \<longrightarrow>
          (\<forall>k < length (lv_root d). 0 \<le> (int k - (n + dir)) * dir \<longrightarrow> \<not> selectable_at d k)))"
        by (rule 1(1) [OF cond sel [symmetric] refl step 1(3)])
      have next_k: "0 \<le> (int k - (n + dir)) * dir" if "0 \<le> (int k - n) * dir" "selectable_at d k" for k
      proof -
        have "int k \<noteq> n" using False that(2) by auto
        then show ?thesis using that(1) 1(3) by auto
      qed
      have beyond: "k \<ge> length (lv_root d)" if "\<not> (0 \<le> n + dir \<and> n + dir < int (length (lv_root d)))" "0 \<le> (int k - (n + dir)) * dir" for k
        using that 1(3) n by auto
      show ?thesis
        using IH
      proof
        assume r: "r \<and> (\<exists>i < length (lv_root d). 0 \<le> (int i - (n + dir)) * dir \<and> selectable_at d i
            \<and> d' = set_selection (Some (content d ! i)) d
            \<and> (\<forall>k < length (lv_root d). 0 \<le> (int k - (n + dir)) * dir \<longrightarrow> 0 < (int i - int k) * dir \<longrightarrow> \<not> selectable_at d k))"
        then obtain i where i: "i < length (lv_root d)" "0 \<le> (int i - (n + dir)) * dir" "selectable_at d i"
            "d' = set_selection (Some (content d ! i)) d"
            "\<forall>k < length (lv_root d). 0 \<le> (int k - (n + dir)) * dir \<longrightarrow> 0 < (int i - int k) * dir \<longrightarrow> \<not> selectable_at d k" by blast
        have "0 \<le> (int i - n) * dir" using i(2) 1(3) by auto
        then show ?thesis using r i next_k by blast
      next
        assume "\<not> r \<and> d' = d \<and> (0 \<le> n + dir \<and> n + dir < int (length (lv_root d)) \<longrightarrow>
          (\<forall>k < length (lv_root d). 0 \<le> (int k - (n + dir)) * dir \<longrightarrow> \<not> selectable_at d k))"
        then show ?thesis using next_k beyond by (metis not_less)
      qed
    qed
  qed
qed

lemma selection_set: "lv_selection (set_selection new d) = new"
  by (simp add: set_selection_def setIsSelectedStatus_def split: option.splits)

text \<open>
  The arrow keys select the nearest item in their direction that can be selected.
  \<open>changeSelection\<close> returns true exactly when there is one beyond the selected item, skips the
  items between, and leaves the list alone when it returns false.
\<close>

theorem arrows_select_nearest:
  assumes "dir = 1 \<or> dir = -1" and "changeSelection dir d = (r, d')"
  shows "(r \<longleftrightarrow> (\<exists>i < length (lv_root d). 0 < (int i - current_index d) * dir \<and> selectable_at d i))
    \<and> (r \<longrightarrow> (\<exists>i < length (lv_root d). 0 < (int i - current_index d) * dir \<and> selectable_at d i
          \<and> lv_selection d' = Some (content d ! i)
          \<and> (\<forall>k < length (lv_root d). 0 < (int k - current_index d) * dir \<longrightarrow> 0 < (int i - int k) * dir \<longrightarrow> \<not> selectable_at d k)))
    \<and> (\<not> r \<longrightarrow> d' = d)"
proof -
  let ?c = "current_index d"
  let ?n = "?c + dir"
  have run: "change_from ?n dir d = (r, d')"
    using assms(2) by (simp add: changeSelection_def current_index_def Let_def)
  have near: "0 \<le> (int k - ?n) * dir \<longleftrightarrow> 0 < (int k - ?c) * dir" for k using assms(1) by auto
  have beyond: "?n \<le> -1 \<or> int (length (lv_root d)) \<le> ?n" if "\<not> (0 \<le> ?n \<and> ?n < int (length (lv_root d)))" using that by auto
  have low: "-1 \<le> ?c" by (simp add: current_index_def split: option.splits)
  have high: "?c \<le> int (length (lv_root d))"
    by (auto simp: current_index_def dest: indexOf_Some_nth split: option.splits)
  have none: "k \<ge> length (lv_root d)" if "\<not> (0 \<le> ?n \<and> ?n < int (length (lv_root d)))" "0 < (int k - ?c) * dir" for k
    using that beyond low high assms(1) by auto
  show ?thesis
    using change_from_result [OF run assms(1)] unfolding near
  proof
    assume r: "r \<and> (\<exists>i < length (lv_root d). 0 < (int i - ?c) * dir \<and> selectable_at d i
            \<and> d' = set_selection (Some (content d ! i)) d
            \<and> (\<forall>k < length (lv_root d). 0 < (int k - ?c) * dir \<longrightarrow> 0 < (int i - int k) * dir \<longrightarrow> \<not> selectable_at d k))"
    then obtain i where i: "i < length (lv_root d)" "0 < (int i - ?c) * dir" "selectable_at d i"
        "d' = set_selection (Some (content d ! i)) d"
        "\<forall>k < length (lv_root d). 0 < (int k - ?c) * dir \<longrightarrow> 0 < (int i - int k) * dir \<longrightarrow> \<not> selectable_at d k" by blast
    have "lv_selection d' = Some (content d ! i)" unfolding i(4) by (rule selection_set)
    then show ?thesis using r i by blast
  next
    assume "\<not> r \<and> d' = d \<and> (0 \<le> ?n \<and> ?n < int (length (lv_root d)) \<longrightarrow>
          (\<forall>k < length (lv_root d). 0 < (int k - ?c) * dir \<longrightarrow> \<not> selectable_at d k))"
    then show ?thesis using none by (meson not_less)
  qed
qed

definition four_items :: "nat list_data" where
  "four_items = \<lparr>lv_root = map (\<lambda>x. Item x False False None) [1, 2, 3, 4], lv_selectable = (\<lambda>x. x \<noteq> 2), lv_allowSelection = True,
     lv_allowReordering = True, lv_allowReorderingItem = (\<lambda>_. True), lv_selection = Some 1, lv_isSelected = [1],
     lv_dragHelper = None, lv_isDragging = False, lv_isDragged = None\<rparr>"

theorem arrows_select_nearest_witness:
  "fst (changeSelection 1 four_items) \<and> lv_selection (snd (changeSelection 1 four_items)) = Some 3"
proof -
  have ev: "fst (changeSelection 1 four_items)" "lv_selection (snd (changeSelection 1 four_items)) = Some 3" by code_simp+
  have run: "changeSelection 1 four_items = (True, snd (changeSelection 1 four_items))" using ev(1) by (simp add: prod_eq_iff)
  have "True \<longleftrightarrow> (\<exists>i < length (lv_root four_items). 0 < (int i - current_index four_items) * 1 \<and> selectable_at four_items i)"
    using arrows_select_nearest [OF disjI1 [OF refl] run(1)] by blast
  then show ?thesis using ev by simp
qed

section \<open>Marks follow the selection\<close>

definition marks_ok :: "'a list_data \<Rightarrow> bool" where
  "marks_ok d \<longleftrightarrow> set (lv_isSelected d) = {x. lv_selection d = Some x \<and> x \<in> set (content d)}"

lemma setIsSelectedStatus_simps [simp]:
  "lv_root (setIsSelectedStatus x s d) = lv_root d" "lv_selection (setIsSelectedStatus x s d) = lv_selection d"
  "lv_selectable (setIsSelectedStatus x s d) = lv_selectable d" "lv_allowSelection (setIsSelectedStatus x s d) = lv_allowSelection d"
  by (simp_all add: setIsSelectedStatus_def split: option.splits)

lemma setIsSelectedStatus_marks:
  "set (lv_isSelected (setIsSelectedStatus x s d)) =
     (if s then set (lv_isSelected d) \<union> {y. x = Some y \<and> y \<in> set (content d)}
      else set (lv_isSelected d) - {y. x = Some y \<and> y \<in> set (content d)})"
  by (auto simp: setIsSelectedStatus_def split: option.splits dest: indexOf_Some_nth)

lemma set_selection_marks: "marks_ok d \<Longrightarrow> marks_ok (set_selection new d)"
  by (auto simp: marks_ok_def set_selection_def setIsSelectedStatus_marks)

lemma set_selection_simps [simp]:
  "lv_root (set_selection x d) = lv_root d" "lv_dragHelper (set_selection x d) = lv_dragHelper d"
  "lv_isDragging (set_selection x d) = lv_isDragging d" "lv_isDragged (set_selection x d) = lv_isDragged d"
  by (simp_all add: set_selection_def setIsSelectedStatus_def split: option.splits)

lemma selectIndex_result: "snd (selectIndex i d) = d \<or> (\<exists>x. snd (selectIndex i d) = set_selection (Some x) d)"
  by (auto simp: selectIndex_def split: option.splits)

lemma changeSelection_result:
  "dir = 1 \<or> dir = -1 \<Longrightarrow> snd (changeSelection dir d) = d \<or> (\<exists>x. snd (changeSelection dir d) = set_selection (Some x) d)"
proof (cases "changeSelection dir d")
  case (Pair r d')
  assume dir: "dir = 1 \<or> dir = -1"
  obtain n where "change_from n dir d = (r, d')" using Pair by (auto simp: changeSelection_def Let_def)
  then show ?thesis using change_from_result [OF _ dir] Pair by fastforce
qed

section \<open>Reordering\<close>

text \<open>
  What holds between events: no item occurs twice and expanded items are rendered; outside
  reordering nothing is dragged, and while reordering the item path of the drag helper leads to
  the dimmed item.
\<close>

definition list_ok :: "'a list_owner \<Rightarrow> bool" where
  "list_ok c \<longleftrightarrow> (let d = ownerData c in
     distinct (items (lv_root d)) \<and> shown (lv_root d)
     \<and> (case currentFlameState c of
          None \<Rightarrow> False
        | Some ListIdle \<Rightarrow> lv_dragHelper d = None \<and> \<not> lv_isDragging d \<and> lv_isDragged d = None
        | Some MouseButtonPressed \<Rightarrow> \<not> lv_isDragging d \<and> lv_isDragged d = None
            \<and> (case lv_dragHelper d of None \<Rightarrow> True | Some h \<Rightarrow> (case viewAt (lv_root d) (dh_itemPath h) of Inl _ \<Rightarrow> False | Inr _ \<Rightarrow> True))
        | Some Reordering \<Rightarrow> lv_isDragging d \<and> (case lv_dragHelper d of
              None \<Rightarrow> False
            | Some h \<Rightarrow> (case viewAt (lv_root d) (dh_itemPath h) of Inl _ \<Rightarrow> False | Inr v \<Rightarrow> lv_isDragged d = Some (nitem v)))))"

text \<open>
  The events the page sends: an item that is pressed is in the list, and the elements read on a
  mouse move show the tree.
\<close>

definition event_ok :: "'a list_owner \<Rightarrow> 'a list_input \<Rightarrow> bool" where
  "event_ok c i = (let d = ownerData c in case i of
       DownOnItem k e \<Rightarrow> k < length (lv_root d)
     | Move e \<Rightarrow> (case lv_dragHelper d of
           None \<Rightarrow> True
         | Some h \<Rightarrow> (case viewAt (lv_root d) (dh_itemPath h) of Inl _ \<Rightarrow> True | Inr v \<Rightarrow> geometry_ok (lv_root d) v (le_geometry e)))
     | _ \<Rightarrow> True)"

fun events_ok :: "'a valid_drop \<Rightarrow> 'a list_input list \<Rightarrow> 'a list_owner \<Rightarrow> bool" where
  "events_ok valid [] c = True"
| "events_ok valid (i # is) c = (event_ok c i \<and> (case list_handle valid i c of Inl _ \<Rightarrow> True | Inr c' \<Rightarrow> events_ok valid is c'))"

definition keeps_items :: "'a list_owner \<Rightarrow> 'a list_owner \<Rightarrow> bool" where
  "keeps_items c c' \<longleftrightarrow> list_ok c' \<and> mset (items (lv_root (ownerData c'))) = mset (items (lv_root (ownerData c)))"

lemma reorder_move:
  assumes "list_ok c" and "currentFlameState c = Some Reordering" and "event_ok c (Move e)"
  shows "\<exists>c'. reordering_mouseMove valid e c = Inr c' \<and> keeps_items c c'"
proof -
  let ?d = "ownerData c"
  obtain h v where h: "lv_dragHelper ?d = Some h" "viewAt (lv_root ?d) (dh_itemPath h) = Inr v" "lv_isDragged ?d = Some (nitem v)"
      "lv_isDragging ?d"
    using assms(1,2) by (auto simp: list_ok_def Let_def split: option.splits sum.splits)
  have ok: "distinct (items (lv_root ?d))" "shown (lv_root ?d)" "geometry_ok (lv_root ?d) v (le_geometry e)"
    using assms(1,3) h(1,2) by (simp_all add: list_ok_def event_ok_def Let_def)
  let ?g = "\<lparr>d_root = lv_root ?d, d_itemPath = dh_itemPath h, d_lastPageX = dh_lastPageX h, d_mouseMoveCounter = dh_counter h\<rparr>"
  obtain g' v' where g: "updateDisplay valid (le_pageX e) (le_geometry e) None ?g = Inr g'"
      "mset (items (d_root g')) = mset (items (lv_root ?d))" "viewAt (d_root g') (d_itemPath g') = Inr v'" "nitem v' = nitem v"
    using updateDisplay_keeps [of ?g v "le_geometry e" valid "le_pageX e" None] ok h(2) shown_rendered by auto
  have "distinct (items (d_root g'))" using g(2) ok(1) mset_eq_imp_distinct_iff by blast
  moreover have "shown (d_root g')" using updateDisplay_shown [OF g(1)] ok(1,2) by simp
  ultimately show ?thesis
    using h g assms(2) by (simp add: reordering_mouseMove_def keeps_items_def list_ok_def Let_def)
qed

lemmas goto_defs = list_goto_def gotoFlameState_def exit_current_def run_hook_def

lemma idle_keeps:
  assumes "list_ok c" and "event_ok c i" and "currentFlameState c = Some ListIdle"
  shows "\<exists>c'. list_handle valid i c = Inr c' \<and> keeps_items c c'"
proof -
  let ?d = "ownerData c"
  have refl: "keeps_items c c" using assms(1) by (simp add: keeps_items_def)
  have arrows: "keeps_items c (upd (\<lambda>d. snd (changeSelection dir d)) c)" if "dir = 1 \<or> dir = -1" for dir
    using changeSelection_result [OF that, of ?d] assms(1,3) by (auto simp: keeps_items_def list_ok_def Let_def)
  show ?thesis
  proof (cases i)
    case (DownOnItem k e)
    let ?s = "snd (selectIndex k ?d)"
    have same: "lv_root ?s = lv_root ?d" "lv_dragHelper ?s = lv_dragHelper ?d" "lv_isDragging ?s = lv_isDragging ?d"
        "lv_isDragged ?s = lv_isDragged ?d" using selectIndex_result [of k ?d] by auto
    have k: "k < length (lv_root ?d)" using assms(2) DownOnItem by (simp add: event_ok_def Let_def)
    show ?thesis using assms(1,3) DownOnItem k same
      by (auto simp: list_handle_def mouseDownOnItem_def Let_def goto_defs keeps_items_def list_ok_def viewAt_def)
  qed (use assms(3) refl arrows in \<open>simp_all add: list_handle_def\<close>)
qed

lemma pressed_move:
  assumes "list_ok c" and "event_ok c (Move e)" and "currentFlameState c = Some MouseButtonPressed"
  shows "\<exists>c'. pressed_mouseMove valid e c = Inr c' \<and> keeps_items c c'"
proof (cases "shouldStartDragging e (ownerData c)")
  case True
  let ?d = "ownerData c"
  obtain h v where h: "lv_dragHelper ?d = Some h" "viewAt (lv_root ?d) (dh_itemPath h) = Inr v"
    using True assms(1,3) by (auto simp: shouldStartDragging_def list_ok_def Let_def split: option.splits sum.splits)
  define c1 where "c1 = c\<lparr>currentFlameState := Some Reordering,
      ownerData := ?d\<lparr>lv_dragHelper := Some h, lv_isDragged := Some (nitem v), lv_isDragging := True\<rparr>\<rparr>"
  have "pressed_mouseMove valid e c = reordering_mouseMove valid e c1"
    using True h assms(3)
    by (simp add: pressed_mouseMove_def startReordering_def goto_defs idle_enterState_def reordering_enterState_def c1_def upd_def)
  moreover have "list_ok c1" "event_ok c1 (Move e)" "currentFlameState c1 = Some Reordering"
      "mset (items (lv_root (ownerData c1))) = mset (items (lv_root ?d))"
    using assms(1,2) h by (simp_all add: c1_def list_ok_def event_ok_def Let_def upd_def)
  ultimately show ?thesis using reorder_move [of c1 e valid] by (simp add: keeps_items_def)
qed (use assms(1) in \<open>auto simp: pressed_mouseMove_def keeps_items_def\<close>)

lemma pressed_keeps:
  assumes "list_ok c" and "event_ok c i" and "currentFlameState c = Some MouseButtonPressed"
  shows "\<exists>c'. list_handle valid i c = Inr c' \<and> keeps_items c c'"
proof -
  have up: "\<exists>c'. list_goto ListIdle c = Inr c' \<and> keeps_items c c'"
    using assms(1,3) by (simp add: goto_defs idle_enterState_def keeps_items_def list_ok_def Let_def)
  have refl: "keeps_items c c" using assms(1) by (simp add: keeps_items_def)
  show ?thesis using up pressed_move [OF assms(1) _ assms(3)] assms(2,3) refl by (cases i) (simp_all add: list_handle_def)
qed

lemma reordering_keeps:
  assumes "list_ok c" and "event_ok c i" and "currentFlameState c = Some Reordering"
  shows "\<exists>c'. list_handle valid i c = Inr c' \<and> keeps_items c c'"
proof -
  obtain h v where "lv_dragHelper (ownerData c) = Some h" "viewAt (lv_root (ownerData c)) (dh_itemPath h) = Inr v"
    using assms(1,3) by (auto simp: list_ok_def Let_def split: option.splits sum.splits)
  then have up: "\<exists>c'. list_goto ListIdle c = Inr c' \<and> keeps_items c c'"
    using assms(1,3) by (simp add: goto_defs reordering_exitState_def idle_enterState_def keeps_items_def list_ok_def Let_def)
  have refl: "keeps_items c c" using assms(1) by (simp add: keeps_items_def)
  show ?thesis using up reorder_move [OF assms(1,3)] assms(2,3) refl by (cases i) (simp_all add: list_handle_def)
qed

lemma handle_keeps:
  assumes "list_ok c" and "event_ok c i"
  shows "\<exists>c'. list_handle valid i c = Inr c' \<and> keeps_items c c'"
proof -
  consider "currentFlameState c = Some ListIdle" | "currentFlameState c = Some MouseButtonPressed"
    | "currentFlameState c = Some Reordering"
    using assms(1) by (auto simp: list_ok_def Let_def split: option.splits list_state.splits)
  then show ?thesis using idle_keeps [OF assms] pressed_keeps [OF assms] reordering_keeps [OF assms] by cases
qed

lemma run_keeps:
  "list_ok c \<Longrightarrow> events_ok valid is c \<Longrightarrow> \<exists>c'. list_run valid is c = Inr c' \<and> keeps_items c c'"
proof (induction "is" arbitrary: c)
  case Nil
  then show ?case by (simp add: keeps_items_def)
next
  case (Cons i "is")
  obtain c1 where c1: "list_handle valid i c = Inr c1" "keeps_items c c1"
    using handle_keeps [OF Cons.prems(1)] Cons.prems(2) by auto
  then show ?case using Cons.IH [of c1] Cons.prems(2) by (auto simp: keeps_items_def)
qed

text \<open>
  C11: a list survives every sequence of mouse and key events.  Starting from a list in order, no
  handler throws, whatever the reorder delegate answers; the list afterwards holds exactly the
  items it had, nothing is left dimmed or marked as dragging once the list is idle, and while it
  is being reordered the drag helper still knows the dragged item.
\<close>

theorem list_events_keep_items:
  assumes "list_ok c" and "events_ok valid is c"
  shows "\<exists>c'. list_run valid is c = Inr c' \<and> list_ok c'
    \<and> mset (items (lv_root (ownerData c'))) = mset (items (lv_root (ownerData c)))"
  using run_keeps [OF assms] by (simp add: keeps_items_def)

text \<open>
  A list of items 11 and 12 in which item 12 was pressed and dragged above item 11; the delegate
  allows every drop.
\<close>

definition two_rows :: "nat geometry" where
  "two_rows = \<lparr>g_elements = map (\<lambda>i. \<lparr>e_item = 11 + i, e_top = of_nat (20 * i), e_height = 20, e_visible = True,
       e_inDragged = (i = 1), e_inClone = False\<rparr>) [0, 1],
     g_start = 1, g_cloneTop = 2, g_cloneHeight = 20, g_draggedTop = 20\<rparr>"

definition two_data :: "nat list_data" where
  "two_data =
     \<lparr>lv_root = map (\<lambda>x. Item x False False None) [11, 12], lv_selectable = (\<lambda>_. True), lv_allowSelection = True,
      lv_allowReordering = True, lv_allowReorderingItem = (\<lambda>_. True), lv_selection = Some 11, lv_isSelected = [],
      lv_dragHelper = None, lv_isDragging = False, lv_isDragged = None\<rparr>"

definition two_items :: "nat list_owner" where
  "two_items = \<lparr>currentFlameState = Some ListIdle, ownerData = init_list two_data\<rparr>"

definition drag_up :: "nat list_input list" where
  "drag_up = [DownOnItem 1 \<lparr>le_pageX = 5, le_pageY = 25, le_geometry = two_rows\<rparr>,
     Move \<lparr>le_pageX = 5, le_pageY = 7, le_geometry = two_rows\<rparr>, Up]"

theorem list_events_keep_items_witness:
  "\<exists>c'. list_run (\<lambda>_ _ _. True) drag_up two_items = Inr c' \<and> list_ok c'
    \<and> mset (items (lv_root (ownerData c'))) = {#11, 12#}"
proof -
  have "list_ok two_items" "events_ok (\<lambda>_ _ _. True) drag_up two_items" "items (lv_root (ownerData two_items)) = [11, 12]"
    by code_simp+
  then show ?thesis using list_events_keep_items [of two_items "\<lambda>_ _ _. True" drag_up] by auto
qed

section \<open>Marks and reordering\<close>

definition flat :: "'a item_node list \<Rightarrow> bool" where
  "flat l \<longleftrightarrow> list_all (\<lambda>v. childList v = None) l"

lemma items_flat: "flat l \<Longrightarrow> items l = map nitem l"
proof (induction l)
  case (Cons v vs)
  then show ?case by (cases v) (auto simp: flat_def)
qed simp

lemma flat_remove: "flat l \<Longrightarrow> flat (remove_item x l)"
  by (induction x l rule: remove_item.induct) (auto simp: flat_def)

lemma flat_insert: "flat l \<Longrightarrow> childList v = None \<Longrightarrow> flat (insert_rel pos t v l)"
proof (induction pos t v l rule: insert_rel.induct)
  case (2 pos t v y h e vs)
  then show ?case by (cases pos) (auto simp: flat_def)
qed (auto simp: flat_def)

lemma flat_view: "flat l \<Longrightarrow> getView l p = Inr (Some v) \<Longrightarrow> childList v = None"
  by (induction l p rule: getView.induct) (auto simp: flat_def list_all_length split: option.splits)

lemma flat_move: "flat tree \<Longrightarrow> moveItem tree src tp = Inr r \<Longrightarrow> flat r"
  by (auto simp: moveItem_def viewAt_getView flat_insert flat_remove flat_view split: if_splits)

lemma goto_frame:
  assumes "list_goto n c = Inr c'"
  shows "lv_root (ownerData c') = lv_root (ownerData c)" "lv_selection (ownerData c') = lv_selection (ownerData c)"
    "lv_isSelected (ownerData c') = lv_isSelected (ownerData c)"
proof -
  define frame where "frame c c' \<longleftrightarrow> lv_root (ownerData c') = lv_root (ownerData c)
     \<and> lv_selection (ownerData c') = lv_selection (ownerData c) \<and> lv_isSelected (ownerData c') = lv_isSelected (ownerData c)"
    for c c' :: "'a list_owner"
  have enter: "frame c c'" if "list_hooks n = AState s" "run_hook (enterState s) c = Inr c'" for n c c' and s :: "(list_state, 'a list_data, 'a list_event) flame_state"
    using that by (cases n) (auto simp: frame_def run_hook_def idle_enterState_def reordering_enterState_def split: option.splits)
  have exit: "frame c c'" if "exit_current list_hooks c = Inr c'" for c c'
    using that by (cases "currentFlameState c" rule: option.exhaust; cases "the (currentFlameState c)")
      (auto simp: frame_def exit_current_def run_hook_def reordering_exitState_def split: option.splits)
  have "frame c c'"
    using assms enter exit unfolding list_goto_def gotoFlameState_def
    by (auto simp: frame_def split: if_splits owner_prop.splits)
  then show "lv_root (ownerData c') = lv_root (ownerData c)" "lv_selection (ownerData c') = lv_selection (ownerData c)"
    "lv_isSelected (ownerData c') = lv_isSelected (ownerData c)" by (simp_all add: frame_def)
qed

text \<open>What an event may do to the rows, the selection and the marks.\<close>

definition still :: "'a list_data \<Rightarrow> 'a list_data \<Rightarrow> bool" where
  "still d d' \<longleftrightarrow> lv_selection d' = lv_selection d \<and> lv_isSelected d' = lv_isSelected d
     \<and> (lv_root d' = lv_root d \<or> (\<exists>p q. moveItem (lv_root d) p q = Inr (lv_root d')))"

definition framed :: "'a list_data \<Rightarrow> 'a list_data \<Rightarrow> bool" where
  "framed d d' \<longleftrightarrow> still d d' \<or> (\<exists>x. still (set_selection (Some x) d) d')"

lemma still_refl [simp]: "still d d" by (simp add: still_def)

lemma still_goto: "list_goto n c = Inr c' \<Longrightarrow> still (ownerData c) (ownerData c')"
  using goto_frame [of n c c'] by (simp add: still_def)

lemma move_frame:
  assumes "reordering_mouseMove valid e c = Inr c'"
  shows "still (ownerData c) (ownerData c')"
proof -
  obtain h where h: "lv_dragHelper (ownerData c) = Some h"
    using assms by (auto simp: reordering_mouseMove_def split: option.splits)
  then obtain g where g: "updateDisplay valid (le_pageX e) (le_geometry e) None
        \<lparr>d_root = lv_root (ownerData c), d_itemPath = dh_itemPath h, d_lastPageX = dh_lastPageX h, d_mouseMoveCounter = dh_counter h\<rparr> = Inr g"
      "lv_root (ownerData c') = d_root g" "lv_selection (ownerData c') = lv_selection (ownerData c)"
      "lv_isSelected (ownerData c') = lv_isSelected (ownerData c)"
    using assms by (auto simp: reordering_mouseMove_def)
  show ?thesis using updateDisplay_root [OF g(1)] g(2-) by (auto simp: still_def)
qed

lemma pressed_frame:
  assumes "pressed_mouseMove valid e c = Inr c'"
  shows "still (ownerData c) (ownerData c')"
proof (cases "shouldStartDragging e (ownerData c)")
  case True
  then obtain c1 c2 h where c: "list_goto ListIdle c = Inr c1" "list_goto Reordering (upd (\<lambda>d. d\<lparr>lv_dragHelper := h\<rparr>) c1) = Inr c2"
      "reordering_mouseMove valid e c2 = Inr c'" using assms by (auto simp: pressed_mouseMove_def startReordering_def)
  then show ?thesis using goto_frame [OF c(1)] goto_frame [OF c(2)] move_frame [OF c(3)] by (simp add: still_def)
qed (use assms in \<open>simp add: pressed_mouseMove_def\<close>)

lemma down_frame:
  assumes "mouseDownOnItem k e c = Inr c'"
  shows "framed (ownerData c) (ownerData c')"
proof -
  let ?s = "snd (selectIndex k (ownerData c))"
  obtain d' where d': "list_goto MouseButtonPressed (c\<lparr>ownerData := d'\<rparr>) = Inr c'" "lv_root d' = lv_root ?s"
      "lv_selection d' = lv_selection ?s" "lv_isSelected d' = lv_isSelected ?s"
    using assms by (auto simp: mouseDownOnItem_def Let_def split: if_splits option.splits)
  then have "still ?s (ownerData c')" using still_goto [OF d'(1)] by (simp add: still_def)
  then show ?thesis using selectIndex_result [of k "ownerData c"] by (auto simp: framed_def)
qed

lemma handle_frame:
  assumes "list_handle valid i c = Inr c'"
  shows "framed (ownerData c) (ownerData c')"
proof -
  let ?d = "ownerData c"
  have arrows: "framed ?d (snd (changeSelection dir ?d))" if "dir = 1 \<or> dir = -1" for dir
    using changeSelection_result [OF that, of ?d] still_refl unfolding framed_def by metis
  have still: "framed ?d d'" if "still ?d d'" for d' using that by (simp add: framed_def)
  obtain s where s: "currentFlameState c = Some s" using assms by (auto simp: list_handle_def split: option.splits)
  show ?thesis
    using assms s arrows [of 1] arrows [of "-1"] down_frame [of _ _ c c'] still [OF pressed_frame] still [OF move_frame] still [OF still_goto]
      still [OF still_refl]
    by (cases s; cases i) (auto simp: list_handle_def)
qed

lemma framed_marks:
  assumes "framed d d'" and "marks_ok d" and "flat (lv_root d)" and "mset (items (lv_root d')) = mset (items (lv_root d))"
  shows "marks_ok d' \<and> flat (lv_root d')"
proof -
  obtain d1 where d1: "still d1 d'" "marks_ok d1" "lv_root d1 = lv_root d"
    using assms(1,2) set_selection_marks set_selection_simps(1) unfolding framed_def by metis
  have f: "flat (lv_root d')" using d1(1,3) assms(3) flat_move by (auto simp: still_def)
  have "mset (content d') = mset (content d)" using assms(4) items_flat [OF f] items_flat [OF assms(3)] by simp
  then have "set (content d') = set (content d)" by (rule mset_eq_setD)
  then show ?thesis using d1 f by (simp add: marks_ok_def still_def)
qed

lemma run_marks:
  "list_ok c \<Longrightarrow> events_ok valid is c \<Longrightarrow> marks_ok (ownerData c) \<Longrightarrow> flat (lv_root (ownerData c)) \<Longrightarrow>
   \<exists>c'. list_run valid is c = Inr c' \<and> marks_ok (ownerData c')"
proof (induction "is" arbitrary: c)
  case (Cons i "is")
  obtain c1 where c1: "list_handle valid i c = Inr c1" "keeps_items c c1"
    using handle_keeps [OF Cons.prems(1)] Cons.prems(2) by auto
  have "marks_ok (ownerData c1) \<and> flat (lv_root (ownerData c1))"
    using framed_marks [OF handle_frame [OF c1(1)] Cons.prems(3,4)] c1(2) by (simp add: keeps_items_def)
  then show ?case using Cons.IH [of c1] Cons.prems(2) c1 by (auto simp: keeps_items_def)
qed simp

text \<open>
  Exactly the selected item is marked.  From the creation of a list without nested lists, and
  through every sequence of mouse and key events, drags included, a row is marked as selected
  exactly when its item is the selection.
\<close>

theorem list_marks_selection:
  assumes "list_ok c" and "ownerData c = init_list d" and "lv_isSelected d = []" and "flat (lv_root d)" and "events_ok valid is c"
  shows "\<exists>c'. list_run valid is c = Inr c'
    \<and> (\<forall>x. x \<in> set (lv_isSelected (ownerData c')) \<longleftrightarrow> lv_selection (ownerData c') = Some x \<and> x \<in> set (content (ownerData c')))"
proof -
  have "marks_ok (ownerData c)" "flat (lv_root (ownerData c))"
    unfolding assms(2) using assms(3,4) by (auto simp: init_list_def marks_ok_def setIsSelectedStatus_marks)
  then show ?thesis using run_marks [OF assms(1,5)] by (simp add: marks_ok_def set_eq_iff)
qed

theorem list_marks_selection_witness:
  "\<exists>c'. list_run (\<lambda>_ _ _. True) drag_up two_items = Inr c'
    \<and> (\<forall>x. x \<in> set (lv_isSelected (ownerData c')) \<longleftrightarrow> lv_selection (ownerData c') = Some x \<and> x \<in> set (content (ownerData c')))"
proof -
  have "list_ok two_items" "events_ok (\<lambda>_ _ _. True) drag_up two_items" by code_simp+
  then show ?thesis
    by (intro list_marks_selection [of two_items two_data]) (simp_all add: two_items_def two_data_def flat_def)
qed

section \<open>Dragging in a tree\<close>

text \<open>
  The path that nested tree views build while they hand a drag to their parents names the
  same view from the root as the index of the item did in the innermost list.
\<close>

theorem tree_path_reaches_item:
  assumes "q \<noteq> []" and "viewAt tree q = Inr w" and "childList w = Some l" and "i < length l" and "dh_itemPath h = [i]"
  shows "viewAt tree (dh_itemPath (tree_startReordering q h)) = Inr (l ! i)"
proof -
  have "dh_itemPath (tree_startReordering q h) = q @ [i]" using assms(5) by (induction q) (simp_all add: Let_def)
  then show ?thesis using assms(2-4) getView_append [OF assms(1), of "[i]" tree] by (simp add: viewAt_getView)
qed

theorem tree_path_reaches_item_witness:
  "viewAt small_tree (dh_itemPath (tree_startReordering [0] \<lparr>dh_itemPath = [1], dh_lastPageX = 0, dh_lastPageY = 0, dh_counter = 0\<rparr>))
     = Inr (Item 12 False False None)"
  using tree_path_reaches_item [of "[0]" small_tree "hd small_tree" "[Item 11 False False None, Item 12 False False None]" 1
      "\<lparr>dh_itemPath = [1], dh_lastPageX = 0, dh_lastPageY = 0, dh_counter = 0\<rparr>"]
  by (simp add: small_tree_def viewAt_def)

text \<open>
  \<open>_treeSelectionDidChange\<close>: a nested tree view passes its selection on to its parent and clears
  its own.  The list holds the selections from the tree view that is set up to the root.
\<close>

fun tree_set_selection :: "'a option \<Rightarrow> 'a option list \<Rightarrow> 'a option list" where
  "tree_set_selection new [] = []"
| "tree_set_selection new [s] = [new]"
| "tree_set_selection new (s # t # ts) =
     (if new = s then s # t # ts
      else (case new of None \<Rightarrow> None # t # ts | Some x \<Rightarrow> None # tree_set_selection (Some x) (t # ts)))"

text \<open>The highlight of an item: \<open>classAttribute\<close> of the tree item view.\<close>

definition tree_highlighted :: "'a option list \<Rightarrow> 'a \<Rightarrow> bool" where
  "tree_highlighted chain x \<longleftrightarrow> last chain = Some x"

lemma tree_set_selection_root:
  "chain \<noteq> [] \<Longrightarrow> list_all (\<lambda>s. s = None) (butlast chain) \<Longrightarrow>
   tree_set_selection (Some x) chain = replicate (length chain - 1) None @ [Some x]"
  by (induction "Some x" chain rule: tree_set_selection.induct) auto

text \<open>
  A tree has one selection.  Selecting an item in a tree view at any depth, in a tree where
  only the root holds a selection, leaves the selection at the root alone, and exactly the
  selected item is highlighted.
\<close>

theorem tree_selects_at_root:
  assumes "chain \<noteq> []" and "list_all (\<lambda>s. s = None) (butlast chain)"
  shows "list_all (\<lambda>s. s = None) (butlast (tree_set_selection (Some x) chain))
    \<and> (\<forall>y. tree_highlighted (tree_set_selection (Some x) chain) y \<longleftrightarrow> y = x)"
  unfolding tree_set_selection_root [OF assms] by (auto simp: tree_highlighted_def list_all_length)

theorem tree_selects_at_root_witness:
  "tree_highlighted (tree_set_selection (Some 7) [None, None, Some (3 :: nat)]) 7"
  using tree_selects_at_root [of "[None, None, Some (3 :: nat)]" 7] by simp

section \<open>List items\<close>

text \<open>
  \<open>list_item_view.js\<close>: an item view relays mouse and touch events to the list that held it when it
  was pressed, because a drag may move it to another list.  \<open>'l\<close> names lists; an event comes with
  the list that holds the item by then.
\<close>

datatype item_input = ItemDown | ItemMove | ItemUp

definition item_view_step :: "item_input \<times> 'l \<Rightarrow> 'l option \<Rightarrow> ('l \<times> item_input) option \<times> 'l option" where
  "item_view_step ev parentViewOnMouseDown = (case ev of
       (ItemDown, parentView) \<Rightarrow> (Some (parentView, ItemDown), Some parentView)
     | (ItemMove, _) \<Rightarrow> (map_option (\<lambda>l. (l, ItemMove)) parentViewOnMouseDown, parentViewOnMouseDown)
     | (ItemUp, _) \<Rightarrow> (map_option (\<lambda>l. (l, ItemUp)) parentViewOnMouseDown, None))"

fun item_view_run :: "(item_input \<times> 'l) list \<Rightarrow> 'l option \<Rightarrow> ('l \<times> item_input) list" where
  "item_view_run [] p = []"
| "item_view_run (ev # evs) p = (case item_view_step ev p of
     (None, p') \<Rightarrow> item_view_run evs p' | (Some r, p') \<Rightarrow> r # item_view_run evs p')"

text \<open>A press that is open goes with the moves and the release of the same list.\<close>

fun presses_matched :: "('l \<times> item_input) list \<Rightarrow> 'l option \<Rightarrow> bool" where
  "presses_matched [] p = True"
| "presses_matched ((l, ItemDown) # rs) p = presses_matched rs (Some l)"
| "presses_matched ((l, ItemMove) # rs) p = (p = Some l \<and> presses_matched rs p)"
| "presses_matched ((l, ItemUp) # rs) p = (p = Some l \<and> presses_matched rs None)"

lemma item_view_run_matched: "presses_matched (item_view_run evs p) p"
  by (induction evs p rule: item_view_run.induct)
    (auto simp: item_view_step_def split: prod.splits item_input.splits option.splits)

text \<open>
  Wherever a drag puts an item view, the list that saw it pressed sees its moves and its
  release: every relayed move or release goes to the list of the last press that is still open.
\<close>

theorem item_relays_to_pressed_list: "presses_matched (item_view_run evs None) None"
  by (rule item_view_run_matched)

end
