(* ===== verification/Table_View.thy ===== *)
theory Table_View
  imports Table_Model "HOL-Library.Multiset"
begin

text \<open>
  The table view around the data (\<open>views/table_view.js\<close>): how the header tables are laid out and
  rendered, which header a click reports, resizing columns and row headers with the mouse, and
  keeping the headers in place while the data scrolls.
\<close>

section \<open>Sizes\<close>

text \<open>
  \<open>maxDepth\<close> of the header rows is the maximum over the leafs; without leafs it is \<open>-Infinity\<close>
  (\<open>None\<close>).
\<close>

definition depth_of :: "header_cell list list \<Rightarrow> nat option" where
  "depth_of rows = (if filter is_leaf_cell (concat rows) = [] then None else Some (maxDepth rows))"

text \<open>
  An entry of \<open>rowHeaderWidths()\<close>; past the end of the array it is \<open>undefined\<close>.  The corner adds
  up the entries that are not \<open>NaN\<close>, where \<open>null\<close> counts as 0; the columns of the row header take
  the entries that are truthy.
\<close>

datatype width_entry = NullWidth | Width int

definition corner_entry :: "width_entry list \<Rightarrow> int \<Rightarrow> nat \<Rightarrow> int" where
  "corner_entry ws dflt i = (case objectAt ws i of None \<Rightarrow> dflt | Some NullWidth \<Rightarrow> 0 | Some (Width w) \<Rightarrow> w)"

definition leftOffset :: "width_entry list option \<Rightarrow> int \<Rightarrow> nat option \<Rightarrow> bool \<Rightarrow> bool \<Rightarrow> int option" where
  "leftOffset widths dflt depth renderRowHeader renderColumnHeader =
     (if \<not> renderRowHeader then Some 0
      else (let gap = 1 + (if renderColumnHeader then 0 else 5) in
        case widths of
          Some ws \<Rightarrow> Some (sum_list (map (corner_entry ws dflt) [0..<max (case depth of None \<Rightarrow> 0 | Some d \<Rightarrow> d) 1]) + gap)
        | None \<Rightarrow> map_option (\<lambda>d. int d * dflt + gap) depth))"

definition row_cols :: "width_entry list option \<Rightarrow> int \<Rightarrow> nat option \<Rightarrow> int list" where
  "row_cols widths dflt depth = (case depth of
       None \<Rightarrow> []
     | Some d \<Rightarrow> map (\<lambda>i. case widths of
            None \<Rightarrow> dflt
          | Some ws \<Rightarrow> (case objectAt ws i of Some (Width w) \<Rightarrow> (if w \<noteq> 0 then w else dflt) | _ \<Rightarrow> dflt))
         [0..<(if d = 0 then 1 else d)])"

text \<open>The columns of the column header: \<open>render_width\<close> of the leaf or the default.\<close>

definition column_cols :: "header list \<Rightarrow> int \<Rightarrow> int list" where
  "column_cols hs dflt = map (\<lambda>l. case leaf_attrs l ''render_width'' of Some (JNum w) \<Rightarrow> (if w \<noteq> 0 then w else dflt) | _ \<Rightarrow> dflt)
     (getLeafs hs [])"

definition columnHeaderHeight :: "nat \<Rightarrow> int" where
  "columnHeaderHeight depth = int depth * 21 + 1 + int depth"

definition topOffset :: "bool \<Rightarrow> bool \<Rightarrow> nat \<Rightarrow> int" where
  "topOffset didRenderTitle renderColumnHeader depth =
     (if didRenderTitle then 18 else 0) + (if renderColumnHeader then columnHeaderHeight depth else 0)"

text \<open>\<open>_setColumnHeaderHeights\<close>: the new height of the corner and the new top of the data.\<close>

definition setColumnHeaderHeights :: "int list \<Rightarrow> int \<Rightarrow> int \<Rightarrow> int \<times> int" where
  "setColumnHeaderHeights heights columnRowHeight tableTopMargin =
     (let totalHeight = 2 + int (length heights) - 1 + sum_list (map (\<lambda>h. h * columnRowHeight) heights)
      in (totalHeight, totalHeight + tableTopMargin))"

section \<open>Rendering the headers\<close>

text \<open>\<open>_getLeafs\<close> leaves the number of a leaf on the header object.\<close>

fun mark_header :: "header \<Rightarrow> nat \<Rightarrow> header \<times> nat" and mark_headers :: "header list \<Rightarrow> nat \<Rightarrow> header list \<times> nat" where
  "mark_header (Header a i None) n = (Header (a(''leafIndex'' \<mapsto> JNum (int n))) i None, Suc n)"
| "mark_header (Header a i (Some cs)) n = (case mark_headers cs n of (cs', n') \<Rightarrow> (Header a i (Some cs'), n'))"
| "mark_headers [] n = ([], n)"
| "mark_headers (h # hs) n = (case mark_header h n of (h', n1) \<Rightarrow> (case mark_headers hs n1 of (hs', n2) \<Rightarrow> (h' # hs', n2)))"

text \<open>String replacement, as \<open>replace\<close> does with a global pattern without special characters.\<close>

function replaceAll :: "string \<Rightarrow> string \<Rightarrow> string \<Rightarrow> string" where
  "replaceAll pat rep s =
     (if pat \<noteq> [] \<and> take (length pat) s = pat then rep @ replaceAll pat rep (drop (length pat) s)
      else (case s of [] \<Rightarrow> [] | c # cs \<Rightarrow> c # replaceAll pat rep cs))"
  by pat_completeness auto
termination
proof (relation "measure (\<lambda>(pat, rep, s). length s)")
  fix pat s :: string
  assume a: "pat \<noteq> [] \<and> take (length pat) s = pat"
  then have "length pat \<le> length s" by (metis length_take min.cobounded1 min.commute)
  then show "((pat, rep, drop (length pat) s), pat, rep, s) \<in> measure (\<lambda>(pat, rep, s). length s)" for rep
    using a by (cases pat) auto
qed auto

declare replaceAll.simps [simp del]

record header_td =
  td_title :: string
  td_guid :: "jsval option"
  td_rowspan :: "nat option"
  td_colspan :: "nat option"
  td_dataIndex :: "nat option"
  td_leafIndex :: "jsval option"
  td_handle :: "string option"
  td_class :: "string list"
  td_icon :: "string option"
  td_label :: string

text \<open>
  The properties of the view that rendering reads.  \<open>v_escape\<close> is \<open>escapeExpression\<close> of Handlebars,
  \<open>v_sort\<close> the sort direction from the delegate (\<open>None\<close> without one), \<open>v_cssClasses\<close> and
  \<open>v_isClickable\<close> what the header object answers.
\<close>

record view_opts =
  v_escape :: "string \<Rightarrow> string"
  v_isResizable :: bool
  v_renderColumnHeader :: bool
  v_isColumnHeaderClickable :: bool
  v_isRowHeaderClickable :: bool
  v_sort :: "header \<Rightarrow> string option"
  v_cssClasses :: "header \<Rightarrow> string list"
  v_isClickable :: "header \<Rightarrow> bool"

definition label_text :: "view_opts \<Rightarrow> header \<Rightarrow> string" where
  "label_text v h = replaceAll ''&lt;br&gt;'' ''<br>''
     (v_escape v (case hattrs h ''label'' of Some (JStr s) \<Rightarrow> s | _ \<Rightarrow> []))"

definition span_attr :: "nat \<Rightarrow> nat option" where
  "span_attr n = (if n > 1 then Some n else None)"

text \<open>
  A column header spans its leafs across and, when it is a leaf, the levels below it; a row header
  the other way round.  Headers that are not leafs have no span across the levels.
\<close>

definition cross_attr :: "header_cell list list \<Rightarrow> header_cell \<Rightarrow> nat option" where
  "cross_attr rows c = (if is_leaf_cell c then span_attr (leaf_cross_span rows c) else None)"

definition resize_handle :: "view_opts \<Rightarrow> header_axis \<Rightarrow> header_cell \<Rightarrow> string option" where
  "resize_handle v ax c =
     (if \<not> (v_isResizable v \<and> v_renderColumnHeader v) then None
      else (case ax of
          Columns \<Rightarrow> (if is_leaf_cell c then Some ''<div class=\"resize-handle\">&nbsp;</div>'' else None)
        | Rows \<Rightarrow> Some (if is_leaf_cell c then ''<div class=\"resize-handle\"></div>''
              else ''<div class=\"resize-handle\" style=\"height: '' @ decimal (header_count (hc_header c) * 21) @ ''px\"></div>'')))"

definition clickable :: "view_opts \<Rightarrow> header_axis \<Rightarrow> header_cell \<Rightarrow> bool" where
  "clickable v ax c = (case ax of
       Columns \<Rightarrow> v_isColumnHeaderClickable v \<and> v_isClickable v (hc_header c)
     | Rows \<Rightarrow> v_renderColumnHeader v \<and> v_isRowHeaderClickable v \<and> v_isClickable v (hc_header c))"

definition td_of :: "view_opts \<Rightarrow> header_axis \<Rightarrow> header_cell list list \<Rightarrow> nat \<Rightarrow> header_cell \<Rightarrow> header_td" where
  "td_of v ax rows i c =
     (let text = label_text v (hc_header c); leaf = is_leaf_cell c;
          sort = (if ax = Columns \<and> leaf then (case v_sort v (hc_header c) of None \<Rightarrow> '''' | Some s \<Rightarrow> ''sort-'' @ s) else '''')
      in \<lparr>td_title = replaceAll ''<br>'' ''\<newline>'' text,
          td_guid = (case hattrs (hc_header c) ''guid'' of Some g \<Rightarrow> (if truthy g then Some g else None) | None \<Rightarrow> None),
          td_rowspan = (case ax of Columns \<Rightarrow> cross_attr rows c | Rows \<Rightarrow> span_attr (hc_span c)),
          td_colspan = (case ax of Columns \<Rightarrow> span_attr (hc_span c) | Rows \<Rightarrow> cross_attr rows c),
          td_dataIndex = (case ax of Columns \<Rightarrow> (if leaf then Some i else None) | Rows \<Rightarrow> Some (dataIndex c)),
          td_leafIndex = (if ax = Columns \<and> leaf then hattrs (hc_header c) ''leafIndex'' else None),
          td_handle = resize_handle v ax c,
          td_class = [if i mod 2 = 0 then ''even-col'' else ''odd-col''] @ v_cssClasses v (hc_header c)
             @ (if clickable v ax c then [''clickable''] else []) @ (if hc_depth c = 1 then [''base-header''] else []),
          td_icon = (if hc_depth c = 1 \<and> hattrs (hc_header c) ''type'' = Some (JStr ''row'')
             then Some ''<div class=\"row-highlight-icon\"></div>'' else None),
          td_label = (if ax = Rows \<and> clickable v ax c then text
             else ''<div class=\"label'' @ (if ax = Columns \<and> leaf then '' '' @ sort else '''') @ ''\">'' @ text @ ''</div>'')\<rparr>)"

definition renderRow :: "view_opts \<Rightarrow> header_axis \<Rightarrow> header_cell list list \<Rightarrow> header_cell list \<Rightarrow> header_td list" where
  "renderRow v ax rows row = map (\<lambda>(i, c). td_of v ax rows i c) (enumerate 0 row)"

text \<open>The rows of a header table: the class of the row and its cells.\<close>

definition renderHeader :: "view_opts \<Rightarrow> header_axis \<Rightarrow> header_cell list list \<Rightarrow> (string \<times> header_td list) list" where
  "renderHeader v ax rows = map (\<lambda>(i, row).
     ((case ax of Columns \<Rightarrow> ''level-'' @ decimal (Suc i) | Rows \<Rightarrow> ''''), renderRow v ax rows row)) (enumerate 0 rows)"

section \<open>Clicks\<close>

text \<open>
  A click on a column header reads the level from the class of the row
  (\<open>match(/level\-(\d+)/)[1]\<close>) and the position of the cell in it; one on a row header reads
  \<open>data-index\<close> and takes the top-level header with that index.
\<close>

fun after_level :: "string \<Rightarrow> string option" where
  "after_level [] = None"
| "after_level (c # cs) = (if take 6 (c # cs) = ''level-'' \<and> takeWhile is_digit (drop 6 (c # cs)) \<noteq> []
     then Some (takeWhile is_digit (drop 6 (c # cs))) else after_level cs)"

definition columnHeaderAt :: "header_cell list list \<Rightarrow> string \<Rightarrow> nat \<Rightarrow> header_cell option result" where
  "columnHeaderAt rows tr_class td_index = (case after_level tr_class of
       None \<Rightarrow> Inl TypeError
     | Some ds \<Rightarrow> (case objectAt_int rows (int (digits_value ds) - 1) of
         None \<Rightarrow> Inl TypeError
       | Some row \<Rightarrow> Inr (objectAt row td_index)))"

definition rowHeaderAt :: "header list \<Rightarrow> nat \<Rightarrow> header option" where
  "rowHeaderAt hs index = objectAt hs index"

section \<open>Resizing\<close>

datatype table_state = TableIdle | ClickInProgress | Resizing

datatype resize_type = ColumnType | RowType

text \<open>Which methods the \<open>tableViewDelegate\<close> has, when there is one.\<close>

record table_delegate =
  has_columnResized :: bool
  has_rowHeaderResized :: bool
  has_columnHeaderClicked :: bool
  has_rowHeaderClicked :: bool

definition delegate_has :: "(table_delegate \<Rightarrow> bool) \<Rightarrow> table_delegate option \<Rightarrow> bool" where
  "delegate_has m dg = (case dg of None \<Rightarrow> False | Some d \<Rightarrow> m d)"

text \<open>
  The calls of the delegate that matter, and the elements that resizing changes: the columns of
  the column header, the first row of the data table, the columns of the row header, and the
  three elements placed next to the row header.
\<close>

datatype delegate_call = ColumnResized nat int | RowHeaderResized "int list"
  | ColumnHeaderClicked "header_cell option" | RowHeaderClicked "header option" nat

record table_page =
  hcols :: "int list"
  dcols :: "int list"
  rcols :: "int list"
  scrollable_left :: int
  columnHeader_left :: int
  corner_width :: int
  isEditing :: bool
  calls :: "delegate_call list"
  tv_type :: resize_type
  resizingColumn :: nat
  tv_dragStartX :: int
  tv_startX :: int
  tv_offset :: int
  tv_cells :: "header_cell list option"

definition MIN_COLUMN_WIDTH :: int where
  "MIN_COLUMN_WIDTH = 30"

text \<open>
  \<open>remainingDepth += attr('colspan') || 1\<close>: the attribute is a string, and \<open>+\<close> with a string
  concatenates.  The result is converted back to a number when it is subtracted.
\<close>

definition js_plus :: "jsval \<Rightarrow> jsval \<Rightarrow> jsval" where
  "js_plus a b = (case (a, b) of
       (JNum m, JNum n) \<Rightarrow> JNum (m + n)
     | (JNum m, JStr t) \<Rightarrow> JStr (decimal (nat m) @ t)
     | (JStr s, JNum n) \<Rightarrow> JStr (s @ decimal (nat n))
     | (JStr s, JStr t) \<Rightarrow> JStr (s @ t)
     | _ \<Rightarrow> JUndefined)"

definition to_number :: "jsval \<Rightarrow> int" where
  "to_number v = (case v of JNum n \<Rightarrow> n | JStr s \<Rightarrow> int (digits_value s) | _ \<Rightarrow> 0)"

definition colspan_or_1 :: "header_cell list list \<Rightarrow> header_cell \<Rightarrow> jsval" where
  "colspan_or_1 rows c = (case cross_attr rows c of None \<Rightarrow> JNum 1 | Some n \<Rightarrow> JStr (decimal n))"

definition remainingDepth :: "header_cell list list \<Rightarrow> header_cell list \<Rightarrow> jsval" where
  "remainingDepth rows nextAll = foldl js_plus (JNum 0) (map (colspan_or_1 rows) nextAll)"

definition resize_level :: "header_cell list list \<Rightarrow> nat \<Rightarrow> nat \<Rightarrow> int" where
  "resize_level rows r k = int (maxDepth rows) - to_number (remainingDepth rows (drop (Suc k) (rows ! r))) - 1"

text \<open>The first cells without \<open>colspan\<close>, as many as there are levels.\<close>

definition resize_cells :: "header_cell list list \<Rightarrow> header_cell list" where
  "resize_cells rows = take (maxDepth rows) (filter (\<lambda>c. cross_attr rows c = None) (concat rows))"

text \<open>
  What the mouse is pressed on: the handle of a column (its leaf index and the width of its cell),
  the handle of a row header cell (row and position; \<open>clientWidth\<close> of the cells as the browser
  measures it), or something else.
\<close>

datatype press = ColumnHandle nat int | RowHandle nat nat "header_cell \<Rightarrow> int" | NoHandle

definition enter_resizing :: "header_cell list list \<Rightarrow> press \<Rightarrow> table_page \<Rightarrow> table_page result" where
  "enter_resizing rows tgt p = (case tgt of
       ColumnHandle leaf w \<Rightarrow> Inr (p\<lparr>resizingColumn := leaf\<rparr>)
     | RowHandle r k clientWidth \<Rightarrow> (case objectAt_int (resize_cells rows) (resize_level rows r k) of
           None \<Rightarrow> Inl TypeError
         | Some c \<Rightarrow> Inr (p\<lparr>tv_cells := Some (resize_cells rows), resizingColumn := nat (resize_level rows r k),
              tv_startX := clientWidth c + 1\<rparr>))
     | NoHandle \<Rightarrow> Inr p)"

definition idle_mouseDown ::
  "header_cell list list \<Rightarrow> press \<Rightarrow> int \<Rightarrow> table_page \<Rightarrow> (table_state \<times> table_page) result" where
  "idle_mouseDown rows tgt pageX p = (case tgt of
       NoHandle \<Rightarrow> Inr (ClickInProgress, p)
     | ColumnHandle leaf w \<Rightarrow> rbind (enter_resizing rows tgt (p\<lparr>isEditing := False, tv_type := ColumnType,
           tv_dragStartX := pageX, tv_startX := w + 1, tv_offset := corner_width p\<rparr>)) (\<lambda>p'. Inr (Resizing, p'))
     | RowHandle r k clientWidth \<Rightarrow> rbind (enter_resizing rows tgt (p\<lparr>isEditing := False, tv_type := RowType,
           tv_dragStartX := pageX, tv_startX := clientWidth (rows ! r ! k) + 1, tv_offset := corner_width p\<rparr>)) (\<lambda>p'. Inr (Resizing, p')))"

definition setColumnWidth :: "nat \<Rightarrow> int \<Rightarrow> table_page \<Rightarrow> table_page" where
  "setColumnWidth columnIndex cellWidth p =
     p\<lparr>hcols := (hcols p)[columnIndex := cellWidth + 3], dcols := (dcols p)[columnIndex := cellWidth + 3]\<rparr>"

text \<open>\<open>columnWidth\<close> and \<open>labelWidth\<close> are the measured widths of the contents and of the label.\<close>

definition idle_doubleClick :: "bool \<Rightarrow> table_delegate option \<Rightarrow> nat \<Rightarrow> int \<Rightarrow> int \<Rightarrow> table_page \<Rightarrow> table_page" where
  "idle_doubleClick useAutoWidth dg index columnWidth labelWidth p =
     (if \<not> useAutoWidth then p
      else (let width = max columnWidth labelWidth + 40;
                width1 = (if width < MIN_COLUMN_WIDTH then MIN_COLUMN_WIDTH else width);
                p1 = setColumnWidth index width1 p
            in if delegate_has has_columnResized dg then p1\<lparr>calls := calls p1 @ [ColumnResized index width1]\<rparr> else p1))"

definition resizing_mouseMove :: "int \<Rightarrow> table_page \<Rightarrow> table_page" where
  "resizing_mouseMove pageX p =
     (let w = tv_startX p + (pageX - tv_dragStartX p);
          cellWidth = (if w < MIN_COLUMN_WIDTH then MIN_COLUMN_WIDTH else w)
      in case tv_type p of
          ColumnType \<Rightarrow> p\<lparr>hcols := (hcols p)[resizingColumn p := cellWidth], dcols := (dcols p)[resizingColumn p := cellWidth]\<rparr>
        | RowType \<Rightarrow> (let width = tv_offset p + cellWidth - tv_startX p
            in p\<lparr>scrollable_left := width, columnHeader_left := width, corner_width := width,
                 rcols := (rcols p)[resizingColumn p := cellWidth]\<rparr>))"

text \<open>
  \<open>measured\<close> is the width of the resized cell and \<open>outer\<close> the width of a cell as the browser
  reports them when the mouse is released.
\<close>

definition resizing_mouseUp :: "table_delegate option \<Rightarrow> int \<Rightarrow> (header_cell \<Rightarrow> int) \<Rightarrow> table_page \<Rightarrow> table_page result" where
  "resizing_mouseUp dg measured outer p =
     (if tv_type p = ColumnType \<and> delegate_has has_columnResized dg
      then Inr (p\<lparr>calls := calls p @ [ColumnResized (resizingColumn p) measured]\<rparr>)
      else if delegate_has has_rowHeaderResized dg
      then (case tv_cells p of
          None \<Rightarrow> Inl TypeError
        | Some cs \<Rightarrow> Inr (p\<lparr>calls := calls p @ [RowHeaderResized (map outer cs)]\<rparr>))
      else Inr p)"

datatype click_target = OnColumnHeader string nat | OnRowHeader bool nat | OnOther

definition click_mouseUp ::
  "table_delegate option \<Rightarrow> headers \<Rightarrow> click_target \<Rightarrow> table_page \<Rightarrow> table_page result" where
  "click_mouseUp dg hs tgt p = (case tgt of
       OnColumnHeader tr_class td_index \<Rightarrow>
         (if delegate_has has_columnHeaderClicked dg
          then rbind (columnHeaderAt (columnHeaderRows (columnHeaders hs)) tr_class td_index) (\<lambda>h.
               Inr (p\<lparr>calls := calls p @ [ColumnHeaderClicked h]\<rparr>))
          else Inr p)
     | OnRowHeader isClickable index \<Rightarrow>
         Inr (if delegate_has has_rowHeaderClicked dg \<and> isClickable
              then p\<lparr>calls := calls p @ [RowHeaderClicked (rowHeaderAt (rowHeaders hs) index) index]\<rparr> else p)
     | OnOther \<Rightarrow> Inr p)"

datatype table_input = TDown press int | TMove int | TUp int "header_cell \<Rightarrow> int" click_target | TDouble nat int int

text \<open>The statechart; a state that lacks the method of an event ignores it.\<close>

record table_opts =
  o_useAutoWidth :: bool
  o_delegate :: "table_delegate option"
  o_headers :: headers

definition table_handle ::
  "table_opts \<Rightarrow> table_input \<Rightarrow> table_state \<times> table_page \<Rightarrow> (table_state \<times> table_page) result" where
  "table_handle opt i c = (case c of (st, p) \<Rightarrow> (case st of
       TableIdle \<Rightarrow> (case i of
           TDown tgt x \<Rightarrow> idle_mouseDown (rowHeaderRows (rowHeaders (o_headers opt))) tgt x p
         | TDouble index cw lw \<Rightarrow> Inr (TableIdle, idle_doubleClick (o_useAutoWidth opt) (o_delegate opt) index cw lw p)
         | _ \<Rightarrow> Inr c)
     | ClickInProgress \<Rightarrow> (case i of
           TUp w outer tgt \<Rightarrow> rbind (click_mouseUp (o_delegate opt) (o_headers opt) tgt p) (\<lambda>p'. Inr (TableIdle, p'))
         | _ \<Rightarrow> Inr c)
     | Resizing \<Rightarrow> (case i of
           TMove x \<Rightarrow> Inr (Resizing, resizing_mouseMove x p)
         | TUp w outer tgt \<Rightarrow> rbind (resizing_mouseUp (o_delegate opt) w outer p) (\<lambda>p'. Inr (TableIdle, p'))
         | _ \<Rightarrow> Inr c)))"

fun table_run :: "table_opts \<Rightarrow> table_input list \<Rightarrow> table_state \<times> table_page \<Rightarrow> (table_state \<times> table_page) result" where
  "table_run opt [] c = Inr c"
| "table_run opt (i # is) c = rbind (table_handle opt i c) (table_run opt is)"

section \<open>Scrolling\<close>

text \<open>
  \<open>s_frames\<close> counts the callbacks waiting for an animation frame; positions that were never set
  are \<open>None\<close>.
\<close>

record scrolling =
  isScrolling :: bool
  s_frames :: nat
  lastScrollTop :: "int option"
  lastScrollLeft :: "int option"
  lastSetScrollTop :: "int option"
  lastSetScrollLeft :: "int option"
  rowHeader_top :: int
  columnHeader_x :: int

definition didScroll :: "int \<Rightarrow> int \<Rightarrow> scrolling \<Rightarrow> scrolling" where
  "didScroll scrollTop scrollLeft s =
     (let s1 = s\<lparr>lastScrollTop := Some scrollTop, lastScrollLeft := Some scrollLeft\<rparr>;
          s2 = (if \<not> isScrolling s1 then s1\<lparr>s_frames := Suc (s_frames s1)\<rparr> else s1)
      in s2\<lparr>isScrolling := True\<rparr>)"

definition updateHeaderPositions :: "scrolling \<Rightarrow> scrolling" where
  "updateHeaderPositions s =
     (let s1 = (if lastScrollTop s \<noteq> lastSetScrollTop s
                then s\<lparr>rowHeader_top := - the (lastScrollTop s), lastSetScrollTop := lastScrollTop s\<rparr> else s);
          s2 = (if lastScrollLeft s1 \<noteq> lastSetScrollLeft s1
                then s1\<lparr>columnHeader_x := - the (lastScrollLeft s1), lastSetScrollLeft := lastScrollLeft s1\<rparr> else s1)
      in s2\<lparr>isScrolling := False\<rparr>)"

datatype scroll_event = ScrollTo int int | AnimationFrame

text \<open>An animation frame runs a waiting callback.\<close>

definition scroll_handle :: "scroll_event \<Rightarrow> scrolling \<Rightarrow> scrolling" where
  "scroll_handle e s = (case e of
       ScrollTo t l \<Rightarrow> didScroll t l s
     | AnimationFrame \<Rightarrow> (if s_frames s = 0 then s else updateHeaderPositions (s\<lparr>s_frames := s_frames s - 1\<rparr>)))"

definition scroll_start :: scrolling where
  "scroll_start = \<lparr>isScrolling = False, s_frames = 0, lastScrollTop = None, lastScrollLeft = None,
     lastSetScrollTop = None, lastSetScrollLeft = None, rowHeader_top = 0, columnHeader_x = 0\<rparr>"

section \<open>The shape of the row headers\<close>

text \<open>The rows a header contributes: it stands in front of the first row of its children.\<close>

fun rows_of :: "nat \<Rightarrow> nat \<Rightarrow> header \<Rightarrow> header_cell list list"
and rows_of_list :: "nat \<Rightarrow> nat \<Rightarrow> header list \<Rightarrow> header_cell list list" where
  "rows_of idx d (Header a i cs) =
     (let c = \<lparr>hc_header = Header a i cs, hc_depth = d + 1, dataIndex = idx, hc_span = header_count (Header a i cs)\<rparr>
      in case cs of
          None \<Rightarrow> [[c]]
        | Some ks \<Rightarrow> (case rows_of_list idx (d + 1) ks of [] \<Rightarrow> [[c]] | r # rs \<Rightarrow> (c # r) # rs))"
| "rows_of_list idx d [] = []"
| "rows_of_list idx d (k # ks) = rows_of idx d k @ rows_of_list idx d ks"

definition append_rows :: "bool \<Rightarrow> 'c list list \<Rightarrow> 'c list list \<Rightarrow> 'c list list" where
  "append_rows isFirst rows new = (if isFirst then (case new of [] \<Rightarrow> rows | r # rs \<Rightarrow> butlast rows @ [last rows @ r] @ rs)
     else rows @ new)"

lemma rows_of_nonempty: "rows_of idx d h \<noteq> []"
  by (cases h) (auto simp: Let_def split: option.splits list.splits)

lemma processHeader_rows:
  "ax = Rows \<Longrightarrow> processHeader rows h ax d isFirst idx = append_rows isFirst rows (rows_of idx d h)"
  "ax = Rows \<Longrightarrow> processChildren rows ks ax d isFirst idx = append_rows isFirst rows (rows_of_list idx d ks)"
proof (induction rows h ax d isFirst idx and rows ks ax d isFirst idx rule: processHeader_processChildren.induct)
  case (1 rows a i cs ax depth isFirst idx)
  show ?case
  proof (cases cs)
    case None
    then show ?thesis using 1 by (simp add: append_rows_def push_last_def Let_def)
  next
    case (Some ks)
    let ?c = "\<lparr>hc_header = Header a i cs, hc_depth = depth + 1, dataIndex = idx, hc_span = header_count (Header a i cs)\<rparr>"
    have "processHeader rows (Header a i cs) ax depth isFirst idx
        = append_rows True (push_last isFirst ?c rows) (rows_of_list idx (depth + 1) ks)"
      using 1 Some by simp
    then show ?thesis using Some
      by (cases "rows_of_list idx (depth + 1) ks") (auto simp: append_rows_def push_last_def Let_def butlast_append)
  qed
next
  case (2 rows ax depth isFirst idx)
  then show ?case by (simp add: append_rows_def)
next
  case (3 rows k ks ax depth isFirst idx)
  then show ?case
    using rows_of_nonempty [of idx depth k] by (cases "rows_of idx depth k") (auto simp: append_rows_def)
qed

lemma rowHeaderRows_rows:
  assumes "hs \<noteq> []"
  shows "rowHeaderRows hs = concat (map (\<lambda>(i, h). rows_of i 0 h) (enumerate 0 hs))"
proof -
  have gen: "fold (\<lambda>(i, h) rows. processHeader rows h Rows 0 (i = 0) i) (enumerate n hs) rows
      = rows @ concat (map (\<lambda>(i, h). rows_of i 0 h) (enumerate n hs))" if "0 < n" for n rows and hs :: "header list"
    using that by (induction hs arbitrary: n rows) (auto simp: processHeader_rows append_rows_def)
  obtain h hs' where hs: "hs = h # hs'" using assms by (cases hs) auto
  have first: "processHeader [[]] h Rows 0 True 0 = rows_of 0 0 h"
    using rows_of_nonempty [of 0 0 h] by (cases "rows_of 0 0 h") (auto simp: processHeader_rows append_rows_def)
  show ?thesis unfolding rowHeaderRows_def hs using gen [of 1 hs'] first by simp
qed

text \<open>Headers with children have at least one.\<close>

fun branching :: "header \<Rightarrow> bool" where
  "branching (Header a i None) = True"
| "branching (Header a i (Some cs)) = (cs \<noteq> [] \<and> (\<forall>c \<in> set cs. branching c))"

fun subheaders :: "header \<Rightarrow> header list" where
  "subheaders (Header a i None) = [Header a i None]"
| "subheaders (Header a i (Some cs)) = Header a i (Some cs) # concat (map subheaders cs)"

text \<open>A row of the row header: every cell is the parent of the next, and the last is a leaf.\<close>

fun row_chain :: "header_cell list \<Rightarrow> bool" where
  "row_chain [] = False"
| "row_chain [c] = is_leaf_cell c"
| "row_chain (c # c' # r) = (\<not> is_leaf_cell c \<and> hc_depth c' = Suc (hc_depth c) \<and> row_chain (c' # r))"

lemma rows_of_chain:
  "branching h \<Longrightarrow> (\<forall>row \<in> set (rows_of idx d h). row_chain row) \<and> hc_depth (hd (hd (rows_of idx d h))) = Suc d"
  "list_all branching ks \<Longrightarrow> (\<forall>row \<in> set (rows_of_list idx d ks). row_chain row)
     \<and> (ks \<noteq> [] \<longrightarrow> hc_depth (hd (hd (rows_of_list idx d ks))) = Suc d)"
proof (induction idx d h and idx d ks rule: rows_of_rows_of_list.induct)
  case (1 idx d a i cs)
  show ?case
  proof (cases cs)
    case None
    then show ?thesis by (simp add: is_leaf_cell_def)
  next
    case (Some ks)
    have ks: "ks \<noteq> []" "list_all branching ks" using 1(2) Some by (auto simp: list_all_iff)
    then obtain r rs where rs: "rows_of_list idx (d + 1) ks = r # rs"
      using rows_of_nonempty by (cases ks; cases "rows_of_list idx (d + 1) ks") auto
    have IH: "\<forall>row \<in> set (r # rs). row_chain row" "hc_depth (hd r) = Suc (d + 1)"
      using 1(1) [OF refl Some ks(2)] ks(1) rs by (simp_all add: Let_def)
    then show ?thesis using Some rs by (cases r) (auto simp: is_leaf_cell_def Let_def)
  qed
next
  case (3 idx d k ks)
  then show ?case using rows_of_nonempty [of idx d k] by auto
qed simp

lemma rows_of_top:
  "c \<in> set (concat (rows_of idx d h)) \<Longrightarrow> dataIndex c = idx \<and> hc_header c \<in> set (subheaders h)"
  "c \<in> set (concat (rows_of_list idx d ks)) \<Longrightarrow> dataIndex c = idx \<and> hc_header c \<in> set (concat (map subheaders ks))"
proof (induction idx d h and idx d ks rule: rows_of_rows_of_list.induct)
  case (1 idx d a i cs)
  show ?case
  proof (cases cs)
    case (Some ks)
    note IH = 1(1) [OF refl Some]
    show ?thesis
    proof (cases "rows_of_list idx (d + 1) ks")
      case (Cons r rs)
      then show ?thesis using 1(2) Some IH by (auto simp: Let_def)
    qed (use 1(2) Some in \<open>simp add: Let_def\<close>)
  qed (use 1(2) in \<open>simp add: Let_def\<close>)
qed auto

lemma rows_of_positive:
  "c \<in> set (concat (rows_of idx d h)) \<Longrightarrow> 0 < hc_depth c"
  "c \<in> set (concat (rows_of_list idx d ks)) \<Longrightarrow> 0 < hc_depth c"
proof (induction idx d h and idx d ks rule: rows_of_rows_of_list.induct)
  case (1 idx d a i cs)
  show ?case
  proof (cases cs)
    case (Some ks)
    note IH = 1(1) [OF refl Some]
    show ?thesis
    proof (cases "rows_of_list idx (d + 1) ks")
      case (Cons r rs)
      then show ?thesis using 1(2) Some IH by (auto simp: Let_def)
    qed (use 1(2) Some in \<open>simp add: Let_def\<close>)
  qed (use 1(2) in \<open>simp add: Let_def\<close>)
qed auto

lemma rows_chain:
  assumes "list_all branching hs" and "hs \<noteq> []" and "row \<in> set (rowHeaderRows hs)"
  shows "row_chain row"
  using assms(3) unfolding rowHeaderRows_rows [OF assms(2)]
proof (clarsimp simp: in_set_enumerate_eq)
  fix i
  assume "i < length hs" and row: "row \<in> set (rows_of i 0 (hs ! i))"
  then have "branching (hs ! i)" using assms(1) by (simp add: list_all_length)
  then show "row_chain row" using rows_of_chain(1) row by blast
qed

lemma row_chain_drop: "row_chain row \<Longrightarrow> k < length row \<Longrightarrow> row_chain (drop k row)"
proof (induction row arbitrary: k rule: row_chain.induct)
  case (3 c c' r)
  then show ?case by (cases k) auto
qed auto

lemma row_chain_inner: "row_chain row \<Longrightarrow> Suc k < length row \<Longrightarrow> \<not> is_leaf_cell (row ! k)"
proof (induction row arbitrary: k rule: row_chain.induct)
  case (3 c c' r)
  then show ?case by (cases k) auto
qed auto

lemma row_chain_last: "row_chain row \<Longrightarrow> is_leaf_cell (last row) \<and> hc_depth (last row) + 1 = hc_depth (hd row) + length row"
  by (induction row rule: row_chain.induct) auto

text \<open>
  The cells after a header in its row: all but the last count 1, the last counts its
  \<open>colspan\<close>.
\<close>

lemma remaining_plain:
  assumes "\<forall>c \<in> set cs. cross_attr rows c = None"
  shows "remainingDepth rows cs = JNum (int (length cs))"
proof -
  have "foldl js_plus (JNum n) (map (colspan_or_1 rows) cs) = JNum (n + int (length cs))" for n
    using assms by (induction cs arbitrary: n) (auto simp: js_plus_def colspan_or_1_def)
  then show ?thesis by (simp add: remainingDepth_def)
qed

lemma remaining_last:
  assumes "row_chain (c # r)" and "r \<noteq> []" and "cross_attr rows (last r) = Some n"
  shows "remainingDepth rows r = JStr (decimal (length r - 1) @ decimal n)"
proof -
  have inner: "cross_attr rows x = None" if x: "x \<in> set (butlast r)" for x
  proof -
    obtain k where k: "k < length (butlast r)" "x = butlast r ! k" using x by (auto simp: in_set_conv_nth)
    then have "\<not> is_leaf_cell ((c # r) ! Suc k)" by (intro row_chain_inner [OF assms(1)]) simp
    then show ?thesis using k by (simp add: nth_butlast cross_attr_def)
  qed
  have "remainingDepth rows r = js_plus (remainingDepth rows (butlast r)) (colspan_or_1 rows (last r))"
  proof -
    obtain b l where "r = b @ [l]" using assms(2) by (cases r rule: rev_cases) auto
    then show ?thesis by (simp add: remainingDepth_def)
  qed
  then show ?thesis using remaining_plain [of "butlast r" rows] inner assms(3) by (simp add: js_plus_def colspan_or_1_def)
qed

lemma level_of_handle:
  assumes "row_chain (c # r)" and "r \<noteq> []" and "hc_depth (last r) \<le> maxDepth rows"
    and "cross_attr rows (last r) = None \<or> length r = 1"
  shows "int (maxDepth rows) - to_number (remainingDepth rows r) = int (hc_depth c)"
proof -
  have l: "is_leaf_cell (last r)" "hc_depth (last r) = hc_depth c + length r"
    using row_chain_last [OF assms(1)] assms(2) by simp_all
  show ?thesis
  proof (cases "cross_attr rows (last r)")
    case None
    have "cross_attr rows x = None" if x: "x \<in> set r" for x
    proof -
      obtain k where k: "k < length r" "x = r ! k" using x by (auto simp: in_set_conv_nth)
      show ?thesis
      proof (cases "Suc k = length r")
        case True
        then have "k = length r - 1" by simp
        then have "x = last r" using k(2) last_conv_nth [OF assms(2)] by simp
        then show ?thesis using None by simp
      next
        case False
        then have "\<not> is_leaf_cell ((c # r) ! Suc k)" using k by (intro row_chain_inner [OF assms(1)]) simp
        then show ?thesis using k by (simp add: cross_attr_def)
      qed
    qed
    then have "remainingDepth rows r = JNum (int (length r))" by (intro remaining_plain) blast
    moreover have "maxDepth rows = hc_depth (last r)"
      using None l(1) assms(3) by (simp add: cross_attr_def span_attr_def leaf_cross_span_def split: if_splits)
    ultimately show ?thesis using l(2) by (simp add: to_number_def)
  next
    case (Some n)
    then have "length r = 1" using assms(4) by simp
    moreover have "n = maxDepth rows - hc_depth (last r) + 1"
      using Some l(1) by (simp add: cross_attr_def span_attr_def leaf_cross_span_def split: if_splits)
    moreover have "digits_value (decimal 0 @ decimal n) = n"
      using digits_value_decimal [of n] by (simp add: decimal.simps [of 0] digits_value_def)
    ultimately show ?thesis using remaining_last [OF assms(1,2) Some] l(2) assms(3) by (simp add: to_number_def)
  qed
qed

lemma chain_cell:
  assumes "list_all branching hs" and "hs \<noteq> []" and "r < length (rowHeaderRows hs)" and "k < length (rowHeaderRows hs ! r)"
  shows "row_chain (rowHeaderRows hs ! r ! k # drop (Suc k) (rowHeaderRows hs ! r))"
    and "last (rowHeaderRows hs ! r) \<in> set (concat (rowHeaderRows hs))"
    and "is_leaf_cell (last (rowHeaderRows hs ! r))"
proof -
  let ?row = "rowHeaderRows hs ! r"
  have mem: "?row \<in> set (rowHeaderRows hs)" using assms(3) by simp
  have chain: "row_chain ?row" by (rule rows_chain [OF assms(1,2) mem])
  show "row_chain (?row ! k # drop (Suc k) ?row)"
    using row_chain_drop [OF chain assms(4)] by (simp add: Cons_nth_drop_Suc assms(4))
  have "last ?row \<in> set ?row" using assms(4) by (intro last_in_set) auto
  then show "last ?row \<in> set (concat (rowHeaderRows hs))" using mem by auto
  show "is_leaf_cell (last ?row)" using row_chain_last [OF chain] by blast
qed

lemma row_level:
  assumes "list_all branching hs" and "hs \<noteq> []" and "r < length (rowHeaderRows hs)" and "k < length (rowHeaderRows hs ! r)"
    and "cross_attr (rowHeaderRows hs) (last (rowHeaderRows hs ! r)) = None \<or> length (rowHeaderRows hs ! r) \<le> k + 2"
  shows "resize_level (rowHeaderRows hs) r k =
    int (if is_leaf_cell (rowHeaderRows hs ! r ! k) then maxDepth (rowHeaderRows hs) else hc_depth (rowHeaderRows hs ! r ! k)) - 1"
proof -
  let ?rows = "rowHeaderRows hs"
  let ?row = "?rows ! r"
  let ?next = "drop (Suc k) ?row"
  note chain = chain_cell [OF assms(1-4)]
  show ?thesis
  proof (cases "?next = []")
    case True
    then have "is_leaf_cell (?row ! k)" using chain(1) by simp
    then show ?thesis using True by (simp add: resize_level_def remainingDepth_def to_number_def)
  next
    case False
    then have l: "last ?next = last ?row" "length ?next = 1 \<longleftrightarrow> length ?row = k + 2" by auto
    have "\<not> is_leaf_cell (?row ! k)" using chain(1) False by (cases ?next) auto
    moreover have "int (maxDepth ?rows) - to_number (remainingDepth ?rows ?next) = int (hc_depth (?row ! k))"
    proof (rule level_of_handle [OF chain(1) False])
      show "hc_depth (last ?next) \<le> maxDepth ?rows" unfolding l(1) by (rule maxDepth_ge [OF chain(2,3)])
      show "cross_attr ?rows (last ?next) = None \<or> length ?next = 1"
        unfolding l using assms(5) False by auto
    qed
    ultimately show ?thesis by (simp add: resize_level_def)
  qed
qed

text \<open>
  Grabbing the handle of a row header resizes the column at its right edge.  For row headers
  of any depth, the level that \<open>enterState\<close> computes is the depth of the header, and the last
  level for a leaf, provided that the leaf ending the row spans one level or directly follows the
  header (then the spans are added as numbers).
\<close>

theorem row_handle_finds_level:
  assumes "list_all branching hs" and "hs \<noteq> []" and "r < length (rowHeaderRows hs)" and "k < length (rowHeaderRows hs ! r)"
    and "cross_attr (rowHeaderRows hs) (last (rowHeaderRows hs ! r)) = None \<or> length (rowHeaderRows hs ! r) \<le> k + 2"
  shows "resize_level (rowHeaderRows hs) r k =
    int (if is_leaf_cell (rowHeaderRows hs ! r ! k) then maxDepth (rowHeaderRows hs) else hc_depth (rowHeaderRows hs ! r ! k)) - 1"
  by (rule row_level [OF assms])

text \<open>Two levels of row headers and a top-level header without children.\<close>

definition two_level_headers :: "header list" where
  "two_level_headers = [Header Map.empty None (Some [Header Map.empty None None, Header Map.empty None None]),
     Header Map.empty None None]"

theorem row_handle_finds_level_witness:
  "resize_level (rowHeaderRows two_level_headers) 0 0 = 0 \<and> resize_level (rowHeaderRows two_level_headers) 2 0 = 1"
proof -
  have b: "list_all branching two_level_headers" "two_level_headers \<noteq> []" by (simp_all add: two_level_headers_def)
  have l: "length (rowHeaderRows two_level_headers) = 3" "length (rowHeaderRows two_level_headers ! 0) = 2"
      "length (rowHeaderRows two_level_headers ! 2) = 1" "maxDepth (rowHeaderRows two_level_headers) = 2"
      "\<not> is_leaf_cell (rowHeaderRows two_level_headers ! 0 ! 0)" "hc_depth (rowHeaderRows two_level_headers ! 0 ! 0) = 1"
      "is_leaf_cell (rowHeaderRows two_level_headers ! 2 ! 0)" by code_simp+
  show ?thesis
    using row_handle_finds_level [OF b, of 0 0] row_handle_finds_level [OF b, of 2 0] l by simp
qed

text \<open>
  The attribute \<open>colspan\<close> is a string and is added to a number: with two cells after the header,
  the last of which spans two levels, the remaining depth is \<open>12\<close> instead of \<open>3\<close>, and pressing the
  handle raises a \<open>TypeError\<close>.
\<close>

definition uneven_headers :: "header list" where
  "uneven_headers = [Header Map.empty None (Some [Header Map.empty None (Some [Header Map.empty None None])]),
     Header Map.empty None (Some [Header Map.empty None (Some [Header Map.empty None (Some [Header Map.empty None None])])])]"

theorem uneven_row_handle_throws:
  "resize_level (rowHeaderRows uneven_headers) 0 0 = -9
    \<and> idle_mouseDown (rowHeaderRows uneven_headers) (RowHandle 0 0 cw) x p = Inl TypeError"
proof -
  have l: "resize_level (rowHeaderRows uneven_headers) 0 0 = -9" by code_simp
  then show ?thesis by (simp add: idle_mouseDown_def enter_resizing_def objectAt_int_def)
qed

section \<open>Sizes agree\<close>

text \<open>
  The corner is as wide as the row header beside which it is drawn.  For a table with row
  headers, the left offset of the data is the sum of the rendered widths of the row header
  columns and the gap, when no configured width is \<open>null\<close> or zero; and giving every level of the
  column header one line of 21 pixels moves the data to exactly where it was rendered.
\<close>

theorem corner_covers_headers:
  assumes "depth_of rows = Some d" and "0 < d" and "\<forall>w \<in> set ws. w \<noteq> NullWidth \<and> w \<noteq> Width 0"
  shows "leftOffset (Some ws) dflt (depth_of rows) True c = Some (sum_list (row_cols (Some ws) dflt (depth_of rows)) + 1 + (if c then 0 else 5))
    \<and> leftOffset None dflt (depth_of rows) True c = Some (sum_list (row_cols None dflt (depth_of rows)) + 1 + (if c then 0 else 5))
    \<and> snd (setColumnHeaderHeights (replicate n 1) 21 (if title then 18 else 0)) = topOffset title True n"
proof -
  have entry: "corner_entry ws dflt i = (case objectAt ws i of Some (Width w) \<Rightarrow> (if w \<noteq> 0 then w else dflt) | _ \<Rightarrow> dflt)" for i
  proof (cases "objectAt ws i")
    case (Some w)
    then have "w \<in> set ws" by auto
    then have "w \<noteq> NullWidth" "w \<noteq> Width 0" using assms(3) by auto
    then obtain n where "w = Width n" "n \<noteq> 0" by (metis width_entry.exhaust)
    then show ?thesis unfolding corner_entry_def Some by simp
  qed (simp add: corner_entry_def)
  have "max d 1 = d" using assms(2) by simp
  then have "leftOffset (Some ws) dflt (depth_of rows) True c
      = Some (sum_list (row_cols (Some ws) dflt (depth_of rows)) + 1 + (if c then 0 else 5))"
    using assms(1,2) by (simp add: leftOffset_def row_cols_def Let_def entry [abs_def])
  moreover have "leftOffset None dflt (depth_of rows) True c
      = Some (sum_list (row_cols None dflt (depth_of rows)) + 1 + (if c then 0 else 5))"
    using assms(1,2) by (simp add: leftOffset_def row_cols_def Let_def sum_list_triv)
  moreover have "snd (setColumnHeaderHeights (replicate n 1) 21 (if title then 18 else 0)) = topOffset title True n"
    by (simp add: setColumnHeaderHeights_def topOffset_def columnHeaderHeight_def Let_def sum_list_replicate)
  ultimately show ?thesis by blast
qed

theorem corner_covers_headers_witness:
  "leftOffset (Some [Width 50]) 88 (depth_of (rowHeaderRows two_level_headers)) True True = Some 139"
proof -
  have d: "depth_of (rowHeaderRows two_level_headers) = Some 2" by code_simp
  show ?thesis using corner_covers_headers [OF d, of "[Width 50]" 88 True 0 True] by (simp add: d row_cols_def upt_rec numeral_2_eq_2)
qed

section \<open>A clicked header\<close>

lemma after_level_class: "after_level (''level-'' @ decimal n) = Some (decimal n)"
proof -
  have digits: "takeWhile is_digit (decimal n) = decimal n"
    using decimal_digits [of n] by (simp add: list_all_iff takeWhile_eq_all_conv)
  show ?thesis by (simp add: digits)
qed

lemma cell_mem: "r < length rows \<Longrightarrow> k < length (rows ! r) \<Longrightarrow> rows ! r ! k \<in> set (concat rows)"
  by (auto intro!: bexI [of _ "rows ! r"])

lemma row_cell_top:
  assumes "hs \<noteq> []" and "c \<in> set (concat (rowHeaderRows hs))"
  shows "\<exists>n < length hs. c \<in> set (concat (rows_of n 0 (hs ! n)))"
  using assms(2) unfolding rowHeaderRows_rows [OF assms(1)] by (fastforce simp: in_set_enumerate_eq)

text \<open>
  C33: a click reports the header that was clicked.  For every cell of the rendered column header,
  the level in the class of its row and its position in the row lead back to its header; for
  every cell of the row header, \<open>data-index\<close> names the top-level header it belongs to.
\<close>

theorem click_finds_header:
  assumes "i < length (columnHeaderRows cs)" and "j < length (columnHeaderRows cs ! i)"
    and "r < length (rowHeaderRows rs)" and "k < length (rowHeaderRows rs ! r)" and "rs \<noteq> []"
  shows "columnHeaderAt (columnHeaderRows cs) (fst (renderHeader v Columns (columnHeaderRows cs) ! i)) j
      = Inr (Some (columnHeaderRows cs ! i ! j))
    \<and> (\<exists>n top. td_dataIndex (snd (renderHeader v Rows (rowHeaderRows rs) ! r) ! k) = Some n
        \<and> rowHeaderAt rs n = Some top \<and> hc_header (rowHeaderRows rs ! r ! k) \<in> set (subheaders top))"
proof -
  have "fst (renderHeader v Columns (columnHeaderRows cs) ! i) = ''level-'' @ decimal (Suc i)"
    using assms(1) by (simp add: renderHeader_def nth_enumerate_eq)
  then have col: "columnHeaderAt (columnHeaderRows cs) (fst (renderHeader v Columns (columnHeaderRows cs) ! i)) j
      = Inr (Some (columnHeaderRows cs ! i ! j))"
    using assms(1,2) by (simp only: columnHeaderAt_def after_level_class option.case digits_value_decimal)
      (simp add: objectAt_int_def)
  let ?c = "rowHeaderRows rs ! r ! k"
  have td: "td_dataIndex (snd (renderHeader v Rows (rowHeaderRows rs) ! r) ! k) = Some (dataIndex ?c)"
    using assms(3,4) by (simp add: renderHeader_def renderRow_def nth_enumerate_eq td_of_def Let_def)
  obtain n where n: "n < length rs" "?c \<in> set (concat (rows_of n 0 (rs ! n)))"
    using row_cell_top [OF assms(5) cell_mem [OF assms(3,4)]] by blast
  then have "dataIndex ?c = n" "hc_header ?c \<in> set (subheaders (rs ! n))" using rows_of_top(1) by blast+
  then show ?thesis using col td n(1) by (simp add: rowHeaderAt_def)
qed

definition plain_opts :: view_opts where
  "plain_opts = \<lparr>v_escape = (\<lambda>s. s), v_isResizable = True, v_renderColumnHeader = True, v_isColumnHeaderClickable = True,
     v_isRowHeaderClickable = True, v_sort = (\<lambda>_. None), v_cssClasses = (\<lambda>_. []), v_isClickable = (\<lambda>_. True)\<rparr>"

theorem click_finds_header_witness:
  "columnHeaderAt (columnHeaderRows two_level_headers) (fst (renderHeader plain_opts Columns (columnHeaderRows two_level_headers) ! 1)) 1
     = Inr (Some (columnHeaderRows two_level_headers ! 1 ! 1))"
proof -
  have l: "1 < length (columnHeaderRows two_level_headers)" "1 < length (columnHeaderRows two_level_headers ! 1)"
    "0 < length (rowHeaderRows two_level_headers)" "0 < length (rowHeaderRows two_level_headers ! 0)" by code_simp+
  have "two_level_headers \<noteq> []" by (simp add: two_level_headers_def)
  then show ?thesis using click_finds_header [OF l] by blast
qed

section \<open>One handle per column\<close>

lemma concat_update: "i < length rows \<Longrightarrow> mset (concat (rows[i := rows ! i @ [c]])) = mset (concat rows) + {#c#}"
proof (induction rows arbitrary: i)
  case (Cons r rows)
  then show ?case by (cases i) auto
qed simp

lemma mset_push_at: "mset (concat (push_at d c rows)) = mset (concat rows) + {#c#}"
proof -
  let ?rows = "if d < length rows then rows else rows @ replicate (Suc d - length rows) []"
  have "mset (concat ?rows) = mset (concat rows)" by simp
  moreover have "d < length ?rows" by simp
  ultimately show ?thesis using concat_update [of d ?rows c] by (simp add: push_at_def Let_def)
qed

lemma mset_columns:
  "ax = Columns \<Longrightarrow> image_mset hc_header (mset (concat (processHeader rows h ax d f idx)))
     = image_mset hc_header (mset (concat rows)) + mset (subheaders h)"
  "ax = Columns \<Longrightarrow> image_mset hc_header (mset (concat (processChildren rows ks ax d f idx)))
     = image_mset hc_header (mset (concat rows)) + mset (concat (map subheaders ks))"
proof (induction rows h ax d f idx and rows ks ax d f idx rule: processHeader_processChildren.induct)
  case (1 rows a i cs ax depth isFirst idx)
  show ?case
  proof (cases cs)
    case None
    then show ?thesis using 1(2) by (simp add: Let_def mset_push_at)
  next
    case (Some ks)
    then show ?thesis using 1(1) [OF refl refl Some 1(2)] 1(2) by (simp add: Let_def mset_push_at)
  qed
qed auto

lemma column_headers_mset: "image_mset hc_header (mset (concat (columnHeaderRows hs))) = mset (concat (map subheaders hs))"
proof -
  have "image_mset hc_header (mset (concat (fold (\<lambda>(i, h) rows. processHeader rows h Columns 0 False i) (enumerate n hs) rows)))
      = image_mset hc_header (mset (concat rows)) + mset (concat (map subheaders hs))" for n rows
    by (induction hs arbitrary: n rows) (simp_all add: mset_columns(1))
  then show ?thesis by (simp add: columnHeaderRows_def)
qed

definition leaf_numbers :: "header list \<Rightarrow> jsval option list" where
  "leaf_numbers hs = map (\<lambda>h. hattrs h ''leafIndex'') (filter (\<lambda>h. children h = None) hs)"

lemma marked_numbers:
  "leaf_numbers (subheaders (fst (mark_header h n))) = map (Some \<circ> JNum \<circ> int) [n..<snd (mark_header h n)]
     \<and> snd (mark_header h n) = n + header_count h"
  "leaf_numbers (concat (map subheaders (fst (mark_headers hs n)))) = map (Some \<circ> JNum \<circ> int) [n..<snd (mark_headers hs n)]
     \<and> snd (mark_headers hs n) = n + sum_list (map header_count hs)"
proof (induction h n and hs n rule: mark_header_mark_headers.induct)
  case (4 h hs n)
  have "[n..<n + header_count h + sum_list (map header_count hs)]
      = [n..<n + header_count h] @ [n + header_count h..<n + header_count h + sum_list (map header_count hs)]"
    by (rule upt_add_eq_append) simp
  then show ?case using 4 by (auto simp: leaf_numbers_def split: prod.splits)
qed (auto simp: leaf_numbers_def split: prod.splits)

text \<open>
  Every data column has exactly one handle.  The leaf indexes written to the leaf cells of the
  rendered column header are the numbers of the leafs, each once, however the headers nest; and a
  cell has a leaf index exactly when it is a leaf.
\<close>

theorem column_handles_cover_columns:
  "let rows = columnHeaderRows (fst (mark_headers hs 0));
       tds = concat (map snd (renderHeader v Columns rows))
   in mset (filter (\<lambda>x. x \<noteq> None) (map td_leafIndex tds)) = mset (map (Some \<circ> JNum \<circ> int) [0..<length (getLeafs hs [])])"
proof -
  define marked where "marked = fst (mark_headers hs 0)"
  define rows where "rows = columnHeaderRows marked"
  let ?num = "\<lambda>c. if is_leaf_cell c then hattrs (hc_header c) ''leafIndex'' else None"
  have td: "map td_leafIndex (renderRow v Columns rs row) = map ?num row" for rs row
    unfolding renderRow_def map_map by (rule nth_equalityI) (simp_all add: nth_enumerate_eq td_of_def Let_def)
  have "map td_leafIndex (concat (map snd (renderHeader v Columns rows))) = concat (map (map ?num) rows)"
  proof -
    have "map (\<lambda>x. map td_leafIndex (snd x)) (renderHeader v Columns rows) = map (map ?num) rows"
      by (rule nth_equalityI) (simp_all add: renderHeader_def nth_enumerate_eq td)
    then show ?thesis by (simp add: map_concat comp_def)
  qed
  then have "mset (filter (\<lambda>x. x \<noteq> None) (map td_leafIndex (concat (map snd (renderHeader v Columns rows)))))
      = filter_mset (\<lambda>x. x \<noteq> None) (image_mset ?num (mset (concat rows)))" by (simp add: map_concat [symmetric])
  also have "\<dots> = filter_mset (\<lambda>x. x \<noteq> None) (image_mset (\<lambda>h. if children h = None then hattrs h ''leafIndex'' else None)
      (image_mset hc_header (mset (concat rows))))" by (simp add: image_mset.compositionality comp_def is_leaf_cell_def)
  also have "\<dots> = filter_mset (\<lambda>x. x \<noteq> None) (mset (leaf_numbers (concat (map subheaders marked))))"
  proof -
    have numbers: "filter (\<lambda>x. x \<noteq> None) (map (\<lambda>h. if children h = None then hattrs h ''leafIndex'' else None) l)
        = filter (\<lambda>x. x \<noteq> None) (leaf_numbers l)" for l :: "header list"
      by (induction l) (simp_all add: leaf_numbers_def)
    show ?thesis unfolding rows_def column_headers_mset
      by (simp only: mset_map [symmetric] mset_filter [symmetric] numbers)
  qed
  also have "\<dots> = mset (map (Some \<circ> JNum \<circ> int) [0..<length (getLeafs hs [])])"
  proof -
    let ?l = "map (Some \<circ> JNum \<circ> int) [0..<length (getLeafs hs [])]"
    have "leaf_numbers (concat (map subheaders marked)) = ?l"
      using marked_numbers(2) [of hs 0] by (simp add: marked_def getLeafs_def length_collect_leafs)
    moreover have "filter (\<lambda>x. x \<noteq> None) ?l = ?l" by (rule filter_True) auto
    ultimately show ?thesis by (simp only: mset_filter [symmetric])
  qed
  finally show ?thesis by (simp add: rows_def marked_def Let_def)
qed

section \<open>Headers follow the scrolled data\<close>

definition scroll_ok :: "scrolling \<Rightarrow> bool" where
  "scroll_ok s \<longleftrightarrow> s_frames s = (if isScrolling s then 1 else 0)
     \<and> (lastSetScrollTop s \<noteq> None \<longrightarrow> lastSetScrollTop s = Some (- rowHeader_top s))
     \<and> (lastSetScrollLeft s \<noteq> None \<longrightarrow> lastSetScrollLeft s = Some (- columnHeader_x s))
     \<and> (lastScrollTop s = None \<longrightarrow> lastSetScrollTop s = None) \<and> (lastScrollLeft s = None \<longrightarrow> lastSetScrollLeft s = None)
     \<and> (isScrolling s \<or> lastScrollTop s = lastSetScrollTop s \<and> lastScrollLeft s = lastSetScrollLeft s)"

lemma updateHeaderPositions_effect:
  assumes "scroll_ok s" and "isScrolling s" and "s_frames s = Suc n"
  shows "lastSetScrollTop (updateHeaderPositions (s\<lparr>s_frames := n\<rparr>)) = lastScrollTop s"
    and "lastSetScrollLeft (updateHeaderPositions (s\<lparr>s_frames := n\<rparr>)) = lastScrollLeft s"
    and "scroll_ok (updateHeaderPositions (s\<lparr>s_frames := n\<rparr>))"
    and "s_frames (updateHeaderPositions (s\<lparr>s_frames := n\<rparr>)) = 0"
  using assms
  by (cases "lastScrollTop s = lastSetScrollTop s"; cases "lastScrollLeft s = lastSetScrollLeft s";
      cases "lastScrollTop s"; cases "lastScrollLeft s"; simp add: scroll_ok_def updateHeaderPositions_def Let_def)+

lemma scroll_handle_ok: "scroll_ok s \<Longrightarrow> scroll_ok (scroll_handle e s)"
proof (cases e)
  case AnimationFrame
  assume ok: "scroll_ok s"
  show ?thesis
  proof (cases "s_frames s")
    case (Suc n)
    then show ?thesis using updateHeaderPositions_effect(3) [OF ok _ Suc] ok AnimationFrame
      by (cases "isScrolling s") (simp_all add: scroll_handle_def scroll_ok_def)
  qed (use ok AnimationFrame in \<open>simp add: scroll_handle_def\<close>)
qed (simp add: scroll_ok_def scroll_handle_def didScroll_def Let_def)

lemma scroll_run_ok: "scroll_ok s \<Longrightarrow> scroll_ok (fold scroll_handle es s)"
  by (induction es arbitrary: s) (auto simp: scroll_handle_ok)

text \<open>
  The headers catch up with the data.  After any scroll events and animation frames at most
  one callback is waiting, and when the next frame has run the headers stand where the last
  scroll event put the data.
\<close>

theorem headers_follow_scroll:
  "s_frames (fold scroll_handle es scroll_start) \<le> 1
    \<and> (let s = scroll_handle AnimationFrame (scroll_handle (ScrollTo t l) (fold scroll_handle es scroll_start))
       in s_frames s = 0 \<and> rowHeader_top s = - t \<and> columnHeader_x s = - l)"
proof -
  let ?s = "fold scroll_handle es scroll_start"
  have ok: "scroll_ok ?s" by (rule scroll_run_ok) (simp add: scroll_ok_def scroll_start_def)
  have ok1: "scroll_ok (scroll_handle (ScrollTo t l) ?s)" by (rule scroll_handle_ok [OF ok])
  let ?t = "scroll_handle (ScrollTo t l) ?s"
  have sc: "isScrolling ?t" "lastScrollTop ?t = Some t" "lastScrollLeft ?t = Some l"
    by (simp_all add: scroll_handle_def didScroll_def Let_def)
  then have one: "s_frames ?t = Suc 0" using ok1 by (simp add: scroll_ok_def)
  note eff = updateHeaderPositions_effect [OF ok1 sc(1) one]
  have "s_frames ?s \<le> 1" using ok by (simp add: scroll_ok_def)
  moreover have "rowHeader_top (updateHeaderPositions (?t\<lparr>s_frames := 0\<rparr>)) = - t"
      "columnHeader_x (updateHeaderPositions (?t\<lparr>s_frames := 0\<rparr>)) = - l"
    using eff(1-3) sc(2,3) by (simp_all add: scroll_ok_def)
  ultimately show ?thesis using eff(4) one by (simp add: scroll_handle_def [of AnimationFrame] Let_def)
qed

section \<open>Resizing keeps the table aligned\<close>

text \<open>All leafs of the row header are equally deep.\<close>

definition even_rows :: "header_cell list list \<Rightarrow> bool" where
  "even_rows rows \<longleftrightarrow> (\<forall>c \<in> set (concat rows). is_leaf_cell c \<longrightarrow> hc_depth c = maxDepth rows)"

lemma even_cross: "even_rows rows \<Longrightarrow> c \<in> set (concat rows) \<Longrightarrow> cross_attr rows c = None"
  by (auto simp: even_rows_def cross_attr_def leaf_cross_span_def span_attr_def)

lemma row_chain_depth: "row_chain row \<Longrightarrow> k < length row \<Longrightarrow> hc_depth (row ! k) = hc_depth (hd row) + k"
proof (induction row arbitrary: k rule: row_chain.induct)
  case (3 c c' r)
  then show ?case by (cases k) auto
qed auto

lemma depth_range:
  assumes "list_all branching hs" and "hs \<noteq> []" and "r < length (rowHeaderRows hs)" and "k < length (rowHeaderRows hs ! r)"
  shows "hc_depth (rowHeaderRows hs ! r ! k) \<le> maxDepth (rowHeaderRows hs) \<and> 0 < hc_depth (rowHeaderRows hs ! r ! k)"
proof -
  let ?row = "rowHeaderRows hs ! r"
  have mem: "?row \<in> set (rowHeaderRows hs)" using assms(3) by simp
  have chain: "row_chain ?row" by (rule rows_chain [OF assms(1,2) mem])
  have "hc_depth (last ?row) \<le> maxDepth (rowHeaderRows hs)" by (rule maxDepth_ge [OF chain_cell(2,3) [OF assms]])
  then have "hc_depth (?row ! k) \<le> maxDepth (rowHeaderRows hs)"
    using row_chain_last [OF chain] row_chain_depth [OF chain assms(4)] assms(4) by linarith
  moreover obtain n where "?row ! k \<in> set (concat (rows_of n 0 (hs ! n)))"
    using row_cell_top [OF assms(2) cell_mem [OF assms(3,4)]] by blast
  then have "0 < hc_depth (?row ! k)" by (rule rows_of_positive(1))
  ultimately show ?thesis ..
qed

lemma first_row:
  assumes "list_all branching hs" and "hs \<noteq> []" and "even_rows (rowHeaderRows hs)"
  shows "resize_cells (rowHeaderRows hs) = hd (rowHeaderRows hs)
    \<and> length (hd (rowHeaderRows hs)) = maxDepth (rowHeaderRows hs)
    \<and> (\<forall>k < maxDepth (rowHeaderRows hs). hc_depth (hd (rowHeaderRows hs) ! k) = Suc k)"
proof -
  let ?rows = "rowHeaderRows hs"
  obtain h hs' where hs: "hs = h # hs'" using assms(2) by (cases hs) auto
  have first: "hd ?rows = hd (rows_of 0 0 h)" "?rows \<noteq> []"
    using rows_of_nonempty [of 0 0 h] rowHeaderRows_rows [OF assms(2)] hs by simp_all
  then obtain row rest where rows: "?rows = row # rest" by (cases ?rows) auto
  have chain: "row_chain row" using rows_chain [OF assms(1,2), of row] rows by simp
  have d1: "hc_depth (hd row) = 1"
    using rows_of_chain(1) [of h 0 0] assms(1) first(1) rows hs by simp
  have leaf: "is_leaf_cell (last row)" "last row \<in> set row" using row_chain_last [OF chain] chain by (cases row; simp)+
  then have "hc_depth (last row) = maxDepth ?rows" using assms(3) rows by (simp add: even_rows_def)
  then have len: "length row = maxDepth ?rows" using row_chain_last [OF chain] d1 by simp
  have "filter (\<lambda>c. cross_attr ?rows c = None) (concat ?rows) = concat ?rows"
    using even_cross [OF assms(3)] by (intro filter_True) blast
  then have "resize_cells ?rows = row" using len rows by (simp add: resize_cells_def)
  then show ?thesis using rows len row_chain_depth [OF chain] d1 by simp
qed

text \<open>
  What holds between events, relative to the page \<open>p0\<close> as it was rendered: the columns of the
  header and of the data are equally wide, a column is as rendered or has at least the minimum
  width, and the three elements beside the row header moved by as much as it grew.
\<close>

definition page_ok :: "table_page \<Rightarrow> table_state \<times> table_page \<Rightarrow> bool" where
  "page_ok p0 c \<longleftrightarrow> (case c of (st, p) \<Rightarrow>
     dcols p = hcols p \<and> list_all2 (\<lambda>w0 w. w = w0 \<or> MIN_COLUMN_WIDTH \<le> w) (hcols p0) (hcols p)
     \<and> scrollable_left p = corner_width p \<and> columnHeader_left p = corner_width p
     \<and> length (rcols p) = length (rcols p0)
     \<and> corner_width p - sum_list (rcols p) = corner_width p0 - sum_list (rcols p0)
     \<and> (st = Resizing \<and> tv_type p = RowType \<longrightarrow> resizingColumn p < length (rcols p)
          \<and> tv_offset p - tv_startX p = corner_width p - rcols p ! resizingColumn p \<and> tv_cells p \<noteq> None))"

text \<open>
  What the browser sends: handles of cells that are rendered, with the widths that the cells have,
  and clicks on rendered column headers.
\<close>

definition table_input_ok :: "table_opts \<Rightarrow> table_page \<Rightarrow> table_input \<Rightarrow> bool" where
  "table_input_ok opt p i = (let rows = rowHeaderRows (rowHeaders (o_headers opt)) in case i of
       TDown (RowHandle r k cw) x \<Rightarrow> r < length rows \<and> k < length (rows ! r)
         \<and> (\<forall>c \<in> set (concat rows). cw c + 1 = rcols p ! (hc_depth c - 1))
     | TUp w outer (OnColumnHeader cls j) \<Rightarrow>
         (\<exists>i < length (columnHeaderRows (columnHeaders (o_headers opt))). cls = ''level-'' @ decimal (Suc i))
     | _ \<Rightarrow> True)"

fun table_inputs_ok :: "table_opts \<Rightarrow> table_input list \<Rightarrow> table_state \<times> table_page \<Rightarrow> bool" where
  "table_inputs_ok opt [] c = True"
| "table_inputs_ok opt (i # is) c = (table_input_ok opt (snd c) i
     \<and> (case table_handle opt i c of Inl _ \<Rightarrow> True | Inr c' \<Rightarrow> table_inputs_ok opt is c'))"

text \<open>The row headers of the table, its delegate, and the columns rendered for the row header.\<close>

definition table_ok :: "table_opts \<Rightarrow> table_page \<Rightarrow> bool" where
  "table_ok opt p0 \<longleftrightarrow> list_all branching (rowHeaders (o_headers opt)) \<and> rowHeaders (o_headers opt) \<noteq> []
     \<and> even_rows (rowHeaderRows (rowHeaders (o_headers opt)))
     \<and> length (rcols p0) = maxDepth (rowHeaderRows (rowHeaders (o_headers opt)))
     \<and> (delegate_has has_rowHeaderResized (o_delegate opt) \<longrightarrow> delegate_has has_columnResized (o_delegate opt))"

lemma sum_list_update_int: "i < length xs \<Longrightarrow> sum_list (xs[i := v]) = sum_list xs - xs ! i + (v :: int)"
proof (induction xs arbitrary: i)
  case (Cons x xs)
  then show ?case by (cases i) auto
qed simp

lemma list_all2_update_min:
  assumes "list_all2 (\<lambda>w0 w. w = w0 \<or> m \<le> w) xs ys" and "m \<le> (v :: int)"
  shows "list_all2 (\<lambda>w0 w. w = w0 \<or> m \<le> w) xs (ys[i := v])"
  using assms by (cases "i < length ys") (auto simp: list_all2_conv_all_nth nth_list_update)

lemma row_press:
  assumes "table_ok opt p0" and "page_ok p0 (TableIdle, p)" and "table_input_ok opt p (TDown (RowHandle r k cw) x)"
  shows "\<exists>c'. idle_mouseDown (rowHeaderRows (rowHeaders (o_headers opt))) (RowHandle r k cw) x p = Inr c' \<and> page_ok p0 c'"
proof -
  let ?hs = "rowHeaders (o_headers opt)"
  let ?rows = "rowHeaderRows ?hs"
  let ?c = "?rows ! r ! k"
  have hs: "list_all branching ?hs" "?hs \<noteq> []" "even_rows ?rows" "length (rcols p0) = maxDepth ?rows"
    using assms(1) by (simp_all add: table_ok_def)
  have rk: "r < length ?rows" "k < length (?rows ! r)" and cw: "\<forall>c \<in> set (concat ?rows). cw c + 1 = rcols p ! (hc_depth c - 1)"
    using assms(3) by (simp_all add: table_input_ok_def Let_def)
  note mem = cell_mem [OF rk]
  have level: "resize_level ?rows r k = int (hc_depth ?c) - 1"
    using row_level [OF hs(1,2) rk disjI1 [OF even_cross [OF hs(3) chain_cell(2) [OF hs(1,2) rk]]]] mem hs(3)
    by (auto simp: even_rows_def)
  have "hc_depth ?c \<le> maxDepth ?rows \<and> 0 < hc_depth ?c" by (rule depth_range [OF hs(1,2) rk])
  then obtain l where l: "hc_depth ?c = Suc l" "l < maxDepth ?rows" by (cases "hc_depth ?c") auto
  let ?d = "hd ?rows ! l"
  have cells: "objectAt_int (resize_cells ?rows) (resize_level ?rows r k) = Some ?d" "hc_depth ?d = Suc l"
    using first_row [OF hs(1-3)] level l by (simp_all add: objectAt_int_def)
  have "hd ?rows \<in> set ?rows" using rk(1) by (cases ?rows) auto
  then have "?d \<in> set (concat ?rows)" using first_row [OF hs(1-3)] l(2) by (auto intro!: bexI [of _ "hd ?rows"])
  then have "cw ?d + 1 = rcols p ! l" using cw cells(2) by force
  then show ?thesis
    using assms(2) cells(1) level l hs(4) by (simp add: idle_mouseDown_def enter_resizing_def page_ok_def)
qed

lemma other_press:
  assumes "page_ok p0 (TableIdle, p)" and "tgt = ColumnHandle leaf w \<or> tgt = NoHandle"
  shows "\<exists>c'. idle_mouseDown rows tgt x p = Inr c' \<and> page_ok p0 c'"
  using assms(2)
proof
  assume "tgt = ColumnHandle leaf w"
  then show ?thesis using assms(1) by (simp add: idle_mouseDown_def enter_resizing_def page_ok_def)
next
  assume "tgt = NoHandle"
  then show ?thesis using assms(1) by (simp add: idle_mouseDown_def page_ok_def)
qed

lemma double_click_ok:
  assumes "page_ok p0 (TableIdle, p)"
  shows "page_ok p0 (TableIdle, idle_doubleClick auto dg index cw lw p)"
  using assms list_all2_update_min [of MIN_COLUMN_WIDTH "hcols p0" "hcols p"]
  by (simp add: idle_doubleClick_def setColumnWidth_def page_ok_def Let_def)

lemma resize_move_ok:
  assumes "page_ok p0 (Resizing, p)"
  shows "page_ok p0 (Resizing, resizing_mouseMove x p)"
proof (cases "tv_type p")
  case ColumnType
  then show ?thesis
    using assms list_all2_update_min [of MIN_COLUMN_WIDTH "hcols p0" "hcols p"]
    by (simp add: resizing_mouseMove_def page_ok_def Let_def)
next
  case RowType
  then show ?thesis using assms by (simp add: resizing_mouseMove_def page_ok_def Let_def sum_list_update_int)
qed

lemma page_ok_leave:
  "page_ok p0 (st, p) \<Longrightarrow> st' \<noteq> Resizing \<Longrightarrow> page_ok p0 (st', p\<lparr>calls := cs\<rparr>) \<and> page_ok p0 (st', p)"
  by (simp add: page_ok_def)

lemma resize_up_ok:
  assumes "page_ok p0 (Resizing, p)" and "table_ok opt p0"
  shows "\<exists>p'. resizing_mouseUp (o_delegate opt) w outer p = Inr p' \<and> page_ok p0 (TableIdle, p')"
proof -
  have "tv_type p = RowType \<Longrightarrow> tv_cells p \<noteq> None" using assms(1) by (simp add: page_ok_def)
  then show ?thesis
    using page_ok_leave [OF assms(1), of TableIdle] assms(2)
    by (cases "tv_type p") (auto simp: resizing_mouseUp_def table_ok_def)
qed

lemma click_ok:
  assumes "page_ok p0 (ClickInProgress, p)" and "table_input_ok opt p (TUp w outer tgt)"
  shows "\<exists>p'. click_mouseUp (o_delegate opt) (o_headers opt) tgt p = Inr p' \<and> page_ok p0 (TableIdle, p')"
proof (cases tgt)
  case (OnColumnHeader cls j)
  then obtain i where i: "i < length (columnHeaderRows (columnHeaders (o_headers opt)))" "cls = ''level-'' @ decimal (Suc i)"
    using assms(2) by (auto simp: table_input_ok_def)
  have "columnHeaderAt (columnHeaderRows (columnHeaders (o_headers opt))) cls j
      = Inr (objectAt (columnHeaderRows (columnHeaders (o_headers opt)) ! i) j)"
    using i(1) unfolding i(2) columnHeaderAt_def after_level_class option.case digits_value_decimal by (simp add: objectAt_int_def)
  then show ?thesis using page_ok_leave [OF assms(1), of TableIdle] OnColumnHeader by (simp add: click_mouseUp_def)
qed (use page_ok_leave [OF assms(1), of TableIdle] in \<open>simp_all add: click_mouseUp_def\<close>)

lemma table_handle_ok:
  assumes "table_ok opt p0" and "page_ok p0 c" and "table_input_ok opt (snd c) i"
  shows "\<exists>c'. table_handle opt i c = Inr c' \<and> page_ok p0 c'"
proof -
  obtain st p where c: "c = (st, p)" by (cases c)
  note ok = assms(2) [unfolded c]
  note inp = assms(3) [unfolded c snd_conv]
  show ?thesis
  proof (cases st)
    case TableIdle
    note ok1 = ok [unfolded TableIdle]
    have down: "\<exists>c'. idle_mouseDown (rowHeaderRows (rowHeaders (o_headers opt))) tgt x p = Inr c' \<and> page_ok p0 c'"
      if "table_input_ok opt p (TDown tgt x)" for tgt x
      using row_press [OF assms(1) ok1] other_press [OF ok1] that by (cases tgt) auto
    then show ?thesis using inp ok double_click_ok [OF ok1] c TableIdle by (cases i) (simp_all add: table_handle_def)
  next
    case ClickInProgress
    show ?thesis using inp ok click_ok [OF ok [unfolded ClickInProgress]] c ClickInProgress
      by (cases i) (auto simp: table_handle_def)
  next
    case Resizing
    show ?thesis using inp ok resize_move_ok [OF ok [unfolded Resizing]] resize_up_ok [OF ok [unfolded Resizing] assms(1)] c Resizing
      by (cases i) (auto simp: table_handle_def)
  qed
qed

lemma table_run_ok:
  "table_ok opt p0 \<Longrightarrow> page_ok p0 c \<Longrightarrow> table_inputs_ok opt is c \<Longrightarrow> \<exists>c'. table_run opt is c = Inr c' \<and> page_ok p0 c'"
proof (induction "is" arbitrary: c)
  case (Cons i "is")
  obtain c1 where "table_handle opt i c = Inr c1" "page_ok p0 c1"
    using table_handle_ok [OF Cons.prems(1,2), of i] Cons.prems(3) by fastforce
  then show ?case using Cons.IH [OF Cons.prems(1)] Cons.prems(3) by auto
qed simp


definition small_opts :: table_opts where
  "small_opts = \<lparr>o_useAutoWidth = True, o_delegate = None,
     o_headers = \<lparr>rowHeaders = [Header Map.empty None (Some [Header Map.empty None None])], columnHeaders = [Header Map.empty None None]\<rparr>\<rparr>"

definition small_table :: table_page where
  "small_table = \<lparr>hcols = [88], dcols = [88], rcols = [60, 70], scrollable_left = 131, columnHeader_left = 131, corner_width = 131,
     isEditing = False, calls = [], tv_type = ColumnType, resizingColumn = 0, tv_dragStartX = 0, tv_startX = 0, tv_offset = 0, tv_cells = None\<rparr>"

text \<open>The outer row header is made 20 pixels wider.\<close>

definition widen :: "table_input list" where
  "widen = [TDown (RowHandle 0 0 (\<lambda>c. [59, 69] ! (hc_depth c - 1))) 100, TMove 120, TUp 80 (\<lambda>_. 0) OnOther]"


text \<open>
  A delegate that handles resized row headers but not resized columns makes the end of a column
  resize fail: \<open>cells\<close> was never set.
\<close>

theorem column_resize_without_handler_throws:
  assumes "o_delegate opt = Some \<lparr>has_columnResized = False, has_rowHeaderResized = True, has_columnHeaderClicked = cc, has_rowHeaderClicked = rc\<rparr>"
    and "tv_cells p = None"
  shows "table_run opt [TDown (ColumnHandle leaf w) x, TUp m outer tgt] (TableIdle, p) = Inl TypeError"
  using assms by (simp add: table_handle_def idle_mouseDown_def enter_resizing_def resizing_mouseUp_def delegate_has_def)

theorem column_resize_without_handler_throws_witness:
  "table_run (small_opts\<lparr>o_delegate := Some \<lparr>has_columnResized = False, has_rowHeaderResized = True,
       has_columnHeaderClicked = False, has_rowHeaderClicked = False\<rparr>\<rparr>)
     [TDown (ColumnHandle 0 88) 5, TUp 88 (\<lambda>_. 0) OnOther] (TableIdle, small_table) = Inl TypeError"
  by (rule column_resize_without_handler_throws [where cc = False and rc = False]) (simp_all add: small_table_def)

end
