(* ===== verification/Array_Table.thy ===== *)
theory Array_Table
  imports Table_Model "HOL-Library.Multiset"
begin

text \<open>
  Tables over an array of objects (\<open>controllers/array_table_controller.js\<close> with
  \<open>controllers/data_table_controller.js\<close> below it): a row per object, a column per property.
  Observers on the objects push changed values into the table in place; a change of the array or
  of a header value rebuilds headers and data.
\<close>

section \<open>Objects and observers\<close>

text \<open>
  Objects are numbers; \<open>at_get\<close> is the value of a property of an object.  The observers of the
  controller are stored on the object under a name made from the property, so there is one per
  object and property: for the header it remembers the value the header was made with, for a cell
  its row and column.
\<close>

datatype prop_observer = HeaderObserver jsval | CellObserver nat nat

record table_column =
  c_label :: string
  c_property :: string
  c_renderWidth :: "int option"

record array_table =
  at_content :: "nat list"
  at_columns :: "table_column list"
  at_headerProperty :: string
  at_rowHeadersClickable :: bool
  at_get :: "nat \<Rightarrow> string \<Rightarrow> jsval"
  at_observers :: "nat \<Rightarrow> string \<rightharpoonup> prop_observer"
  at_table :: table

abbreviation col_props :: "array_table \<Rightarrow> string list" where
  "col_props a \<equiv> map c_property (at_columns a)"

definition setPropertyObserver :: "nat \<Rightarrow> string \<Rightarrow> prop_observer \<Rightarrow> array_table \<Rightarrow> array_table" where
  "setPropertyObserver object propertyName m a =
     a\<lparr>at_observers := (at_observers a)(object := (at_observers a object)(propertyName \<mapsto> m))\<rparr>"

definition removePropertyObservers :: "nat \<Rightarrow> array_table \<Rightarrow> array_table" where
  "removePropertyObservers object a = a\<lparr>at_observers := (at_observers a)(object := Map.empty)\<rparr>"

section \<open>Headers and data\<close>

definition row_header :: "array_table \<Rightarrow> nat \<Rightarrow> attrs" where
  "row_header a object = [''isClickable'' \<mapsto> JBool (at_rowHeadersClickable a),
     ''label'' \<mapsto> at_get a object (at_headerProperty a), ''object'' \<mapsto> JNum (int object)]"

definition column_header :: "table_column \<Rightarrow> attrs" where
  "column_header c = (let h = [''label'' \<mapsto> JStr (c_label c), ''property'' \<mapsto> JStr (c_property c)]
     in case c_renderWidth c of None \<Rightarrow> h | Some w \<Rightarrow> h(''render_width'' \<mapsto> JNum w))"

definition observe_headers :: "array_table \<Rightarrow> array_table" where
  "observe_headers a = fold (\<lambda>object a'. setPropertyObserver object (at_headerProperty a)
     (HeaderObserver (at_get a object (at_headerProperty a))) a') (at_content a) a"

definition array_headers :: "array_table \<Rightarrow> (headers \<times> array_table) result" where
  "array_headers a =
     (if at_headerProperty a = '''' then Inl (AssertionFailed ''headerProperty not defined for ArrayTableAdapter!'')
      else Inr (dataTable_headers (Some (flat (map (row_header a) (at_content a)))) (Some (flat (map column_header (at_columns a)))),
                observe_headers a))"

definition observe_cells :: "array_table \<Rightarrow> array_table" where
  "observe_cells a = fold (\<lambda>(i, object) a'. fold (\<lambda>(j, p) a''. setPropertyObserver object p (CellObserver i j) a'')
     (enumerate 0 (col_props a)) a') (enumerate 0 (at_content a)) a"

definition array_data :: "array_table \<Rightarrow> jsval list list" where
  "array_data a = map (\<lambda>object. map (at_get a object) (col_props a)) (at_content a)"

text \<open>
  \<open>refreshHeaders\<close>, or any other change of \<open>headers\<close>: the observer \<open>_headersDidChange\<close> reads the
  headers, empties the grid, reads \<open>data\<close> and pushes it.
\<close>

definition array_headersDidChange :: "array_table \<Rightarrow> (array_table \<times> js_error option) result" where
  "array_headersDidChange a = rbind (array_headers a) (\<lambda>(hs, a1).
     let a2 = observe_cells a1;
         (t, e) = dataTable_headersDidChange (Some (array_data a)) ((at_table a)\<lparr>t_headers := Some hs\<rparr>)
     in Inr (a2\<lparr>at_table := t\<rparr>, e))"

section \<open>Changes\<close>

text \<open>
  Setting a property of an object notifies the observer when the value changes.  \<open>passed\<close> is what
  Ember hands to an observer as its third argument; its documentation says that the argument is
  reserved, the code expects the new value.
\<close>

definition run_observer :: "(jsval \<Rightarrow> jsval) \<Rightarrow> jsval \<Rightarrow> prop_observer \<Rightarrow> array_table \<Rightarrow> (array_table \<times> js_error option) result" where
  "run_observer passed v m a = (case m of
       HeaderObserver originalValue \<Rightarrow> (if passed v \<noteq> originalValue then array_headersDidChange a else Inr (a, None))
     | CellObserver i j \<Rightarrow> (case pushDataBatch dataTable_createCell (Some [plain_cell i j v]) (at_table a) of
         (t, e) \<Rightarrow> Inr (a\<lparr>at_table := t\<rparr>, e)))"

definition set_prop :: "(jsval \<Rightarrow> jsval) \<Rightarrow> nat \<Rightarrow> string \<Rightarrow> jsval \<Rightarrow> array_table \<Rightarrow> (array_table \<times> js_error option) result" where
  "set_prop passed object p v a =
     (if at_get a object p = v then Inr (a, None)
      else (let a1 = a\<lparr>at_get := (at_get a)(object := (at_get a object)(p := v))\<rparr>
            in case at_observers a object p of None \<Rightarrow> Inr (a1, None) | Some m \<Rightarrow> run_observer passed v m a1))"

text \<open>Changing the array in place, and replacing it.\<close>

definition contentArrayWillChange :: "nat \<Rightarrow> nat \<Rightarrow> array_table \<Rightarrow> array_table" where
  "contentArrayWillChange start removed a = fold removePropertyObservers (take removed (drop start (at_content a))) a"

definition replace_content :: "nat \<Rightarrow> nat \<Rightarrow> nat list \<Rightarrow> array_table \<Rightarrow> (array_table \<times> js_error option) result" where
  "replace_content start removed added a =
     (let a1 = contentArrayWillChange start removed a
      in array_headersDidChange (a1\<lparr>at_content := replace_at start removed added (at_content a1)\<rparr>))"

definition set_content :: "nat list \<Rightarrow> array_table \<Rightarrow> (array_table \<times> js_error option) result" where
  "set_content new a =
     array_headersDidChange ((fold removePropertyObservers (at_content a) a)\<lparr>at_content := new\<rparr>)"

text \<open>
  \<open>sortContent\<close>.  \<open>compare\<close> is \<open>Ember.compare\<close>; \<open>Array.prototype.sort\<close> keeps the order of equal
  elements.
\<close>

fun insert_by :: "('a \<Rightarrow> 'a \<Rightarrow> int) \<Rightarrow> 'a \<Rightarrow> 'a list \<Rightarrow> 'a list" where
  "insert_by cmp x [] = [x]"
| "insert_by cmp x (y # ys) = (if cmp x y \<le> 0 then x # y # ys else y # insert_by cmp x ys)"

definition js_sort :: "('a \<Rightarrow> 'a \<Rightarrow> int) \<Rightarrow> 'a list \<Rightarrow> 'a list" where
  "js_sort cmp xs = foldr (insert_by cmp) xs []"

definition sortContent ::
  "(jsval \<Rightarrow> jsval \<Rightarrow> int) \<Rightarrow> string \<Rightarrow> bool \<Rightarrow> array_table \<Rightarrow> (array_table \<times> js_error option) result" where
  "sortContent compare property descending a =
     (let orderFactor = (if descending then -1 else 1)
      in set_content (js_sort (\<lambda>o1 o2. orderFactor * compare (at_get a o1 property) (at_get a o2 property)) (at_content a)) a)"

text \<open>
  The menu of a clicked column header (\<open>mixins/table_sort_support.js\<close>): only leafs have one; each
  entry holds the header and an order, and choosing it sorts.
\<close>

definition sortMenuOptions :: "header \<Rightarrow> (string \<times> header \<times> string) list" where
  "sortMenuOptions h = [(''Sort ascending...'', h, ''asc''), (''Sort descending...'', h, ''desc'')]"

definition columnHeaderClicked :: "header \<Rightarrow> (string \<times> header \<times> string) list option" where
  "columnHeaderClicked h = (if children h \<noteq> None then None else Some (sortMenuOptions h))"

definition choose_sort ::
  "(jsval \<Rightarrow> jsval \<Rightarrow> int) \<Rightarrow> header \<times> string \<Rightarrow> array_table \<Rightarrow> (array_table \<times> js_error option) result" where
  "choose_sort compare descriptor a = (case descriptor of (h, order) \<Rightarrow>
     sortContent compare (case hattrs h ''property'' of Some (JStr p) \<Rightarrow> p | _ \<Rightarrow> '''') (order = ''desc'') a)"

datatype array_op = SetProp nat string jsval | Replace nat nat "nat list" | SetContent "nat list" | Sort string bool

definition array_step ::
  "(jsval \<Rightarrow> jsval) \<Rightarrow> (jsval \<Rightarrow> jsval \<Rightarrow> int) \<Rightarrow> array_op \<Rightarrow> array_table \<Rightarrow> (array_table \<times> js_error option) result" where
  "array_step passed compare x a = (case x of
       SetProp object p v \<Rightarrow> set_prop passed object p v a
     | Replace s r new \<Rightarrow> replace_content s r new a
     | SetContent new \<Rightarrow> set_content new a
     | Sort p desc \<Rightarrow> sortContent compare p desc a)"

fun array_run ::
  "(jsval \<Rightarrow> jsval) \<Rightarrow> (jsval \<Rightarrow> jsval \<Rightarrow> int) \<Rightarrow> array_op list \<Rightarrow> array_table \<Rightarrow> (array_table \<times> js_error option) result" where
  "array_run passed compare [] a = Inr (a, None)"
| "array_run passed compare (x # xs) a = rbind (array_step passed compare x a) (\<lambda>(a', e).
     case e of None \<Rightarrow> array_run passed compare xs a' | Some _ \<Rightarrow> Inr (a', e))"

section \<open>What the table shows\<close>

definition array_header_of :: "array_table \<Rightarrow> headers" where
  "array_header_of a = dataTable_headers (Some (flat (map (row_header a) (at_content a)))) (Some (flat (map column_header (at_columns a))))"

definition value_entry :: "jsval \<Rightarrow> entry" where
  "value_entry v = CellEntry (TableCell [(''value'', v)])"

definition shows_array :: "array_table \<Rightarrow> bool" where
  "shows_array a \<longleftrightarrow> t_headers (at_table a) = Some (array_header_of a)
     \<and> t_data (at_table a) = map (map value_entry) (array_data a)"

lemma data_grid: "grid_ok (length (at_content a)) (length (at_columns a)) (array_data a)"
  by (auto simp: grid_ok_def array_data_def)

lemma data_nth:
  "i < length (at_content a) \<Longrightarrow> j < length (at_columns a) \<Longrightarrow> array_data a ! i ! j = at_get a (at_content a ! i) (c_property (at_columns a ! j))"
  by (simp add: array_data_def)

lemma grid_eqI:
  assumes "grid_ok m n g" and "grid_ok m n g'" and "\<And>i j. i < m \<Longrightarrow> j < n \<Longrightarrow> g ! i ! j = g' ! i ! j"
  shows "g = g'"
proof (rule nth_equalityI)
  show "length g = length g'" using assms(1,2) by (simp add: grid_ok_def)
  fix i
  assume i: "i < length g"
  then have "i < m" using assms(1) by (simp add: grid_ok_def)
  moreover have "length (g ! i) = n" "length (g' ! i) = n" using i assms(1,2) by (auto simp: grid_ok_def)
  ultimately show "g ! i = g' ! i" using assms(3) by (intro nth_equalityI) simp_all
qed

lemma grid_map: "grid_ok m n g \<Longrightarrow> grid_ok m n (map (map f) g)"
  by (auto simp: grid_ok_def)

lemma load_headers: "t_headers (fst (dataTable_headersDidChange d t)) = t_headers t"
  by (auto simp: dataTable_headersDidChange_def pushDataBatch_def headersDidChange_def Let_def split: option.splits prod.splits sum.splits)

lemma load_shows:
  assumes "at_columns a \<noteq> []" and "t_headers t = Some (array_header_of a)"
  shows "\<exists>t'. dataTable_headersDidChange (Some (array_data a)) t = (t', None)
    \<and> t_headers t' = Some (array_header_of a) \<and> t_data t' = map (map value_entry) (array_data a)"
proof (cases "at_content a = []")
  case True
  then have "array_data a = []" by (simp add: array_data_def)
  then show ?thesis
    using assms(2) True
    by (simp add: dataTable_headersDidChange_def headersDidChange_def rowLeafs_def columnLeafs_def array_header_of_def
        dataTable_headers_def wrapHeaders_def flat_def getLeafs_def transformData_def pushDataBatch_def
        dataBatchIsForCurrentTable_def Let_def mark_leafs_def)
next
  case False
  let ?as = "map (row_header a) (at_content a)" and ?bs = "map column_header (at_columns a)"
  have "t_headers t = Some (dataTable_headers (Some (flat ?as)) (Some (flat ?bs)))" using assms(2) by (simp add: array_header_of_def)
  moreover have g: "grid_ok (length ?as) (length ?bs) (array_data a)" using data_grid by simp
  ultimately obtain t' where t': "dataTable_headersDidChange (Some (array_data a)) t = (t', None)"
      "grid_ok (length ?as) (length ?bs) (t_data t')"
      "\<And>i j. i < length ?as \<Longrightarrow> j < length ?bs \<Longrightarrow> t_data t' ! i ! j = value_entry (array_data a ! i ! j)"
    using data_table_load [of t ?as ?bs "array_data a"] False assms(1) by (auto simp: value_entry_def)
  have "t_data t' = map (map value_entry) (array_data a)"
  proof (rule grid_eqI [OF t'(2) grid_map [OF g]])
    fix i j
    assume "i < length ?as" "j < length ?bs"
    then show "t_data t' ! i ! j = map (map value_entry) (array_data a) ! i ! j"
      using t'(3) by (simp add: array_data_def)
  qed
  then show ?thesis using t'(1) load_headers [of "Some (array_data a)" t] assms(2) by simp
qed

lemma push_one:
  assumes "shows_array a" and "i < length (at_content a)" and "j < length (at_columns a)"
  shows "\<exists>t'. pushDataBatch dataTable_createCell (Some [plain_cell i j v]) (at_table a) = (t', None)
    \<and> t_headers t' = t_headers (at_table a) \<and> t_data t' = set_grid i j (value_entry v) (t_data (at_table a))
    \<and> dirtyCells t' = dirtyCells (at_table a) @ [(i, j)]"
proof -
  let ?as = "map (row_header a) (at_content a)" and ?bs = "map column_header (at_columns a)"
  let ?rs = "getLeafs (wrapHeaders (flat ?as)) []" and ?cs = "getLeafs (wrapHeaders (flat ?bs)) []"
  let ?m = "path_mapping ?rs ?cs"
  let ?t = "at_table a"
  have h: "t_headers ?t = Some (array_header_of a)" "rowHeaders (array_header_of a) = wrapHeaders (flat ?as)"
      "columnHeaders (array_header_of a) = wrapHeaders (flat ?bs)"
    using assms(1) by (simp_all add: shows_array_def array_header_of_def dataTable_headers_def)
  have p: "pushes dataTable_createCell ?m (valuesOn ?t) ?rs ?cs (plain_cell i j v) (i, j) (TableCell [(''value'', v)])"
    using assms(2,3) by (intro plain_cell_pushes) simp_all
  have g: "grid_ok (length ?rs) (length ?cs) (t_data ?t)"
    using assms(1) grid_map [OF data_grid [of a]] by (simp add: shows_array_def length_leafs_flat)
  have e: "t_data ?t ! i ! j = value_entry (array_data a ! i ! j)"
    using assms by (simp add: shows_array_def array_data_def)
  have cur: "dataBatchIsForCurrentTable ?m [plain_cell i j v]"
    using batch_is_current [of dataTable_createCell ?m "valuesOn ?t" ?rs ?cs "[plain_cell i j v]" "[((i, j), TableCell [(''value'', v)])]"] p by simp
  have "push_cells dataTable_createCell ?m (valuesOn ?t) ?rs ?cs [plain_cell i j v] (t_data ?t) (dirtyCells ?t)
      = (set_grid i j (value_entry v) (t_data ?t), Inr (dirtyCells ?t @ [(i, j)]))"
    unfolding push_cells_step [OF p g] e by (simp add: merge_pending_def value_entry_def)
  then show ?thesis
    using pushDataBatch_unfold [OF h(1) refl, of "[plain_cell i j v]" dataTable_createCell] cur h by simp
qed

section \<open>Observers\<close>

definition expected_observers :: "array_table \<Rightarrow> nat \<Rightarrow> string \<rightharpoonup> prop_observer" where
  "expected_observers a object p = (case indexOf (at_content a) object of
       None \<Rightarrow> None
     | Some i \<Rightarrow> (if p = at_headerProperty a then Some (HeaderObserver (at_get a object p))
         else map_option (CellObserver i) (indexOf (col_props a) p)))"

lemma indexOf_Some_mem: "indexOf xs y = Some i \<Longrightarrow> y \<in> set xs"
  by (cases "y \<in> set xs") (simp_all add: indexOf_None [symmetric])

lemma set_cells_row:
  assumes "distinct ps"
  shows "\<exists>obs. fold (\<lambda>(j, p) a. setPropertyObserver object p (CellObserver i j) a) (enumerate n ps) a = a\<lparr>at_observers := obs\<rparr>
    \<and> (\<forall>ob p. obs ob p = (if ob = object \<and> p \<in> set ps
          then map_option (\<lambda>j. CellObserver i (n + j)) (indexOf ps p) else at_observers a ob p))"
  using assms
proof (induction ps arbitrary: n a)
  case Nil
  have "a = a\<lparr>at_observers := at_observers a\<rparr>" by simp
  then show ?case by (intro exI [of _ "at_observers a"]) simp
next
  case (Cons q ps)
  let ?a = "setPropertyObserver object q (CellObserver i n) a"
  have ps: "distinct ps" using Cons.prems by simp
  obtain obs where obs: "fold (\<lambda>(j, p) a. setPropertyObserver object p (CellObserver i j) a) (enumerate (Suc n) ps) ?a = ?a\<lparr>at_observers := obs\<rparr>"
      "\<forall>ob p. obs ob p = (if ob = object \<and> p \<in> set ps
          then map_option (\<lambda>j. CellObserver i (Suc n + j)) (indexOf ps p) else at_observers ?a ob p)"
    using Cons.IH [OF ps, of "Suc n" ?a] by (elim exE conjE) (rule that)
  show ?case
  proof (intro exI conjI)
    show "fold (\<lambda>(j, p) a. setPropertyObserver object p (CellObserver i j) a) (enumerate n (q # ps)) a = a\<lparr>at_observers := obs\<rparr>"
      using obs(1) by (simp add: setPropertyObserver_def)
    show "\<forall>ob p. obs ob p = (if ob = object \<and> p \<in> set (q # ps)
          then map_option (\<lambda>j. CellObserver i (n + j)) (indexOf (q # ps) p) else at_observers a ob p)"
      using obs(2) Cons.prems by (auto simp: setPropertyObserver_def option.map_comp comp_def)
  qed
qed

lemma set_cells:
  assumes "distinct ps" and "distinct xs"
  shows "\<exists>obs. fold (\<lambda>(i, object) a'. fold (\<lambda>(j, p) a''. setPropertyObserver object p (CellObserver i j) a'') (enumerate 0 ps) a')
       (enumerate n xs) a = a\<lparr>at_observers := obs\<rparr>
    \<and> (\<forall>ob p. obs ob p = (if ob \<in> set xs \<and> p \<in> set ps
          then map_option (CellObserver (n + the (indexOf xs ob))) (indexOf ps p) else at_observers a ob p))"
  using assms(2)
proof (induction xs arbitrary: n a)
  case Nil
  have "a = a\<lparr>at_observers := at_observers a\<rparr>" by simp
  then show ?case by (intro exI [of _ "at_observers a"]) simp
next
  case (Cons x xs)
  obtain o1 where o1: "fold (\<lambda>(j, p) a''. setPropertyObserver x p (CellObserver n j) a'') (enumerate 0 ps) a = a\<lparr>at_observers := o1\<rparr>"
      "\<forall>ob p. o1 ob p = (if ob = x \<and> p \<in> set ps then map_option (\<lambda>j. CellObserver n (0 + j)) (indexOf ps p) else at_observers a ob p)"
    using set_cells_row [OF assms(1)] by blast
  obtain obs where obs: "fold (\<lambda>(i, object) a'. fold (\<lambda>(j, p) a''. setPropertyObserver object p (CellObserver i j) a'') (enumerate 0 ps) a')
       (enumerate (Suc n) xs) (a\<lparr>at_observers := o1\<rparr>) = a\<lparr>at_observers := obs\<rparr>"
      "\<forall>ob p. obs ob p = (if ob \<in> set xs \<and> p \<in> set ps
          then map_option (CellObserver (Suc n + the (indexOf xs ob))) (indexOf ps p) else o1 ob p)"
    using Cons.IH [of "Suc n" "a\<lparr>at_observers := o1\<rparr>"] Cons.prems by auto
  show ?case
  proof (intro exI conjI)
    show "fold (\<lambda>(i, object) a'. fold (\<lambda>(j, p) a''. setPropertyObserver object p (CellObserver i j) a'') (enumerate 0 ps) a')
       (enumerate n (x # xs)) a = a\<lparr>at_observers := obs\<rparr>" using o1(1) obs(1) by simp
    have "the (map_option Suc (indexOf xs ob)) = Suc (the (indexOf xs ob))" if "ob \<in> set xs" for ob
      using that indexOf_None [of xs ob] by (cases "indexOf xs ob") auto
    then show "\<forall>ob p. obs ob p = (if ob \<in> set (x # xs) \<and> p \<in> set ps
          then map_option (CellObserver (n + the (indexOf (x # xs) ob))) (indexOf ps p) else at_observers a ob p)"
      using obs(2) o1(2) Cons.prems by auto
  qed
qed

lemma observe_headers_effect:
  "\<exists>obs. observe_headers a = a\<lparr>at_observers := obs\<rparr> \<and> (\<forall>ob p. obs ob p =
     (if ob \<in> set (at_content a) \<and> p = at_headerProperty a then Some (HeaderObserver (at_get a ob p)) else at_observers a ob p))"
proof -
  have "\<exists>obs. fold (\<lambda>ob a'. setPropertyObserver ob h (HeaderObserver (f ob)) a') xs b = b\<lparr>at_observers := obs\<rparr>
      \<and> (\<forall>ob p. obs ob p = (if ob \<in> set xs \<and> p = h then Some (HeaderObserver (f ob)) else at_observers b ob p))" for xs b h f
  proof (induction xs arbitrary: b)
    case Nil
    have "b = b\<lparr>at_observers := at_observers b\<rparr>" by simp
    then show ?case by (intro exI [of _ "at_observers b"]) simp
  next
    case (Cons x xs)
    let ?b = "setPropertyObserver x h (HeaderObserver (f x)) b"
    obtain obs where obs: "fold (\<lambda>ob a'. setPropertyObserver ob h (HeaderObserver (f ob)) a') xs ?b = ?b\<lparr>at_observers := obs\<rparr>"
        "\<forall>ob p. obs ob p = (if ob \<in> set xs \<and> p = h then Some (HeaderObserver (f ob)) else at_observers ?b ob p)"
      using Cons.IH [of ?b] by (elim exE conjE) (rule that)
    show ?case
    proof (intro exI conjI)
      show "fold (\<lambda>ob a'. setPropertyObserver ob h (HeaderObserver (f ob)) a') (x # xs) b = b\<lparr>at_observers := obs\<rparr>"
        using obs(1) by (simp add: setPropertyObserver_def)
      show "\<forall>ob p. obs ob p = (if ob \<in> set (x # xs) \<and> p = h then Some (HeaderObserver (f ob)) else at_observers b ob p)"
        using obs(2) by (simp add: setPropertyObserver_def)
    qed
  qed
  from this [of "at_headerProperty a" "\<lambda>ob. at_get a ob (at_headerProperty a)" "at_content a" a] show ?thesis
    unfolding observe_headers_def by (elim exE conjE) (rule exI, auto)
qed

lemma remove_observers_effect:
  "fold removePropertyObservers xs a = a\<lparr>at_observers := (\<lambda>ob. if ob \<in> set xs then Map.empty else at_observers a ob)\<rparr>"
proof (induction xs arbitrary: a)
  case (Cons x xs)
  have "(\<lambda>ob. if ob \<in> set xs then Map.empty else ((at_observers a)(x := Map.empty)) ob)
      = (\<lambda>ob. if ob \<in> set (x # xs) then Map.empty else at_observers a ob)" by auto
  then show ?case using Cons.IH [of "removePropertyObservers x a"] by (simp add: removePropertyObservers_def cong: if_cong)
qed simp

text \<open>
  The conditions on the configuration: there are columns, all with different properties, none of
  which is the header property; the objects are different and have a header value.
\<close>

definition config_ok :: "array_table \<Rightarrow> bool" where
  "config_ok a \<longleftrightarrow> at_headerProperty a \<noteq> '''' \<and> at_columns a \<noteq> [] \<and> distinct (col_props a)
     \<and> at_headerProperty a \<notin> set (col_props a)"

definition content_ok :: "array_table \<Rightarrow> bool" where
  "content_ok a \<longleftrightarrow> distinct (at_content a) \<and> (\<forall>ob \<in> set (at_content a). at_get a ob (at_headerProperty a) \<noteq> JUndefined)"

definition array_ok :: "array_table \<Rightarrow> bool" where
  "array_ok a \<longleftrightarrow> config_ok a \<and> content_ok a \<and> shows_array a \<and> at_observers a = expected_observers a"

text \<open>Observers that were left over are only on objects that stay and only for properties in use.\<close>

definition leftovers_ok :: "array_table \<Rightarrow> bool" where
  "leftovers_ok a \<longleftrightarrow> (\<forall>ob p. at_observers a ob p \<noteq> None \<longrightarrow>
     ob \<in> set (at_content a) \<and> (p = at_headerProperty a \<or> p \<in> set (col_props a)))"

definition same_model :: "array_table \<Rightarrow> array_table \<Rightarrow> bool" where
  "same_model a a' \<longleftrightarrow> at_content a' = at_content a \<and> at_get a' = at_get a \<and> at_columns a' = at_columns a
     \<and> at_headerProperty a' = at_headerProperty a"

lemma refresh_ok:
  assumes "config_ok a" and "content_ok a" and "leftovers_ok a"
  shows "\<exists>a'. array_headersDidChange a = Inr (a', None) \<and> array_ok a' \<and> same_model a a'"
proof -
  obtain o1 where o1: "observe_headers a = a\<lparr>at_observers := o1\<rparr>" "\<forall>ob p. o1 ob p =
     (if ob \<in> set (at_content a) \<and> p = at_headerProperty a then Some (HeaderObserver (at_get a ob p)) else at_observers a ob p)"
    using observe_headers_effect [of a] by (elim exE conjE) (rule that)
  obtain o2 where o2: "observe_cells (a\<lparr>at_observers := o1\<rparr>) = a\<lparr>at_observers := o2\<rparr>"
      "\<forall>ob p. o2 ob p = (if ob \<in> set (at_content a) \<and> p \<in> set (col_props a)
          then map_option (CellObserver (0 + the (indexOf (at_content a) ob))) (indexOf (col_props a) p) else o1 ob p)"
    using set_cells [of "col_props a" "at_content a" 0 "a\<lparr>at_observers := o1\<rparr>"] assms(1,2)
    unfolding observe_cells_def by (auto simp: config_ok_def content_ok_def)
  obtain t where t: "dataTable_headersDidChange (Some (array_data a)) ((at_table a)\<lparr>t_headers := Some (array_header_of a)\<rparr>) = (t, None)"
      "t_headers t = Some (array_header_of a)" "t_data t = map (map value_entry) (array_data a)"
    using load_shows [of a "(at_table a)\<lparr>t_headers := Some (array_header_of a)\<rparr>"] assms(1) by (auto simp: config_ok_def)
  let ?a = "a\<lparr>at_observers := o2, at_table := t\<rparr>"
  have run: "array_headersDidChange a = Inr (?a, None)"
    using assms(1) o1(1) o2(1) t(1)
    by (simp add: array_headersDidChange_def array_headers_def array_header_of_def config_ok_def Let_def)
  have "o2 ob p = expected_observers a ob p" for ob p
  proof (cases "indexOf (at_content a) ob")
    case None
    then have "at_observers a ob p = None"
      using assms(3) by (cases "at_observers a ob p") (auto simp: leftovers_ok_def)
    moreover have "ob \<notin> set (at_content a)" using None by simp
    ultimately show ?thesis using o1(2) o2(2) unfolding expected_observers_def None by simp
  next
    case (Some i)
    then have ob: "ob \<in> set (at_content a)" using indexOf_Some_nth nth_mem by metis
    show ?thesis
    proof (cases "p = at_headerProperty a \<or> p \<in> set (col_props a)")
      case True
      then show ?thesis using Some ob o1(2) o2(2) assms(1) by (auto simp: expected_observers_def config_ok_def)
    next
      case False
      then have "at_observers a ob p = None"
      using assms(3) by (cases "at_observers a ob p") (auto simp: leftovers_ok_def)
      then show ?thesis using Some False o1(2) o2(2) indexOf_None [of "col_props a" p] by (auto simp: expected_observers_def)
    qed
  qed
  then have "o2 = expected_observers a" by blast
  moreover have "expected_observers ?a = expected_observers a"
    by (intro ext) (simp add: expected_observers_def cong: option.case_cong if_cong)
  moreover have "shows_array ?a" using t(2,3) by (simp add: shows_array_def array_header_of_def array_data_def row_header_def [abs_def])
  ultimately have "array_ok ?a" using assms(1,2) by (simp add: array_ok_def config_ok_def content_ok_def)
  then show ?thesis using run by (auto simp: same_model_def)
qed

section \<open>The table follows the objects\<close>

text \<open>The abstract model: the array and the properties of the objects, without any table.\<close>

type_synonym array_model = "nat list \<times> (nat \<Rightarrow> string \<Rightarrow> jsval)"

definition abs_array :: "array_table \<Rightarrow> array_model" where
  "abs_array a = (at_content a, at_get a)"

definition model_step :: "(jsval \<Rightarrow> jsval \<Rightarrow> int) \<Rightarrow> array_op \<Rightarrow> array_model \<Rightarrow> array_model" where
  "model_step compare x s = (case s of (xs, get) \<Rightarrow> (case x of
       SetProp object p v \<Rightarrow> (xs, get(object := (get object)(p := v)))
     | Replace st r new \<Rightarrow> (replace_at st r new xs, get)
     | SetContent new \<Rightarrow> (new, get)
     | Sort p desc \<Rightarrow> (js_sort (\<lambda>o1 o2. (if desc then -1 else 1) * compare (get o1 p) (get o2 p)) xs, get)))"

text \<open>The changes the program makes: header values stay defined and objects stay different.\<close>

definition op_ok :: "array_op \<Rightarrow> array_table \<Rightarrow> bool" where
  "op_ok x a = (case x of
       SetProp object p v \<Rightarrow> p = at_headerProperty a \<longrightarrow> v \<noteq> JUndefined
     | Replace st r new \<Rightarrow> content_ok (a\<lparr>at_content := replace_at st r new (at_content a)\<rparr>)
     | SetContent new \<Rightarrow> content_ok (a\<lparr>at_content := new\<rparr>)
     | Sort p desc \<Rightarrow> True)"

fun ops_ok :: "(jsval \<Rightarrow> jsval) \<Rightarrow> (jsval \<Rightarrow> jsval \<Rightarrow> int) \<Rightarrow> array_op list \<Rightarrow> array_table \<Rightarrow> bool" where
  "ops_ok passed compare [] a = True"
| "ops_ok passed compare (x # xs) a = (op_ok x a \<and> (case array_step passed compare x a of
     Inr (a', None) \<Rightarrow> ops_ok passed compare xs a' | _ \<Rightarrow> True))"

lemma expected_leftovers: "at_observers a = expected_observers a \<Longrightarrow> leftovers_ok a"
  unfolding leftovers_ok_def expected_observers_def
  by (auto split: option.splits if_splits dest: indexOf_Some_mem)

abbreviation with_prop :: "nat \<Rightarrow> string \<Rightarrow> jsval \<Rightarrow> array_table \<Rightarrow> array_table" where
  "with_prop object p v a \<equiv> a\<lparr>at_get := (at_get a)(object := (at_get a object)(p := v))\<rparr>"

lemma unused_prop:
  assumes "array_ok a" and "object \<notin> set (at_content a) \<or> p \<noteq> at_headerProperty a \<and> p \<notin> set (col_props a)"
  shows "array_ok (with_prop object p v a)"
proof -
  let ?a = "with_prop object p v a"
  have data: "array_data ?a = array_data a" using assms(2) by (auto simp: array_data_def)
  have rows: "map (row_header ?a) (at_content a) = map (row_header a) (at_content a)" using assms(2) by (auto simp: row_header_def)
  have heads: "array_header_of ?a = array_header_of a" by (simp add: array_header_of_def rows)
  have "expected_observers ?a ob q = expected_observers a ob q" for ob q
    using assms(2) by (auto simp: expected_observers_def split: option.splits dest: indexOf_Some_mem)
  then have obs: "expected_observers ?a = expected_observers a" by blast
  have "content_ok ?a" using assms by (auto simp: array_ok_def content_ok_def)
  then show ?thesis using assms(1) data heads obs by (simp add: array_ok_def config_ok_def shows_array_def)
qed

lemma cell_prop:
  assumes "array_ok a" and "i < length (at_content a)" and "j < length (at_columns a)"
    and "object = at_content a ! i" and "p = c_property (at_columns a ! j)"
  shows "\<exists>t'. pushDataBatch dataTable_createCell (Some [plain_cell i j v]) (at_table a) = (t', None)
    \<and> array_ok ((with_prop object p v a)\<lparr>at_table := t'\<rparr>)"
proof -
  have sh: "shows_array a" and c: "config_ok a" and d: "distinct (at_content a)" "distinct (col_props a)"
    using assms(1) by (simp_all add: array_ok_def config_ok_def content_ok_def)
  obtain t' where t': "pushDataBatch dataTable_createCell (Some [plain_cell i j v]) (at_table a) = (t', None)"
      "t_headers t' = t_headers (at_table a)" "t_data t' = set_grid i j (value_entry v) (t_data (at_table a))"
    using push_one [OF sh assms(2,3)] by blast
  let ?a = "(with_prop object p v a)\<lparr>at_table := t'\<rparr>"
  have "p \<in> set (col_props a)" using assms(3,5) by simp
  then have ph: "p \<noteq> at_headerProperty a" using c unfolding config_ok_def by blast
  let ?m = "length (at_content a)" and ?n = "length (at_columns a)"
  have g: "grid_ok ?m ?n (map (map value_entry) (array_data a))" by (rule grid_map [OF data_grid])
  have "set_grid i j (value_entry v) (map (map value_entry) (array_data a)) = map (map value_entry) (array_data ?a)"
  proof (rule grid_eqI [OF grid_ok_set [OF g assms(2)]])
    show "grid_ok ?m ?n (map (map value_entry) (array_data ?a))" using grid_map [OF data_grid [of ?a]] by simp
    fix i' j'
    assume ij: "i' < ?m" "j' < ?n"
    have "at_content a ! i' = object \<longleftrightarrow> i' = i" using d(1) ij(1) assms(2,4) nth_eq_iff_index_eq by blast
    moreover have "c_property (at_columns a ! j') = p \<longleftrightarrow> j' = j"
      using d(2) ij(2) assms(3,5) nth_eq_iff_index_eq [of "col_props a" j' j] by simp
    ultimately show "set_grid i j (value_entry v) (map (map value_entry) (array_data a)) ! i' ! j' = map (map value_entry) (array_data ?a) ! i' ! j'"
      using set_grid_nth [OF g assms(2,3) ij(1)] ij assms(4,5) by (simp add: array_data_def)
  qed
  moreover have rows: "map (row_header ?a) (at_content a) = map (row_header a) (at_content a)" using ph by (auto simp: row_header_def)
  have "array_header_of ?a = array_header_of a" by (simp add: array_header_of_def rows)
  ultimately have "shows_array ?a" using sh t'(2,3) by (simp add: shows_array_def)
  moreover have label: "at_get ?a ob (at_headerProperty a) = at_get a ob (at_headerProperty a)" for ob using ph by simp
  have "expected_observers ?a = expected_observers a"
    by (intro ext) (simp add: expected_observers_def label [simplified] cong: option.case_cong if_cong)
  moreover have "content_ok ?a" using assms(1) ph by (auto simp: array_ok_def content_ok_def)
  ultimately show ?thesis using assms(1) t'(1) by (auto simp: array_ok_def config_ok_def)
qed

lemma set_prop_ok:
  assumes "array_ok a" and "\<And>v. passed v = v \<or> passed v = JUndefined" and "op_ok (SetProp object p v) a"
  shows "\<exists>a'. set_prop passed object p v a = Inr (a', None) \<and> array_ok a' \<and> same_model (with_prop object p v a) a'"
proof (cases "at_get a object p = v")
  case True
  then have "with_prop object p v a = a" by (simp add: fun_upd_idem)
  then show ?thesis using True assms(1) by (simp add: set_prop_def same_model_def)
next
  case ne: False
  let ?a = "with_prop object p v a"
  have obs: "at_observers a object p = expected_observers a object p" using assms(1) by (simp add: array_ok_def)
  show ?thesis
  proof (cases "object \<notin> set (at_content a) \<or> p \<noteq> at_headerProperty a \<and> p \<notin> set (col_props a)")
    case True
    then have "at_observers a object p = None"
      unfolding obs expected_observers_def by (auto split: option.split dest: indexOf_Some_mem)
    then show ?thesis using ne unused_prop [OF assms(1) True] by (simp add: set_prop_def same_model_def)
  next
    case used: False
    then obtain i where i: "indexOf (at_content a) object = Some i" by (cases "indexOf (at_content a) object") auto
    show ?thesis
    proof (cases "p = at_headerProperty a")
      case True
      have "at_observers a object p = Some (HeaderObserver (at_get a object p))"
        unfolding obs expected_observers_def i using True by simp
      moreover have "passed v \<noteq> at_get a object p"
        using assms(1) assms(2) [of v] ne used True by (auto simp: array_ok_def content_ok_def)
      moreover have "config_ok ?a" "content_ok ?a" "leftovers_ok ?a"
        using assms(1,3) True expected_leftovers [of a]
        by (auto simp: array_ok_def config_ok_def content_ok_def op_ok_def leftovers_ok_def)
      then obtain a' where "array_headersDidChange ?a = Inr (a', None)" "array_ok a'" "same_model ?a a'"
        using refresh_ok by blast
      ultimately show ?thesis using ne by (simp add: set_prop_def run_observer_def)
    next
      case False
      then obtain j where j: "indexOf (col_props a) p = Some j" using used by (cases "indexOf (col_props a) p") auto
      have ij: "i < length (at_content a)" "object = at_content a ! i" "j < length (at_columns a)" "p = c_property (at_columns a ! j)"
        using indexOf_Some_nth [OF i] indexOf_Some_nth [OF j] by auto
      have "at_observers a object p = Some (CellObserver i j)" unfolding obs expected_observers_def i using False j by simp
      then show ?thesis
        using ne cell_prop [OF assms(1) ij(1,3,2,4), of v] by (auto simp: set_prop_def run_observer_def same_model_def)
    qed
  qed
qed

lemma replace_ok:
  assumes "array_ok a" and "op_ok (Replace st r new) a"
  shows "\<exists>a'. replace_content st r new a = Inr (a', None) \<and> array_ok a'
    \<and> same_model (a\<lparr>at_content := replace_at st r new (at_content a)\<rparr>) a'"
proof -
  let ?gone = "take r (drop st (at_content a))"
  let ?new = "replace_at st r new (at_content a)"
  let ?a = "(contentArrayWillChange st r a)\<lparr>at_content := ?new\<rparr>"
  have a: "?a = a\<lparr>at_observers := (\<lambda>ob. if ob \<in> set ?gone then Map.empty else at_observers a ob), at_content := ?new\<rparr>"
    by (simp add: contentArrayWillChange_def remove_observers_effect)
  have "set (at_content a) \<subseteq> set ?gone \<union> set ?new"
  proof -
    have split: "set ys = set (take n ys) \<union> set (drop n ys)" for n and ys :: "nat list"
      by (metis append_take_drop_id set_append)
    show ?thesis
      using split [of "at_content a" st] split [of "drop st (at_content a)" r] by (auto simp: replace_at_def add.commute)
  qed
  then have "leftovers_ok ?a"
    using assms(1) expected_leftovers [of a] unfolding a by (auto simp: leftovers_ok_def array_ok_def split: if_splits)
  moreover have "config_ok ?a" "content_ok ?a"
    using assms unfolding a by (simp_all add: array_ok_def config_ok_def content_ok_def op_ok_def)
  ultimately obtain a' where "array_headersDidChange ?a = Inr (a', None)" "array_ok a'" "same_model ?a a'"
    using refresh_ok by blast
  then show ?thesis unfolding a by (auto simp: replace_content_def Let_def contentArrayWillChange_def remove_observers_effect same_model_def)
qed

lemma set_content_ok:
  assumes "array_ok a" and "op_ok (SetContent new) a"
  shows "\<exists>a'. set_content new a = Inr (a', None) \<and> array_ok a' \<and> same_model (a\<lparr>at_content := new\<rparr>) a'"
proof -
  let ?a = "(fold removePropertyObservers (at_content a) a)\<lparr>at_content := new\<rparr>"
  have a: "?a = a\<lparr>at_observers := (\<lambda>ob. if ob \<in> set (at_content a) then Map.empty else at_observers a ob), at_content := new\<rparr>"
    by (simp add: remove_observers_effect)
  have "leftovers_ok ?a"
    using assms(1) expected_leftovers [of a] unfolding a by (auto simp: leftovers_ok_def array_ok_def split: if_splits)
  moreover have "config_ok ?a" "content_ok ?a"
    using assms unfolding a by (simp_all add: array_ok_def config_ok_def content_ok_def op_ok_def)
  ultimately obtain a' where "array_headersDidChange ?a = Inr (a', None)" "array_ok a'" "same_model ?a a'"
    using refresh_ok by blast
  then show ?thesis by (auto simp: set_content_def same_model_def remove_observers_effect)
qed

section \<open>Sorting\<close>

lemma mset_insert_by: "mset (insert_by cmp x xs) = mset xs + {#x#}"
  by (induction xs) auto

lemma mset_js_sort: "mset (js_sort cmp xs) = mset xs"
  by (induction xs) (simp_all add: js_sort_def mset_insert_by)

text \<open>\<open>Ember.compare\<close> orders values: the sign turns around with the arguments, and the order is transitive.\<close>

definition consistent :: "('a \<Rightarrow> 'a \<Rightarrow> int) \<Rightarrow> bool" where
  "consistent cmp \<longleftrightarrow> (\<forall>u v. cmp u v \<le> 0 \<longleftrightarrow> 0 \<le> cmp v u) \<and> (\<forall>u v w. cmp u v \<le> 0 \<longrightarrow> cmp v w \<le> 0 \<longrightarrow> cmp u w \<le> 0)"

lemma consistent_key:
  assumes "consistent cmp"
  shows "consistent (\<lambda>x y. (if desc then -1 else 1) * cmp (f x) (f y))"
  using assms unfolding consistent_def by (cases desc) (simp, metis, simp, metis)

lemma insert_by_sorted:
  assumes "consistent cmp" and "sorted_wrt (\<lambda>x y. cmp x y \<le> 0) xs"
  shows "sorted_wrt (\<lambda>x y. cmp x y \<le> 0) (insert_by cmp x xs)"
  using assms(2)
proof (induction xs)
  case (Cons y ys)
  have set: "set (insert_by cmp x ys) = insert x (set ys)"
    using mset_insert_by [of cmp x ys] by (metis add_mset_add_single set_mset_add_mset_insert set_mset_mset)
  show ?case
  proof (cases "cmp x y \<le> 0")
    case True
    then have "cmp x z \<le> 0" if "z \<in> set ys" for z
      using assms(1) Cons.prems that unfolding consistent_def by (metis sorted_wrt.simps(2))
    then show ?thesis using True Cons.prems by simp
  next
    case False
    then have "cmp y x \<le> 0" using assms(1) unfolding consistent_def by (metis linorder_le_cases)
    then show ?thesis using False Cons set by simp
  qed
qed simp

lemma js_sort_sorted: "consistent cmp \<Longrightarrow> sorted_wrt (\<lambda>x y. cmp x y \<le> 0) (js_sort cmp xs)"
  by (induction xs) (simp_all add: js_sort_def insert_by_sorted)

lemma sort_ok:
  assumes "array_ok a"
  shows "\<exists>a'. sortContent compare p desc a = Inr (a', None) \<and> array_ok a' \<and> same_model
    (a\<lparr>at_content := js_sort (\<lambda>o1 o2. (if desc then -1 else 1) * compare (at_get a o1 p) (at_get a o2 p)) (at_content a)\<rparr>) a'"
proof -
  let ?new = "js_sort (\<lambda>o1 o2. (if desc then -1 else 1) * compare (at_get a o1 p) (at_get a o2 p)) (at_content a)"
  have m: "mset ?new = mset (at_content a)" by (rule mset_js_sort)
  have "op_ok (SetContent ?new) a"
    using assms mset_eq_imp_distinct_iff [OF m] mset_eq_setD [OF m] by (simp add: op_ok_def array_ok_def content_ok_def)
  then show ?thesis using set_content_ok [OF assms] by (simp add: sortContent_def Let_def)
qed

lemma step_refines:
  assumes "array_ok a" and "\<And>v. passed v = v \<or> passed v = JUndefined" and "op_ok x a"
  shows "\<exists>a'. array_step passed compare x a = Inr (a', None) \<and> array_ok a'
    \<and> abs_array a' = model_step compare x (abs_array a)"
proof (cases x)
  case (SetProp object p v)
  then show ?thesis using set_prop_ok [of a passed object p v] assms
    by (auto simp: array_step_def model_step_def abs_array_def same_model_def)
next
  case (Replace st r new)
  then show ?thesis using replace_ok [of a st r new] assms
    by (auto simp: array_step_def model_step_def abs_array_def same_model_def)
next
  case (SetContent new)
  then show ?thesis using set_content_ok [of a new] assms
    by (auto simp: array_step_def model_step_def abs_array_def same_model_def)
next
  case (Sort p desc)
  then show ?thesis using sort_ok [of a compare p desc] assms(1)
    by (auto simp: array_step_def model_step_def abs_array_def same_model_def)
qed

lemma run_refines:
  assumes "\<And>v. passed v = v \<or> passed v = JUndefined"
  shows "array_ok a \<Longrightarrow> ops_ok passed compare xs a \<Longrightarrow>
    \<exists>a'. array_run passed compare xs a = Inr (a', None) \<and> array_ok a' \<and> abs_array a' = fold (model_step compare) xs (abs_array a)"
proof (induction xs arbitrary: a)
  case (Cons x xs)
  obtain a1 where a1: "array_step passed compare x a = Inr (a1, None)" "array_ok a1"
      "abs_array a1 = model_step compare x (abs_array a)"
    using step_refines [OF Cons.prems(1) assms] Cons.prems(2) by fastforce
  then show ?case using Cons.IH [of a1] Cons.prems(2) by simp
qed simp


lemma sort_orders:
  assumes "array_ok a" and "consistent compare"
  shows "\<exists>a'. sortContent compare p desc a = Inr (a', None) \<and> shows_array a' \<and> mset (at_content a') = mset (at_content a)
    \<and> sorted_wrt (\<lambda>o1 o2. (if desc then -1 else 1) * compare (at_get a' o1 p) (at_get a' o2 p) \<le> 0) (at_content a')"
proof -
  obtain a' where a': "sortContent compare p desc a = Inr (a', None)" "array_ok a'" "same_model
    (a\<lparr>at_content := js_sort (\<lambda>o1 o2. (if desc then -1 else 1) * compare (at_get a o1 p) (at_get a o2 p)) (at_content a)\<rparr>) a'"
    using sort_ok [OF assms(1)] by blast
  have "sorted_wrt (\<lambda>o1 o2. (if desc then -1 else 1) * compare (at_get a' o1 p) (at_get a' o2 p) \<le> 0) (at_content a')"
    using a'(3) js_sort_sorted [OF consistent_key [OF assms(2), of desc "\<lambda>ob. at_get a ob p"], of "at_content a"]
    by (simp add: same_model_def)
  then show ?thesis using a' by (auto simp: array_ok_def same_model_def mset_js_sort)
qed

lemma wrap_flat_nth: "i < length as \<Longrightarrow> wrap_from n (flat as) ! i = Header (as ! i) (Some (n + i)) None"
proof (induction as arbitrary: i n)
  case (Cons b as)
  then show ?case by (cases i) (simp_all add: flat_def)
qed simp

text \<open>
  The sort menu sorts by the clicked column.  Clicking a column header of the table opens a menu
  whose entries put the rows in the order of the property of that column, ascending or
  descending; the objects stay the same and the table shows them in the new order.
\<close>

theorem sort_menu_sorts_clicked_column:
  assumes "array_ok a" and "consistent compare" and "j < length (at_columns a)"
  shows "\<exists>asc desc. columnHeaderClicked (columnHeaders (array_header_of a) ! j) = Some [asc, desc]
    \<and> (\<forall>opt \<in> {asc, desc}. \<exists>a'. choose_sort compare (snd opt) a = Inr (a', None) \<and> shows_array a'
        \<and> mset (at_content a') = mset (at_content a)
        \<and> sorted_wrt (\<lambda>o1 o2. (if opt = asc then 1 else -1) *
            compare (at_get a' o1 (c_property (at_columns a ! j))) (at_get a' o2 (c_property (at_columns a ! j))) \<le> 0) (at_content a'))"
proof -
  let ?h = "columnHeaders (array_header_of a) ! j" and ?p = "c_property (at_columns a ! j)"
  let ?asc = "(''Sort ascending...'', ?h, ''asc'')" and ?desc = "(''Sort descending...'', ?h, ''desc'')"
  have h: "?h = Header (column_header (at_columns a ! j)) (Some j) None"
    using assms(3) wrap_flat_nth [of j "map column_header (at_columns a)" 0]
    by (simp add: array_header_of_def dataTable_headers_def wrapHeaders_def)
  have "hattrs ?h ''property'' = Some (JStr ?p)"
    unfolding h by (simp add: column_header_def Let_def split: option.split)
  then have choose: "choose_sort compare (?h, order) a = sortContent compare ?p (order = ''desc'') a" for order
    by (simp add: choose_sort_def)
  have "columnHeaderClicked ?h = Some [?asc, ?desc]" by (simp add: columnHeaderClicked_def sortMenuOptions_def h)
  moreover have "\<exists>a'. choose_sort compare (snd ?asc) a = Inr (a', None) \<and> shows_array a' \<and> mset (at_content a') = mset (at_content a)
      \<and> sorted_wrt (\<lambda>o1 o2. (if ?asc = ?asc then 1 else -1) * compare (at_get a' o1 ?p) (at_get a' o2 ?p) \<le> 0) (at_content a')"
    using sort_orders [OF assms(1,2), of ?p False] by (simp add: choose)
  moreover have "\<exists>a'. choose_sort compare (snd ?desc) a = Inr (a', None) \<and> shows_array a' \<and> mset (at_content a') = mset (at_content a)
      \<and> sorted_wrt (\<lambda>o1 o2. (if ?desc = ?asc then 1 else -1) * compare (at_get a' o1 ?p) (at_get a' o2 ?p) \<le> 0) (at_content a')"
    using sort_orders [OF assms(1,2), of ?p True] by (simp add: choose)
  ultimately show ?thesis by blast
qed

section \<open>Examples\<close>

text \<open>Two people of ages 41 and 30; numbers are compared as such, everything else counts as zero.\<close>

definition age_column :: table_column where
  "age_column = \<lparr>c_label = ''Age'', c_property = ''age'', c_renderWidth = Some 60\<rparr>"

definition people :: array_table where
  "people = \<lparr>at_content = [1, 2], at_columns = [age_column], at_headerProperty = ''name'', at_rowHeadersClickable = False,
     at_get = (\<lambda>ob p. if p = ''name'' then (if ob = 1 then JStr ''Ann'' else JStr ''Bo'') else if ob = 1 then JNum 41 else JNum 30),
     at_observers = (\<lambda>_. Map.empty), at_table = \<lparr>t_headers = None, dirtyCells = [], t_data = [], valuesOn = OnColumn\<rparr>\<rparr>"

definition rank_compare :: "jsval \<Rightarrow> jsval \<Rightarrow> int" where
  "rank_compare u v = (let rank = (\<lambda>x. case x of JNum n \<Rightarrow> n | _ \<Rightarrow> 0) in rank u - rank v)"

definition people_loaded :: array_table where
  "people_loaded = fst (projr (array_headersDidChange people))"

lemma people_ok: "array_headersDidChange people = Inr (people_loaded, None)" "array_ok people_loaded"
proof -
  have "config_ok people" "content_ok people" "leftovers_ok people"
    by (simp_all add: config_ok_def content_ok_def leftovers_ok_def people_def age_column_def)
  then obtain a0 where a0: "array_headersDidChange people = Inr (a0, None)" "array_ok a0" using refresh_ok by blast
  then have "people_loaded = a0" by (simp add: people_loaded_def)
  then show "array_headersDidChange people = Inr (people_loaded, None)" "array_ok people_loaded" using a0 by simp_all
qed


lemma rank_consistent: "consistent rank_compare"
  by (auto simp: consistent_def rank_compare_def Let_def)

theorem sort_menu_sorts_clicked_column_witness:
  "\<exists>asc desc. columnHeaderClicked (columnHeaders (array_header_of people_loaded) ! 0) = Some [asc, desc]
    \<and> (\<exists>a'. choose_sort rank_compare (snd desc) people_loaded = Inr (a', None) \<and> shows_array a')"
proof -
  have "0 < length (at_columns people_loaded)" using people_ok(2) by (simp add: array_ok_def config_ok_def)
  then show ?thesis using sort_menu_sorts_clicked_column [OF people_ok(2) rank_consistent] by blast
qed

text \<open>
  The observers are stored by property: when the header property is also shown in a column, the
  observer of the column replaces that of the header, and a change of the value leaves the header
  as it was.
\<close>

definition label_of :: "array_table \<Rightarrow> nat \<Rightarrow> jsval option" where
  "label_of a i = (case t_headers (at_table a) of None \<Rightarrow> None | Some h \<Rightarrow> hattrs (rowHeaders h ! i) ''label'')"

definition shown_value :: "array_table \<Rightarrow> nat \<Rightarrow> nat \<Rightarrow> jsval" where
  "shown_value a i j = (case t_data (at_table a) ! i ! j of CellEntry c \<Rightarrow> formattedValue c | _ \<Rightarrow> JUndefined)"

theorem shown_header_property_goes_stale:
  "case rbind (array_headersDidChange (people\<lparr>at_columns := [age_column\<lparr>c_property := ''name''\<rparr>]\<rparr>))
       (\<lambda>(a, e). set_prop (\<lambda>v. v) 1 ''name'' (JStr ''Eve'') a) of
     Inl _ \<Rightarrow> False
   | Inr (a, e) \<Rightarrow> at_get a 1 ''name'' = JStr ''Eve'' \<and> shown_value a 0 0 = JStr ''Eve'' \<and> label_of a 0 = Some (JStr ''Ann'')"
  by code_simp

text \<open>Two columns with the same property: only the last of them follows a change.\<close>

theorem repeated_column_goes_stale:
  "case rbind (array_headersDidChange (people\<lparr>at_columns := [age_column, age_column]\<rparr>))
       (\<lambda>(a, e). set_prop (\<lambda>v. v) 1 ''age'' (JNum 42) a) of
     Inl _ \<Rightarrow> False
   | Inr (a, e) \<Rightarrow> shown_value a 0 0 = JNum 41 \<and> shown_value a 0 1 = JNum 42"
  by code_simp

end
