(* ===== verification/Autocomplete.thy ===== *)
theory Autocomplete
  imports Statechart
begin

text \<open>
  Text fields that offer completions (\<open>views/autocomplete_text_field_view.js\<close>): while a request is
  running, newer queries are queued, and only the last one is kept; results are shown in a menu
  unless a newer query is waiting.
\<close>

section \<open>State\<close>

text \<open>
  \<open>ac_menu\<close> are the items of the open menu, \<open>ac_requests\<close> the queries handed to the delegate so
  far.  The delegate answers whether it started a request: \<open>ac_fetch\<close>, or \<open>None\<close> without a delegate.
  Results belong to the last query of \<open>ac_requests\<close>.
\<close>

record 'i autocomplete =
  ac_lastQueuedQuery :: "string option"
  ac_menu :: "'i list option"
  ac_fetch :: "(string \<Rightarrow> bool) option"
  ac_requests :: "string list"

datatype ac_state = AcIdle | AcRequesting

type_synonym 'i ac_owner = "(ac_state, 'i autocomplete) owner"

definition closeAutocompleteMenu :: "'i autocomplete \<Rightarrow> 'i autocomplete" where
  "closeAutocompleteMenu d = d\<lparr>ac_menu := None\<rparr>"

text \<open>A menu that is open already gets the new items.\<close>

definition showAutocompleteMenu :: "'i list \<Rightarrow> 'i autocomplete \<Rightarrow> 'i autocomplete" where
  "showAutocompleteMenu options d = d\<lparr>ac_menu := Some options\<rparr>"

section \<open>The statechart\<close>

definition requesting_enterState :: "(ac_state, 'i autocomplete) hook" where
  "requesting_enterState c = Inr (upd closeAutocompleteMenu c)"

text \<open>
  Going from \<open>idle\<close> to \<open>requesting\<close> runs no hook of \<open>idle\<close>, so it is defined first: \<open>enterState\<close> of
  \<open>idle\<close> uses it.
\<close>

fun requesting_hooks :: "ac_state \<Rightarrow> (ac_state, 'i autocomplete, string) owner_prop" where
  "requesting_hooks AcIdle = AState \<lparr>enterState = None, exitState = None, methods = []\<rparr>"
| "requesting_hooks AcRequesting = AState \<lparr>enterState = Some requesting_enterState, exitState = None, methods = []\<rparr>"

definition idle_doAutocompleteRequest :: "string \<Rightarrow> 'i ac_owner \<Rightarrow> 'i ac_owner result" where
  "idle_doAutocompleteRequest query c = (case ac_fetch (ownerData c) of
       None \<Rightarrow> Inr c
     | Some fetch \<Rightarrow>
        (if query \<noteq> '''' then
           (let c1 = upd (\<lambda>d. d\<lparr>ac_requests := ac_requests d @ [query]\<rparr>) c
            in if fetch query then gotoFlameState requesting_hooks (Some AcRequesting) c1
               else Inr (upd closeAutocompleteMenu c1))
         else Inr (upd closeAutocompleteMenu c)))"

definition idle_enterState :: "(ac_state, 'i autocomplete) hook" where
  "idle_enterState c = (case ac_lastQueuedQuery (ownerData c) of
       None \<Rightarrow> Inr c
     | Some lastQuery \<Rightarrow> idle_doAutocompleteRequest lastQuery (upd (\<lambda>d. d\<lparr>ac_lastQueuedQuery := None\<rparr>) c))"

fun ac_hooks :: "ac_state \<Rightarrow> (ac_state, 'i autocomplete, string) owner_prop" where
  "ac_hooks AcIdle = AState \<lparr>enterState = Some idle_enterState, exitState = None, methods = []\<rparr>"
| "ac_hooks AcRequesting = AState \<lparr>enterState = Some requesting_enterState, exitState = None, methods = []\<rparr>"

definition requesting_doAutocompleteRequest :: "string \<Rightarrow> 'i ac_owner \<Rightarrow> 'i ac_owner result" where
  "requesting_doAutocompleteRequest query c =
     Inr (if query \<noteq> '''' then upd (\<lambda>d. d\<lparr>ac_lastQueuedQuery := Some query\<rparr>) c else c)"

definition didFinishAutocompleteRequest :: "'i ac_owner \<Rightarrow> 'i ac_owner result" where
  "didFinishAutocompleteRequest = gotoFlameState ac_hooks (Some AcIdle)"

definition didFetchAutocompleteResults :: "'i list \<Rightarrow> 'i ac_owner \<Rightarrow> 'i ac_owner result" where
  "didFetchAutocompleteResults options c =
     Inr (if options = [] then upd closeAutocompleteMenu c
          else if ac_lastQueuedQuery (ownerData c) = None then upd (showAutocompleteMenu options) c
          else c)"

text \<open>
  \<open>Typed w q\<close>: the debounced key event has come, with key code \<open>w\<close> and \<open>q\<close> in the field; control
  keys other than backspace are ignored.  A method that the current state lacks does nothing.
\<close>

datatype 'i ac_event = Typed nat string | Finished | Fetched "'i list"

definition autocompleteAction :: "nat \<Rightarrow> bool" where
  "autocompleteAction which \<longleftrightarrow> which = 8 \<or> which > 31"

definition ac_handle :: "'i ac_event \<Rightarrow> 'i ac_owner \<Rightarrow> 'i ac_owner result" where
  "ac_handle e c = (case currentFlameState c of
       None \<Rightarrow> Inl (AssertionFailed ''Cannot invoke state method without having a current state!'')
     | Some AcIdle \<Rightarrow> (case e of
           Typed w q \<Rightarrow> (if autocompleteAction w then idle_doAutocompleteRequest q c else Inr c)
         | _ \<Rightarrow> Inr c)
     | Some AcRequesting \<Rightarrow> (case e of
           Typed w q \<Rightarrow> (if autocompleteAction w then requesting_doAutocompleteRequest q c else Inr c)
         | Finished \<Rightarrow> didFinishAutocompleteRequest c
         | Fetched options \<Rightarrow> didFetchAutocompleteResults options c))"

fun ac_run :: "'i ac_event list \<Rightarrow> 'i ac_owner \<Rightarrow> 'i ac_owner result" where
  "ac_run [] c = Inr c"
| "ac_run (e # es) c = rbind (ac_handle e c) (ac_run es)"

definition ac_start :: "(string \<Rightarrow> bool) \<Rightarrow> 'i ac_owner" where
  "ac_start fetch = \<lparr>currentFlameState = Some AcIdle,
     ownerData = \<lparr>ac_lastQueuedQuery = None, ac_menu = None, ac_fetch = Some fetch, ac_requests = []\<rparr>\<rparr>"

text \<open>\<open>_selectAutocompleteItem\<close>: the title of the first item with the value; without one it throws.\<close>

definition selectAutocompleteItem :: "('i \<Rightarrow> 'v) \<Rightarrow> ('i \<Rightarrow> string) \<Rightarrow> 'v \<Rightarrow> 'i autocomplete \<Rightarrow> string result" where
  "selectAutocompleteItem value_of title_of v d = (case ac_menu d of
       None \<Rightarrow> Inl TypeError
     | Some items \<Rightarrow> (case List.find (\<lambda>i. value_of i = v) items of None \<Rightarrow> Inl TypeError | Some i \<Rightarrow> Inr (title_of i)))"

section \<open>Every query gets its turn\<close>

lemma goto_is_goto: "currentFlameState c = Some AcIdle \<Longrightarrow>
    gotoFlameState requesting_hooks (Some AcRequesting) c = gotoFlameState ac_hooks (Some AcRequesting) c"
  by (simp add: gotoFlameState_def exit_current_def run_hook_def)

text \<open>The queries that were typed, and the last one of them.\<close>

definition queries :: "'i ac_event list \<Rightarrow> string list" where
  "queries es = concat (map (\<lambda>e. case e of Typed w q \<Rightarrow> (if autocompleteAction w \<and> q \<noteq> '''' then [q] else []) | _ \<Rightarrow> []) es)"

text \<open>
  Between events: without a queued query the last request was the last query typed; with one, it
  is the last query typed, a request is running, and no query was dropped in favour of an older one.
\<close>

definition ac_ok :: "(string \<Rightarrow> bool) \<Rightarrow> string list \<Rightarrow> 'i ac_owner \<Rightarrow> bool" where
  "ac_ok fetch typed c \<longleftrightarrow> ac_fetch (ownerData c) = Some fetch
     \<and> (\<exists>s. currentFlameState c = Some s
        \<and> (s = AcIdle \<longrightarrow> ac_lastQueuedQuery (ownerData c) = None)
        \<and> (s = AcRequesting \<longrightarrow> ac_requests (ownerData c) \<noteq> [] \<and> fetch (last (ac_requests (ownerData c)))))
     \<and> (case ac_lastQueuedQuery (ownerData c) of
          None \<Rightarrow> typed = [] \<and> ac_requests (ownerData c) = [] \<or> typed \<noteq> [] \<and> ac_requests (ownerData c) \<noteq> []
             \<and> last (ac_requests (ownerData c)) = last typed
        | Some q \<Rightarrow> q \<noteq> '''' \<and> typed \<noteq> [] \<and> q = last typed)
     \<and> (\<forall>q \<in> set (ac_requests (ownerData c)). q \<in> set typed)"

lemmas ac_goto = gotoFlameState_def exit_current_def run_hook_def requesting_enterState_def closeAutocompleteMenu_def

lemma idle_request_ok:
  assumes "ac_ok fetch typed c" and "currentFlameState c = Some AcIdle" and "q \<noteq> ''''"
  shows "\<exists>c'. idle_doAutocompleteRequest q c = Inr c' \<and> ac_ok fetch (typed @ [q]) c'
    \<and> ac_lastQueuedQuery (ownerData c') = None \<and> last (ac_requests (ownerData c')) = q"
  using assms by (auto simp: idle_doAutocompleteRequest_def ac_ok_def ac_goto Let_def split: option.splits)

lemma idle_entry_ok:
  assumes "ac_ok fetch typed c" and "ac_lastQueuedQuery (ownerData c) = Some q" and "currentFlameState c = Some AcRequesting"
  shows "\<exists>c'. idle_enterState (c\<lparr>currentFlameState := Some AcIdle\<rparr>) = Inr c' \<and> ac_ok fetch typed c'
    \<and> ac_lastQueuedQuery (ownerData c') = None"
proof -
  have q: "q \<noteq> ''''" "typed \<noteq> []" "q = last typed" "ac_fetch (ownerData c) = Some fetch"
      "\<forall>p \<in> set (ac_requests (ownerData c)). p \<in> set typed" using assms by (auto simp: ac_ok_def)
  have "q \<in> set typed" using q(2,3) by simp
  then show ?thesis
    using q assms(2) by (auto simp: idle_enterState_def idle_doAutocompleteRequest_def ac_ok_def ac_goto Let_def)
qed

lemma finish_ok:
  assumes "ac_ok fetch typed c" and "currentFlameState c = Some AcRequesting"
  shows "\<exists>c'. didFinishAutocompleteRequest c = Inr c' \<and> ac_ok fetch typed c' \<and> ac_lastQueuedQuery (ownerData c') = None"
proof (cases "ac_lastQueuedQuery (ownerData c)")
  case None
  then show ?thesis
    using assms by (auto simp: didFinishAutocompleteRequest_def gotoFlameState_def exit_current_def run_hook_def
        idle_enterState_def ac_ok_def)
next
  case (Some q)
  then show ?thesis
    using idle_entry_ok [OF assms(1) Some assms(2)] assms(2)
    by (simp add: didFinishAutocompleteRequest_def gotoFlameState_def exit_current_def run_hook_def)
qed

lemma ac_handle_ok:
  assumes "ac_ok fetch typed c"
  shows "\<exists>c'. ac_handle e c = Inr c' \<and> ac_ok fetch (typed @ queries [e]) c'"
proof -
  have close: "ac_ok fetch typed (upd closeAutocompleteMenu c)" "ac_ok fetch typed (upd (showAutocompleteMenu opts) c)" for opts
    using assms by (auto simp: ac_ok_def closeAutocompleteMenu_def showAutocompleteMenu_def split: option.splits)
  obtain s where s: "currentFlameState c = Some s" using assms by (auto simp: ac_ok_def)
  have fetch: "ac_fetch (ownerData c) = Some fetch" using assms by (simp add: ac_ok_def)
  show ?thesis
  proof (cases s)
    case AcIdle
    then have idle: "currentFlameState c = Some AcIdle" using s by simp
    show ?thesis
    proof (cases "\<exists>w q. e = Typed w q \<and> autocompleteAction w \<and> q \<noteq> ''''")
      case True
      then obtain w q where e: "e = Typed w q" "autocompleteAction w" "q \<noteq> ''''" by (elim exE conjE) (rule that)
      then have "ac_handle e c = idle_doAutocompleteRequest q c" "queries [e] = [q]"
        using idle by (simp_all add: ac_handle_def queries_def)
      then show ?thesis using idle_request_ok [OF assms idle e(3)] by auto
    next
      case False
      then show ?thesis using assms idle close(1) fetch
        by (cases e) (auto simp: ac_handle_def queries_def idle_doAutocompleteRequest_def)
    qed
  next
    case AcRequesting
    then have req: "currentFlameState c = Some AcRequesting" using s by simp
    show ?thesis
    proof (cases e)
      case (Typed w q)
      show ?thesis
      proof (cases "autocompleteAction w \<and> q \<noteq> ''''")
        case True
        have "ac_ok fetch (typed @ [q]) (upd (\<lambda>d. d\<lparr>ac_lastQueuedQuery := Some q\<rparr>) c)"
          using assms req True by (auto simp: ac_ok_def)
        then show ?thesis using Typed True req
          by (simp add: ac_handle_def queries_def requesting_doAutocompleteRequest_def)
      next
        case False
        then show ?thesis using Typed assms req
          by (auto simp: ac_handle_def queries_def requesting_doAutocompleteRequest_def)
      qed
    next
      case Finished
      then show ?thesis using finish_ok [OF assms req] req by (auto simp: ac_handle_def queries_def)
    next
      case (Fetched options)
      then show ?thesis using assms req close by (simp add: ac_handle_def queries_def didFetchAutocompleteResults_def)
    qed
  qed
qed

lemma queries_append: "queries (es @ fs) = queries es @ queries fs"
  by (simp add: queries_def)

lemma ac_run_append: "ac_run (es @ fs) c = rbind (ac_run es c) (ac_run fs)"
proof (induction es arbitrary: c)
  case (Cons e es)
  have "ac_run (es @ fs) = (\<lambda>x. rbind (ac_run es x) (ac_run fs))" using Cons.IH by (rule ext)
  then show ?case by (simp add: rbind_assoc)
qed simp

lemma ac_run_ok: "ac_ok fetch typed c \<Longrightarrow> \<exists>c'. ac_run es c = Inr c' \<and> ac_ok fetch (typed @ queries es) c'"
proof (induction es arbitrary: typed c)
  case Nil
  then show ?case by (simp add: queries_def)
next
  case (Cons e es)
  obtain c1 where "ac_handle e c = Inr c1" "ac_ok fetch (typed @ queries [e]) c1" using ac_handle_ok [OF Cons.prems] by blast
  then show ?case using Cons.IH [of "typed @ queries [e]" c1] queries_append [of "[e]" es] by auto
qed

lemma ac_start_ok: "ac_ok fetch [] (ac_start fetch)"
  by (simp add: ac_ok_def ac_start_def)


text \<open>
  Only the results of the last query are shown.  When results arrive and become the items of the
  menu, the running request is for the query that was typed last.
\<close>

theorem shown_results_are_latest:
  assumes "ac_run es (ac_start fetch) = Inr c" and "ac_handle (Fetched options) c = Inr c'"
    and "ac_menu (ownerData c') \<noteq> ac_menu (ownerData c)" and "options \<noteq> []"
  shows "ac_menu (ownerData c') = Some options \<and> queries es \<noteq> [] \<and> last (ac_requests (ownerData c)) = last (queries es)"
proof -
  have ok: "ac_ok fetch (queries es) c" using ac_run_ok [OF ac_start_ok [of fetch], of es] assms(1) by auto
  obtain s where s: "currentFlameState c = Some s" using ok by (auto simp: ac_ok_def)
  have st: "s = AcRequesting" "ac_lastQueuedQuery (ownerData c) = None" "ac_menu (ownerData c') = Some options"
    using assms(2-4) s by (cases s; auto simp: ac_handle_def didFetchAutocompleteResults_def showAutocompleteMenu_def split: if_splits)+
  then show ?thesis using ok s by (auto simp: ac_ok_def)
qed

theorem shown_results_are_latest_witness:
  "\<exists>c c'. ac_run [Typed 65 ''a''] (ac_start (\<lambda>_. True)) = Inr c \<and> ac_handle (Fetched [1 :: nat]) c = Inr c'
    \<and> ac_menu (ownerData c') = Some [1] \<and> last (ac_requests (ownerData c)) = ''a''"
proof -
  define c :: "nat ac_owner" where "c = projr (ac_run [Typed 65 ''a''] (ac_start (\<lambda>_. True)))"
  define c' where "c' = projr (ac_handle (Fetched [1 :: nat]) c)"
  have ev: "ac_run [Typed 65 ''a''] (ac_start (\<lambda>_. True)) = Inr c" "ac_handle (Fetched [1 :: nat]) c = Inr c'"
      "ac_menu (ownerData c') \<noteq> ac_menu (ownerData c)"
    by (simp_all add: c'_def c_def ac_handle_def autocompleteAction_def ac_start_def idle_doAutocompleteRequest_def
        ac_goto Let_def didFetchAutocompleteResults_def showAutocompleteMenu_def)
  have "queries [Typed 65 ''a'' :: nat ac_event] = [''a'']" by (simp add: queries_def autocompleteAction_def)
  then show ?thesis using shown_results_are_latest [OF ev] ev(1,2) by auto
qed

text \<open>
  A field that is cleared while a request is running still gets a menu: an empty query is neither
  queued nor does it clear the queue.
\<close>

theorem cleared_field_gets_menu:
  "\<exists>c. ac_run [Typed 65 ''a'', Typed 66 ''ab'', Typed 8 '''', Finished, Fetched (i # is)] (ac_start (\<lambda>_. True)) = Inr c
    \<and> ac_requests (ownerData c) = [''a'', ''ab''] \<and> ac_menu (ownerData c) = Some (i # is)"
  by (simp add: ac_handle_def autocompleteAction_def ac_start_def idle_doAutocompleteRequest_def requesting_doAutocompleteRequest_def
      didFinishAutocompleteRequest_def idle_enterState_def ac_goto Let_def didFetchAutocompleteResults_def showAutocompleteMenu_def)

end
