(* ===== verification/View_Lookup.thy ===== *)
theory View_Lookup
  imports Flame_Prelude
begin

text \<open>
  How a view finds things by name: properties of the nearest ancestor (\<open>utils/computed_nearest.js\<close>),
  bindings whose path is prefixed by \<open>^\<close> or \<open>$\<close> (\<open>utils/prefixed_binding.js\<close>), and the target of an
  action (\<open>mixins/action_support.js\<close>).
\<close>

section \<open>Objects and paths\<close>

text \<open>
  Objects are numbered; \<open>parent\<close> is the property \<open>parentView\<close> of a view (\<open>None\<close> is \<open>null\<close>), \<open>props\<close>
  its other properties: \<open>None\<close> when the name is not in the object.  \<open>PFunction\<close> is a function object.
\<close>

datatype pval = PUndefined | PNull | PString string | PFunction nat | PObject nat

record world =
  parent :: "nat \<Rightarrow> nat option"
  props :: "nat \<Rightarrow> string \<Rightarrow> pval option"

definition parent_value :: "world \<Rightarrow> nat \<Rightarrow> pval" where
  "parent_value w i = (case parent w i of None \<Rightarrow> PNull | Some p \<Rightarrow> PObject p)"

definition has_prop :: "world \<Rightarrow> nat \<Rightarrow> string \<Rightarrow> bool" where
  "has_prop w i k \<longleftrightarrow> k = ''parentView'' \<or> props w i k \<noteq> None"

definition get_prop :: "world \<Rightarrow> nat \<Rightarrow> string \<Rightarrow> pval" where
  "get_prop w i k = (if k = ''parentView'' then parent_value w i
     else case props w i k of None \<Rightarrow> PUndefined | Some v \<Rightarrow> v)"

text \<open>
  A path is cut at its dots; \<open>Ember.get\<close> follows it as long as it finds objects, and setting a path
  follows it up to its last name.
\<close>

fun split_dots :: "string \<Rightarrow> string list" where
  "split_dots [] = [[]]"
| "split_dots (c # cs) = (if c = CHR ''.'' then [] # split_dots cs
     else (case split_dots cs of [] \<Rightarrow> [[c]] | x # xs \<Rightarrow> (c # x) # xs))"

fun follow :: "world \<Rightarrow> pval \<Rightarrow> string list \<Rightarrow> pval" where
  "follow w v [] = v"
| "follow w (PObject i) (k # ks) = follow w (get_prop w i k) ks"
| "follow w PNull (k # ks) = PNull"
| "follow w v (k # ks) = PUndefined"

definition get_path :: "world \<Rightarrow> pval \<Rightarrow> string \<Rightarrow> pval" where
  "get_path w v path = (if path = [] then v else follow w v (split_dots path))"

definition set_prop_of :: "world \<Rightarrow> nat \<Rightarrow> string \<Rightarrow> pval \<Rightarrow> world" where
  "set_prop_of w i k v = w\<lparr>props := (props w)(i := (props w i)(k \<mapsto> v))\<rparr>"

definition set_path :: "world \<Rightarrow> nat \<Rightarrow> string \<Rightarrow> pval \<Rightarrow> world result" where
  "set_path w i path v = (case follow w (PObject i) (butlast (split_dots path)) of
       PObject j \<Rightarrow> Inr (set_prop_of w j (last (split_dots path)) v)
     | _ \<Rightarrow> Inl (ThrownError ''Property set failed''))"

section \<open>The nearest ancestor with a property\<close>

text \<open>
  \<open>key.replace(/./g, '_')\<close> with the dot escaped, and the two regular expressions that take a path
  apart: the first run of characters that are not dots, when a dot follows it.
\<close>

definition propertyName :: "string \<Rightarrow> string" where
  "propertyName key = ''__'' @ map (\<lambda>c. if c = CHR ''.'' then CHR ''_'' else c) key"

definition path_split :: "string \<Rightarrow> (string \<times> string) option" where
  "path_split key = (let s = dropWhile (\<lambda>c. c = CHR ''.'') key;
       first = takeWhile (\<lambda>c. c \<noteq> CHR ''.'') s; rest = dropWhile (\<lambda>c. c \<noteq> CHR ''.'') s
     in if first \<noteq> [] \<and> rest \<noteq> [] then Some (first, rest) else None)"

text \<open>The loop up the parents; \<open>None\<close> when it never ends.\<close>

partial_function (option) find_up :: "world \<Rightarrow> string \<Rightarrow> nat option \<Rightarrow> string \<Rightarrow> (nat option \<times> string) option" where
  "find_up w p view path = (case view of
       None \<Rightarrow> Some (None, path)
     | Some i \<Rightarrow> if has_prop w i p then Some (Some i, path)
                 else find_up w p (parent w i) (path @ ''.parentView''))"

definition split_key :: "string \<Rightarrow> (string \<times> string) result" where
  "split_key key = (if CHR ''.'' \<in> set key then
       (case path_split key of None \<Rightarrow> Inl TypeError | Some m \<Rightarrow> Inr m)
     else Inr (key, []))"

definition createProperty :: "world \<Rightarrow> nat \<Rightarrow> string \<Rightarrow> string result option" where
  "createProperty w target key = (case split_key key of
       Inl e \<Rightarrow> Some (Inl e)
     | Inr (property, rest) \<Rightarrow>
        (case find_up w property (parent w target) ''parentView'' of
           None \<Rightarrow> None
         | Some (view, path) \<Rightarrow>
            Some (if view = None then Inl (AssertionFailed ''Could not find property in ancestor views'')
                  else if path = ''parentView''
                       then Inl (AssertionFailed ''Don't use Flame.computed.nearest to fetch a property from the parent view'')
                       else Inr (path @ ''.'' @ property @ rest))))"

text \<open>
  The computed property: on first use the alias is defined on the view under \<open>propertyName key\<close>.
  \<open>descs\<close> are the paths of the aliases defined so far.
\<close>

type_synonym descs = "nat \<Rightarrow> string \<rightharpoonup> string"

definition nearest_alias :: "world \<Rightarrow> descs \<Rightarrow> nat \<Rightarrow> string \<Rightarrow> (string \<times> descs) result option" where
  "nearest_alias w d target key = (case d target (propertyName key) of
       Some path \<Rightarrow> Some (Inr (path, d))
     | None \<Rightarrow> map_option (\<lambda>r. rbind r (\<lambda>path. Inr (path, d(target := (d target)(propertyName key \<mapsto> path)))))
                 (createProperty w target key))"

definition nearest_get :: "world \<Rightarrow> descs \<Rightarrow> nat \<Rightarrow> string \<Rightarrow> (pval \<times> descs) result option" where
  "nearest_get w d target key =
     map_option (\<lambda>r. rbind r (\<lambda>(path, d'). Inr (get_path w (PObject target) path, d'))) (nearest_alias w d target key)"

definition nearest_set :: "world \<Rightarrow> descs \<Rightarrow> nat \<Rightarrow> string \<Rightarrow> pval \<Rightarrow> (pval \<times> world \<times> descs) result option" where
  "nearest_set w d target key v =
     map_option (\<lambda>r. rbind r (\<lambda>(path, d'). rbind (set_path w target path v) (\<lambda>w'.
        Inr (get_path w' (PObject target) path, w', d')))) (nearest_alias w d target key)"

section \<open>Prefixed bindings\<close>

definition is_prefixed :: "string \<Rightarrow> bool" where
  "is_prefixed from = (case from of [] \<Rightarrow> False | c # _ \<Rightarrow> c = CHR ''^'' \<or> c = CHR ''$'')"

text \<open>The override of \<open>connect\<close>: a prefixed path is left alone.\<close>

definition connect :: "string \<Rightarrow> string option" where
  "connect from = (if is_prefixed from then None else Some from)"

text \<open>The sign, the property and the rest of a prefixed path.\<close>

definition match_prefixed :: "string \<Rightarrow> (bool \<times> string \<times> string) option" where
  "match_prefixed from = (case from of [] \<Rightarrow> None
     | c # cs \<Rightarrow> (let property = takeWhile (\<lambda>c. c \<noteq> CHR ''.'') cs
                  in if is_prefixed from \<and> property \<noteq> []
                     then Some (c = CHR ''$'', property, dropWhile (\<lambda>c. c \<noteq> CHR ''.'') cs) else None))"

partial_function (option) lookup_value :: "world \<Rightarrow> string \<Rightarrow> nat option \<Rightarrow> pval option" where
  "lookup_value w p cur = (case cur of
       None \<Rightarrow> Some PUndefined
     | Some i \<Rightarrow> if get_prop w i p \<noteq> PUndefined then Some (get_prop w i p) else lookup_value w p (parent w i))"

definition lookupValueOfProperty :: "world \<Rightarrow> nat \<Rightarrow> string \<Rightarrow> pval option" where
  "lookupValueOfProperty w view p = lookup_value w p (Some view)"

definition binds_prop :: "world \<Rightarrow> nat \<Rightarrow> string \<Rightarrow> bool" where
  "binds_prop w i p \<longleftrightarrow> get_prop w i p \<noteq> PUndefined \<or> get_prop w i (p @ ''Binding'') \<noteq> PUndefined"

partial_function (option) lookup_path :: "world \<Rightarrow> string \<Rightarrow> nat option \<Rightarrow> string list \<Rightarrow> string option option" where
  "lookup_path w p cur path = (case cur of
       None \<Rightarrow> Some None
     | Some i \<Rightarrow> if binds_prop w i p then Some (Some (join ''.'' (rev path)))
                 else lookup_path w p (parent w i) (path @ [''parentView'']))"

definition lookupPathToProperty :: "world \<Rightarrow> nat \<Rightarrow> string \<Rightarrow> string option option" where
  "lookupPathToProperty w view p = lookup_path w p (parent w view) [p, ''parentView'']"

text \<open>
  A property of a view whose name ends in \<open>Binding\<close>: a binding with its path, or something else.
  \<open>to_str\<close> is JavaScript's conversion to a string of a value that is not a string.
\<close>

datatype binding_prop = ABinding string | NotABinding

definition is_binding_key :: "string \<Rightarrow> bool" where
  "is_binding_key key \<longleftrightarrow> length key \<ge> 7 \<and> drop (length key - 7) key = ''Binding''"

definition prefix_of :: "(pval \<Rightarrow> string) \<Rightarrow> world \<Rightarrow> nat \<Rightarrow> bool \<Rightarrow> string \<Rightarrow> string result option" where
  "prefix_of to_str w view useValue property =
     (if useValue then
        map_option (\<lambda>v. case v of
            PUndefined \<Rightarrow> Inl (AssertionFailed ''Property was not found!'')
          | PNull \<Rightarrow> Inl (AssertionFailed ''Property was not found!'')
          | PString s \<Rightarrow> Inr s
          | _ \<Rightarrow> Inr (to_str v)) (lookupValueOfProperty w view property)
      else map_option (\<lambda>r. case r of
            None \<Rightarrow> Inl (AssertionFailed ''Property was not found!'')
          | Some s \<Rightarrow> Inr s) (lookupPathToProperty w view property))"

text \<open>\<open>bindPrefixed\<close>: whether the binding is prefixed, and the path it is bound to, if it is.\<close>

definition bindPrefixed :: "(pval \<Rightarrow> string) \<Rightarrow> world \<Rightarrow> nat \<Rightarrow> string \<Rightarrow> binding_prop \<Rightarrow>
    (bool \<times> string option) result option" where
  "bindPrefixed to_str w view key b =
     (if \<not> is_binding_key key then Some (Inr (False, None))
      else case b of
        NotABinding \<Rightarrow> Some (Inl (AssertionFailed ''Expected an Ember.Binding!''))
      | ABinding from \<Rightarrow> (case match_prefixed from of
            None \<Rightarrow> Some (Inr (False, None))
          | Some (useValue, property, suffix) \<Rightarrow>
              map_option (\<lambda>r. rbind r (\<lambda>prefix. Inr (True, connect (prefix @ suffix))))
                (prefix_of to_str w view useValue property)))"

text \<open>The loop over the properties of a view: what was found, and the bound paths by property.\<close>

fun bindPrefixedBindings :: "(pval \<Rightarrow> string) \<Rightarrow> world \<Rightarrow> nat \<Rightarrow> (string \<times> binding_prop) list \<Rightarrow>
    (bool \<times> (string \<times> string) list) result option" where
  "bindPrefixedBindings to_str w view [] = Some (Inr (False, []))"
| "bindPrefixedBindings to_str w view ((key, b) # bs) =
     (case bindPrefixed to_str w view key b of
        None \<Rightarrow> None
      | Some (Inl e) \<Rightarrow> Some (Inl e)
      | Some (Inr (found, path)) \<Rightarrow>
          map_option (\<lambda>r. rbind r (\<lambda>(found', bound).
            Inr (found \<or> found', (case path of None \<Rightarrow> bound | Some q \<Rightarrow> (key, q) # bound))))
            (bindPrefixedBindings to_str w view bs))"

section \<open>Actions\<close>

definition pval_truthy :: "pval \<Rightarrow> bool" where
  "pval_truthy v = (case v of PUndefined \<Rightarrow> False | PNull \<Rightarrow> False | PString s \<Rightarrow> s \<noteq> [] | _ \<Rightarrow> True)"

definition pval_none :: "pval \<Rightarrow> bool" where
  "pval_none v \<longleftrightarrow> v = PUndefined \<or> v = PNull"

text \<open>
  A target that is a path is looked up in the view when it starts with a dot and among the global
  objects otherwise, until it is no path: \<open>None\<close> when that never happens.  \<open>global\<close> is the object
  with the global names.
\<close>

definition path_target :: "pval \<Rightarrow> string option" where
  "path_target v = (case v of PString s \<Rightarrow> Some s | _ \<Rightarrow> None)"

partial_function (option) resolve_target :: "world \<Rightarrow> nat \<Rightarrow> nat \<Rightarrow> pval \<Rightarrow> pval result option" where
  "resolve_target w global this target = (case path_target target of
       Some s \<Rightarrow>
        (if s = [] then Some (Inl (AssertionFailed ''Cannot call get with an empty key''))
         else resolve_target w global this
           (if hd s = CHR ''.'' then get_path w (PObject this) (tl s) else get_path w (PObject global) s))
     | None \<Rightarrow> Some (Inr target))"

text \<open>What firing does: nothing, or a call of a function with its \<open>this\<close> and its payload.\<close>

datatype fired = NotFired | Called nat pval pval

definition find_action :: "world \<Rightarrow> pval \<Rightarrow> pval \<Rightarrow> nat result" where
  "find_action w target action = (case action of
       PFunction f \<Rightarrow> Inr f
     | PString name \<Rightarrow> (if pval_none target then Inl (AssertionFailed ''Cannot call get on an undefined object'')
         else case get_path w target name of
             PFunction f \<Rightarrow> Inr f
           | v \<Rightarrow> if pval_truthy v then Inl TypeError else Inl (ThrownError ''Target does not have action''))
     | _ \<Rightarrow> Inl (AssertionFailed ''The key provided to get must be a string''))"

definition fireAction :: "world \<Rightarrow> nat \<Rightarrow> nat \<Rightarrow> pval \<Rightarrow> pval \<Rightarrow> fired result option" where
  "fireAction w global this action payload =
     (let target = (if pval_truthy (get_prop w this ''target'') then get_prop w this ''target'' else PObject this);
          act = (if action = PUndefined then get_prop w this ''action'' else action);
          own = get_prop w this ''payload'';
          actualPayload = (if \<not> pval_none payload then payload else if \<not> pval_none own then own else PObject this)
      in map_option (\<lambda>r. rbind r (\<lambda>t.
           if pval_truthy act then rbind (find_action w t act) (\<lambda>f. Inr (Called f t actualPayload))
           else Inr NotFired)) (resolve_target w global this target))"


section \<open>Walking up the parents\<close>

text \<open>The views above a view, up to the root.\<close>

fun is_chain :: "(nat \<Rightarrow> nat option) \<Rightarrow> nat \<Rightarrow> nat list \<Rightarrow> bool" where
  "is_chain par i [] \<longleftrightarrow> par i = None"
| "is_chain par i (a # as) \<longleftrightarrow> par i = Some a \<and> is_chain par a as"

text \<open>
  The three loops of the code have one shape: they stop at the first view that fits, and change an
  accumulator on the way.
\<close>

locale parent_search =
  fixes par :: "nat \<Rightarrow> nat option" and search :: "nat option \<Rightarrow> 'a \<Rightarrow> 'r option"
    and fits :: "nat \<Rightarrow> bool" and found :: "nat \<Rightarrow> 'a \<Rightarrow> 'r" and missing :: "'a \<Rightarrow> 'r" and more :: "'a \<Rightarrow> 'a"
  assumes search_None: "search None acc = Some (missing acc)"
    and search_Some: "search (Some i) acc = (if fits i then Some (found i acc) else search (par i) (more acc))"
begin

definition first_fit :: "nat list \<Rightarrow> nat" where
  "first_fit as = length (takeWhile (\<lambda>a. \<not> fits a) as)"

lemma search_chain:
  assumes "is_chain par i as"
  shows "search (par i) acc = Some (case objectAt as (first_fit as) of
      None \<Rightarrow> missing ((more ^^ first_fit as) acc) | Some a \<Rightarrow> found a ((more ^^ first_fit as) acc))"
  using assms
proof (induction as arbitrary: i acc)
  case Nil
  then show ?case by (simp add: search_None first_fit_def)
next
  case (Cons a as)
  have IH: "search (par a) (more acc) = Some (case objectAt as (first_fit as) of
      None \<Rightarrow> missing ((more ^^ first_fit as) (more acc)) | Some b \<Rightarrow> found b ((more ^^ first_fit as) (more acc)))"
    using Cons by simp
  have shift: "objectAt (a # as) (Suc n) = objectAt as n" for n by (simp add: objectAt_def)
  show ?case
  proof (cases "fits a")
    case True
    then show ?thesis using Cons.prems by (simp add: search_Some first_fit_def)
  next
    case False
    then have "first_fit (a # as) = Suc (first_fit as)" by (simp add: first_fit_def)
    then show ?thesis using Cons.prems False IH by (simp add: search_Some shift funpow_swap1 cong: option.case_cong)
  qed
qed

lemma search_ends: "is_chain par i as \<Longrightarrow> \<exists>r. search (par i) acc = Some r"
  using search_chain by blast

end

interpretation up: parent_search "parent w" "find_up w p" "\<lambda>i. has_prop w i p" "\<lambda>i path. (Some i, path)"
    "\<lambda>path. (None, path)" "\<lambda>path. path @ ''.parentView''" for w p
  by unfold_locales (simp_all add: find_up.simps)

interpretation value_up: parent_search "parent w" "\<lambda>cur u :: unit. lookup_value w p cur" "\<lambda>i. get_prop w i p \<noteq> PUndefined"
    "\<lambda>i u. get_prop w i p" "\<lambda>u. PUndefined" "\<lambda>u. u" for w p
  by unfold_locales (simp_all add: lookup_value.simps)

interpretation path_up: parent_search "parent w" "lookup_path w p" "\<lambda>i. binds_prop w i p"
    "\<lambda>i path. Some (join ''.'' (rev path))" "\<lambda>path. None" "\<lambda>path. path @ [''parentView'']" for w p
  by unfold_locales (simp_all add: lookup_path.simps)

lemma more_append: "((\<lambda>s. s @ x) ^^ n) acc = acc @ concat (replicate n x)"
proof (induction n)
  case (Suc n)
  have "concat (replicate n x) @ x = x @ concat (replicate n x)" by (induction n) simp_all
  then show ?case using Suc by simp
qed simp

section \<open>Paths through the parents\<close>

definition up_path :: "nat \<Rightarrow> string" where
  "up_path n = ''parentView'' @ concat (replicate n ''.parentView'')"

lemma up_path_Suc: "up_path (Suc n) = ''parentView.'' @ up_path n"
  by (simp add: up_path_def)

lemma split_dots_ne [simp]: "split_dots s \<noteq> []"
  by (induction s) (simp_all split: list.splits)

lemma split_dots_first: "CHR ''.'' \<notin> set x \<Longrightarrow> split_dots (x @ CHR ''.'' # s) = x # split_dots s"
  by (induction x) auto

lemma split_dots_free: "CHR ''.'' \<notin> set x \<Longrightarrow> split_dots x = [x]"
  by (induction x) auto

lemma get_parent: "is_chain (parent w) i (a # as) \<Longrightarrow> get_prop w i ''parentView'' = PObject a"
  by (simp add: get_prop_def parent_value_def)

lemma split_dots_parent: "split_dots (''parentView.'' @ s) = ''parentView'' # split_dots s"
  using split_dots_first [of "''parentView''" s] by simp

lemma follow_up:
  assumes "is_chain (parent w) i as" and "n < length as"
  shows "follow w (PObject i) (split_dots (up_path n @ ''.'' @ s)) = follow w (PObject (as ! n)) (split_dots s)"
  using assms
proof (induction n arbitrary: i as)
  case 0
  obtain a bs where as: "as = a # bs" using 0 by (cases as) auto
  then show ?case using 0 get_parent [of w i a bs] split_dots_parent [of s] by (simp add: up_path_def)
next
  case (Suc n)
  obtain a bs where as: "as = a # bs" using Suc.prems by (cases as) auto
  have "split_dots (up_path (Suc n) @ ''.'' @ s) = ''parentView'' # split_dots (up_path n @ ''.'' @ s)"
    using split_dots_parent [of "up_path n @ ''.'' @ s"] by (simp add: up_path_Suc)
  then show ?case using Suc.IH [of a bs] Suc.prems as get_parent [of w i a bs] by simp
qed

lemma get_path_up:
  assumes "is_chain (parent w) i as" and "n < length as" and "s \<noteq> []"
  shows "get_path w (PObject i) (up_path n @ ''.'' @ s) = get_path w (PObject (as ! n)) s"
  using follow_up [OF assms(1,2), of s] assms(3) by (simp add: get_path_def up_path_def)

lemma join_up: "join ''.'' (rev (p # replicate (Suc n) ''parentView'')) = up_path n @ ''.'' @ p"
proof -
  have "join ''.'' (replicate (Suc n) ''parentView'' @ [p]) = up_path n @ ''.'' @ p"
    by (induction n) (simp_all add: up_path_def)
  then show ?thesis by (simp only: rev.simps rev_replicate)
qed


section \<open>What the lookups find\<close>

lemma dropWhile_free: "CHR ''.'' \<notin> set p \<Longrightarrow> dropWhile (\<lambda>c. c \<noteq> CHR ''.'') (p @ s) = dropWhile (\<lambda>c. c \<noteq> CHR ''.'') s
    \<and> takeWhile (\<lambda>c. c \<noteq> CHR ''.'') (p @ s) = p @ takeWhile (\<lambda>c. c \<noteq> CHR ''.'') s"
  by (induction p) auto

text \<open>A key: a name without dots, followed by nothing or by a dot and more.\<close>

definition is_key :: "string \<Rightarrow> string \<Rightarrow> bool" where
  "is_key p rest \<longleftrightarrow> p \<noteq> [] \<and> CHR ''.'' \<notin> set p \<and> (rest = [] \<or> hd rest = CHR ''.'')"

lemma key_cut:
  assumes "is_key p rest"
  shows "takeWhile (\<lambda>c. c \<noteq> CHR ''.'') (p @ rest) = p" and "dropWhile (\<lambda>c. c \<noteq> CHR ''.'') (p @ rest) = rest"
  using assms dropWhile_free [of p rest] by (cases rest; simp add: is_key_def)+

lemma split_key_key: "is_key p rest \<Longrightarrow> split_key (p @ rest) = Inr (p, rest)"
proof (cases "rest = []")
  case False
  assume k: "is_key p rest"
  obtain c cs where p: "p = c # cs" "c \<noteq> CHR ''.''" using k by (cases p) (auto simp: is_key_def)
  have "dropWhile (\<lambda>c. c = CHR ''.'') (p @ rest) = p @ rest" using p by simp
  then have "path_split (p @ rest) = Some (p, rest)" using False k by (simp only: path_split_def key_cut [OF k] Let_def) (simp add: is_key_def)
  moreover have "CHR ''.'' \<in> set (p @ rest)" using k False by (cases rest) (auto simp: is_key_def)
  ultimately show ?thesis by (simp add: split_key_def)
qed (simp add: split_key_def is_key_def)

text \<open>The number of views to pass before the first one with the property.\<close>

definition views_without :: "(nat \<Rightarrow> bool) \<Rightarrow> nat list \<Rightarrow> nat" where
  "views_without fits as = length (takeWhile (\<lambda>a. \<not> fits a) as)"

lemma createProperty_found:
  assumes "is_chain (parent w) t as" and "is_key p rest" and "n = views_without (\<lambda>a. has_prop w a p) as"
  shows "createProperty w t (p @ rest) = Some (if length as \<le> n
        then Inl (AssertionFailed ''Could not find property in ancestor views'')
      else if n = 0 then Inl (AssertionFailed ''Don't use Flame.computed.nearest to fetch a property from the parent view'')
      else Inr (up_path n @ ''.'' @ p @ rest))"
proof -
  have "find_up w p (parent w t) ''parentView'' = Some (objectAt as n, up_path n)"
    using up.search_chain [OF assms(1), of p "''parentView''"] assms(3)
    by (simp add: up.first_fit_def views_without_def more_append up_path_def split: option.splits)
  moreover have "up_path n = ''parentView'' \<longleftrightarrow> n = 0" by (cases n) (simp_all add: up_path_def)
  ultimately show ?thesis using split_key_key [OF assms(2)] by (simp add: createProperty_def objectAt_def)
qed

lemma split_dots_up: "CHR ''.'' \<notin> set p \<Longrightarrow> split_dots (up_path n @ ''.'' @ p) = replicate (Suc n) ''parentView'' @ [p]"
proof (induction n)
  case 0
  then show ?case using split_dots_parent [of p] split_dots_free [of p] by (simp add: up_path_def)
next
  case (Suc n)
  then show ?case using split_dots_parent [of "up_path n @ ''.'' @ p"] by (simp add: up_path_Suc)
qed

lemma up_reaches:
  assumes "is_chain (parent w) i as" and "n < length as"
  shows "follow w (PObject i) (replicate (Suc n) ''parentView'') = PObject (as ! n)"
  using assms
proof (induction n arbitrary: i as)
  case 0
  then show ?case by (cases as) (simp_all add: get_prop_def parent_value_def)
next
  case (Suc n)
  then obtain a bs where as: "as = a # bs" by (cases as) auto
  have "follow w (PObject i) (replicate (Suc (Suc n)) ''parentView'') = follow w (PObject a) (replicate (Suc n) ''parentView'')"
    using Suc.prems as get_parent [of w i a bs] by simp
  then show ?case using Suc.IH [of a bs] Suc.prems as by simp
qed


definition family :: world where
  "family = \<lparr>parent = (\<lambda>i. if i = 0 then Some 1 else if i = 1 then Some 2 else if i = 2 then Some 3 else None),
     props = (\<lambda>i k. if i = 2 \<and> k = ''foo'' then Some (PObject 9) else if i = 2 \<and> k = ''foo_bar'' then Some (PString ''B'')
       else if i = 3 \<and> k = ''foo'' then Some PNull else if i = 9 \<and> k = ''bar'' then Some (PString ''A'')
       else if i = 1 \<and> k = ''ref'' then Some (PString ''^foo'') else None)\<rparr>"

lemma family_chain: "is_chain (parent family) 0 [1, 2, 3]"
  by (simp add: family_def)


text \<open>
  A \<open>nearest\<close> property that no ancestor has, or that the parent view itself has, fails an assertion.
\<close>

theorem nearest_errors:
  assumes "is_chain (parent w) t as" and "is_key p rest" and "n = views_without (\<lambda>a. has_prop w a p) as"
    and "n = 0 \<or> length as \<le> n" and "d t (propertyName (p @ rest)) = None"
  shows "\<exists>msg. nearest_get w d t (p @ rest) = Some (Inl (AssertionFailed msg))"
  using createProperty_found [OF assms(1-3)] assms(4,5) by (auto simp: nearest_get_def nearest_alias_def)

text \<open>
  Setting a \<open>nearest\<close> property sets the property of the nearest ancestor that has it, reads back what
  was set, and changes no other property of any object.
\<close>

theorem nearest_set_get:
  assumes "is_chain (parent w) t as" and "is_key p []" and "n = views_without (\<lambda>a. has_prop w a p) as"
    and "0 < n" and "n < length as" and "d t (propertyName p) = None"
  shows "\<exists>d' w'. nearest_set w d t p v = Some (Inr (v, w', d')) \<and> get_prop w' (as ! n) p = v
    \<and> (\<forall>i k. (i, k) \<noteq> (as ! n, p) \<longrightarrow> get_prop w' i k = get_prop w i k)
    \<and> nearest_get w' d' t p = Some (Inr (v, d'))"
proof -
  let ?path = "up_path n @ ''.'' @ p"
  let ?w = "set_prop_of w (as ! n) p v"
  have p: "p \<noteq> []" "CHR ''.'' \<notin> set p" using assms(2) by (simp_all add: is_key_def)
  have np: "p \<noteq> ''parentView''"
  proof
    assume "p = ''parentView''"
    then have "n = 0" using assms(3) by (cases as) (simp_all add: views_without_def has_prop_def)
    then show False using assms(4) by simp
  qed
  have al: "createProperty w t p = Some (Inr ?path)"
    using createProperty_found [OF assms(1-3)] assms(4,5) by simp
  have reach: "follow w (PObject t) (replicate (Suc n) ''parentView'') = PObject (as ! n)"
    using assms(1,5) up_reaches by blast
  have set: "set_path w t ?path v = Inr ?w" using reach by (simp only: set_path_def split_dots_up [OF p(2)] butlast_snoc last_snoc) simp
  have chain: "is_chain (parent ?w) t as" using assms(1) by (simp add: set_prop_of_def)
  have "get_path ?w (PObject t) ?path = get_path ?w (PObject (as ! n)) p"
    using get_path_up [OF chain assms(5) p(1)] .
  also have "\<dots> = v" using p np by (simp add: get_path_def split_dots_free get_prop_def set_prop_of_def)
  finally have read: "get_path ?w (PObject t) ?path = v" .
  have "get_prop ?w (as ! n) p = v \<and> (\<forall>i k. (i, k) \<noteq> (as ! n, p) \<longrightarrow> get_prop ?w i k = get_prop w i k)"
    using np by (auto simp: get_prop_def set_prop_of_def parent_value_def)
  then show ?thesis using assms(6) al set read by (simp add: nearest_set_def nearest_get_def nearest_alias_def)
qed

theorem nearest_set_get_witness:
  "\<exists>d' w'. nearest_set family (\<lambda>_ _. None) 0 ''foo'' (PString ''C'') = Some (Inr (PString ''C'', w', d'))
    \<and> get_prop w' 2 ''foo'' = PString ''C'' \<and> get_prop w' 3 ''foo'' = PNull"
proof -
  have key: "is_key ''foo'' []" by (simp add: is_key_def)
  have n: "1 = views_without (\<lambda>a. has_prop family a ''foo'') [1, 2, 3]"
    by (simp add: views_without_def has_prop_def family_def)
  have d: "(\<lambda>_ _. None) (0 :: nat) (propertyName ''foo'') = (None :: string option)" by simp
  have old: "get_prop family 3 ''foo'' = PNull" by (simp add: get_prop_def family_def)
  obtain d' w' where r: "nearest_set family (\<lambda>_ _. None) 0 ''foo'' (PString ''C'') = Some (Inr (PString ''C'', w', d'))"
      "get_prop w' ([1, 2, 3] ! 1) ''foo'' = PString ''C''"
      "\<forall>i k. (i, k) \<noteq> ([1, 2, 3] ! 1, ''foo'') \<longrightarrow> get_prop w' i k = get_prop family i k"
    using nearest_set_get [OF family_chain key n _ _ d, of "PString ''C''"] by auto
  have "get_prop w' 3 ''foo'' = PNull" using r(3) old by simp
  then show ?thesis using r(1,2) by auto
qed


text \<open>
  Keys that differ only in dots and underscores share their alias: once \<open>foo.bar\<close> has been read, the
  property for \<open>foo_bar\<close> gives the value of \<open>foo.bar\<close>.
\<close>

theorem nearest_keys_collide:
  "\<exists>d'. nearest_get family (\<lambda>_ _. None) 0 ''foo.bar'' = Some (Inr (PString ''A'', d'))
    \<and> nearest_get family d' 0 ''foo_bar'' = Some (Inr (PString ''A'', d'))
    \<and> get_prop family 2 ''foo_bar'' = PString ''B''"
proof -
  have key: "is_key ''foo'' ''.bar''" by (simp add: is_key_def)
  have n: "1 = views_without (\<lambda>a. has_prop family a ''foo'') [1, 2, 3]"
    by (simp add: views_without_def has_prop_def family_def)
  have cp: "createProperty family 0 ''foo.bar'' = Some (Inr ''parentView.parentView.foo.bar'')"
    using createProperty_found [OF family_chain key n] by (simp add: up_path_def)
  have name: "propertyName ''foo_bar'' = propertyName ''foo.bar''" by (simp add: propertyName_def)
  have v: "get_path family (PObject 0) ''parentView.parentView.foo.bar'' = PString ''A''"
    by (simp add: get_path_def get_prop_def parent_value_def family_def)
  have B: "get_prop family 2 ''foo_bar'' = PString ''B''" by (simp add: get_prop_def family_def)
  show ?thesis using cp v B by (simp add: nearest_get_def nearest_alias_def name)
qed

lemma match_prefixed_key:
  "is_key p suffix \<Longrightarrow> c = CHR ''^'' \<or> c = CHR ''$'' \<Longrightarrow> match_prefixed (c # p @ suffix) = Some (c = CHR ''$'', p, suffix)"
  using key_cut [of p suffix] by (auto simp: match_prefixed_def is_prefixed_def is_key_def Let_def)

lemma lookupPath_found:
  assumes "is_chain (parent w) view as" and "n = views_without (\<lambda>a. binds_prop w a p) as" and "n < length as"
  shows "lookupPathToProperty w view p = Some (Some (up_path n @ ''.'' @ p))"
proof -
  have rep: "concat (replicate n [x]) = replicate n x" for x :: string by (induction n) simp_all
  show ?thesis
    using path_up.search_chain [OF assms(1), of p "[p, ''parentView'']"] assms(2,3) join_up [of p n]
    by (simp add: lookupPathToProperty_def path_up.first_fit_def views_without_def more_append rep)
qed

text \<open>
  A binding to \<open>^property.path\<close> is bound, and its path leads from the view to \<open>property.path\<close>
  of the nearest ancestor that has a value or a binding for the property.
\<close>

theorem caret_binding_leads_to_nearest:
  assumes "is_chain (parent w) view as" and "is_key p suffix" and "n = views_without (\<lambda>a. binds_prop w a p) as"
    and "n < length as" and "is_binding_key key"
  shows "\<exists>path. bindPrefixed to_str w view key (ABinding (CHR ''^'' # p @ suffix)) = Some (Inr (True, Some path))
    \<and> get_path w (PObject view) path = get_path w (PObject (as ! n)) (p @ suffix)"
proof -
  have path: "connect (up_path n @ ''.'' @ p @ suffix) = Some (up_path n @ ''.'' @ p @ suffix)"
    by (simp add: connect_def is_prefixed_def up_path_def)
  have "get_path w (PObject view) (up_path n @ ''.'' @ p @ suffix) = get_path w (PObject (as ! n)) (p @ suffix)"
    using get_path_up [OF assms(1,4), of "p @ suffix"] assms(2) by (simp add: is_key_def)
  then show ?thesis
    using path assms(5) match_prefixed_key [OF assms(2), of "CHR ''^''"] lookupPath_found [OF assms(1,3,4)]
    by (simp add: bindPrefixed_def prefix_of_def)
qed

theorem caret_binding_leads_to_nearest_witness:
  "\<exists>path. bindPrefixed (\<lambda>_. []) family 0 ''xBinding'' (ABinding ''^foo.bar'') = Some (Inr (True, Some path))
    \<and> get_path family (PObject 0) path = PString ''A''"
proof -
  have key: "is_key ''foo'' ''.bar''" by (simp add: is_key_def)
  have n: "1 = views_without (\<lambda>a. binds_prop family a ''foo'') [1, 2, 3]"
    by (simp add: views_without_def binds_prop_def get_prop_def family_def)
  have b: "is_binding_key ''xBinding''" by (simp add: is_binding_key_def)
  have v: "get_path family (PObject ([1, 2, 3] ! 1)) (''foo'' @ ''.bar'') = PString ''A''"
    by (simp add: get_path_def get_prop_def family_def)
  show ?thesis using caret_binding_leads_to_nearest [OF family_chain key n _ b, of "\<lambda>_. []"] v by simp
qed

lemma lookupValue_chain:
  assumes "is_chain (parent w) view as" and "n = views_without (\<lambda>a. get_prop w a p \<noteq> PUndefined) (view # as)"
  shows "lookupValueOfProperty w view p = Some (if n < length (view # as) then get_prop w ((view # as) ! n) p else PUndefined)"
proof (cases "get_prop w view p = PUndefined")
  case True
  then have "lookupValueOfProperty w view p = lookup_value w p (parent w view)"
    by (simp add: lookupValueOfProperty_def lookup_value.simps)
  moreover have "n = Suc (views_without (\<lambda>a. get_prop w a p \<noteq> PUndefined) as)"
    using True assms(2) by (simp add: views_without_def)
  ultimately show ?thesis using value_up.search_chain [OF assms(1), of p]
    by (simp add: value_up.first_fit_def views_without_def objectAt_def)
next
  case False
  then show ?thesis using assms(2) by (simp add: lookupValueOfProperty_def lookup_value.simps views_without_def)
qed

text \<open>
  A binding to \<open>$property.path\<close> is bound to the path that starts with the text found in the
  first of the view and its ancestors whose property is defined.
\<close>

theorem dollar_binding_uses_value:
  assumes "is_chain (parent w) view as" and "is_key p suffix"
    and "n = views_without (\<lambda>a. get_prop w a p \<noteq> PUndefined) (view # as)" and "n < length (view # as)"
    and "get_prop w ((view # as) ! n) p = PString s" and "is_binding_key key"
  shows "bindPrefixed to_str w view key (ABinding (CHR ''$'' # p @ suffix)) = Some (Inr (True, connect (s @ suffix)))"
  using match_prefixed_key [OF assms(2), of "CHR ''$''"] lookupValue_chain [OF assms(1,3)] assms(4-6)
  by (simp add: bindPrefixed_def prefix_of_def)

theorem dollar_binding_uses_value_witness:
  "bindPrefixed (\<lambda>_. []) family 0 ''xBinding'' (ABinding ''$foo_bar.x'') = Some (Inr (True, Some ''B.x''))"
proof -
  have key: "is_key ''foo_bar'' ''.x''" by (simp add: is_key_def)
  have n: "2 = views_without (\<lambda>a. get_prop family a ''foo_bar'' \<noteq> PUndefined) [0, 1, 2, 3]"
    by (simp add: views_without_def get_prop_def family_def)
  have v: "get_prop family ([0, 1, 2, 3] ! 2) ''foo_bar'' = PString ''B''" by (simp add: get_prop_def family_def)
  have b: "is_binding_key ''xBinding''" by (simp add: is_binding_key_def)
  show ?thesis using dollar_binding_uses_value [OF family_chain key n _ v b, of "\<lambda>_. []"]
    by (simp add: connect_def is_prefixed_def)
qed

text \<open>
  A \<open>$\<close> binding whose value is a prefixed path itself is never bound, without an error:
  \<open>connect\<close> leaves the resulting path alone.
\<close>

theorem chained_prefix_is_dropped:
  "bindPrefixed to_str family 0 ''xBinding'' (ABinding ''$ref'') = Some (Inr (True, None))"
proof -
  have key: "is_key ''ref'' []" by (simp add: is_key_def)
  have n: "1 = views_without (\<lambda>a. get_prop family a ''ref'' \<noteq> PUndefined) [0, 1, 2, 3]"
    by (simp add: views_without_def get_prop_def family_def)
  have v: "get_prop family ([0, 1, 2, 3] ! 1) ''ref'' = PString ''^foo''" by (simp add: get_prop_def family_def)
  have "lookupValueOfProperty family 0 ''ref'' = Some (PString ''^foo'')"
    using lookupValue_chain [OF family_chain n] v by simp
  then show ?thesis using match_prefixed_key [OF key, of "CHR ''$''"]
    by (simp add: bindPrefixed_def prefix_of_def is_binding_key_def connect_def is_prefixed_def)
qed


text \<open>
  Binding all properties of a view: the answer says whether one of them was prefixed, and what was
  bound is a path without prefix.
\<close>

lemma bindPrefixed_path: "bindPrefixed to_str w view key b = Some (Inr (found, Some q)) \<Longrightarrow> found \<and> \<not> is_prefixed q"
  by (auto simp: bindPrefixed_def connect_def split: if_splits binding_prop.splits option.splits)

theorem bound_paths_are_plain:
  "bindPrefixedBindings to_str w view bs = Some (Inr (found, bound)) \<Longrightarrow>
    (bound \<noteq> [] \<longrightarrow> found) \<and> (\<forall>(key, q) \<in> set bound. \<not> is_prefixed q \<and> key \<in> fst ` set bs)"
proof (induction bs arbitrary: found bound)
  case Nil
  then show ?case by simp
next
  case (Cons kb bs)
  obtain key b where kb: "kb = (key, b)" by force
  obtain f path where one: "bindPrefixed to_str w view key b = Some (Inr (f, path))"
    using Cons.prems kb by (auto split: option.splits sum.splits)
  obtain f' c' where rest: "bindPrefixedBindings to_str w view bs = Some (Inr (f', c'))"
      "found = (f \<or> f')" "bound = (case path of None \<Rightarrow> c' | Some q \<Rightarrow> (key, q) # c')"
    using Cons.prems unfolding kb by (cases "bindPrefixedBindings to_str w view bs") (auto simp: one)
  show ?case
    using Cons.IH [OF rest(1)] rest(2,3) kb bindPrefixed_path [of to_str w view key b f] one by (cases path) auto
qed

section \<open>Firing actions\<close>

text \<open>The targets a view goes through: paths, and in the end something else.\<close>

fun target_chain :: "world \<Rightarrow> nat \<Rightarrow> nat \<Rightarrow> pval list \<Rightarrow> bool" where
  "target_chain w global this [] \<longleftrightarrow> False"
| "target_chain w global this [v] \<longleftrightarrow> path_target v = None"
| "target_chain w global this (v # u # vs) \<longleftrightarrow> (\<exists>s. v = PString s \<and> s \<noteq> []
     \<and> u = (if hd s = CHR ''.'' then get_path w (PObject this) (tl s) else get_path w (PObject global) s))
     \<and> target_chain w global this (u # vs)"

lemma resolve_chain: "target_chain w global this vs \<Longrightarrow> resolve_target w global this (hd vs) = Some (Inr (last vs))"
proof (induction w global this vs rule: target_chain.induct)
  case (3 w global this v u vs)
  then show ?case by (subst resolve_target.simps) (auto simp: path_target_def)
qed (simp_all add: resolve_target.simps)

text \<open>
  C28: an action reaches the object at the end of the chain of paths: when the target leads, path by
  path, to an object that has a function under the name of the action, that function is called
  with this object as \<open>this\<close> and with the payload that was given, or the view's own, or the view.
\<close>

theorem action_reaches_target:
  assumes "target_chain w global this vs" and "hd vs = get_prop w this ''target''" and "pval_truthy (hd vs)"
    and "last vs = PObject obj" and "get_prop w this ''action'' = PString name" and "name \<noteq> []"
    and "get_path w (PObject obj) name = PFunction f"
  shows "fireAction w global this PUndefined payload = Some (Inr (Called f (PObject obj)
      (if \<not> pval_none payload then payload
       else if \<not> pval_none (get_prop w this ''payload'') then get_prop w this ''payload'' else PObject this)))"
  using resolve_chain [OF assms(1)] assms(2-7)
  by (simp add: fireAction_def find_action_def pval_truthy_def pval_none_def)

definition app :: world where
  "app = \<lparr>parent = (\<lambda>_. None), props = (\<lambda>i k.
     if i = 0 \<and> k = ''target'' then Some (PString ''.controllerPath'')
     else if i = 0 \<and> k = ''controllerPath'' then Some (PString ''MyApp.controller'')
     else if i = 0 \<and> k = ''action'' then Some (PString ''save'')
     else if i = 1 \<and> k = ''MyApp'' then Some (PObject 2) else if i = 2 \<and> k = ''controller'' then Some (PObject 3)
     else if i = 3 \<and> k = ''save'' then Some (PFunction 7) else None)\<rparr>"

theorem action_reaches_target_witness:
  "fireAction app 1 0 PUndefined PNull = Some (Inr (Called 7 (PObject 3) (PObject 0)))"
proof -
  let ?vs = "[PString ''.controllerPath'', PString ''MyApp.controller'', PObject 3]"
  have chain: "target_chain app 1 0 ?vs"
    by (simp add: app_def get_path_def get_prop_def path_target_def)
  have t: "hd ?vs = get_prop app 0 ''target''" "pval_truthy (hd ?vs)" "last ?vs = PObject 3"
      "get_prop app 0 ''action'' = PString ''save''" "''save'' \<noteq> []" "get_path app (PObject 3) ''save'' = PFunction 7"
    by (simp_all add: app_def get_path_def get_prop_def pval_truthy_def)
  have "get_prop app 0 ''payload'' = PUndefined" by (simp add: app_def get_prop_def)
  then show ?thesis using action_reaches_target [OF chain t, of PNull] by (simp add: pval_none_def)
qed

text \<open>
  A target path that leads back to itself is followed forever: firing the action does not return.
\<close>

lemma resolve_loop:
  assumes "resolve_target w global this v = Some r"
  shows "get_prop w this ''target'' = PString ''.target'' \<longrightarrow> v \<noteq> PString ''.target''"
proof (rule resolve_target.raw_induct
    [where P = "\<lambda>w global this v r. get_prop w this ''target'' = PString ''.target'' \<longrightarrow> v \<noteq> PString ''.target''", OF _ assms],
    intro impI notI)
  fix rec w global this v r
  assume IH: "\<And>w global this v r. rec w global this v = Some r \<Longrightarrow>
      get_prop w this ''target'' = PString ''.target'' \<longrightarrow> v \<noteq> PString ''.target''"
    and body: "(case path_target v of None \<Rightarrow> Some (Inr v)
      | Some s \<Rightarrow> if s = [] then Some (Inl (AssertionFailed ''Cannot call get with an empty key''))
          else rec w global this (if hd s = CHR ''.'' then get_path w (PObject this) (tl s)
            else get_path w (PObject global) s)) = Some r"
    and t: "get_prop w this ''target'' = PString ''.target''" and v: "v = PString ''.target''"
  have "get_path w (PObject this) ''target'' = get_prop w this ''target''" by (simp add: get_path_def)
  then have "rec w global this (PString ''.target'') = Some r" using body v t by (simp add: path_target_def)
  then show False using IH t by blast
qed

theorem target_loop_never_returns:
  assumes "get_prop w this ''target'' = PString ''.target''"
  shows "fireAction w global this action payload = None"
proof -
  have "resolve_target w global this (PString ''.target'') = None"
    using resolve_loop [of w global this "PString ''.target''"] assms by (cases "resolve_target w global this (PString ''.target'')") auto
  then show ?thesis using assms by (simp add: fireAction_def pval_truthy_def Let_def)
qed

theorem target_loop_never_returns_witness:
  "fireAction \<lparr>parent = \<lambda>_. None, props = \<lambda>i k. if k = ''target'' then Some (PString ''.target'') else None\<rparr> 1 0 PUndefined PNull = None"
  by (rule target_loop_never_returns) (simp add: get_prop_def)

text \<open>A named action that the target lacks throws.\<close>

theorem missing_action_throws:
  assumes "target_chain w global this vs" and "hd vs = get_prop w this ''target''" and "pval_truthy (hd vs)"
    and "last vs = PObject obj" and "name \<noteq> []" and "\<not> pval_truthy (get_path w (PObject obj) name)"
  shows "fireAction w global this (PString name) payload = Some (Inl (ThrownError ''Target does not have action''))"
  using resolve_chain [OF assms(1)] assms(2-6)
  by (auto simp: fireAction_def find_action_def pval_truthy_def pval_none_def split: pval.splits)

end
