(* ===== verification/Multiselection.thy ===== *)
theory Multiselection
  imports Menu_View "HOL-Library.List_Lexorder" "HOL-Library.Char_ord" "HOL-Library.Multiset"
begin

text \<open>
  Choosing several values from a menu (\<open>views/multiselection_menu_view.js\<close>) and showing them on a
  button (\<open>views/multiselection_button_view.js\<close>): menu and button share one array of values, which
  the menu changes in place and the button's title sorts in place.
\<close>

section \<open>Items, values and the menu\<close>

text \<open>The value of an item is one value, or an array that replaces everything chosen so far.\<close>

datatype 'v ms_choice = One 'v | Several "'v list"

text \<open>
  \<open>mi_choice\<close> is the property named by \<open>itemValueKey\<close>, \<open>mi_plain\<close> the property \<open>value\<close>, which the
  check mark reads; \<open>mi_id\<close> tells item objects apart.
\<close>

record 'v ms_item =
  mi_id :: nat
  mi_title :: string
  mi_choice :: "'v ms_choice"
  mi_plain :: "'v ms_choice"
  mi_isEnabled :: bool

record 'v ms_menu =
  ms_items :: "'v ms_item list"
  ms_value :: "'v list option"
  ms_highlightedItem :: "'v ms_item option"
  ms_searchKey :: string

definition isChecked :: "'v ms_menu \<Rightarrow> 'v ms_item \<Rightarrow> bool" where
  "isChecked m i = (case (ms_value m, mi_plain i) of (Some value, One v) \<Rightarrow> v \<in> set value | _ \<Rightarrow> False)"

definition toggle :: "'v ms_choice \<Rightarrow> 'v list \<Rightarrow> 'v list" where
  "toggle c value = (case c of
       Several vs \<Rightarrow> replace_at 0 (length value) vs value
     | One v \<Rightarrow> if v \<notin> set value then value @ [v] else if length value > 1 then removeObject v value else value)"

definition selectHighlightedItem :: "'v ms_menu \<Rightarrow> 'v ms_menu result" where
  "selectHighlightedItem m = (case ms_highlightedItem m of
       None \<Rightarrow> Inl (AssertionFailed ''Cannot call get on an undefined object'')
     | Some i \<Rightarrow> (case ms_value m of
           None \<Rightarrow> Inl TypeError
         | Some value \<Rightarrow> Inr (m\<lparr>ms_value := Some (toggle (mi_choice i) value)\<rparr>)))"

text \<open>JavaScript's remainder has the sign of the dividend; a remainder by zero is not a number.\<close>

definition js_rem :: "int \<Rightarrow> int \<Rightarrow> int option" where
  "js_rem a b = (if b = 0 then None else Some (sgn a * (\<bar>a\<bar> mod \<bar>b\<bar>)))"

definition index_of_item :: "'v ms_item list \<Rightarrow> 'v ms_item \<Rightarrow> int" where
  "index_of_item items i = (case indexOf items i of None \<Rightarrow> -1 | Some k \<Rightarrow> int k)"

definition highlightAdjacentMenuItem :: "int \<Rightarrow> 'v ms_menu \<Rightarrow> 'v ms_menu" where
  "highlightAdjacentMenuItem increment m =
     (let items = ms_items m; len = int (length items);
          nextIndex = (case ms_highlightedItem m of
              Some i \<Rightarrow> map_option (\<lambda>k. if k < 0 then len + k else k) (js_rem (index_of_item items i + increment) len)
            | None \<Rightarrow> Some (if increment > 0 then 0 else len - 1))
      in m\<lparr>ms_highlightedItem := (case nextIndex of None \<Rightarrow> None | Some k \<Rightarrow> objectAt_int items k)\<rparr>)"

definition ms_moveUp :: "'v ms_menu \<Rightarrow> 'v ms_menu" where
  "ms_moveUp = highlightAdjacentMenuItem (-1)"

definition ms_moveDown :: "'v ms_menu \<Rightarrow> 'v ms_menu" where
  "ms_moveDown = highlightAdjacentMenuItem 1"

definition ms_insertNewline :: "'v ms_menu \<Rightarrow> 'v ms_menu result" where
  "ms_insertNewline m = (if ms_highlightedItem m \<noteq> None then selectHighlightedItem m else Inr m)"

definition ms_mouseEnter :: "'v ms_item \<Rightarrow> 'v ms_menu \<Rightarrow> 'v ms_menu" where
  "ms_mouseEnter i m = m\<lparr>ms_highlightedItem := Some i\<rparr>"

definition ms_mouseLeave :: "'v ms_menu \<Rightarrow> 'v ms_menu" where
  "ms_mouseLeave m = m\<lparr>ms_highlightedItem := None\<rparr>"

definition ms_click :: "'v ms_item \<Rightarrow> 'v ms_menu \<Rightarrow> 'v ms_menu result" where
  "ms_click i m = selectHighlightedItem (m\<lparr>ms_highlightedItem := Some i\<rparr>)"

definition ms_findByName :: "string \<Rightarrow> 'v ms_item list \<Rightarrow> 'v ms_item option" where
  "ms_findByName name items = List.find (\<lambda>i. prefix_ignoring_case name (mi_title i)) items"

definition ms_doKeySearch :: "char \<Rightarrow> 'v ms_menu \<Rightarrow> 'v ms_menu" where
  "ms_doKeySearch key m = (let name = ms_searchKey m @ [key]; m1 = m\<lparr>ms_searchKey := name\<rparr>
     in case ms_findByName name (ms_items m) of None \<Rightarrow> m1 | Some i \<Rightarrow> m1\<lparr>ms_highlightedItem := Some i\<rparr>)"

definition ms_clearKeySearch :: "'v ms_menu \<Rightarrow> 'v ms_menu" where
  "ms_clearKeySearch m = m\<lparr>ms_searchKey := []\<rparr>"

definition ms_close :: "'v ms_menu \<Rightarrow> 'v ms_menu" where
  "ms_close m = ms_clearKeySearch (m\<lparr>ms_highlightedItem := None\<rparr>)"

section \<open>The title of the button\<close>

text \<open>
  \<open>formatTitle\<close> returns the title and leaves the array sorted by the texts of its values, as
  \<open>Array.prototype.sort\<close> does without a comparison.
\<close>

definition formatTitle :: "('v \<Rightarrow> string) \<Rightarrow> 'v list option \<Rightarrow> string \<times> 'v list option" where
  "formatTitle to_str value = (case value of
       None \<Rightarrow> ([], None)
     | Some v \<Rightarrow> (let s = sort_key to_str v in (join '','' (map to_str s), Some s)))"

definition selectedMultipleItemValue :: "('v \<Rightarrow> string) \<Rightarrow> 'v ms_menu \<Rightarrow> string \<times> 'v ms_menu" where
  "selectedMultipleItemValue to_str m = (let (t, v) = formatTitle to_str (ms_value m) in (t, m\<lparr>ms_value := v\<rparr>))"

text \<open>
  Events of an open menu: the mouse on the \<open>i\<close>-th item, keys, the timeout of the key search, and the
  button rendering its title.
\<close>

datatype ms_event = MsEnter nat | MsLeave | MsClick nat | MsUp | MsDown | MsNewline | MsKey nat | MsSearchTimeout | MsTitle

definition ms_handle :: "('v \<Rightarrow> string) \<Rightarrow> ms_event \<Rightarrow> 'v ms_menu \<Rightarrow> 'v ms_menu result" where
  "ms_handle to_str e m = (case e of
       MsEnter i \<Rightarrow> Inr (if i < length (ms_items m) then ms_mouseEnter (ms_items m ! i) m else m)
     | MsLeave \<Rightarrow> Inr (ms_mouseLeave m)
     | MsClick i \<Rightarrow> (if i < length (ms_items m) then ms_click (ms_items m ! i) m else Inr m)
     | MsUp \<Rightarrow> Inr (ms_moveUp m)
     | MsDown \<Rightarrow> Inr (ms_moveDown m)
     | MsNewline \<Rightarrow> ms_insertNewline m
     | MsKey w \<Rightarrow> Inr (if 31 < w then ms_doKeySearch (char_of w) m else m)
     | MsSearchTimeout \<Rightarrow> Inr (ms_clearKeySearch m)
     | MsTitle \<Rightarrow> Inr (snd (selectedMultipleItemValue to_str m)))"

fun ms_run :: "('v \<Rightarrow> string) \<Rightarrow> ms_event list \<Rightarrow> 'v ms_menu \<Rightarrow> 'v ms_menu result" where
  "ms_run to_str [] m = Inr m"
| "ms_run to_str (e # es) m = rbind (ms_handle to_str e m) (ms_run to_str es)"

section \<open>The menu as a set of choices\<close>

text \<open>What the menu is for: a non-empty set of values, of which items add or remove one.\<close>

definition make_choice :: "'v ms_choice \<Rightarrow> 'v set \<Rightarrow> 'v set" where
  "make_choice c S = (case c of Several vs \<Rightarrow> set vs
     | One v \<Rightarrow> if v \<notin> S then insert v S else if S = {v} then S else S - {v})"

text \<open>The choice an event makes, and those of a sequence of events.\<close>

definition choice_of :: "ms_event \<Rightarrow> 'v ms_menu \<Rightarrow> 'v ms_choice option" where
  "choice_of e m = (case e of
       MsClick i \<Rightarrow> if i < length (ms_items m) then Some (mi_choice (ms_items m ! i)) else None
     | MsNewline \<Rightarrow> map_option mi_choice (ms_highlightedItem m)
     | _ \<Rightarrow> None)"

fun choices :: "('v \<Rightarrow> string) \<Rightarrow> ms_event list \<Rightarrow> 'v ms_menu \<Rightarrow> 'v ms_choice list" where
  "choices to_str [] m = []"
| "choices to_str (e # es) m = (case choice_of e m of None \<Rightarrow> [] | Some c \<Rightarrow> [c])
     @ (case ms_handle to_str e m of Inl _ \<Rightarrow> [] | Inr m' \<Rightarrow> choices to_str es m')"

definition chosen_values :: "'v ms_menu \<Rightarrow> 'v set" where
  "chosen_values m = (case ms_value m of None \<Rightarrow> {} | Some v \<Rightarrow> set v)"

definition ok_choice :: "'v ms_choice \<Rightarrow> bool" where
  "ok_choice c = (case c of One _ \<Rightarrow> True | Several vs \<Rightarrow> vs \<noteq> [] \<and> distinct vs)"

definition ms_ok :: "'v ms_menu \<Rightarrow> bool" where
  "ms_ok m \<longleftrightarrow> (case ms_value m of None \<Rightarrow> False | Some v \<Rightarrow> v \<noteq> [] \<and> distinct v)
     \<and> list_all (\<lambda>i. ok_choice (mi_choice i)) (ms_items m)
     \<and> (case ms_highlightedItem m of None \<Rightarrow> True | Some i \<Rightarrow> i \<in> set (ms_items m))"

lemma toggle_make_choice:
  assumes "distinct v" and "v \<noteq> []" and "ok_choice c"
  shows "set (toggle c v) = make_choice c (set v)" and "distinct (toggle c v)" and "toggle c v \<noteq> []"
proof -
  have one: "length v > 1 \<longleftrightarrow> set v \<noteq> {x}" if "x \<in> set v" for x
  proof
    assume "set v \<noteq> {x}"
    then show "length v > 1" using assms(2) that by (cases v rule: remdups_adj.cases) auto
  next
    assume "length v > 1"
    then have "card (set v) > 1" using assms(1) by (simp add: distinct_card)
    then show "set v \<noteq> {x}" by auto
  qed
  show "set (toggle c v) = make_choice c (set v)"
    using one by (cases c) (auto simp: toggle_def make_choice_def replace_at_def)
  then have ne: "set (toggle c v) \<noteq> {}" if "ok_choice c"
    using assms that by (cases c) (auto simp: make_choice_def ok_choice_def split: if_splits)
  show "distinct (toggle c v)" using assms by (cases c) (auto simp: toggle_def replace_at_def ok_choice_def)
  show "toggle c v \<noteq> []" using ne [OF assms(3)] by auto
qed

lemma highlight_in: "objectAt_int items k = Some i \<Longrightarrow> i \<in> set items"
  by (auto simp: objectAt_int_def split: if_splits)

lemma adjacent_ok [flame_inv]: "ms_ok m \<Longrightarrow> ms_ok (highlightAdjacentMenuItem d m)
    \<and> ms_value (highlightAdjacentMenuItem d m) = ms_value m"
  by (auto simp: ms_ok_def highlightAdjacentMenuItem_def Let_def dest: highlight_in split: option.splits)

lemma keySearch_ok [flame_inv]: "ms_ok m \<Longrightarrow> ms_ok (ms_doKeySearch key m) \<and> ms_value (ms_doKeySearch key m) = ms_value m"
  by (auto simp: ms_ok_def ms_doKeySearch_def ms_findByName_def Let_def find_Some_iff split: option.splits)

lemma sort_key_Nil [simp]: "sort_key f xs = [] \<longleftrightarrow> xs = []"
  by (metis length_0_conv length_sort)

lemma title_ok [flame_inv]: "ms_ok m \<Longrightarrow> ms_ok (snd (selectedMultipleItemValue to_str m))
    \<and> chosen_values (snd (selectedMultipleItemValue to_str m)) = chosen_values m"
  by (auto simp: ms_ok_def selectedMultipleItemValue_def formatTitle_def chosen_values_def Let_def split: option.splits)

lemma select_ok [flame_inv]:
  assumes "ms_ok m" and "ms_highlightedItem m = Some i"
  shows "\<exists>m'. selectHighlightedItem m = Inr m' \<and> ms_ok m' \<and> chosen_values m' = make_choice (mi_choice i) (chosen_values m)"
proof -
  obtain v where v: "ms_value m = Some v" "v \<noteq> []" "distinct v" using assms(1) by (auto simp: ms_ok_def split: option.splits)
  have "ok_choice (mi_choice i)" using assms by (auto simp: ms_ok_def list_all_iff)
  then show ?thesis using toggle_make_choice [OF v(3,2)] assms v
    by (auto simp: selectHighlightedItem_def ms_ok_def chosen_values_def)
qed

lemma ms_handle_ok:
  assumes "ms_ok m"
  shows "\<exists>m'. ms_handle to_str e m = Inr m' \<and> ms_ok m'
    \<and> chosen_values m' = (case choice_of e m of None \<Rightarrow> chosen_values m | Some c \<Rightarrow> make_choice c (chosen_values m))"
proof (cases e)
  case (MsClick i)
  have "ms_ok (m\<lparr>ms_highlightedItem := Some (ms_items m ! i)\<rparr>)" if "i < length (ms_items m)"
    using assms that by (auto simp: ms_ok_def)
  then show ?thesis using MsClick assms select_ok [of "m\<lparr>ms_highlightedItem := Some (ms_items m ! i)\<rparr>"]
    by (cases "i < length (ms_items m)") (auto simp: ms_handle_def ms_click_def choice_of_def chosen_values_def)
next
  case MsNewline
  then show ?thesis using assms select_ok [OF assms]
    by (cases "ms_highlightedItem m") (auto simp: ms_handle_def ms_insertNewline_def choice_of_def)
next
  case MsUp
  then show ?thesis using adjacent_ok [OF assms]
    by (auto simp: ms_handle_def ms_moveUp_def choice_of_def chosen_values_def)
next
  case MsDown
  then show ?thesis using adjacent_ok [OF assms]
    by (auto simp: ms_handle_def ms_moveDown_def choice_of_def chosen_values_def)
next
  case (MsKey w)
  then show ?thesis using keySearch_ok [OF assms] assms by (auto simp: ms_handle_def choice_of_def chosen_values_def)
next
  case MsTitle
  then show ?thesis using title_ok [OF assms] by (simp add: ms_handle_def choice_of_def)
qed (use assms in \<open>auto simp: ms_handle_def choice_of_def ms_ok_def chosen_values_def ms_mouseEnter_def
    ms_mouseLeave_def ms_clearKeySearch_def split: option.splits\<close>)



definition colours :: "nat ms_item list" where
  "colours = [\<lparr>mi_id = 0, mi_title = ''Red'', mi_choice = One 5, mi_plain = One 5, mi_isEnabled = True\<rparr>,
     \<lparr>mi_id = 1, mi_title = ''Green'', mi_choice = One 3, mi_plain = One 3, mi_isEnabled = False\<rparr>,
     \<lparr>mi_id = 2, mi_title = ''All'', mi_choice = Several [5, 3], mi_plain = Several [5, 3], mi_isEnabled = True\<rparr>]"

definition colour_menu :: "nat ms_menu" where
  "colour_menu = \<lparr>ms_items = colours, ms_value = Some [5], ms_highlightedItem = None, ms_searchKey = []\<rparr>"


text \<open>
  An item's check mark follows its clicks: after a click on an item with one value the item is
  checked unless it was checked before along with another value, and the check marks of the other
  values stay.  Clicking an unchecked item twice restores the values.
\<close>

theorem click_flips_check_mark:
  assumes "ms_ok m" and "i \<in> set (ms_items m)" and "mi_choice i = One v" and "mi_plain i = One v"
  shows "\<exists>m'. ms_click i m = Inr m' \<and> (isChecked m' i \<longleftrightarrow> \<not> isChecked m i \<or> chosen_values m = {v})
    \<and> (\<forall>j u. mi_plain j = One u \<and> u \<noteq> v \<longrightarrow> isChecked m' j = isChecked m j)
    \<and> (\<not> isChecked m i \<longrightarrow> (\<exists>m''. ms_click i m' = Inr m'' \<and> ms_value m'' = ms_value m))"
proof -
  obtain vs where vs: "ms_value m = Some vs" "vs \<noteq> []" "distinct vs" using assms(1) by (auto simp: ms_ok_def split: option.splits)
  define m' where "m' = m\<lparr>ms_highlightedItem := Some i, ms_value := Some (toggle (One v) vs)\<rparr>"
  have click: "ms_click i m = Inr m'" using assms(3) vs by (simp add: ms_click_def selectHighlightedItem_def m'_def)
  have set: "set (toggle (One v) vs) = make_choice (One v) (set vs)"
    by (rule toggle_make_choice(1) [OF vs(3,2)]) (simp add: ok_choice_def)
  have marks: "isChecked m' j \<longleftrightarrow> (if u = v then v \<notin> set vs \<or> set vs = {v} else isChecked m j)" if "mi_plain j = One u" for j u
    using that vs set by (auto simp: isChecked_def m'_def make_choice_def)
  have undo: "toggle (One v) (toggle (One v) vs) = vs" if "v \<notin> set vs"
  proof -
    have "filter (\<lambda>y. y \<noteq> v) vs = vs" using that by (auto simp: filter_id_conv)
    then show ?thesis using that vs(2) by (simp add: toggle_def removeObject_def Suc_lessI)
  qed
  have "ms_click i m' = Inr (m'\<lparr>ms_value := Some vs\<rparr>)" if "\<not> isChecked m i"
    using that vs assms(3,4)
    using undo by (simp add: ms_click_def selectHighlightedItem_def m'_def isChecked_def)
  moreover have "isChecked m i \<longleftrightarrow> v \<in> set vs" using vs assms(4) by (simp add: isChecked_def)
  ultimately show ?thesis using click marks [OF assms(4)] marks vs by (auto simp: chosen_values_def)
qed

theorem click_flips_check_mark_witness:
  "\<exists>m' m''. ms_click (colours ! 1) colour_menu = Inr m' \<and> isChecked m' (colours ! 1) \<and> isChecked m' (colours ! 0)
    \<and> ms_click (colours ! 1) m' = Inr m'' \<and> ms_value m'' = Some [5]"
proof -
  have ok: "ms_ok colour_menu" by (simp add: ms_ok_def colour_menu_def colours_def ok_choice_def)
  have i: "colours ! 1 \<in> set (ms_items colour_menu)" "mi_choice (colours ! 1) = One 3" "mi_plain (colours ! 1) = One 3"
    by (simp_all add: colour_menu_def colours_def)
  have c: "\<not> isChecked colour_menu (colours ! 1)" "mi_plain (colours ! 0) = One 5" "isChecked colour_menu (colours ! 0)"
      "ms_value colour_menu = Some [5]"
    by (simp_all add: isChecked_def colour_menu_def colours_def)
  show ?thesis using click_flips_check_mark [OF ok i] c by auto
qed

section \<open>The arrow keys go round\<close>

lemma js_rem_small: "0 \<le> a \<Longrightarrow> 0 < b \<Longrightarrow> js_rem a b = Some (a mod b)"
  by (simp add: js_rem_def sgn_if)

lemma js_rem_minus_one: "0 < b \<Longrightarrow> js_rem (-1) b = Some (if b = 1 then 0 else -1)"
  by (simp add: js_rem_def sgn_if)

lemma adjacent_at:
  assumes "distinct (ms_items m)" and "ms_highlightedItem m = Some (ms_items m ! i)" and "i < length (ms_items m)"
  shows "ms_highlightedItem (ms_moveDown m) = Some (ms_items m ! (Suc i mod length (ms_items m)))"
    and "ms_highlightedItem (ms_moveUp m)
      = Some (ms_items m ! (if i = 0 then length (ms_items m) - 1 else i - 1))"
proof -
  let ?n = "length (ms_items m)"
  have ix: "index_of_item (ms_items m) (ms_items m ! i) = int i"
    using assms(1,3) by (simp add: index_of_item_def indexOf_nth_distinct)
  have down: "js_rem (int i + 1) (int ?n) = Some (int (Suc i mod ?n))"
  proof -
    have "ms_items m \<noteq> []" using assms(3) by auto
    then show ?thesis using js_rem_small [of "int i + 1" "int ?n"] by (simp add: zmod_int add.commute)
  qed
  have "\<not> int (Suc i mod ?n) < 0" "Suc i mod ?n < ?n" using assms(3) mod_less_divisor [of ?n "Suc i"] by linarith+
  then show "ms_highlightedItem (ms_moveDown m) = Some (ms_items m ! (Suc i mod ?n))"
    using assms ix down by (simp add: ms_moveDown_def highlightAdjacentMenuItem_def Let_def objectAt_int_def del: of_nat_mod)
  show "ms_highlightedItem (ms_moveUp m) = Some (ms_items m ! (if i = 0 then ?n - 1 else i - 1))"
  proof (cases "i = 0")
    case True
    have "js_rem (int i + -1) (int ?n) = Some (if ?n = 1 then 0 else -1)"
      using True assms(3) js_rem_minus_one [of "int ?n"] by simp
    moreover have "nat (int ?n - 1) = ?n - 1" "?n - 1 < ?n" using assms(3) by linarith+
    ultimately show ?thesis using True assms ix
      by (auto simp: ms_moveUp_def highlightAdjacentMenuItem_def Let_def objectAt_int_def)
  next
    case False
    have "js_rem (int i + -1) (int ?n) = Some (int (i - 1))"
      using False assms(3) js_rem_small [of "int i - 1" "int ?n"] by (cases "ms_items m = []") (auto simp: of_nat_diff)
    moreover have "nat (int i - 1) = i - 1" by linarith
    ultimately show ?thesis using False assms ix
      by (auto simp: ms_moveUp_def highlightAdjacentMenuItem_def Let_def objectAt_int_def)
  qed
qed

text \<open>
  The arrow keys go round all items: \<open>k + 1\<close> times down from no highlight highlights the item at
  \<open>k mod n\<close>, and up undoes down.
\<close>

theorem arrow_keys_go_round:
  assumes "distinct (ms_items m)" and "ms_items m \<noteq> []" and "ms_highlightedItem m = None"
  shows "ms_highlightedItem ((ms_moveDown ^^ Suc k) m) = Some (ms_items m ! (k mod length (ms_items m)))
    \<and> ms_highlightedItem (ms_moveUp ((ms_moveDown ^^ Suc (Suc k)) m)) = ms_highlightedItem ((ms_moveDown ^^ Suc k) m)"
proof -
  have items: "ms_items ((ms_moveDown ^^ j) m) = ms_items m" for j
    by (induction j) (simp_all add: ms_moveDown_def highlightAdjacentMenuItem_def Let_def)
  have at: "ms_highlightedItem ((ms_moveDown ^^ Suc j) m) = Some (ms_items m ! (j mod length (ms_items m)))" for j
  proof (induction j)
    case 0
    then show ?case using assms by (simp add: ms_moveDown_def highlightAdjacentMenuItem_def Let_def objectAt_int_def)
  next
    case (Suc j)
    then show ?case
      using adjacent_at(1) [of "(ms_moveDown ^^ Suc j) m" "j mod length (ms_items m)"] items [of "Suc j"] assms
      by (simp add: mod_Suc_eq)
  qed
  let ?n = "length (ms_items m)"
  have "Suc k mod ?n = 0 \<Longrightarrow> k mod ?n = ?n - 1" "Suc k mod ?n \<noteq> 0 \<Longrightarrow> Suc k mod ?n - 1 = k mod ?n"
    by (simp_all add: mod_Suc split: if_splits)
  then have "ms_highlightedItem (ms_moveUp ((ms_moveDown ^^ Suc (Suc k)) m)) = Some (ms_items m ! (k mod ?n))"
    using adjacent_at(2) [of "(ms_moveDown ^^ Suc (Suc k)) m" "Suc k mod ?n"] at [of "Suc k"] items [of "Suc (Suc k)"] assms by auto
  then show ?thesis using at [of k] by simp
qed

theorem arrow_keys_go_round_witness: "ms_highlightedItem ((ms_moveDown ^^ 5) colour_menu) = Some (colours ! 1)"
proof -
  have c: "distinct (ms_items colour_menu)" "ms_items colour_menu \<noteq> []" "ms_highlightedItem colour_menu = None"
      and items: "ms_items colour_menu = colours" "length colours = 3"
    by (simp_all add: colour_menu_def colours_def)
  have five: "Suc 4 = 5" "4 mod 3 = (1 :: nat)" by simp_all
  show ?thesis using arrow_keys_go_round [OF c, of 4] by (simp only: five items)
qed


section \<open>Boundary cases\<close>

text \<open>
  The title lists the chosen values in the order of their texts, and reading it reorders the
  array that the application gave to the button.
\<close>

theorem title_sorts_value_in_place:
  assumes "ms_value m = Some v"
  shows "\<exists>s. ms_value (snd (selectedMultipleItemValue to_str m)) = Some s \<and> mset s = mset v
    \<and> sorted (map to_str s) \<and> fst (selectedMultipleItemValue to_str m) = join '','' (map to_str s)"
  using assms by (simp add: selectedMultipleItemValue_def formatTitle_def Let_def)

theorem title_sorts_value_in_place_witness:
  "\<exists>s. ms_value (snd (selectedMultipleItemValue decimal (colour_menu\<lparr>ms_value := Some [5, 3]\<rparr>))) = Some s \<and> mset s = {#3, 5#}"
  using title_sorts_value_in_place [of "colour_menu\<lparr>ms_value := Some [5, 3]\<rparr>" "[5, 3]" decimal]
  by (auto simp: add_mset_commute)

text \<open>
  Clicking an item that is disabled changes the value all the same: only the style of a disabled
  item differs.
\<close>

theorem disabled_item_is_chosen:
  "\<not> mi_isEnabled (colours ! 1) \<and> (\<exists>m. ms_click (colours ! 1) colour_menu = Inr m \<and> ms_value m = Some [5, 3])"
  by (simp add: ms_click_def selectHighlightedItem_def colour_menu_def colours_def toggle_def)

text \<open>
  The guard against an empty value counts the entries of the array: a value that is in it twice is
  removed twice, and an item with an empty array empties it at once.
\<close>

theorem guard_misses_repeated_value: "toggle (One v) [v, v] = [] \<and> toggle (Several []) vs = []"
  by (simp add: toggle_def removeObject_def replace_at_def)

end
