(* ===== verification/Select_Button.thy ===== *)
theory Select_Button
  imports Button_View
begin

text \<open>
  Buttons that open a menu of choices: \<open>views/select_button_view.js\<close>, \<open>views/combo_box_view.js\<close>
  and the opening and closing of \<open>views/multiselection_button_view.js\<close>.  They extend the button, whose
  statechart they drive while the menu is open.
\<close>

section \<open>Finding the selected item\<close>

text \<open>
  An item: its title, its value (\<open>None\<close> when undefined) and the items of its submenu, none when the
  submenu is missing or empty.
\<close>

datatype 'v select_item = SelectItem (stitle: string) (svalue: "'v option") (ssubMenu: "'v select_item list")

text \<open>\<open>_findItem\<close>: the loop over the items, with what it found so far.\<close>

fun find_items :: "'v option \<Rightarrow> 'v select_item option \<Rightarrow> 'v select_item list \<Rightarrow> 'v select_item option" where
  "find_items value foundItem [] = foundItem"
| "find_items value foundItem (SelectItem t x sub # items) =
     find_items value
       (if x = value then Some (SelectItem t x sub)
        else if sub \<noteq> [] then (case find_items value None sub of None \<Rightarrow> foundItem | Some possiblyFound \<Rightarrow> Some possiblyFound)
        else foundItem) items"

definition findItem :: "'v option \<Rightarrow> 'v select_item list \<Rightarrow> 'v select_item option" where
  "findItem value items = find_items value None items"

section \<open>The button\<close>

text \<open>
  \<open>sb_items\<close> is \<open>None\<close> for null or undefined; \<open>sb_menuOpen\<close> tells whether the menu made by \<open>_openMenu\<close>
  is open.
\<close>

record 'v select_button =
  sb_button :: button_owner
  sb_items :: "'v select_item list option"
  sb_value :: "'v option"
  sb_menuOpen :: bool

definition sb_findItem :: "'v select_button \<Rightarrow> 'v select_item option" where
  "sb_findItem b = (case sb_items b of None \<Rightarrow> None | Some items \<Rightarrow> findItem (sb_value b) items)"

definition selectedMenuItem :: "'v select_button \<Rightarrow> 'v select_item option" where
  "selectedMenuItem b = (if sb_value b = None then None else sb_findItem b)"

definition itemsDidChange :: "'v select_button \<Rightarrow> 'v select_button" where
  "itemsDidChange b = (case sb_items b of
       Some (i # is) \<Rightarrow> if sb_findItem b = None then b\<lparr>sb_value := svalue i\<rparr> else b
     | _ \<Rightarrow> b)"

definition set_items :: "'v select_item list option \<Rightarrow> 'v select_button \<Rightarrow> 'v select_button" where
  "set_items items b = itemsDidChange (b\<lparr>sb_items := items\<rparr>)"

definition openMenu :: "'v select_button \<Rightarrow> 'v select_button result" where
  "openMenu b = rbind (button_goto MouseDownInside (sb_button b)) (\<lambda>c. Inr (b\<lparr>sb_button := c, sb_menuOpen := True\<rparr>))"

definition closeMenu :: "'v select_button \<Rightarrow> 'v select_button result" where
  "closeMenu b = rbind (button_goto Idle (sb_button b)) (\<lambda>c. Inr (b\<lparr>sb_button := c, sb_menuOpen := False\<rparr>))"

definition sb_mouseDown :: "'v select_button \<Rightarrow> (retval \<times> 'v select_button) result" where
  "sb_mouseDown b = rbind (if \<not> isDisabled (ownerData (sb_button b)) then openMenu b else Inr b) (\<lambda>b'. Inr (RBool True, b'))"

definition sb_insertSpace :: "'v select_button \<Rightarrow> (retval \<times> 'v select_button) result" where
  "sb_insertSpace b = rbind (openMenu b) (\<lambda>b'. Inr (RBool True, b'))"

text \<open>The multiselection button has these methods too; it notes in \<open>_menuOpen\<close> that its menu is open.\<close>

definition multi_openMenu :: "'v select_button \<Rightarrow> 'v select_button result" where
  "multi_openMenu b = rbind (button_goto MouseDownInside (sb_button b)) (\<lambda>c. Inr (b\<lparr>sb_button := c\<rparr>\<lparr>sb_menuOpen := True\<rparr>))"

definition multi_close :: "'v select_button \<Rightarrow> 'v select_button result" where
  "multi_close b = rbind (button_goto Idle (sb_button b)) (\<lambda>c. Inr (b\<lparr>sb_button := c\<rparr>\<lparr>sb_menuOpen := False\<rparr>))"

definition multi_mouseDown :: "'v select_button \<Rightarrow> (retval \<times> 'v select_button) result" where
  "multi_mouseDown b =
     rbind (if \<not> isDisabled (ownerData (sb_button b)) then multi_openMenu b else Inr b) (\<lambda>b'. Inr (RBool True, b'))"

definition multi_insertSpace :: "'v select_button \<Rightarrow> (retval \<times> 'v select_button) result" where
  "multi_insertSpace b = rbind (multi_openMenu b) (\<lambda>b'. Inr (RBool True, b'))"

text \<open>A combo box leaves the space key to its text field and opens the menu from a button of its own.\<close>

definition combo_insertSpace :: "'v select_button \<Rightarrow> (retval \<times> 'v select_button) result" where
  "combo_insertSpace b = Inr (RBool False, b)"

definition combo_action :: "'v select_button \<Rightarrow> 'v select_button result" where
  "combo_action b = openMenu b"

section \<open>What is found\<close>

text \<open>
  The items with a value, in the order of the menu; the search does not look below an item that
  has the value.
\<close>

fun matching :: "'v option \<Rightarrow> 'v select_item list \<Rightarrow> 'v select_item list" where
  "matching value [] = []"
| "matching value (SelectItem t x sub # items) =
     (if x = value then [SelectItem t x sub] else matching value sub) @ matching value items"

fun all_items :: "'v select_item list \<Rightarrow> 'v select_item list" where
  "all_items [] = []"
| "all_items (SelectItem t x sub # items) = SelectItem t x sub # all_items sub @ all_items items"

definition last_of :: "'a option \<Rightarrow> 'a list \<Rightarrow> 'a option" where
  "last_of d xs = (if xs = [] then d else Some (last xs))"

lemma find_items_last: "find_items v foundItem items = last_of foundItem (matching v items)"
proof (induction v foundItem items rule: find_items.induct)
  case (2 v foundItem t x sub items)
  show ?case
  proof (cases "x = v")
    case True
    then show ?thesis using 2 by (auto simp: last_of_def)
  next
    case False
    then show ?thesis using 2 by (cases "sub = []") (auto simp: last_of_def)
  qed
qed (simp add: last_of_def)

lemma matching_iff: "matching v items \<noteq> [] \<longleftrightarrow> (\<exists>i \<in> set (all_items items). svalue i = v)"
  by (induction v items rule: matching.induct) auto

lemma matching_sound: "i \<in> set (matching v items) \<Longrightarrow> i \<in> set (all_items items) \<and> svalue i = v"
  by (induction v items rule: matching.induct) (auto split: if_splits)

text \<open>
  \<open>_findItem\<close> finds an item with the value wherever one is in the menu or its submenus, and
  nothing otherwise; of several items with the value it returns the last one.
\<close>

theorem findItem_is_last_match:
  "findItem v items = last_of None (matching v items)
    \<and> (findItem v items = None \<longleftrightarrow> v \<notin> svalue ` set (all_items items))"
  using matching_iff [of v items] by (auto simp: findItem_def find_items_last last_of_def)

lemma findItem_found: "findItem v items = Some i \<Longrightarrow> i \<in> set (all_items items) \<and> svalue i = v"
  using matching_sound [of "last (matching v items)" v items] last_in_set [of "matching v items"]
  by (auto simp: findItem_def find_items_last last_of_def split: if_splits)

lemma findItem_None: "findItem v items = None \<longleftrightarrow> (\<forall>i \<in> set (all_items items). svalue i \<noteq> v)"
  using matching_iff [of v items] by (auto simp: findItem_def find_items_last last_of_def)

lemma top_in_all: "set items \<subseteq> set (all_items items)"
  by (induction items rule: all_items.induct) auto

text \<open>
  A select button always stands for one of its items: after its items have changed to a
  non-empty list, an item has the button's valuealue, and the value stays when an item already had it.
\<close>

theorem value_belongs_to_items:
  assumes "items \<noteq> []"
  shows "\<exists>i \<in> set (all_items items). sb_findItem (set_items (Some items) b) = Some i
      \<and> svalue i = sb_value (set_items (Some items) b)
      \<and> (sb_value (set_items (Some items) b) = sb_value b \<or> findItem (sb_value b) items = None)"
proof (cases "findItem (sb_value b) items")
  case None
  obtain i rest where items: "items = i # rest" using assms by (cases items) auto
  have v: "set_items (Some items) b = b\<lparr>sb_items := Some items, sb_value := svalue i\<rparr>"
    using None items by (simp add: set_items_def itemsDidChange_def sb_findItem_def)
  have "i \<in> set (all_items items)" using items top_in_all [of items] by auto
  then obtain j where j: "findItem (svalue i) items = Some j" using findItem_None [of "svalue i" items] by fastforce
  then show ?thesis using findItem_found [OF j] v None by (simp add: sb_findItem_def)
next
  case (Some j)
  have "set_items (Some items) b = b\<lparr>sb_items := Some items\<rparr>"
    using Some assms by (cases items) (simp_all add: set_items_def itemsDidChange_def sb_findItem_def)
  then show ?thesis using findItem_found [OF Some] Some by (simp add: sb_findItem_def)
qed

definition sizes :: "nat select_item list" where
  "sizes = [SelectItem ''Small'' (Some 1) [], SelectItem ''More'' None [SelectItem ''Large'' (Some 3) [], SelectItem ''Grand'' (Some 3) []]]"

definition size_button :: "nat select_button" where
  "size_button = \<lparr>sb_button = \<lparr>currentFlameState = Some Idle, ownerData = \<lparr>isHovered = False, isActive = False, isSelected = False,
       isDisabled = True, isSticky = False, isDestroyed = False, fired = 0, timers = []\<rparr>\<rparr>,
     sb_items = None, sb_value = Some 7, sb_menuOpen = False\<rparr>"

theorem value_belongs_to_items_witness:
  "sizes \<noteq> [] \<and> (\<exists>i \<in> set (all_items sizes). sb_findItem (set_items (Some sizes) size_button) = Some i)
    \<and> sb_value (set_items (Some sizes) size_button) = Some 1"
proof -
  have ne: "sizes \<noteq> []" by (simp add: sizes_def)
  have "sb_value (set_items (Some sizes) size_button) = Some 1"
    by (simp add: set_items_def itemsDidChange_def sb_findItem_def findItem_def sizes_def size_button_def)
  then show ?thesis using value_belongs_to_items [OF ne, of size_button] ne by blast
qed

section \<open>Opening and closing\<close>

lemma goto_inside: "\<exists>c'. button_goto MouseDownInside c = Inr c' \<and> currentFlameState c' = Some MouseDownInside"
proof (cases "currentFlameState c")
  case None
  then show ?thesis by (simp add: gotoFlameState_def exit_current_def run_hook_def mouseDownInside_enterState_def)
next
  case (Some s)
  then show ?thesis
    by (cases s) (auto simp: gotoFlameState_def exit_current_def run_hook_def hover_exitState_def mouseDownInside_enterState_def)
qed

text \<open>
  Opening and closing the menu bring the button back: from any state of the button the menu opens with the
  button pressed, and closing it leaves the button idle and released.
\<close>

theorem menu_closes_to_idle:
  "\<exists>b1 b2. openMenu b = Inr b1 \<and> sb_menuOpen b1 \<and> currentFlameState (sb_button b1) = Some MouseDownInside
    \<and> closeMenu b1 = Inr b2 \<and> \<not> sb_menuOpen b2 \<and> currentFlameState (sb_button b2) = Some Idle
    \<and> \<not> isActive (ownerData (sb_button b2)) \<and> sb_value b2 = sb_value b"
proof -
  obtain c where c: "button_goto MouseDownInside (sb_button b) = Inr c" "currentFlameState c = Some MouseDownInside"
    using goto_inside by blast
  have "button_goto Idle c = Inr (upd (isActive_update (\<lambda>_. False)) c\<lparr>currentFlameState := Some Idle\<rparr>)"
    using c(2) by (simp add: gotoFlameState_def exit_current_def run_hook_def mouseDownInside_exitState_def)
  then show ?thesis using c by (simp add: openMenu_def closeMenu_def)
qed

text \<open>The multiselection button behaves like the select button.\<close>

lemma multi_agrees:
  "multi_openMenu b = openMenu b" "multi_close b = closeMenu b" "multi_mouseDown b = sb_mouseDown b"
  "multi_insertSpace b = sb_insertSpace b"
  by (simp_all add: multi_openMenu_def multi_close_def multi_mouseDown_def multi_insertSpace_def openMenu_def closeMenu_def
      sb_mouseDown_def sb_insertSpace_def)

text \<open>
  A disabled select or multiselection button ignores the mouse, but the space key opens its menu.
\<close>

theorem space_opens_disabled_button:
  "isDisabled (ownerData (sb_button size_button)) \<and> sb_mouseDown size_button = Inr (RBool True, size_button)
    \<and> (\<exists>b. sb_insertSpace size_button = Inr (RBool True, b) \<and> multi_insertSpace size_button = Inr (RBool True, b) \<and> sb_menuOpen b)"
  using goto_inside [of "sb_button size_button"]
  by (auto simp: multi_agrees sb_mouseDown_def sb_insertSpace_def openMenu_def size_button_def)

end
