(* ===== verification/Menu_Scroll.thy ===== *)
theory Menu_Scroll
  imports Flame_Prelude
begin

text \<open>
  Scrolling a menu that does not fit the window (\<open>views/menu_scroll_view.js\<close>): an arrow at each end,
  and while the mouse is on an arrow a timer that moves the list by ten pixels at a time.
\<close>

section \<open>State\<close>

datatype arrow = UpArrow | DownArrow

datatype position = Top | Middle | Bottom

text \<open>
  \<open>scrollTop\<close> is the scroll offset of the view port's element, \<open>listHeight\<close> the height of the scrolled
  view.  \<open>pending\<close> are the timers that were started and have neither fired nor been cancelled;
  \<open>timer\<close> is the field \<open>_timer\<close>, the last one started.
\<close>

record menu_scroll =
  needScrolling :: bool
  scrollDirection :: int
  scrollPosition :: position
  upShown :: bool
  downShown :: bool
  scrollTop :: int
  viewPortHeight :: int
  listHeight :: int
  pending :: "nat list"
  timer :: "nat option"
  nextTimer :: nat

definition isShown :: "arrow \<Rightarrow> menu_scroll \<Rightarrow> bool" where
  "isShown a m = (case a of UpArrow \<Rightarrow> upShown m | DownArrow \<Rightarrow> downShown m)"

definition scrollPositionDidChange :: "menu_scroll \<Rightarrow> menu_scroll" where
  "scrollPositionDidChange m = m\<lparr>upShown := needScrolling m \<and> scrollPosition m \<noteq> Top,
     downShown := needScrolling m \<and> scrollPosition m \<noteq> Bottom\<rparr>"

text \<open>Setting an observed property runs the observer when the value changes.\<close>

definition set_scrollPosition :: "position \<Rightarrow> menu_scroll \<Rightarrow> menu_scroll" where
  "set_scrollPosition p m = (if scrollPosition m = p then m else scrollPositionDidChange (m\<lparr>scrollPosition := p\<rparr>))"

definition set_needScrolling :: "bool \<Rightarrow> menu_scroll \<Rightarrow> menu_scroll" where
  "set_needScrolling b m = (if needScrolling m = b then m else scrollPositionDidChange (m\<lparr>needScrolling := b\<rparr>))"

text \<open>\<open>_recalculateSizes\<close>: the view port gets the height of the menu less its paddings and borders.\<close>

definition recalculateSizes :: "int \<Rightarrow> menu_scroll \<Rightarrow> menu_scroll" where
  "recalculateSizes height m =
     (if height > 0 then (let paddingAndBorders = 5 + 5 + 1 + 1 in m\<lparr>viewPortHeight := height - paddingAndBorders\<rparr>) else m)"

text \<open>The browser keeps a scroll offset within the scrolled content.\<close>

definition scrollTo :: "int \<Rightarrow> menu_scroll \<Rightarrow> menu_scroll" where
  "scrollTo pos m = m\<lparr>scrollTop := max 0 (min pos (max 0 (listHeight m - viewPortHeight m)))\<rparr>"

definition stopScrolling :: "menu_scroll \<Rightarrow> menu_scroll" where
  "stopScrolling m = (let m1 = m\<lparr>scrollDirection := 0\<rparr>
     in case timer m of None \<Rightarrow> m1 | Some t \<Rightarrow> m1\<lparr>pending := removeObject t (pending m)\<rparr>)"

definition start_timer :: "menu_scroll \<Rightarrow> menu_scroll" where
  "start_timer m = m\<lparr>pending := pending m @ [nextTimer m], timer := Some (nextTimer m), nextTimer := Suc (nextTimer m)\<rparr>"

definition scrollSize :: int where
  "scrollSize = 10"

definition scroll_delta :: "menu_scroll \<Rightarrow> int \<times> bool" where
  "scroll_delta m =
     (if scrollDirection m = -1 then
        (if scrollSize > scrollTop m then (scrollTop m, False) else (scrollSize, True))
      else if scrollDirection m = 1 then
        (let shownBottom = scrollTop m + viewPortHeight m
         in if shownBottom + scrollSize \<ge> listHeight m then (listHeight m - shownBottom, False) else (scrollSize, True))
      else (scrollSize, True))"

definition scroll :: "menu_scroll \<Rightarrow> menu_scroll" where
  "scroll m =
     (let (delta, continueScrolling) = scroll_delta m;
          m1 = scrollTo (scrollTop m + delta * scrollDirection m) m
      in if \<not> continueScrolling
         then set_scrollPosition (if scrollDirection m = 1 then Bottom else if scrollDirection m = -1 then Top else scrollPosition m)
                (stopScrolling m1)
         else set_scrollPosition Middle (start_timer m1))"

definition startScrolling :: "int \<Rightarrow> menu_scroll \<Rightarrow> menu_scroll" where
  "startScrolling d m = scroll (m\<lparr>scrollDirection := d\<rparr>)"

definition direction :: "arrow \<Rightarrow> int" where
  "direction a = (case a of UpArrow \<Rightarrow> -1 | DownArrow \<Rightarrow> 1)"

definition arrow_mouseEnter :: "arrow \<Rightarrow> menu_scroll \<Rightarrow> bool \<times> menu_scroll" where
  "arrow_mouseEnter a m = (if isShown a m then (True, startScrolling (direction a) m) else (False, m))"

definition arrow_mouseLeave :: "arrow \<Rightarrow> menu_scroll \<Rightarrow> bool \<times> menu_scroll" where
  "arrow_mouseLeave a m = (if isShown a m then (True, stopScrolling m) else (False, m))"

text \<open>A pending timer fires.\<close>

definition fire_timer :: "nat \<Rightarrow> menu_scroll \<Rightarrow> menu_scroll" where
  "fire_timer t m = scroll (m\<lparr>pending := removeObject t (pending m)\<rparr>)"

definition new_scroll :: "int \<Rightarrow> int \<Rightarrow> menu_scroll" where
  "new_scroll view list = \<lparr>needScrolling = False, scrollDirection = 0, scrollPosition = Top, upShown = False, downShown = False,
     scrollTop = 0, viewPortHeight = view, listHeight = list, pending = [], timer = None, nextTimer = 0\<rparr>"

section \<open>The mouse and the timers\<close>

text \<open>
  The arrows do not overlap, so the mouse is on one of them or on none; timers fire in any order
  between its moves.
\<close>

inductive scroll_step :: "menu_scroll \<times> arrow option \<Rightarrow> menu_scroll \<times> arrow option \<Rightarrow> bool" where
  enter: "scroll_step (m, None) (snd (arrow_mouseEnter a m), Some a)"
| leave: "scroll_step (m, Some a) (snd (arrow_mouseLeave a m), None)"
| timer: "t \<in> set (pending m) \<Longrightarrow> scroll_step (m, p) (fire_timer t m, p)"

inductive reachable :: "menu_scroll \<Rightarrow> menu_scroll \<times> arrow option \<Rightarrow> bool" for m0 where
  start: "reachable m0 (m0, None)"
| step: "reachable m0 s \<Longrightarrow> scroll_step s s' \<Longrightarrow> reachable m0 s'"

inductive_cases scroll_stepE: "scroll_step s s'"

definition arrows_ok :: "menu_scroll \<Rightarrow> bool" where
  "arrows_ok m \<longleftrightarrow> upShown m = (needScrolling m \<and> scrollPosition m \<noteq> Top)
     \<and> downShown m = (needScrolling m \<and> scrollPosition m \<noteq> Bottom)"

definition place_ok :: "menu_scroll \<Rightarrow> bool" where
  "place_ok m \<longleftrightarrow> viewPortHeight m \<le> listHeight m \<and> 0 \<le> scrollTop m \<and> scrollTop m \<le> listHeight m - viewPortHeight m
     \<and> (scrollPosition m = Top \<longrightarrow> scrollTop m = 0)
     \<and> (scrollPosition m = Bottom \<longrightarrow> scrollTop m = listHeight m - viewPortHeight m)"

text \<open>
  Nothing is pending and the list is at rest, or one timer is pending, for the arrow under the mouse.
\<close>

definition timer_ok :: "menu_scroll \<Rightarrow> arrow option \<Rightarrow> bool" where
  "timer_ok m p \<longleftrightarrow> (pending m = [] \<and> scrollDirection m = 0)
     \<or> (\<exists>t a. pending m = [t] \<and> timer m = Some t \<and> p = Some a \<and> scrollDirection m = direction a
          \<and> needScrolling m \<and> scrollPosition m = Middle)"

definition scroll_ok :: "menu_scroll \<times> arrow option \<Rightarrow> bool" where
  "scroll_ok s \<longleftrightarrow> arrows_ok (fst s) \<and> place_ok (fst s) \<and> timer_ok (fst s) (snd s)"

lemmas scroll_defs = scroll_def scroll_delta_def scrollTo_def scrollSize_def start_timer_def stopScrolling_def
  set_scrollPosition_def scrollPositionDidChange_def

text \<open>One move: from no pending timer, in the direction of an arrow.\<close>

lemma scroll_once:
  assumes "arrows_ok m" and "place_ok m" and "pending m = []" and "scrollDirection m = direction a" and "needScrolling m"
  shows "scroll_ok (scroll m, Some a)"
proof (cases a)
  case UpArrow
  then show ?thesis using assms
    by (auto simp: scroll_ok_def arrows_ok_def place_ok_def timer_ok_def direction_def scroll_defs Let_def split: option.splits)
next
  case DownArrow
  then show ?thesis using assms
    by (auto simp: scroll_ok_def arrows_ok_def place_ok_def timer_ok_def direction_def scroll_defs Let_def split: option.splits)
qed

lemma enter_ok: "scroll_ok (m, None) \<Longrightarrow> scroll_ok (snd (arrow_mouseEnter a m), Some a)"
proof (cases "isShown a m")
  case True
  assume ok: "scroll_ok (m, None)"
  have "needScrolling m" using True ok by (cases a) (auto simp: scroll_ok_def arrows_ok_def isShown_def)
  moreover have "arrows_ok (m\<lparr>scrollDirection := direction a\<rparr>)" "place_ok (m\<lparr>scrollDirection := direction a\<rparr>)" "pending m = []"
    using ok by (auto simp: scroll_ok_def arrows_ok_def place_ok_def timer_ok_def)
  ultimately show ?thesis using scroll_once [of "m\<lparr>scrollDirection := direction a\<rparr>" a] True
    by (simp add: arrow_mouseEnter_def startScrolling_def)
next
  case False
  assume "scroll_ok (m, None)"
  then show ?thesis using False by (auto simp: arrow_mouseEnter_def scroll_ok_def timer_ok_def)
qed

lemma leave_ok: "scroll_ok (m, Some a) \<Longrightarrow> scroll_ok (snd (arrow_mouseLeave a m), None)"
  by (cases a) (auto simp: arrow_mouseLeave_def scroll_ok_def arrows_ok_def place_ok_def timer_ok_def isShown_def
      stopScrolling_def removeObject_def Let_def split: option.splits)

lemma timer_fires_ok:
  assumes "scroll_ok (m, p)" and "t \<in> set (pending m)"
  shows "scroll_ok (fire_timer t m, p)"
proof -
  obtain a where a: "pending m = [t]" "p = Some a" "scrollDirection m = direction a" "needScrolling m"
    using assms by (auto simp: scroll_ok_def timer_ok_def)
  have "removeObject t (pending m) = []" using a(1) by (simp add: removeObject_def)
  then show ?thesis using scroll_once [of "m\<lparr>pending := []\<rparr>" a] a assms(1)
    by (simp add: fire_timer_def scroll_ok_def arrows_ok_def place_ok_def)
qed

lemma step_ok: "scroll_step s s' \<Longrightarrow> scroll_ok s \<Longrightarrow> scroll_ok s'"
  by (induction rule: scroll_step.induct) (simp_all add: enter_ok leave_ok timer_fires_ok)

lemma reachable_ok: "reachable m0 s \<Longrightarrow> scroll_ok (m0, None) \<Longrightarrow> scroll_ok s"
  by (induction rule: reachable.induct) (auto intro: step_ok)

lemma start_ok: "view \<le> list \<Longrightarrow> scroll_ok (set_needScrolling need (new_scroll view list), None)"
  by (auto simp: scroll_ok_def arrows_ok_def place_ok_def timer_ok_def set_needScrolling_def
      scrollPositionDidChange_def new_scroll_def)

text \<open>
  C25: whatever the mouse and the timers do, the list stays within the view port, at most one timer
  runs and only while the mouse is on an arrow, and an arrow is shown exactly while the list can
  need it: not at the top for the upper one, not at the bottom for the lower one.
\<close>

theorem menu_scrolling_invariant:
  assumes "view \<le> list" and "reachable (set_needScrolling need (new_scroll view list)) (m, p)"
  shows "scroll_ok (m, p) \<and> length (pending m) \<le> 1"
  using reachable_ok [OF assms(2) start_ok [OF assms(1)]] by (auto simp: scroll_ok_def timer_ok_def)

theorem menu_scrolling_invariant_witness:
  "\<exists>m. reachable (set_needScrolling True (new_scroll 100 105)) (m, Some DownArrow) \<and> scroll_ok (m, Some DownArrow) \<and> scrollTop m = 5"
proof -
  let ?m = "set_needScrolling True (new_scroll 100 105)"
  let ?s = "snd (arrow_mouseEnter DownArrow ?m)"
  have r: "reachable ?m (?s, Some DownArrow)"
    by (rule reachable.step [OF reachable.start]) (rule scroll_step.enter)
  have "(100 :: int) \<le> 105" by simp
  from menu_scrolling_invariant [OF this r] have "scroll_ok (?s, Some DownArrow)" by simp
  moreover have "scrollTop ?s = 5"
    by (simp add: arrow_mouseEnter_def isShown_def startScrolling_def direction_def scroll_defs set_needScrolling_def new_scroll_def)
  ultimately show ?thesis using r by blast
qed


section \<open>Scrolling ends at the edge\<close>

text \<open>How far an arrow can still scroll, and the timer firing.\<close>

definition distance_left :: "arrow \<Rightarrow> menu_scroll \<Rightarrow> int" where
  "distance_left a m = (case a of UpArrow \<Rightarrow> scrollTop m | DownArrow \<Rightarrow> listHeight m - viewPortHeight m - scrollTop m)"

definition edge :: "arrow \<Rightarrow> position" where
  "edge a = (case a of UpArrow \<Rightarrow> Top | DownArrow \<Rightarrow> Bottom)"

definition tick :: "menu_scroll \<Rightarrow> menu_scroll" where
  "tick m = (case pending m of [] \<Rightarrow> m | t # _ \<Rightarrow> fire_timer t m)"

lemma tick_once:
  assumes "scroll_ok (m, Some a)" and "pending m \<noteq> []"
  shows "scroll_ok (tick m, Some a)"
    and "pending (tick m) = [] \<and> scrollPosition (tick m) = edge a \<and> distance_left a (tick m) = 0
      \<or> pending (tick m) \<noteq> [] \<and> 10 \<le> distance_left a m \<and> distance_left a (tick m) = distance_left a m - 10"
proof -
  obtain t where t: "pending m = [t]" "timer m = Some t" "scrollDirection m = direction a" "needScrolling m"
    using assms by (auto simp: scroll_ok_def timer_ok_def)
  then show "scroll_ok (tick m, Some a)" using timer_fires_ok [OF assms(1), of t] by (simp add: tick_def)
  have pl: "place_ok m" using assms(1) by (simp add: scroll_ok_def)
  show "pending (tick m) = [] \<and> scrollPosition (tick m) = edge a \<and> distance_left a (tick m) = 0
      \<or> pending (tick m) \<noteq> [] \<and> 10 \<le> distance_left a m \<and> distance_left a (tick m) = distance_left a m - 10"
    using t pl by (cases a) (auto simp: tick_def fire_timer_def distance_left_def edge_def direction_def place_ok_def
        removeObject_def scroll_defs Let_def)
qed

lemma ticks_reach_edge:
  assumes "scroll_ok (m, Some a)" and "pending m \<noteq> []" and "distance_left a m < 10 * int n"
  shows "\<exists>k \<le> n. pending ((tick ^^ k) m) = [] \<and> scrollPosition ((tick ^^ k) m) = edge a \<and> distance_left a ((tick ^^ k) m) = 0"
  using assms
proof (induction n arbitrary: m)
  case 0
  then show ?case by (cases a) (auto simp: scroll_ok_def place_ok_def distance_left_def)
next
  case (Suc n)
  from tick_once(2) [OF Suc.prems(1,2)] show ?case
  proof
    assume "pending (tick m) = [] \<and> scrollPosition (tick m) = edge a \<and> distance_left a (tick m) = 0"
    then show ?thesis by (intro exI [of _ 1]) simp
  next
    assume t: "pending (tick m) \<noteq> [] \<and> 10 \<le> distance_left a m \<and> distance_left a (tick m) = distance_left a m - 10"
    then have "distance_left a (tick m) < 10 * int n" using Suc.prems(3) by simp
    then obtain k where "k \<le> n" "pending ((tick ^^ k) (tick m)) = []" "scrollPosition ((tick ^^ k) (tick m)) = edge a"
        "distance_left a ((tick ^^ k) (tick m)) = 0"
      using Suc.IH [OF tick_once(1) [OF Suc.prems(1,2)]] t by blast
    then show ?thesis by (intro exI [of _ "Suc k"]) (simp add: funpow_swap1)
  qed
qed

text \<open>
  C26: while the mouse stays on an arrow, scrolling reaches the edge and ends: after at most one timer
  for every ten pixels left, and one more, the list is at the top or the bottom, the position says
  so, and no timer is pending.
\<close>

theorem scrolling_reaches_edge:
  assumes "view \<le> list" and "reachable (set_needScrolling need (new_scroll view list)) (m, Some a)" and "pending m \<noteq> []"
  shows "\<exists>k \<le> Suc (nat (distance_left a m div 10)).
    pending ((tick ^^ k) m) = [] \<and> scrollPosition ((tick ^^ k) m) = edge a \<and> distance_left a ((tick ^^ k) m) = 0"
proof -
  have ok: "scroll_ok (m, Some a)" by (rule reachable_ok [OF assms(2) start_ok [OF assms(1)]])
  then have "0 \<le> distance_left a m" by (cases a) (auto simp: scroll_ok_def place_ok_def distance_left_def)
  then have "int (nat (distance_left a m div 10)) = distance_left a m div 10" by simp
  moreover have "d < 10 * (d div 10) + 10" for d :: int by presburger
  ultimately have "distance_left a m < 10 * int (Suc (nat (distance_left a m div 10)))"
    by (simp only: of_nat_Suc) (simp add: distrib_left add.commute)
  from ticks_reach_edge [OF ok assms(3) this] show ?thesis .
qed

theorem scrolling_reaches_edge_witness:
  "\<exists>k \<le> 3. \<exists>m. reachable (set_needScrolling True (new_scroll 100 135)) (m, Some DownArrow)
    \<and> pending ((tick ^^ k) m) = [] \<and> scrollPosition ((tick ^^ k) m) = Bottom"
proof -
  let ?m = "set_needScrolling True (new_scroll 100 135)"
  let ?s = "snd (arrow_mouseEnter DownArrow ?m)"
  have r: "reachable ?m (?s, Some DownArrow)"
    by (rule reachable.step [OF reachable.start]) (rule scroll_step.enter)
  have ev: "distance_left DownArrow ?s = 25" "pending ?s \<noteq> []"
    by (simp_all add: distance_left_def arrow_mouseEnter_def isShown_def startScrolling_def direction_def scroll_defs
        set_needScrolling_def new_scroll_def)
  have le: "(100 :: int) \<le> 135" by simp
  obtain k where k: "k \<le> Suc (nat (25 div 10))" "pending ((tick ^^ k) ?s) = []" "scrollPosition ((tick ^^ k) ?s) = edge DownArrow"
    using scrolling_reaches_edge [OF le r ev(2)] unfolding ev(1) by blast
  have "Suc (nat (25 div 10)) = 3" "edge DownArrow = Bottom" by (simp_all add: edge_def)
  then show ?thesis using k r by metis
qed

text \<open>
  Scrolling up by exactly the distance to the top leaves the position at \<open>middle\<close>: the mouse that
  then leaves the arrow leaves it shown, although there is nothing above.
\<close>

theorem up_arrow_shown_at_top:
  "\<exists>m. scroll_ok (m, None) \<and> scrollTop m = 20
    \<and> (let m' = snd (arrow_mouseLeave UpArrow (tick (snd (arrow_mouseEnter UpArrow m)))) in scrollTop m' = 0 \<and> upShown m')"
  by (rule exI [of _ "(new_scroll 100 200)\<lparr>needScrolling := True, upShown := True, downShown := True, scrollTop := 20, scrollPosition := Middle\<rparr>"])
    (simp add: scroll_ok_def arrows_ok_def place_ok_def timer_ok_def new_scroll_def arrow_mouseEnter_def arrow_mouseLeave_def
      isShown_def startScrolling_def direction_def scroll_defs tick_def fire_timer_def removeObject_def Let_def)

end
