(* ===== verification/Tab_View.thy ===== *)
theory Tab_View
  imports Flame_Prelude
begin

text \<open>
  Tabs (\<open>views/tab_view.js\<close>): a bar with a button for every tab, of which one is shown; the views of
  the tabs are properties of the tab view, turned from classes into views when they are first
  shown, or at once.
\<close>

section \<open>State\<close>

record tab =
  tab_title :: string
  tab_value :: string

text \<open>A property of the tab view that holds the view of a tab: its class, or a view, visible or not.\<close>

datatype tab_content = ViewClass | ViewInstance bool

text \<open>
  \<open>tabBar\<close> are the values of the buttons in the bar, \<open>tab_children\<close> the names of the child views of the
  content view, in their order.
\<close>

record tab_view =
  tv_tabs :: "tab list option"
  previousTabs :: "tab list option"
  nowShowing :: "string option"
  tabBar :: "string list"
  tab_children :: "string list"
  tab_views :: "string \<Rightarrow> tab_content option"
  initializeTabsLazily :: bool

definition shown_name :: "tab_view \<Rightarrow> string option" where
  "shown_name tv = (case nowShowing tv of None \<Rightarrow> None | Some s \<Rightarrow> if s = [] then None else Some s)"

section \<open>Showing a tab\<close>

definition tabWillChange :: "tab_view \<Rightarrow> tab_view result" where
  "tabWillChange tv = (case shown_name tv of
       None \<Rightarrow> Inr tv
     | Some k \<Rightarrow> (case tab_views tv k of
           Some (ViewInstance _) \<Rightarrow> Inr (tv\<lparr>tab_views := (tab_views tv)(k \<mapsto> ViewInstance False)\<rparr>)
         | _ \<Rightarrow> Inl TypeError))"

definition tabDidChange :: "tab_view \<Rightarrow> tab_view result" where
  "tabDidChange tv = (case shown_name tv of
       None \<Rightarrow> Inr tv
     | Some k \<Rightarrow> (case tab_views tv k of
           None \<Rightarrow> Inl (AssertionFailed ''A class or a view is needed to create a child view'')
         | Some ViewClass \<Rightarrow> Inr (tv\<lparr>tab_children := tab_children tv @ [k], tab_views := (tab_views tv)(k \<mapsto> ViewInstance True)\<rparr>)
         | Some (ViewInstance _) \<Rightarrow> Inr (tv\<lparr>tab_views := (tab_views tv)(k \<mapsto> ViewInstance True)\<rparr>)))"

definition set_nowShowing :: "string option \<Rightarrow> tab_view \<Rightarrow> tab_view result" where
  "set_nowShowing v tv = (if nowShowing tv = v then Inr tv
     else rbind (tabWillChange tv) (\<lambda>t1. tabDidChange (t1\<lparr>nowShowing := v\<rparr>)))"

text \<open>The button of a tab: it is selected while its tab is shown, and its action shows the tab.\<close>

definition button_isSelected :: "string \<Rightarrow> tab_view \<Rightarrow> bool" where
  "button_isSelected v tv \<longleftrightarrow> nowShowing tv = Some v"

definition button_action :: "string \<Rightarrow> tab_view \<Rightarrow> tab_view result" where
  "button_action v = set_nowShowing (Some v)"

section \<open>Changing the tabs\<close>

definition insert_button :: "nat \<Rightarrow> string \<Rightarrow> tab_view \<Rightarrow> tab_view result" where
  "insert_button i v tv = (if i \<le> length (tabBar tv) then Inr (tv\<lparr>tabBar := insertAt i v (tabBar tv)\<rparr>)
     else Inl (ThrownError ''Index out of range''))"

definition create_view :: "string \<Rightarrow> tab_view \<Rightarrow> tab_view result" where
  "create_view v tv = (case tab_views tv v of
       None \<Rightarrow> Inl (AssertionFailed ''View for tab not defined!'')
     | Some _ \<Rightarrow> Inr (if \<not> initializeTabsLazily tv
         then tv\<lparr>tab_views := (tab_views tv)(v \<mapsto> ViewInstance False), tab_children := tab_children tv @ [v]\<rparr> else tv))"

definition show_first :: "tab_view \<Rightarrow> tab_view result" where
  "show_first tv = (case nowShowing tv of
       Some _ \<Rightarrow> Inr tv
     | None \<Rightarrow> (case tv_tabs tv of Some (t # _) \<Rightarrow> set_nowShowing (Some (tab_value t)) tv | _ \<Rightarrow> Inl TypeError))"

definition addTab :: "tab \<Rightarrow> nat \<Rightarrow> tab_view \<Rightarrow> tab_view result" where
  "addTab t i tv = rbind (insert_button i (tab_value t) tv) (\<lambda>t1. rbind (create_view (tab_value t) t1) show_first)"

definition has_value :: "tab list \<Rightarrow> tab \<Rightarrow> bool" where
  "has_value ts t \<longleftrightarrow> tab_value t \<in> tab_value ` set ts"

definition remove_old :: "tab list \<Rightarrow> tab list \<Rightarrow> string list \<Rightarrow> string list" where
  "remove_old ts previous bar = fold (\<lambda>t bar. if has_value ts t then bar else remove1 (tab_value t) bar) previous bar"

fun add_new :: "tab list option \<Rightarrow> nat \<Rightarrow> tab list \<Rightarrow> tab_view \<Rightarrow> tab_view result" where
  "add_new previous i [] tv = Inr tv"
| "add_new previous i (t # ts) tv =
     rbind (if (case previous of None \<Rightarrow> True | Some ps \<Rightarrow> \<not> has_value ps t) then addTab t i tv else Inr tv)
       (add_new previous (Suc i) ts)"

definition tabsWillChange :: "tab_view \<Rightarrow> tab_view" where
  "tabsWillChange tv = (case tv_tabs tv of None \<Rightarrow> tv | Some ts \<Rightarrow> tv\<lparr>previousTabs := Some ts\<rparr>)"

definition tabsDidChange :: "tab_view \<Rightarrow> tab_view result" where
  "tabsDidChange tv = (case tv_tabs tv of
       None \<Rightarrow> Inr tv
     | Some ts \<Rightarrow> add_new (previousTabs tv) 0 ts
         (case previousTabs tv of None \<Rightarrow> tv | Some ps \<Rightarrow> tv\<lparr>tabBar := remove_old ts ps (tabBar tv)\<rparr>))"

definition set_tabs :: "tab list option \<Rightarrow> tab_view \<Rightarrow> tab_view result" where
  "set_tabs ts tv = tabsDidChange ((tabsWillChange tv)\<lparr>tv_tabs := ts\<rparr>)"

text \<open>A new tab view, with its tabs and the classes of their views.\<close>

definition init_tabs :: "tab_view \<Rightarrow> tab_view result" where
  "init_tabs tv = rbind (if tv_tabs tv \<noteq> None then tabsDidChange tv else Inr tv) tabDidChange"

definition new_tabs :: "bool \<Rightarrow> string set \<Rightarrow> tab list option \<Rightarrow> tab_view" where
  "new_tabs lazily names ts = \<lparr>tv_tabs = ts, previousTabs = None, nowShowing = None, tabBar = [], tab_children = [],
     tab_views = (\<lambda>k. if k \<in> names then Some ViewClass else None), initializeTabsLazily = lazily\<rparr>"

section \<open>The shown tab is the visible one\<close>

text \<open>
  Exactly the shown tab is visible, every view that was created is a child of the content view, once,
  and the shown tab has a view.
\<close>

definition tabs_ok :: "tab_view \<Rightarrow> bool" where
  "tabs_ok tv \<longleftrightarrow> initializeTabsLazily tv
     \<and> (\<forall>k b. tab_views tv k = Some (ViewInstance b) \<longrightarrow> (b \<longleftrightarrow> shown_name tv = Some k))
     \<and> (\<forall>k. shown_name tv = Some k \<longrightarrow> (\<exists>b. tab_views tv k = Some (ViewInstance b)))
     \<and> distinct (tab_children tv) \<and> (\<forall>k. k \<in> set (tab_children tv) \<longleftrightarrow> (\<exists>b. tab_views tv k = Some (ViewInstance b)))"

definition names_of :: "tab_view \<Rightarrow> string set" where
  "names_of tv = {k. tab_views tv k \<noteq> None}"

text \<open>Showing a tab leaves the tabs, the bar and the names of the views.\<close>

definition same_tabs :: "tab_view \<Rightarrow> tab_view \<Rightarrow> bool" where
  "same_tabs tv tv' \<longleftrightarrow> names_of tv' = names_of tv \<and> tabBar tv' = tabBar tv \<and> tv_tabs tv' = tv_tabs tv \<and> previousTabs tv' = previousTabs tv"

definition all_hidden :: "tab_view \<Rightarrow> bool" where
  "all_hidden tv \<longleftrightarrow> initializeTabsLazily tv \<and> (\<forall>k. tab_views tv k \<noteq> Some (ViewInstance True))
     \<and> distinct (tab_children tv) \<and> (\<forall>k. k \<in> set (tab_children tv) \<longleftrightarrow> (\<exists>b. tab_views tv k = Some (ViewInstance b)))"

lemma tabWillChange_ok:
  assumes "tabs_ok tv"
  shows "\<exists>t1. tabWillChange tv = Inr t1 \<and> all_hidden t1 \<and> same_tabs tv t1"
proof (cases "shown_name tv")
  case None
  then show ?thesis using assms by (auto simp: tabWillChange_def tabs_ok_def all_hidden_def same_tabs_def)
next
  case (Some j)
  then obtain b where b: "tab_views tv j = Some (ViewInstance b)" using assms by (auto simp: tabs_ok_def)
  let ?t = "tv\<lparr>tab_views := (tab_views tv)(j \<mapsto> ViewInstance False)\<rparr>"
  have "all_hidden ?t" using assms Some b by (auto simp: tabs_ok_def all_hidden_def)
  moreover have "same_tabs tv ?t" using b by (auto simp: same_tabs_def names_of_def)
  moreover have "tabWillChange tv = Inr ?t" using Some b by (simp add: tabWillChange_def)
  ultimately show ?thesis by blast
qed

lemma tabDidChange_ok:
  assumes "all_hidden tv" and "nowShowing tv = Some k" and "k \<in> names_of tv"
  shows "\<exists>t2. tabDidChange tv = Inr t2 \<and> tabs_ok t2 \<and> same_tabs tv t2 \<and> nowShowing t2 = Some k"
proof (cases "k = []")
  case True
  then have "shown_name tv = None" using assms(2) by (simp add: shown_name_def)
  moreover have "tabs_ok tv" using assms calculation by (auto simp: tabs_ok_def all_hidden_def)
  ultimately show ?thesis using assms(2) by (simp add: tabDidChange_def same_tabs_def)
next
  case False
  then have s: "shown_name tv = Some k" using assms(2) by (simp add: shown_name_def)
  obtain c where c: "tab_views tv k = Some c" using assms(3) by (auto simp: names_of_def)
  define t2 where "t2 = (if c = ViewClass
    then tv\<lparr>tab_children := tab_children tv @ [k], tab_views := (tab_views tv)(k \<mapsto> ViewInstance True)\<rparr>
    else tv\<lparr>tab_views := (tab_views tv)(k \<mapsto> ViewInstance True)\<rparr>)"
  have "tabDidChange tv = Inr t2" using s c by (cases c) (simp_all add: tabDidChange_def t2_def)
  moreover have s2: "shown_name t2 = Some k" using s by (simp add: t2_def shown_name_def)
  have "tabs_ok t2" using assms(1) c unfolding tabs_ok_def s2
    by (cases c) (auto simp: t2_def all_hidden_def)
  moreover have "same_tabs tv t2" using c by (auto simp: same_tabs_def names_of_def t2_def)
  ultimately show ?thesis using assms(2) by (auto simp: t2_def)
qed

lemma set_nowShowing_ok:
  assumes "tabs_ok tv" and "k \<in> names_of tv"
  shows "\<exists>tv'. set_nowShowing (Some k) tv = Inr tv' \<and> tabs_ok tv' \<and> same_tabs tv tv' \<and> nowShowing tv' = Some k"
proof (cases "nowShowing tv = Some k")
  case True
  then show ?thesis using assms(1) by (simp add: set_nowShowing_def same_tabs_def)
next
  case False
  obtain t1 where t1: "tabWillChange tv = Inr t1" "all_hidden t1" "same_tabs tv t1" using tabWillChange_ok [OF assms(1)] by blast
  have "all_hidden (t1\<lparr>nowShowing := Some k\<rparr>)" "same_tabs tv (t1\<lparr>nowShowing := Some k\<rparr>)"
    using t1(2,3) by (simp_all add: all_hidden_def same_tabs_def names_of_def)
  then show ?thesis using tabDidChange_ok [of "t1\<lparr>nowShowing := Some k\<rparr>" k] assms(2) False t1(1)
    by (auto simp: set_nowShowing_def same_tabs_def)
qed


section \<open>The bar follows the tabs\<close>

lemma addTab_ok:
  assumes "tabs_ok tv" and "tv_tabs tv = Some (t0 # ts)" and "tab_value ` set (t0 # ts) \<subseteq> names_of tv"
    and "tab_value t \<in> names_of tv" and "i \<le> length (tabBar tv)"
  shows "\<exists>tv'. addTab t i tv = Inr tv' \<and> tabs_ok tv' \<and> same_tabs (tv\<lparr>tabBar := insertAt i (tab_value t) (tabBar tv)\<rparr>) tv'"
proof -
  let ?t1 = "tv\<lparr>tabBar := insertAt i (tab_value t) (tabBar tv)\<rparr>"
  have ok: "tabs_ok ?t1" using assms(1) by (simp add: tabs_ok_def shown_name_def)
  have "create_view (tab_value t) ?t1 = Inr ?t1"
    using assms(1,4) by (auto simp: create_view_def names_of_def tabs_ok_def)
  then have add: "addTab t i tv = show_first ?t1" using assms(5) by (simp add: addTab_def insert_button_def)
  show ?thesis
  proof (cases "nowShowing tv")
    case None
    have "tab_value t0 \<in> names_of ?t1" using assms(3) by (simp add: names_of_def)
    then show ?thesis using set_nowShowing_ok [OF ok] None assms(2) add by (auto simp: show_first_def)
  next
    case (Some s)
    then show ?thesis using ok add by (simp add: show_first_def same_tabs_def)
  qed
qed

definition old_values :: "tab list option \<Rightarrow> string set" where
  "old_values previous = (case previous of None \<Rightarrow> {} | Some ps \<Rightarrow> tab_value ` set ps)"

lemma add_new_ok:
  assumes "tabs_ok tv" and "tv_tabs tv = Some (done @ rest)" and "tab_value ` set (done @ rest) \<subseteq> names_of tv"
    and "tabBar tv = map tab_value done @ filter (\<lambda>v. v \<in> old_values previous) (map tab_value rest)"
  shows "\<exists>tv'. add_new previous (length done) rest tv = Inr tv' \<and> tabs_ok tv'
    \<and> same_tabs (tv\<lparr>tabBar := map tab_value (done @ rest)\<rparr>) tv'"
  using assms
proof (induction rest arbitrary: "done" tv)
  case Nil
  then show ?case by (simp add: same_tabs_def names_of_def)
next
  case (Cons t rest)
  have old: "(case previous of None \<Rightarrow> True | Some ps \<Rightarrow> \<not> has_value ps t) \<longleftrightarrow> tab_value t \<notin> old_values previous"
    by (simp add: old_values_def has_value_def split: option.splits)
  show ?case
  proof (cases "tab_value t \<in> old_values previous")
    case True
    then show ?thesis using Cons.IH [of tv "done @ [t]"] Cons.prems old by simp
  next
    case False
    obtain t0 ts where cons: "done @ t # rest = t0 # ts" by (cases "done @ t # rest") auto
    have sub: "tab_value ` set (t0 # ts) \<subseteq> names_of tv" "tv_tabs tv = Some (t0 # ts)"
      using Cons.prems(2,3) by (simp_all only: cons)
    have in_names: "tab_value t \<in> names_of tv" "length done \<le> length (tabBar tv)" using Cons.prems(3,4) by simp_all
    obtain t1 where t1: "addTab t (length done) tv = Inr t1" "tabs_ok t1"
        "same_tabs (tv\<lparr>tabBar := insertAt (length done) (tab_value t) (tabBar tv)\<rparr>) t1"
      using addTab_ok [OF Cons.prems(1) sub(2,1) in_names] by blast
    have bar: "tabBar t1 = map tab_value (done @ [t]) @ filter (\<lambda>v. v \<in> old_values previous) (map tab_value rest)"
      using t1(3) Cons.prems(4) False by (simp add: same_tabs_def insertAt_def)
    have "tv_tabs t1 = Some ((done @ [t]) @ rest)" "tab_value ` set ((done @ [t]) @ rest) \<subseteq> names_of t1"
      using t1(3) Cons.prems(2,3) by (simp_all add: same_tabs_def names_of_def)
    then show ?thesis using Cons.IH [OF t1(2) _ _ bar] t1 old False by (auto simp: same_tabs_def names_of_def)
  qed
qed

lemma remove_old_filter:
  "distinct bar \<Longrightarrow> remove_old ts ps bar = filter (\<lambda>v. v \<notin> tab_value ` {t \<in> set ps. \<not> has_value ts t}) bar"
proof (induction ps arbitrary: bar)
  case Nil
  then show ?case by (simp add: remove_old_def)
next
  case (Cons p ps)
  have "remove_old ts (p # ps) bar = remove_old ts ps (if has_value ts p then bar else remove1 (tab_value p) bar)"
    by (simp add: remove_old_def)
  also have "\<dots> = filter (\<lambda>v. v \<notin> tab_value ` {t \<in> set ps. \<not> has_value ts t}) (if has_value ts p then bar else remove1 (tab_value p) bar)"
    using Cons.IH [of "if has_value ts p then bar else remove1 (tab_value p) bar"] Cons.prems by simp
  also have "\<dots> = filter (\<lambda>v. v \<notin> tab_value ` {t \<in> set (p # ps). \<not> has_value ts t}) bar"
    using Cons.prems by (auto simp: distinct_remove1_removeAll removeAll_filter_not_eq intro!: filter_cong)
  finally show ?case .
qed

lemma remove_old_kept:
  assumes "distinct (map tab_value ps)"
  shows "remove_old ts ps (map tab_value ps) = filter (\<lambda>v. v \<in> tab_value ` set ts) (map tab_value ps)"
proof -
  have "v \<notin> tab_value ` {t \<in> set ps. \<not> has_value ts t} \<longleftrightarrow> v \<in> tab_value ` set ts" if "v \<in> set (map tab_value ps)" for v
    using that by (auto simp: has_value_def)
  then show ?thesis unfolding remove_old_filter [OF assms, of ts ps] by (rule filter_cong [OF refl])
qed

text \<open>The tabs that stay keep their order.\<close>

definition keeps_order :: "tab list \<Rightarrow> tab list \<Rightarrow> bool" where
  "keeps_order ps ts \<longleftrightarrow> filter (\<lambda>v. v \<in> tab_value ` set ts) (map tab_value ps) = filter (\<lambda>v. v \<in> tab_value ` set ps) (map tab_value ts)"

lemma set_tabs_ok:
  assumes "tabs_ok tv" and "tv_tabs tv = Some ps" and "tabBar tv = map tab_value ps" and "distinct (map tab_value ps)"
    and "tab_value ` set ts \<subseteq> names_of tv" and "keeps_order ps ts"
  shows "\<exists>tv'. set_tabs (Some ts) tv = Inr tv' \<and> tabs_ok tv' \<and> names_of tv' = names_of tv \<and> tv_tabs tv' = Some ts
    \<and> tabBar tv' = map tab_value ts"
proof -
  let ?t = "tv\<lparr>previousTabs := Some ps, tv_tabs := Some ts, tabBar := remove_old ts ps (tabBar tv)\<rparr>"
  have ok: "tabs_ok ?t" using assms(1) by (simp add: tabs_ok_def shown_name_def)
  have names: "tab_value ` set ([] @ ts) \<subseteq> names_of ?t" using assms(5) by (simp add: names_of_def)
  have bar: "tabBar ?t = map tab_value [] @ filter (\<lambda>v. v \<in> old_values (Some ps)) (map tab_value ts)"
    using assms(3,6) remove_old_kept [OF assms(4), of ts] by (simp add: keeps_order_def old_values_def)
  have "set_tabs (Some ts) tv = add_new (Some ps) (length ([] :: tab list)) ts ?t"
    using assms(2) by (simp add: set_tabs_def tabsDidChange_def tabsWillChange_def)
  then show ?thesis using add_new_ok [OF ok _ names bar] by (auto simp: same_tabs_def names_of_def)
qed

lemma init_tabs_ok:
  assumes "tab_value ` set ts \<subseteq> names"
  shows "\<exists>tv. init_tabs (new_tabs True names (Some ts)) = Inr tv \<and> tabs_ok tv \<and> names_of tv = names \<and> tv_tabs tv = Some ts
    \<and> tabBar tv = map tab_value ts"
proof -
  let ?t = "new_tabs True names (Some ts)"
  have ok: "tabs_ok ?t" by (auto simp: tabs_ok_def new_tabs_def shown_name_def split: if_splits)
  have n: "names_of ?t = names" by (auto simp: names_of_def new_tabs_def)
  have "tab_value ` set ([] @ ts) \<subseteq> names_of ?t" "tv_tabs ?t = Some ([] @ ts)"
      "tabBar ?t = map tab_value [] @ filter (\<lambda>v. v \<in> old_values None) (map tab_value ts)"
    using assms n by (simp_all add: new_tabs_def old_values_def)
  then obtain t1 where t1: "add_new None 0 ts ?t = Inr t1" "tabs_ok t1" "same_tabs (?t\<lparr>tabBar := map tab_value ts\<rparr>) t1"
    using add_new_ok [OF ok, of "[]" ts None] by auto
  have "tabsDidChange ?t = Inr t1" using t1(1) by (simp add: tabsDidChange_def new_tabs_def)
  moreover have "\<exists>t2. tabDidChange t1 = Inr t2 \<and> tabs_ok t2 \<and> same_tabs t1 t2"
  proof (cases "shown_name t1")
    case None
    then show ?thesis using t1(2) by (simp add: tabDidChange_def same_tabs_def)
  next
    case (Some k)
    obtain b where "tab_views t1 k = Some (ViewInstance b)" using t1(2) Some unfolding tabs_ok_def by blast
    then have b: "tab_views t1 k = Some (ViewInstance True)" using t1(2) Some unfolding tabs_ok_def by metis
    then have "(tab_views t1)(k \<mapsto> ViewInstance True) = tab_views t1" by auto
    then show ?thesis using Some b t1(2) by (simp add: tabDidChange_def same_tabs_def)
  qed
  ultimately show ?thesis using t1(3) n by (auto simp: init_tabs_def new_tabs_def same_tabs_def names_of_def)
qed


text \<open>What happens to a tab view: a tab is shown, or the tabs change.\<close>

datatype tab_op = ShowTab string | ChangeTabs "tab list"

definition apply_tab_op :: "tab_op \<Rightarrow> tab_view \<Rightarrow> tab_view result" where
  "apply_tab_op e tv = (case e of ShowTab k \<Rightarrow> button_action k tv | ChangeTabs ts \<Rightarrow> set_tabs (Some ts) tv)"

fun tab_run :: "tab_op list \<Rightarrow> tab_view \<Rightarrow> tab_view result" where
  "tab_run [] tv = Inr tv"
| "tab_run (e # es) tv = rbind (apply_tab_op e tv) (tab_run es)"

text \<open>
  The uses of a tab view: the tabs that are shown have a view, and new tabs have views, distinct values,
  and do not reorder those that stay.
\<close>

fun proper_ops :: "string set \<Rightarrow> tab list \<Rightarrow> tab_op list \<Rightarrow> bool" where
  "proper_ops names ps [] \<longleftrightarrow> True"
| "proper_ops names ps (ShowTab k # es) \<longleftrightarrow> k \<in> names \<and> proper_ops names ps es"
| "proper_ops names ps (ChangeTabs ts # es) \<longleftrightarrow> distinct (map tab_value ts) \<and> tab_value ` set ts \<subseteq> names \<and> keeps_order ps ts
     \<and> proper_ops names ts es"

lemma tab_run_ok:
  assumes "proper_ops names ps es" and "tabs_ok tv" and "names_of tv = names" and "tv_tabs tv = Some ps"
    and "tabBar tv = map tab_value ps" and "distinct (map tab_value ps)"
  shows "\<exists>tv' ts. tab_run es tv = Inr tv' \<and> tabs_ok tv' \<and> tv_tabs tv' = Some ts \<and> tabBar tv' = map tab_value ts"
  using assms
proof (induction names ps es arbitrary: tv rule: proper_ops.induct)
  case (1 names ps)
  then show ?case by simp
next
  case (2 names ps k es)
  obtain t1 where "set_nowShowing (Some k) tv = Inr t1" "tabs_ok t1" "same_tabs tv t1"
    using set_nowShowing_ok [OF "2.prems"(2), of k] "2.prems"(1,3) by auto
  then show ?case using "2.IH" [of t1] "2.prems" by (simp add: apply_tab_op_def button_action_def same_tabs_def)
next
  case (3 names ps ts es)
  have p: "tab_value ` set ts \<subseteq> names_of tv" "keeps_order ps ts" "distinct (map tab_value ts)" "proper_ops names ts es"
    using "3.prems"(1,3) by simp_all
  obtain t1 where "set_tabs (Some ts) tv = Inr t1" "tabs_ok t1" "names_of t1 = names_of tv" "tv_tabs t1 = Some ts"
      "tabBar t1 = map tab_value ts"
    using set_tabs_ok [OF "3.prems"(2,4,5,6) p(1,2)] by blast
  then show ?case using "3.IH" [of t1] "3.prems"(3) p by (simp add: apply_tab_op_def)
qed


definition the_tab :: "string \<Rightarrow> tab" where
  "the_tab v = \<lparr>tab_title = v, tab_value = v\<rparr>"

lemma tab_value_the_tab [simp]: "tab_value (the_tab v) = v"
  by (simp add: the_tab_def)


section \<open>Where it breaks\<close>

lemmas tab_eval = init_tabs_def new_tabs_def tabsDidChange_def tabsWillChange_def set_tabs_def addTab_def insert_button_def create_view_def
  show_first_def set_nowShowing_def tabWillChange_def tabDidChange_def shown_name_def has_value_def remove_old_def insertAt_def
  apply_tab_op_def button_action_def

text \<open>Reordering the tabs does not reorder the bar.\<close>

theorem reordered_tabs_keep_old_bar:
  "\<exists>tv0 tv. init_tabs (new_tabs True {''a'', ''b''} (Some [the_tab ''a'', the_tab ''b''])) = Inr tv0
    \<and> set_tabs (Some [the_tab ''b'', the_tab ''a'']) tv0 = Inr tv \<and> tabBar tv = [''a'', ''b'']"
  by (simp add: tab_eval)

text \<open>Removing the shown tab leaves its view visible, with no button for it in the bar.\<close>

theorem removed_tab_stays_visible:
  "\<exists>tv0 tv. init_tabs (new_tabs True {''a'', ''b''} (Some [the_tab ''a'', the_tab ''b''])) = Inr tv0
    \<and> set_tabs (Some [the_tab ''b'']) tv0 = Inr tv \<and> tabBar tv = [''b''] \<and> nowShowing tv = Some ''a''
    \<and> tab_views tv ''a'' = Some (ViewInstance True)"
  by (simp add: tab_eval)

text \<open>
  With \<open>initializeTabsLazily\<close> off, a tab that is removed and added again is hidden although it is the
  shown one, and its view is a child of the content view twice.
\<close>

theorem readded_tab_is_hidden:
  "\<exists>tv0 tv. init_tabs (new_tabs False {''a'', ''b''} (Some [the_tab ''a'', the_tab ''b''])) = Inr tv0
    \<and> tab_run [ChangeTabs [the_tab ''b''], ChangeTabs [the_tab ''a'', the_tab ''b'']] tv0 = Inr tv
    \<and> nowShowing tv = Some ''a'' \<and> tab_views tv ''a'' = Some (ViewInstance False) \<and> tab_children tv = [''a'', ''b'', ''a'']"
  by (simp add: tab_eval)

end
