(* ===== verification/Form_View.thy ===== *)
theory Form_View
  imports Flame_Prelude
begin

text \<open>
  Forms (\<open>views/form_view.js\<close>): a row for every described property with a label and a control of the
  right class, a row of buttons, the order in which the tab key visits the controls, and the
  messages shown beside invalid controls.
\<close>

section \<open>Descriptors and controls\<close>

text \<open>
  What a descriptor says about the options of a select control: nothing, an array or a function, the
  path of a binding, or a computed property, which only \<open>Ember.meta\<close> sees.
\<close>

datatype option_source = NoOptions | OptionsGiven | OptionsBinding | OptionsComputed

record descriptor =
  d_property :: string
  d_hasView :: bool
  d_label :: "string option"
  d_type :: "string option"
  d_name :: "string option"
  d_options :: option_source
  d_isAutocomplete :: bool
  d_setValueOnEachKeyUp :: "bool option"
  d_height :: int
  d_isSelectable :: "bool option"
  d_allowNew :: bool
  d_itemTitleKey :: string
  d_itemValueKey :: string
  d_subMenuKey :: string
  d_validation :: bool
  d_isVisible :: "bool option"
  d_isVisibleBinding :: "string option"

datatype control_class = LabelView | TextFieldView | AutocompleteTextFieldView | TextAreaView | CheckboxView
  | SelectButtonView | MultiselectionButtonView | ComboBoxView

text \<open>
  The settings of a control.  \<open>cs_submits\<close>: its action clicks the default button of the form;
  \<open>cs_valueKey\<close> is the property of the view bound to the object.
\<close>

record control_settings =
  cs_class :: control_class
  cs_valueKey :: string
  cs_submits :: bool
  cs_isDefaultFocus :: bool
  cs_observesValidity :: bool
  cs_className :: string
  cs_name :: "string option"
  cs_height :: "int option"
  cs_isPassword :: bool
  cs_isSelectable :: bool
  cs_setValueOnEachKeyUp :: bool
  cs_escapeHTML :: bool
  cs_title :: "string option"
  cs_itemTitleKey :: "string option"
  cs_itemValueKey :: string
  cs_subMenuKey :: string

definition or_default :: "string \<Rightarrow> string \<Rightarrow> string" where
  "or_default s d = (if s = [] then d else s)"

definition control_type :: "descriptor \<Rightarrow> string" where
  "control_type d = (if d_options d = OptionsGiven \<or> d_options d = OptionsBinding then ''select''
     else case d_type d of None \<Rightarrow> ''text'' | Some t \<Rightarrow> or_default t ''text'')"

definition base_settings :: "string option \<Rightarrow> descriptor \<Rightarrow> control_settings" where
  "base_settings defaultFocus d = (let type = control_type d in
     \<lparr>cs_class = LabelView, cs_valueKey = ''value'', cs_submits = type \<in> {''text'', ''textarea'', ''password''},
      cs_isDefaultFocus = defaultFocus = Some (d_property d), cs_observesValidity = d_validation d,
      cs_className = ''form-view-'' @ type, cs_name = None, cs_height = None, cs_isPassword = False, cs_isSelectable = False,
      cs_setValueOnEachKeyUp = True, cs_escapeHTML = True, cs_title = None, cs_itemTitleKey = None, cs_itemValueKey = [],
      cs_subMenuKey = []\<rparr>)"

definition name_of :: "descriptor \<Rightarrow> string" where
  "name_of d = (case d_name d of None \<Rightarrow> d_property d | Some n \<Rightarrow> n)"

definition select_settings :: "descriptor \<Rightarrow> control_settings \<Rightarrow> control_settings" where
  "select_settings d s =
     s\<lparr>cs_itemValueKey := or_default (d_itemValueKey d) ''value'', cs_subMenuKey := or_default (d_subMenuKey d) ''subMenu'',
       cs_isSelectable := (d_isSelectable d = Some True),
       cs_itemTitleKey := (case d_options d of
           NoOptions \<Rightarrow> None
         | OptionsBinding \<Rightarrow> Some (or_default (d_itemTitleKey d) ''name'')
         | _ \<Rightarrow> Some (or_default (d_itemTitleKey d) ''title'')),
       cs_class := (if d_type d = Some ''multiselect'' then MultiselectionButtonView
         else if d_allowNew d then ComboBoxView else SelectButtonView)\<rparr>"

definition buildControlView :: "control_settings \<Rightarrow> string \<Rightarrow> descriptor \<Rightarrow> control_settings result" where
  "buildControlView s type d =
     (if type = ''readonly'' then Inr (s\<lparr>cs_isSelectable := (d_isSelectable d \<noteq> Some False)\<rparr>)
      else if type = ''text'' then
        Inr (if d_isAutocomplete d then s\<lparr>cs_name := Some (name_of d), cs_class := AutocompleteTextFieldView\<rparr>
             else s\<lparr>cs_name := Some (name_of d), cs_class := TextFieldView,
               cs_setValueOnEachKeyUp := (d_setValueOnEachKeyUp d \<noteq> Some False)\<rparr>)
      else if type = ''textarea'' then
        Inr (s\<lparr>cs_height := Some (if d_height d = 0 then 70 else d_height d), cs_class := TextAreaView\<rparr>)
      else if type = ''password'' then
        Inr (s\<lparr>cs_isPassword := True, cs_name := Some (name_of d), cs_class := TextFieldView\<rparr>)
      else if type = ''html'' then Inr (s\<lparr>cs_escapeHTML := False\<rparr>)
      else if type = ''checkbox'' then
        Inr (s\<lparr>cs_title := d_label d, cs_valueKey := ''isSelected'', cs_class := CheckboxView\<rparr>)
      else if type = ''select'' then Inr (select_settings d s)
      else Inl (ThrownError ''Invalid control type''))"

definition buildControl :: "string option \<Rightarrow> descriptor \<Rightarrow> control_settings result" where
  "buildControl defaultFocus d = buildControlView (base_settings defaultFocus d) (control_type d) d"

section \<open>Rows\<close>

record form_layout =
  leftMargin :: int
  rightMargin :: int
  labelWidth :: int
  columnSpacing :: int
  buttonWidth :: int

definition focusRingMargin :: int where
  "focusRingMargin = 3"

text \<open>
  A row: the margins of the row and of the control in it, the label if it has one, and whether it is
  visible, \<open>None\<close> when that is bound.  \<open>row_control\<close> are the settings of the control that the form builds,
  none when the descriptor has a view of its own.
\<close>

record form_row =
  row_left :: int
  row_right :: int
  row_label :: "string option"
  ctl_left :: int
  ctl_right :: int
  row_visible :: "bool option"
  row_control :: "control_settings option"

definition row_isVisible :: "descriptor \<Rightarrow> bool" where
  "row_isVisible d = (case d_isVisible d of None \<Rightarrow> True | Some b \<Rightarrow> b)"

definition createLabelAndControl :: "form_layout \<Rightarrow> string option \<Rightarrow> descriptor \<Rightarrow> form_row result" where
  "createLabelAndControl f defaultFocus d = rbind (if d_hasView d then Inr None else rbind (buildControl defaultFocus d) (\<lambda>s. Inr (Some s))) (\<lambda>control.
     Inr (if d_type d = Some ''checkbox'' then
            \<lparr>row_left = 0, row_right = 0, row_label = None, ctl_left = leftMargin f + labelWidth f + columnSpacing f - 4,
             ctl_right = focusRingMargin, row_visible = Some (row_isVisible d), row_control = control\<rparr>
          else case d_label d of
            None \<Rightarrow> \<lparr>row_left = 0, row_right = 0, row_label = None, ctl_left = leftMargin f + focusRingMargin,
               ctl_right = rightMargin f + focusRingMargin, row_visible = Some (row_isVisible d), row_control = control\<rparr>
          | Some l \<Rightarrow> \<lparr>row_left = leftMargin f, row_right = rightMargin f, row_label = Some (l @ '':''),
               ctl_left = labelWidth f + columnSpacing f, ctl_right = focusRingMargin,
               row_visible = (if d_isVisibleBinding d = None then Some (row_isVisible d) else None), row_control = control\<rparr>))"

text \<open>The rows of the form, in the order of the properties; the first invalid descriptor throws.\<close>

fun create_rows :: "form_layout \<Rightarrow> string option \<Rightarrow> descriptor list \<Rightarrow> form_row list result" where
  "create_rows f df [] = Inr []"
| "create_rows f df (d # ds) = rbind (createLabelAndControl f df d) (\<lambda>r. rbind (create_rows f df ds) (\<lambda>rs. Inr (r # rs)))"

section \<open>Buttons\<close>

text \<open>
  A described button: its own layout (right margin and width), if it has one.  The buttons are placed
  from the right; \<open>right\<close> is where the next one goes.
\<close>

type_synonym button_layout = "int \<times> int"

definition buildButton :: "form_layout \<Rightarrow> button_layout option \<Rightarrow> int \<Rightarrow> button_layout" where
  "buildButton f own right = (case own of None \<Rightarrow> (right, buttonWidth f) | Some l \<Rightarrow> l)"

fun place_buttons :: "form_layout \<Rightarrow> int \<Rightarrow> button_layout option list \<Rightarrow> button_layout list" where
  "place_buttons f right [] = []"
| "place_buttons f right (own # bs) =
     (let b = buildButton f own right in b # place_buttons f (right + snd b + 15) bs)"

definition buildButtons :: "form_layout \<Rightarrow> button_layout option list \<Rightarrow> button_layout list" where
  "buildButtons f bs = place_buttons f focusRingMargin bs"

section \<open>The tab key\<close>

text \<open>
  A view in a row, and the view that has the key focus: itself, or the text element inside it.
\<close>

record form_item =
  fi_id :: nat
  fi_acceptsKeyResponder :: bool
  fi_isVisible :: bool

datatype key_view = ViewItself nat | TextElementOf nat

fun focused_view :: "key_view \<Rightarrow> nat" where
  "focused_view (ViewItself i) = i"
| "focused_view (TextElementOf i) = i"

definition tab_controls :: "form_item list list \<Rightarrow> nat list" where
  "tab_controls rows = map fi_id (filter (\<lambda>v. fi_acceptsKeyResponder v \<and> fi_isVisible v) (concat rows))"

text \<open>
  \<open>_performTab\<close>: the view that becomes key responder, if any.  \<open>reduce\<close> on an empty array throws.
\<close>

definition performTab :: "int \<Rightarrow> form_item list list \<Rightarrow> key_view \<Rightarrow> nat option result" where
  "performTab dir rows current =
     (if rows = [] then Inl TypeError
      else let controls = tab_controls rows; n = int (length controls);
               index = (case indexOf controls (focused_view current) of None \<Rightarrow> -1 | Some i \<Rightarrow> int i) + dir
           in if controls = [] then Inr None
              else Inr (objectAt_int controls (if index < 0 then n - 1 else if index = n then 0 else index)))"

definition insertTab :: "form_item list list \<Rightarrow> key_view \<Rightarrow> nat option result" where
  "insertTab = performTab 1"

definition insertBacktab :: "form_item list list \<Rightarrow> key_view \<Rightarrow> nat option result" where
  "insertBacktab = performTab (-1)"

section \<open>Messages beside invalid controls\<close>

text \<open>
  A control: whether it has a validation message, and so the observers, whether its value is valid,
  whether its element has a place in the document, and its message view.  \<open>fv_errorViews\<close> is the list the form keeps; \<open>fv_shown\<close> are the
  message views in the document.
\<close>

record form_control =
  fc_observes :: bool
  fc_isValid :: bool
  fc_inserted :: bool
  fc_errorView :: "nat option"

record form_errors =
  fv_controls :: "form_control list"
  fv_errorViews :: "nat list"
  fv_shown :: "nat set"
  fv_next :: nat

definition isValidWillChange :: "nat \<Rightarrow> form_errors \<Rightarrow> form_errors" where
  "isValidWillChange i f = (let c = fv_controls f ! i in case fc_errorView c of
       None \<Rightarrow> f
     | Some e \<Rightarrow> if \<not> fc_isValid c
         then f\<lparr>fv_shown := fv_shown f - {e}, fv_controls := (fv_controls f)[i := c\<lparr>fc_errorView := None\<rparr>],
                fv_errorViews := filter (\<lambda>x. x \<noteq> e) (fv_errorViews f)\<rparr>
         else f)"

definition isValidDidChange :: "nat \<Rightarrow> form_errors \<Rightarrow> form_errors" where
  "isValidDidChange i f = (let c = fv_controls f ! i in
     if \<not> fc_isValid c \<and> fc_errorView c = None \<and> fc_inserted c
     then f\<lparr>fv_shown := insert (fv_next f) (fv_shown f), fv_controls := (fv_controls f)[i := c\<lparr>fc_errorView := Some (fv_next f)\<rparr>],
            fv_errorViews := fv_errorViews f @ [fv_next f], fv_next := Suc (fv_next f)\<rparr>
     else f)"

definition set_isValid :: "nat \<Rightarrow> bool \<Rightarrow> form_errors \<Rightarrow> form_errors" where
  "set_isValid i b f = (let c = fv_controls f ! i in
     if fc_isValid c = b then f
     else let f1 = (if fc_observes c then isValidWillChange i f else f);
              f2 = f1\<lparr>fv_controls := (fv_controls f1)[i := (fv_controls f1 ! i)\<lparr>fc_isValid := b\<rparr>]\<rparr>
          in if fc_observes c then isValidDidChange i f2 else f2)"

definition control_didInsertElement :: "nat \<Rightarrow> form_errors \<Rightarrow> form_errors" where
  "control_didInsertElement i f =
     (let c = fv_controls f ! i; f1 = f\<lparr>fv_controls := (fv_controls f)[i := c\<lparr>fc_inserted := True\<rparr>]\<rparr>
      in if fc_observes c then isValidDidChange i f1 else f1)"

definition form_isValid :: "form_errors \<Rightarrow> bool" where
  "form_isValid f \<longleftrightarrow> length (fv_errorViews f) = 0"

text \<open>When the properties of the form change, its children are destroyed and new controls created.\<close>

definition propertiesDidChange :: "form_control list \<Rightarrow> form_errors \<Rightarrow> form_errors" where
  "propertiesDidChange cs f = f\<lparr>fv_controls := cs\<rparr>"

definition form_willDestroyElement :: "form_errors \<Rightarrow> form_errors" where
  "form_willDestroyElement f = f\<lparr>fv_shown := fv_shown f - set (fv_errorViews f)\<rparr>"


section \<open>Which controls a form has\<close>

definition known_types :: "string list" where
  "known_types = [''readonly'', ''text'', ''textarea'', ''password'', ''html'', ''checkbox'', ''select'']"

lemma buildControl_known: "(\<exists>s. buildControl df d = Inr s) \<longleftrightarrow> control_type d \<in> set known_types"
  by (auto simp: buildControl_def buildControlView_def known_types_def)

lemma buildControl_unknown: "control_type d \<notin> set known_types \<Longrightarrow> buildControl df d = Inl (ThrownError ''Invalid control type'')"
  by (simp add: buildControl_def buildControlView_def known_types_def)

lemma buildControl_settings:
  assumes "buildControl df d = Inr s"
  shows "cs_isDefaultFocus s \<longleftrightarrow> df = Some (d_property d)"
    and "cs_submits s \<longleftrightarrow> cs_class s \<in> {TextFieldView, AutocompleteTextFieldView, TextAreaView}"
    and "d_options d = OptionsGiven \<or> d_options d = OptionsBinding \<Longrightarrow> cs_class s \<in> {SelectButtonView, MultiselectionButtonView, ComboBoxView}"
  using assms by (auto simp: buildControl_def buildControlView_def base_settings_def select_settings_def control_type_def Let_def
      split: if_splits)

text \<open>The controls of a row list, and the rows of the controls that get the focus first.\<close>

definition focus_rows :: "form_row list \<Rightarrow> nat list" where
  "focus_rows rs = filter (\<lambda>i. case row_control (rs ! i) of None \<Rightarrow> False | Some s \<Rightarrow> cs_isDefaultFocus s) [0..<length rs]"

definition buildable :: "descriptor \<Rightarrow> bool" where
  "buildable d \<longleftrightarrow> d_hasView d \<or> control_type d \<in> set known_types"

lemma row_known: "(\<exists>r. createLabelAndControl f df d = Inr r) \<longleftrightarrow> buildable d"
  using buildControl_known [of df d] by (auto simp: createLabelAndControl_def buildable_def)

lemma row_settings:
  assumes "createLabelAndControl f df d = Inr r" and "row_control r = Some s"
  shows "buildControl df d = Inr s"
  using assms by (auto simp: createLabelAndControl_def split: if_splits option.splits)

lemma create_rows_nth:
  "create_rows f df ds = Inr rs \<Longrightarrow> length rs = length ds \<and> (\<forall>i < length ds. createLabelAndControl f df (ds ! i) = Inr (rs ! i))"
proof (induction ds arbitrary: rs)
  case (Cons d ds)
  then show ?case by (auto simp: less_Suc_eq_0_disj)
qed simp

lemma create_rows_known: "(\<exists>rs. create_rows f df ds = Inr rs) \<longleftrightarrow> list_all buildable ds"
  by (induction ds) (use row_known in auto)

text \<open>
  A form is built exactly when every descriptor has a view of its own or a known type; otherwise
  building it throws.
\<close>

theorem form_rows_follow_descriptors:
  "(create_rows f df ds = Inl (ThrownError ''Invalid control type'') \<or> (\<exists>rs. create_rows f df ds = Inr rs))
    \<and> ((\<exists>rs. create_rows f df ds = Inr rs) \<longleftrightarrow> list_all buildable ds)"
proof -
  have "createLabelAndControl f df d = Inl e \<Longrightarrow> e = ThrownError ''Invalid control type''" for d e
    using buildControl_unknown [of d df] buildControl_known [of df d]
    by (auto simp: createLabelAndControl_def rbind_eq_Inl split: if_splits)
  then have "create_rows f df ds = Inl e \<Longrightarrow> e = ThrownError ''Invalid control type''" for e
    by (induction ds) (auto simp: rbind_eq_Inl)
  then show ?thesis using create_rows_known [of f df ds] by (cases "create_rows f df ds") auto
qed

text \<open>
  With distinct properties at most one control of a form asks for the focus, and a control submits
  the form exactly when it is a text field or a text area.
\<close>

theorem at_most_one_default_focus:
  assumes "create_rows f df ds = Inr rs" and "distinct (map d_property ds)"
  shows "length rs = length ds \<and> length (focus_rows rs) \<le> 1
    \<and> (\<forall>i s. i < length rs \<and> row_control (rs ! i) = Some s \<longrightarrow>
        (cs_submits s \<longleftrightarrow> cs_class s \<in> {TextFieldView, AutocompleteTextFieldView, TextAreaView}))"
proof -
  have rows: "length rs = length ds" "\<And>i. i < length ds \<Longrightarrow> createLabelAndControl f df (ds ! i) = Inr (rs ! i)"
    using create_rows_nth [OF assms(1)] by auto
  have focus: "df = Some (d_property (ds ! i))" if i: "i \<in> set (focus_rows rs)" for i
  proof -
    obtain s where s: "i < length ds" "row_control (rs ! i) = Some s" "cs_isDefaultFocus s"
      using i rows(1) by (auto simp: focus_rows_def split: option.splits)
    show ?thesis using buildControl_settings(1) [OF row_settings [OF rows(2) s(2)]] s by simp
  qed
  have "i = j" if ij: "i \<in> set (focus_rows rs)" "j \<in> set (focus_rows rs)" for i j
  proof -
    have "d_property (ds ! i) = d_property (ds ! j)" "i < length ds" "j < length ds"
      using focus [OF ij(1)] focus [OF ij(2)] ij rows(1) by (auto simp: focus_rows_def)
    then show ?thesis using nth_eq_iff_index_eq [OF assms(2), of i j] by simp
  qed
  moreover have "distinct (focus_rows rs)" by (simp add: focus_rows_def)
  ultimately have "card (set (focus_rows rs)) \<le> 1" by (metis One_nat_def card_le_Suc0_iff_eq List.finite_set)
  then have "length (focus_rows rs) \<le> 1" using \<open>distinct (focus_rows rs)\<close> by (simp add: distinct_card)
  then show ?thesis using rows row_settings buildControl_settings(2) by metis
qed


definition field :: "string \<Rightarrow> string \<Rightarrow> descriptor" where
  "field p t = \<lparr>d_property = p, d_hasView = False, d_label = Some p, d_type = Some t, d_name = None, d_options = NoOptions,
     d_isAutocomplete = False, d_setValueOnEachKeyUp = None, d_height = 0, d_isSelectable = None, d_allowNew = False,
     d_itemTitleKey = [], d_itemValueKey = [], d_subMenuKey = [], d_validation = True, d_isVisible = None, d_isVisibleBinding = None\<rparr>"

definition margins :: form_layout where
  "margins = \<lparr>leftMargin = 20, rightMargin = 20, labelWidth = 150, columnSpacing = 10, buttonWidth = 90\<rparr>"

theorem at_most_one_default_focus_witness:
  "\<exists>rs. create_rows margins (Some ''b'') [field ''a'' ''text'', field ''b'' ''checkbox''] = Inr rs
    \<and> length rs = 2 \<and> length (focus_rows rs) \<le> 1"
proof -
  let ?ds = "[field ''a'' ''text'', field ''b'' ''checkbox'']"
  have "list_all buildable ?ds" by (simp add: buildable_def field_def control_type_def or_default_def known_types_def)
  then obtain rs where rs: "create_rows margins (Some ''b'') ?ds = Inr rs" using create_rows_known by blast
  have "distinct (map d_property ?ds)" by (simp add: field_def)
  from at_most_one_default_focus [OF rs this] have "length rs = 2 \<and> length (focus_rows rs) \<le> 1" by simp
  then show ?thesis by (intro exI [of _ rs] conjI rs) simp_all
qed

text \<open>
  A control of type \<open>multiselect\<close> whose options are a computed property cannot be built: the type becomes
  \<open>select\<close> only for options that are plain properties.
\<close>

theorem computed_multiselect_throws:
  "createLabelAndControl f df ((field p ''multiselect'')\<lparr>d_options := OptionsComputed\<rparr>) = Inl (ThrownError ''Invalid control type'')
    \<and> (\<exists>r. createLabelAndControl f df ((field p ''multiselect'')\<lparr>d_options := OptionsGiven\<rparr>) = Inr r)"
  using row_known [of f df "(field p ''multiselect'')\<lparr>d_options := OptionsGiven\<rparr>"]
  by (simp add: createLabelAndControl_def buildControl_def buildControlView_def control_type_def field_def or_default_def
      buildable_def known_types_def)

text \<open>
  The buttons of a form that have no layout of their own stand side by side from the right, fifteen
  pixels apart, so that none overlaps another.
\<close>

lemma place_default: "i < n \<Longrightarrow> place_buttons f r (replicate n None) ! i = (r + int i * (buttonWidth f + 15), buttonWidth f)"
proof (induction n arbitrary: r i)
  case (Suc n)
  then show ?case by (cases i) (auto simp: buildButton_def Let_def algebra_simps)
qed simp

theorem buttons_do_not_overlap:
  assumes "i < j" and "j < n" and "0 \<le> buttonWidth f"
  shows "fst (buildButtons f (replicate n None) ! i) + snd (buildButtons f (replicate n None) ! i) + 15
    \<le> fst (buildButtons f (replicate n None) ! j)"
proof -
  have "(int i + 1) * (buttonWidth f + 15) \<le> int j * (buttonWidth f + 15)"
    using assms(1,3) by (intro mult_right_mono) auto
  then show ?thesis using assms(1,2) place_default [of i n f focusRingMargin] place_default [of j n f focusRingMargin]
    by (simp add: buildButtons_def algebra_simps)
qed

theorem buttons_do_not_overlap_witness: "fst (buildButtons margins (replicate 2 None) ! 1) \<ge> 3 + 90 + 15"
proof -
  have "(0 :: nat) < 1" "(1 :: nat) < 2" "0 \<le> buttonWidth margins" by (simp_all add: margins_def)
  from buttons_do_not_overlap [OF this] show ?thesis
    by (simp add: numeral_2_eq_2 buildButtons_def buildButton_def margins_def focusRingMargin_def Let_def)
qed

section \<open>The tab key goes round\<close>

lemma performTab_at:
  assumes "controls = tab_controls rows" and "distinct controls" and "i < length controls" and "focused_view v = controls ! i"
  shows "insertTab rows v = Inr (Some (controls ! (Suc i mod length controls)))"
    and "insertBacktab rows v = Inr (Some (controls ! (if i = 0 then length controls - 1 else i - 1)))"
proof -
  have rows: "rows \<noteq> []" using assms(1,3) by (auto simp: tab_controls_def)
  have ix: "indexOf controls (focused_view v) = Some i" using assms(2-4) indexOf_nth_distinct by metis
  have ne: "controls \<noteq> []" using assms(3) by auto
  show "insertTab rows v = Inr (Some (controls ! (Suc i mod length controls)))"
  proof (cases "Suc i = length controls")
    case True
    then show ?thesis using rows ne ix assms(1)
      by (auto simp: insertTab_def performTab_def Let_def objectAt_int_def)
  next
    case False
    then have "Suc i < length controls" "nat (int i + 1) = Suc i" using assms(3) by simp_all
    then show ?thesis using rows ne ix assms(1)
      by (auto simp: insertTab_def performTab_def Let_def objectAt_int_def)
  qed
  show "insertBacktab rows v = Inr (Some (controls ! (if i = 0 then length controls - 1 else i - 1)))"
  proof (cases i)
    case 0
    have "nat (int (length controls) - 1) = length controls - 1" by simp
    then show ?thesis using 0 rows ne ix assms(1)
      by (auto simp: insertBacktab_def performTab_def Let_def objectAt_int_def)
  next
    case (Suc k)
    then show ?thesis using rows ne ix assms(1,3)
      by (auto simp: insertBacktab_def performTab_def Let_def objectAt_int_def)
  qed
qed

text \<open>Pressing the tab key several times, the new view having the focus each time.\<close>

fun tab_times :: "nat \<Rightarrow> form_item list list \<Rightarrow> key_view \<Rightarrow> key_view result" where
  "tab_times 0 rows v = Inr v"
| "tab_times (Suc k) rows v = rbind (insertTab rows v) (\<lambda>r. case r of None \<Rightarrow> Inr v | Some i \<Rightarrow> tab_times k rows (ViewItself i))"

text \<open>
  The tab key visits the visible controls that accept the focus in the order of the rows and goes
  round: after \<open>k\<close> presses the focus is \<open>k\<close> controls further, modulo their number, and the
  backtab key undoes a tab.
\<close>

theorem tab_key_goes_round:
  assumes "controls = tab_controls rows" and "distinct controls" and "i < length controls" and "focused_view v = controls ! i"
  shows "(\<exists>u. tab_times k rows v = Inr u \<and> focused_view u = controls ! ((i + k) mod length controls))
    \<and> rbind (insertTab rows v) (\<lambda>r. insertBacktab rows (ViewItself (the r))) = Inr (Some (controls ! i))"
proof
  show "\<exists>u. tab_times k rows v = Inr u \<and> focused_view u = controls ! ((i + k) mod length controls)"
    using assms(3,4)
  proof (induction k arbitrary: i v)
    case 0
    then show ?case by simp
  next
    case (Suc k)
    let ?j = "Suc i mod length controls"
    have "?j < length controls" using Suc.prems(1) by (intro mod_less_divisor) auto
    then obtain u where "tab_times k rows (ViewItself (controls ! ?j)) = Inr u" "focused_view u = controls ! ((?j + k) mod length controls)"
      using Suc.IH [of ?j "ViewItself (controls ! ?j)"] by auto
    then show ?case using performTab_at(1) [OF assms(1,2) Suc.prems] by (simp add: mod_add_left_eq)
  qed
  let ?j = "Suc i mod length controls"
  have j: "?j < length controls" using assms(3) by (intro mod_less_divisor) auto
  have "(if ?j = 0 then length controls - 1 else ?j - 1) = i" using assms(3) by (auto simp: mod_Suc)
  then show "rbind (insertTab rows v) (\<lambda>r. insertBacktab rows (ViewItself (the r))) = Inr (Some (controls ! i))"
    using performTab_at(1) [OF assms] performTab_at(2) [OF assms(1,2) j, of "ViewItself (controls ! ?j)"] by simp
qed

definition two_rows :: "form_item list list" where
  "two_rows = [[\<lparr>fi_id = 0, fi_acceptsKeyResponder = False, fi_isVisible = True\<rparr>, \<lparr>fi_id = 1, fi_acceptsKeyResponder = True, fi_isVisible = True\<rparr>],
     [\<lparr>fi_id = 2, fi_acceptsKeyResponder = True, fi_isVisible = True\<rparr>], [\<lparr>fi_id = 3, fi_acceptsKeyResponder = True, fi_isVisible = False\<rparr>]]"

theorem tab_key_goes_round_witness: "\<exists>u. tab_times 3 two_rows (TextElementOf 1) = Inr u \<and> focused_view u = 2"
proof -
  have c: "[1, 2] = tab_controls two_rows" "distinct [1, 2 :: nat]" "0 < length [1, 2 :: nat]" "focused_view (TextElementOf 1) = [1, 2] ! 0"
    by (simp_all add: tab_controls_def two_rows_def)
  have n: "length [1, 2 :: nat] = 2" "(0 + 3) mod 2 = (1 :: nat)" "[1, 2] ! 1 = (2 :: nat)" by simp_all
  show ?thesis using tab_key_goes_round [OF c, of 3] unfolding n by (elim conjE)
qed

text \<open>A form without rows throws when the tab key is pressed.\<close>

theorem tab_in_empty_form_throws: "insertTab [] v = Inl TypeError \<and> insertBacktab [] v = Inl TypeError"
  by (simp add: insertTab_def insertBacktab_def performTab_def)


section \<open>Messages and validity\<close>

text \<open>
  The message views are those of the controls, each belongs to one control, and a control has one
  exactly when it is in the document, observed and invalid.
\<close>

definition control_ok :: "form_control \<Rightarrow> bool" where
  "control_ok c \<longleftrightarrow> (fc_errorView c \<noteq> None \<longrightarrow> fc_observes c \<and> fc_inserted c \<and> \<not> fc_isValid c)
     \<and> (fc_observes c \<and> fc_inserted c \<and> \<not> fc_isValid c \<longrightarrow> fc_errorView c \<noteq> None)"

definition errors_ok :: "form_errors \<Rightarrow> bool" where
  "errors_ok f \<longleftrightarrow> list_all control_ok (fv_controls f)
     \<and> (\<forall>e. e \<in> set (fv_errorViews f) \<longleftrightarrow> (\<exists>i < length (fv_controls f). fc_errorView (fv_controls f ! i) = Some e))
     \<and> (\<forall>i < length (fv_controls f). \<forall>j < length (fv_controls f). \<forall>e.
          fc_errorView (fv_controls f ! i) = Some e \<and> fc_errorView (fv_controls f ! j) = Some e \<longrightarrow> i = j)
     \<and> fv_shown f = set (fv_errorViews f) \<and> (\<forall>e \<in> set (fv_errorViews f). e < fv_next f)"

lemma list_all_update: "list_all P xs \<Longrightarrow> P x \<Longrightarrow> list_all P (xs[i := x])"
  using set_update_subset_insert [of xs i x] by (auto simp: list_all_iff)

text \<open>
  Changing one control and its message view: \<open>c'\<close> has the message view it had, none, or a new one.
\<close>

lemma errors_ok_keep:
  assumes "errors_ok f" and "i < length (fv_controls f)" and "fc_errorView c' = fc_errorView (fv_controls f ! i)" and "control_ok c'"
  shows "errors_ok (f\<lparr>fv_controls := (fv_controls f)[i := c']\<rparr>)"
proof -
  have nth: "fc_errorView ((fv_controls f)[i := c'] ! j) = fc_errorView (fv_controls f ! j)" if "j < length (fv_controls f)" for j
    using assms(3) that by (cases "j = i") simp_all
  have "list_all control_ok ((fv_controls f)[i := c'])"
    using assms(1,4) by (simp add: errors_ok_def list_all_update)
  then show ?thesis using assms(1) nth unfolding errors_ok_def by (simp cong: conj_cong)
qed

lemma errors_ok_drop:
  assumes "errors_ok f" and "i < length (fv_controls f)" and "fc_errorView (fv_controls f ! i) = Some e"
    and "fc_errorView c' = None" and "control_ok c'"
  shows "errors_ok (f\<lparr>fv_shown := fv_shown f - {e}, fv_controls := (fv_controls f)[i := c'],
    fv_errorViews := filter (\<lambda>x. x \<noteq> e) (fv_errorViews f)\<rparr>)"
proof -
  have nth: "fc_errorView ((fv_controls f)[i := c'] ! j) = Some x \<longleftrightarrow> fc_errorView (fv_controls f ! j) = Some x \<and> x \<noteq> e"
    if j: "j < length (fv_controls f)" for j x
  proof (cases "j = i")
    case True
    then show ?thesis using assms(2-4) by simp
  next
    case False
    then have "fc_errorView (fv_controls f ! j) \<noteq> Some e" using assms(1-3) j unfolding errors_ok_def by blast
    then show ?thesis using False by auto
  qed
  have "list_all control_ok ((fv_controls f)[i := c'])"
    using assms(1,5) by (simp add: errors_ok_def list_all_update)
  then show ?thesis using assms(1) nth unfolding errors_ok_def by auto
qed

lemma errors_ok_new:
  assumes "errors_ok f" and "i < length (fv_controls f)" and "fc_errorView (fv_controls f ! i) = None"
    and "fc_errorView c' = Some (fv_next f)" and "control_ok c'"
  shows "errors_ok (f\<lparr>fv_shown := insert (fv_next f) (fv_shown f), fv_controls := (fv_controls f)[i := c'],
    fv_errorViews := fv_errorViews f @ [fv_next f], fv_next := Suc (fv_next f)\<rparr>)"
proof -
  have fresh: "fc_errorView (fv_controls f ! j) \<noteq> Some (fv_next f)" if "j < length (fv_controls f)" for j
    using assms(1) that unfolding errors_ok_def by blast
  have nth: "fc_errorView ((fv_controls f)[i := c'] ! j) = Some x \<longleftrightarrow>
      fc_errorView (fv_controls f ! j) = Some x \<or> j = i \<and> x = fv_next f" if j: "j < length (fv_controls f)" for j x
    using assms(2-4) by (cases "j = i") auto
  have "list_all control_ok ((fv_controls f)[i := c'])"
    using assms(1,5) by (simp add: errors_ok_def list_all_update)
  moreover have "\<forall>e. e \<in> set (fv_errorViews f @ [fv_next f]) \<longleftrightarrow>
      (\<exists>j < length (fv_controls f). fc_errorView ((fv_controls f)[i := c'] ! j) = Some e)"
    using assms(1,2) nth unfolding errors_ok_def by auto
  moreover have "j = k" if jk: "j < length (fv_controls f)" "k < length (fv_controls f)"
      "fc_errorView ((fv_controls f)[i := c'] ! j) = Some e" "fc_errorView ((fv_controls f)[i := c'] ! k) = Some e" for j k e
    using assms(1) jk nth [OF jk(1), of e] nth [OF jk(2), of e] fresh [OF jk(1)] fresh [OF jk(2)] unfolding errors_ok_def by blast
  ultimately show ?thesis using assms(1) unfolding errors_ok_def by (auto simp: less_Suc_eq)
qed


lemma isValidDidChange_ok:
  assumes "errors_ok (f\<lparr>fv_controls := (fv_controls f)[i := old]\<rparr>)" and "i < length (fv_controls f)"
    and "fc_observes (fv_controls f ! i)" and "fc_errorView old = None" and "fc_errorView (fv_controls f ! i) = None"
  shows "errors_ok (isValidDidChange i f)"
proof -
  let ?c = "fv_controls f ! i" and ?g = "f\<lparr>fv_controls := (fv_controls f)[i := old]\<rparr>"
  have i: "i < length (fv_controls ?g)" "fc_errorView (fv_controls ?g ! i) = None" using assms(2,4) by simp_all
  show ?thesis
  proof (cases "\<not> fc_isValid ?c \<and> fc_inserted ?c")
    case True
    have "control_ok (?c\<lparr>fc_errorView := Some (fv_next f)\<rparr>)" using True assms(3) by (simp add: control_ok_def)
    then show ?thesis using errors_ok_new [OF assms(1) i, of "?c\<lparr>fc_errorView := Some (fv_next f)\<rparr>"] True assms(5)
      by (simp add: isValidDidChange_def Let_def)
  next
    case False
    have "control_ok ?c" using False assms(5) by (auto simp: control_ok_def)
    then show ?thesis using errors_ok_keep [OF assms(1) i(1), of ?c] False assms(4,5) i
      by (auto simp: isValidDidChange_def Let_def)
  qed
qed

lemma set_isValid_ok:
  assumes "errors_ok f" and "i < length (fv_controls f)"
  shows "errors_ok (set_isValid i b f)"
proof -
  let ?c = "fv_controls f ! i"
  have ok: "control_ok ?c" using assms by (simp add: errors_ok_def list_all_length)
  show ?thesis
  proof (cases "fc_isValid ?c = b")
    case True
    then show ?thesis using assms(1) by (simp add: set_isValid_def)
  next
    case False
    show ?thesis
    proof (cases "fc_errorView ?c")
      case None
      let ?f2 = "f\<lparr>fv_controls := (fv_controls f)[i := ?c\<lparr>fc_isValid := b\<rparr>]\<rparr>"
      have will: "isValidWillChange i f = f" using None by (simp add: isValidWillChange_def Let_def)
      have same: "?f2\<lparr>fv_controls := (fv_controls ?f2)[i := ?c]\<rparr> = f" by simp
      have "errors_ok (isValidDidChange i ?f2)" if "fc_observes ?c"
        by (rule isValidDidChange_ok [of ?f2 i ?c, unfolded same]) (use assms that None in simp_all)
      moreover have "errors_ok ?f2" if no: "\<not> fc_observes ?c"
        by (rule errors_ok_keep [OF assms]) (use no None in \<open>simp_all add: control_ok_def\<close>)
      ultimately show ?thesis using False will by (simp add: set_isValid_def Let_def)
    next
      case (Some e)
      have c: "fc_observes ?c" "fc_inserted ?c" "\<not> fc_isValid ?c" "b" using ok Some False by (auto simp: control_ok_def)
      let ?c' = "?c\<lparr>fc_errorView := None, fc_isValid := b\<rparr>"
      have "errors_ok (f\<lparr>fv_shown := fv_shown f - {e}, fv_controls := (fv_controls f)[i := ?c'],
          fv_errorViews := filter (\<lambda>x. x \<noteq> e) (fv_errorViews f)\<rparr>)"
        by (rule errors_ok_drop [OF assms Some]) (use c in \<open>simp_all add: control_ok_def\<close>)
      moreover have "set_isValid i b f = f\<lparr>fv_shown := fv_shown f - {e}, fv_controls := (fv_controls f)[i := ?c'],
          fv_errorViews := filter (\<lambda>x. x \<noteq> e) (fv_errorViews f)\<rparr>"
        using c Some assms(2) by (simp add: set_isValid_def isValidWillChange_def isValidDidChange_def Let_def)
      ultimately show ?thesis by simp
    qed
  qed
qed

lemma inserted_ok:
  assumes "errors_ok f" and "i < length (fv_controls f)" and "\<not> fc_inserted (fv_controls f ! i)"
  shows "errors_ok (control_didInsertElement i f)"
proof -
  let ?c = "fv_controls f ! i" and ?f1 = "f\<lparr>fv_controls := (fv_controls f)[i := (fv_controls f ! i)\<lparr>fc_inserted := True\<rparr>]\<rparr>"
  have "control_ok ?c" using assms(1,2) by (simp add: errors_ok_def list_all_length)
  then have none: "fc_errorView ?c = None" using assms(3) by (auto simp: control_ok_def)
  have same: "?f1\<lparr>fv_controls := (fv_controls ?f1)[i := ?c]\<rparr> = f" by simp
  have "errors_ok (isValidDidChange i ?f1)" if "fc_observes ?c"
    by (rule isValidDidChange_ok [of ?f1 i ?c, unfolded same]) (use assms that none in simp_all)
  moreover have "errors_ok ?f1" if no: "\<not> fc_observes ?c"
    by (rule errors_ok_keep [OF assms(1,2)]) (use no none in \<open>simp_all add: control_ok_def\<close>)
  ultimately show ?thesis by (simp add: control_didInsertElement_def Let_def)
qed

text \<open>What happens to the controls of a form: their validity changes, or their element is inserted.\<close>

datatype form_event = ValidityChanged nat bool | ControlInserted nat

definition form_handle :: "form_event \<Rightarrow> form_errors \<Rightarrow> form_errors" where
  "form_handle e f = (case e of
       ValidityChanged i b \<Rightarrow> if i < length (fv_controls f) then set_isValid i b f else f
     | ControlInserted i \<Rightarrow> if i < length (fv_controls f) \<and> \<not> fc_inserted (fv_controls f ! i) then control_didInsertElement i f else f)"

definition new_form :: "(bool \<times> bool) list \<Rightarrow> form_errors" where
  "new_form cs = \<lparr>fv_controls = map (\<lambda>(obs, v). \<lparr>fc_observes = obs, fc_isValid = v, fc_inserted = False, fc_errorView = None\<rparr>) cs,
     fv_errorViews = [], fv_shown = {}, fv_next = 0\<rparr>"

lemma new_form_ok: "errors_ok (new_form cs)"
  by (auto simp: errors_ok_def new_form_def list_all_length control_ok_def split_beta)

lemma form_handle_ok: "errors_ok f \<Longrightarrow> errors_ok (form_handle e f)"
  by (cases e) (simp_all add: form_handle_def set_isValid_ok inserted_ok)

lemma form_run_ok: "errors_ok f \<Longrightarrow> errors_ok (fold form_handle es f)"
  by (induction es arbitrary: f) (simp_all add: form_handle_ok)

lemma bex_nth: "(\<exists>x \<in> set xs. P x) \<longleftrightarrow> (\<exists>i < length xs. P (xs ! i))"
  by (metis in_set_conv_nth)

lemma control_ok_of:
  assumes "errors_ok f" and "c \<in> set (fv_controls f)"
  shows "fc_errorView c \<noteq> None \<longleftrightarrow> fc_observes c \<and> fc_inserted c \<and> \<not> fc_isValid c"
proof -
  have "list_all control_ok (fv_controls f)" using assms(1) unfolding errors_ok_def by (rule conjunct1)
  then have "control_ok c" using assms(2) by (simp add: list_all_iff)
  then show ?thesis unfolding control_ok_def by blast
qed

lemma error_views_of:
  assumes "errors_ok f"
  shows "set (fv_errorViews f) = {e. \<exists>c \<in> set (fv_controls f). fc_errorView c = Some e}"
proof -
  have "e \<in> set (fv_errorViews f) \<longleftrightarrow> (\<exists>i < length (fv_controls f). fc_errorView (fv_controls f ! i) = Some e)" for e
    using assms unfolding errors_ok_def by (elim conjE) (erule spec)
  then show ?thesis by (simp add: set_eq_iff bex_nth)
qed


text \<open>
  When the properties of the form change while a message is shown, the message of the destroyed
  control stays, and the form is invalid for good: no later change of the new controls removes it.
\<close>

theorem stale_message_after_rebuild:
  "form_isValid (fold form_handle [ControlInserted 0, ValidityChanged 0 True]
      (propertiesDidChange [\<lparr>fc_observes = True, fc_isValid = False, fc_inserted = False, fc_errorView = None\<rparr>]
        (fold form_handle [ControlInserted 0] (new_form [(True, False)])))) = False"
  by (simp add: form_isValid_def form_handle_def new_form_def control_didInsertElement_def set_isValid_def isValidDidChange_def
      isValidWillChange_def propertiesDidChange_def Let_def)

end
