(* ===== verification/Tree_Edits.thy ===== *)
theory Tree_Edits
  imports Lazy_Tree "HOL-Library.Multiset"
begin

text \<open>
  Changes of the tree under a lazy tree view: the arrays of children of its items, taking an item
  out of one of them and putting it into another, and what that does to the rows of the view.
\<close>

section \<open>Children of items\<close>

fun find_item :: "item \<Rightarrow> tree_item \<Rightarrow> tree_item option" and find_forest :: "item \<Rightarrow> tree_item list \<Rightarrow> tree_item option" where
  "find_item p (TreeItem x kids) = (if x = p then Some (TreeItem x kids)
     else case kids of None \<Rightarrow> None | Some ks \<Rightarrow> find_forest p ks)"
| "find_forest p [] = None"
| "find_forest p (t # ts) = (case find_item p t of None \<Rightarrow> find_forest p ts | Some u \<Rightarrow> Some u)"

text \<open>The array that holds the children of an item, or the content of the view.\<close>

definition kids_of :: "item \<Rightarrow> tree_item list \<Rightarrow> tree_item list option" where
  "kids_of p ts = (case find_forest p ts of None \<Rightarrow> None | Some t \<Rightarrow> treeItemChildren t)"

definition content_of :: "tree_item list \<Rightarrow> item option \<Rightarrow> tree_item list option" where
  "content_of ts q = (case q of None \<Rightarrow> Some ts | Some p \<Rightarrow> kids_of p ts)"

text \<open>Changing such an array in place.\<close>

fun upd_item :: "item \<Rightarrow> (tree_item list \<Rightarrow> tree_item list) \<Rightarrow> tree_item \<Rightarrow> tree_item"
and upd_forest :: "item \<Rightarrow> (tree_item list \<Rightarrow> tree_item list) \<Rightarrow> tree_item list \<Rightarrow> tree_item list" where
  "upd_item p f (TreeItem x kids) = TreeItem x (case kids of None \<Rightarrow> None
     | Some ks \<Rightarrow> Some (if x = p then f ks else upd_forest p f ks))"
| "upd_forest p f [] = []"
| "upd_forest p f (t # ts) = upd_item p f t # upd_forest p f ts"

definition edit_content :: "item option \<Rightarrow> (tree_item list \<Rightarrow> tree_item list) \<Rightarrow> tree_item list \<Rightarrow> tree_item list" where
  "edit_content q f ts = (case q of None \<Rightarrow> f ts | Some p \<Rightarrow> upd_forest p f ts)"

section \<open>Editing a tree\<close>

lemma visible_forest_append: "visible_forest E (a @ b) lv q = visible_forest E a lv q @ visible_forest E b lv q"
  by (induction a) simp_all

lemma forest_ids_append: "forest_ids (a @ b) = forest_ids a @ forest_ids b"
  by (induction a) simp_all

lemma visible_forest_hd: "visible_forest E ts lv q \<noteq> [] \<Longrightarrow> fst (snd (hd (visible_forest E ts lv q))) = lv"
proof (cases ts)
  case (Cons t us)
  then show ?thesis by (cases t) (simp add: visible_rows.simps)
qed simp

lemma upd_absent:
  "p \<notin> set (item_ids t) \<Longrightarrow> upd_item p f t = t"
  "p \<notin> set (forest_ids ts) \<Longrightarrow> upd_forest p f ts = ts"
proof (induction p f t and p f ts rule: upd_item_upd_forest.induct)
  case (1 p f x kids)
  then show ?case by (cases kids) auto
qed simp_all

lemma upd_id [simp]: "upd_item p (\<lambda>k. k) t = t" "upd_forest p (\<lambda>k. k) ts = ts"
proof (induction p "\<lambda>k :: tree_item list. k" t and p "\<lambda>k :: tree_item list. k" ts rule: upd_item_upd_forest.induct)
  case (1 p x kids)
  then show ?case by (cases kids) simp_all
qed simp_all

lemma find_absent:
  "find_item p t = None \<longleftrightarrow> p \<notin> set (item_ids t)"
  "find_forest p ts = None \<longleftrightarrow> p \<notin> set (forest_ids ts)"
proof (induction p t and p ts rule: find_item_find_forest.induct)
  case (1 p x kids)
  then show ?case by (cases kids) auto
qed (auto split: option.splits)

lemma find_tid:
  "find_item p t = Some u \<Longrightarrow> tid u = p"
  "find_forest p ts = Some u \<Longrightarrow> tid u = p"
proof (induction p t and p ts rule: find_item_find_forest.induct)
  case (1 p x kids)
  then show ?case by (auto split: if_splits option.splits)
qed (auto split: option.splits)

text \<open>The place of an item in the list of all items: only what is below it changes.\<close>

lemma upd_ids:
  "find_item p t = Some u \<Longrightarrow> treeItemChildren u = Some ks \<Longrightarrow> distinct (item_ids t) \<Longrightarrow>
     \<exists>a b. \<forall>f. item_ids (upd_item p f t) = a @ forest_ids (f ks) @ b"
  "find_forest p ts = Some u \<Longrightarrow> treeItemChildren u = Some ks \<Longrightarrow> distinct (forest_ids ts) \<Longrightarrow>
     \<exists>a b. \<forall>f. forest_ids (upd_forest p f ts) = a @ forest_ids (f ks) @ b"
proof (induction p t and p ts rule: find_item_find_forest.induct)
  case (1 p x kids)
  show ?case
  proof (cases "x = p")
    case True
    then have "kids = Some ks" using 1(2,3) by auto
    then show ?thesis using True by (intro exI [of _ "[p]"] exI [of _ "[]"]) simp
  next
    case False
    then obtain ks0 where ks0: "kids = Some ks0" "find_forest p ks0 = Some u" using 1(2) by (auto split: option.splits)
    then obtain a b where "\<forall>f. forest_ids (upd_forest p f ks0) = a @ forest_ids (f ks) @ b"
      using 1(1) [OF False ks0] 1(3,4) by auto
    then show ?thesis using False ks0 by (intro exI [of _ "x # a"] exI [of _ b]) simp
  qed
next
  case (2 p)
  then show ?case by simp
next
  case (3 p t ts)
  show ?case
  proof (cases "find_item p t")
    case None
    then obtain a b where "\<forall>f. forest_ids (upd_forest p f ts) = a @ forest_ids (f ks) @ b"
      using 3(2) 3(3-5) by auto
    moreover have "upd_item p f t = t" for f using None find_absent(1) upd_absent(1) by blast
    ultimately show ?thesis by (intro exI [of _ "item_ids t @ a"] exI [of _ b]) simp
  next
    case (Some w)
    then have "w = u" using 3(3) by simp
    then obtain a b where "\<forall>f. item_ids (upd_item p f t) = a @ forest_ids (f ks) @ b"
      using 3(1) Some 3(4,5) by auto
    moreover have "p \<in> set (item_ids t)" using Some find_absent(1) [of p t] by auto
    then have "p \<notin> set (forest_ids ts)" using 3(5) by auto
    then have "upd_forest p f ts = ts" for f using upd_absent(2) by blast
    ultimately show ?thesis by (intro exI [of _ a] exI [of _ "b @ forest_ids ts"]) simp
  qed
qed

text \<open>The same for the rows of an expanded item that is itself in a row.\<close>

definition row_level :: "item \<times> nat \<times> item option \<Rightarrow> nat" where
  "row_level e = fst (snd e)"

lemma visible_in_ids:
  "(p, v, q) \<in> set (visible_rows E t lv par) \<Longrightarrow> p \<in> set (item_ids t)"
  "(p, v, q) \<in> set (visible_forest E ts lv par) \<Longrightarrow> p \<in> set (forest_ids ts)"
  using visible_ids [of E] by (force dest: subsetD)+

lemma upd_rows:
  "find_item p t = Some u \<Longrightarrow> treeItemChildren u = Some ks \<Longrightarrow> distinct (item_ids t) \<Longrightarrow> p \<in> E \<Longrightarrow>
     (p, v, q) \<in> set (visible_rows E t lv par) \<Longrightarrow>
     \<exists>pre post. (\<forall>f. visible_rows E (upd_item p f t) lv par = pre @ (p, v, q) # visible_forest E (f ks) (Suc v) (Some p) @ post)
       \<and> (post = [] \<or> row_level (hd post) \<le> v) \<and> lv \<le> v"
  "find_forest p ts = Some u \<Longrightarrow> treeItemChildren u = Some ks \<Longrightarrow> distinct (forest_ids ts) \<Longrightarrow> p \<in> E \<Longrightarrow>
     (p, v, q) \<in> set (visible_forest E ts lv par) \<Longrightarrow>
     \<exists>pre post. (\<forall>f. visible_forest E (upd_forest p f ts) lv par = pre @ (p, v, q) # visible_forest E (f ks) (Suc v) (Some p) @ post)
       \<and> (post = [] \<or> row_level (hd post) \<le> v) \<and> lv \<le> v"
proof (induction p t and p ts arbitrary: lv par and lv par rule: find_item_find_forest.induct)
  case (1 p x kids)
  show ?case
  proof (cases "x = p")
    case True
    then have k: "kids = Some ks" using 1(2,3) by auto
    then have "p \<notin> set (forest_ids ks)" using 1(4) True by simp
    then have "(p, v, q) \<notin> set (visible_forest E ks (Suc lv) (Some p))" using visible_in_ids(2) by blast
    then have "v = lv \<and> q = par" using 1(5,6) True k by auto
    then show ?thesis using True k 1(5) by (intro exI [of _ "[]"]) auto
  next
    case False
    then obtain ks0 where ks0: "kids = Some ks0" "find_forest p ks0 = Some u" using 1(2) by (auto split: option.splits)
    have "x \<in> E \<and> (p, v, q) \<in> set (visible_forest E ks0 (Suc lv) (Some x))"
      using 1(6) False ks0(1) by (cases "x \<in> E") simp_all
    then have x: "x \<in> E" "(p, v, q) \<in> set (visible_forest E ks0 (Suc lv) (Some x))" by blast+
    then obtain pre post where c: "\<forall>f. visible_forest E (upd_forest p f ks0) (Suc lv) (Some x)
        = pre @ (p, v, q) # visible_forest E (f ks) (Suc v) (Some p) @ post" "post = [] \<or> row_level (hd post) \<le> v" "Suc lv \<le> v"
      using 1(1) [OF False ks0 1(3) _ 1(5), of "Suc lv" "Some x"] 1(4) ks0 by (simp del: append_assoc) blast
    have "\<forall>f. visible_rows E (upd_item p f (TreeItem x kids)) lv par
        = ((x, lv, par) # pre) @ (p, v, q) # visible_forest E (f ks) (Suc v) (Some p) @ post"
      using c(1) False x(1) ks0(1) by simp
    then show ?thesis using c(2,3) Suc_leD by blast
  qed
next
  case (2 p)
  then show ?case by simp
next
  case (3 p t ts)
  show ?case
  proof (cases "find_item p t")
    case None
    then have nt: "p \<notin> set (item_ids t)" using find_absent(1) by blast
    then have mem: "(p, v, q) \<in> set (visible_forest E ts lv par)" using 3(7) visible_in_ids(1) by fastforce
    have fts: "find_forest p ts = Some u" "distinct (forest_ids ts)" using None 3(3,5) by simp_all
    obtain pre post where c: "\<forall>f. visible_forest E (upd_forest p f ts) lv par
        = pre @ (p, v, q) # visible_forest E (f ks) (Suc v) (Some p) @ post" "post = [] \<or> row_level (hd post) \<le> v" "lv \<le> v"
      using 3(2) [OF None fts(1) 3(4) fts(2) 3(6) mem] by blast
    have "\<forall>f. visible_forest E (upd_forest p f (t # ts)) lv par
        = (visible_rows E t lv par @ pre) @ (p, v, q) # visible_forest E (f ks) (Suc v) (Some p) @ post"
      using c(1) upd_absent(1) [OF nt] by simp
    then show ?thesis using c(2,3) by blast
  next
    case (Some w)
    then have w: "w = u" using 3(3) by simp
    have "p \<in> set (item_ids t)" using Some find_absent(1) [of p t] by auto
    then have nts: "p \<notin> set (forest_ids ts)" using 3(5) by auto
    then have mem: "(p, v, q) \<in> set (visible_rows E t lv par)" using 3(7) visible_in_ids(2) by fastforce
    have ft: "find_item p t = Some u" "distinct (item_ids t)" using Some w 3(5) by simp_all
    obtain pre post where c: "\<forall>f. visible_rows E (upd_item p f t) lv par
        = pre @ (p, v, q) # visible_forest E (f ks) (Suc v) (Some p) @ post" "post = [] \<or> row_level (hd post) \<le> v" "lv \<le> v"
      using 3(1) [OF ft(1) 3(4) ft(2) 3(6) mem] by blast
    let ?post = "post @ visible_forest E ts lv par"
    have "\<forall>f. visible_forest E (upd_forest p f (t # ts)) lv par
        = pre @ (p, v, q) # visible_forest E (f ks) (Suc v) (Some p) @ ?post"
      using c(1) upd_absent(2) [OF nts] by simp
    moreover have "?post = [] \<or> row_level (hd ?post) \<le> v"
      using c(2,3) visible_forest_hd [of E ts lv par]
      by (cases post; cases "visible_forest E ts lv par = []") (auto simp: row_level_def)
    ultimately show ?thesis using c(3) by blast
  qed
qed


text \<open>The children of every item, by their names.\<close>

fun fam_item :: "tree_item \<Rightarrow> (item \<times> item list) list" and fam_forest :: "tree_item list \<Rightarrow> (item \<times> item list) list" where
  "fam_item (TreeItem x None) = []"
| "fam_item (TreeItem x (Some ks)) = (x, map tid ks) # fam_forest ks"
| "fam_forest [] = []"
| "fam_forest (t # ts) = fam_item t @ fam_forest ts"

lemma fam_append: "fam_forest (a @ b) = fam_forest a @ fam_forest b"
  by (induction a) simp_all

lemma fam_in_ids:
  "(p, is) \<in> set (fam_item t) \<Longrightarrow> p \<in> set (item_ids t)"
  "(p, is) \<in> set (fam_forest ts) \<Longrightarrow> p \<in> set (forest_ids ts)"
  by (induction t and ts rule: fam_item_fam_forest.induct) auto

lemma upd_tids: "map tid (upd_forest p f ts) = map tid ts"
proof (induction ts)
  case (Cons t ts)
  then show ?case by (cases t) simp
qed simp

lemma find_fam:
  "find_item p t = Some u \<Longrightarrow> treeItemChildren u = Some ks \<Longrightarrow> (p, map tid ks) \<in> set (fam_item t)"
  "find_forest p ts = Some u \<Longrightarrow> treeItemChildren u = Some ks \<Longrightarrow> (p, map tid ks) \<in> set (fam_forest ts)"
proof (induction p t and p ts rule: find_item_find_forest.induct)
  case (1 p x kids)
  then show ?case by (cases kids) (auto split: if_splits)
qed (auto split: option.splits)

lemma fam_find:
  "(p, is) \<in> set (fam_item t) \<Longrightarrow> distinct (item_ids t) \<Longrightarrow> \<exists>u ks. find_item p t = Some u \<and> treeItemChildren u = Some ks \<and> map tid ks = is"
  "(p, is) \<in> set (fam_forest ts) \<Longrightarrow> distinct (forest_ids ts) \<Longrightarrow>
     \<exists>u ks. find_forest p ts = Some u \<and> treeItemChildren u = Some ks \<and> map tid ks = is"
proof (induction t and ts rule: fam_item_fam_forest.induct)
  case (2 x ks)
  have "x \<noteq> p" if "(p, is) \<in> set (fam_forest ks)" using that 2(3) fam_in_ids(2) by fastforce
  then show ?case using 2 fam_in_ids(2) [of x "is" ks] by auto
next
  case (4 t ts)
  show ?case
  proof (cases "(p, is) \<in> set (fam_item t)")
    case True
    then show ?thesis using 4(1) 4(4) by auto
  next
    case False
    then have in_ts: "(p, is) \<in> set (fam_forest ts)" using 4(3) by simp
    then have "p \<notin> set (item_ids t)" using fam_in_ids(2) [of p "is" ts] 4(4) by auto
    then have "find_item p t = None" using find_absent(1) by blast
    then show ?thesis using 4(2) [OF in_ts] 4(4) by simp
  qed
qed simp_all

lemma upd_fam:
  "find_item p t = Some u \<Longrightarrow> treeItemChildren u = Some ks \<Longrightarrow> distinct (item_ids t) \<Longrightarrow>
     \<exists>A. \<forall>f. set (fam_item (upd_item p f t)) = A \<union> {(p, map tid (f ks))} \<union> set (fam_forest (f ks))"
  "find_forest p ts = Some u \<Longrightarrow> treeItemChildren u = Some ks \<Longrightarrow> distinct (forest_ids ts) \<Longrightarrow>
     \<exists>A. \<forall>f. set (fam_forest (upd_forest p f ts)) = A \<union> {(p, map tid (f ks))} \<union> set (fam_forest (f ks))"
proof (induction p t and p ts rule: find_item_find_forest.induct)
  case (1 p x kids)
  show ?case
  proof (cases "x = p")
    case True
    then have "kids = Some ks" using 1(2,3) by auto
    then show ?thesis using True by (intro exI [of _ "{}"]) auto
  next
    case False
    then obtain ks0 where ks0: "kids = Some ks0" "find_forest p ks0 = Some u" using 1(2) by (auto split: option.splits)
    then obtain A where "\<forall>f. set (fam_forest (upd_forest p f ks0)) = A \<union> {(p, map tid (f ks))} \<union> set (fam_forest (f ks))"
      using 1(1) [OF False ks0] 1(3,4) by auto
    then show ?thesis using False ks0 by (intro exI [of _ "insert (x, map tid ks0) A"]) (auto simp: upd_tids)
  qed
next
  case (2 p)
  then show ?case by simp
next
  case (3 p t ts)
  show ?case
  proof (cases "find_item p t")
    case None
    then obtain A where "\<forall>f. set (fam_forest (upd_forest p f ts)) = A \<union> {(p, map tid (f ks))} \<union> set (fam_forest (f ks))"
      using 3(2) 3(3-5) by auto
    moreover have "upd_item p f t = t" for f using None find_absent(1) upd_absent(1) by blast
    ultimately show ?thesis by (intro exI [of _ "set (fam_item t) \<union> A"]) auto
  next
    case (Some w)
    then have "w = u" using 3(3) by simp
    then obtain A where "\<forall>f. set (fam_item (upd_item p f t)) = A \<union> {(p, map tid (f ks))} \<union> set (fam_forest (f ks))"
      using 3(1) Some 3(4,5) by auto
    moreover have "p \<in> set (item_ids t)" using Some find_absent(1) [of p t] by auto
    then have "p \<notin> set (forest_ids ts)" using 3(5) by auto
    then have "upd_forest p f ts = ts" for f using upd_absent(2) by blast
    ultimately show ?thesis by (intro exI [of _ "A \<union> set (fam_forest ts)"]) auto
  qed
qed

lemma tid_in_ids: "tid t \<in> set (item_ids t)"
  by (cases t rule: fam_item.cases) simp_all

lemma top_in_ids: "c \<in> set ts \<Longrightarrow> set (item_ids c) \<subseteq> set (forest_ids ts)"
  by (induction ts) auto

lemma find_top: "c \<in> set ts \<Longrightarrow> distinct (forest_ids ts) \<Longrightarrow> find_forest (tid c) ts = Some c"
proof (induction ts)
  case (Cons t ts)
  have self: "find_item (tid c) c = Some c" by (cases c) simp
  show ?case
  proof (cases "c \<in> set ts")
    case True
    then have "tid c \<notin> set (item_ids t)" using top_in_ids [OF True] tid_in_ids [of c] Cons.prems(2) by auto
    then have "find_item (tid c) t = None" using find_absent(1) by blast
    then show ?thesis using Cons True by simp
  next
    case False
    then show ?thesis using Cons.prems(1) self by simp
  qed
qed simp

lemma find_child:
  "find_item p t = Some u \<Longrightarrow> treeItemChildren u = Some ks \<Longrightarrow> c \<in> set ks \<Longrightarrow> distinct (item_ids t) \<Longrightarrow>
     find_item (tid c) t = Some c \<and> set (item_ids c) \<subseteq> set (item_ids t)"
  "find_forest p ts = Some u \<Longrightarrow> treeItemChildren u = Some ks \<Longrightarrow> c \<in> set ks \<Longrightarrow> distinct (forest_ids ts) \<Longrightarrow>
     find_forest (tid c) ts = Some c \<and> set (item_ids c) \<subseteq> set (forest_ids ts)"
proof (induction p t and p ts rule: find_item_find_forest.induct)
  case (1 p x kids)
  show ?case
  proof (cases "x = p")
    case True
    then have k: "kids = Some ks" using 1(2,3) by auto
    have "tid c \<noteq> x" using top_in_ids [OF 1(4)] tid_in_ids [of c] 1(5) k by auto
    then show ?thesis using k 1(4,5) find_top [OF 1(4)] top_in_ids [OF 1(4)] by auto
  next
    case False
    then obtain ks0 where ks0: "kids = Some ks0" "find_forest p ks0 = Some u" using 1(2) by (auto split: option.splits)
    then have IH: "find_forest (tid c) ks0 = Some c \<and> set (item_ids c) \<subseteq> set (forest_ids ks0)"
      using 1(1) [OF False ks0 1(3,4)] 1(5) by simp
    then have "tid c \<noteq> x" using tid_in_ids [of c] 1(5) ks0(1) by auto
    then show ?thesis using IH ks0(1) by auto
  qed
next
  case (2 p)
  then show ?case by simp
next
  case (3 p t ts)
  show ?case
  proof (cases "find_item p t")
    case None
    then have IH: "find_forest (tid c) ts = Some c \<and> set (item_ids c) \<subseteq> set (forest_ids ts)" using 3(2) 3(3-6) by auto
    then have "tid c \<notin> set (item_ids t)" using tid_in_ids [of c] 3(6) by auto
    then have "find_item (tid c) t = None" using find_absent(1) by blast
    then show ?thesis using IH by auto
  next
    case (Some w)
    then show ?thesis using 3(1) 3(3-6) by auto
  qed
qed


section \<open>The shape of the rows\<close>

text \<open>
  Every row belongs to the top of the walk or is a child of an expanded item in an earlier row, and
  all rows in between are deeper than that item.
\<close>

lemma row_origin:
  "(b, w, r) \<in> set (visible_rows E t lv par) \<Longrightarrow> distinct (item_ids t) \<Longrightarrow>
     (r = par \<and> w = lv \<and> b = tid t) \<or>
     (\<exists>p u ks. r = Some p \<and> p \<in> E \<and> find_item p t = Some u \<and> treeItemChildren u = Some ks \<and> b \<in> tid ` set ks)"
  "(b, w, r) \<in> set (visible_forest E ts lv par) \<Longrightarrow> distinct (forest_ids ts) \<Longrightarrow>
     (r = par \<and> w = lv \<and> b \<in> tid ` set ts) \<or>
     (\<exists>p u ks. r = Some p \<and> p \<in> E \<and> find_forest p ts = Some u \<and> treeItemChildren u = Some ks \<and> b \<in> tid ` set ks)"
proof (induction E t lv par and E ts lv par rule: visible_rows_visible_forest.induct)
  case (1 E x kids lv par)
  show ?case
  proof (cases "x \<in> E \<and> kids \<noteq> None \<and> (b, w, r) \<noteq> (x, lv, par)")
    case True
    then obtain ks0 where ks0: "x \<in> E" "kids = Some ks0" by auto
    then have mem: "(b, w, r) \<in> set (visible_forest E ks0 (Suc lv) (Some x))" using 1(2) True by auto
    have d: "distinct (forest_ids ks0)" "x \<notin> set (forest_ids ks0)" using 1(3) ks0(2) by simp_all
    from 1(1) [OF ks0 mem d(1)] show ?thesis
    proof (elim disjE exE conjE)
      assume "r = Some x" "b \<in> tid ` set ks0"
      then show ?thesis using ks0 by (intro disjI2 exI [of _ x]) simp
    next
      fix p u ks assume c: "r = Some p" "p \<in> E" "find_forest p ks0 = Some u" "treeItemChildren u = Some ks" "b \<in> tid ` set ks"
      then have "x \<noteq> p" using d(2) find_absent(2) [of p ks0] by auto
      then show ?thesis using c ks0 by (intro disjI2 exI [of _ p]) simp
    qed
  next
    case False
    then have "(b, w, r) = (x, lv, par)" using 1(2) by (cases kids; cases "x \<in> E") auto
    then show ?thesis by simp
  qed
next
  case (2 E lv par)
  then show ?case by simp
next
  case (3 E t ts lv par)
  show ?case
  proof (cases "(b, w, r) \<in> set (visible_rows E t lv par)")
    case True
    then show ?thesis using 3(1) 3(4) by auto
  next
    case False
    then have mem: "(b, w, r) \<in> set (visible_forest E ts lv par)" using 3(3) by simp
    from 3(2) [OF mem] 3(4) consider "r = par \<and> w = lv \<and> b \<in> tid ` set ts"
      | p u ks where "r = Some p" "p \<in> E" "find_forest p ts = Some u" "treeItemChildren u = Some ks" "b \<in> tid ` set ks" by auto
    then show ?thesis
    proof cases
      case 2
      then have "p \<in> set (forest_ids ts)" using find_absent(2) [of p ts] by auto
      then have "find_item p t = None" using find_absent(1) [of p t] 3(4) by auto
      then show ?thesis using 2 by (intro disjI2 exI [of _ p]) simp
    qed auto
  qed
qed

definition parent_block :: "item set \<Rightarrow> nat \<Rightarrow> item option \<Rightarrow> (item \<times> nat \<times> item option) list \<Rightarrow> bool" where
  "parent_block E lv par es \<longleftrightarrow> (\<forall>r < length es. lv \<le> row_level (es ! r)) \<and> (\<forall>r < length es. snd (es ! r) = (lv, par) \<or>
     (\<exists>s < r. snd (snd (es ! r)) = Some (fst (es ! s)) \<and> fst (es ! s) \<in> E \<and> row_level (es ! r) = Suc (row_level (es ! s))
       \<and> (\<forall>k. s < k \<and> k \<le> r \<longrightarrow> row_level (es ! s) < row_level (es ! k))))"

lemma parent_block_append:
  assumes "parent_block E lv par xs" and "parent_block E lv par ys"
  shows "parent_block E lv par (xs @ ys)"
proof -
  have "snd ((xs @ ys) ! r) = (lv, par) \<or> (\<exists>s < r. snd (snd ((xs @ ys) ! r)) = Some (fst ((xs @ ys) ! s)) \<and> fst ((xs @ ys) ! s) \<in> E
      \<and> row_level ((xs @ ys) ! r) = Suc (row_level ((xs @ ys) ! s))
      \<and> (\<forall>k. s < k \<and> k \<le> r \<longrightarrow> row_level ((xs @ ys) ! s) < row_level ((xs @ ys) ! k)))" if r: "r < length (xs @ ys)" for r
  proof (cases "r < length xs")
    case True
    with assms(1) consider "snd (xs ! r) = (lv, par)"
      | s where "s < r" "snd (snd (xs ! r)) = Some (fst (xs ! s))" "fst (xs ! s) \<in> E" "row_level (xs ! r) = Suc (row_level (xs ! s))"
        "\<forall>k. s < k \<and> k \<le> r \<longrightarrow> row_level (xs ! s) < row_level (xs ! k)"
      unfolding parent_block_def by blast
    then show ?thesis
    proof cases
      case 2
      with True show ?thesis by (intro disjI2 exI [of _ s]) (simp add: nth_append)
    qed (simp add: True nth_append)
  next
    case False
    then obtain j where j: "r = length xs + j" "j < length ys" using r by (metis add_less_cancel_left le_Suc_ex length_append not_le)
    with assms(2) consider "snd (ys ! j) = (lv, par)"
      | s where "s < j" "snd (snd (ys ! j)) = Some (fst (ys ! s))" "fst (ys ! s) \<in> E" "row_level (ys ! j) = Suc (row_level (ys ! s))"
        "\<forall>k. s < k \<and> k \<le> j \<longrightarrow> row_level (ys ! s) < row_level (ys ! k)"
      unfolding parent_block_def by blast
    then show ?thesis
    proof cases
      case 2
      have "row_level (ys ! s) < row_level ((xs @ ys) ! k)" if k: "length xs + s < k" "k \<le> r" for k
        using spec [OF 2(5), of "k - length xs"] k j(1) by (auto simp: nth_append)
      with 2 j show ?thesis by (intro disjI2 exI [of _ "length xs + s"]) (simp add: nth_append)
    qed (simp add: j nth_append)
  qed
  moreover have "\<forall>r < length (xs @ ys). lv \<le> row_level ((xs @ ys) ! r)"
    using assms by (auto simp: parent_block_def nth_append)
  ultimately show ?thesis unfolding parent_block_def by blast
qed

lemma parent_block_Cons:
  assumes "parent_block E (Suc lv) (Some x) es" and "es = [] \<or> x \<in> E"
  shows "parent_block E lv par ((x, lv, par) # es)"
proof -
  let ?es = "(x, lv, par) # es"
  have deep: "lv < row_level (es ! k)" if "k < length es" for k using assms(1) that by (auto simp: parent_block_def Suc_le_eq)
  have "snd (?es ! r) = (lv, par) \<or> (\<exists>s < r. snd (snd (?es ! r)) = Some (fst (?es ! s)) \<and> fst (?es ! s) \<in> E
      \<and> row_level (?es ! r) = Suc (row_level (?es ! s)) \<and> (\<forall>k. s < k \<and> k \<le> r \<longrightarrow> row_level (?es ! s) < row_level (?es ! k)))"
    if r: "r < length ?es" for r
  proof (cases r)
    case (Suc j)
    then have j: "j < length es" using r by simp
    with assms(1) consider "snd (es ! j) = (Suc lv, Some x)"
      | s where "s < j" "snd (snd (es ! j)) = Some (fst (es ! s))" "fst (es ! s) \<in> E" "row_level (es ! j) = Suc (row_level (es ! s))"
        "\<forall>k. s < k \<and> k \<le> j \<longrightarrow> row_level (es ! s) < row_level (es ! k)"
      unfolding parent_block_def by blast
    then show ?thesis
    proof cases
      case 1
      have "row_level (x, lv, par) < row_level (?es ! k)" if k: "0 < k" "k \<le> r" for k
        using deep [of "k - 1"] k Suc j by (cases k) (simp_all add: row_level_def)
      with 1 Suc j assms(2) show ?thesis by (intro disjI2 exI [of _ 0]) (auto simp: row_level_def)
    next
      case 2
      have "row_level (es ! s) < row_level (?es ! k)" if k: "Suc s < k" "k \<le> r" for k
        using 2(5) k Suc by (cases k) simp_all
      with 2 Suc show ?thesis by (intro disjI2 exI [of _ "Suc s"]) simp
    qed
  qed simp
  moreover have "\<forall>r < length ?es. lv \<le> row_level (?es ! r)"
    using deep by (auto simp: nth_Cons row_level_def less_imp_le split: nat.splits)
  ultimately show ?thesis unfolding parent_block_def by blast
qed

lemma visible_parent_block:
  "parent_block E lv par (visible_rows E t lv par)"
  "parent_block E lv par (visible_forest E ts lv par)"
proof (induction E t lv par and E ts lv par rule: visible_rows_visible_forest.induct)
  case (1 E x kids lv par)
  have nil: "parent_block E (Suc lv) (Some x) []" by (simp add: parent_block_def)
  show ?case
  proof (cases "x \<in> E \<and> kids \<noteq> None")
    case True
    then obtain ks where ks: "x \<in> E" "kids = Some ks" by auto
    with 1 [OF ks] show ?thesis by (simp add: parent_block_Cons)
  next
    case False
    then have "visible_rows E (TreeItem x kids) lv par = [(x, lv, par)]" by (cases kids) auto
    with parent_block_Cons [OF nil] show ?thesis by simp
  qed
next
  case (2 E lv par)
  then show ?case by (simp add: parent_block_def)
next
  case (3 E t ts lv par)
  then show ?case by (simp add: parent_block_append)
qed


section \<open>Taking an item out and putting it in\<close>

lemma edit_id [simp]: "edit_content q (\<lambda>k. k) ts = ts"
  by (cases q) (simp_all add: edit_content_def)

lemma content_find: "content_of ts (Some p) = Some ks \<longleftrightarrow> (\<exists>u. find_forest p ts = Some u \<and> treeItemChildren u = Some ks)"
  by (auto simp: content_of_def kids_of_def split: option.splits)

lemma edit_ids:
  assumes "content_of ts q = Some ks" and "distinct (forest_ids ts)"
  shows "\<exists>a b. \<forall>f. forest_ids (edit_content q f ts) = a @ forest_ids (f ks) @ b"
proof (cases q)
  case None
  then show ?thesis using assms(1) by (intro exI [of _ "[]"]) (simp add: edit_content_def content_of_def)
next
  case (Some p)
  then show ?thesis using upd_ids(2) assms by (auto simp: edit_content_def content_find)
qed

lemma edit_fam:
  assumes "content_of ts q = Some ks" and "distinct (forest_ids ts)"
  shows "\<exists>A. \<forall>f. set (fam_forest (edit_content q f ts))
    = A \<union> (case q of None \<Rightarrow> {} | Some p \<Rightarrow> {(p, map tid (f ks))}) \<union> set (fam_forest (f ks))"
proof (cases q)
  case None
  then show ?thesis using assms(1) by (intro exI [of _ "{}"]) (simp add: edit_content_def content_of_def)
next
  case (Some p)
  then obtain u where u: "find_forest p ts = Some u" "treeItemChildren u = Some ks" using assms(1) by (auto simp: content_find)
  then show ?thesis using upd_fam(2) [OF u assms(2)] Some by (simp add: edit_content_def)
qed

text \<open>The rows where the children of a visible, expanded item begin, and their level.\<close>

definition kids_at :: "item set \<Rightarrow> tree_item list \<Rightarrow> item option \<Rightarrow> nat \<Rightarrow> bool" where
  "kids_at E ts q n \<longleftrightarrow> (case q of None \<Rightarrow> n = 0 | Some p \<Rightarrow> p \<in> E \<and> (\<exists>v r. (p, v, r) \<in> set (visible_forest E ts 0 None) \<and> n = Suc v))"

lemma edit_rows:
  assumes "content_of ts q = Some ks" and "distinct (forest_ids ts)" and "kids_at E ts q n"
  shows "\<exists>pre post. (\<forall>f. visible_forest E (edit_content q f ts) 0 None = pre @ visible_forest E (f ks) n q @ post)
    \<and> (post = [] \<or> row_level (hd post) < n)
    \<and> (case q of None \<Rightarrow> pre = [] | Some p \<Rightarrow> \<exists>pre' v r. pre = pre' @ [(p, v, r)] \<and> n = Suc v)"
proof (cases q)
  case None
  then show ?thesis using assms(1,3) by (intro exI [of _ "[]"]) (simp add: edit_content_def content_of_def kids_at_def)
next
  case (Some p)
  then obtain u where u: "find_forest p ts = Some u" "treeItemChildren u = Some ks" using assms(1) by (auto simp: content_find)
  obtain v r where p: "p \<in> E" "(p, v, r) \<in> set (visible_forest E ts 0 None)" "n = Suc v" using Some assms(3) by (auto simp: kids_at_def)
  obtain pre post where c: "\<forall>f. visible_forest E (upd_forest p f ts) 0 None = pre @ (p, v, r) # visible_forest E (f ks) (Suc v) (Some p) @ post"
      "post = [] \<or> row_level (hd post) \<le> v"
    using upd_rows(2) [OF u assms(2) p(1,2)] by blast
  then show ?thesis using Some p(3)
    by (intro exI [of _ "pre @ [(p, v, r)]"] exI [of _ post]) (auto simp: edit_content_def)
qed

lemma filter_out:
  "distinct (forest_ids (us @ X # ws)) \<Longrightarrow> filter (\<lambda>t. tid t \<noteq> tid X) (us @ X # ws) = us @ ws"
proof -
  assume d: "distinct (forest_ids (us @ X # ws))"
  have "tid t \<noteq> tid X" if t: "t \<in> set us \<or> t \<in> set ws" for t
  proof -
    have "tid t \<in> set (forest_ids us) \<or> tid t \<in> set (forest_ids ws)" using t top_in_ids tid_in_ids by blast
    then show ?thesis using d tid_in_ids [of X] by (auto simp: forest_ids_append)
  qed
  then have "filter (\<lambda>t. tid t \<noteq> tid X) us = us" "filter (\<lambda>t. tid t \<noteq> tid X) ws = ws" by (simp_all add: filter_id_conv)
  then show ?thesis by simp
qed

lemma collapsed_rows: "tid X \<notin> E \<Longrightarrow> visible_rows E X lv q = [(tid X, lv, q)]"
  by (cases X) simp

lemma row_parent:
  assumes "distinct (forest_ids ts)" and "(x, w, q) \<in> set (visible_forest E ts 0 None)"
  shows "kids_at E ts q w \<and> (\<exists>ks. content_of ts q = Some ks \<and> x \<in> tid ` set ks)"
proof -
  let ?es = "visible_forest E ts 0 None"
  obtain r where r: "r < length ?es" "?es ! r = (x, w, q)" using assms(2) by (auto simp: in_set_conv_nth)
  have at: "kids_at E ts q w"
  proof -
    from visible_parent_block(2) [of E 0 None ts] r consider "(w, q) = (0, None)"
      | s where "s < r" "q = Some (fst (?es ! s))" "fst (?es ! s) \<in> E" "w = Suc (row_level (?es ! s))"
      unfolding parent_block_def by (fastforce simp: row_level_def)
    then show ?thesis
    proof cases
      case 2
      then have "?es ! s \<in> set ?es" using r(1) by simp
      then have "(fst (?es ! s), row_level (?es ! s), snd (snd (?es ! s))) \<in> set ?es" by (simp add: row_level_def)
      then show ?thesis unfolding kids_at_def 2(2) using 2(3,4) by auto
    qed (simp add: kids_at_def)
  qed
  from row_origin(2) [OF assms(2,1)] have "\<exists>ks. content_of ts q = Some ks \<and> x \<in> tid ` set ks"
  proof (elim disjE exE conjE)
    assume "q = None" "x \<in> tid ` set ts"
    then show ?thesis by (simp add: content_of_def)
  next
    fix p u ks assume "q = Some p" "find_forest p ts = Some u" "treeItemChildren u = Some ks" "x \<in> tid ` set ks"
    then show ?thesis using content_find by blast
  qed
  then show ?thesis using at by blast
qed

lemma tops_visible: "tid ` set us \<subseteq> fst ` set (visible_forest E us w q)"
proof (induction us)
  case (Cons u us)
  have "tid u \<in> fst ` set (visible_rows E u w q)" 
  proof (cases u)
    case (TreeItem x kids)
    have "(x, w, q) \<in> set (visible_rows E u w q)" unfolding TreeItem visible_rows.simps by (rule list.set_intros(1))
    then show ?thesis unfolding TreeItem by force
  qed
  then show ?case using Cons.IH by (simp add: image_Un le_supI2)
qed simp

text \<open>Taking out an item that is not expanded removes its row and nothing else.\<close>

lemma take_out:
  assumes "distinct (forest_ids ts)" and "(x, w, q) \<in> set (visible_forest E ts 0 None)" and "x \<notin> E"
    and "ts1 = edit_content q (filter (\<lambda>t. tid t \<noteq> x)) ts"
  shows "\<exists>L R X us ws. visible_forest E ts 0 None = L @ (x, w, q) # R \<and> visible_forest E ts1 0 None = L @ R
    \<and> find_forest x ts = Some X \<and> tid X = x \<and> mset (forest_ids ts) = mset (forest_ids ts1) + mset (item_ids X)
    \<and> content_of ts q = Some (us @ X # ws) \<and> filter (\<lambda>t. tid t \<noteq> x) (us @ X # ws) = us @ ws
    \<and> tid ` set us \<subseteq> fst ` set L \<and> tid ` set ws \<subseteq> fst ` set R
    \<and> (ws \<noteq> [] \<longrightarrow> R \<noteq> [] \<and> fst (hd R) = tid (hd ws)) \<and> (ws = [] \<longrightarrow> R = [] \<or> row_level (hd R) < w)"
proof -
  obtain ks where ks: "kids_at E ts q w" "content_of ts q = Some ks" "x \<in> tid ` set ks" using row_parent [OF assms(1,2)] by blast
  obtain X where X: "X \<in> set ks" "tid X = x" using ks(3) by auto
  then obtain us ws where split: "ks = us @ X # ws" using split_list by fast
  obtain a b where ids: "\<forall>f. forest_ids (edit_content q f ts) = a @ forest_ids (f ks) @ b" using edit_ids [OF ks(2) assms(1)] by blast
  have ts: "forest_ids ts = a @ forest_ids ks @ b" using spec [OF ids, of "\<lambda>k. k"] by simp
  then have "distinct (forest_ids (us @ X # ws))" using assms(1) split by simp
  then have out: "filter (\<lambda>t. tid t \<noteq> x) ks = us @ ws" using filter_out [of us X ws] X(2) split by simp
  have ids1: "forest_ids ts1 = a @ forest_ids (us @ ws) @ b" using ids assms(4) out by simp
  obtain pre post where rows: "\<forall>f. visible_forest E (edit_content q f ts) 0 None = pre @ visible_forest E (f ks) w q @ post"
      and post: "post = [] \<or> row_level (hd post) < w"
    using edit_rows [OF ks(2) assms(1) ks(1)] by blast
  have "visible_forest E ts 0 None = pre @ visible_forest E ks w q @ post" using spec [OF rows, of "\<lambda>k. k"] by simp
  then have V: "visible_forest E ts 0 None = (pre @ visible_forest E us w q) @ (x, w, q) # visible_forest E ws w q @ post"
    using split X(2) assms(3) collapsed_rows [of X E w q] by (simp add: visible_forest_append)
  have V1: "visible_forest E ts1 0 None = (pre @ visible_forest E us w q) @ visible_forest E ws w q @ post"
    using rows assms(4) out by (simp add: visible_forest_append)
  have find: "find_forest x ts = Some X"
  proof (cases q)
    case None
    then show ?thesis using ks(2) find_top [OF X(1)] assms(1) X(2) by (simp add: content_of_def)
  next
    case (Some p)
    then obtain u where "find_forest p ts = Some u" "treeItemChildren u = Some ks" using ks(2) by (auto simp: content_find)
    from find_child(2) [OF this X(1) assms(1)] show ?thesis using X(2) by simp
  qed
  have ms: "mset (forest_ids ts) = mset (forest_ids ts1) + mset (item_ids X)"
    using ts ids1 split by (simp add: forest_ids_append)
  have tops: "tid ` set us \<subseteq> fst ` set (pre @ visible_forest E us w q)" "tid ` set ws \<subseteq> fst ` set (visible_forest E ws w q @ post)"
    using tops_visible [of us E w q] tops_visible [of ws E w q] by (simp_all add: image_Un le_supI1 le_supI2)
  have next_row: "visible_forest E ws w q @ post \<noteq> [] \<and> fst (hd (visible_forest E ws w q @ post)) = tid (hd ws)" if "ws \<noteq> []"
  proof -
    obtain c cs where "ws = c # cs" using \<open>ws \<noteq> []\<close> by (cases ws) auto
    then show ?thesis by (cases c) (simp add: visible_rows.simps)
  qed
  have last_row: "visible_forest E ws w q @ post = [] \<or> row_level (hd (visible_forest E ws w q @ post)) < w" if "ws = []"
    using post that by simp
  show ?thesis
    by (rule exI [of _ "pre @ visible_forest E us w q"], rule exI [of _ "visible_forest E ws w q @ post"], rule exI [of _ X],
        rule exI [of _ us], rule exI [of _ ws], intro conjI V V1 find X(2) ms tops)
      (use ks(2) split out next_row last_row in simp_all)
qed


lemma find_upd_same:
  "find_item p t = Some u \<Longrightarrow> treeItemChildren u = Some ks \<Longrightarrow>
     \<exists>u'. find_item p (upd_item p f t) = Some u' \<and> treeItemChildren u' = Some (f ks)"
  "find_forest p ts = Some u \<Longrightarrow> treeItemChildren u = Some ks \<Longrightarrow>
     \<exists>u'. find_forest p (upd_forest p f ts) = Some u' \<and> treeItemChildren u' = Some (f ks)"
proof (induction p t and p ts rule: find_item_find_forest.induct)
  case (1 p x kids)
  then show ?case by (cases kids) (auto split: if_splits)
next
  case (2 p)
  then show ?case by simp
next
  case (3 p t ts)
  show ?case
  proof (cases "find_item p t")
    case None
    then have "upd_item p f t = t" using find_absent(1) upd_absent(1) by blast
    then show ?thesis using 3(2) [OF None] 3(3,4) None by simp
  next
    case (Some w)
    then show ?thesis using 3(1) 3(3,4) by auto
  qed
qed

lemma content_edit_same: "content_of ts q = Some ks \<Longrightarrow> content_of (edit_content q f ts) q = Some (f ks)"
proof (cases q)
  case None
  assume "content_of ts q = Some ks"
  then show ?thesis using None by (simp add: content_of_def edit_content_def)
next
  case (Some p)
  assume "content_of ts q = Some ks"
  then obtain u where "find_forest p ts = Some u" "treeItemChildren u = Some ks" using Some by (auto simp: content_find)
  from find_upd_same(2) [OF this, of f] show ?thesis unfolding Some content_find by (simp add: edit_content_def)
qed

text \<open>The other arrays of children keep their items when one is taken out.\<close>

lemma content_edit_other:
  assumes "content_of ts q = Some (us @ X # ws)" and "filter P (us @ X # ws) = us @ ws" and "ts1 = edit_content q (filter P) ts"
    and "distinct (forest_ids ts)" and "distinct (forest_ids ts1)" and "q' \<noteq> q" and "content_of ts q' = Some ks"
    and "\<And>p. q' = Some p \<Longrightarrow> p \<notin> set (item_ids X)"
  shows "\<exists>ks1. content_of ts1 q' = Some ks1 \<and> map tid ks1 = map tid ks"
proof (cases q')
  case None
  then obtain p where "q = Some p" using assms(6) by (cases q) auto
  then show ?thesis using None assms(3,7) by (simp add: content_of_def edit_content_def upd_tids)
next
  case (Some p)
  obtain A where A: "\<forall>f. set (fam_forest (edit_content q f ts))
      = A \<union> (case q of None \<Rightarrow> {} | Some p \<Rightarrow> {(p, map tid (f (us @ X # ws)))}) \<union> set (fam_forest (f (us @ X # ws)))"
    using edit_fam [OF assms(1,4)] by blast
  obtain u where u: "find_forest p ts = Some u" "treeItemChildren u = Some ks" using assms(7) Some by (auto simp: content_find)
  have "(p, map tid ks) \<in> set (fam_forest ts)" by (rule find_fam(2) [OF u])
  then have "(p, map tid ks) \<in> A \<union> set (fam_forest (us @ X # ws))"
    using spec [OF A, of "\<lambda>k. k"] assms(6) Some by (auto split: option.splits)
  moreover have "(p, map tid ks) \<notin> set (fam_item X)" using assms(8) [OF Some] fam_in_ids(1) by blast
  ultimately have "(p, map tid ks) \<in> A \<union> set (fam_forest (us @ ws))" by (auto simp: fam_append)
  then have "(p, map tid ks) \<in> set (fam_forest ts1)" unfolding assms(3) spec [OF A, of "filter P"] assms(2) by blast
  from fam_find(2) [OF this assms(5)] show ?thesis using Some content_find by blast
qed

text \<open>
  Putting in an item that is not expanded adds its row: before the row of the item at its position,
  or after the last row below its new parent.
\<close>

lemma put_in:
  assumes "distinct (forest_ids ts)" and "content_of ts q = Some ks" and "kids_at E ts q n" and "i \<le> length ks" and "tid X \<notin> E"
  shows "\<exists>L R. visible_forest E ts 0 None = L @ R
    \<and> visible_forest E (edit_content q (\<lambda>_. insertAt i X ks) ts) 0 None = L @ (tid X, n, q) # R
    \<and> mset (forest_ids (edit_content q (\<lambda>_. insertAt i X ks) ts)) = mset (forest_ids ts) + mset (item_ids X)
    \<and> (i < length ks \<longrightarrow> R \<noteq> [] \<and> fst (hd R) = tid (ks ! i))
    \<and> (i = length ks \<longrightarrow> (R = [] \<or> row_level (hd R) < n)
        \<and> (\<forall>p. q = Some p \<longrightarrow> (\<exists>pre v r K. L = pre @ (p, v, r) # K \<and> n = Suc v \<and> (\<forall>e \<in> set K. n \<le> row_level e))))"
proof -
  obtain pre post where rows: "\<forall>f. visible_forest E (edit_content q f ts) 0 None = pre @ visible_forest E (f ks) n q @ post"
      and post: "post = [] \<or> row_level (hd post) < n"
      and pre: "case q of None \<Rightarrow> pre = [] | Some p \<Rightarrow> \<exists>pre' v r. pre = pre' @ [(p, v, r)] \<and> n = Suc v"
    using edit_rows [OF assms(2,1,3)] by blast
  let ?A = "visible_forest E (take i ks) n q" and ?B = "visible_forest E (drop i ks) n q"
  have "visible_forest E ks n q = ?A @ ?B" using visible_forest_append [of E "take i ks" "drop i ks" n q] by simp
  then have V: "visible_forest E ts 0 None = (pre @ ?A) @ ?B @ post" using spec [OF rows, of "\<lambda>k. k"] by simp
  have V': "visible_forest E (edit_content q (\<lambda>_. insertAt i X ks) ts) 0 None = (pre @ ?A) @ (tid X, n, q) # ?B @ post"
    using spec [OF rows, of "\<lambda>_. insertAt i X ks"] collapsed_rows [OF assms(5), of n q]
    by (simp add: insertAt_def visible_forest_append)
  obtain a b where ids: "\<forall>f. forest_ids (edit_content q f ts) = a @ forest_ids (f ks) @ b" using edit_ids [OF assms(2,1)] by blast
  have "forest_ids ks = forest_ids (take i ks) @ forest_ids (drop i ks)" using forest_ids_append [of "take i ks" "drop i ks"] by simp
  then have ms: "mset (forest_ids (edit_content q (\<lambda>_. insertAt i X ks) ts)) = mset (forest_ids ts) + mset (item_ids X)"
    using spec [OF ids, of "\<lambda>k. k"] spec [OF ids, of "\<lambda>_. insertAt i X ks"] by (simp add: insertAt_def forest_ids_append)
  have before: "?B @ post \<noteq> [] \<and> fst (hd (?B @ post)) = tid (ks ! i)" if "i < length ks"
  proof -
    have "drop i ks = ks ! i # drop (Suc i) ks" using that by (simp add: Cons_nth_drop_Suc)
    then show ?thesis by (cases "ks ! i") (simp add: visible_rows.simps)
  qed
  have "\<forall>e \<in> set (visible_forest E ks n q). n \<le> row_level e"
    using visible_parent_block(2) [of E n q ks] unfolding parent_block_def by (metis in_set_conv_nth)
  then have deep: "\<forall>e \<in> set ?A. n \<le> row_level e" if "i = length ks" using that by simp
  have after: "\<exists>pre' v r K. pre @ ?A = pre' @ (p, v, r) # K \<and> n = Suc v \<and> (\<forall>e \<in> set K. n \<le> row_level e)"
    if i: "i = length ks" and q: "q = Some p" for p
  proof -
    obtain pre' v r where "pre = pre' @ [(p, v, r)]" "n = Suc v" using pre q by auto
    then show ?thesis using deep [OF i] by (intro exI [of _ pre'] exI [of _ v] exI [of _ r] exI [of _ ?A]) simp
  qed
  have last: "?B @ post = [] \<or> row_level (hd (?B @ post)) < n" if "i = length ks"
    using post that by simp
  show ?thesis
  proof (rule exI [of _ "pre @ ?A"], rule exI [of _ "?B @ post"], intro conjI)
    show "visible_forest E ts 0 None = (pre @ ?A) @ ?B @ post" by (rule V)
    show "visible_forest E (edit_content q (\<lambda>_. insertAt i X ks) ts) 0 None = (pre @ ?A) @ (tid X, n, q) # ?B @ post"
      by (rule V')
    show "i < length ks \<longrightarrow> ?B @ post \<noteq> [] \<and> fst (hd (?B @ post)) = tid (ks ! i)" using before by blast
    show "i = length ks \<longrightarrow> (?B @ post = [] \<or> row_level (hd (?B @ post)) < n)
        \<and> (\<forall>p. q = Some p \<longrightarrow> (\<exists>pre' v r K. pre @ ?A = pre' @ (p, v, r) # K \<and> n = Suc v \<and> (\<forall>e \<in> set K. n \<le> row_level e)))"
      using last after by blast
  qed (rule ms)
qed

end
