(* ===== verification/Tree_Drag.thy ===== *)
theory Tree_Drag
  imports Tree_Edits Statechart
begin

text \<open>
  Dragging items of a lazy tree (\<open>views/lazy_tree_view.js\<close>, \<open>views/lazy_list_item_view.js\<close>,
  \<open>views/lazy_tree_item_view.js\<close>): where an item that is dragged over the rows would be dropped, and
  what dropping it does to the tree, its rows and the views that show them.
\<close>

section \<open>Where a dragged item goes\<close>

text \<open>
  \<open>draggingInfo\<close>: at first only the current row; later the row, the new parent (\<open>None\<close> for the root), the
  position among its children (\<open>None\<close> when undefined) and the level.
\<close>

datatype drag_info = StartInfo int | DropInfo int "item option" "int option" int

fun info_index :: "drag_info \<Rightarrow> int" where
  "info_index (StartInfo i) = i"
| "info_index (DropInfo i _ _ _) = i"

text \<open>The level of an item in a row; all items considered below are in rows.\<close>

definition lvl :: "lazy_tree \<Rightarrow> item option \<Rightarrow> int" where
  "lvl t x = (case levelForItem t x of None \<Rightarrow> 0 | Some v \<Rightarrow> v)"

definition tree_itemForRow :: "lazy_tree \<Rightarrow> int \<Rightarrow> item option" where
  "tree_itemForRow t r = objectAt_int (rowToItem (lt_cache t)) r"

definition clamp_row :: "lazy_tree \<Rightarrow> int \<Rightarrow> int" where
  "clamp_row t r = (let r1 = (if r < 0 then 0 else r); n = int (length (rowToItem (lt_cache t))) in if r1 > n then n else r1)"

definition closest_parent :: "lazy_tree \<Rightarrow> int \<Rightarrow> item option" where
  "closest_parent t r = (case tree_itemForRow t (r - 1) of
       None \<Rightarrow> None
     | Some upper \<Rightarrow> if upper \<in> expandedItems t then Some upper
         else List.find (\<lambda>y. lvl t (Some y) < lvl t (Some upper) \<and> y \<in> expandedItems t)
                (rev (take (nat r) (rowToItem (lt_cache t)))))"

text \<open>
  The parent whose level is closest to the level that the horizontal move asks for; \<open>~~(newLeft / 22)\<close>
  drops the fraction.
\<close>

definition trunc_div :: "int \<Rightarrow> int \<Rightarrow> int" where
  "trunc_div a b = (if a < 0 then - ((- a) div b) else a div b)"

definition intended_parent :: "lazy_tree \<Rightarrow> int \<Rightarrow> item option list \<Rightarrow> item option" where
  "intended_parent t intendedLevel ps = fold (\<lambda>p best.
     if best = None \<or> \<bar>lvl t p - intendedLevel\<bar> < \<bar>lvl t best - intendedLevel\<bar> then p else best) ps None"

definition int_index :: "tree_item list \<Rightarrow> item \<Rightarrow> int" where
  "int_index ts b = (case indexOf (map tid ts) b of None \<Rightarrow> -1 | Some i \<Rightarrow> int i)"

definition drop_position :: "lazy_tree \<Rightarrow> item option \<Rightarrow> item option \<Rightarrow> int option result" where
  "drop_position t below parent = (case parent of
       None \<Rightarrow> Inr (Some (case below of Some b \<Rightarrow> int_index (lt_content t) b | None \<Rightarrow> int (length (lt_content t))))
     | Some p \<Rightarrow>
        (case below of
           Some b \<Rightarrow> if lvl t (Some b) = lvl t (Some p) + 1
             then (case kids_of p (lt_content t) of None \<Rightarrow> Inl TypeError | Some ks \<Rightarrow> Inr (Some (int_index ks b)))
             else Inr (map_option (\<lambda>ks. int (length ks)) (kids_of p (lt_content t)))
         | None \<Rightarrow> Inr (map_option (\<lambda>ks. int (length ks)) (kids_of p (lt_content t)))))"

definition possible_parents :: "(item option \<Rightarrow> item option \<Rightarrow> bool) \<Rightarrow> lazy_tree \<Rightarrow> item option \<Rightarrow> int \<Rightarrow> item option list" where
  "possible_parents isValidDrop t movedItem r =
     (case getAncestors t (closest_parent t r) of
        None \<Rightarrow> []
      | Some ps \<Rightarrow> filter (\<lambda>p. lvl t p + 1 - lvl t (tree_itemForRow t r) \<ge> 0 \<and> isValidDrop movedItem p) ps)"

definition indexForMovedItem :: "(item option \<Rightarrow> item option \<Rightarrow> bool) \<Rightarrow> lazy_tree \<Rightarrow> drag_info \<Rightarrow> int \<Rightarrow> int \<Rightarrow> int \<Rightarrow> drag_info result" where
  "indexForMovedItem isValidDrop t draggingInfo proposedIndex originalIndex newLeft =
     (let r = clamp_row t proposedIndex;
          movedItem = tree_itemForRow t originalIndex;
          ps = possible_parents isValidDrop t movedItem r
      in if ps = [] then Inr draggingInfo
         else let parent = intended_parent t (lvl t movedItem + trunc_div newLeft 22) ps
              in rbind (drop_position t (tree_itemForRow t r) parent) (\<lambda>pos.
                 Inr (DropInfo r parent pos (lvl t parent + 1))))"

section \<open>Dropping it\<close>

text \<open>The views between the old and the new row move by one row.\<close>

definition shift_index :: "int \<Rightarrow> int \<Rightarrow> int \<Rightarrow> int" where
  "shift_index from to i = (if i > from \<and> i < to \<or> i < from \<and> i \<ge> to then i + (if from < to then -1 else 1) else i)"

definition shift_views :: "int \<Rightarrow> int \<Rightarrow> item_view list \<Rightarrow> item_view list" where
  "shift_views from to vs = map (\<lambda>v. v\<lparr>contentIndex := map_option (shift_index from to) (contentIndex v)\<rparr>) vs"

definition place_view :: "int \<Rightarrow> int \<Rightarrow> nat \<Rightarrow> item_view list \<Rightarrow> item_view list" where
  "place_view from to k vs = vs[k := (vs ! k)\<lparr>contentIndex := Some (if from < to then to - 1 else to)\<rparr>]"

text \<open>\<open>insertAt\<close> of a mutable array: it throws beyond the end; a negative index counts from the end.\<close>

definition js_insertAt :: "int \<Rightarrow> tree_item \<Rightarrow> tree_item list \<Rightarrow> tree_item list result" where
  "js_insertAt i x xs = (if i > int (length xs) then Inl (ThrownError ''Index out of range'')
     else Inr (insertAt (if i < 0 then nat (int (length xs) + i) else nat i) x xs))"

text \<open>
  \<open>moveItem\<close>: the item is taken out of its array before the new array is touched, so a failing
  insertion leaves it out of the tree; the result has the state and the error, if any.
\<close>

definition insert_moved :: "item option \<Rightarrow> int option \<Rightarrow> tree_item \<Rightarrow> lazy_tree \<Rightarrow> lazy_tree \<times> js_error option" where
  "insert_moved parent pos X t = (case (content_of (lt_content t) parent, pos) of
       (Some ks, Some i) \<Rightarrow> (case js_insertAt i X ks of
           Inl e \<Rightarrow> (t, Some e)
         | Inr ks' \<Rightarrow> (numberOfRowsChanged (t\<lparr>lt_content := edit_content parent (\<lambda>_. ks') (lt_content t)\<rparr>), None))
     | _ \<Rightarrow> (t, Some TypeError))"

definition moveItem :: "int \<Rightarrow> int \<Rightarrow> item option \<Rightarrow> int option \<Rightarrow> int \<Rightarrow> lazy_tree \<Rightarrow> lazy_tree \<times> js_error option" where
  "moveItem from to toParent toPosition level t =
     (let vs = shift_views from to (views (lt_list t)) in
      case (childViewForIndex (lt_list t) (Some from), tree_itemForRow t from) of
        (Some k, Some x) \<Rightarrow>
          (let fromParent = itemToParent (lt_cache t) x;
               t1 = t\<lparr>lt_list := (lt_list t)\<lparr>views := place_view from to k vs, ll_suppress := True\<rparr>,
                      viewLevel := (viewLevel t)(k := Some (nat level)),
                      lt_content := edit_content fromParent (filter (\<lambda>u. tid u \<noteq> x)) (lt_content t)\<rparr>;
               pos = (if fromParent = toParent \<and> from < to then map_option (\<lambda>p. p - 1) toPosition else toPosition)
           in case find_forest x (lt_content t) of None \<Rightarrow> (t1, Some TypeError) | Some u \<Rightarrow> insert_moved toParent pos u t1)
      | _ \<Rightarrow> (t\<lparr>lt_list := (lt_list t)\<lparr>views := vs\<rparr>\<rparr>, Some TypeError))"

definition next_run_loop :: "lazy_tree \<Rightarrow> lazy_tree" where
  "next_run_loop t = t\<lparr>lt_list := (lt_list t)\<lparr>ll_suppress := False\<rparr>\<rparr>"

section \<open>The blocks of the rows\<close>

text \<open>
  An expanded item opens a block of deeper rows; \<open>reaches E es q n r\<close> says that the block of \<open>q\<close>, whose
  children are at level \<open>n\<close>, extends at least to just before row \<open>r\<close>.
\<close>

definition reaches :: "item set \<Rightarrow> (item \<times> nat \<times> item option) list \<Rightarrow> item option \<Rightarrow> nat \<Rightarrow> nat \<Rightarrow> bool" where
  "reaches E es q n r \<longleftrightarrow> r \<le> length es \<and> (case q of None \<Rightarrow> n = 0 | Some p \<Rightarrow> p \<in> E \<and>
     (\<exists>j < r. fst (es ! j) = p \<and> n = Suc (row_level (es ! j)) \<and> (\<forall>k. j < k \<and> k < r \<longrightarrow> n \<le> row_level (es ! k))))"

lemma block_parent:
  assumes "parent_block E 0 None es" and "r < length es"
  obtains (top) "row_level (es ! r) = 0" and "snd (snd (es ! r)) = None"
  | (child) s where "s < r" and "snd (snd (es ! r)) = Some (fst (es ! s))" and "fst (es ! s) \<in> E"
      and "row_level (es ! r) = Suc (row_level (es ! s))"
      and "\<And>k. s < k \<Longrightarrow> k \<le> r \<Longrightarrow> row_level (es ! s) < row_level (es ! k)"
proof -
  from assms have "snd (es ! r) = (0, None) \<or>
     (\<exists>s < r. snd (snd (es ! r)) = Some (fst (es ! s)) \<and> fst (es ! s) \<in> E \<and> row_level (es ! r) = Suc (row_level (es ! s))
       \<and> (\<forall>k. s < k \<and> k \<le> r \<longrightarrow> row_level (es ! s) < row_level (es ! k)))"
    unfolding parent_block_def by blast
  then show ?thesis using top child by (auto simp: row_level_def)
qed

lemma reachesI:
  assumes "fst (es ! j) \<in> E" and "j < r" and "r \<le> length es" and "\<And>k. j < k \<Longrightarrow> k < r \<Longrightarrow> Suc (row_level (es ! j)) \<le> row_level (es ! k)"
  shows "reaches E es (Some (fst (es ! j))) (Suc (row_level (es ! j))) r"
  unfolding reaches_def option.case by (intro conjI exI [of _ j] allI impI) (use assms in auto)

lemma reaches_child:
  assumes "parent_block E 0 None es" and "reaches E es q n r" and "r < length es" and "row_level (es ! r) = n"
  shows "snd (snd (es ! r)) = q"
  using assms(1,3)
proof (cases rule: block_parent)
  case top
  then show ?thesis using assms(2,4) by (auto simp: reaches_def split: option.splits)
next
  case (child s)
  then obtain p j where q: "q = Some p" "j < r" "fst (es ! j) = p" "n = Suc (row_level (es ! j))"
      "\<forall>k. j < k \<and> k < r \<longrightarrow> n \<le> row_level (es ! k)"
    using assms(2,4) by (cases q) (auto simp: reaches_def)
  have "\<not> s < j" using child(5) [of j] child(4) q(2,4) assms(4) by auto
  moreover have "\<not> j < s" using child(1,4) q(4,5) assms(4) by (metis Suc_n_not_le_n)
  ultimately have "s = j" by simp
  then show ?thesis using child(2) q(1,3) by simp
qed

lemma reaches_parent:
  assumes "parent_block E 0 None es" and "distinct (map fst es)" and "reaches E es (Some p) n r" and "(p, v, q) \<in> set es"
  shows "n = Suc v \<and> reaches E es q v r"
proof -
  obtain j where j: "j < r" "r \<le> length es" "fst (es ! j) = p" "n = Suc (row_level (es ! j))"
      "\<forall>k. j < k \<and> k < r \<longrightarrow> n \<le> row_level (es ! k)"
    using assms(3) by (auto simp: reaches_def)
  obtain i where i: "i < length es" "es ! i = (p, v, q)" using assms(4) by (auto simp: in_set_conv_nth)
  then have "i = j" using assms(2) j(1-3) nth_eq_iff_index_eq [of "map fst es" i j] by simp
  then have e: "es ! j = (p, v, q)" "j < length es" using i by simp_all
  then have n: "n = Suc v" using j(4) by (simp add: row_level_def)
  from assms(1) e(2) show ?thesis
  proof (cases rule: block_parent)
    case top
    then show ?thesis using e n j(2) by (simp add: reaches_def row_level_def)
  next
    case (child s)
    have "v \<le> row_level (es ! k)" if "s < k" "k < r" for k
    proof (cases "k \<le> j")
      case True
      then show ?thesis using child(4) child(5) [of k] that e(1) by (simp add: row_level_def)
    next
      case False
      then have "n \<le> row_level (es ! k)" using j(5) that by simp
      then show ?thesis using n by simp
    qed
    moreover have "v = Suc (row_level (es ! s))" "q = Some (fst (es ! s))" using child(2,4) e(1) by (simp_all add: row_level_def)
    ultimately show ?thesis using reachesI [of es s E r] child(1,3) n j(1,2) by simp
  qed
qed

section \<open>The chosen parent\<close>

definition tree_rows :: "lazy_tree \<Rightarrow> (item \<times> nat \<times> item option) list" where
  "tree_rows t = visible_forest (expandedItems t) (lt_content t) 0 None"

definition cache_ok :: "lazy_tree \<Rightarrow> bool" where
  "cache_ok t \<longleftrightarrow> distinct (forest_ids (lt_content t)) \<and> lt_cache t = loadCache (expandedItems t) (lt_content t)"

lemma cache_rows_of:
  assumes "cache_ok t"
  shows "distinct (map fst (tree_rows t))" and "parent_block (expandedItems t) 0 None (tree_rows t)"
    and "rowToItem (lt_cache t) = map fst (tree_rows t)"
    and "i < length (tree_rows t) \<Longrightarrow> lvl t (Some (fst (tree_rows t ! i))) = int (row_level (tree_rows t ! i))"
    and "itemToParent (lt_cache t) x = Some p \<longleftrightarrow> (\<exists>v. (x, v, Some p) \<in> set (tree_rows t))"
    and "tree_itemForRow t r = (if 0 \<le> r \<and> r < int (length (tree_rows t)) then Some (fst (tree_rows t ! nat r)) else None)"
proof -
  have d: "distinct (forest_ids (lt_content t))" and c: "lt_cache t = loadCache (expandedItems t) (lt_content t)"
    using assms by (simp_all add: cache_ok_def)
  note l = cache_lookup [OF d, of "expandedItems t"]
  show "distinct (map fst (tree_rows t))" using visible_ids(2) d unfolding tree_rows_def by blast
  show "parent_block (expandedItems t) 0 None (tree_rows t)" unfolding tree_rows_def by (rule visible_parent_block(2))
  show rows: "rowToItem (lt_cache t) = map fst (tree_rows t)" unfolding c tree_rows_def by (rule l(1))
  show "itemToParent (lt_cache t) x = Some p \<longleftrightarrow> (\<exists>v. (x, v, Some p) \<in> set (tree_rows t))" unfolding c tree_rows_def by (rule l(5))
  show "tree_itemForRow t r = (if 0 \<le> r \<and> r < int (length (tree_rows t)) then Some (fst (tree_rows t ! nat r)) else None)"
    unfolding tree_itemForRow_def rows by (auto simp: objectAt_int_def nat_less_iff)
  assume i: "i < length (tree_rows t)"
  then have "(fst (tree_rows t ! i), row_level (tree_rows t ! i), snd (snd (tree_rows t ! i))) \<in> set (tree_rows t)"
    by (simp add: row_level_def)
  then have "itemToLevel (lt_cache t) (fst (tree_rows t ! i)) = Some (row_level (tree_rows t ! i))"
    unfolding c tree_rows_def using l(4) by blast
  then show "lvl t (Some (fst (tree_rows t ! i))) = int (row_level (tree_rows t ! i))" by (simp add: lvl_def levelForItem_def)
qed

text \<open>A parent that reaches row \<open>r\<close>; the level the code computes for it is that of its block.\<close>

definition fits :: "lazy_tree \<Rightarrow> nat \<Rightarrow> item option \<Rightarrow> bool" where
  "fits t r q \<longleftrightarrow> (\<exists>n. reaches (expandedItems t) (tree_rows t) q n r \<and> lvl t q + 1 = int n)"

lemma fits_None: "r \<le> length (tree_rows t) \<Longrightarrow> fits t r None"
  by (simp add: fits_def reaches_def lvl_def levelForItem_def)

lemma fits_Some:
  assumes "cache_ok t"
  shows "fits t r (Some p) \<longleftrightarrow> (\<exists>n. reaches (expandedItems t) (tree_rows t) (Some p) n r)"
proof
  assume "\<exists>n. reaches (expandedItems t) (tree_rows t) (Some p) n r"
  then obtain n j where n: "reaches (expandedItems t) (tree_rows t) (Some p) n r" "j < r" "r \<le> length (tree_rows t)"
      "fst (tree_rows t ! j) = p" "n = Suc (row_level (tree_rows t ! j))"
    by (auto simp: reaches_def)
  then have "lvl t (Some p) + 1 = int n" using cache_rows_of(4) [OF assms, of j] by simp
  then show "fits t r (Some p)" using n(1) by (auto simp: fits_def)
qed (auto simp: fits_def)

lemma find_after: "List.find P xs = None \<Longrightarrow> P y \<Longrightarrow> List.find P (xs @ y # ys) = Some y"
  by (induction xs) (auto split: if_splits)

lemma closest_fits:
  assumes ok: "cache_ok t" and r: "r \<le> length (tree_rows t)"
  shows "fits t r (closest_parent t (int r))"
proof (cases r)
  case 0
  then have "closest_parent t (int r) = None" by (simp add: closest_parent_def cache_rows_of(6) [OF ok])
  then show ?thesis using r by (simp add: fits_None)
next
  case (Suc k)
  let ?es = "tree_rows t" and ?E = "expandedItems t"
  let ?u = "fst (?es ! k)" and ?P = "\<lambda>y. lvl t (Some y) < lvl t (Some (fst (?es ! k))) \<and> y \<in> ?E"
  have k: "k < length ?es" "tree_itemForRow t (int r - 1) = Some ?u" using Suc r cache_rows_of(6) [OF ok] by simp_all
  have closest: "closest_parent t (int r) = (if ?u \<in> ?E then Some ?u else List.find ?P (rev (map fst (take (Suc k) ?es))))"
    unfolding closest_parent_def k(2) nat_int option.case cache_rows_of(3) [OF ok] unfolding Suc by (simp add: take_map)
  have here: "reaches ?E ?es (Some ?u) (Suc (row_level (?es ! k))) r" if "?u \<in> ?E"
    using reachesI [of ?es k ?E r] that Suc r by simp
  show ?thesis
  proof (cases "?u \<in> ?E")
    case True
    then show ?thesis using here closest fits_Some [OF ok] by auto
  next
    case False
    then have c: "closest_parent t (int r) = List.find ?P (rev (map fst (take (Suc k) ?es)))" using closest by simp
    have lv: "lvl t (Some (fst (?es ! i))) = int (row_level (?es ! i))" if "i \<le> k" for i
      using cache_rows_of(4) [OF ok] that k(1) by simp
    from cache_rows_of(2) [OF ok] k(1) show ?thesis
    proof (cases rule: block_parent)
      case top
      have "\<not> ?P y" if "y \<in> set (rev (map fst (take (Suc k) ?es)))" for y
      proof -
        obtain i where "i \<le> k" "y = fst (?es ! i)" using \<open>y \<in> _\<close> k(1) by (auto simp: in_set_conv_nth less_Suc_eq_le)
        then show ?thesis using lv [of i] lv [of k] top(1) by simp
      qed
      then have "closest_parent t (int r) = None" unfolding c by (metis (no_types, lifting) find_None_iff)
      then show ?thesis using r by (simp add: fits_None)
    next
      case (child s)
      have split: "take (Suc k) ?es = take s ?es @ ?es ! s # drop (Suc s) (take (Suc k) ?es)"
        using child(1) k(1) id_take_nth_drop [of s "take (Suc k) ?es"] by (simp add: min_def)
      have skip: "\<forall>y \<in> set (map fst (drop (Suc s) (take (Suc k) ?es))). \<not> ?P y"
      proof
        fix y assume "y \<in> set (map fst (drop (Suc s) (take (Suc k) ?es)))"
        then obtain i where "i < k - s" "y = fst (?es ! (Suc s + i))" using k(1) by (auto simp: in_set_conv_nth)
        then have "Suc s + i \<le> k" "y = fst (?es ! (Suc s + i))" by simp_all
        then show "\<not> ?P y" using lv [of "Suc s + i"] lv [of k] child(4) child(5) [of "Suc s + i"] by simp
      qed
      have "?P (fst (?es ! s))" using child(1,3,4) lv [of s] lv [of k] by simp
      moreover have "List.find ?P (rev (map fst (drop (Suc s) (take (Suc k) ?es)))) = None"
        using skip by (simp add: find_None_iff)
      ultimately have "closest_parent t (int r) = Some (fst (?es ! s))"
        unfolding c by (subst split) (simp add: find_after)
      moreover have "reaches ?E ?es (Some (fst (?es ! s))) (Suc (row_level (?es ! s))) r"
        using reachesI [of ?es s ?E r] child(1,3) child(5) Suc r by (simp add: Suc_le_eq)
      ultimately show ?thesis using fits_Some [OF ok] by auto
    qed
  qed
qed

lemma ancestors_fit:
  assumes ok: "cache_ok t" and "fits t r (Some y)" and "ancestor_chain n (itemToParent (lt_cache t)) y = Some xs" and "p \<in> set xs"
  shows "fits t r (Some p)"
  using assms(2-)
proof (induction n arbitrary: y xs)
  case (Suc n)
  show ?case
  proof (cases "itemToParent (lt_cache t) y")
    case None
    then have "xs = [y]" using Suc.prems(2) by simp
    then show ?thesis using Suc.prems(1,3) by simp
  next
    case (Some q)
    then obtain ys where ys: "xs = y # ys" "ancestor_chain n (itemToParent (lt_cache t)) q = Some ys" using Suc.prems(2) by auto
    obtain v where v: "(y, v, Some q) \<in> set (tree_rows t)" using Some cache_rows_of(5) [OF ok] by blast
    obtain m where "reaches (expandedItems t) (tree_rows t) (Some y) m r" using Suc.prems(1) by (auto simp: fits_def)
    from reaches_parent [OF cache_rows_of(2,1) [OF ok] this v] have "fits t r (Some q)" using fits_Some [OF ok] by blast
    then show ?thesis using Suc.IH [OF _ ys(2)] Suc.prems(1,3) ys(1) by auto
  qed
qed simp

lemma possible_fit:
  assumes ok: "cache_ok t" and r: "r \<le> length (tree_rows t)" and "q \<in> set (possible_parents valid t m (int r))"
  shows "fits t r q" and "lvl t (tree_itemForRow t (int r)) \<le> lvl t q + 1" and "valid m q"
proof -
  obtain ps where ps: "getAncestors t (closest_parent t (int r)) = Some ps" "q \<in> set ps" "lvl t q + 1 - lvl t (tree_itemForRow t (int r)) \<ge> 0"
      "valid m q"
    using assms(3) by (cases "getAncestors t (closest_parent t (int r))") (auto simp: possible_parents_def)
  then show "lvl t (tree_itemForRow t (int r)) \<le> lvl t q + 1" "valid m q" by simp_all
  show "fits t r q"
  proof (cases q)
    case None
    then show ?thesis using r by (simp add: fits_None)
  next
    case (Some p)
    then obtain y xs where y: "closest_parent t (int r) = Some y" "p \<in> set xs"
        "ancestor_chain (Suc (length (rowToItem (lt_cache t)))) (itemToParent (lt_cache t)) y = Some xs"
      using ps(1,2) by (cases "closest_parent t (int r)") (auto simp: getAncestors_def)
    then show ?thesis using ancestors_fit [OF ok _ y(3,2)] closest_fits [OF ok r] Some by simp
  qed
qed

lemma intended_in: "ps \<noteq> [] \<Longrightarrow> intended_parent t v ps \<in> set ps"
proof -
  let ?f = "\<lambda>p best. if best = None \<or> \<bar>lvl t p - v\<bar> < \<bar>lvl t best - v\<bar> then p else best"
  have "fold ?f ps b \<in> insert b (set ps)" for ps b by (induction ps arbitrary: b) (auto split: if_splits)
  moreover assume "ps \<noteq> []"
  then obtain p qs where "ps = p # qs" by (cases ps) auto
  ultimately show ?thesis by (auto simp: intended_parent_def)
qed

text \<open>
  What \<open>indexForMovedItem\<close> answers: a row, a parent whose block reaches that row, and a position in
  its children: that of the item below when this is a child of it, else behind all of them.
\<close>

definition good_drop :: "lazy_tree \<Rightarrow> nat \<Rightarrow> item option \<Rightarrow> int \<Rightarrow> nat \<Rightarrow> tree_item list \<Rightarrow> bool" where
  "good_drop t r q i n ks \<longleftrightarrow> reaches (expandedItems t) (tree_rows t) q n r \<and> content_of (lt_content t) q = Some ks \<and>
     (if r < length (tree_rows t) \<and> row_level (tree_rows t ! r) = n
      then indexOf (map tid ks) (fst (tree_rows t ! r)) = Some (nat i) \<and> 0 \<le> i
      else (r < length (tree_rows t) \<longrightarrow> row_level (tree_rows t ! r) < n) \<and> i = int (length ks))"

lemma indexOf_in: "x \<in> set xs \<Longrightarrow> \<exists>i < length xs. indexOf xs x = Some i \<and> xs ! i = x"
  using indexOf_None [of xs x] indexOf_Some_nth [of xs x] by (cases "indexOf xs x") auto

lemma index_good_drop:
  assumes ok: "cache_ok t" and "indexForMovedItem valid t (StartInfo i0) prop orig left = Inr (DropInfo to q pos lev)"
    and ks: "content_of (lt_content t) q = Some ks"
  shows "\<exists>r n i. to = int r \<and> r \<le> length (tree_rows t) \<and> lev = int n \<and> pos = Some i \<and> good_drop t r q i n ks"
proof -
  define r where "r = nat (clamp_row t prop)"
  let ?ps = "possible_parents valid t (tree_itemForRow t orig) (int r)" and ?es = "tree_rows t"
  have r: "clamp_row t prop = int r" "r \<le> length ?es"
    by (auto simp: r_def clamp_row_def cache_rows_of(3) [OF ok] Let_def)
  have ne: "?ps \<noteq> []" using assms(2) by (auto simp: indexForMovedItem_def r(1) Let_def split: if_splits)
  let ?q = "intended_parent t (lvl t (tree_itemForRow t orig) + trunc_div left 22) ?ps"
  have "rbind (drop_position t (tree_itemForRow t (int r)) ?q) (\<lambda>pos. Inr (DropInfo (int r) ?q pos (lvl t ?q + 1))) = Inr (DropInfo to q pos lev)"
    using assms(2) unfolding indexForMovedItem_def r(1) Let_def if_not_P [OF ne] .
  then have q: "q = ?q" "to = int r" "lev = lvl t q + 1" "drop_position t (tree_itemForRow t (int r)) q = Inr pos"
    by auto
  then have "q \<in> set ?ps" using intended_in [OF ne] by simp
  note f = possible_fit [OF ok r(2) this]
  obtain n where n: "reaches (expandedItems t) ?es q n r" "lvl t q + 1 = int n" using f(1) by (auto simp: fits_def)
  have below: "tree_itemForRow t (int r) = (if r < length ?es then Some (fst (?es ! r)) else None)"
    by (simp add: cache_rows_of(6) [OF ok])
  have lv: "lvl t (tree_itemForRow t (int r)) = int (row_level (?es ! r))" if "r < length ?es"
    using that cache_rows_of(4) [OF ok] below by simp
  have le: "row_level (?es ! r) \<le> n" if "r < length ?es" using f(2) lv [OF that] n(2) by simp
  have child: "fst (?es ! r) \<in> set (map tid ks)" if "r < length ?es" "row_level (?es ! r) = n"
  proof -
    have "snd (snd (?es ! r)) = q" by (rule reaches_child [OF cache_rows_of(2) [OF ok] n(1) that])
    then have "(fst (?es ! r), row_level (?es ! r), q) = ?es ! r" by (simp add: row_level_def prod_eq_iff)
    then have "(fst (?es ! r), row_level (?es ! r), q) \<in> set ?es" using nth_mem [OF that(1)] by simp
    from row_parent [OF _ this [unfolded tree_rows_def]] show ?thesis using ok ks by (auto simp: cache_ok_def tree_rows_def)
  qed
  have none: "q = None \<Longrightarrow> n = 0" using n(2) by (simp add: lvl_def levelForItem_def)
  show ?thesis
  proof (cases "r < length ?es \<and> row_level (?es ! r) = n")
    case True
    obtain i where i: "indexOf (map tid ks) (fst (?es ! r)) = Some i" using indexOf_in [OF child] True by blast
    then have "pos = Some (int i)"
      using q(4) True ks below lv n(2) by (cases q) (auto simp: drop_position_def int_index_def content_of_def)
    then show ?thesis using r q(2,3) n ks True i by (auto simp: good_drop_def)
  next
    case False
    have "pos = Some (int (length ks))"
      using q(4) False ks below lv n(2) none le by (cases q; cases "r < length ?es") (auto simp: drop_position_def content_of_def)
    then show ?thesis using r q(2,3) n ks False le by (auto simp: good_drop_def)
  qed
qed

section \<open>Taking a row out and putting it back\<close>

lemma nth_removed: "(L @ R) ! k = (L @ e # R) ! (if k < length L then k else Suc k)"
  by (simp add: nth_append Suc_diff_le)

lemma reaches_removed:
  assumes "es = L @ (x, w, q') # R" and "x \<notin> E" and "reaches E es q n r"
  shows "reaches E (L @ R) q n (if length L < r then r - 1 else r)"
proof (cases q)
  case None
  then show ?thesis using assms by (auto simp: reaches_def)
next
  case (Some p)
  let ?r = "if length L < r then r - 1 else r"
  obtain j where j: "j < r" "r \<le> length es" "p \<in> E" "fst (es ! j) = p" "n = Suc (row_level (es ! j))"
      "\<And>k. j < k \<Longrightarrow> k < r \<Longrightarrow> n \<le> row_level (es ! k)"
    using assms(3) Some by (auto simp: reaches_def)
  have "es ! length L = (x, w, q')" using assms(1) by simp
  then have "j \<noteq> length L" using j(3,4) assms(2) by auto
  then have j1: "(L @ R) ! (if j < length L then j else j - 1) = es ! j"
    using assms(1) nth_removed [of L R "if j < length L then j else j - 1" "(x, w, q')"] by (auto split: if_splits)
  have deep: "n \<le> row_level ((L @ R) ! k)" if "(if j < length L then j else j - 1) < k" "k < ?r" for k
    unfolding nth_removed [of L R k "(x, w, q')"] using assms(1) j(6) [of "if k < length L then k else Suc k"] that \<open>j \<noteq> length L\<close>
    by (auto split: if_splits)
  have bound: "(if j < length L then j else j - 1) < ?r" "?r \<le> length (L @ R)"
    using j(1,2) assms(1) \<open>j \<noteq> length L\<close> by (auto split: if_splits)
  show ?thesis
    using reachesI [of "L @ R" "if j < length L then j else j - 1" E ?r] j1 deep bound j(3-5) Some by simp
qed

lemma row_index: "distinct (map fst es) \<Longrightarrow> i < length es \<Longrightarrow> j < length es \<Longrightarrow> fst (es ! i) = fst (es ! j) \<Longrightarrow> i = j"
  using nth_eq_iff_index_eq [of "map fst es" i j] by simp

text \<open>The block of an item has only one end.\<close>

lemma block_end:
  assumes "distinct (map fst es)" and "reaches E es q n r" and "r < length es \<longrightarrow> row_level (es ! r) < n"
    and "es = L @ R" and "R = [] \<or> row_level (hd R) < n"
    and "\<forall>p. q = Some p \<longrightarrow> (\<exists>pre v s K. L = pre @ (p, v, s) # K \<and> n = Suc v \<and> (\<forall>e \<in> set K. n \<le> row_level e))"
  shows "length L = r"
proof (cases q)
  case None
  then show ?thesis using assms(2-5) by (auto simp: reaches_def)
next
  case (Some p)
  obtain pre v s K where L: "L = pre @ (p, v, s) # K" "\<forall>e \<in> set K. n \<le> row_level e" using assms(6) Some by blast
  obtain j where j: "j < r" "r \<le> length es" "fst (es ! j) = p" "\<And>k. j < k \<Longrightarrow> k < r \<Longrightarrow> n \<le> row_level (es ! k)"
    using assms(2) Some by (auto simp: reaches_def)
  have "fst (es ! length pre) = p" "length pre < length es" using assms(4) L(1) by (simp_all add: nth_append)
  then have pre: "length pre = j" using row_index [OF assms(1), of "length pre" j] j(1-3) by simp
  have "\<not> length L < r"
  proof
    assume "length L < r"
    moreover from this have "R \<noteq> []" "es ! length L = hd R" using j(2) assms(4) by (auto simp: nth_append) (cases R; simp)
    ultimately show False using j(4) [of "length L"] assms(5) pre L(1) by simp
  qed
  moreover have "\<not> r < length L"
  proof
    assume r: "r < length L"
    then have "es ! r = K ! (r - Suc j)" "r - Suc j < length K" using assms(4) L(1) pre j(1) by (auto simp: nth_append nth_Cons')
    then have "n \<le> row_level (es ! r)" using L(2) by simp
    then show False using assms(3,4) r by simp
  qed
  ultimately show ?thesis by simp
qed

lemma reaches_kids: "reaches E (visible_forest E ts 0 None) q n r \<Longrightarrow> kids_at E ts q n"
proof (cases q)
  case None
  assume "reaches E (visible_forest E ts 0 None) q n r"
  then show ?thesis using None by (simp add: reaches_def kids_at_def)
next
  case (Some p)
  let ?es = "visible_forest E ts 0 None"
  assume "reaches E (visible_forest E ts 0 None) q n r"
  then obtain j where j: "j < length ?es" "p \<in> E" "fst (?es ! j) = p" "n = Suc (row_level (?es ! j))"
    using Some by (auto simp: reaches_def dest: less_le_trans)
  then have "(p, row_level (?es ! j), snd (snd (?es ! j))) = ?es ! j" by (simp add: row_level_def prod_eq_iff)
  then have "(p, row_level (?es ! j), snd (snd (?es ! j))) \<in> set ?es" using nth_mem [OF j(1)] by simp
  then show ?thesis using Some j(2,4) by (auto simp: kids_at_def)
qed

text \<open>
  Where the item goes once its row is out: a slot of the new parent's children, given by the item on
  the row or, behind the last child, by the end of the block.
\<close>

definition slot_at :: "(item \<times> nat \<times> item option) list \<Rightarrow> nat \<Rightarrow> nat \<Rightarrow> tree_item list \<Rightarrow> nat \<Rightarrow> bool" where
  "slot_at es n r ks i \<longleftrightarrow> (if i < length ks then r < length es \<and> tid (ks ! i) = fst (es ! r)
     else i = length ks \<and> (r < length es \<longrightarrow> row_level (es ! r) < n))"

lemma slot_same:
  assumes d: "distinct (map fst es)" and pb: "parent_block E 0 None es" and es: "es = L @ (x, w, q) # R" and x: "x \<notin> E" "tid X = x"
    and us: "tid ` set us \<subseteq> fst ` set L" and ws: "tid ` set ws \<subseteq> fst ` set R"
    and nxt: "ws \<noteq> [] \<Longrightarrow> R \<noteq> [] \<and> fst (hd R) = tid (hd ws)" "ws = [] \<Longrightarrow> R = [] \<or> row_level (hd R) < w"
    and q: "reaches E es q n r" and w: "w = n"
    and i: "if r < length es \<and> row_level (es ! r) = n then indexOf (map tid (us @ X # ws)) (fst (es ! r)) = Some i
      else (r < length es \<longrightarrow> row_level (es ! r) < n) \<and> i = length (us @ X # ws)"
  shows "if length L < r then 0 < i \<and> slot_at (L @ R) n (r - 1) (us @ ws) (i - 1) else slot_at (L @ R) n r (us @ ws) i"
proof (cases "r < length es \<and> row_level (es ! r) = n")
  case True
  then have at: "i < length (us @ X # ws)" "tid ((us @ X # ws) ! i) = fst (es ! r)"
    using i indexOf_Some_nth [of "map tid (us @ X # ws)" "fst (es ! r)" i] by (metis length_map nth_map)+
  have dis: "x \<notin> fst ` set L" "x \<notin> fst ` set R" "fst ` set L \<inter> fst ` set R = {}" using d es by auto
  have left: "fst (es ! r) \<in> fst ` set L" if "i < length us"
  proof -
    have "tid (us ! i) \<in> fst ` set L" using us that by (meson image_subset_iff nth_mem)
    then show ?thesis using at(2) that by (simp add: nth_append)
  qed
  have right: "fst (es ! r) \<in> fst ` set R" if "length us < i"
  proof -
    have "tid (ws ! (i - Suc (length us))) \<in> fst ` set R" using ws at(1) that by (simp add: image_subset_iff)
    then show ?thesis using at(2) that by (simp add: nth_append nth_Cons')
  qed
  have mid: "fst (es ! r) = x" if "i = length us" using at(2) that x(2) by simp
  consider "r = length L" | "length L < r" | "r < length L" by linarith
  then show ?thesis
  proof cases
    case 1
    then have "fst (es ! r) = x" using es by simp
    then have "i = length us" using left right dis by (metis linorder_neqE_nat)
    then show ?thesis
      using 1 nxt w by (cases ws; cases R) (auto simp: slot_at_def nth_append)
  next
    case 2
    then have e: "es ! r = R ! (r - Suc (length L))" "r - Suc (length L) < length R" using True es by (auto simp: nth_append nth_Cons')
    then have "fst (es ! r) \<in> fst ` set R" by simp
    then have "length us < i" using left mid dis by (metis disjoint_iff linorder_neqE_nat)
    then show ?thesis using 2 at True e es by (auto simp: slot_at_def nth_append nth_Cons')
  next
    case 3
    then have e: "es ! r = L ! r" using es by (simp add: nth_append)
    then have "fst (es ! r) \<in> fst ` set L" using 3 by simp
    then have "i < length us" using right mid dis by (metis disjoint_iff linorder_neqE_nat)
    then show ?thesis using 3 at True e es by (auto simp: slot_at_def nth_append)
  qed
next
  case False
  then have low: "r < length es \<longrightarrow> row_level (es ! r) < n" "i = length (us @ X # ws)" using i by (auto split: if_splits)
  have "length L < r"
  proof (rule ccontr)
    assume r: "\<not> length L < r"
    then have "row_level (es ! r) < n" using low(1) es by simp
    have x': "es ! length L = (x, w, q)" "length L < length es" using es by simp_all
    from pb x'(2) show False
    proof (cases rule: block_parent)
      case top
      then show ?thesis using x'(1) w \<open>row_level (es ! r) < n\<close> by (simp add: row_level_def)
    next
      case (child s)
      then have "q = Some (fst (es ! s))" using x'(1) by simp
      then obtain j where "j < r" "fst (es ! j) = fst (es ! s)" "r \<le> length es" using q by (auto simp: reaches_def)
      then have "s < r" using row_index [OF d, of j s] child(1) x'(2) r by auto
      then show ?thesis using child(4) child(5) [of r] r x'(1) w \<open>row_level (es ! r) < n\<close> by (simp add: row_level_def)
    qed
  qed
  then show ?thesis using low es by (auto simp: slot_at_def nth_append nth_Cons')
qed

lemma slot_other:
  assumes pb: "parent_block E 0 None es" and es: "es = L @ (x, w, q') # R" and x: "x \<notin> E"
    and q: "reaches E es q n r" "q \<noteq> q'" and ks: "map tid ks1 = map tid ks"
    and i: "if r < length es \<and> row_level (es ! r) = n then indexOf (map tid ks) (fst (es ! r)) = Some i
      else (r < length es \<longrightarrow> row_level (es ! r) < n) \<and> i = length ks"
  shows "slot_at (L @ R) n (if length L < r then r - 1 else r) ks1 i"
proof -
  have len: "length ks1 = length ks" using ks by (metis length_map)
  have x': "es ! length L = (x, w, q')" "length L < length es" using es by simp_all
  have other: "(L @ R) ! (if length L < r then r - 1 else r) = es ! r" if "r \<noteq> length L"
    using that es nth_removed [of L R "if length L < r then r - 1 else r" "(x, w, q')"] by (auto split: if_splits)
  show ?thesis
  proof (cases "r < length es \<and> row_level (es ! r) = n")
    case True
    then have "snd (snd (es ! r)) = q" using reaches_child [OF pb q(1)] by simp
    then have "r \<noteq> length L" using x'(1) q(2) by auto
    moreover have "i < length ks1" "tid (ks1 ! i) = fst (es ! r)"
      using True i ks indexOf_Some_nth [of "map tid ks" "fst (es ! r)" i] by (metis length_map nth_map)+
    ultimately show ?thesis using other True es by (auto simp: slot_at_def)
  next
    case False
    then have low: "r < length es \<longrightarrow> row_level (es ! r) < n" "i = length ks1" using i len by (auto split: if_splits)
    have "row_level ((L @ R) ! r) < n" if r: "r = length L" "R \<noteq> []"
    proof -
      have w: "w < n" using low(1) r x' by (simp add: row_level_def)
      have "(L @ R) ! r = es ! Suc (length L)" "Suc (length L) < length es" using r es by (simp_all add: nth_append)
      from pb this(2) show ?thesis unfolding \<open>(L @ R) ! r = es ! Suc (length L)\<close>
      proof (cases rule: block_parent)
        case (child s)
        then have "s \<noteq> length L" using x x'(1) by auto
        then show "row_level (es ! Suc (length L)) < n" using child(1,4) child(5) [of "length L"] x'(1) w by (simp add: row_level_def)
      qed (use w in simp)
    qed
    then show ?thesis using low other es by (cases "r = length L") (auto simp: slot_at_def)
  qed
qed

lemma put_at_slot:
  assumes "distinct (forest_ids ts)" and "reaches E (visible_forest E ts 0 None) q n r" and "content_of ts q = Some ks"
    and "slot_at (visible_forest E ts 0 None) n r ks i" and "tid X \<notin> E"
  shows "map fst (visible_forest E (edit_content q (\<lambda>_. insertAt i X ks) ts) 0 None) = insertAt r (tid X) (map fst (visible_forest E ts 0 None))"
    and "mset (forest_ids (edit_content q (\<lambda>_. insertAt i X ks) ts)) = mset (forest_ids ts) + mset (item_ids X)"
    and "(tid X, n, q) \<in> set (visible_forest E (edit_content q (\<lambda>_. insertAt i X ks) ts) 0 None)"
proof -
  let ?es = "visible_forest E ts 0 None"
  have d: "distinct (map fst ?es)" using visible_ids(2) assms(1) by blast
  have "i \<le> length ks" using assms(4) by (auto simp: slot_at_def split: if_splits)
  from put_in [OF assms(1,3) reaches_kids [OF assms(2)] this assms(5)] obtain L R where
    p: "?es = L @ R" "visible_forest E (edit_content q (\<lambda>_. insertAt i X ks) ts) 0 None = L @ (tid X, n, q) # R"
      "mset (forest_ids (edit_content q (\<lambda>_. insertAt i X ks) ts)) = mset (forest_ids ts) + mset (item_ids X)"
      "i < length ks \<longrightarrow> R \<noteq> [] \<and> fst (hd R) = tid (ks ! i)"
      "i = length ks \<longrightarrow> (R = [] \<or> row_level (hd R) < n)
        \<and> (\<forall>p. q = Some p \<longrightarrow> (\<exists>pre v r K. L = pre @ (p, v, r) # K \<and> n = Suc v \<and> (\<forall>e \<in> set K. n \<le> row_level e)))"
    by blast
  show "mset (forest_ids (edit_content q (\<lambda>_. insertAt i X ks) ts)) = mset (forest_ids ts) + mset (item_ids X)" by (rule p(3))
  show "(tid X, n, q) \<in> set (visible_forest E (edit_content q (\<lambda>_. insertAt i X ks) ts) 0 None)" unfolding p(2) by simp
  have "length L = r"
  proof (cases "i < length ks")
    case True
    then have R: "R \<noteq> []" "fst (hd R) = tid (ks ! i)" "r < length ?es" "tid (ks ! i) = fst (?es ! r)"
      using p(4) assms(4) by (auto simp: slot_at_def)
    then have "fst (?es ! length L) = fst (?es ! r)" "length L < length ?es" using p(1) by (auto simp: nth_append hd_conv_nth)
    then show ?thesis using row_index [OF d] R(3) by blast
  next
    case False
    then have "i = length ks" "r < length ?es \<longrightarrow> row_level (?es ! r) < n" using assms(4) by (auto simp: slot_at_def)
    then show ?thesis using block_end [OF d assms(2) _ p(1)] p(5) by blast
  qed
  then show "map fst (visible_forest E (edit_content q (\<lambda>_. insertAt i X ks) ts) 0 None) = insertAt r (tid X) (map fst ?es)"
    unfolding p(2) unfolding p(1) by (auto simp: insertAt_def)
qed

definition out_at :: "nat \<Rightarrow> 'a list \<Rightarrow> 'a list" where
  "out_at i xs = take i xs @ drop (Suc i) xs"

text \<open>Moving an item that is not expanded into the place found for it moves its row there.\<close>

lemma moved_rows:
  assumes ok: "cache_ok t" and drop: "good_drop t r q i n ks" and fr: "from < length (tree_rows t)" "tree_rows t ! from = (x, w, q')"
    and x: "x \<notin> expandedItems t" and ts1: "ts1 = edit_content q' (filter (\<lambda>u. tid u \<noteq> x)) (lt_content t)"
    and r': "r' = (if from < r then r - 1 else r)"
  shows "\<exists>X ks1 k. find_forest x (lt_content t) = Some X \<and> content_of ts1 q = Some ks1 \<and> k \<le> length ks1 \<and>
    (if q' = q \<and> from < r then i - 1 else i) = int k \<and>
    map fst (visible_forest (expandedItems t) (edit_content q (\<lambda>_. insertAt k X ks1) ts1) 0 None)
      = insertAt r' x (out_at from (map fst (tree_rows t))) \<and>
    (x, n, q) \<in> set (visible_forest (expandedItems t) (edit_content q (\<lambda>_. insertAt k X ks1) ts1) 0 None) \<and>
    distinct (forest_ids (edit_content q (\<lambda>_. insertAt k X ks1) ts1)) \<and>
    mset (forest_ids (edit_content q (\<lambda>_. insertAt k X ks1) ts1)) = mset (forest_ids (lt_content t))"
proof -
  let ?E = "expandedItems t" and ?ts = "lt_content t"
  have d: "distinct (forest_ids ?ts)" using ok by (simp add: cache_ok_def)
  note c = cache_rows_of [OF ok]
  have xin: "(x, w, q') \<in> set (visible_forest ?E ?ts 0 None)" using fr by (metis nth_mem tree_rows_def)
  obtain L R X us ws where t: "tree_rows t = L @ (x, w, q') # R" "visible_forest ?E ts1 0 None = L @ R"
      "find_forest x ?ts = Some X" "tid X = x" "mset (forest_ids ?ts) = mset (forest_ids ts1) + mset (item_ids X)"
      "content_of ?ts q' = Some (us @ X # ws)" "filter (\<lambda>t. tid t \<noteq> x) (us @ X # ws) = us @ ws"
      "tid ` set us \<subseteq> fst ` set L" "tid ` set ws \<subseteq> fst ` set R"
      "ws \<noteq> [] \<longrightarrow> R \<noteq> [] \<and> fst (hd R) = tid (hd ws)" "ws = [] \<longrightarrow> R = [] \<or> row_level (hd R) < w"
    using take_out [OF d xin x ts1] unfolding tree_rows_def [symmetric] by (elim exE conjE) (rule that)
  have L: "length L = from" using row_index [OF c(1), of "length L" "from"] fr t(1) by simp
  have "distinct (forest_ids ts1)" "set (forest_ids ts1) \<inter> set (item_ids X) = {}"
  proof -
    have m: "mset (forest_ids ?ts) = mset (forest_ids ts1 @ item_ids X)" using t(5) by simp
    have "distinct (forest_ids ts1 @ item_ids X)" using d mset_eq_imp_distinct_iff [OF m] by simp
    then show "distinct (forest_ids ts1)" "set (forest_ids ts1) \<inter> set (item_ids X) = {}" by simp_all
  qed
  note d1 = this
  have q: "reaches ?E (tree_rows t) q n r" "content_of ?ts q = Some ks" using drop by (auto simp: good_drop_def)
  have q1: "reaches ?E (visible_forest ?E ts1 0 None) q n r'"
    using reaches_removed [OF t(1) x q(1)] L unfolding t(2) r' by simp
  have i: "i = int (nat i)" and iks: "if r < length (tree_rows t) \<and> row_level (tree_rows t ! r) = n
      then indexOf (map tid ks) (fst (tree_rows t ! r)) = Some (nat i)
      else (r < length (tree_rows t) \<longrightarrow> row_level (tree_rows t ! r) < n) \<and> nat i = length ks"
    using drop unfolding good_drop_def by (auto split: if_splits)
  have "\<exists>ks1 k. content_of ts1 q = Some ks1 \<and> (if q' = q \<and> from < r then i - 1 else i) = int k \<and> slot_at (L @ R) n r' ks1 k"
  proof (cases "q = q'")
    case True
    have ks: "ks = us @ X # ws" using t(6) q(2) True by simp
    have w: "w = n"
    proof -
      have "kids_at ?E ?ts q w" "kids_at ?E ?ts q n"
        using row_parent [OF d xin] True reaches_kids q(1) unfolding tree_rows_def by blast+
      then show ?thesis using c(1) unfolding tree_rows_def kids_at_def
        by (cases q) (auto dest: eq_key_imp_eq_value)
    qed
    have "if from < r then 0 < nat i \<and> slot_at (L @ R) n (r - 1) (us @ ws) (nat i - 1) else slot_at (L @ R) n r (us @ ws) (nat i)"
      using slot_same [OF c(1,2) t(1) [folded True] x t(4,8,9) _ _ q(1) w iks [unfolded ks]] t(10,11) unfolding L by blast
    moreover have "content_of ts1 q = Some (us @ ws)"
      using content_edit_same [OF t(6)] t(7) ts1 True by metis
    ultimately show ?thesis using True i r' by (intro exI [of _ "us @ ws"] exI [of _ "if from < r then nat i - 1 else nat i"]) (auto split: if_splits)
  next
    case False
    have "p \<notin> set (item_ids X)" if qp: "q = Some p" for p
    proof -
      obtain v s where "(p, v, s) \<in> set (visible_forest ?E ts1 0 None)"
        using reaches_kids [OF q1] qp by (auto simp: kids_at_def)
      then show ?thesis using visible_in_ids(2) d1(2) by blast
    qed
    from content_edit_other [OF t(6,7) ts1 d d1(1) False q(2) this] obtain ks1 where
      ks1: "content_of ts1 q = Some ks1" "map tid ks1 = map tid ks" by blast
    have "(if q' = q \<and> from < r then i - 1 else i) = int (nat i)" using False i by simp
    then show ?thesis using slot_other [OF c(2) t(1) x q(1) False ks1(2) iks] ks1(1) unfolding L r' by blast
  qed
  then obtain ks1 k where k: "content_of ts1 q = Some ks1" "(if q' = q \<and> from < r then i - 1 else i) = int k" "slot_at (L @ R) n r' ks1 k"
    by blast
  note put = put_at_slot [OF d1(1) q1 k(1) k(3) [folded t(2)], of X, unfolded t(4), OF x]
  have out: "map fst (visible_forest ?E ts1 0 None) = out_at from (map fst (tree_rows t))"
    unfolding t(2) unfolding t(1) out_at_def L [symmetric] by simp
  have "mset (forest_ids (edit_content q (\<lambda>_. insertAt k X ks1) ts1)) = mset (forest_ids ?ts)" using put(2) t(5) by simp
  moreover from this have "distinct (forest_ids (edit_content q (\<lambda>_. insertAt k X ks1) ts1))" using d mset_eq_imp_distinct_iff by blast
  moreover have "k \<le> length ks1" using k(3) by (auto simp: slot_at_def split: if_splits)
  ultimately show ?thesis using t(3) k(1,2) put(1,3) unfolding out by blast
qed

section \<open>The views follow the row\<close>

definition moved_index :: "int \<Rightarrow> int \<Rightarrow> int \<Rightarrow> int" where
  "moved_index from to i = (if i = from then (if from < to then to - 1 else to) else shift_index from to i)"

lemma nth_insertAt: "r \<le> length ys \<Longrightarrow> insertAt r x ys ! s = (if s < r then ys ! s else if s = r then x else ys ! (s - 1))"
  by (auto simp: insertAt_def nth_append nth_Cons' min_def)

lemma nth_out_at: "f < length xs \<Longrightarrow> out_at f xs ! s = xs ! (if s < f then s else Suc s)"
  by (auto simp: out_at_def nth_append min_def)

lemma length_out_at: "f < length xs \<Longrightarrow> length (out_at f xs) = length xs - 1"
  by (simp add: out_at_def)

lemma moved_nth:
  assumes "from < length xs" and "r \<le> length xs" and "i < length xs" and "r' = (if from < r then r - 1 else r)"
  shows "objectAt_int (insertAt r' (xs ! from) (out_at from xs)) (moved_index (int from) (int r) (int i)) = Some (xs ! i)"
proof -
  define s where "s = (if i = from then r' else if from < i \<and> i < r then i - 1 else if i < from \<and> r \<le> i then i + 1 else i)"
  have s: "moved_index (int from) (int r) (int i) = int s" using assms(4) by (auto simp: moved_index_def shift_index_def s_def)
  have "s < length xs" using assms by (auto simp: s_def)
  moreover have "insertAt r' (xs ! from) (out_at from xs) ! s = xs ! i"
  proof -
    have "r' \<le> length (out_at from xs)" using assms by (auto simp: length_out_at)
    then have n: "insertAt r' (xs ! from) (out_at from xs) ! s
        = (if s < r' then xs ! (if s < from then s else Suc s) else if s = r' then xs ! from else xs ! (if s - 1 < from then s - 1 else s))"
      using nth_out_at [OF assms(1)] by (simp add: nth_insertAt)
    consider "i = from" | "from < i" "i < r" | "i < from" "r \<le> i" | "from < i" "r \<le> i" | "i < from" "i < r" by linarith
    then show ?thesis unfolding n by cases (auto simp: s_def assms(4))
  qed
  ultimately show ?thesis using assms(1) unfolding s by (simp add: objectAt_int_def objectAt_def insertAt_def out_at_def)
qed

text \<open>The list after the move: every view that shows a row moves with it.\<close>

definition moved_list :: "int \<Rightarrow> int \<Rightarrow> nat \<Rightarrow> item list \<Rightarrow> lazy_list \<Rightarrow> lazy_list" where
  "moved_list from to k xs l = updateHeight (l\<lparr>views := place_view from to k (shift_views from to (views l)), ll_suppress := True, rows := xs\<rparr>)"

lemma childView_at: "childViewForIndex l (Some i) = Some k \<Longrightarrow> shows_row l k = Some i"
proof -
  assume "childViewForIndex l (Some i) = Some k"
  then have "k \<in> set (filter (\<lambda>k. contentIndex (views l ! k) = Some i) [0..<length (views l)])"
    by (cases "filter (\<lambda>k. contentIndex (views l ! k) = Some i) [0..<length (views l)]") (simp_all add: childViewForIndex_def)
  then show ?thesis by (simp add: shows_row_def)
qed

lemma moved_shows:
  assumes "once l" and "shows_row l k = Some from"
  shows "shows_row (moved_list from to k xs l) j = map_option (moved_index from to) (shows_row l j)"
proof (cases "j = k")
  case True
  then show ?thesis using assms(2)
    by (auto simp: shows_row_def moved_list_def updateHeight_def place_view_def shift_views_def moved_index_def split: if_splits)
next
  case False
  then have "shows_row l j \<noteq> Some from" using assms unfolding once_def inj_on_def by (metis domI)
  then show ?thesis using False
    by (cases "contentIndex (views l ! j)")
      (auto simp: shows_row_def moved_list_def updateHeight_def place_view_def shift_views_def moved_index_def)
qed

lemma moved_list_ok:
  assumes "lazy_ok cls l" and "right_items l" and "once l" and "distinct (rows l)" and k: "shows_row l k = Some (int from)"
    and fr: "from < length (rows l)" and r: "r \<le> length (rows l)" and xs: "xs = insertAt (if from < r then r - 1 else r) (rows l ! from) (out_at from (rows l))"
  shows "lazy_ok cls (moved_list (int from) (int r) k xs l) \<and> right_items (moved_list (int from) (int r) k xs l) \<and> once (moved_list (int from) (int r) k xs l)"
proof -
  let ?l = "moved_list (int from) (int r) k xs l"
  note sh = moved_shows [OF assms(3) k]
  have len: "length (views ?l) = length (views l)" "rows ?l = xs" "recycled ?l = recycled l"
    by (simp_all add: moved_list_def updateHeight_def place_view_def shift_views_def)
  have same: "iv_content (views ?l ! j) = iv_content (views l ! j)" "iv_isVisible (views ?l ! j) = iv_isVisible (views l ! j)"
    if "j < length (views l)" for j
    using that by (cases "j = k"; simp add: moved_list_def updateHeight_def place_view_def shift_views_def)+
  have row: "\<exists>j < length (rows l). i = int j \<and> iv_content (views l ! a) = rows l ! j" if "shows_row l a = Some i" for a i
  proof -
    have "objectAt_int (rows l) i = Some (iv_content (views l ! a))" using assms(2) that unfolding right_items_def by blast
    then show ?thesis by (intro exI [of _ "nat i"]) (auto simp: objectAt_int_def objectAt_def split: if_splits)
  qed
  have at: "objectAt_int xs (moved_index (int from) (int r) i) = Some (iv_content (views l ! a))" if "shows_row l a = Some i" for a i
    using row [OF that] moved_nth [OF fr r _ refl] unfolding xs by auto
  have "right_items ?l"
    unfolding right_items_def sh len using at same by (auto simp: shows_row_def split: if_splits)
  moreover have "once ?l"
    unfolding once_def
  proof (rule inj_onI)
    fix a b assume ab: "a \<in> dom (shows_row ?l)" "b \<in> dom (shows_row ?l)" "shows_row ?l a = shows_row ?l b"
    then obtain i i' where i: "shows_row l a = Some i" "shows_row l b = Some i'" "moved_index (int from) (int r) i = moved_index (int from) (int r) i'"
      unfolding sh by auto
    then have "iv_content (views l ! a) = iv_content (views l ! b)" using at [OF i(1)] at [OF i(2)] by simp
    then show "a = b" using shown_contents_differ [OF assms(2,3,4) i(1,2)] by simp
  qed
  moreover have "contentIndex (views ?l ! j) = None \<longleftrightarrow> contentIndex (views l ! j) = None" if "j < length (views l)" for j
    using sh [of "int r" xs j] that len(1) by (simp add: shows_row_def)
  then have "lazy_ok cls ?l"
    using assms(1) same unfolding lazy_ok_def len sh by (auto simp: shows_row_def split: if_splits)
  ultimately show ?thesis by blast
qed

section \<open>Properties\<close>

lemma ok_parts:
  assumes "tree_ok cls t"
  shows "cache_ok t" "rows (lt_list t) = map fst (tree_rows t)" "lazy_ok cls (lt_list t)" "right_items (lt_list t)" "once (lt_list t)"
    "distinct (rows (lt_list t))"
proof -
  show ok: "cache_ok t" using assms by (simp add: tree_ok_def cache_ok_def)
  show "rows (lt_list t) = map fst (tree_rows t)" using assms cache_rows_of(3) [OF ok] by (simp add: tree_ok_def)
  then show "distinct (rows (lt_list t))" using cache_rows_of(1) [OF ok] by simp
qed (use assms in \<open>simp_all add: tree_ok_def\<close>)

text \<open>
  Dropping an item that is not expanded where \<open>indexForMovedItem\<close> puts it: nothing is thrown, the tree
  has the same items, the moved one is a child of the chosen parent at the announced level, its row
  moved to the place where it was dropped while all others keep their order, and every view shows
  the item of its row.
\<close>

theorem drop_moves_row:
  assumes "tree_ok cls t" and "indexForMovedItem valid t (StartInfo i0) proposed from left = Inr (DropInfo to q pos lev)"
    and "tree_itemForRow t from = Some x" and "x \<notin> expandedItems t" and "childViewForIndex (lt_list t) (Some from) = Some k"
    and "content_of (lt_content t) q = Some ks" and "to' = (if from < to then to - 1 else to)"
  shows "\<exists>t'. moveItem from to q pos lev t = (t', None) \<and> tree_ok cls t' \<and> expandedItems t' = expandedItems t \<and>
    mset (forest_ids (lt_content t')) = mset (forest_ids (lt_content t)) \<and>
    rows (lt_list t') = insertAt (nat to') x (out_at (nat from) (rows (lt_list t))) \<and>
    levelForItem t' (Some x) = Some lev \<and> itemToParent (lt_cache t') x = q \<and> shows_row (lt_list t') k = Some to'"
proof -
  note ok = ok_parts [OF assms(1)]
  note c = cache_rows_of [OF ok(1)]
  obtain r n i where r: "to = int r" "r \<le> length (tree_rows t)" "lev = int n" "pos = Some i" "good_drop t r q i n ks"
    using index_good_drop [OF ok(1) assms(2,6)] by blast
  obtain f where f: "from = int f" "f < length (tree_rows t)" "fst (tree_rows t ! f) = x"
    using assms(3) c(6) [of "from"] by (metis (full_types) nat_0_le nat_less_iff option.distinct(1) option.inject)
  obtain w q' where e: "tree_rows t ! f = (x, w, q')" using f(3) by (metis prod.collapse)
  then have xin: "(x, w, q') \<in> set (tree_rows t)" using f(2) by (metis nth_mem)
  have par: "itemToParent (lt_cache t) x = q'"
  proof -
    have "itemToParent (lt_cache t) x = Some p \<longleftrightarrow> q' = Some p" for p
      using c(5) [of x p] eq_key_imp_eq_value [OF c(1) xin] xin by blast
    then show ?thesis by (cases q') (metis not_None_eq)+
  qed
  define ts1 where "ts1 = edit_content q' (filter (\<lambda>u. tid u \<noteq> x)) (lt_content t)"
  let ?r = "if f < r then r - 1 else r" and ?E = "expandedItems t"
  obtain X ks1 m where m: "find_forest x (lt_content t) = Some X" "content_of ts1 q = Some ks1" "m \<le> length ks1"
      "(if q' = q \<and> f < r then i - 1 else i) = int m"
      "map fst (visible_forest ?E (edit_content q (\<lambda>_. insertAt m X ks1) ts1) 0 None) = insertAt ?r x (out_at f (map fst (tree_rows t)))"
      "(x, n, q) \<in> set (visible_forest ?E (edit_content q (\<lambda>_. insertAt m X ks1) ts1) 0 None)"
      "distinct (forest_ids (edit_content q (\<lambda>_. insertAt m X ks1) ts1))"
      "mset (forest_ids (edit_content q (\<lambda>_. insertAt m X ks1) ts1)) = mset (forest_ids (lt_content t))"
    using moved_rows [OF ok(1) r(5) f(2) e assms(4) ts1_def refl] by (elim exE conjE) (rule that)
  define ts2 where "ts2 = edit_content q (\<lambda>_. insertAt m X ks1) ts1"
  define xs where "xs = insertAt ?r x (out_at f (map fst (tree_rows t)))"
  let ?c = "loadCache ?E ts2"
  define t' where "t' = t\<lparr>lt_list := moved_list from to k xs (lt_list t), viewLevel := (viewLevel t)(k := Some (nat lev)), lt_content := ts2, lt_cache := ?c\<rparr>"
  note c2 = cache_lookup [OF m(7) [folded ts2_def], of ?E]
  have rows2: "rowToItem ?c = xs" using c2(1) m(5) unfolding xs_def ts2_def by simp
  have pos: "(if q' = q \<and> from < to then map_option (\<lambda>p. p - 1) pos else pos) = Some (int m)" using m(4) f(1) r(1,4) by (auto split: if_splits)
  have move: "moveItem from to q pos lev t = (t', None)"
    unfolding moveItem_def assms(3,5) Let_def option.case prod.case par m(1) pos ts1_def [symmetric]
    using m(3) by (simp add: insert_moved_def m(2) js_insertAt_def numberOfRowsChanged_def Let_def ts2_def [symmetric] rows2 t'_def moved_list_def)
  have k: "shows_row (lt_list t) k = Some (int f)" using childView_at [OF assms(5)] f(1) by simp
  have lists: "lazy_ok cls (lt_list t') \<and> right_items (lt_list t') \<and> once (lt_list t')"
    using moved_list_ok [OF ok(3,4,5,6) k, of r xs] f r(1,2) ok(2) unfolding t'_def xs_def by simp
  have rows': "rows (lt_list t') = xs" by (simp add: t'_def moved_list_def updateHeight_def)
  have "tree_ok cls t'" unfolding tree_ok_def using lists rows' rows2 m(7) by (simp add: t'_def ts2_def)
  moreover have "levelForItem t' (Some x) = Some lev"
    using c2(4) [of x n] m(6) r(3) unfolding ts2_def [symmetric] levelForItem_def t'_def by auto
  moreover have "itemToParent (lt_cache t') x = q"
  proof -
    have "distinct (map fst (visible_forest ?E ts2 0 None))" using c2(1,2) by simp
    from eq_key_imp_eq_value [OF this m(6) [folded ts2_def]] have "itemToParent ?c x = Some p \<longleftrightarrow> q = Some p" for p
      using c2(5) [of x p] m(6) [folded ts2_def] by blast
    then show ?thesis unfolding t'_def by (cases q) (simp_all, metis not_None_eq)
  qed
  moreover have "shows_row (lt_list t') k = Some to'"
    using moved_shows [OF ok(5) k, of to xs k] k f(1) assms(7) unfolding t'_def by (simp add: moved_index_def)
  moreover have "nat to' = ?r" using assms(7) f(1) r(1) by auto
  ultimately show ?thesis using move m(8) rows' f(1) ok(2) by (auto simp: t'_def ts2_def xs_def)
qed

definition drag_sample :: lazy_tree where
  "drag_sample = sample_tree\<lparr>lt_list := (new_list [10, 2, 3, 5] 0)\<lparr>views := [row_view 5 3]\<rparr>\<rparr>"

lemma one_view_shows: "shows_row (l\<lparr>views := [row_view x i]\<rparr>) = [0 \<mapsto> i]"
  by (rule ext) (simp add: shows_row_def row_view_def)

lemma one_view_ok:
  assumes "objectAt_int (rows l) i = Some x" and "recycled l = (\<lambda>_. [])"
  shows "lazy_ok cls (l\<lparr>views := [row_view x i]\<rparr>)" "right_items (l\<lparr>views := [row_view x i]\<rparr>)" "once (l\<lparr>views := [row_view x i]\<rparr>)"
  unfolding lazy_ok_def right_items_def once_def one_view_shows using assms by (auto simp: row_view_def split: if_splits)

lemma drag_sample_ok: "tree_ok cls drag_sample"
proof -
  have v: "objectAt_int (rows (new_list [10, 2, 3, 5] 0)) 3 = Some 5" "recycled (new_list [10, 2, 3, 5] 0) = (\<lambda>_. [])"
    by (simp_all add: new_list_def objectAt_int_def objectAt_def)
  have "distinct (forest_ids sample_forest)" by (simp add: sample_forest_def)
  then show ?thesis unfolding tree_ok_def using one_view_ok [OF v]
    by (simp add: drag_sample_def sample_tree_def sample_rows) (simp add: new_list_def)
qed

lemmas drag_eval = drag_sample_def sample_tree_def sample_forest_def loadCache_def cache_item_def empty_cache_def
  indexForMovedItem_def clamp_row_def tree_itemForRow_def objectAt_int_def objectAt_def possible_parents_def closest_parent_def
  lvl_def levelForItem_def getAncestors_def intended_parent_def trunc_div_def drop_position_def kids_of_def int_index_def
  content_of_def Let_def

theorem drop_moves_row_witness:
  "\<exists>t'. moveItem 3 2 (Some 10) (Some 1) 1 drag_sample = (t', None) \<and> rows (lt_list t') = [10, 2, 5, 3] \<and>
     itemToParent (lt_cache t') 5 = Some 10"
proof -
  have "indexForMovedItem (\<lambda>_ _. True) drag_sample (StartInfo 3) 2 3 44 = Inr (DropInfo 2 (Some 10) (Some 1) 1)"
    by (simp add: drag_eval)
  moreover have "tree_itemForRow drag_sample 3 = Some 5" "(5 :: nat) \<notin> expandedItems drag_sample"
    "content_of (lt_content drag_sample) (Some 10) = Some [TreeItem 2 None, TreeItem 3 (Some [TreeItem 4 None])]"
    by (simp_all add: drag_eval)
  moreover have "childViewForIndex (lt_list drag_sample) (Some 3) = Some 0"
    by (simp add: drag_sample_def childViewForIndex_def row_view_def)
  moreover have r: "insertAt (nat 2) 5 (out_at (nat 3) (rows (lt_list drag_sample))) = [10, 2, 5, 3]"
    by (simp add: drag_sample_def new_list_def insertAt_def out_at_def)
  moreover have "(2 :: int) = (if (3 :: int) < 2 then 2 - 1 else 2)" by simp
  ultimately show ?thesis using drop_moves_row [OF drag_sample_ok [of "\<lambda>_. 0"]] by metis
qed

text \<open>
  An item without children can be expanded.  An item dropped just below such an item, even at its own
  place, is taken out of its array before the missing array of children is used: the error leaves the
  tree without the item.
\<close>

definition leaf_sample :: "item \<Rightarrow> item \<Rightarrow> lazy_tree" where
  "leaf_sample a b = \<lparr>lt_list = (new_list [a, b] 0)\<lparr>views := [row_view b 1]\<rparr>, lt_content = [TreeItem a None, TreeItem b None],
     expandedItems = {a}, lt_cache = loadCache {a} [TreeItem a None, TreeItem b None], viewExpanded = (\<lambda>_. False), viewLevel = (\<lambda>_. None)\<rparr>"

theorem drop_below_childless_loses_item:
  "indexForMovedItem (\<lambda>_ _. True) (leaf_sample 1 2) (StartInfo 1) 1 1 0 = Inr (DropInfo 1 (Some 1) None 1) \<and>
    (\<exists>t. moveItem 1 1 (Some 1) None 1 (leaf_sample 1 2) = (t, Some TypeError) \<and> lt_content t = [TreeItem 1 None])"
  by (simp add: leaf_sample_def drag_eval moveItem_def insert_moved_def edit_content_def childViewForIndex_def row_view_def)

end
