(* ===== verification/Lazy_Item.thy ===== *)
theory Lazy_Item
  imports Tree_Drag
begin

text \<open>
  The item views of lazy lists and trees (\<open>views/lazy_list_item_view.js\<close>,
  \<open>views/lazy_tree_item_view.js\<close>): the states a view goes through while the mouse is pressed, moved and
  released on it, and the indentation class of a tree item.

  The handlers are written over the operations of the view that contains the item, so that lazy lists
  and lazy trees share them.  A handler returns the state and the error it stopped with, if any: an
  error in the middle of a handler leaves what was done before it.
\<close>

section \<open>The containing view\<close>

record ('p, 'i) drag_target =
  the_list :: "'p \<Rightarrow> lazy_list"
  upd_list :: "(lazy_list \<Rightarrow> lazy_list) \<Rightarrow> 'p \<Rightarrow> 'p"
  reorderable :: bool
  will_start :: "nat \<Rightarrow> 'p \<Rightarrow> 'p \<times> js_error option"
  before_select :: "nat \<Rightarrow> 'p \<Rightarrow> 'p \<times> js_error option"
  start_info :: "int option \<Rightarrow> 'i"
  has_position :: "'i \<Rightarrow> bool"
  index_for :: "'i \<Rightarrow> int \<Rightarrow> int \<Rightarrow> int \<Rightarrow> 'p \<Rightarrow> 'i result"
  move_item :: "int \<Rightarrow> 'i \<Rightarrow> 'p \<Rightarrow> 'p \<times> js_error option"

section \<open>States of an item view\<close>

datatype item_state = ItemIdle | ItemMouseIsDown | ItemDragging

text \<open>
  \<open>down_at\<close> is \<open>xOffset\<close> and \<open>yOffset\<close> of the state, \<open>grabbed\<close> those of the owner; \<open>clone_info\<close> is the
  dragging information kept on the clone, which exists while dragging.
\<close>

record ('p, 'i) drag_item =
  di_state :: item_state
  down_at :: "(int \<times> int) option"
  grabbed :: "int \<times> int"
  scrollViewOffset :: "int \<times> int"
  clone_info :: "'i option"
  di_view :: nat
  di_parent :: 'p

text \<open>A mouse event with what the handlers read off the page when it arrives.\<close>

record item_event =
  ev_pageX :: int
  ev_pageY :: int
  ev_itemOffset :: "int \<times> int"
  ev_scrollOffset :: "int \<times> int"
  ev_lastScrollY :: int
  ev_listTop :: int

text \<open>A row that is \<open>undefined\<close> stands for no item, like a negative one.\<close>

definition row_arg :: "int option \<Rightarrow> int" where
  "row_arg i = (case i of None \<Rightarrow> -1 | Some r \<Rightarrow> r)"

definition item_row :: "('p, 'i) drag_target \<Rightarrow> ('p, 'i) drag_item \<Rightarrow> int option" where
  "item_row D s = contentIndex (views (the_list D (di_parent s)) ! di_view s)"

definition set_dragged :: "('p, 'i) drag_target \<Rightarrow> bool \<Rightarrow> ('p, 'i) drag_item \<Rightarrow> ('p, 'i) drag_item" where
  "set_dragged D b s = s\<lparr>di_parent := upd_list D (set_view (di_view s) (\<lambda>v. v\<lparr>isDragged := b\<rparr>)) (di_parent s)\<rparr>"

section \<open>Starting to drag\<close>

definition enter_dragging :: "('p, 'i) drag_target \<Rightarrow> item_event \<Rightarrow> ('p, 'i) drag_item \<Rightarrow> ('p, 'i) drag_item \<times> js_error option" where
  "enter_dragging D ev s = (let s1 = s\<lparr>di_state := ItemDragging, down_at := None\<rparr> in
     case will_start D (di_view s) (di_parent s) of
       (p, Some e) \<Rightarrow> (s1\<lparr>di_parent := p\<rparr>, Some e)
     | (p, None) \<Rightarrow> (let s2 = set_dragged D True (s1\<lparr>di_parent := p\<rparr>)
         in (s2\<lparr>scrollViewOffset := ev_scrollOffset ev, clone_info := Some (start_info D (item_row D s2))\<rparr>, None)))"

definition down_mouseMove :: "('p, 'i) drag_target \<Rightarrow> item_event \<Rightarrow> ('p, 'i) drag_item \<Rightarrow> ('p, 'i) drag_item \<times> js_error option" where
  "down_mouseMove D ev s =
     (if \<not> reorderable D then (s, None)
      else (let (x, y) = (case down_at s of None \<Rightarrow> (ev_pageX ev, ev_pageY ev) | Some p \<Rightarrow> p);
                s1 = s\<lparr>down_at := Some (x, y)\<rparr>
            in if \<bar>ev_pageY ev - y\<bar> < 3 then (s1, None)
               else enter_dragging D ev (s1\<lparr>grabbed := (x - fst (ev_itemOffset ev), y - snd (ev_itemOffset ev))\<rparr>)))"

definition down_mouseUp :: "('p, 'i) drag_target \<Rightarrow> ('p, 'i) drag_item \<Rightarrow> ('p, 'i) drag_item \<times> js_error option" where
  "down_mouseUp D s = (case before_select D (di_view s) (di_parent s) of
       (p, Some e) \<Rightarrow> (s\<lparr>di_parent := p\<rparr>, Some e)
     | (p, None) \<Rightarrow> (let s1 = s\<lparr>di_parent := p\<rparr>
         in (s1\<lparr>di_parent := upd_list D (\<lambda>l. snd (selectIndex (row_arg (item_row D s1)) l)) p, di_state := ItemIdle, down_at := None\<rparr>, None)))"

section \<open>Dragging\<close>

text \<open>\<open>Math.ceil(newTop / itemHeight)\<close> for a positive height.\<close>

definition ceil_div :: "int \<Rightarrow> int \<Rightarrow> int" where
  "ceil_div a b = - ((- a) div b)"

definition didDragItem :: "('p, 'i) drag_target \<Rightarrow> int \<Rightarrow> int \<Rightarrow> ('p, 'i) drag_item \<Rightarrow> ('p, 'i) drag_item \<times> js_error option" where
  "didDragItem D newTop newLeft s = (case clone_info s of
       None \<Rightarrow> (s, Some TypeError)
     | Some info \<Rightarrow>
        (case index_for D info (ceil_div newTop (int (itemHeight (the_list D (di_parent s))))) (row_arg (item_row D s)) newLeft (di_parent s) of
           Inl e \<Rightarrow> (s, Some e)
         | Inr info' \<Rightarrow> (s\<lparr>clone_info := Some info'\<rparr>, None)))"

definition drag_mouseMove :: "('p, 'i) drag_target \<Rightarrow> item_event \<Rightarrow> ('p, 'i) drag_item \<Rightarrow> ('p, 'i) drag_item \<times> js_error option" where
  "drag_mouseMove D ev s =
     didDragItem D
       (ev_pageY ev - snd (grabbed s) + ev_lastScrollY ev - (ev_lastScrollY ev + ev_listTop ev) - snd (scrollViewOffset s))
       (ev_pageX ev - fst (scrollViewOffset s) - fst (grabbed s)) s"

definition finishDragging :: "('p, 'i) drag_target \<Rightarrow> ('p, 'i) drag_item \<Rightarrow> ('p, 'i) drag_item \<times> js_error option" where
  "finishDragging D s = (case clone_info s of
       None \<Rightarrow> (s, Some TypeError)
     | Some info \<Rightarrow>
        (if \<not> has_position D info then (s, None)
         else (case move_item D (row_arg (item_row D s)) info (di_parent s) of (p, e) \<Rightarrow> (s\<lparr>di_parent := p\<rparr>, e))))"

text \<open>Leaving the state: an error in \<open>finishDragging\<close> leaves the clone and the state as they are.\<close>

definition drag_mouseUp :: "('p, 'i) drag_target \<Rightarrow> ('p, 'i) drag_item \<Rightarrow> ('p, 'i) drag_item \<times> js_error option" where
  "drag_mouseUp D s = (case finishDragging D (set_dragged D False s) of
       (s1, Some e) \<Rightarrow> (s1, Some e)
     | (s1, None) \<Rightarrow> (s1\<lparr>clone_info := None, di_state := ItemIdle\<rparr>, None))"

section \<open>Dispatch\<close>

datatype mouse_event = MDown | MMove item_event | MUp

definition item_mouse :: "('p, 'i) drag_target \<Rightarrow> mouse_event \<Rightarrow> ('p, 'i) drag_item \<Rightarrow> ('p, 'i) drag_item \<times> js_error option" where
  "item_mouse D e s = (case (di_state s, e) of
       (ItemIdle, MDown) \<Rightarrow> (s\<lparr>di_state := ItemMouseIsDown\<rparr>, None)
     | (ItemMouseIsDown, MMove ev) \<Rightarrow> down_mouseMove D ev s
     | (ItemMouseIsDown, MUp) \<Rightarrow> down_mouseUp D s
     | (ItemDragging, MMove ev) \<Rightarrow> drag_mouseMove D ev s
     | (ItemDragging, MUp) \<Rightarrow> drag_mouseUp D s
     | _ \<Rightarrow> (s, None))"

text \<open>A run of events; the error of each event goes to the browser and the next event is handled.\<close>

fun item_events :: "('p, 'i) drag_target \<Rightarrow> mouse_event list \<Rightarrow> ('p, 'i) drag_item \<Rightarrow> ('p, 'i) drag_item \<times> js_error list" where
  "item_events D [] s = (s, [])"
| "item_events D (e # es) s = (case item_mouse D e s of (s1, err) \<Rightarrow>
     case item_events D es s1 of (s2, errs) \<Rightarrow> (s2, (case err of None \<Rightarrow> errs | Some x \<Rightarrow> x # errs)))"

section \<open>The two containing views\<close>

definition tree_toggle :: "(item \<Rightarrow> nat) \<Rightarrow> nat \<Rightarrow> lazy_tree \<Rightarrow> lazy_tree \<times> js_error option" where
  "tree_toggle cls k t = (let t1 = t\<lparr>viewExpanded := (viewExpanded t)(k := \<not> viewExpanded t k)\<rparr> in
     case toggleItem cls k t1 of Inl e \<Rightarrow> (t1, Some e) | Inr t2 \<Rightarrow> (t2, None))"

definition willStartDragging :: "(item \<Rightarrow> nat) \<Rightarrow> nat \<Rightarrow> lazy_tree \<Rightarrow> lazy_tree \<times> js_error option" where
  "willStartDragging cls k t = (if viewExpanded t k then tree_toggle cls k t else (t, None))"

definition tree_click :: "(item \<Rightarrow> nat) \<Rightarrow> (item \<Rightarrow> bool) \<Rightarrow> nat \<Rightarrow> lazy_tree \<Rightarrow> lazy_tree \<times> js_error option" where
  "tree_click cls isExpandable k t =
     (if isExpandable (iv_content (views (lt_list t) ! k)) then tree_toggle cls k t else (t, None))"

fun tree_move_item :: "int \<Rightarrow> drag_info \<Rightarrow> lazy_tree \<Rightarrow> lazy_tree \<times> js_error option" where
  "tree_move_item from (DropInfo to parent pos level) t = moveItem from to parent pos level t"
| "tree_move_item from (StartInfo i) t = (t, None)"

definition tree_target :: "(item \<Rightarrow> nat) \<Rightarrow> (item \<Rightarrow> bool) \<Rightarrow> (item option \<Rightarrow> item option \<Rightarrow> bool) \<Rightarrow> bool \<Rightarrow> (lazy_tree, drag_info) drag_target" where
  "tree_target cls isExpandable isValidDrop allowed =
     \<lparr>the_list = lt_list, upd_list = (\<lambda>f t. t\<lparr>lt_list := f (lt_list t)\<rparr>), reorderable = allowed,
      will_start = willStartDragging cls, before_select = tree_click cls isExpandable,
      start_info = (\<lambda>i. StartInfo (row_arg i)), has_position = (\<lambda>i. case i of StartInfo _ \<Rightarrow> False | _ \<Rightarrow> True),
      index_for = (\<lambda>info i r left t. indexForMovedItem isValidDrop t info i r left), move_item = tree_move_item\<rparr>"

text \<open>A plain lazy list: the dragging information is the row and, once moved, the position.\<close>

datatype list_info = ListStart "int option" | ListDrop int

definition list_target :: "bool \<Rightarrow> (lazy_list, list_info) drag_target" where
  "list_target allowed =
     \<lparr>the_list = (\<lambda>l. l), upd_list = (\<lambda>f l. f l), reorderable = allowed,
      will_start = (\<lambda>k l. (l, None)), before_select = (\<lambda>k l. (l, None)),
      start_info = ListStart, has_position = (\<lambda>i. case i of ListStart _ \<Rightarrow> False | _ \<Rightarrow> True),
      index_for = (\<lambda>info i r left l. Inr (ListDrop i)),
      move_item = (\<lambda>from info l. (l, Some (ThrownError ''Not implemented yet!'')))\<rparr>"

section \<open>Indentation\<close>

text \<open>
  \<open>ensureCorrectLevelClass\<close>: the indentation level (\<open>None\<close> when undefined) and the level classes among
  the class names of the view, \<open>level-n\<close> as the number \<open>n\<close>.  An old level of 0 counts as none.
\<close>

definition ensureCorrectLevelClass :: "nat \<Rightarrow> nat option \<times> nat list \<Rightarrow> nat option \<times> nat list" where
  "ensureCorrectLevelClass level v = (case v of (old, classNames) \<Rightarrow>
     (if old = Some level then v
      else (let names = (case old of Some (Suc n) \<Rightarrow> filter (\<lambda>c. c \<noteq> Suc (Suc n)) classNames | _ \<Rightarrow> classNames)
            in (Some level, names @ [Suc level]))))"

section \<open>Marking the dragged view\<close>

abbreviation flag_view :: "nat \<Rightarrow> bool \<Rightarrow> lazy_list \<Rightarrow> lazy_list" where
  "flag_view k b \<equiv> set_view k (\<lambda>v. v\<lparr>isDragged := b\<rparr>)"

lemma flag_view_shows [simp]: "shows_row (flag_view k b l) = shows_row l"
  by (rule ext) (auto simp: shows_row_def set_view_def nth_list_update)

lemma flag_view_parts [simp]:
  "rows (flag_view k b l) = rows l" "recycled (flag_view k b l) = recycled l" "length (views (flag_view k b l)) = length (views l)"
  "itemHeight (flag_view k b l) = itemHeight l"
  by (simp_all add: set_view_def)

lemma flag_view_at [simp]:
  "j < length (views l) \<Longrightarrow> iv_content (views (flag_view k b l) ! j) = iv_content (views l ! j)"
  "j < length (views l) \<Longrightarrow> contentIndex (views (flag_view k b l) ! j) = contentIndex (views l ! j)"
  "j < length (views l) \<Longrightarrow> iv_isVisible (views (flag_view k b l) ! j) = iv_isVisible (views l ! j)"
  by (auto simp: set_view_def nth_list_update)

lemma flag_view_ok:
  assumes "lazy_ok cls l" and "right_items l" and "once l"
  shows "lazy_ok cls (flag_view k b l)" "right_items (flag_view k b l)" "once (flag_view k b l)"
proof -
  have k: "shows_row l j = Some i \<Longrightarrow> j < length (views l)" for j i by (simp add: shows_row_def split: if_splits)
  show "right_items (flag_view k b l)" using assms(2) k unfolding right_items_def by simp
  show "once (flag_view k b l)" using assms(3) by (simp add: once_def)
  show "lazy_ok cls (flag_view k b l)"
    using assms(1) k unfolding lazy_ok_def flag_view_shows flag_view_parts by (metis flag_view_at)
qed

lemma flag_tree_ok: "tree_ok cls t \<Longrightarrow> tree_ok cls (t\<lparr>lt_list := flag_view k b (lt_list t)\<rparr>)"
  using flag_view_ok [of cls "lt_list t" k b] by (simp add: tree_ok_def)

text \<open>Where an item would go does not depend on the views.\<close>

lemma index_of_list [simp]: "indexForMovedItem valid (t\<lparr>lt_list := l\<rparr>) info i r left = indexForMovedItem valid t info i r left"
proof -
  let ?t = "t\<lparr>lt_list := l\<rparr>"
  have "lvl ?t x = lvl t x" for x by (cases x) (simp_all add: lvl_def levelForItem_def)
  then have lvl: "lvl ?t = lvl t" by (rule ext)
  have row: "tree_itemForRow ?t = tree_itemForRow t" by (rule ext) (simp add: tree_itemForRow_def)
  have "getAncestors ?t x = getAncestors t x" for x by (cases x) (simp_all add: getAncestors_def)
  then have anc: "getAncestors ?t = getAncestors t" by (rule ext)
  have fields: "lt_cache ?t = lt_cache t" "lt_content ?t = lt_content t" "expandedItems ?t = expandedItems t" by simp_all
  show ?thesis
    unfolding indexForMovedItem_def clamp_row_def possible_parents_def closest_parent_def intended_parent_def drop_position_def
      lvl row anc fields by (rule refl)
qed

section \<open>Dragging in a tree\<close>

definition good_info :: "(item option \<Rightarrow> item option \<Rightarrow> bool) \<Rightarrow> lazy_tree \<Rightarrow> int \<Rightarrow> drag_info \<Rightarrow> bool" where
  "good_info valid t from info \<longleftrightarrow> (\<exists>i. info = StartInfo i) \<or> (\<exists>p left. indexForMovedItem valid t (StartInfo 0) p from left = Inr info)"

lemma index_keeps_good:
  assumes "good_info valid t from info" and "indexForMovedItem valid t info p from left = Inr info'"
  shows "good_info valid t from info'"
proof (cases "possible_parents valid t (tree_itemForRow t from) (clamp_row t p) = []")
  case True
  then show ?thesis using assms by (simp add: indexForMovedItem_def Let_def)
next
  case False
  have "indexForMovedItem valid t (StartInfo 0) p from left = Inr info'"
    using assms(2) unfolding indexForMovedItem_def Let_def if_not_P [OF False] .
  then show ?thesis unfolding good_info_def by blast
qed

definition arrays_ok :: "lazy_tree \<Rightarrow> bool" where
  "arrays_ok t \<longleftrightarrow> (\<forall>p \<in> expandedItems t. kids_of p (lt_content t) \<noteq> None)"

lemma fits_array:
  assumes "arrays_ok t" and "fits t r q"
  shows "\<exists>ks. content_of (lt_content t) q = Some ks"
  using assms by (cases q) (auto simp: content_of_def arrays_ok_def fits_def reaches_def)

lemma drop_position_total: "content_of (lt_content t) q = Some ks \<Longrightarrow> \<exists>pos. drop_position t b q = Inr pos"
  by (cases q; cases b; cases "lvl t b = lvl t q + 1") (simp_all add: drop_position_def content_of_def)

lemma index_total:
  assumes ok: "cache_ok t" and "arrays_ok t"
  shows "\<exists>info'. indexForMovedItem valid t info p from left = Inr info'"
proof (cases "possible_parents valid t (tree_itemForRow t from) (clamp_row t p) = []")
  case True
  then show ?thesis by (simp add: indexForMovedItem_def Let_def)
next
  case False
  define r where "r = nat (clamp_row t p)"
  have r: "clamp_row t p = int r" "r \<le> length (tree_rows t)" by (auto simp: r_def clamp_row_def cache_rows_of(3) [OF ok] Let_def)
  let ?q = "intended_parent t (lvl t (tree_itemForRow t from) + trunc_div left 22) (possible_parents valid t (tree_itemForRow t from) (clamp_row t p))"
  have "fits t r ?q" using possible_fit(1) [OF ok r(2)] intended_in [OF False] unfolding r(1) by blast
  then obtain ks where "content_of (lt_content t) ?q = Some ks" using fits_array [OF assms(2)] by blast
  then obtain pos where "drop_position t (tree_itemForRow t (clamp_row t p)) ?q = Inr pos"
    using drop_position_total by blast
  then show ?thesis unfolding indexForMovedItem_def Let_def if_not_P [OF False] by simp
qed

lemma good_drop_array:
  assumes ok: "cache_ok t" and "arrays_ok t" and "indexForMovedItem valid t (StartInfo i0) p from left = Inr (DropInfo to q pos lev)"
  shows "\<exists>ks. content_of (lt_content t) q = Some ks"
proof -
  define r where "r = nat (clamp_row t p)"
  have r: "clamp_row t p = int r" "r \<le> length (tree_rows t)" by (auto simp: r_def clamp_row_def cache_rows_of(3) [OF ok] Let_def)
  let ?ps = "possible_parents valid t (tree_itemForRow t from) (clamp_row t p)"
  have ne: "?ps \<noteq> []" using assms(3) by (auto simp: indexForMovedItem_def Let_def)
  have "q = intended_parent t (lvl t (tree_itemForRow t from) + trunc_div left 22) ?ps"
    using assms(3) unfolding indexForMovedItem_def Let_def if_not_P [OF ne] by auto
  then have "fits t r q" using possible_fit(1) [OF ok r(2)] intended_in [OF ne] unfolding r(1) by blast
  then show ?thesis by (rule fits_array [OF assms(2)])
qed

text \<open>The state while an item of a tree is dragged over rows of a tree that does not change.\<close>

definition tree_dragged :: "(item \<Rightarrow> nat) \<Rightarrow> (item option \<Rightarrow> item option \<Rightarrow> bool) \<Rightarrow> lazy_tree \<Rightarrow> int \<Rightarrow> (lazy_tree, drag_info) drag_item \<Rightarrow> bool" where
  "tree_dragged cls valid t from s \<longleftrightarrow> di_parent s = t \<and> di_state s = ItemDragging \<and> tree_ok cls t \<and> arrays_ok t \<and>
     shows_row (lt_list t) (di_view s) = Some from \<and> (\<exists>info. clone_info s = Some info \<and> good_info valid t from info)"

lemma tree_dragged_row:
  assumes "tree_dragged cls valid t from s"
  shows "item_row (tree_target cls ex valid b) s = Some from" "di_view s < length (views (lt_list t))"
  using assms by (auto simp: tree_dragged_def item_row_def tree_target_def shows_row_def split: if_splits)

lemma tree_drag_move:
  assumes "tree_dragged cls valid t from s"
  shows "\<exists>s'. item_mouse (tree_target cls ex valid b) (MMove ev) s = (s', None) \<and> tree_dragged cls valid t from s' \<and> di_view s' = di_view s"
proof -
  obtain info where i: "clone_info s = Some info" "good_info valid t from info" using assms by (auto simp: tree_dragged_def)
  have t: "di_parent s = t" "di_state s = ItemDragging" "cache_ok t" "arrays_ok t" using assms ok_parts(1) by (auto simp: tree_dragged_def)
  let ?D = "tree_target cls ex valid b"
  have D: "index_for ?D info' p r left t = indexForMovedItem valid t info' p r left" for info' p r left by (simp add: tree_target_def)
  obtain h w where m: "item_mouse ?D (MMove ev) s = didDragItem ?D h w s" by (simp add: item_mouse_def t(2) drag_mouseMove_def)
  obtain info' where "indexForMovedItem valid t info (ceil_div h (int (itemHeight (the_list ?D t)))) from w = Inr info'"
    using index_total [OF t(3,4)] by blast
  moreover from index_keeps_good [OF i(2) this] have "good_info valid t from info'" .
  ultimately show ?thesis
    using assms i(1) unfolding m didDragItem_def
    by (simp add: t(1) D tree_dragged_row(1) [OF assms] row_arg_def tree_dragged_def)
qed

lemma tree_drag_moves:
  "tree_dragged cls valid t from s \<Longrightarrow>
     \<exists>s'. item_events (tree_target cls ex valid b) (map MMove evs @ es) s = item_events (tree_target cls ex valid b) es s' \<and>
       tree_dragged cls valid t from s' \<and> di_view s' = di_view s"
proof (induction evs arbitrary: s)
  case (Cons ev evs)
  obtain s1 where s1: "item_mouse (tree_target cls ex valid b) (MMove ev) s = (s1, None)" "tree_dragged cls valid t from s1" "di_view s1 = di_view s"
    using tree_drag_move [OF Cons.prems] by blast
  from Cons.IH [OF s1(2)] s1 show ?case by auto
qed auto

lemma childView_found: "shows_row l k = Some i \<Longrightarrow> \<exists>k'. childViewForIndex l (Some i) = Some k'"
proof -
  assume "shows_row l k = Some i"
  then have "k \<in> set (filter (\<lambda>k. contentIndex (views l ! k) = Some i) [0..<length (views l)])" by (simp add: shows_row_def split: if_splits)
  then show ?thesis
    by (cases "filter (\<lambda>k. contentIndex (views l ! k) = Some i) [0..<length (views l)]") (simp_all add: childViewForIndex_def)
qed

lemma insert_out_same: "i < length xs \<Longrightarrow> insertAt i (xs ! i) (out_at i xs) = xs"
  by (simp add: insertAt_def out_at_def id_take_nth_drop [symmetric] min_def)

text \<open>However the mouse moves, releasing it ends the drag.\<close>

lemma tree_drag_finish:
  assumes "tree_dragged cls valid t from s" and "tree_itemForRow t from = Some x" and "x \<notin> expandedItems t"
  shows "\<exists>s' r. item_events (tree_target cls ex valid b) (map MMove evs @ [MUp]) s = (s', []) \<and>
    di_state s' = ItemIdle \<and> clone_info s' = None \<and> tree_ok cls (di_parent s') \<and>
    mset (forest_ids (lt_content (di_parent s'))) = mset (forest_ids (lt_content t)) \<and>
    rows (lt_list (di_parent s')) = insertAt r x (out_at (nat from) (rows (lt_list t))) \<and> r < length (rows (lt_list t))"
proof -
  let ?D = "tree_target cls ex valid b"
  obtain s1 where s1: "item_events ?D (map MMove evs @ [MUp]) s = item_events ?D [MUp] s1" "tree_dragged cls valid t from s1"
    using tree_drag_moves [OF assms(1)] by blast
  obtain info where i: "clone_info s1 = Some info" "good_info valid t from info" using s1(2) by (auto simp: tree_dragged_def)
  have t: "di_parent s1 = t" "di_state s1 = ItemDragging" "tree_ok cls t" "arrays_ok t" "shows_row (lt_list t) (di_view s1) = Some from"
    using s1(2) by (auto simp: tree_dragged_def)
  define t0 where "t0 = t\<lparr>lt_list := flag_view (di_view s1) False (lt_list t)\<rparr>"
  have t0: "tree_ok cls t0" unfolding t0_def by (rule flag_tree_ok [OF t(3)])
  have row: "contentIndex (views (lt_list t0) ! di_view s1) = Some from"
    using tree_dragged_row(1) [OF s1(2), of ex b] tree_dragged_row(2) [OF s1(2)] t(1) unfolding t0_def by (simp add: item_row_def tree_target_def)
  let ?s = "set_dragged ?D False s1"
  have s0: "?s = s1\<lparr>di_parent := t0\<rparr>" by (simp add: set_dragged_def t(1) t0_def tree_target_def)
  have up: "item_events ?D [MUp] s1 = (case (case finishDragging ?D ?s of
       (s2, Some e) \<Rightarrow> (s2, Some e) | (s2, None) \<Rightarrow> (s2\<lparr>clone_info := None, di_state := ItemIdle\<rparr>, None)) of
       (s2, err) \<Rightarrow> (s2, (case err of None \<Rightarrow> [] | Some x \<Rightarrow> [x])))"
    by (simp add: item_mouse_def t(2) drag_mouseUp_def split: prod.splits option.splits)
  have fin: "finishDragging ?D ?s = (if \<not> has_position ?D info then (?s, None)
       else (case tree_move_item from info t0 of (p, e) \<Rightarrow> (?s\<lparr>di_parent := p\<rparr>, e)))"
    using row i(1) unfolding s0 by (simp add: finishDragging_def item_row_def row_arg_def tree_target_def)
  have x: "0 \<le> from" "nat from < length (rows (lt_list t))" "rows (lt_list t) ! nat from = x"
    using assms(2) t(3) by (auto simp: tree_itemForRow_def tree_ok_def objectAt_int_def objectAt_def split: if_splits)
  show ?thesis
  proof (cases info)
    case (StartInfo i0)
    then have "item_events ?D [MUp] s1 = (?s\<lparr>clone_info := None, di_state := ItemIdle\<rparr>, [])"
      unfolding up fin by (simp add: tree_target_def)
    moreover have "rows (lt_list t) = insertAt (nat from) x (out_at (nat from) (rows (lt_list t)))"
      using insert_out_same [OF x(2)] x(3) by simp
    ultimately show ?thesis unfolding s1(1) s0 using t0 x(2) by (intro exI conjI) (auto simp: t0_def)
  next
    case (DropInfo to q pos lev)
    obtain p left where idx: "indexForMovedItem valid t0 (StartInfo 0) p from left = Inr (DropInfo to q pos lev)"
      using i(2) DropInfo by (auto simp: good_info_def t0_def)
    have a: "arrays_ok t0" and b: "tree_itemForRow t0 from = Some x" "x \<notin> expandedItems t0"
      using t(4) assms(2,3) by (simp_all add: arrays_ok_def t0_def tree_itemForRow_def)
    obtain ks where ks: "content_of (lt_content t0) q = Some ks" using good_drop_array [OF ok_parts(1) [OF t0] a idx] by blast
    have "shows_row (lt_list t0) (di_view s1) = Some from" using t(5) by (simp add: t0_def)
    then obtain k where k: "childViewForIndex (lt_list t0) (Some from) = Some k" using childView_found by blast
    obtain t' where t': "moveItem from to q pos lev t0 = (t', None)" "tree_ok cls t'"
        "mset (forest_ids (lt_content t')) = mset (forest_ids (lt_content t0))"
        "rows (lt_list t') = insertAt (nat (if from < to then to - 1 else to)) x (out_at (nat from) (rows (lt_list t0)))"
      using drop_moves_row [OF t0 idx b k ks refl] by blast
    have "item_events ?D [MUp] s1 = (?s\<lparr>di_parent := t', clone_info := None, di_state := ItemIdle\<rparr>, [])"
      unfolding up fin DropInfo using t'(1) by (simp add: tree_target_def)
    moreover have "nat (if from < to then to - 1 else to) < length (rows (lt_list t))"
      using index_good_drop [OF ok_parts(1) [OF t0] idx ks] ok_parts(2) [OF t0] x(1,2)
      by (auto simp: t0_def)
    ultimately show ?thesis unfolding s1(1) using t'(2-4) by (intro exI conjI) (auto simp: t0_def)
  qed
qed

lemma tree_drag_start:
  assumes "tree_ok cls t" and "arrays_ok t" and "shows_row (lt_list t) (di_view s) = Some from" and "\<not> viewExpanded t (di_view s)"
    and "di_parent s = t" and "di_state s = ItemIdle" and "down_at s = None" and "\<bar>ev_pageY ev1 - ev_pageY ev0\<bar> \<ge> 3"
  shows "\<exists>s'. item_events (tree_target cls ex valid True) (MDown # MMove ev0 # MMove ev1 # es) s = item_events (tree_target cls ex valid True) es s' \<and>
    tree_dragged cls valid (t\<lparr>lt_list := flag_view (di_view s) True (lt_list t)\<rparr>) from s'"
proof -
  let ?D = "tree_target cls ex valid True" and ?t = "t\<lparr>lt_list := flag_view (di_view s) True (lt_list t)\<rparr>"
  let ?s1 = "s\<lparr>di_state := ItemMouseIsDown\<rparr>" and ?p = "(ev_pageX ev0, ev_pageY ev0)"
  have down: "item_mouse ?D MDown s = (?s1, None)" by (simp add: item_mouse_def assms(6))
  have still: "item_mouse ?D (MMove ev0) ?s1 = (?s1\<lparr>down_at := Some ?p\<rparr>, None)"
    by (simp add: item_mouse_def down_mouseMove_def assms(7) tree_target_def)
  obtain s3 where s3: "item_mouse ?D (MMove ev1) (?s1\<lparr>down_at := Some ?p\<rparr>) = (s3, None)" "di_parent s3 = ?t" "di_state s3 = ItemDragging"
      "di_view s3 = di_view s" "\<exists>i. clone_info s3 = Some (StartInfo i)"
    using assms(4,5,8)
    by (auto simp: item_mouse_def down_mouseMove_def enter_dragging_def tree_target_def willStartDragging_def set_dragged_def Let_def)
  have "tree_dragged cls valid ?t from s3"
    using s3(2-5) assms(2,3) flag_tree_ok [OF assms(1)] by (auto simp: tree_dragged_def arrays_ok_def good_info_def)
  moreover have "item_events ?D (MDown # MMove ev0 # MMove ev1 # es) s = item_events ?D es s3"
    by (simp add: down still s3(1))
  ultimately show ?thesis by blast
qed

section \<open>Properties\<close>


definition sample_event :: "int \<Rightarrow> int \<Rightarrow> item_event" where
  "sample_event x y = \<lparr>ev_pageX = x, ev_pageY = y, ev_itemOffset = (0, 75), ev_scrollOffset = (0, 0), ev_lastScrollY = 0, ev_listTop = 0\<rparr>"

definition sample_item :: "(lazy_tree, drag_info) drag_item" where
  "sample_item = \<lparr>di_state = ItemIdle, down_at = None, grabbed = (0, 0), scrollViewOffset = (0, 0), clone_info = None, di_view = 0,
     di_parent = drag_sample\<rparr>"


text \<open>
  A plain lazy list allows reordering by default but does not implement it: once the pointer has moved
  while dragging, releasing the button throws, the item view stays in the dragging state and its clone stays on the page.
\<close>

theorem lazy_list_drop_sticks:
  assumes "di_state s = ItemDragging" and "clone_info s = Some info"
  shows "\<exists>s'. item_events (list_target True) [MMove ev, MUp] s = (s', [ThrownError ''Not implemented yet!'']) \<and>
    di_state s' = ItemDragging \<and> clone_info s' \<noteq> None"
  using assms by (simp add: item_mouse_def drag_mouseMove_def didDragItem_def drag_mouseUp_def finishDragging_def set_dragged_def list_target_def)

text \<open>
  The indentation class: a view that has been shown at positive levels only has exactly the class of
  its level.
\<close>

theorem level_class_exact:
  assumes "ls \<noteq> []" and "0 \<notin> set ls"
  shows "fold ensureCorrectLevelClass ls (None, []) = (Some (last ls), [Suc (last ls)])"
  using assms
proof (induction ls rule: rev_induct)
  case (snoc l ls)
  show ?case
  proof (cases "ls = []")
    case True
    then show ?thesis by (simp add: ensureCorrectLevelClass_def)
  next
    case False
    then obtain n where "last ls = Suc n" using snoc.prems(2) by (metis Un_iff last_in_set not0_implies_Suc set_append)
    then show ?thesis using snoc False by (simp add: ensureCorrectLevelClass_def)
  qed
qed simp

text \<open>A view that moves from level 0 to another level keeps the class of level 0 as well.\<close>

theorem level_class_stale:
  "fold ensureCorrectLevelClass [0, Suc n] (None, []) = (Some (Suc n), [1, Suc (Suc n)])"
  by (simp add: ensureCorrectLevelClass_def)

end
