(* ===== verification/View_Base.thy ===== *)
theory View_Base
  imports Button_View
begin

text \<open>
  The base view (\<open>view.js\<close>, \<open>mixins/view_support.js\<close>): searching the descendants of a view, child views that
  are created on a condition, the choice and the cache of templates, and the class names of a view that
  resets those of its super classes; with the default button of a panel (\<open>insertNewline\<close> of
  \<open>views/panel.js\<close>), which is found by such a search and clicked through its statechart.
\<close>

section \<open>Descendants\<close>

text \<open>A view with its child views; a child may also be something that is not an \<open>Ember.View\<close>.\<close>

datatype 'b vtree = VNode (v_isView: bool) (v_data: 'b) (v_kids: "'b vtree list")

fun firstDescendantWithProperty :: "('b \<Rightarrow> bool) \<Rightarrow> 'b vtree \<Rightarrow> 'b vtree option"
and first_loop :: "('b \<Rightarrow> bool) \<Rightarrow> 'b vtree list \<Rightarrow> 'b vtree option \<Rightarrow> 'b vtree option" where
  "firstDescendantWithProperty P (VNode i d ks) = first_loop P ks None"
| "first_loop P [] result = result"
| "first_loop P (c # cs) result = first_loop P cs
     (if \<not> v_isView c then result
      else if result = None then (if P (v_data c) then Some c else firstDescendantWithProperty P c)
      else result)"

text \<open>All descendants in the order of a depth-first walk.\<close>

fun descendants :: "'b vtree \<Rightarrow> 'b vtree list" and descendants_of :: "'b vtree list \<Rightarrow> 'b vtree list" where
  "descendants (VNode i d ks) = descendants_of ks"
| "descendants_of [] = []"
| "descendants_of (c # cs) = (if v_isView c then c # descendants c else []) @ descendants_of cs"

section \<open>Conditional child views\<close>

definition has_colon :: "string \<Rightarrow> bool" where
  "has_colon s \<longleftrightarrow> CHR '':'' \<in> set s"

text \<open>The first two parts of \<open>split(':')\<close>.\<close>

definition part0 :: "string \<Rightarrow> string" where
  "part0 s = takeWhile (\<lambda>c. c \<noteq> CHR '':'') s"

definition part1 :: "string \<Rightarrow> string" where
  "part1 s = takeWhile (\<lambda>c. c \<noteq> CHR '':'') (drop (Suc (length (part0 s))) s)"

definition init_step :: "(string \<Rightarrow> bool) \<Rightarrow> string list \<Rightarrow> nat \<Rightarrow> nat \<times> string list option \<Rightarrow> nat \<times> string list option" where
  "init_step get childViews i st = (case st of (removedCount, toCreate) \<Rightarrow>
     (if has_colon (childViews ! i)
      then (let c = (case toCreate of None \<Rightarrow> childViews | Some c \<Rightarrow> c); k = i - removedCount
            in if get (part0 (childViews ! i)) then (removedCount, Some (c[k := part1 (childViews ! i)]))
               else (Suc removedCount, Some (take k c @ drop (Suc k) c)))
      else (removedCount, toCreate)))"

definition view_init :: "(string \<Rightarrow> bool) \<Rightarrow> string list option \<Rightarrow> string list option" where
  "view_init get childViews = (case childViews of
       None \<Rightarrow> None
     | Some cv \<Rightarrow> (case snd (fold (init_step get cv) [0..<length cv] (0, None)) of None \<Rightarrow> Some cv | Some c \<Rightarrow> Some c))"

definition wanted :: "(string \<Rightarrow> bool) \<Rightarrow> string \<Rightarrow> string list" where
  "wanted get s = (if has_colon s then (if get (part0 s) then [part1 s] else []) else [s])"

section \<open>Templates\<close>

text \<open>
  The cache is a plain object, so a lookup also finds what every object inherits; compiling is done by
  Handlebars, which is a parameter.
\<close>

datatype 't compiled = Compiled 't | Inherited string

definition object_properties :: "string list" where
  "object_properties = [''constructor'', ''toString'', ''toLocaleString'', ''valueOf'', ''hasOwnProperty'',
     ''isPrototypeOf'', ''propertyIsEnumerable'']"

record 't template_cache =
  cached :: "string \<rightharpoonup> 't"
  compile_log :: "string list"

definition cache_get :: "'t template_cache \<Rightarrow> string \<Rightarrow> 't compiled option" where
  "cache_get c s = (case cached c s of Some t \<Rightarrow> Some (Compiled t)
     | None \<Rightarrow> if s \<in> set object_properties then Some (Inherited s) else None)"

definition compileTemplate :: "(string \<Rightarrow> 't) \<Rightarrow> string \<Rightarrow> 't template_cache \<Rightarrow> 't compiled \<times> 't template_cache" where
  "compileTemplate compile s c = (case cache_get c s of
       Some t \<Rightarrow> (t, c)
     | None \<Rightarrow> (Compiled (compile s), c\<lparr>cached := (cached c)(s \<mapsto> compile s), compile_log := compile_log c @ [s]\<rparr>))"

text \<open>\<open>template\<close>: the string in \<open>handlebars\<close> when it is not empty, else the template with the given name.\<close>

definition view_template :: "(string \<Rightarrow> 't) \<Rightarrow> (string option \<Rightarrow> 't option) \<Rightarrow> string option \<Rightarrow> string option \<Rightarrow>
    't template_cache \<Rightarrow> 't compiled option \<times> 't template_cache" where
  "view_template compile templateForName handlebars templateName c = (case handlebars of
       Some (x # xs) \<Rightarrow> (case compileTemplate compile (x # xs) c of (t, c') \<Rightarrow> (Some t, c'))
     | _ \<Rightarrow> (map_option Compiled (templateForName templateName), c))"

text \<open>
  \<open>render\<close>: a template writes to the buffer or returns a string, which is pushed; without a template
  the child views are rendered.  \<open>removeChild\<close> makes the same choice.
\<close>

definition view_render :: "('t \<Rightarrow> string list \<Rightarrow> string list \<times> string option) \<Rightarrow> (string list \<Rightarrow> string list) \<Rightarrow> 't option \<Rightarrow>
    string list \<Rightarrow> string list" where
  "view_render run renderChildren tmpl buffer = (case tmpl of
       None \<Rightarrow> renderChildren buffer
     | Some t \<Rightarrow> (case run t buffer of (b, None) \<Rightarrow> b | (b, Some s) \<Rightarrow> b @ [s]))"

definition view_removeChild :: "('v \<Rightarrow> 's \<Rightarrow> 's) \<Rightarrow> ('v \<Rightarrow> 's \<Rightarrow> 's) \<Rightarrow> 't option \<Rightarrow> 'v \<Rightarrow> 's \<Rightarrow> 's" where
  "view_removeChild plain container tmpl v s = (if tmpl \<noteq> None then plain v s else container v s)"

section \<open>Class names\<close>

text \<open>The prototypes above that of the view's own class, from the nearest to the root.\<close>

record proto =
  p_isViewClass :: bool
  p_classNames :: "string list option"

definition names_of :: "proto \<Rightarrow> string list" where
  "names_of p = (case p_classNames p of None \<Rightarrow> [] | Some ns \<Rightarrow> ns)"

fun collect_up :: "proto list \<Rightarrow> string list \<Rightarrow> string list \<times> proto option" where
  "collect_up [] acc = (acc, None)"
| "collect_up (p # ps) acc = (if p_isViewClass p then (acc, Some p) else collect_up ps (acc @ names_of p))"

definition collectSuperClassNames :: "proto list \<Rightarrow> string list result" where
  "collectSuperClassNames protos = (case collect_up protos [] of
       (acc, None) \<Rightarrow> Inl TypeError
     | (acc, Some p) \<Rightarrow> Inr (filter (\<lambda>n. n \<notin> set (names_of p)) acc))"

definition support_classNames :: "bool \<Rightarrow> proto list \<Rightarrow> string list \<Rightarrow> string list result" where
  "support_classNames resetClassNames protos classNames =
     (if resetClassNames then rbind (collectSuperClassNames protos) (\<lambda>s. Inr (filter (\<lambda>n. n \<notin> set s) classNames))
      else Inr classNames)"

section \<open>The default button of a panel\<close>

record panel_views =
  pv_tree :: "nat vtree"
  pv_isDefault :: "nat \<Rightarrow> bool"
  pv_button :: "nat \<Rightarrow> button_owner option"

definition panel_insertNewline :: "panel_views \<Rightarrow> (retval \<times> panel_views) result" where
  "panel_insertNewline pv = (case firstDescendantWithProperty (pv_isDefault pv) (pv_tree pv) of
       None \<Rightarrow> Inr (RBool True, pv)
     | Some c \<Rightarrow> (case pv_button pv (v_data c) of
          None \<Rightarrow> Inr (RBool True, pv)
        | Some b \<Rightarrow> rbind (button_invoke ''simulateClick'' [] b) (\<lambda>(_, b').
            Inr (RBool True, pv\<lparr>pv_button := (pv_button pv)(v_data c \<mapsto> b')\<rparr>))))"

section \<open>Properties\<close>

lemma first_loop_found: "first_loop P cs (Some c) = Some c"
  by (induction cs) simp_all

lemma find_append: "List.find P (xs @ ys) = (case List.find P xs of None \<Rightarrow> List.find P ys | Some x \<Rightarrow> Some x)"
  by (induction xs) simp_all

text \<open>The search finds the first of the descendants in depth-first order that has the property.\<close>

theorem first_descendant_is_preorder:
  "firstDescendantWithProperty P v = List.find (\<lambda>c. P (v_data c)) (descendants v)"
proof -
  have "firstDescendantWithProperty P v = List.find (\<lambda>c. P (v_data c)) (descendants v)"
    and "first_loop P cs None = List.find (\<lambda>c. P (v_data c)) (descendants_of cs)" for cs
  proof (induction v and cs rule: descendants_descendants_of.induct)
    case (3 c cs)
    show ?case
    proof (cases "v_isView c \<and> \<not> P (v_data c)")
      case True
      then show ?thesis
        using 3 by (cases "List.find (\<lambda>c. P (v_data c)) (descendants c)") (simp_all add: find_append first_loop_found)
    next
      case False
      then show ?thesis using 3 by (auto simp: first_loop_found)
    qed
  qed simp_all
  then show ?thesis by simp
qed

lemma wanted_length: "length (wanted get s) \<le> 1"
  by (simp add: wanted_def)

lemma init_loop_invariant:
  assumes "i \<le> length cv"
  shows "case fold (init_step get cv) [0..<i] (0, None) of (removed, made) \<Rightarrow>
    length (concat (map (wanted get) (take i cv))) + removed = i \<and>
    (case made of None \<Rightarrow> cv | Some c \<Rightarrow> c) = concat (map (wanted get) (take i cv)) @ drop i cv"
  using assms
proof (induction i)
  case (Suc i)
  obtain removed made where f: "fold (init_step get cv) [0..<i] (0, None) = (removed, made)" by (metis surj_pair)
  let ?done = "concat (map (wanted get) (take i cv))"
  let ?c = "case made of None \<Rightarrow> cv | Some c \<Rightarrow> c"
  have inv: "length ?done + removed = i" "?c = ?done @ drop i cv" using Suc f by auto
  have k: "i - removed = length ?done" using inv(1) by simp
  have next_one: "take (Suc i) cv = take i cv @ [cv ! i]" "drop i cv = cv ! i # drop (Suc i) cv"
    using Suc.prems by (simp_all add: take_Suc_conv_app_nth Cons_nth_drop_Suc)
  have step: "fold (init_step get cv) [0..<Suc i] (0, None) = init_step get cv i (removed, made)" using f by simp
  show ?case
  proof (cases "has_colon (cv ! i)")
    case False
    then have "wanted get (cv ! i) = [cv ! i]" by (simp add: wanted_def)
    then show ?thesis unfolding step using inv next_one False by (simp add: init_step_def)
  next
    case True
    then have st: "init_step get cv i (removed, made) = (if get (part0 (cv ! i)) then (removed, Some (?c[length ?done := part1 (cv ! i)]))
        else (Suc removed, Some (take (length ?done) ?c @ drop (Suc (length ?done)) ?c)))"
      by (simp add: init_step_def k Let_def)
    have "wanted get (cv ! i) = (if get (part0 (cv ! i)) then [part1 (cv ! i)] else [])" using True by (simp add: wanted_def)
    then show ?thesis unfolding step st inv(2) using inv(1) next_one by simp
  qed
qed simp

text \<open>
  C32: the loop that edits a copy of the child views with a running count of removals gives the child views
  whose condition holds, without their conditions, and those without a condition, in order.
\<close>

theorem conditional_child_views:
  "view_init get (Some cv) = Some (concat (map (wanted get) cv))"
proof -
  obtain removed made where f: "fold (init_step get cv) [0..<length cv] (0, None) = (removed, made)" by (metis surj_pair)
  have "(case made of None \<Rightarrow> cv | Some c \<Rightarrow> c) = concat (map (wanted get) cv)"
    using init_loop_invariant [of "length cv" cv get] f by simp
  then show ?thesis by (cases made) (simp_all add: view_init_def f)
qed

definition cache_sound :: "(string \<Rightarrow> 't) \<Rightarrow> 't template_cache \<Rightarrow> bool" where
  "cache_sound compile c \<longleftrightarrow> (\<forall>s t. cached c s = Some t \<longrightarrow> t = compile s) \<and> distinct (compile_log c) \<and> set (compile_log c) = dom (cached c)"

fun compile_all :: "(string \<Rightarrow> 't) \<Rightarrow> string list \<Rightarrow> 't template_cache \<Rightarrow> 't compiled list \<times> 't template_cache" where
  "compile_all compile [] c = ([], c)"
| "compile_all compile (s # ss) c = (case compileTemplate compile s c of (t, c1) \<Rightarrow>
     case compile_all compile ss c1 of (ts, c2) \<Rightarrow> (t # ts, c2))"

lemma compileTemplate_sound:
  assumes "cache_sound compile c" and "s \<notin> set object_properties"
  shows "\<exists>c'. compileTemplate compile s c = (Compiled (compile s), c') \<and> cache_sound compile c'"
  using assms by (cases "cached c s") (auto simp: compileTemplate_def cache_get_def cache_sound_def)

text \<open>
  However often and in whatever order templates are asked for, each comes out compiled, and no string
  is compiled twice.
\<close>

theorem templates_compiled_once:
  assumes "cache_sound compile c" and "set ss \<inter> set object_properties = {}"
  shows "fst (compile_all compile ss c) = map (\<lambda>s. Compiled (compile s)) ss \<and> cache_sound compile (snd (compile_all compile ss c))"
  using assms
proof (induction ss arbitrary: c)
  case (Cons s ss)
  obtain c1 where c1: "compileTemplate compile s c = (Compiled (compile s), c1)" "cache_sound compile c1"
    using compileTemplate_sound [of compile c s] Cons.prems by auto
  moreover obtain ts c2 where "compile_all compile ss c1 = (ts, c2)" by (metis surj_pair)
  ultimately show ?case using Cons.IH [OF c1(2)] Cons.prems(2) by simp
qed simp

definition empty_templates :: "'t template_cache" where
  "empty_templates = \<lparr>cached = Map.empty, compile_log = []\<rparr>"

theorem templates_compiled_once_witness:
  "fst (compile_all length [''ab'', ''c'', ''ab''] empty_templates) = [Compiled 2, Compiled 1, Compiled 2]"
proof -
  have "cache_sound length (empty_templates :: nat template_cache)" by (simp add: cache_sound_def empty_templates_def)
  moreover have "set [''ab'', ''c'', ''ab''] \<inter> set object_properties = {}" by (simp add: object_properties_def)
  ultimately have "fst (compile_all length [''ab'', ''c'', ''ab''] empty_templates) = map (\<lambda>s. Compiled (length s)) [''ab'', ''c'', ''ab'']"
    by (rule templates_compiled_once [THEN conjunct1])
  also have "\<dots> = [Compiled 2, Compiled 1, Compiled 2]" by simp
  finally show ?thesis .
qed

text \<open>A template that reads like a property every object has is not compiled at all.\<close>

theorem inherited_name_is_not_compiled:
  "fst (compileTemplate compile ''constructor'' empty_templates) = Inherited ''constructor''"
  by (simp add: compileTemplate_def cache_get_def empty_templates_def object_properties_def)

lemma collect_up_to_view:
  "\<forall>p \<in> set ps. \<not> p_isViewClass p \<Longrightarrow> p_isViewClass q \<Longrightarrow> collect_up (ps @ q # qs) acc = (acc @ concat (map names_of ps), Some q)"
  by (induction ps arbitrary: acc) auto

text \<open>
  A view that resets its class names keeps those of the base view and those that no super class below
  the base view has.
\<close>

theorem reset_keeps_own_names:
  assumes "\<forall>p \<in> set ps. \<not> p_isViewClass p" and "p_isViewClass q"
  shows "support_classNames True (ps @ q # qs) ns =
    Inr (filter (\<lambda>n. n \<in> set (names_of q) \<or> (\<forall>p \<in> set ps. n \<notin> set (names_of p))) ns)"
proof -
  have "collect_up (ps @ q # qs) [] = (concat (map names_of ps), Some q)"
    using assms collect_up_to_view by simp
  then show ?thesis by (auto simp: support_classNames_def collectSuperClassNames_def intro!: filter_cong)
qed

theorem reset_keeps_own_names_witness:
  "support_classNames True [\<lparr>p_isViewClass = False, p_classNames = Some [''v'', ''button'']\<rparr>, \<lparr>p_isViewClass = True, p_classNames = Some [''v'']\<rparr>]
     [''v'', ''button'', ''mine''] = Inr [''v'', ''mine'']"
  using reset_keeps_own_names [of "[\<lparr>p_isViewClass = False, p_classNames = Some [''v'', ''button'']\<rparr>]"
      "\<lparr>p_isViewClass = True, p_classNames = Some [''v'']\<rparr>" "[]" "[''v'', ''button'', ''mine'']"]
  by (simp add: names_of_def)

text \<open>
  A subclass of a class that resets its class names inherits the flag and loses the names of that class
  too, as its prototype is one of those collected.
\<close>

theorem reset_is_inherited:
  assumes "\<not> p_isViewClass a" and "p_isViewClass q" and "own \<in> set (names_of a)" and "own \<notin> set (names_of q)"
  shows "\<exists>ns'. support_classNames True (a # q # qs) ns = Inr ns' \<and> own \<notin> set ns'"
  using assms by (auto simp: support_classNames_def collectSuperClassNames_def)

lemma simulated_click_fires:
  assumes "currentFlameState b = Some Idle" and "\<not> isDisabled (ownerData b)" and "timers (ownerData b) = []"
  shows "\<exists>b1 b2. button_invoke ''simulateClick'' [] b = Inr (RUndefined, b1) \<and> button_handle (TimerFires 0) b1 = Inr b2 \<and>
    fired (ownerData b2) = Suc (fired (ownerData b)) \<and> currentFlameState b2 = Some Idle \<and> timers (ownerData b2) = []"
proof -
  obtain n x where b: "b = \<lparr>currentFlameState = n, ownerData = x\<rparr>" by (cases b)
  then show ?thesis using assms
    by (simp add: button_invoke_def invokeStateMethod_def button_get_def with_methods_def button_methods_def idle_simulateClick_def
        gotoFlameState_def exit_current_def run_hook_def button_hook_defs button_call_def hover_mouseDown_def goto_then_true_def
        fire_timer_def inside_mouseUp_def handleClick_def hover_mouseLeave_def Let_def upd_def no_key_def)
qed

text \<open>
  The return key in a panel: the first default button of the panel in depth-first order, when it is idle
  and enabled, is clicked once; no other button changes.
\<close>

theorem newline_clicks_default_button:
  assumes "List.find (\<lambda>c. pv_isDefault pv (v_data c)) (descendants (pv_tree pv)) = Some c" and "pv_button pv (v_data c) = Some b"
    and "currentFlameState b = Some Idle" and "\<not> isDisabled (ownerData b)" and "timers (ownerData b) = []"
  shows "\<exists>pv' b1 b2. panel_insertNewline pv = Inr (RBool True, pv') \<and> pv_button pv' = (pv_button pv)(v_data c \<mapsto> b1) \<and>
    button_handle (TimerFires 0) b1 = Inr b2 \<and> fired (ownerData b2) = Suc (fired (ownerData b)) \<and> currentFlameState b2 = Some Idle"
proof -
  obtain b1 b2 where "button_invoke ''simulateClick'' [] b = Inr (RUndefined, b1)" "button_handle (TimerFires 0) b1 = Inr b2"
      "fired (ownerData b2) = Suc (fired (ownerData b))" "currentFlameState b2 = Some Idle"
    using simulated_click_fires [OF assms(3-5)] by blast
  moreover from this(1) assms(1,2) have "panel_insertNewline pv = Inr (RBool True, pv\<lparr>pv_button := (pv_button pv)(v_data c \<mapsto> b1)\<rparr>)"
    by (simp add: panel_insertNewline_def first_descendant_is_preorder)
  ultimately show ?thesis by (intro exI conjI) (assumption | simp)+
qed

definition sample_views :: panel_views where
  "sample_views = \<lparr>pv_tree = VNode True 0 [VNode True 1 [VNode True 2 []], VNode True 3 []], pv_isDefault = (\<lambda>v. v \<ge> 2),
     pv_button = (\<lambda>v. if v \<ge> 2 then Some (button_init False False) else None)\<rparr>"

theorem newline_clicks_default_button_witness:
  "\<exists>pv' b1 b2. panel_insertNewline sample_views = Inr (RBool True, pv') \<and> pv_button pv' 2 = Some b1 \<and>
     button_handle (TimerFires 0) b1 = Inr b2 \<and> fired (ownerData b2) = 1"
proof -
  have "List.find (\<lambda>c. pv_isDefault sample_views (v_data c)) (descendants (pv_tree sample_views)) = Some (VNode True 2 [])"
    by (simp add: sample_views_def)
  moreover have "pv_button sample_views (v_data (VNode True 2 [])) = Some (button_init False False)" by (simp add: sample_views_def)
  moreover have "currentFlameState (button_init False False) = Some Idle" "\<not> isDisabled (ownerData (button_init False False))"
    "timers (ownerData (button_init False False)) = []" "fired (ownerData (button_init False False)) = 0"
    by (simp_all add: button_init_def new_button_def)
  ultimately obtain pv' b1 b2 where "panel_insertNewline sample_views = Inr (RBool True, pv')"
      "pv_button pv' = (pv_button sample_views)(v_data (VNode True 2 []) \<mapsto> b1)"
      "button_handle (TimerFires 0) b1 = Inr b2" "fired (ownerData b2) = Suc 0"
    using newline_clicks_default_button by metis
  then show ?thesis by (intro exI [of _ pv'] exI [of _ b1] exI [of _ b2]) simp_all
qed

end
