(* ===== verification/Form_Fields.thy ===== *)
theory Form_Fields
  imports Button_View
begin

text \<open>
  Input fields and toggles: text fields with the delayed transfer of typed text
  (\<open>views/text_field_view.js\<close>), text areas (\<open>views/text_area_view.js\<close>), search fields
  (\<open>views/search_text_field_view.js\<close>), check boxes and radio buttons (\<open>views/checkbox_view.js\<close>,
  \<open>views/radio_button_view.js\<close>) on the statechart of the button, and disclosure triangles
  (\<open>views/disclosure_view.js\<close>).

  \<open>tf_element\<close> is the text in the input element, \<open>tf_value\<close> the \<open>value\<close> property of the view.  Ember's
  text support moves text between the two: \<open>_elementValueDidChange\<close> sets the property from the element,
  and setting the property changes the element.
\<close>

section \<open>Text fields\<close>

text \<open>
  \<open>_timer\<close> is never reset: once a timer was started it stays set, whether it is pending, has fired or
  was cancelled.
\<close>

datatype field_timer = NoTimer | PendingTimer | OldTimer

record text_field =
  tf_element :: string
  tf_value :: string
  tf_timer :: field_timer
  setValueOnEachKeyUp :: bool
  tf_updates :: nat
  tf_submitted :: "string list"

definition elementValueDidChange :: "text_field \<Rightarrow> text_field" where
  "elementValueDidChange f = f\<lparr>tf_value := tf_element f, tf_updates := Suc (tf_updates f)\<rparr>"

definition setValue :: "text_field \<Rightarrow> text_field" where
  "setValue f = (if setValueOnEachKeyUp f then elementValueDidChange f else f\<lparr>tf_timer := PendingTimer\<rparr>)"

definition field_timer_fires :: "text_field \<Rightarrow> text_field" where
  "field_timer_fires f = (if tf_timer f = PendingTimer then (elementValueDidChange f)\<lparr>tf_timer := OldTimer\<rparr> else f)"

definition field_willDestroyElement :: "text_field \<Rightarrow> text_field" where
  "field_willDestroyElement f = (if tf_timer f \<noteq> NoTimer then (elementValueDidChange f)\<lparr>tf_timer := OldTimer\<rparr> else f)"

text \<open>
  The return key: \<open>insertNewline\<close> of the field transfers the text and does not handle the event, which
  goes on to \<open>insertNewline\<close> of the surrounding view, which fires the action with the value.
\<close>

definition field_insertNewline :: "text_field \<Rightarrow> bool \<times> text_field" where
  "field_insertNewline f = (False, elementValueDidChange f)"

definition view_insertNewline :: "text_field \<Rightarrow> text_field" where
  "view_insertNewline f = f\<lparr>tf_submitted := tf_submitted f @ [tf_value f]\<rparr>"

definition press_return :: "text_field \<Rightarrow> text_field" where
  "press_return f = (case field_insertNewline f of (handled, f1) \<Rightarrow> if handled then f1 else view_insertNewline f1)"

definition assign_value :: "string \<Rightarrow> text_field \<Rightarrow> text_field" where
  "assign_value v f = f\<lparr>tf_value := v, tf_element := v\<rparr>"

datatype field_event = TypeText string | TimerElapses | PressReturn | AssignValue string

fun field_handle :: "field_event \<Rightarrow> text_field \<Rightarrow> text_field" where
  "field_handle (TypeText s) f = setValue (f\<lparr>tf_element := s\<rparr>)"
| "field_handle TimerElapses f = field_timer_fires f"
| "field_handle PressReturn f = press_return f"
| "field_handle (AssignValue v) f = assign_value v f"

definition new_field :: "bool \<Rightarrow> string \<Rightarrow> text_field" where
  "new_field each v = \<lparr>tf_element = v, tf_value = v, tf_timer = NoTimer, setValueOnEachKeyUp = each, tf_updates = 0, tf_submitted = []\<rparr>"

section \<open>Search fields\<close>

definition search_cancel :: "text_field \<Rightarrow> bool \<times> text_field" where
  "search_cancel f = (if tf_value f = [] then (False, f) else (True, assign_value [] f))"

definition clear_button_visible :: "text_field \<Rightarrow> bool" where
  "clear_button_visible f \<longleftrightarrow> tf_value f \<noteq> []"

section \<open>Text areas\<close>

text \<open>
  A text area: the inner element has an \<open>isValid\<close> of its own, which is not connected to that of the
  view.
\<close>

record text_area =
  ta_element :: string
  ta_value :: string
  ta_isValid :: "bool option"
  ta_innerIsValid :: "bool option"

definition area_keyUp :: "text_area \<Rightarrow> bool \<times> text_area" where
  "area_keyUp a = (False, a\<lparr>ta_value := ta_element a\<rparr>)"

definition area_isInvalid :: "text_area \<Rightarrow> bool" where
  "area_isInvalid a \<longleftrightarrow> ta_innerIsValid a = Some False"

definition new_area :: "string \<Rightarrow> bool option \<Rightarrow> text_area" where
  "new_area v valid = \<lparr>ta_element = v, ta_value = v, ta_isValid = valid, ta_innerIsValid = None\<rparr>"

definition field_isInvalid :: "bool option \<Rightarrow> bool" where
  "field_isInvalid parentIsValid \<longleftrightarrow> parentIsValid = Some False"

section \<open>Check boxes\<close>

text \<open>A check box is a sticky button.  Handlebars escapes the title; the tooltip goes in as it is.\<close>

definition new_checkbox :: "bool \<Rightarrow> button_owner" where
  "new_checkbox disabled = button_init disabled True"

definition checkbox_render :: "(string \<Rightarrow> string) \<Rightarrow> string \<Rightarrow> string option \<Rightarrow> string option \<Rightarrow> string" where
  "checkbox_render escapeExpression checkMark tooltip title =
     ''<div class=\"flame-checkbox-box\"></div>'' @ checkMark @ ''<label class=\"flame-checkbox-label\" title=\"''
     @ (case tooltip of None \<Rightarrow> [] | Some t \<Rightarrow> t) @ ''\">''
     @ (case title of None \<Rightarrow> [] | Some t \<Rightarrow> escapeExpression t) @ ''</label>''"

definition full_click :: "button_event list" where
  "full_click = [Mouse ''mouseEnter'', Mouse ''mouseDown'', Mouse ''mouseUp'', Mouse ''mouseLeave'']"

section \<open>Radio buttons\<close>

text \<open>
  Radio buttons that share a target value.  \<open>isSelected\<close> is computed from the two values; toggling it,
  as a sticky button does after its action, computes it again.
\<close>

record 'v radio_group =
  radios :: "(button_owner \<times> 'v option) list"
  targetValue :: "'v option"

definition radio_isSelected :: "'v option \<Rightarrow> 'v option \<Rightarrow> bool" where
  "radio_isSelected val tgt \<longleftrightarrow> (if val = None \<or> tgt = None then False else val = tgt)"

definition radio_handle :: "nat \<Rightarrow> button_event \<Rightarrow> 'v radio_group \<Rightarrow> 'v radio_group result" where
  "radio_handle i e g = (case objectAt (radios g) i of
       None \<Rightarrow> Inr g
     | Some (c, v) \<Rightarrow> rbind (button_handle e c) (\<lambda>c'.
         Inr (g\<lparr>radios := (radios g)[i := (c', v)],
                targetValue := (if fired (ownerData c') > fired (ownerData c) then v else targetValue g)\<rparr>)))"

fun radio_run :: "(nat \<times> button_event) list \<Rightarrow> 'v radio_group \<Rightarrow> 'v radio_group result" where
  "radio_run [] g = Inr g"
| "radio_run ((i, e) # es) g = rbind (radio_handle i e g) (radio_run es)"

definition selected_radios :: "'v radio_group \<Rightarrow> nat list" where
  "selected_radios g = filter (\<lambda>i. radio_isSelected (snd (radios g ! i)) (targetValue g)) [0..<length (radios g)]"

section \<open>Disclosure triangles\<close>

datatype triangle = ImageExpanded | ImageCollapsed

definition disclosure_image :: "bool \<Rightarrow> triangle" where
  "disclosure_image visibilityTarget = (if visibilityTarget then ImageExpanded else ImageCollapsed)"

text \<open>\<open>mouseDown\<close> of a label fires the action and returns its result.\<close>

definition disclosure_mouseDown :: "bool \<Rightarrow> bool \<times> bool" where
  "disclosure_mouseDown visibilityTarget = (True, \<not> visibilityTarget)"

section \<open>Properties of text fields\<close>

definition field_synced :: "text_field \<Rightarrow> bool" where
  "field_synced f \<longleftrightarrow> (tf_timer f = PendingTimer \<or> tf_value f = tf_element f) \<and> (setValueOnEachKeyUp f \<longrightarrow> tf_timer f = NoTimer)"

lemma field_handle_synced [flame_inv]: "field_synced f \<Longrightarrow> field_synced (field_handle e f)"
  by (cases e) (auto simp: field_synced_def setValue_def elementValueDidChange_def field_timer_fires_def press_return_def
      field_insertNewline_def view_insertNewline_def assign_value_def)

lemma field_run_synced: "field_synced f \<Longrightarrow> field_synced (fold field_handle es f)"
  by (induction es arbitrary: f) (simp_all add: field_handle_synced)

lemma new_field_synced: "field_synced (new_field each v)"
  by (simp add: field_synced_def new_field_def)

text \<open>
  C36: typed text is never lost: after any events the value agrees with the element unless a timer is pending, and
  it agrees once the timer elapses, the field is destroyed, or return is pressed; the action then gets
  the typed text.
\<close>

theorem typed_text_reaches_value:
  assumes "f = fold field_handle es (new_field each v)"
  shows "(tf_timer f \<noteq> PendingTimer \<longrightarrow> tf_value f = tf_element f) \<and> (each \<longrightarrow> tf_value f = tf_element f) \<and>
    tf_value (field_handle TimerElapses f) = tf_element f \<and> tf_value (field_willDestroyElement f) = tf_element f \<and>
    tf_value (field_handle PressReturn f) = tf_element f \<and> tf_submitted (field_handle PressReturn f) = tf_submitted f @ [tf_element f]"
proof -
  have "field_synced f" using field_run_synced [OF new_field_synced] assms by simp
  moreover have "setValueOnEachKeyUp (field_handle e g) = setValueOnEachKeyUp g" for e g
    by (cases e) (auto simp: setValue_def elementValueDidChange_def field_timer_fires_def press_return_def
      field_insertNewline_def view_insertNewline_def assign_value_def)
  then have "setValueOnEachKeyUp (fold field_handle es g) = setValueOnEachKeyUp g" for g
    by (induction es arbitrary: g) simp_all
  then have "setValueOnEachKeyUp f = each" using assms by (simp add: new_field_def)
  ultimately show ?thesis
    by (auto simp: field_synced_def elementValueDidChange_def field_timer_fires_def field_willDestroyElement_def press_return_def
      field_insertNewline_def view_insertNewline_def)
qed

theorem typed_text_reaches_value_witness:
  "tf_value (field_handle TimerElapses (fold field_handle [TypeText ''a'', TypeText ''ab''] (new_field False ''''))) = ''ab''"
proof -
  have "tf_element (fold field_handle [TypeText ''a'', TypeText ''ab''] (new_field False '''')) = ''ab''"
    by (simp add: new_field_def setValue_def)
  then show ?thesis using typed_text_reaches_value [OF refl, of "[TypeText ''a'', TypeText ''ab'']" False "''''"] by metis
qed

text \<open>With the delay, text typed without a pause changes the value once.\<close>

theorem delayed_typing_updates_once:
  assumes "\<not> setValueOnEachKeyUp f" and "ss \<noteq> []"
  shows "tf_value (fold field_handle (map TypeText ss) f) = tf_value f \<and>
    tf_value (fold field_handle (map TypeText ss @ [TimerElapses]) f) = last ss \<and>
    tf_updates (fold field_handle (map TypeText ss @ [TimerElapses]) f) = Suc (tf_updates f)"
proof -
  have "fold field_handle (map TypeText ss) f = f\<lparr>tf_element := last ss, tf_timer := PendingTimer\<rparr>"
    using assms
  proof (induction ss arbitrary: f)
    case (Cons s ss)
    then show ?case by (cases "ss = []") (auto simp: setValue_def)
  qed simp
  then show ?thesis by (simp add: field_timer_fires_def elementValueDidChange_def)
qed

theorem delayed_typing_updates_once_witness:
  "tf_updates (fold field_handle (map TypeText [''a'', ''ab'', ''abc''] @ [TimerElapses]) (new_field False '''')) = 1"
  using delayed_typing_updates_once [of "new_field False ''''" "[''a'', ''ab'', ''abc'']"] by (simp add: new_field_def)

text \<open>Cancelling in a search field: handled exactly when there was a value, and then nothing is left of the text.\<close>

theorem search_cancel_clears:
  assumes "search_cancel f = (handled, f')" and "tf_timer f \<noteq> PendingTimer" and "field_synced f"
  shows "tf_element f' = [] \<and> tf_value f' = [] \<and> \<not> clear_button_visible f' \<and> (handled \<longleftrightarrow> tf_element f \<noteq> [])"
  using assms by (auto simp: search_cancel_def assign_value_def clear_button_visible_def field_synced_def split: if_splits)

theorem search_cancel_clears_witness:
  "tf_element (snd (search_cancel (new_field True ''query''))) = []"
  using search_cancel_clears [OF surjective_pairing, of "new_field True ''query''"] new_field_synced
  by (simp add: new_field_def)

text \<open>Text still waiting for the delay is not seen by the cancel key: it is not handled and the text stays.\<close>

theorem search_cancel_ignores_pending_text:
  assumes "f = field_handle (TypeText (c # cs)) (new_field False [])"
  shows "search_cancel f = (False, f) \<and> tf_element f = c # cs \<and> \<not> clear_button_visible f"
  using assms by (simp add: new_field_def setValue_def search_cancel_def clear_button_visible_def)

text \<open>A text area that is not valid is not shown as such, unlike a text field.\<close>

theorem text_area_never_shown_invalid:
  "\<not> area_isInvalid (new_area v valid) \<and> \<not> area_isInvalid (snd (area_keyUp (new_area v valid))) \<and> field_isInvalid (Some False)"
  by (simp add: area_isInvalid_def new_area_def area_keyUp_def field_isInvalid_def)

section \<open>Properties of check boxes and radio buttons\<close>

lemmas button_eval = button_invoke_def invokeStateMethod_def button_get_def with_methods_def button_methods_def
  gotoFlameState_def exit_current_def run_hook_def button_hook_defs hover_mouseDown_def goto_then_true_def
  inside_mouseUp_def handleClick_def hover_mouseLeave_def idle_mouseEnter_def no_key_def

text \<open>A click on an idle, enabled button fires it once; a sticky one is selected or not, by turns.\<close>

lemma full_click_effect:
  assumes "currentFlameState b = Some Idle" and "\<not> isDisabled (ownerData b)"
  shows "\<exists>b'. button_run full_click b = Inr b' \<and> currentFlameState b' = Some Idle \<and> \<not> isDisabled (ownerData b') \<and>
    fired (ownerData b') = Suc (fired (ownerData b)) \<and> isSticky (ownerData b') = isSticky (ownerData b) \<and>
    isSelected (ownerData b') = (isSelected (ownerData b) \<noteq> isSticky (ownerData b))"
proof -
  obtain n x where b: "b = \<lparr>currentFlameState = n, ownerData = x\<rparr>" by (cases b)
  then show ?thesis using assms by (cases "isSticky x") (simp_all add: full_click_def button_eval Let_def upd_def)
qed

theorem checkbox_parity:
  assumes "\<not> d" and "n = length cs" and "\<forall>c \<in> set cs. c = full_click"
  shows "\<exists>b. button_run (concat cs) (new_checkbox d) = Inr b \<and> fired (ownerData b) = n \<and> isSelected (ownerData b) = odd n"
proof -
  have run_append: "button_run (xs @ ys) b = rbind (button_run xs b) (button_run ys)" for xs ys b
  proof (induction xs arbitrary: b)
    case (Cons x xs)
    then have "button_run (xs @ ys) = (\<lambda>b. rbind (button_run xs b) (button_run ys))" by blast
    then show ?case by (simp add: rbind_assoc)
  qed simp
  have "\<exists>b'. button_run (concat cs) b = Inr b' \<and> fired (ownerData b') = fired (ownerData b) + length cs \<and>
      isSelected (ownerData b') = (isSelected (ownerData b) \<noteq> odd (length cs))"
    if "currentFlameState b = Some Idle" "\<not> isDisabled (ownerData b)" "isSticky (ownerData b)" "\<forall>c \<in> set cs. c = full_click" for b
    using that
  proof (induction cs arbitrary: b)
    case (Cons c cs)
    obtain b1 where b1: "button_run full_click b = Inr b1" "currentFlameState b1 = Some Idle" "\<not> isDisabled (ownerData b1)"
        "fired (ownerData b1) = Suc (fired (ownerData b))" "isSticky (ownerData b1)" "isSelected (ownerData b1) = (\<not> isSelected (ownerData b))"
      using full_click_effect [OF Cons.prems(1,2)] Cons.prems(3) by auto
    from Cons.IH [OF b1(2,3,5)] Cons.prems(4) b1 show ?case by (auto simp: run_append)
  qed simp
  from this [of "new_checkbox d"] assms show ?thesis
    by (simp add: new_checkbox_def button_init_def new_button_def)
qed

theorem checkbox_parity_witness:
  "\<exists>b. button_run (concat [full_click, full_click, full_click]) (new_checkbox False) = Inr b \<and> isSelected (ownerData b)"
  using checkbox_parity [of False 3 "[full_click, full_click, full_click]"] by auto

text \<open>The tooltip of a check box is not escaped.\<close>

theorem checkbox_tooltip_unescaped:
  "checkbox_render esc mark (Some ''\"><b>'') None =
     ''<div class=\"flame-checkbox-box\"></div>'' @ mark @ ''<label class=\"flame-checkbox-label\" title=\"\"><b>\"></label>''"
  by (simp add: checkbox_render_def)

definition radios_ok :: "'v radio_group \<Rightarrow> bool" where
  "radios_ok g \<longleftrightarrow> distinct (map snd (radios g)) \<and> None \<notin> set (map snd (radios g)) \<and>
     (\<forall>r \<in> set (radios g). button_ok (fst r)) \<and> (targetValue g = None \<or> targetValue g \<in> set (map snd (radios g)))"

lemma radio_handle_ok [flame_inv]:
  assumes "radios_ok g"
  shows "\<exists>g'. radio_handle i e g = Inr g' \<and> radios_ok g' \<and> map snd (radios g') = map snd (radios g)"
proof (cases "i < length (radios g)")
  case True
  obtain c v where cv: "radios g ! i = (c, v)" by (metis surj_pair)
  have mem: "(c, v) \<in> set (radios g)" using True cv by (metis nth_mem)
  then have "button_ok c" using assms by (force simp: radios_ok_def)
  then obtain c' where c': "button_handle e c = Inr c'" "button_ok c'" using button_handle_total by blast
  let ?g = "g\<lparr>radios := (radios g)[i := (c', v)], targetValue := (if fired (ownerData c') > fired (ownerData c) then v else targetValue g)\<rparr>"
  have same: "map snd (radios ?g) = map snd (radios g)" using True cv by (simp add: map_update list_update_same_conv)
  have "\<forall>r \<in> set (radios ?g). button_ok (fst r)" using assms c'(2) set_update_subset_insert [of "radios g" i "(c', v)"]
    by (auto simp: radios_ok_def)
  moreover have "v \<in> set (map snd (radios g))" using mem by force
  ultimately have "radios_ok ?g" using assms unfolding radios_ok_def same by auto
  moreover have "radio_handle i e g = Inr ?g" using True cv c'(1) by (simp add: radio_handle_def)
  ultimately show ?thesis using same by blast
qed (use assms in \<open>simp add: radio_handle_def\<close>)

lemma radio_run_ok:
  "radios_ok g \<Longrightarrow> \<exists>g'. radio_run es g = Inr g' \<and> radios_ok g' \<and> map snd (radios g') = map snd (radios g)"
proof (induction es arbitrary: g)
  case (Cons ie es)
  obtain i e where ie: "ie = (i, e)" by (metis surj_pair)
  obtain g1 where g1: "radio_handle i e g = Inr g1" "radios_ok g1" "map snd (radios g1) = map snd (radios g)"
    using radio_handle_ok [OF Cons.prems] by blast
  then show ?case using Cons.IH [OF g1(2)] ie by auto
qed simp

lemma selected_at:
  assumes "radios_ok g" and "k < length (radios g)" and "targetValue g = snd (radios g ! k)"
  shows "selected_radios g = [k]"
proof -
  let ?n = "length (radios g)"
  have vals: "snd (radios g ! i) \<noteq> None" if "i < ?n" for i using assms(1) that unfolding radios_ok_def by (metis length_map nth_map nth_mem)
  have "radio_isSelected (snd (radios g ! i)) (targetValue g) \<longleftrightarrow> i = k" if "i < ?n" for i
    using assms that vals [OF that] vals [OF assms(2)] nth_eq_iff_index_eq [of "map snd (radios g)" i k]
    unfolding radio_isSelected_def radios_ok_def by auto
  then have "selected_radios g = filter (\<lambda>i. i = k) [0..<?n]" unfolding selected_radios_def by (intro filter_cong) auto
  also have "\<dots> = [k]"
  proof -
    have "filter (\<lambda>i. i = k) [0..<n] = (if k < n then [k] else [])" for n by (induction n) auto
    then show ?thesis using assms(2) by simp
  qed
  finally show ?thesis .
qed

text \<open>
  Radio buttons with different values: whatever events they get, no handler throws and at most one is
  selected; a click on an idle, enabled one selects exactly that one.
\<close>

theorem radio_buttons_exclusive:
  assumes "radios_ok g"
  shows "\<exists>g'. radio_run es g = Inr g' \<and> length (selected_radios g') \<le> 1 \<and>
    (\<forall>k c v. k < length (radios g') \<and> radios g' ! k = (c, v) \<and> currentFlameState c = Some Idle \<and> \<not> isDisabled (ownerData c) \<longrightarrow>
      (\<exists>g''. radio_run (map (\<lambda>e. (k, e)) full_click) g' = Inr g'' \<and> selected_radios g'' = [k]))"
proof -
  obtain g' where g': "radio_run es g = Inr g'" "radios_ok g'" using radio_run_ok [OF assms] by blast
  have "length (selected_radios g') \<le> 1"
  proof (cases "targetValue g'")
    case None
    then show ?thesis by (simp add: selected_radios_def radio_isSelected_def)
  next
    case (Some v)
    then obtain k where "k < length (radios g')" "snd (radios g' ! k) = targetValue g'"
      using g'(2) by (auto simp: radios_ok_def in_set_conv_nth)
    then show ?thesis using selected_at [OF g'(2)] by simp
  qed
  moreover have "\<exists>g''. radio_run (map (\<lambda>e. (k, e)) full_click) g' = Inr g'' \<and> selected_radios g'' = [k]"
    if k: "k < length (radios g')" "radios g' ! k = (c, v)" "currentFlameState c = Some Idle" "\<not> isDisabled (ownerData c)" for k c v
  proof -
    obtain x where c: "c = \<lparr>currentFlameState = Some Idle, ownerData = x\<rparr>" using k(3) by (cases c) simp
    have "\<exists>g''. radio_run (map (\<lambda>e. (k, e)) full_click) g' = Inr g'' \<and> targetValue g'' = v"
      using k c by (simp add: full_click_def radio_handle_def button_eval Let_def upd_def)
    then obtain g'' where g'': "radio_run (map (\<lambda>e. (k, e)) full_click) g' = Inr g''" "targetValue g'' = v" by blast
    moreover have "radios_ok g'' \<and> map snd (radios g'') = map snd (radios g')"
      using radio_run_ok [OF g'(2), of "map (\<lambda>e. (k, e)) full_click"] g''(1) by auto
    then have "radios_ok g''" "map snd (radios g'') = map snd (radios g')" by simp_all
    moreover have "k < length (radios g'')" "snd (radios g'' ! k) = v"
      using k(1,2) \<open>map snd (radios g'') = map snd (radios g')\<close> by (metis length_map, metis length_map nth_map snd_conv)
    ultimately show ?thesis using selected_at [of g'' k] by simp
  qed
  ultimately show ?thesis using g'(1) by blast
qed

definition two_radios :: "nat radio_group" where
  "two_radios = \<lparr>radios = [(new_checkbox False, Some 1), (new_checkbox False, Some 2)], targetValue = None\<rparr>"

theorem radio_buttons_exclusive_witness:
  "\<exists>g. radio_run [] two_radios = Inr g \<and> length (selected_radios g) \<le> 1"
proof -
  have "radios_ok two_radios" by (simp add: radios_ok_def two_radios_def new_checkbox_def button_init_ok)
  then show ?thesis using radio_buttons_exclusive [of two_radios "[]"] by blast
qed

text \<open>Clicking a disclosure triangle twice shows it as before.\<close>

theorem disclosure_toggles:
  "fst (disclosure_mouseDown b) \<and> disclosure_image (snd (disclosure_mouseDown b)) \<noteq> disclosure_image b \<and>
     snd (disclosure_mouseDown (snd (disclosure_mouseDown b))) = b"
  by (simp add: disclosure_mouseDown_def disclosure_image_def)

end
