(* ===== verification/Tree_Items.thy ===== *)
theory Tree_Items
  imports Flame_Prelude
begin

text \<open>
  The items of (non-lazy) list and tree views: expanding an item and rendering its subtree on demand
  (\<open>views/tree_item_view.js\<close>), levels, roots and templates of nested tree views (\<open>views/tree_view.js\<close>), and
  the item views of a list that follow its content (\<open>views/list_view.js\<close>).
\<close>

section \<open>Expanding an item\<close>

text \<open>
  \<open>ti_explicit\<close> is \<open>_isExpanded\<close>; \<open>ti_subtree\<close> and \<open>ti_childList\<close> are the cached values of the computed
  properties \<open>renderSubTree\<close> and \<open>childListView\<close> (\<open>None\<close> while nothing is cached).  Neither depends on a
  property that changes, so a cached value stays until it is invalidated by hand.
\<close>

record tree_item_view =
  ti_explicit :: "bool option"
  treeItemIsExpanded :: bool
  defaultIsExpanded :: bool
  ti_hasChildren :: bool
  ti_subtree :: "bool option"
  ti_childList :: "bool option"

definition ti_isExpanded :: "tree_item_view \<Rightarrow> bool" where
  "ti_isExpanded v = (case ti_explicit v of Some b \<Rightarrow> b | None \<Rightarrow> treeItemIsExpanded v \<or> defaultIsExpanded v)"

definition renderSubTree :: "tree_item_view \<Rightarrow> bool \<times> tree_item_view" where
  "renderSubTree v = (case ti_subtree v of
       Some b \<Rightarrow> (b, v)
     | None \<Rightarrow> (let b = ti_hasChildren v \<and> ti_isExpanded v in (b, v\<lparr>ti_subtree := Some b\<rparr>)))"

definition updateSubTreeRendering :: "tree_item_view \<Rightarrow> tree_item_view" where
  "updateSubTreeRendering v = (case renderSubTree v of (shown, v1) \<Rightarrow>
     if \<not> shown \<and> ti_isExpanded v1 \<and> ti_hasChildren v1 then v1\<lparr>ti_subtree := None\<rparr> else v1)"

text \<open>\<open>childListView\<close>: the list of children when the subtree is rendered (\<open>True\<close>), else \<open>null\<close>.\<close>

definition childListView :: "tree_item_view \<Rightarrow> bool \<times> tree_item_view" where
  "childListView v = (case ti_childList v of
       Some b \<Rightarrow> (b, v)
     | None \<Rightarrow> (case renderSubTree v of (b, v1) \<Rightarrow> (b, v1\<lparr>ti_childList := Some b\<rparr>)))"

definition item_mouseUp :: "bool \<Rightarrow> tree_item_view \<Rightarrow> bool \<times> tree_item_view" where
  "item_mouseUp clickTogglesIsExpanded v =
     (False, if clickTogglesIsExpanded then updateSubTreeRendering (v\<lparr>ti_explicit := Some (\<not> ti_isExpanded v)\<rparr>) else v)"

datatype tree_item_event = ClickItem bool | SetContentExpanded bool | SetDefaultExpanded bool | SetHasChildren bool | RenderItem

fun item_handle :: "tree_item_event \<Rightarrow> tree_item_view \<Rightarrow> tree_item_view" where
  "item_handle (ClickItem toggles) v = snd (item_mouseUp toggles v)"
| "item_handle (SetContentExpanded b) v = updateSubTreeRendering (v\<lparr>treeItemIsExpanded := b\<rparr>)"
| "item_handle (SetDefaultExpanded b) v = updateSubTreeRendering (v\<lparr>defaultIsExpanded := b\<rparr>)"
| "item_handle (SetHasChildren b) v = updateSubTreeRendering (v\<lparr>ti_hasChildren := b\<rparr>)"
| "item_handle RenderItem v = snd (renderSubTree v)"

definition new_item :: "bool \<Rightarrow> bool \<Rightarrow> bool \<Rightarrow> tree_item_view" where
  "new_item expanded deflt kids = \<lparr>ti_explicit = None, treeItemIsExpanded = expanded, defaultIsExpanded = deflt,
     ti_hasChildren = kids, ti_subtree = None, ti_childList = None\<rparr>"

section \<open>Nested tree views\<close>

text \<open>A tree view with the tree views around it, from the inside out; \<open>True\<close> for a nested one.\<close>

fun treeLevel :: "bool list \<Rightarrow> nat" where
  "treeLevel [] = 0"
| "treeLevel (isNested # around) = (if isNested then treeLevel around else 0) + 1"

text \<open>The position, from the inside out, of the root.\<close>

fun rootTreeView :: "bool list \<Rightarrow> nat" where
  "rootTreeView [] = 0"
| "rootTreeView [isNested] = 0"
| "rootTreeView (isNested # a # around) = (if isNested then Suc (rootTreeView (a # around)) else 0)"

definition handlebarsForItem :: "((string \<rightharpoonup> string) \<times> string option) option \<Rightarrow> string \<Rightarrow> string option" where
  "handlebarsForItem handlebarsMap ctor = (case handlebarsMap of
       None \<Rightarrow> None
     | Some (m, defaultTemplate) \<Rightarrow> (case m ctor of Some (c # cs) \<Rightarrow> Some (c # cs) | _ \<Rightarrow> defaultTemplate))"

section \<open>The item views of a list\<close>

text \<open>
  The views of the items with their \<open>contentIndex\<close>.  While items are being dragged the views are left
  alone; the drag helper moves them.
\<close>

record 'a list_children =
  lc_content :: "'a list"
  lc_views :: "('a \<times> nat option) list"
  isDragging :: bool

definition updateContentIndexes :: "('a \<times> nat option) list \<Rightarrow> ('a \<times> nat option) list" where
  "updateContentIndexes vs = map (\<lambda>(i, v). (fst v, Some i)) (enumerate 0 vs)"

definition arrayWillChange :: "nat \<Rightarrow> nat \<Rightarrow> 'a list_children \<Rightarrow> 'a list_children" where
  "arrayWillChange start removedCount l = (if isDragging l then l
     else l\<lparr>lc_views := take start (lc_views l) @ drop (start + removedCount) (lc_views l)\<rparr>)"

definition arrayDidChange :: "nat \<Rightarrow> 'a list \<Rightarrow> 'a list_children \<Rightarrow> 'a list_children" where
  "arrayDidChange start added l = (if isDragging l then l
     else l\<lparr>lc_views := updateContentIndexes (take start (lc_views l) @ map (\<lambda>a. (a, None)) added @ drop start (lc_views l))\<rparr>)"

definition replace_content :: "nat \<Rightarrow> nat \<Rightarrow> 'a list \<Rightarrow> 'a list_children \<Rightarrow> 'a list_children" where
  "replace_content start removed added l =
     arrayDidChange start added ((arrayWillChange start removed l)\<lparr>lc_content := replace_at start removed added (lc_content l)\<rparr>)"

section \<open>Properties\<close>

definition subtree_ok :: "tree_item_view \<Rightarrow> bool" where
  "subtree_ok v \<longleftrightarrow> (ti_isExpanded v \<and> ti_hasChildren v \<longrightarrow> ti_subtree v \<noteq> Some False)"

lemma update_ok: "subtree_ok (updateSubTreeRendering v)"
  by (cases "ti_subtree v") (auto simp: subtree_ok_def updateSubTreeRendering_def renderSubTree_def ti_isExpanded_def Let_def split: option.splits)

lemma render_ok: "subtree_ok v \<Longrightarrow> subtree_ok (snd (renderSubTree v))"
  by (cases "ti_subtree v") (auto simp: subtree_ok_def renderSubTree_def ti_isExpanded_def Let_def split: option.splits)

lemma item_handle_ok [flame_inv]: "subtree_ok v \<Longrightarrow> subtree_ok (item_handle e v)"
  by (cases e) (simp_all add: update_ok render_ok item_mouseUp_def)

lemma update_keeps: "ti_subtree v = Some True \<Longrightarrow> ti_subtree (updateSubTreeRendering v) = Some True"
  by (simp add: updateSubTreeRendering_def renderSubTree_def)

lemma item_handle_keeps: "ti_subtree v = Some True \<Longrightarrow> ti_subtree (item_handle e v) = Some True"
  by (cases e) (simp_all add: update_keeps item_mouseUp_def renderSubTree_def)

text \<open>
  Whatever happens to an item, its subtree is rendered whenever it is expanded and has children, and a
  subtree that has been rendered once stays rendered.
\<close>

theorem open_subtree_is_rendered:
  assumes "v = fold item_handle es (new_item expanded deflt kids)"
  shows "(ti_isExpanded v \<and> ti_hasChildren v \<longrightarrow> fst (renderSubTree v)) \<and>
    (fst (renderSubTree v) \<longrightarrow> fst (renderSubTree (fold item_handle es' (snd (renderSubTree v)))))"
proof -
  have "subtree_ok (fold item_handle es w)" if "subtree_ok w" for w using that by (induction es arbitrary: w) (simp_all add: item_handle_ok)
  then have "subtree_ok v" using assms by (simp add: subtree_ok_def new_item_def)
  then have "ti_isExpanded v \<and> ti_hasChildren v \<longrightarrow> fst (renderSubTree v)"
    by (cases "ti_subtree v") (auto simp: subtree_ok_def renderSubTree_def Let_def)
  moreover have stays: "ti_subtree (fold item_handle es' w) = Some True" if "ti_subtree w = Some True" for w
    using that by (induction es' arbitrary: w) (simp_all add: item_handle_keeps)
  have "fst (renderSubTree (fold item_handle es' (snd (renderSubTree v))))" if "fst (renderSubTree v)"
  proof -
    have "ti_subtree (snd (renderSubTree v)) = Some True"
      using that by (cases "ti_subtree v") (auto simp: renderSubTree_def Let_def)
    then show ?thesis using stays [of "snd (renderSubTree v)"] by (simp add: renderSubTree_def)
  qed
  ultimately show ?thesis by blast
qed

theorem open_subtree_is_rendered_witness:
  "fst (renderSubTree (fold item_handle [RenderItem, ClickItem True] (new_item False False True)))"
proof -
  have "ti_isExpanded (fold item_handle [RenderItem, ClickItem True] (new_item False False True)) \<and>
      ti_hasChildren (fold item_handle [RenderItem, ClickItem True] (new_item False False True))"
    by (simp add: new_item_def renderSubTree_def item_mouseUp_def updateSubTreeRendering_def ti_isExpanded_def)
  then show ?thesis
    using open_subtree_is_rendered [OF refl, of "[RenderItem, ClickItem True]" False False True "[]"] by blast
qed

text \<open>
  The list of children of an item is cached with a dependency on a property that does not exist: read
  once while the item is collapsed, it stays \<open>null\<close> after the item was expanded and its subtree rendered.
\<close>

theorem child_list_stays_null:
  assumes "v = snd (childListView (new_item False False True))" and "v' = item_handle RenderItem (item_handle (ClickItem True) v)"
  shows "ti_isExpanded v' \<and> fst (renderSubTree v') \<and> \<not> fst (childListView v')"
  using assms by (simp add: childListView_def new_item_def renderSubTree_def item_mouseUp_def updateSubTreeRendering_def ti_isExpanded_def)

text \<open>A tree view nested in \<open>n\<close> others is at level \<open>n + 1\<close>, and its root is the outermost.\<close>

theorem nested_tree_level:
  "treeLevel (replicate n True @ False # rest) = n + 1 \<and> rootTreeView (replicate n True @ False # rest) = n"
proof (induction n)
  case 0
  then show ?case by (cases rest) simp_all
next
  case (Suc n)
  then show ?case by (cases n) simp_all
qed

definition mirrors :: "'a list_children \<Rightarrow> bool" where
  "mirrors l \<longleftrightarrow> lc_views l = map (\<lambda>(i, a). (a, Some i)) (enumerate 0 (lc_content l))"

lemma updated_views: "updateContentIndexes vs = map (\<lambda>(i, a). (a, Some i)) (enumerate 0 (map fst vs))"
  by (rule nth_equalityI) (simp_all add: updateContentIndexes_def nth_enumerate_eq)

lemma mirrors_content: "mirrors l \<Longrightarrow> map fst (lc_views l) = lc_content l"
  unfolding mirrors_def by (rule nth_equalityI) (simp_all add: nth_enumerate_eq)

text \<open>
  The item views follow the content: after any replacements the views show the items in order and
  each view has the index of its item; while dragging the views are not touched.
\<close>

theorem item_views_follow_content:
  assumes "mirrors l" and "\<not> isDragging l" and "start \<le> length (lc_content l)"
  shows "mirrors (replace_content start removed added l) \<and>
    lc_content (replace_content start removed added l) = replace_at start removed added (lc_content l) \<and>
    lc_views (replace_content start removed added (l\<lparr>isDragging := True\<rparr>)) = lc_views l"
proof -
  have len: "start \<le> length (lc_views l)" using assms(1,3) by (simp add: mirrors_def)
  let ?vs = "take start (lc_views l) @ map (\<lambda>a. (a, None)) added @ drop (start + removed) (lc_views l)"
  have views: "lc_views (replace_content start removed added l) = updateContentIndexes ?vs"
    using assms(2) len by (simp add: replace_content_def arrayDidChange_def arrayWillChange_def)
  have "map fst ?vs = replace_at start removed added (lc_content l)"
    using mirrors_content [OF assms(1)] by (simp add: replace_at_def take_map [symmetric] drop_map [symmetric] comp_def)
  then have "mirrors (replace_content start removed added l)"
    using assms(2) unfolding mirrors_def views updated_views by (simp add: replace_content_def arrayDidChange_def arrayWillChange_def)
  then show ?thesis using assms(2) by (simp add: replace_content_def arrayDidChange_def arrayWillChange_def)
qed

definition two_children :: "nat list_children" where
  "two_children = \<lparr>lc_content = [7, 8], lc_views = [(7, Some 0), (8, Some 1)], isDragging = False\<rparr>"

theorem item_views_follow_content_witness: "mirrors (replace_content 1 1 [5, 6] two_children)"
proof -
  have "mirrors two_children" "\<not> isDragging two_children" "1 \<le> length (lc_content two_children)"
    by (simp_all add: mirrors_def two_children_def enumerate_eq_zip)
  then show ?thesis by (rule item_views_follow_content [THEN conjunct1])
qed

end
