(* ===== verification/Page_Views.thy ===== *)
theory Page_Views
  imports Lazy_List Panels
begin

text \<open>
  Scroll views (\<open>views/scroll_view.js\<close>), which tell their children about scrolling once per animation
  frame and so drive lazy lists, alert panels (\<open>views/alert_panel.js\<close>) on top of the panels, and progress bars
  (\<open>views/progress_view.js\<close>).
\<close>

section \<open>Scroll views\<close>

text \<open>
  \<open>sv_frames\<close> counts the requested animation frames that have not come yet; \<open>sv_scrollTop\<close> and
  \<open>sv_height\<close> are read off the element.  A child that does not implement \<open>didScroll\<close> is not in \<open>sv_children\<close>.
\<close>

record 'c scroll_view =
  sv_scrollTop :: int
  sv_height :: nat
  lastScrollY :: int
  isScrolling :: bool
  sv_frames :: nat
  sv_children :: "'c list"

definition sv_didScroll :: "'c scroll_view \<Rightarrow> 'c scroll_view" where
  "sv_didScroll s = s\<lparr>lastScrollY := sv_scrollTop s, sv_frames := (if isScrolling s then sv_frames s else Suc (sv_frames s)),
     isScrolling := True\<rparr>"

fun notify_children :: "('c \<Rightarrow> 'c result) \<Rightarrow> 'c list \<Rightarrow> 'c list result" where
  "notify_children f [] = Inr []"
| "notify_children f (c # cs) = rbind (f c) (\<lambda>c'. rbind (notify_children f cs) (\<lambda>cs'. Inr (c' # cs')))"

definition sv_update :: "(nat \<Rightarrow> int \<Rightarrow> 'c \<Rightarrow> 'c result) \<Rightarrow> 'c scroll_view \<Rightarrow> 'c scroll_view result" where
  "sv_update tell s = rbind (notify_children (tell (sv_height s) (lastScrollY s)) (sv_children s)) (\<lambda>cs.
     Inr (s\<lparr>isScrolling := False, sv_children := cs\<rparr>))"

datatype scroll_event = ScrollTo int | AnimationFrame

fun scroll_handle :: "(nat \<Rightarrow> int \<Rightarrow> 'c \<Rightarrow> 'c result) \<Rightarrow> scroll_event \<Rightarrow> 'c scroll_view \<Rightarrow> 'c scroll_view result" where
  "scroll_handle tell (ScrollTo y) s = Inr (sv_didScroll (s\<lparr>sv_scrollTop := y\<rparr>))"
| "scroll_handle tell AnimationFrame s =
     (if sv_frames s = 0 then Inr s else sv_update tell (s\<lparr>sv_frames := sv_frames s - 1\<rparr>))"

fun scroll_run :: "(nat \<Rightarrow> int \<Rightarrow> 'c \<Rightarrow> 'c result) \<Rightarrow> scroll_event list \<Rightarrow> 'c scroll_view \<Rightarrow> 'c scroll_view result" where
  "scroll_run tell [] s = Inr s"
| "scroll_run tell (e # es) s = rbind (scroll_handle tell e s) (scroll_run tell es)"

text \<open>A lazy list in a scroll view.\<close>

definition tell_list :: "(item \<Rightarrow> nat) \<Rightarrow> nat \<Rightarrow> int \<Rightarrow> lazy_list \<Rightarrow> lazy_list result" where
  "tell_list cls h y l = Lazy_List.didScroll cls (Some h) (Some y) l"

section \<open>Alert panels\<close>

text \<open>The handlers of the buttons and of the escape key; \<open>cancel\<close> returns nothing.\<close>

definition onConfirm :: "bool \<Rightarrow> 'x hooks \<Rightarrow> view \<Rightarrow> 'x panels \<Rightarrow> 'x panels result" where
  "onConfirm isCloseable hook v st = (if isCloseable then close hook v st else Inr st)"

definition onCancel :: "bool \<Rightarrow> 'x hooks \<Rightarrow> view \<Rightarrow> 'x panels \<Rightarrow> 'x panels result" where
  "onCancel isCloseable hook v st = (if isCloseable then close hook v st else Inr st)"

definition alert_cancel :: "bool \<Rightarrow> 'x hooks \<Rightarrow> view \<Rightarrow> 'x panels \<Rightarrow> (retval \<times> 'x panels) result" where
  "alert_cancel isCloseable hook v st = rbind (onCancel isCloseable hook v st) (\<lambda>st1. Inr (RUndefined, st1))"

definition measuredHeight :: "nat \<Rightarrow> nat" where
  "measuredHeight computed = max (min computed 600) 50"

datatype alert_kind = Info | Warn | Error

text \<open>\<open>jQuery.extend(config || {}, ...)\<close>: the fixed settings win over those of the caller.\<close>

definition alert_config :: "alert_kind \<Rightarrow> (string \<rightharpoonup> jsval) option \<Rightarrow> (string \<rightharpoonup> jsval)" where
  "alert_config k config = (let c = (case config of None \<Rightarrow> Map.empty | Some c \<Rightarrow> c) in case k of
       Info \<Rightarrow> c(''icon'' \<mapsto> JStr ''info_icon.svg'', ''isCancelVisible'' \<mapsto> JBool False)
     | Warn \<Rightarrow> c(''icon'' \<mapsto> JStr ''warn_icon.svg'')
     | Error \<Rightarrow> c(''icon'' \<mapsto> JStr ''error_icon.svg''))"

section \<open>Progress bars\<close>

text \<open>
  The width of the bar for exact numbers; a missing number counts as 0 and \<open>None\<close> is minus infinity.
\<close>

definition progress_size :: "rat option \<Rightarrow> rat option \<Rightarrow> int \<Rightarrow> int option" where
  "progress_size val maximum width =
     (let v = (case val of None \<Rightarrow> 0 | Some x \<Rightarrow> x); m = (case maximum of None \<Rightarrow> 0 | Some x \<Rightarrow> x) in
      if m = 0 then (if v = 0 then Some 0 else if v > 0 then Some (width - 4) else None)
      else Some (\<lfloor>of_int width * min (v / m) 1\<rfloor> - 4))"

section \<open>Properties of scroll views\<close>

definition scroll_ok :: "(nat \<Rightarrow> int \<Rightarrow> 'c \<Rightarrow> bool) \<Rightarrow> 'c scroll_view \<Rightarrow> bool" where
  "scroll_ok told s \<longleftrightarrow> sv_frames s = (if isScrolling s then 1 else 0) \<and> lastScrollY s = sv_scrollTop s \<and>
     (\<not> isScrolling s \<longrightarrow> (\<forall>c \<in> set (sv_children s). told (sv_height s) (lastScrollY s) c))"

text \<open>
  What a scroll view relies on: telling a child keeps what the child needs (\<open>inv\<close>) and leaves it knowing
  the position.
\<close>

locale scroll_child =
  fixes tell :: "nat \<Rightarrow> int \<Rightarrow> 'c \<Rightarrow> 'c result" and inv :: "'c \<Rightarrow> bool" and told :: "nat \<Rightarrow> int \<Rightarrow> 'c \<Rightarrow> bool"
  assumes tell_ok: "inv c \<Longrightarrow> \<exists>c'. tell h y c = Inr c' \<and> inv c' \<and> told h y c'"
begin

definition good :: "'c scroll_view \<Rightarrow> bool" where
  "good s \<longleftrightarrow> scroll_ok told s \<and> (\<forall>c \<in> set (sv_children s). inv c)"

lemma notify_told: "\<forall>c \<in> set cs. inv c \<Longrightarrow> \<exists>cs'. notify_children (tell h y) cs = Inr cs' \<and> length cs' = length cs \<and> (\<forall>c \<in> set cs'. inv c \<and> told h y c)"
proof (induction cs)
  case (Cons c cs)
  have "inv c" using Cons.prems by simp
  then obtain c' where "tell h y c = Inr c'" "inv c'" "told h y c'" using tell_ok by blast
  then show ?case using Cons by auto
qed simp

lemma scroll_handle_good:
  assumes "good s"
  shows "\<exists>s'. scroll_handle tell e s = Inr s' \<and> good s' \<and> sv_height s' = sv_height s \<and> length (sv_children s') = length (sv_children s) \<and>
    sv_scrollTop s' = (case e of ScrollTo y \<Rightarrow> y | AnimationFrame \<Rightarrow> sv_scrollTop s) \<and>
    (e = AnimationFrame \<longrightarrow> \<not> isScrolling s')"
proof (cases e)
  case (ScrollTo y)
  then show ?thesis using assms by (auto simp: sv_didScroll_def good_def scroll_ok_def)
next
  case AnimationFrame
  show ?thesis
  proof (cases "sv_frames s")
    case 0
    then show ?thesis using assms AnimationFrame by (auto simp: good_def scroll_ok_def split: if_splits)
  next
    case (Suc n)
    obtain cs where "notify_children (tell (sv_height s) (lastScrollY s)) (sv_children s) = Inr cs" "length cs = length (sv_children s)"
        "\<forall>c \<in> set cs. inv c \<and> told (sv_height s) (lastScrollY s) c"
      using notify_told assms by (metis good_def)
    then show ?thesis using assms AnimationFrame Suc by (auto simp: sv_update_def good_def scroll_ok_def split: if_splits)
  qed
qed

lemma scroll_run_good: "good s \<Longrightarrow> \<exists>s'. scroll_run tell es s = Inr s' \<and> good s' \<and> sv_height s' = sv_height s \<and> length (sv_children s') = length (sv_children s)"
proof (induction es arbitrary: s)
  case (Cons e es)
  obtain s1 where s1: "scroll_handle tell e s = Inr s1" "good s1" "sv_height s1 = sv_height s" "length (sv_children s1) = length (sv_children s)"
    using scroll_handle_good [OF Cons.prems] by blast
  then show ?case using Cons.IH [OF s1(2)] by auto
qed simp

lemma frame_after_run:
  assumes "good s"
  shows "\<exists>s1 s2. scroll_run tell es s = Inr s1 \<and> sv_frames s1 \<le> 1 \<and> scroll_handle tell AnimationFrame s1 = Inr s2 \<and>
    good s2 \<and> \<not> isScrolling s2 \<and> sv_scrollTop s2 = sv_scrollTop s1 \<and>
    (\<forall>c \<in> set (sv_children s2). told (sv_height s) (sv_scrollTop s1) c)"
proof -
  obtain s1 where s1: "scroll_run tell es s = Inr s1" "good s1" "sv_height s1 = sv_height s" using scroll_run_good [OF assms] by blast
  obtain s2 where s2: "scroll_handle tell AnimationFrame s1 = Inr s2" "good s2" "sv_height s2 = sv_height s1" "\<not> isScrolling s2"
      "sv_scrollTop s2 = sv_scrollTop s1"
    using scroll_handle_good [OF s1(2), of AnimationFrame] by auto
  moreover have "sv_frames s1 \<le> 1" using s1(2) by (simp add: good_def scroll_ok_def)
  ultimately show ?thesis using s1 by (auto simp: good_def scroll_ok_def)
qed

end

section \<open>Lazy lists in a scroll view\<close>

definition undragged :: "lazy_list \<Rightarrow> bool" where
  "undragged l \<longleftrightarrow> (\<forall>k < length (views l). \<not> isDragged (views l ! k))"

lemma undragged_recycle: "undragged l \<Longrightarrow> undragged (recycleView cls k l)"
  by (auto simp: undragged_def recycleView_def set_view_def nth_list_update Let_def)

lemma undragged_scroll_fold: "undragged l \<Longrightarrow> undragged (fst (fold (scroll_step cls rng) ks (l, mn, mx)))"
proof (induction ks arbitrary: l mn mx)
  case (Cons k ks)
  obtain l1 mn1 mx1 where s: "scroll_step cls rng k (l, mn, mx) = (l1, mn1, mx1)" by (metis prod_cases3)
  then have "l1 = l \<or> l1 = recycleView cls k l" by (auto simp: scroll_step_def split: option.splits if_splits)
  then have "undragged l1" using Cons.prems undragged_recycle by auto
  then show ?case using Cons.IH s by simp
qed simp

lemma undragged_viewForRow: "undragged l \<Longrightarrow> viewForRow cls r l = Inr l' \<Longrightarrow> undragged l'"
  by (auto simp: undragged_def viewForRow_def show_in_def set_view_def nth_append nth_list_update less_Suc_eq Let_def split: option.splits if_splits)

lemma views_for_rows_total:
  assumes "lazy_ok cls l" and "right_items l" and "undragged l" and "\<forall>r \<in> set rs. 0 \<le> r \<and> r < int (length (rows l))"
  shows "\<exists>l'. views_for_rows cls rs l = Inr l' \<and> lazy_ok cls l' \<and> right_items l' \<and> undragged l' \<and> frame_of l' = frame_of l"
  using assms
proof (induction rs arbitrary: l)
  case (Cons r rs)
  have "objectAt_int (rows l) r = Some (rows l ! nat r)" using Cons.prems(4) by (simp add: objectAt_int_def nat_less_iff)
  from viewForRow_shows [OF Cons.prems(1) this] obtain l1 where
    l1: "viewForRow cls r l = Inr l1" "lazy_ok cls l1" "frame_of l1 = frame_of l" "right_items l1" using Cons.prems(2) by blast
  moreover have "undragged l1" using undragged_viewForRow [OF Cons.prems(3) l1(1)] .
  moreover have "rows l1 = rows l" using l1(3) by (rule frame_rows)
  ultimately obtain l' where "views_for_rows cls rs l1 = Inr l'" "lazy_ok cls l'" "right_items l'" "undragged l'" "frame_of l' = frame_of l1"
    using Cons.IH [of l1] Cons.prems(4) by auto
  with l1 show ?case by auto
qed simp

lemma undragged_hide: "undragged l \<Longrightarrow> undragged (hideRecycledViews cls l)"
  by (auto simp: undragged_def hideRecycledViews_def nth_enumerate_eq)

lemma didScroll_total:
  assumes "lazy_ok cls l" and "right_items l" and "undragged l"
  shows "\<exists>l'. didScroll cls h t l = Inr l' \<and> lazy_ok cls l' \<and> right_items l' \<and> undragged l' \<and>
    lastScrollHeight l' = h \<and> lastScrollTop l' = t"
proof -
  let ?l = "scrolled h t l"
  define rng where "rng = rowsToRenderRange ?l h t"
  have pre: "lazy_ok cls ?l" "right_items ?l" "\<forall>k < length (views ?l). \<not> isDragged (views ?l ! k)" "set [0..<length (views l)] \<subseteq> {0..<length (views ?l)}"
    using assms by (simp_all add: undragged_def)
  have und: "undragged ?l" using pre(3) by (simp add: undragged_def)
  obtain l1 mn mx where f: "fold (scroll_step cls rng) [0..<length (views l)] (?l, snd rng, fst rng) = (l1, mn, mx)"
      "lazy_ok cls l1" "right_items l1" "frame_of l1 = frame_of ?l" "mn \<le> snd rng" "fst rng \<le> mx"
    using scroll_fold [OF pre, of rng "snd rng" "fst rng"] by blast
  have u1: "undragged l1" using undragged_scroll_fold [OF und, of cls rng "[0..<length (views l)]" "snd rng" "fst rng"] f(1) by simp
  have valid: "in_range rng i \<Longrightarrow> 0 \<le> i \<and> i < int (length (rows l1))" for i
    using range_valid [OF rng_def [symmetric]] frame_rows [OF f(4)] by auto
  have up: "\<forall>r \<in> set [fst rng..(if mn = snd rng then mn + 1 else mn) - 1]. 0 \<le> r \<and> r < int (length (rows l1))"
    using valid f(5) by (auto simp: in_range_def)
  obtain l2 where l2: "views_for_rows cls [fst rng..(if mn = snd rng then mn + 1 else mn) - 1] l1 = Inr l2" "lazy_ok cls l2" "right_items l2"
      "undragged l2" "frame_of l2 = frame_of l1"
    using views_for_rows_total [OF f(2,3) u1 up] by blast
  have down: "\<forall>r \<in> set (if mx \<noteq> fst rng then rows_down (snd rng) mx else []). 0 \<le> r \<and> r < int (length (rows l2))"
    using valid f(6) frame_rows [OF l2(5)] by (auto simp: in_range_def rows_down_def)
  obtain l3 where l3: "views_for_rows cls (if mx \<noteq> fst rng then rows_down (snd rng) mx else []) l2 = Inr l3" "lazy_ok cls l3" "right_items l3"
      "undragged l3" "frame_of l3 = frame_of l2"
    using views_for_rows_total [OF l2(2,3,4) down] by blast
  have "didScroll cls h t l = Inr (hideRecycledViews cls l3)"
    using f(1) l2(1) l3(1) by (simp add: didScroll_def Let_def scrolled_def [symmetric] rng_def [symmetric] split: if_splits)
  moreover have fr: "frame_of (hideRecycledViews cls l3) = frame_of ?l" using l3(5) l2(5) f(4) by (simp add: hideRecycledViews_def)
  have "lastScrollHeight (hideRecycledViews cls l3) = h" using frame_fields(5) [OF fr] by (simp add: scrolled_def)
  moreover have "lastScrollTop (hideRecycledViews cls l3) = t" using frame_fields(6) [OF fr] by (simp add: scrolled_def)
  ultimately show ?thesis using hide_ok [OF l3(2)] hide_right [OF l3(3)] undragged_hide [OF l3(4)] by simp
qed

definition list_inv :: "(item \<Rightarrow> nat) \<Rightarrow> lazy_list \<Rightarrow> bool" where
  "list_inv cls l \<longleftrightarrow> lazy_ok cls l \<and> right_items l \<and> undragged l"

definition list_told :: "nat \<Rightarrow> int \<Rightarrow> lazy_list \<Rightarrow> bool" where
  "list_told h y l \<longleftrightarrow> lastScrollHeight l = Some h \<and> lastScrollTop l = Some y"

interpretation lists: scroll_child "tell_list cls" "list_inv cls" list_told for cls
proof
  fix l h y assume "list_inv cls l"
  then show "\<exists>l'. tell_list cls h y l = Inr l' \<and> list_inv cls l' \<and> list_told h y l'"
    using didScroll_total [of cls l "Some h" "Some y"] by (auto simp: list_inv_def list_told_def tell_list_def)
qed

section \<open>Properties\<close>


definition sample_scroll :: "lazy_list scroll_view" where
  "sample_scroll = \<lparr>sv_scrollTop = 0, sv_height = 75, lastScrollY = 0, isScrolling = False, sv_frames = 0, sv_children = [new_list [1, 2, 3] 0]\<rparr>"


text \<open>An alert panel: its buttons and the escape key close it exactly when it may be closed.\<close>

theorem alert_closes_if_closeable:
  "onConfirm c hook v st = onCancel c hook v st \<and> (c \<longrightarrow> onConfirm c hook v st = close hook v st) \<and> (\<not> c \<longrightarrow> onConfirm c hook v st = Inr st) \<and>
   alert_cancel c hook v st = rbind (onConfirm c hook v st) (\<lambda>st1. Inr (RUndefined, st1))"
  by (simp add: onConfirm_def onCancel_def alert_cancel_def)

theorem alert_height_bounds: "50 \<le> measuredHeight h \<and> measuredHeight h \<le> 600 \<and> (50 \<le> h \<and> h \<le> 600 \<longrightarrow> measuredHeight h = h)"
  by (simp add: measuredHeight_def)

text \<open>The settings of the three kinds of alert: the icon is that of the kind whatever the caller asked for, all else is the caller's.\<close>

theorem alert_settings:
  "alert_config k (Some c) ''icon'' = Some (JStr (case k of Info \<Rightarrow> ''info_icon.svg'' | Warn \<Rightarrow> ''warn_icon.svg'' | Error \<Rightarrow> ''error_icon.svg'')) \<and>
   alert_config k (Some c) ''isCancelVisible'' = (if k = Info then Some (JBool False) else c ''isCancelVisible'') \<and>
   (s \<notin> {''icon'', ''isCancelVisible''} \<longrightarrow> alert_config k (Some c) s = c s)"
  by (cases k) (simp_all add: alert_config_def)

text \<open>The bar of a progress view: it stays within the view, grows with the value and is full at the maximum.\<close>

theorem progress_bar_bounds:
  assumes "0 \<le> v" and "0 < m" and "0 \<le> w"
  shows "\<exists>n. progress_size (Some v) (Some m) w = Some n \<and> -4 \<le> n \<and> n \<le> w - 4 \<and> (m \<le> v \<longrightarrow> n = w - 4) \<and>
    (\<forall>u n'. v \<le> u \<and> progress_size (Some u) (Some m) w = Some n' \<longrightarrow> n \<le> n')"
proof -
  let ?p = "\<lambda>v. of_int w * min (v / m) 1 :: rat"
  have n: "progress_size (Some u) (Some m) w = Some (\<lfloor>?p u\<rfloor> - 4)" for u using assms(2) by (simp add: progress_size_def)
  have "0 \<le> ?p v" "?p v \<le> of_int w" using assms by (simp_all add: mult_left_le)
  then have b: "0 \<le> \<lfloor>?p v\<rfloor>" "\<lfloor>?p v\<rfloor> \<le> w" by (simp_all add: floor_le_iff)
  have full: "\<lfloor>?p v\<rfloor> = w" if "m \<le> v" using that assms(2) by simp
  have mono: "\<lfloor>?p v\<rfloor> \<le> \<lfloor>?p u\<rfloor>" if "v \<le> u" for u
  proof (rule floor_mono)
    have "min (v / m) 1 \<le> min (u / m) 1" using that assms(2) by (simp add: divide_right_mono min.coboundedI1)
    then show "?p v \<le> ?p u" using assms(3) by (simp add: mult_left_mono)
  qed
  show ?thesis unfolding n using b full mono by auto
qed

theorem progress_bar_bounds_witness: "\<exists>n. progress_size (Some 1) (Some 2) 100 = Some n \<and> n \<le> 96"
  using progress_bar_bounds [of 1 2 100] by auto

text \<open>Without any progress the computed width of the bar is negative.\<close>

theorem progress_zero_is_negative: "m > 0 \<Longrightarrow> progress_size (Some 0) (Some m) w = Some (-4)"
  by (simp add: progress_size_def)

end
