(* ===== verification/Menu_Items.thy ===== *)
theory Menu_Items
  imports Panels
begin

text \<open>
  The elements of a menu (\<open>views/menu_view.js\<close>): the HTML of an item, the element ids by which mouse events
  find their item, and the place of submenus, which open to the right of the item until one does not fit
  and to the left from there on.
\<close>

section \<open>Items\<close>

record menu_item_data =
  mi_id :: string
  mi_isSelected :: bool
  mi_isEnabled :: bool
  mi_isChecked :: bool
  mi_tooltip :: "string option"
  mi_title :: string
  mi_subMenuLength :: "nat option"

definition item_classes :: "menu_item_data \<Rightarrow> string list" where
  "item_classes m = [''flame-view'', ''flame-list-item-view'', ''flame-menu-item-view'']
     @ (if mi_isSelected m then [''is-selected''] else []) @ (if \<not> mi_isEnabled m then [''is-disabled''] else [])"

text \<open>A tooltip that is missing or empty gives no attribute.\<close>

definition tooltip_attribute :: "string option \<Rightarrow> string" where
  "tooltip_attribute t = (case t of Some (c # cs) \<Rightarrow> ''title=\"'' @ (c # cs) @ ''\"'' | _ \<Rightarrow> [])"

definition renderToBuffer :: "(string \<Rightarrow> string) \<Rightarrow> menu_item_data \<Rightarrow> string" where
  "renderToBuffer escapeExpression m =
     ''<div id=\"'' @ mi_id m @ ''\" class=\"'' @ join '' '' (item_classes m) @ ''\" '' @ tooltip_attribute (mi_tooltip m) @ ''>''
     @ (if mi_isChecked m then ''<div class=\"flame-menu-item-view-checkmark\"></div>'' else [])
     @ escapeExpression (mi_title m)
     @ (case mi_subMenuLength m of Some (Suc n) \<Rightarrow> ''<div class=\"menu-indicator\"></div>'' | _ \<Rightarrow> [])
     @ ''</div>''"

section \<open>Element ids\<close>

definition indexToId :: "string \<Rightarrow> nat \<Rightarrow> string" where
  "indexToId elementId index = elementId @ ''-'' @ decimal index"

text \<open>
  \<open>find_id\<close> is the search for the regular expression made of the element id, a hyphen and a group of
  digits; an element id has no characters that mean something else in a regular expression.
\<close>

fun find_id :: "string \<Rightarrow> string \<Rightarrow> nat option" where
  "find_id pre [] = None"
| "find_id pre (c # s) =
     (let rest = drop (length pre) (c # s); ds = takeWhile is_digit rest
      in if take (length pre) (c # s) = pre \<and> ds \<noteq> [] then Some (digits_value ds) else find_id pre s)"

definition idToIndex :: "string \<Rightarrow> string \<Rightarrow> int" where
  "idToIndex elementId i = (case find_id (elementId @ ''-'') i of Some n \<Rightarrow> int n | None \<Rightarrow> -1)"

text \<open>The ids that Ember gives to views.\<close>

definition ember_id :: "nat \<Rightarrow> string" where
  "ember_id n = ''ember'' @ decimal n"

section \<open>The place of a submenu\<close>

record sub_menu =
  sm_layout :: panel_layout
  subMenuPosition :: "pos_bits option"
  sm_minWidth :: num
  sm_titleWidth :: num
  sm_contentHeight :: num

definition sub_layoutRelativeTo :: "page \<Rightarrow> anchor \<Rightarrow> pos_bits \<Rightarrow> sub_menu \<Rightarrow> sub_menu result" where
  "sub_layoutRelativeTo w a position m =
     rbind (layoutRelativeTo w (sm_contentHeight m) a position (sm_layout m)) (\<lambda>l.
     if subMenuPosition m = Some POSITION_LEFT then Inr (m\<lparr>sm_layout := l\<rparr>)
     else if l_movedX l
     then rbind (layoutRelativeTo w (sm_contentHeight m) a POSITION_LEFT l) (\<lambda>l'.
          Inr (m\<lparr>sm_layout := l', subMenuPosition := Some POSITION_LEFT\<rparr>))
     else Inr (m\<lparr>sm_layout := l\<rparr>))"

text \<open>
  \<open>popup\<close> of a submenu: the width is measured first when it is not known.  \<open>Math.max\<close> with a width that
  could not be measured is not a number.
\<close>

definition menu_width :: "sub_menu \<Rightarrow> num" where
  "menu_width m = (case sm_titleWidth m of
       None \<Rightarrow> None
     | Some t \<Rightarrow> Some (max (case sm_minWidth m of None \<Rightarrow> 0 | Some x \<Rightarrow> x) (t + 16 + 18)))"

definition sub_popup :: "page \<Rightarrow> anchor \<Rightarrow> pos_bits \<Rightarrow> sub_menu \<Rightarrow> sub_menu result" where
  "sub_popup w a position m =
     (let m1 = (if num_truthy (l_width (sm_layout m)) then m
                else m\<lparr>sm_layout := (sm_layout m)\<lparr>l_width := menu_width m\<rparr>\<rparr>)
      in sub_layoutRelativeTo w a position m1)"

text \<open>
  A submenu gets the side of its parent; \<open>titles\<close> is the measured width of its titles and \<open>h\<close> the
  height of its content.
\<close>

definition createSubMenu :: "pos_bits option \<Rightarrow> num \<Rightarrow> num \<Rightarrow> sub_menu" where
  "createSubMenu side titles h = \<lparr>sm_layout = \<lparr>l_top = None, l_left = None, l_width = None, l_height = None, l_movedX = False,
       l_movedY = False, l_centerX = None, l_centerY = None, l_zIndex = None\<rparr>,
     subMenuPosition = side, sm_minWidth = None, sm_titleWidth = titles, sm_contentHeight = h\<rparr>"

definition open_submenu :: "page \<Rightarrow> pos_bits option \<Rightarrow> anchor \<Rightarrow> num \<Rightarrow> num \<Rightarrow> sub_menu result" where
  "open_submenu w side a titles h =
     sub_popup w a (case side of None \<Rightarrow> POSITION_RIGHT | Some p \<Rightarrow> if p = 0 then POSITION_RIGHT else p) (createSubMenu side titles h)"

text \<open>
  Opening one submenu from another: the items of a menu span its width, so the next menu is anchored at an
  element with the left edge and the width of the last one, at some height.
\<close>

fun open_chain :: "page \<Rightarrow> pos_bits option \<Rightarrow> anchor \<Rightarrow> (rat \<times> num \<times> rat \<times> rat) list \<Rightarrow> (anchor \<times> sub_menu) list result" where
  "open_chain w side a [] = Inr []"
| "open_chain w side a ((titles, h, itemTop, itemHeight) # ms) =
     rbind (open_submenu w side a (Some titles) h) (\<lambda>m.
       (case (l_left (sm_layout m), l_width (sm_layout m)) of
          (Some x, Some d) \<Rightarrow>
            rbind (open_chain w (subMenuPosition m) \<lparr>a_top = itemTop, a_left = x, a_width = d, a_height = itemHeight\<rparr> ms) (\<lambda>r.
              Inr ((a, m) # r))
        | _ \<Rightarrow> Inl TypeError))"

section \<open>Properties\<close>

text \<open>The tooltip of a menu item goes into the HTML as it is, unlike its title.\<close>

theorem menu_tooltip_unescaped:
  "\<exists>pre post. renderToBuffer esc (m\<lparr>mi_tooltip := Some (c # t)\<rparr>) = pre @ ''title=\"'' @ (c # t) @ ''\">'' @ post"
proof -
  let ?post = "(if mi_isChecked m then ''<div class=\"flame-menu-item-view-checkmark\"></div>'' else []) @ esc (mi_title m)
     @ (case mi_subMenuLength m of Some (Suc n) \<Rightarrow> ''<div class=\"menu-indicator\"></div>'' | _ \<Rightarrow> []) @ ''</div>''"
  let ?pre = "''<div id=\"'' @ mi_id m @ ''\" class=\"'' @ join '' '' (item_classes m) @ ''\" ''"
  have "renderToBuffer esc (m\<lparr>mi_tooltip := Some (c # t)\<rparr>) = ?pre @ ''title=\"'' @ (c # t) @ ''\">'' @ ?post"
    by (simp add: renderToBuffer_def item_classes_def tooltip_attribute_def)
  then show ?thesis by (intro exI)
qed

lemma find_id_absent: "p \<notin> set s \<Longrightarrow> find_id (p # ps) s = None"
  by (induction s) auto

lemma digits_prefix:
  assumes "list_all is_digit xs" and "list_all is_digit ys" and "\<not> is_digit c"
    and "take (Suc (length xs)) (ys @ c # zs) = xs @ [c]"
  shows "xs = ys"
proof -
  have tw: "takeWhile is_digit (us @ c # vs) = us" if "list_all is_digit us" for us vs
    using that assms(3) by (simp add: list_all_iff takeWhile_append2)
  have "(xs @ [c]) @ drop (Suc (length xs)) (ys @ c # zs) = ys @ c # zs"
    by (simp only: assms(4) [symmetric] append_take_drop_id)
  then have "ys @ c # zs = xs @ c # drop (Suc (length xs)) (ys @ c # zs)" by simp
  then show ?thesis using tw [OF assms(1)] tw [OF assms(2)] by metis
qed

lemma hyphen_not_digit: "\<not> is_digit (CHR ''-'')"
  by (simp add: is_digit_def)

lemma e_not_digit: "\<not> is_digit (CHR ''e'')"
  by (simp add: is_digit_def)

lemma e_not_in_decimal: "CHR ''e'' \<notin> set (decimal n)"
  using decimal_digits [of n] e_not_digit by (auto simp: list_all_iff)

lemma takeWhile_decimal [simp]: "takeWhile is_digit (decimal n) = decimal n"
  using decimal_digits [of n] by (simp add: list_all_iff takeWhile_eq_all_conv)

lemma ember_prefix:
  "take (length (ember_id m @ ''-'')) (ember_id n @ ''-'' @ s) = ember_id m @ ''-'' \<longleftrightarrow> m = n"
proof
  assume "take (length (ember_id m @ ''-'')) (ember_id n @ ''-'' @ s) = ember_id m @ ''-''"
  then have "take (Suc (length (decimal m))) (decimal n @ CHR ''-'' # s) = decimal m @ [CHR ''-'']"
    by (simp add: ember_id_def eval_nat_numeral)
  then have "decimal m = decimal n" by (rule digits_prefix [OF decimal_digits decimal_digits hyphen_not_digit])
  then show "m = n" by (rule decimal_inj)
qed simp

text \<open>
  The ids of the items: the id of an item gives back its index in its own menu, and the id of an item of
  another menu gives \<open>-1\<close>, even when one number begins with the other.
\<close>

theorem item_ids_roundtrip:
  "idToIndex (ember_id m) (indexToId (ember_id n) i) = (if m = n then int i else -1)"
proof (cases "m = n")
  case True
  have "find_id (ember_id n @ ''-'') (ember_id n @ ''-'' @ decimal i) = Some i"
    by (simp add: ember_id_def digits_value_decimal)
  with True show ?thesis by (simp add: idToIndex_def indexToId_def)
next
  case False
  let ?s = "decimal n @ ''-'' @ decimal i"
  have none: "find_id (CHR ''e'' # p) ?s = None" for p
    by (rule find_id_absent) (simp add: e_not_in_decimal)
  have "take (length (ember_id m @ ''-'')) (ember_id n @ ''-'' @ decimal i) \<noteq> ember_id m @ ''-''"
    using ember_prefix [of m n "decimal i"] False by blast
  then have "find_id (ember_id m @ ''-'') (ember_id n @ ''-'' @ decimal i) = None"
    using none by (simp add: ember_id_def)
  with False show ?thesis by (simp add: idToIndex_def indexToId_def)
qed

text \<open>Beside an anchor: where a menu of a known width is placed on the right and on the left.\<close>

lemma layout_right:
  assumes "l_width l = Some d"
  shows "\<exists>l'. layoutRelativeTo w h a POSITION_RIGHT l = Inr l' \<and> l_width l' = Some d \<and>
    l_left l' = Some (if a_left a + a_width a + d > win_width w - 10 then win_width w - d - 10 else a_left a + a_width a) \<and>
    l_movedX l' = (l_movedX l \<or> a_left a + a_width a + d > win_width w - 10)"
proof -
  have "POSITION_RIGHT \<noteq> 0" "\<not> has POSITION_RIGHT (POSITION_BELOW OR POSITION_ABOVE)" "has POSITION_RIGHT (POSITION_RIGHT OR POSITION_LEFT)"
    "has POSITION_RIGHT POSITION_RIGHT" "\<not> has POSITION_RIGHT POSITION_MIDDLE"
    by (simp_all add: has_def position_defs)
  then show ?thesis using assms
    by (simp add: layoutRelativeTo_def place_at_def Let_def fit_horizontally_def)
qed

lemma layout_left:
  assumes "l_width l = Some d" and "a_left a \<le> win_width w - 10"
  shows "\<exists>l'. layoutRelativeTo w h a POSITION_LEFT l = Inr l' \<and> l_width l' = Some d \<and> l_left l' = Some (a_left a - d)"
proof -
  have "POSITION_LEFT \<noteq> 0" "\<not> has POSITION_LEFT (POSITION_BELOW OR POSITION_ABOVE)" "has POSITION_LEFT (POSITION_RIGHT OR POSITION_LEFT)"
    "\<not> has POSITION_LEFT POSITION_RIGHT" "\<not> has POSITION_LEFT POSITION_MIDDLE"
    by (simp_all add: has_def position_defs)
  then show ?thesis using assms
    by (simp add: layoutRelativeTo_def place_at_def Let_def fit_horizontally_def)
qed

definition menu_side :: "pos_bits option \<Rightarrow> bool" where
  "menu_side side \<longleftrightarrow> side = None \<or> side = Some POSITION_LEFT"

text \<open>A submenu next to its item: to the right, or to the left, and then its own submenus as well.\<close>

definition beside :: "page \<Rightarrow> pos_bits option \<Rightarrow> anchor \<Rightarrow> rat \<Rightarrow> sub_menu \<Rightarrow> bool" where
  "beside w side a d m \<longleftrightarrow> l_width (sm_layout m) = Some d \<and>
     (side = None \<and> subMenuPosition m = None \<and> l_left (sm_layout m) = Some (a_left a + a_width a) \<and>
        a_left a + a_width a + d \<le> win_width w - 10
      \<or> subMenuPosition m = Some POSITION_LEFT \<and> l_left (sm_layout m) = Some (a_left a - d))"

lemma open_submenu_beside:
  assumes "menu_side side" and "0 \<le> titles" and "a_left a \<le> win_width w - 10"
  shows "\<exists>m. open_submenu w side a (Some titles) h = Inr m \<and> beside w side a (titles + 34) m"
proof -
  let ?m = "(createSubMenu side (Some titles) h)\<lparr>sm_layout := (sm_layout (createSubMenu side (Some titles) h))\<lparr>l_width := Some (titles + 34)\<rparr>\<rparr>"
  have w: "l_width (sm_layout ?m) = Some (titles + 34)" by simp
  have pop: "sub_popup w a p (createSubMenu side (Some titles) h) = sub_layoutRelativeTo w a p ?m" for p
    using assms(2) by (simp add: sub_popup_def menu_width_def createSubMenu_def num_truthy_def add.commute)
  have nz: "POSITION_LEFT \<noteq> 0" by (simp add: position_defs)
  show ?thesis
  proof (cases "side = None")
    case False
    then have side: "side = Some POSITION_LEFT" using assms(1) by (auto simp: menu_side_def)
    obtain l where l: "layoutRelativeTo w h a POSITION_LEFT (sm_layout ?m) = Inr l" "l_width l = Some (titles + 34)"
      "l_left l = Some (a_left a - (titles + 34))" using layout_left [OF w assms(3), where h = h] by (elim exE conjE) (rule that)
    then show ?thesis using side nz unfolding open_submenu_def pop
      by (simp add: sub_layoutRelativeTo_def createSubMenu_def beside_def)
  next
    case None: True
    obtain l where l: "layoutRelativeTo w h a POSITION_RIGHT (sm_layout ?m) = Inr l" "l_width l = Some (titles + 34)"
      "l_left l = Some (if a_left a + a_width a + (titles + 34) > win_width w - 10 then win_width w - (titles + 34) - 10 else a_left a + a_width a)"
      "l_movedX l = (l_movedX (sm_layout ?m) \<or> a_left a + a_width a + (titles + 34) > win_width w - 10)"
      using layout_right [OF w, where w = w and a = a and h = h] by (elim exE conjE) (rule that)
    obtain l' where l': "layoutRelativeTo w h a POSITION_LEFT l = Inr l'" "l_width l' = Some (titles + 34)"
      "l_left l' = Some (a_left a - (titles + 34))" using layout_left [OF l(2) assms(3), where h = h] by (elim exE conjE) (rule that)
    from None l l' show ?thesis unfolding open_submenu_def pop
      by (simp add: sub_layoutRelativeTo_def createSubMenu_def beside_def)
  qed
qed

fun chain_beside :: "page \<Rightarrow> pos_bits option \<Rightarrow> (anchor \<times> sub_menu) list \<Rightarrow> bool" where
  "chain_beside w side [] = True"
| "chain_beside w side ((a, m) # ms) =
     ((\<exists>d. beside w side a d m) \<and> chain_beside w (subMenuPosition m) ms)"

text \<open>
  Submenus opened one from another: every one is shown, none covers the menu it was opened from, those on the
  right end ten pixels before the edge of the window, and once one had to go to the left all further ones do.
\<close>

theorem submenus_stay_beside:
  assumes "menu_side side" and "\<forall>x \<in> set ms. 0 \<le> fst x" and "a_left a \<le> win_width w - 10"
  shows "\<exists>r. open_chain w side a ms = Inr r \<and> length r = length ms \<and> chain_beside w side r"
  using assms
proof (induction ms arbitrary: side a)
  case Nil
  then show ?case by simp
next
  case (Cons x ms)
  obtain titles h top height where x: "x = (titles, h, top, height)" by (cases x) auto
  have t: "0 \<le> titles" using Cons.prems(2) x by simp
  obtain m where m: "open_submenu w side a (Some titles) h = Inr m" "beside w side a (titles + 34) m"
    using open_submenu_beside [OF Cons.prems(1) t Cons.prems(3), where h = h] by (elim exE conjE) (rule that)
  obtain l where l: "l_left (sm_layout m) = Some l" "l \<le> win_width w - 10" "menu_side (subMenuPosition m)"
    using m(2) t Cons.prems(3) by (auto simp: beside_def menu_side_def)
  let ?a = "\<lparr>a_top = top, a_left = l, a_width = titles + 34, a_height = height\<rparr>"
  have "\<exists>r. open_chain w (subMenuPosition m) ?a ms = Inr r \<and> length r = length ms \<and> chain_beside w (subMenuPosition m) r"
    using Cons.prems(2) l by (intro Cons.IH) simp_all
  then obtain r where "open_chain w (subMenuPosition m) ?a ms = Inr r" "length r = length ms" "chain_beside w (subMenuPosition m) r"
    by (elim exE conjE) (rule that)
  moreover have "l_width (sm_layout m) = Some (titles + 34)" using m(2) by (simp add: beside_def)
  ultimately show ?case using x m l(1) by auto
qed

definition first_item :: anchor where
  "first_item = \<lparr>a_top = 50, a_left = 100, a_width = 200, a_height = 21\<rparr>"

theorem submenus_stay_beside_witness:
  "\<exists>r. open_chain small_window None first_item [(166, None, 60, 21), (166, None, 70, 21), (166, None, 80, 21)] = Inr r \<and>
     length r = 3 \<and> chain_beside small_window None r"
proof -
  have "\<exists>r. open_chain small_window None first_item [(166, None, 60, 21), (166, None, 70, 21), (166, None, 80, 21)] = Inr r \<and>
     length r = length [(166, None, 60, 21), (166, None, 70, 21), (166 :: rat, None :: num, 80 :: rat, 21 :: rat)] \<and> chain_beside small_window None r"
    by (rule submenus_stay_beside) (simp_all add: menu_side_def first_item_def small_window_def)
  then show ?thesis by (simp only: list.size add_0 numeral_3_eq_3 One_nat_def add_Suc_right add_0_right)
qed

text \<open>
  The left edge of the window is not looked at: in a window of 500 pixels a submenu that does not fit on the
  right is placed partly outside on the left.
\<close>

theorem left_submenu_leaves_window:
  "\<exists>m. open_submenu \<lparr>win_width = 500, win_height = 600\<rparr> None first_item (Some 166) None = Inr m \<and> l_left (sm_layout m) = Some (-100)"
  using open_submenu_beside [of None 166 first_item "\<lparr>win_width = 500, win_height = 600\<rparr>" None]
  by (auto simp: menu_side_def first_item_def beside_def)

end
