(* ===== verification/Selection_Box.thy ===== *)
theory Selection_Box
  imports Flame_Prelude
begin

text \<open>
  The frame around the selected cells of a table and the scrolling that brings the selected cell into
  view (\<open>_selectionDidChange\<close>, \<open>_updateSelection\<close>, \<open>_selectionCSS\<close> and \<open>_selectionWillChange\<close> of
  \<open>views/table_data_view.js\<close>).
\<close>

section \<open>The frame\<close>

text \<open>
  A cell with its position inside the visible part of the table and its outer size.  Cells are the same
  object exactly when \<open>tc_id\<close> is the same.
\<close>

record table_cell_box =
  tc_id :: nat
  tc_top :: int
  tc_left :: int
  outerHeight :: int
  outerWidth :: int

record frame =
  f_left :: int
  f_top :: int
  f_width :: int
  f_height :: int

definition selectionCSS :: "bool \<Rightarrow> table_cell_box \<Rightarrow> table_cell_box option \<Rightarrow> int \<Rightarrow> int \<Rightarrow> frame" where
  "selectionCSS isWebKit startCell selectionEnd scrollTop scrollLeft =
     (let offset = (if isWebKit then 0 else 1);
          endCell = (case selectionEnd of None \<Rightarrow> startCell | Some c \<Rightarrow> c);
          endTop = (if tc_id startCell = tc_id endCell then tc_top startCell else tc_top endCell);
          endLeft = (if tc_id startCell = tc_id endCell then tc_left startCell else tc_left endCell);
          minLeft = min (tc_left startCell) endLeft;
          minTop = min (tc_top startCell) endTop;
          maxLeft = max (tc_left startCell) endLeft;
          maxTop = max (tc_top startCell) endTop;
          cellWidth = (if tc_left startCell < endLeft then outerWidth endCell else outerWidth startCell);
          cellHeight = (if tc_top startCell < endTop then outerHeight endCell else outerHeight startCell)
      in \<lparr>f_left = minLeft + scrollLeft - offset, f_top = minTop + scrollTop - offset,
          f_width = maxLeft + cellWidth - minLeft - 5, f_height = maxTop + cellHeight - minTop - 3\<rparr>)"

section \<open>Scrolling to the selected cell\<close>

text \<open>
  The scrollable element: its outer size, the size of the table in it and the scroll offsets, which the
  browser keeps between 0 and what is hidden.
\<close>

record scrollable =
  sc_height :: int
  sc_width :: int
  content_height :: int
  content_width :: int
  sc_scrollTop :: int
  sc_scrollLeft :: int

definition set_scrollTop :: "int \<Rightarrow> scrollable \<Rightarrow> scrollable" where
  "set_scrollTop v s = s\<lparr>sc_scrollTop := max 0 (min v (content_height s - sc_height s))\<rparr>"

definition set_scrollLeft :: "int \<Rightarrow> scrollable \<Rightarrow> scrollable" where
  "set_scrollLeft v s = s\<lparr>sc_scrollLeft := max 0 (min v (content_width s - sc_width s))\<rparr>"

definition scroll_to_cell :: "table_cell_box \<Rightarrow> scrollable \<Rightarrow> scrollable" where
  "scroll_to_cell c s =
     (if tc_top c < 0 then set_scrollTop (sc_scrollTop s + tc_top c) s
      else if tc_top c + outerHeight c > sc_height s
      then set_scrollTop (tc_top c + outerHeight c - sc_height s + sc_scrollTop s + 17) s
      else if tc_left c < 0 then set_scrollLeft (sc_scrollLeft s + tc_left c) s
      else if tc_left c + outerWidth c > sc_width s
      then set_scrollLeft (tc_left c + outerWidth c - sc_width s + sc_scrollLeft s + 17) s
      else s)"

text \<open>
  The selection of the view: \<open>cellAt\<close> gives the box of a cell, with its place inside the table;
  its position in the visible part follows the scroll offsets.  \<open>sb_active\<close> are the cells with the class
  \<open>active-cell\<close>, and \<open>sb_pending\<close> tells that \<open>_updateSelection\<close> is due at the end of the run loop.
\<close>

record selection_box =
  sb_selected :: "nat option"
  sb_end :: "nat option"
  sb_active :: "nat set"
  sb_frame :: "frame option"
  sb_scroll :: scrollable
  sb_pending :: bool

definition visible_box :: "(nat \<Rightarrow> table_cell_box) \<Rightarrow> scrollable \<Rightarrow> nat \<Rightarrow> table_cell_box" where
  "visible_box cellAt s i = (let b = cellAt i in
     b\<lparr>tc_id := i, tc_top := tc_top b - sc_scrollTop s, tc_left := tc_left b - sc_scrollLeft s\<rparr>)"

definition updateSelection :: "bool \<Rightarrow> bool \<Rightarrow> (nat \<Rightarrow> table_cell_box) \<Rightarrow> selection_box \<Rightarrow> selection_box" where
  "updateSelection isWebKit resizing cellAt v = (case sb_selected v of
       None \<Rightarrow> v
     | Some i \<Rightarrow>
         (let s = sb_scroll v; c = visible_box cellAt s i;
              v1 = v\<lparr>sb_active := insert i (sb_active v),
                     sb_frame := Some (selectionCSS isWebKit c (map_option (visible_box cellAt s) (sb_end v)) (sc_scrollTop s) (sc_scrollLeft s))\<rparr>
          in if resizing then v1 else v1\<lparr>sb_scroll := scroll_to_cell c s\<rparr>))"

definition selectionWillChange :: "selection_box \<Rightarrow> selection_box" where
  "selectionWillChange v = (case sb_selected v of None \<Rightarrow> v | Some i \<Rightarrow> v\<lparr>sb_active := sb_active v - {i}\<rparr>)"

definition set_selectedCell :: "nat option \<Rightarrow> selection_box \<Rightarrow> selection_box" where
  "set_selectedCell c v = (selectionWillChange v)\<lparr>sb_selected := c, sb_pending := True\<rparr>"

definition set_selectionEnd :: "nat option \<Rightarrow> selection_box \<Rightarrow> selection_box" where
  "set_selectionEnd c v = v\<lparr>sb_end := c, sb_pending := True\<rparr>"

definition end_run_loop :: "bool \<Rightarrow> bool \<Rightarrow> (nat \<Rightarrow> table_cell_box) \<Rightarrow> selection_box \<Rightarrow> selection_box" where
  "end_run_loop isWebKit resizing cellAt v =
     (if sb_pending v then updateSelection isWebKit resizing cellAt (v\<lparr>sb_pending := False\<rparr>) else v)"

text \<open>
  \<open>updateColumnWidth\<close> announces a change of the selected cell, so that the frame gets its new size, without
  the announcement before it.
\<close>

definition columnWidthDidChange :: "selection_box \<Rightarrow> selection_box" where
  "columnWidthDidChange v = v\<lparr>sb_pending := True\<rparr>"

datatype selection_event = SelectCell "nat option" | ExtendTo "nat option" | ColumnResized | EndRunLoop bool

fun selection_handle :: "bool \<Rightarrow> (nat \<Rightarrow> table_cell_box) \<Rightarrow> selection_event \<Rightarrow> selection_box \<Rightarrow> selection_box" where
  "selection_handle isWebKit cellAt (SelectCell c) v = set_selectedCell c v"
| "selection_handle isWebKit cellAt (ExtendTo c) v = set_selectionEnd c v"
| "selection_handle isWebKit cellAt ColumnResized v = columnWidthDidChange v"
| "selection_handle isWebKit cellAt (EndRunLoop resizing) v = end_run_loop isWebKit resizing cellAt v"

section \<open>The frame covers the selection\<close>

text \<open>
  Cells of one table: a cell further to the right begins where the other ends or later, and cells of a
  column have the same width; likewise for rows.
\<close>

definition on_grid :: "table_cell_box \<Rightarrow> table_cell_box \<Rightarrow> bool" where
  "on_grid a b \<longleftrightarrow> 0 \<le> outerWidth a \<and> 0 \<le> outerWidth b \<and> 0 \<le> outerHeight a \<and> 0 \<le> outerHeight b \<and>
     (tc_left a < tc_left b \<longrightarrow> tc_left a + outerWidth a \<le> tc_left b) \<and>
     (tc_left b < tc_left a \<longrightarrow> tc_left b + outerWidth b \<le> tc_left a) \<and>
     (tc_left a = tc_left b \<longrightarrow> outerWidth a = outerWidth b) \<and>
     (tc_top a < tc_top b \<longrightarrow> tc_top a + outerHeight a \<le> tc_top b) \<and>
     (tc_top b < tc_top a \<longrightarrow> tc_top b + outerHeight b \<le> tc_top a) \<and>
     (tc_top a = tc_top b \<longrightarrow> outerHeight a = outerHeight b) \<and>
     (tc_id a = tc_id b \<longrightarrow> a = b)"

text \<open>
  The frame spans exactly the rectangle of the two cells, less the width of its own border: whichever of
  the two is the first, it begins at the smaller edge and ends at the larger one.
\<close>

theorem frame_spans_selection:
  assumes "on_grid a b"
  shows "selectionCSS isWebKit a (Some b) scrollTop scrollLeft =
    \<lparr>f_left = min (tc_left a) (tc_left b) + scrollLeft - (if isWebKit then 0 else 1),
     f_top = min (tc_top a) (tc_top b) + scrollTop - (if isWebKit then 0 else 1),
     f_width = max (tc_left a + outerWidth a) (tc_left b + outerWidth b) - min (tc_left a) (tc_left b) - 5,
     f_height = max (tc_top a + outerHeight a) (tc_top b + outerHeight b) - min (tc_top a) (tc_top b) - 3\<rparr>"
proof -
  have same: "tc_id a = tc_id b \<Longrightarrow> a = b" using assms by (simp add: on_grid_def)
  have w: "max (tc_left a) (tc_left b) + (if tc_left a < tc_left b then outerWidth b else outerWidth a)
      = max (tc_left a + outerWidth a) (tc_left b + outerWidth b)"
    using assms by (auto simp: on_grid_def)
  have h: "max (tc_top a) (tc_top b) + (if tc_top a < tc_top b then outerHeight b else outerHeight a)
      = max (tc_top a + outerHeight a) (tc_top b + outerHeight b)"
    using assms by (auto simp: on_grid_def)
  show ?thesis
  proof (cases "tc_id a = tc_id b")
    case True
    with same have "a = b" by simp
    then show ?thesis by (simp add: selectionCSS_def)
  next
    case False
    with w h show ?thesis by (simp add: selectionCSS_def Let_def)
  qed
qed

definition cell_a :: table_cell_box where
  "cell_a = \<lparr>tc_id = 0, tc_top = 20, tc_left = 100, outerHeight = 20, outerWidth = 80\<rparr>"

definition cell_b :: table_cell_box where
  "cell_b = \<lparr>tc_id = 1, tc_top = 60, tc_left = 0, outerHeight = 25, outerWidth = 100\<rparr>"

theorem frame_spans_selection_witness:
  "selectionCSS True cell_a (Some cell_b) 0 0 = \<lparr>f_left = 0, f_top = 20, f_width = 175, f_height = 62\<rparr>"
proof -
  have "on_grid cell_a cell_b" by (simp add: on_grid_def cell_a_def cell_b_def)
  from frame_spans_selection [OF this, of True 0 0] show ?thesis by (simp add: cell_a_def cell_b_def)
qed

section \<open>Properties of the selected cell\<close>

definition in_rows :: "table_cell_box \<Rightarrow> scrollable \<Rightarrow> bool" where
  "in_rows c s \<longleftrightarrow> 0 \<le> tc_top c \<and> tc_top c + outerHeight c \<le> sc_height s"

definition in_columns :: "table_cell_box \<Rightarrow> scrollable \<Rightarrow> bool" where
  "in_columns c s \<longleftrightarrow> 0 \<le> tc_left c \<and> tc_left c + outerWidth c \<le> sc_width s"

text \<open>The cells of a table in its scrollable element, each small enough to be seen beside a scroll bar.\<close>

definition inside_table :: "table_cell_box \<Rightarrow> scrollable \<Rightarrow> bool" where
  "inside_table b s \<longleftrightarrow> 0 \<le> tc_top b \<and> tc_top b + outerHeight b \<le> content_height s \<and> 0 \<le> outerHeight b \<and>
     0 \<le> tc_left b \<and> tc_left b + outerWidth b \<le> content_width s \<and> 0 \<le> outerWidth b \<and>
     outerHeight b + 17 \<le> sc_height s \<and> outerWidth b + 17 \<le> sc_width s"

text \<open>One axis: a cell at \<open>p\<close> of size \<open>d\<close>, scrolled up or left to its edge, or down or right past the scroll bar.\<close>

lemma axis_back:
  fixes p d n c :: int
  assumes "0 \<le> p" and "p + d \<le> c" and "0 \<le> d" and "d + 17 \<le> n"
  shows "0 \<le> p - max 0 (min p (c - n))" and "p - max 0 (min p (c - n)) + d \<le> n"
  using assms by linarith+

lemma axis_forward:
  fixes p d n c :: int
  assumes "0 \<le> p" and "p + d \<le> c" and "0 \<le> d" and "d + 17 \<le> n"
  shows "0 \<le> p - max 0 (min (p + d - n + 17) (c - n))" and "p - max 0 (min (p + d - n + 17) (c - n)) + d \<le> n"
  using assms by linarith+

lemmas scroll_defs = scroll_to_cell_def set_scrollTop_def set_scrollLeft_def visible_box_def in_rows_def in_columns_def

lemma scrolled_rows:
  assumes "inside_table (cellAt i) s"
  shows "in_rows (visible_box cellAt (scroll_to_cell (visible_box cellAt s i) s) i) s"
proof -
  have a: "0 \<le> tc_top (cellAt i)" "tc_top (cellAt i) + outerHeight (cellAt i) \<le> content_height s" "0 \<le> outerHeight (cellAt i)"
    "outerHeight (cellAt i) + 17 \<le> sc_height s" using assms by (simp_all add: inside_table_def)
  from axis_back [OF a] axis_forward [OF a] show ?thesis by (simp add: scroll_defs Let_def algebra_simps)
qed

lemma scrolled_columns:
  assumes "inside_table (cellAt i) s" and "in_rows (visible_box cellAt s i) s"
  shows "in_columns (visible_box cellAt (scroll_to_cell (visible_box cellAt s i) s) i) s"
proof -
  have a: "0 \<le> tc_left (cellAt i)" "tc_left (cellAt i) + outerWidth (cellAt i) \<le> content_width s" "0 \<le> outerWidth (cellAt i)"
    "outerWidth (cellAt i) + 17 \<le> sc_width s" using assms(1) by (simp_all add: inside_table_def)
  from axis_back [OF a] axis_forward [OF a] assms(2) show ?thesis by (simp add: scroll_defs Let_def algebra_simps)
qed

lemma end_run_loop_scroll:
  assumes "sb_selected v = Some i" and "sb_pending v"
  shows "sb_scroll (end_run_loop k False cellAt v) = scroll_to_cell (visible_box cellAt (sb_scroll v) i) (sb_scroll v)"
  using assms by (simp add: end_run_loop_def updateSelection_def Let_def)

text \<open>
  At the end of a run loop the selected cell is scrolled into view: always vertically, and
  horizontally as well when it needed no vertical scrolling.
\<close>

theorem selected_cell_in_view:
  assumes "sb_selected v = Some i" and "sb_pending v" and "inside_table (cellAt i) (sb_scroll v)"
  shows "in_rows (visible_box cellAt (sb_scroll (end_run_loop k False cellAt v)) i) (sb_scroll v) \<and>
    (in_rows (visible_box cellAt (sb_scroll v) i) (sb_scroll v) \<longrightarrow>
      in_columns (visible_box cellAt (sb_scroll (end_run_loop k False cellAt v)) i) (sb_scroll v))"
  using scrolled_rows [of cellAt i, OF assms(3)] scrolled_columns [of cellAt i, OF assms(3)] by (simp only: end_run_loop_scroll [OF assms(1,2)]) blast

text \<open>Cells of 100 by 20 pixels in rows of ten, in a table seen through 300 by 200 pixels.\<close>

definition grid_cell :: "nat \<Rightarrow> table_cell_box" where
  "grid_cell i = \<lparr>tc_id = i, tc_top = 20 * int (i div 10), tc_left = 100 * int (i mod 10), outerHeight = 20, outerWidth = 100\<rparr>"

definition grid_selection :: "nat \<Rightarrow> selection_box" where
  "grid_selection i = \<lparr>sb_selected = Some i, sb_end = None, sb_active = {}, sb_frame = None,
     sb_scroll = \<lparr>sc_height = 200, sc_width = 300, content_height = 1000, content_width = 1000, sc_scrollTop = 0, sc_scrollLeft = 0\<rparr>,
     sb_pending = True\<rparr>"

theorem selected_cell_in_view_witness:
  "in_columns (visible_box grid_cell (sb_scroll (end_run_loop True False grid_cell (grid_selection 9))) 9) (sb_scroll (grid_selection 9))"
proof -
  have "inside_table (grid_cell 9) (sb_scroll (grid_selection 9))"
    by (simp add: inside_table_def grid_cell_def grid_selection_def)
  moreover have "in_rows (visible_box grid_cell (sb_scroll (grid_selection 9)) 9) (sb_scroll (grid_selection 9))"
    by (simp add: in_rows_def visible_box_def grid_cell_def grid_selection_def)
  ultimately show ?thesis
    using selected_cell_in_view [of "grid_selection 9" 9 grid_cell True] by (simp add: grid_selection_def)
qed

text \<open>A cell that is out of view in both directions is scrolled to vertically only and stays hidden.\<close>

theorem corner_cell_stays_hidden:
  "let s = sb_scroll (end_run_loop True False grid_cell (grid_selection 499)) in
     in_rows (visible_box grid_cell s 499) s \<and> \<not> in_columns (visible_box grid_cell s 499) s"
  by (simp add: end_run_loop_scroll [of _ 499] grid_selection_def grid_cell_def scroll_defs Let_def)

definition active_ok :: "selection_box \<Rightarrow> bool" where
  "active_ok v \<longleftrightarrow> sb_active v \<subseteq> set_option (sb_selected v) \<and> (\<not> sb_pending v \<longrightarrow> sb_active v = set_option (sb_selected v))"

lemma selection_handle_ok: "active_ok v \<Longrightarrow> active_ok (selection_handle k cellAt e v)"
  by (cases e; cases "sb_selected v")
     (auto simp: active_ok_def set_selectedCell_def selectionWillChange_def set_selectionEnd_def columnWidthDidChange_def
        end_run_loop_def updateSelection_def Let_def)

text \<open>
  The mark on the selected cell: after any changes of the selection, resizing of columns and ends of
  run loops no other cell has the mark, and at the end of a run loop the selected cell has it.
\<close>

theorem active_mark_follows_selection:
  assumes "active_ok v"
  shows "active_ok (fold (selection_handle k cellAt) es v) \<and>
    sb_active (end_run_loop k r cellAt (fold (selection_handle k cellAt) es v)) = set_option (sb_selected (fold (selection_handle k cellAt) es v))"
proof -
  have ok: "active_ok (fold (selection_handle k cellAt) es v)" using assms
    by (induction es arbitrary: v) (simp_all add: selection_handle_ok)
  then show ?thesis
    by (cases "sb_selected (fold (selection_handle k cellAt) es v)")
       (auto simp: active_ok_def end_run_loop_def updateSelection_def Let_def)
qed

theorem active_mark_follows_selection_witness:
  "sb_active (end_run_loop True False grid_cell (fold (selection_handle True grid_cell)
     [SelectCell (Some 3), SelectCell (Some 4), EndRunLoop False, ColumnResized, SelectCell (Some 5)] (grid_selection 1))) = {5}"
proof -
  have "active_ok (grid_selection 1)" by (simp add: active_ok_def grid_selection_def)
  from active_mark_follows_selection [OF this, of True grid_cell
      "[SelectCell (Some 3), SelectCell (Some 4), EndRunLoop False, ColumnResized, SelectCell (Some 5)]" False]
  show ?thesis by (simp add: set_selectedCell_def)
qed

end
